(* ===== verification/Prelude.thy ===== *)
theory Prelude
  imports Main "HOL-Library.Word"
begin

text \<open>
  Shared vocabulary of the development: the machine types of the Go source, the two's complement
  wrap-around of \<^verbatim>\<open>int64\<close> and \<^verbatim>\<open>int32\<close>, Go's truncating division, slices, Go strings as bytes,
  and the big-endian encoding of \<^verbatim>\<open>encoding/binary\<close>.  The collections \<open>wire\<close> (laws of the byte
  encodings), \<open>slices\<close> (laws of slicing) and \<open>goint\<close> (laws of wrapped integers) carry the
  simplification rules that the component theories share.
\<close>

unbundle bit_operations_syntax

named_theorems wire
named_theorems slices
named_theorems goint

type_synonym byte = "8 word"
type_synonym bytes = "8 word list"
type_synonym u16 = "16 word"
type_synonym u32 = "32 word"
type_synonym u64 = "64 word"

subsection \<open>Signed integers of fixed width\<close>

text \<open>
  Go's \<^verbatim>\<open>int64\<close> (and \<^verbatim>\<open>time.Duration\<close>, and \<^verbatim>\<open>int\<close> on a 64-bit platform) and \<^verbatim>\<open>int32\<close> are integers
  whose arithmetic wraps: a value is an \<^typ>\<open>int\<close> and every operation that can leave the range is
  followed by the wrap.
\<close>

definition wrap64 :: "int \<Rightarrow> int" where
  "wrap64 x = signed_take_bit 63 x"

definition wrap32 :: "int \<Rightarrow> int" where
  "wrap32 x = signed_take_bit 31 x"

definition in64 :: "int \<Rightarrow> bool" where
  "in64 x \<longleftrightarrow> - (2 ^ 63) \<le> x \<and> x < 2 ^ 63"

definition in32 :: "int \<Rightarrow> bool" where
  "in32 x \<longleftrightarrow> - (2 ^ 31) \<le> x \<and> x < 2 ^ 31"

text \<open>Go's \<^verbatim>\<open>/\<close> on signed integers truncates towards zero.\<close>

definition go_quot :: "int \<Rightarrow> int \<Rightarrow> int" where
  "go_quot a b = sgn a * sgn b * (\<bar>a\<bar> div \<bar>b\<bar>)"

lemma wrap64_id [goint]: "in64 x \<Longrightarrow> wrap64 x = x"
  by (simp add: wrap64_def in64_def signed_take_bit_int_eq_self)

lemma wrap32_id [goint]: "in32 x \<Longrightarrow> wrap32 x = x"
  by (simp add: wrap32_def in32_def signed_take_bit_int_eq_self)

lemma wrap64_iff: "wrap64 x = x \<longleftrightarrow> in64 x"
  by (simp add: wrap64_def in64_def signed_take_bit_int_eq_self_iff)

lemma in64_wrap64: "in64 (wrap64 x)"
  using signed_take_bit_int_greater_eq_minus_exp [of 63 x] signed_take_bit_int_less_exp [of 63 x]
  by (simp add: wrap64_def in64_def)

lemma sint_of_int64 [goint]: "sint (word_of_int x :: u64) = wrap64 x"
  by (simp add: sint_sbintrunc' wrap64_def)

lemma sint_of_int32 [goint]: "sint (word_of_int x :: u32) = wrap32 x"
  by (simp add: sint_sbintrunc' wrap32_def)

lemma in64_add: "in64 a \<Longrightarrow> 0 \<le> b \<Longrightarrow> a + b < 2 ^ 63 \<Longrightarrow> in64 (a + b)"
  by (simp add: in64_def)

lemma wrap64_add: "in64 a \<Longrightarrow> 0 \<le> b \<Longrightarrow> a + b < 2 ^ 63 \<Longrightarrow> wrap64 (a + b) = a + b"
  by (simp add: in64_add wrap64_id)

lemma in64_int: "int n < 2 ^ 63 \<Longrightarrow> in64 (int n)"
  by (simp add: in64_def)

lemma go_quot_nonneg [goint]: "0 \<le> a \<Longrightarrow> 0 < b \<Longrightarrow> go_quot a b = a div b"
  by (cases "a = 0") (auto simp: go_quot_def)

subsection \<open>Slices\<close>

text \<open>\<^verbatim>\<open>b[i:j]\<close> of a byte slice, for \<open>i \<le> j \<le> len b\<close>; the source guards every use of it.\<close>

definition slice :: "'a list \<Rightarrow> nat \<Rightarrow> nat \<Rightarrow> 'a list" where
  "slice b i j = take (j - i) (drop i b)"

lemma length_slice [slices]: "length (slice b i j) = min (j - i) (length b - i)"
  by (simp add: slice_def min.commute)

lemma slice_append_right [slices]:
  "length xs \<le> i \<Longrightarrow> slice (xs @ ys) i j = slice ys (i - length xs) (j - length xs)"
  by (simp add: slice_def)

lemma slice_Cons [slices]: "0 < i \<Longrightarrow> slice (x # xs) i j = slice xs (i - 1) (j - 1)"
  by (cases i; cases j) (simp_all add: slice_def)

lemma slice_all [slices]: "length xs \<le> j \<Longrightarrow> slice xs 0 j = xs"
  by (simp add: slice_def)

lemma slice_prefix [slices]: "length xs = j \<Longrightarrow> slice (xs @ ys) 0 j = xs"
  by (simp add: slice_def)

lemma slice_middle: "length xs = i \<Longrightarrow> length ys = j - i \<Longrightarrow> slice (xs @ ys @ zs) i j = ys"
  by (simp add: slice_def)

lemma drop_field: "drop off p = x @ r \<Longrightarrow> drop (off + length x) p = r"
  by (metis add.commute append_eq_conv_conj drop_drop)

lemma slice_field: "drop off p = x @ r \<Longrightarrow> slice p off (off + length x) = x"
  by (simp add: slice_def)

lemma length_field: "drop off p = x @ r \<Longrightarrow> off \<le> length p \<Longrightarrow> off + length x + length r = length p"
  by (metis add.assoc append_take_drop_id length_append length_take min_absorb2)

subsection \<open>Big-endian integers\<close>

text \<open>
  \<^verbatim>\<open>binary.BigEndian\<close>: \<open>be\<close> reads all bytes of a slice into a word, most significant byte first;
  \<open>beput n\<close> writes the \<open>n\<close> low bytes of a word.
\<close>

definition be :: "bytes \<Rightarrow> 'a::len word" where
  "be b = foldl (\<lambda>i x. push_bit 8 i OR ucast x) 0 b"

fun beput :: "nat \<Rightarrow> 'a::len word \<Rightarrow> bytes" where
  "beput 0 v = []"
| "beput (Suc n) v = beput n (drop_bit 8 v) @ [ucast v]"

definition be16 :: "bytes \<Rightarrow> u16" where
  "be16 b = be (take 2 b)"

definition be32 :: "bytes \<Rightarrow> u32" where
  "be32 b = be (take 4 b)"

definition be64 :: "bytes \<Rightarrow> u64" where
  "be64 b = be (take 8 b)"

definition put16 :: "u16 \<Rightarrow> bytes" where
  "put16 v = beput 2 v"

definition put32 :: "u32 \<Rightarrow> bytes" where
  "put32 v = beput 4 v"

definition put64 :: "u64 \<Rightarrow> bytes" where
  "put64 v = beput 8 v"

lemma be_Nil [simp]: "be [] = 0"
  by (simp add: be_def)

lemma be_snoc [simp]: "be (xs @ [x]) = push_bit 8 (be xs) OR ucast x"
  by (simp add: be_def)

lemma length_beput [simp]: "length (beput n v) = n"
  by (induction n v rule: beput.induct) simp_all

lemma push_take_drop_8:
  "push_bit 8 (take_bit m (drop_bit 8 v)) OR ucast (ucast v :: byte) = take_bit (8 + m) v"
  for v :: "'a::len word"
  by (rule bit_word_eqI) (auto simp: bit_simps dest: bit_imp_le_length)

lemma be_beput: "be (beput n v) = take_bit (8 * n) v"
proof (induction n arbitrary: v)
  case 0
  then show ?case by simp
next
  case (Suc n)
  then show ?case
    using push_take_drop_8 [of "8 * n" v] by simp
qed

lemma be16_put16 [wire, simp]: "be16 (put16 v @ r) = v"
  using be_beput [of 2 v] by (simp add: be16_def put16_def take_bit_word_eq_self)

lemma be32_put32 [wire, simp]: "be32 (put32 v @ r) = v"
  using be_beput [of 4 v] by (simp add: be32_def put32_def take_bit_word_eq_self)

lemma be64_put64 [wire, simp]: "be64 (put64 v @ r) = v"
  using be_beput [of 8 v] by (simp add: be64_def put64_def take_bit_word_eq_self)

lemma be16_put16_all [wire, simp]: "be16 (put16 v) = v"
  using be16_put16 [of v "[]"] by simp

lemma be32_put32_all [wire, simp]: "be32 (put32 v) = v"
  using be32_put32 [of v "[]"] by simp

lemma be64_put64_all [wire, simp]: "be64 (put64 v) = v"
  using be64_put64 [of v "[]"] by simp

lemma length_put [wire, simp]:
  shows "length (put16 a) = 2" and "length (put32 b) = 4" and "length (put64 c) = 8"
  by (simp_all add: put16_def put32_def put64_def)

text \<open>The encoder is onto: reading \<open>n\<close> bytes into a word wide enough and writing it back is the identity.\<close>

lemma drop_8_be_snoc:
  "drop_bit 8 (push_bit 8 w OR ucast (x :: byte)) = take_bit (LENGTH('a) - 8) w"
  for w :: "'a::len word"
  by (rule bit_word_eqI) (auto simp: bit_simps dest: bit_imp_le_length)

lemma ucast_8_be_snoc:
  "8 \<le> LENGTH('a) \<Longrightarrow> ucast (push_bit 8 w OR ucast (x :: byte)) = x"
  for w :: "'a::len word"
  by (rule bit_word_eqI) (auto simp: bit_simps dest: bit_imp_le_length)

lemma take_bit_be: "8 * length b \<le> m \<Longrightarrow> take_bit m (be b) = (be b :: 'a::len word)"
proof (induction b arbitrary: m rule: rev_induct)
  case Nil
  then show ?case by simp
next
  case (snoc x xs)
  then obtain k where m: "m = k + 8" and k: "8 * length xs \<le> k"
    by (intro that [of "m - 8"]) auto
  have "take_bit m (push_bit 8 (be xs) OR ucast x) = push_bit 8 (take_bit k (be xs)) OR (ucast x :: 'a word)"
    unfolding m by (rule bit_word_eqI) (auto simp: bit_simps dest: bit_imp_le_length)
  then show ?case
    using snoc.IH [OF k] by simp
qed

lemma beput_be: "8 * length b \<le> LENGTH('a) \<Longrightarrow> beput (length b) (be b :: 'a::len word) = b"
proof (induction b rule: rev_induct)
  case Nil
  then show ?case by simp
next
  case (snoc x xs)
  have len: "8 * length xs \<le> LENGTH('a) - 8" and w: "8 \<le> LENGTH('a)"
    using snoc.prems by auto
  have "drop_bit 8 (be (xs @ [x]) :: 'a word) = be xs"
    unfolding be_snoc drop_8_be_snoc by (rule take_bit_be [OF len])
  then show ?case
    using snoc by (simp add: ucast_8_be_snoc [OF w])
qed

lemma put32_be32: "length b = 4 \<Longrightarrow> put32 (be32 b) = b"
  using beput_be [of b, where 'a = 32] by (simp add: put32_def be32_def)

lemma put16_be16: "length b = 2 \<Longrightarrow> put16 (be16 b) = b"
  using beput_be [of b, where 'a = 16] by (simp add: put16_def be16_def)

lemma take_bit_small: "unat w < 2 ^ n \<Longrightarrow> take_bit n w = w" for w :: "'a::len word"
  by (rule word_unat_eq_iff [THEN iffD2]) (simp add: unsigned_take_bit_eq take_bit_nat_eq_self)

lemma be32_take: "be32 (take n b) = be32 b" if "4 \<le> n"
  using that by (simp add: be32_def)

subsection \<open>Go strings\<close>

text \<open>\<^verbatim>\<open>string(b)\<close> of a byte slice and \<^verbatim>\<open>[]byte(s)\<close> of a string: Go strings are byte sequences.\<close>

definition gostring :: "bytes \<Rightarrow> string" where
  "gostring b = map (\<lambda>x. char_of (unat x)) b"

definition strbytes :: "string \<Rightarrow> bytes" where
  "strbytes s = map (\<lambda>c. of_nat (of_char c)) s"

lemma gostring_strbytes [wire, simp]: "gostring (strbytes s) = s"
  by (simp add: gostring_def strbytes_def comp_def unat_of_nat map_idI)

lemma length_strbytes [wire, simp]: "length (strbytes s) = length s"
  by (simp add: strbytes_def)

subsection \<open>Sizes that fit a 32-bit field\<close>

lemma unat_of_nat_u32 [wire]: "n < 2 ^ 32 \<Longrightarrow> unat (of_nat n :: u32) = n"
  by (simp add: unat_of_nat)

lemma unat_of_nat_u16 [wire]: "n < 2 ^ 16 \<Longrightarrow> unat (of_nat n :: u16) = n"
  by (simp add: unat_of_nat)

lemma bit_byte_ge: "8 \<le> n \<Longrightarrow> \<not> bit (b :: byte) n"
  using bit_imp_le_length [of b n] by auto

lemma byte_eqI:
  fixes a b :: byte
  assumes "bit a 0 = bit b 0" "bit a 1 = bit b 1" "bit a 2 = bit b 2" "bit a 3 = bit b 3"
    "bit a 4 = bit b 4" "bit a 5 = bit b 5" "bit a 6 = bit b 6" "bit a 7 = bit b 7"
  shows "a = b"
proof (rule bit_word_eqI)
  fix n
  assume "n < LENGTH(8)"
  then have "n = 0 \<or> n = 1 \<or> n = 2 \<or> n = 3 \<or> n = 4 \<or> n = 5 \<or> n = 6 \<or> n = 7"
    by simp linarith
  then show "bit a n = bit b n"
    using assms by auto
qed

lemma list_of_length:
  "length xs = 2 \<Longrightarrow> \<exists>a b. xs = [a, b]" "length xs = 4 \<Longrightarrow> \<exists>a b c d. xs = [a, b, c, d]"
  by (auto simp: length_Suc_conv numeral_eq_Suc)

end
