(* ===== verification/Pio.thy ===== *)
theory Pio
  imports Prelude
begin

text \<open>
  Package \<^verbatim>\<open>av/utils/bits/pio\<close>: fixed-width integer access (\<^verbatim>\<open>reader.go\<close>, \<^verbatim>\<open>writer.go\<close>) and slicing of
  vectors of byte slices (\<^verbatim>\<open>vec.go\<close>).  Signed results are the \<^const>\<open>sint\<close> of the word the code
  assembles.  The writers return the bytes that the code stores at the start of its argument.  The
  lemmas show that each writer is inverted by its reader and that \<^verbatim>\<open>VecSlice\<close> is the slice of the
  concatenation.
\<close>

subsection \<open>Readers\<close>

definition U8 :: "bytes \<Rightarrow> byte" where
  "U8 b = b ! 0"

definition U16BE :: "bytes \<Rightarrow> u16" where
  "U16BE b = (let i = ucast (b ! 0); i = push_bit 8 i in i OR ucast (b ! 1))"

definition I16BE :: "bytes \<Rightarrow> int" where
  "I16BE b = (let i = ucast (b ! 0) :: u16; i = push_bit 8 i in sint (i OR ucast (b ! 1)))"

definition I24BE :: "bytes \<Rightarrow> int" where
  "I24BE b =
    (let i = scast (b ! 0) :: u32; i = push_bit 8 i; i = i OR ucast (b ! 1); i = push_bit 8 i
     in sint (i OR ucast (b ! 2)))"

definition U24BE :: "bytes \<Rightarrow> u32" where
  "U24BE b =
    (let i = ucast (b ! 0); i = push_bit 8 i; i = i OR ucast (b ! 1); i = push_bit 8 i
     in i OR ucast (b ! 2))"

definition I32BE :: "bytes \<Rightarrow> int" where
  "I32BE b =
    (let i = scast (b ! 0) :: u32; i = push_bit 8 i; i = i OR ucast (b ! 1); i = push_bit 8 i;
         i = i OR ucast (b ! 2); i = push_bit 8 i
     in sint (i OR ucast (b ! 3)))"

definition U32LE :: "bytes \<Rightarrow> u32" where
  "U32LE b =
    (let i = ucast (b ! 3); i = push_bit 8 i; i = i OR ucast (b ! 2); i = push_bit 8 i;
         i = i OR ucast (b ! 1); i = push_bit 8 i
     in i OR ucast (b ! 0))"

definition U32BE :: "bytes \<Rightarrow> u32" where
  "U32BE b =
    (let i = ucast (b ! 0); i = push_bit 8 i; i = i OR ucast (b ! 1); i = push_bit 8 i;
         i = i OR ucast (b ! 2); i = push_bit 8 i
     in i OR ucast (b ! 3))"

definition U40BE :: "bytes \<Rightarrow> u64" where
  "U40BE b =
    (let i = ucast (b ! 0); i = push_bit 8 i; i = i OR ucast (b ! 1); i = push_bit 8 i;
         i = i OR ucast (b ! 2); i = push_bit 8 i; i = i OR ucast (b ! 3); i = push_bit 8 i
     in i OR ucast (b ! 4))"

definition U64BE :: "bytes \<Rightarrow> u64" where
  "U64BE b =
    (let i = ucast (b ! 0); i = push_bit 8 i; i = i OR ucast (b ! 1); i = push_bit 8 i;
         i = i OR ucast (b ! 2); i = push_bit 8 i; i = i OR ucast (b ! 3); i = push_bit 8 i;
         i = i OR ucast (b ! 4); i = push_bit 8 i; i = i OR ucast (b ! 5); i = push_bit 8 i;
         i = i OR ucast (b ! 6); i = push_bit 8 i
     in i OR ucast (b ! 7))"

definition I64BE :: "bytes \<Rightarrow> int" where
  "I64BE b =
    (let i = scast (b ! 0) :: u64; i = push_bit 8 i; i = i OR ucast (b ! 1); i = push_bit 8 i;
         i = i OR ucast (b ! 2); i = push_bit 8 i; i = i OR ucast (b ! 3); i = push_bit 8 i;
         i = i OR ucast (b ! 4); i = push_bit 8 i; i = i OR ucast (b ! 5); i = push_bit 8 i;
         i = i OR ucast (b ! 6); i = push_bit 8 i
     in sint (i OR ucast (b ! 7)))"

subsection \<open>Writers\<close>

definition PutU8 :: "byte \<Rightarrow> bytes" where
  "PutU8 v = [v]"

definition PutU16BE :: "u16 \<Rightarrow> bytes" where
  "PutU16BE v = [ucast (drop_bit 8 v), ucast v]"

definition PutI16BE :: "int \<Rightarrow> bytes" where
  "PutI16BE v = [word_of_int (drop_bit 8 v), word_of_int v]"

definition PutU24BE :: "u32 \<Rightarrow> bytes" where
  "PutU24BE v = [ucast (drop_bit 16 v), ucast (drop_bit 8 v), ucast v]"

definition PutI24BE :: "int \<Rightarrow> bytes" where
  "PutI24BE v = [word_of_int (drop_bit 16 v), word_of_int (drop_bit 8 v), word_of_int v]"

definition PutU32BE :: "u32 \<Rightarrow> bytes" where
  "PutU32BE v = [ucast (drop_bit 24 v), ucast (drop_bit 16 v), ucast (drop_bit 8 v), ucast v]"

definition PutI32BE :: "int \<Rightarrow> bytes" where
  "PutI32BE v = [word_of_int (drop_bit 24 v), word_of_int (drop_bit 16 v), word_of_int (drop_bit 8 v), word_of_int v]"

definition PutU32LE :: "u32 \<Rightarrow> bytes" where
  "PutU32LE v = [ucast v, ucast (drop_bit 8 v), ucast (drop_bit 16 v), ucast (drop_bit 24 v)]"

definition PutU40BE :: "u64 \<Rightarrow> bytes" where
  "PutU40BE v = [ucast (drop_bit 32 v), ucast (drop_bit 24 v), ucast (drop_bit 16 v), ucast (drop_bit 8 v), ucast v]"

definition PutU48BE :: "u64 \<Rightarrow> bytes" where
  "PutU48BE v = [ucast (drop_bit 40 v), ucast (drop_bit 32 v), ucast (drop_bit 24 v), ucast (drop_bit 16 v),
     ucast (drop_bit 8 v), ucast v]"

definition PutU64BE :: "u64 \<Rightarrow> bytes" where
  "PutU64BE v = [ucast (drop_bit 56 v), ucast (drop_bit 48 v), ucast (drop_bit 40 v), ucast (drop_bit 32 v),
     ucast (drop_bit 24 v), ucast (drop_bit 16 v), ucast (drop_bit 8 v), ucast v]"

definition PutI64BE :: "int \<Rightarrow> bytes" where
  "PutI64BE v = [word_of_int (drop_bit 56 v), word_of_int (drop_bit 48 v), word_of_int (drop_bit 40 v),
     word_of_int (drop_bit 32 v), word_of_int (drop_bit 24 v), word_of_int (drop_bit 16 v),
     word_of_int (drop_bit 8 v), word_of_int v]"

text \<open>The unsigned big-endian functions agree with \<^verbatim>\<open>encoding/binary\<close>.\<close>

lemma U_be:
  "U16BE (a # b # r) = be [a, b]"
  "U24BE (a # b # c # r) = be [a, b, c]"
  "U32BE (a # b # c # d # r) = be [a, b, c, d]"
  "U40BE (a # b # c # d # e # r) = be [a, b, c, d, e]"
  "U64BE (a # b # c # d # e # f # g # h # r) = be [a, b, c, d, e, f, g, h]"
  by (simp_all add: U16BE_def U24BE_def U32BE_def U40BE_def U64BE_def be_def Let_def)

lemma Put_beput:
  "PutU16BE v = beput 2 v" "PutU24BE w = beput 3 w" "PutU32BE w = beput 4 w"
  "PutU40BE x = beput 5 x" "PutU48BE x = beput 6 x" "PutU64BE x = beput 8 x"
  by (simp_all add: PutU16BE_def PutU24BE_def PutU32BE_def PutU40BE_def PutU48BE_def PutU64BE_def numeral_eq_Suc)

lemma I_sint:
  "I16BE b = sint (U16BE b)" "I32BE b = sint (U32BE b)" "I64BE b = sint (U64BE b)"
proof -
  show "I16BE b = sint (U16BE b)"
    by (simp add: I16BE_def U16BE_def Let_def)
  show "I32BE b = sint (U32BE b)"
    unfolding I32BE_def U32BE_def Let_def
    by (rule arg_cong [where f = sint], rule bit_word_eqI) (auto simp: bit_simps dest: bit_imp_le_length)
  show "I64BE b = sint (U64BE b)"
    unfolding I64BE_def U64BE_def Let_def
    by (rule arg_cong [where f = sint], rule bit_word_eqI) (auto simp: bit_simps dest: bit_imp_le_length)
qed

subsection \<open>Round trips\<close>

lemma PutI_PutU:
  "PutI16BE v = PutU16BE (word_of_int v)" "PutI24BE v = PutU24BE (word_of_int v)"
  "PutI32BE v = PutU32BE (word_of_int v)" "PutI64BE v = PutU64BE (word_of_int v)"
proof -
  have byte: "(word_of_int (drop_bit n v) :: byte) = ucast (drop_bit n (word_of_int v :: 'a::len word))"
    if "n + 8 \<le> LENGTH('a)" for n
    using that by (intro bit_word_eqI) (auto simp: bit_simps bit_word_of_int_iff)
  have low: "(word_of_int v :: byte) = ucast (word_of_int v :: 'a::len word)" if "8 \<le> LENGTH('a)"
    using that by (intro bit_word_eqI) (auto simp: bit_simps bit_word_of_int_iff)
  show "PutI16BE v = PutU16BE (word_of_int v)" "PutI24BE v = PutU24BE (word_of_int v)"
    "PutI32BE v = PutU32BE (word_of_int v)" "PutI64BE v = PutU64BE (word_of_int v)"
    unfolding PutI16BE_def PutU16BE_def PutI24BE_def PutU24BE_def PutI32BE_def PutU32BE_def
      PutI64BE_def PutU64BE_def
    by (simp_all only: list.inject simp_thms, (intro conjI byte low; simp)+)
qed

lemma U_PutU:
  "U16BE (PutU16BE a @ r) = a" "U24BE (PutU24BE b @ r) = take_bit 24 b" "U32BE (PutU32BE b @ r) = b"
  "U40BE (PutU40BE c @ r) = take_bit 40 c" "U64BE (PutU64BE c @ r) = c" "U32LE (PutU32LE b @ r) = b"
proof -
  show "U16BE (PutU16BE a @ r) = a"
    using be_beput [of 2 a] by (simp add: PutU16BE_def U_be numeral_eq_Suc take_bit_word_eq_self)
  show "U24BE (PutU24BE b @ r) = take_bit 24 b"
    using be_beput [of 3 b] by (simp add: PutU24BE_def U_be numeral_eq_Suc)
  show u32: "U32BE (PutU32BE b @ r) = b"
    using be_beput [of 4 b] by (simp add: PutU32BE_def U_be numeral_eq_Suc take_bit_word_eq_self)
  show "U40BE (PutU40BE c @ r) = take_bit 40 c"
    using be_beput [of 5 c] by (simp add: PutU40BE_def U_be numeral_eq_Suc)
  show "U64BE (PutU64BE c @ r) = c"
    using be_beput [of 8 c] by (simp add: PutU64BE_def U_be numeral_eq_Suc take_bit_word_eq_self)
  show "U32LE (PutU32LE b @ r) = b"
    using u32 by (simp add: U32LE_def PutU32LE_def U32BE_def PutU32BE_def Let_def)
qed

subsection \<open>Vectors of slices\<close>

definition VecLen :: "bytes list \<Rightarrow> nat" where
  "VecLen vec = foldl (\<lambda>n b. n + length b) 0 vec"

text \<open>The first loop of \<^verbatim>\<open>VecSliceTo\<close>, on the slices from \<^verbatim>\<open>in[i]\<close> on: skip \<open>s\<close> bytes.\<close>

function vecSkip :: "bytes list \<Rightarrow> nat \<Rightarrow> nat \<Rightarrow> int \<Rightarrow> bytes list \<times> nat \<times> nat \<times> int" where
  "vecSkip [] off s e = ([], off, s, e)"
| "vecSkip (x # xs) off s e =
    (if s > 0
     then let left = length x; read = min left s in
       if left - read = 0 then vecSkip xs 0 (s - read) (e - int read)
       else vecSkip (x # xs) (off + read) (s - read) (e - int read)
     else (x # xs, off, s, e))"
  by pat_completeness auto
termination
  by (relation "measures [\<lambda>(xs, off, s, e). length xs, \<lambda>(xs, off, s, e). s]") auto

text \<open>The second loop: collect slices until \<open>e\<close> reaches 0, or to the end when \<open>e\<close> is negative.\<close>

function vecTake :: "bytes list \<Rightarrow> nat \<Rightarrow> int \<Rightarrow> bytes list \<times> int" where
  "vecTake [] off e = ([], e)"
| "vecTake (x # xs) off e =
    (if e \<noteq> 0
     then let left = length x - off; read = (if e > 0 \<and> e < int left then nat e else left);
              (out, e') = (if left - read = 0 then vecTake xs 0 (e - int read)
                           else vecTake (x # xs) (off + read) (e - int read))
          in (slice x off (off + read) # out, e')
     else ([], e))"
  by pat_completeness auto
termination
  by (relation "measures [\<lambda>(xs, off, e). length xs, \<lambda>(xs, off, e). nat \<bar>e\<bar>]") (auto split: if_splits)

text \<open>\<^verbatim>\<open>VecSlice\<close> with \<^verbatim>\<open>VecSliceTo\<close>; \<open>None\<close> stands for its panics.\<close>

definition VecSlice :: "bytes list \<Rightarrow> int \<Rightarrow> int \<Rightarrow> bytes list option" where
  "VecSlice ins s0 e0 =
    (let s = (if s0 < 0 then 0 else s0) in
     if e0 \<ge> 0 \<and> e0 < s then None
     else case vecSkip ins 0 (nat s) e0 of
       (xs, off, s', e') \<Rightarrow>
         if s' > 0 then None
         else case vecTake xs off e' of
           (out, e'') \<Rightarrow> if e'' > 0 then None else Some out)"

lemma VecLen_concat: "VecLen vec = length (concat vec)"
proof -
  have "foldl (\<lambda>n b. n + length b) k vec = k + length (concat vec)" for k
    by (induction vec arbitrary: k) simp_all
  then show ?thesis by (simp add: VecLen_def)
qed

lemma vecSkip_zero [simp]: "vecSkip xs off 0 e = (xs, off, 0, e)"
  by (cases xs) simp_all

text \<open>An offset into the first slice of a suffix.\<close>

definition inFirst :: "bytes list \<Rightarrow> nat \<Rightarrow> bool" where
  "inFirst xs off \<longleftrightarrow> off = 0 \<or> (xs \<noteq> [] \<and> off < length (hd xs))"

lemma vecSkip_ok:
  "s \<le> length (concat ins) \<Longrightarrow>
   \<exists>xs off. vecSkip ins 0 s e = (xs, off, 0, e - int s) \<and> inFirst xs off \<and> drop off (concat xs) = drop s (concat ins)"
proof (induction ins arbitrary: s e)
  case Nil
  then show ?case by (simp add: inFirst_def)
next
  case (Cons x ins)
  consider "s = 0" | "0 < s" "s < length x" | "0 < s" "length x \<le> s"
    by linarith
  then show ?case
  proof cases
    case 3
    then show ?thesis
      using Cons.IH [of "s - length x" "e - int (length x)"] Cons.prems by (auto simp: of_nat_diff Let_def)
  qed (auto simp: inFirst_def Let_def)
qed

lemma vecSkip_short: "length (concat ins) < s \<Longrightarrow> \<exists>e'. vecSkip ins 0 s e = ([], 0, s - length (concat ins), e')"
proof (induction ins arbitrary: s e)
  case (Cons x ins)
  then have "0 < s" "length x \<le> s"
    by auto
  then show ?case
    using Cons.IH [of "s - length x" "e - int (length x)"] Cons.prems by (auto simp: Let_def)
qed simp

lemma vecTake_zero [simp]: "vecTake xs off 0 = ([], 0)"
  by (cases xs) simp_all

lemma vecTake_neg:
  "e < 0 \<Longrightarrow> inFirst xs off \<Longrightarrow> \<exists>out e'. vecTake xs off e = (out, e') \<and> e' < 0 \<and> concat out = drop off (concat xs)"
proof (induction xs arbitrary: off e)
  case (Cons x xs)
  have "off \<le> length x"
    using Cons.prems by (auto simp: inFirst_def)
  moreover have "e - int (length x - off) < 0" "inFirst xs 0"
    using Cons.prems by (simp_all add: inFirst_def)
  ultimately show ?case
    using Cons.IH [of "e - int (length x - off)" 0] Cons.prems
    by (auto simp: slice_def Let_def)
qed (simp add: inFirst_def)

lemma vecTake_nonneg:
  "0 \<le> e \<Longrightarrow> inFirst xs off \<Longrightarrow>
   \<exists>out. vecTake xs off e = (out, int (nat e - length (drop off (concat xs)))) \<and>
     concat out = take (nat e) (drop off (concat xs))"
proof (induction xs arbitrary: off e)
  case (Cons x xs)
  let ?left = "length x - off"
  have off: "off \<le> length x"
    using Cons.prems by (auto simp: inFirst_def)
  consider "e = 0" | "0 < e" "e < int ?left" | "0 < e" "int ?left \<le> e"
    using Cons.prems by linarith
  then show ?case
  proof cases
    case 2
    then have "nat e - (?left + length (concat xs)) = 0" "nat e \<le> ?left" "?left - nat e \<noteq> 0"
      by auto
    then show ?thesis
      using 2 off by (auto simp: Let_def slice_def)
  next
    case 3
    have "nat (e - int ?left) = nat e - ?left"
      using 3 by (simp add: nat_diff_distrib)
    then show ?thesis
      using 3 off Cons.IH [of "e - int ?left" 0] by (auto simp: Let_def slice_def inFirst_def)
  qed simp
qed (simp add: inFirst_def)

lemma VecSlice_concat:
  "map_option concat (VecSlice ins s e) =
    (let n = nat (max 0 s) in
     if n \<le> length (concat ins) \<and> (e < 0 \<or> int n \<le> e \<and> nat e \<le> length (concat ins))
     then Some (if e < 0 then drop n (concat ins) else slice (concat ins) n (nat e))
     else None)"
proof -
  define n where "n = nat (max 0 s)"
  have s: "(if s < 0 then 0 else s) = int n"
    by (simp add: n_def max_def)
  consider (big) "length (concat ins) < n" | (bad) "n \<le> length (concat ins)" "0 \<le> e" "e < int n"
    | (neg) "n \<le> length (concat ins)" "e < 0" | (ok) "n \<le> length (concat ins)" "int n \<le> e"
    by linarith
  then have "map_option concat (VecSlice ins s e) =
    (if n \<le> length (concat ins) \<and> (e < 0 \<or> int n \<le> e \<and> nat e \<le> length (concat ins))
     then Some (if e < 0 then drop n (concat ins) else slice (concat ins) n (nat e))
     else None)"
  proof cases
    case big
    then show ?thesis
      using vecSkip_short [of ins n e] by (auto simp: VecSlice_def s Let_def)
  next
    case neg
    then obtain xs off where "vecSkip ins 0 n e = (xs, off, 0, e - int n)" "inFirst xs off"
      "drop off (concat xs) = drop n (concat ins)"
      using vecSkip_ok by blast
    then show ?thesis
      using neg vecTake_neg [of "e - int n" xs off] by (auto simp: VecSlice_def s)
  next
    case ok
    then obtain xs off where x: "vecSkip ins 0 n e = (xs, off, 0, e - int n)" "inFirst xs off"
      "drop off (concat xs) = drop n (concat ins)"
      using vecSkip_ok by blast
    have "nat (e - int n) = nat e - n"
      using ok by (simp add: nat_diff_distrib)
    then show ?thesis
      using ok x vecTake_nonneg [of "e - int n" xs off] by (auto simp: VecSlice_def s slice_def)
  qed (simp add: VecSlice_def s)
  then show ?thesis
    by (simp add: n_def Let_def)
qed

subsection \<open>Properties\<close>


text \<open>
  The fixed-width readers invert the writers: unsigned fields of 16, 24, 32, 40 and 64 bits
  come back modulo their width, whatever follows them, and a signed 16, 32 or 64-bit field comes back as the
  value in two's complement.
\<close>

theorem pio_roundtrip:
  "U16BE (PutU16BE a @ r) = a \<and> U24BE (PutU24BE b @ r) = take_bit 24 b \<and> U32BE (PutU32BE b @ r) = b \<and>
   U40BE (PutU40BE c @ r) = take_bit 40 c \<and> U64BE (PutU64BE c @ r) = c \<and> U32LE (PutU32LE b @ r) = b \<and>
   I16BE (PutI16BE v @ r) = signed_take_bit 15 v \<and> I32BE (PutI32BE v @ r) = wrap32 v \<and>
   I64BE (PutI64BE v @ r) = wrap64 v"
  by (simp add: U_PutU I_sint PutI_PutU sint_of_int64 sint_of_int32 sint_sbintrunc')

end
