(* ===== verification/Av_Types.thy ===== *)
theory Av_Types
  imports Prelude
begin

text \<open>
  The core data model of package \<^verbatim>\<open>av\<close>: codec types (\<^verbatim>\<open>av/av.go\<close>), channel layouts
  (\<^verbatim>\<open>av/audioframe.go\<close>), the codec descriptors that implement \<^verbatim>\<open>av.CodecData\<close> (the structs of
  \<^verbatim>\<open>h264parser\<close>, \<^verbatim>\<open>h265parser\<close>, \<^verbatim>\<open>aacparser\<close> and \<^verbatim>\<open>pcm\<close>), streams, frame analytics
  (\<^verbatim>\<open>av/pva.go\<close>) and packets (\<^verbatim>\<open>av/packet.go\<close>).  A \<^verbatim>\<open>time.Duration\<close> is an \<^typ>\<open>int\<close> of nanoseconds
  in the range of \<^verbatim>\<open>int64\<close>; a \<^verbatim>\<open>time.Time\<close> is an \<^typ>\<open>int\<close> of nanoseconds since the zero time, so
  that \<^verbatim>\<open>IsZero\<close> is equality with 0 and \<^verbatim>\<open>Before\<close> is \<open><\<close>.
\<close>

type_synonym duration = int
type_synonym gotime = int

definition second :: duration where
  "second = 1000000000"

definition millisecond :: duration where
  "millisecond = 1000000"

subsection \<open>Codec types\<close>

type_synonym codec_type = u32

definition MakeVideoCodecType :: "u32 \<Rightarrow> codec_type" where
  "MakeVideoCodecType base = push_bit 1 base"

definition MakeAudioCodecType :: "u32 \<Rightarrow> codec_type" where
  "MakeAudioCodecType base = push_bit 1 base OR 1"

definition avCodecTypeMagic :: u32 where
  "avCodecTypeMagic = 233333"

definition UNKNOWN :: codec_type where
  "UNKNOWN = MakeVideoCodecType (avCodecTypeMagic + 0)"

definition H264 :: codec_type where
  "H264 = MakeVideoCodecType (avCodecTypeMagic + 1)"

definition H265 :: codec_type where
  "H265 = MakeVideoCodecType (avCodecTypeMagic + 2)"

definition JPEG :: codec_type where
  "JPEG = MakeVideoCodecType (avCodecTypeMagic + 3)"

definition VP8 :: codec_type where
  "VP8 = MakeVideoCodecType (avCodecTypeMagic + 4)"

definition VP9 :: codec_type where
  "VP9 = MakeVideoCodecType (avCodecTypeMagic + 5)"

definition AV1 :: codec_type where
  "AV1 = MakeVideoCodecType (avCodecTypeMagic + 6)"

definition MJPEG :: codec_type where
  "MJPEG = MakeVideoCodecType (avCodecTypeMagic + 7)"

definition AAC :: codec_type where
  "AAC = MakeAudioCodecType (avCodecTypeMagic + 1)"

definition PCM_MULAW :: codec_type where
  "PCM_MULAW = MakeAudioCodecType (avCodecTypeMagic + 2)"

definition PCM_ALAW :: codec_type where
  "PCM_ALAW = MakeAudioCodecType (avCodecTypeMagic + 3)"

definition SPEEX :: codec_type where
  "SPEEX = MakeAudioCodecType (avCodecTypeMagic + 4)"

definition NELLYMOSER :: codec_type where
  "NELLYMOSER = MakeAudioCodecType (avCodecTypeMagic + 5)"

definition PCM :: codec_type where
  "PCM = MakeAudioCodecType (avCodecTypeMagic + 6)"

definition OPUS :: codec_type where
  "OPUS = MakeAudioCodecType (avCodecTypeMagic + 7)"

definition MP3 :: codec_type where
  "MP3 = MakeAudioCodecType (avCodecTypeMagic + 8)"

definition PCML :: codec_type where
  "PCML = MakeAudioCodecType (avCodecTypeMagic + 9)"

definition ELD :: codec_type where
  "ELD = MakeAudioCodecType (avCodecTypeMagic + 10)"

definition FLAC :: codec_type where
  "FLAC = MakeAudioCodecType (avCodecTypeMagic + 11)"

lemmas codec_type_defs = UNKNOWN_def H264_def H265_def JPEG_def VP8_def VP9_def AV1_def MJPEG_def
  AAC_def PCM_MULAW_def PCM_ALAW_def SPEEX_def NELLYMOSER_def PCM_def OPUS_def MP3_def PCML_def
  ELD_def FLAC_def

text \<open>\<^verbatim>\<open>CodecType.String\<close>, the switch in the order of the source.\<close>

definition codecTypeString :: "codec_type \<Rightarrow> string" where
  "codecTypeString s =
    (if s = H264 then ''H264'' else if s = H265 then ''H265'' else if s = JPEG then ''JPEG''
     else if s = VP8 then ''VP8'' else if s = VP9 then ''VP9'' else if s = AV1 then ''AV1''
     else if s = AAC then ''AAC'' else if s = PCM_MULAW then ''PCM_MULAW''
     else if s = PCM_ALAW then ''PCM_ALAW'' else if s = SPEEX then ''SPEEX''
     else if s = NELLYMOSER then ''NELLYMOSER'' else if s = PCM then ''PCM''
     else if s = OPUS then ''OPUS'' else if s = MP3 then ''MPA'' else if s = PCML then ''PCML''
     else if s = ELD then ''AAC_ELD'' else if s = FLAC then ''FLAC'' else [])"

definition IsAudio :: "codec_type \<Rightarrow> bool" where
  "IsAudio s \<longleftrightarrow> s AND 1 \<noteq> 0"

definition IsVideo :: "codec_type \<Rightarrow> bool" where
  "IsVideo s \<longleftrightarrow> s AND 1 = 0"

subsection \<open>Channel layouts\<close>

type_synonym channel_layout = u16

text \<open>\<^verbatim>\<open>ChannelLayout.Count\<close> clears the lowest set bit until the mask is zero.\<close>

function ChannelCount :: "channel_layout \<Rightarrow> nat" where
  "ChannelCount s = (if s \<noteq> 0 then 1 + ChannelCount ((s - 1) AND s) else 0)"
  by pat_completeness auto
termination
proof (relation "measure unat")
  show "wf (measure (unat :: channel_layout \<Rightarrow> nat))"
    by simp
next
  fix s :: channel_layout
  assume s: "s \<noteq> 0"
  have "(s - 1) AND s \<le> s - 1"
    by (rule word_and_le2)
  then have "unat ((s - 1) AND s) \<le> unat (s - 1)"
    by (simp add: word_le_nat_alt)
  also have "\<dots> < unat s"
    using s by (simp add: unat_minus_one unat_gt_0)
  finally show "((s - 1) AND s, s) \<in> measure unat"
    by simp
qed

declare ChannelCount.simps [simp del]

subsection \<open>Codec descriptors\<close>

record avc_record =
  AVCProfileIndication :: byte
  ProfileCompatibility :: byte
  AVCLevelIndication :: byte
  AVCLengthSizeMinusOne :: byte
  AVC_SPS :: "bytes list"
  AVC_PPS :: "bytes list"

record h264_sps_info =
  h264_ID :: u64
  h264_ProfileIdc :: u64
  h264_LevelIdc :: u64
  h264_ConstraintSetFlag :: u64
  h264_MbWidth :: u64
  h264_MbHeight :: u64
  h264_CropLeft :: u64
  h264_CropRight :: u64
  h264_CropTop :: u64
  h264_CropBottom :: u64
  h264_SPSWidth :: u64
  h264_SPSHeight :: u64
  h264_SPSFPS :: u64

record h264_codec =
  h264_Record :: bytes
  h264_RecordInfo :: avc_record
  h264_SPSInfo :: h264_sps_info
  h264_ControlURL :: string

record h265_sps_info =
  h265_ProfileIdc :: u64
  h265_LevelIdc :: u64
  h265_MbWidth :: u64
  h265_MbHeight :: u64
  h265_CropLeft :: u64
  h265_CropRight :: u64
  h265_CropTop :: u64
  h265_CropBottom :: u64
  h265_SPSWidth :: u64
  h265_SPSHeight :: u64
  h265_numTemporalLayers :: u64
  h265_temporalIDNested :: u64
  h265_chromaFormat :: u64
  h265_PicWidthInLumaSamples :: u64
  h265_PicHeightInLumaSamples :: u64
  h265_bitDepthLumaMinus8 :: u64
  h265_bitDepthChromaMinus8 :: u64
  h265_generalProfileSpace :: u64
  h265_generalTierFlag :: u64
  h265_generalProfileIDC :: u64
  h265_generalProfileCompatibilityFlags :: u32
  h265_generalConstraintIndicatorFlags :: u64
  h265_generalLevelIDC :: u64
  h265_fps :: u64

record hevc_record =
  ConfigurationVersion :: byte
  GeneralProfileSpace :: byte
  GeneralTierFlag :: byte
  GeneralProfileIDC :: byte
  GeneralProfileCompatibilityFlags :: u32
  GeneralConstraintIndicatorFlags :: u64
  GeneralLevelIDC :: byte
  MinSpatialSegmentationIDC :: u16
  ParallelismType :: byte
  ChromaFormat :: byte
  BitDepthLumaMinus8 :: byte
  BitDepthChromaMinus8 :: byte
  AvgFrameRate :: u16
  ConstantFrameRate :: byte
  NumTemporalLayers :: byte
  TemporalIDNested :: byte
  LengthSizeMinusOne :: byte
  HEVC_VPS :: "bytes list"
  HEVC_SPS :: "bytes list"
  HEVC_PPS :: "bytes list"

record h265_codec =
  h265_Record :: bytes
  h265_RecordInfo :: hevc_record
  h265_SPSInfo :: h265_sps_info
  h265_ControlURL :: string

record aac_config =
  aac_SampleRate :: int
  aac_ChannelLayout :: channel_layout
  aac_ObjectType :: u64
  aac_SampleRateIndex :: u64
  aac_ChannelConfig :: u64

record aac_codec =
  aac_ConfigBytes :: bytes
  aac_Config :: aac_config

record flac_codec =
  flac_sourceType :: codec_type
  flac_sampleRate :: u32
  flac_chLayout :: channel_layout

text \<open>
  \<^verbatim>\<open>av.CodecData\<close> is an interface; the code tells its implementations apart by type switches.
  Every implementation that the modelled components treat alike is \<open>OtherCodec\<close>, which carries what
  its methods return: the type, the \<^verbatim>\<open>Tag()\<close> if it has one, and the dimensions if it is a
  \<^verbatim>\<open>VideoCodecData\<close>.
\<close>

record other_codec =
  oc_Type :: codec_type
  oc_Tag :: "string option"
  oc_Dims :: "(int \<times> int) option"

datatype codec_data =
    H264Codec h264_codec
  | H265Codec h265_codec
  | AACCodec aac_codec
  | FLACCodec flac_codec
  | OtherCodec other_codec

fun codecType :: "codec_data \<Rightarrow> codec_type" where
  "codecType (H264Codec c) = H264"
| "codecType (H265Codec c) = H265"
| "codecType (AACCodec c) = AAC"
| "codecType (FLACCodec c) = FLAC"
| "codecType (OtherCodec c) = oc_Type c"

definition h264_Width :: "h264_codec \<Rightarrow> int" where
  "h264_Width s = sint (h264_SPSWidth (h264_SPSInfo s))"

definition h264_Height :: "h264_codec \<Rightarrow> int" where
  "h264_Height s = sint (h264_SPSHeight (h264_SPSInfo s))"

definition h265_Width :: "h265_codec \<Rightarrow> int" where
  "h265_Width s = sint (h265_SPSWidth (h265_SPSInfo s))"

definition h265_Height :: "h265_codec \<Rightarrow> int" where
  "h265_Height s = sint (h265_SPSHeight (h265_SPSInfo s))"

definition TimeScale :: u32 where
  "TimeScale = 90000"

text \<open>The type assertion to \<^verbatim>\<open>av.VideoCodecData\<close>: width and height when the codec is a video codec.\<close>

fun videoDims :: "codec_data \<Rightarrow> (int \<times> int) option" where
  "videoDims (H264Codec c) = Some (h264_Width c, h264_Height c)"
| "videoDims (H265Codec c) = Some (h265_Width c, h265_Height c)"
| "videoDims (AACCodec c) = None"
| "videoDims (FLACCodec c) = None"
| "videoDims (OtherCodec c) = oc_Dims c"

subsection \<open>Streams, analytics and packets\<close>

record stream =
  s_Idx :: u16
  s_Codec :: codec_data

record detection =
  det_X :: u32
  det_Y :: u32
  det_W :: u32
  det_H :: u32
  det_ClassID :: u32
  det_Confidence :: u32
  det_TrackID :: int
  det_IsEvent :: bool

record frame_analytics =
  an_SiteID :: int
  an_ChannelID :: int
  an_FramePTS :: int
  an_CaptureMS :: int
  an_CaptureEndMS :: int
  an_InferenceMS :: int
  an_RefWidth :: int
  an_RefHeight :: int
  an_VehicleCount :: int
  an_PeopleCount :: int
  an_Objects :: "detection list"

record packet =
  KeyFrame :: bool
  IsDiscontinuity :: bool
  Idx :: u16
  CodecType :: codec_type
  FrameID :: int
  DTS :: duration
  PTSOffset :: duration
  Duration :: duration
  WallClockTime :: gotime
  Data :: bytes
  Analytics :: "frame_analytics option"
  NewCodecs :: "stream list option"

definition PTS :: "packet \<Rightarrow> duration" where
  "PTS m = wrap64 (DTS m + PTSOffset m)"

definition HasWallClockTime :: "packet \<Rightarrow> bool" where
  "HasWallClockTime m \<longleftrightarrow> WallClockTime m \<noteq> 0"

text \<open>The zero value of \<^verbatim>\<open>av.Packet\<close>.\<close>

definition zero_packet :: packet where
  "zero_packet = \<lparr>KeyFrame = False, IsDiscontinuity = False, Idx = 0, CodecType = 0, FrameID = 0,
     DTS = 0, PTSOffset = 0, Duration = 0, WallClockTime = 0, Data = [], Analytics = None,
     NewCodecs = None\<rparr>"

lemma IsVideo_not_IsAudio: "IsVideo s \<longleftrightarrow> \<not> IsAudio s"
  by (simp add: IsVideo_def IsAudio_def)

lemma IsVideo_even: "IsVideo s \<longleftrightarrow> even s"
  by (simp add: IsVideo_def and_one_eq even_iff_mod_2_eq_zero)

lemma IsVideo_Make [simp]: "IsVideo (MakeVideoCodecType b)" "\<not> IsVideo (MakeAudioCodecType b)"
  by (simp_all add: IsVideo_even MakeVideoCodecType_def MakeAudioCodecType_def even_or_iff)

lemma codec_types_video [simp]: "IsVideo H264" "IsVideo H265" "\<not> IsVideo AAC" "\<not> IsVideo FLAC"
  by (simp_all add: H264_def H265_def AAC_def FLAC_def)

end
