(* ===== verification/Flac.thy ===== *)
theory Flac
  imports Av_Types
begin

text \<open>The FLAC stream header of \<^verbatim>\<open>av/codec/pcm/flac.go\<close>, which the fMP4 muxer puts into its \<^verbatim>\<open>dfLa\<close> box.\<close>

definition NewFLACCodecData :: "codec_type \<Rightarrow> u32 \<Rightarrow> channel_layout \<Rightarrow> flac_codec" where
  "NewFLACCodecData sourceType sampleRate ch =
    \<lparr>flac_sourceType = sourceType, flac_sampleRate = sampleRate, flac_chLayout = ch\<rparr>"

definition flac_SampleRate :: "flac_codec \<Rightarrow> int" where
  "flac_SampleRate f = uint (flac_sampleRate f)"

text \<open>
  \<^verbatim>\<open>FLACHeader\<close> fills a zeroed buffer of 42 bytes: magic, metadata block header, block sizes, frame
  sizes, the 20-bit sample rate with the channel and sample-size bits, total samples and MD5.
\<close>

definition FLACHeader :: "bool \<Rightarrow> u32 \<Rightarrow> bytes" where
  "FLACHeader magic sampleRate =
    (if magic then strbytes ''fLaC'' else replicate 4 0)
    @ [0x80, 0, 0, 0x22] @ put16 32768 @ put16 32768 @ replicate 6 0
    @ [ucast (drop_bit 12 sampleRate), ucast (drop_bit 4 sampleRate), ucast (push_bit 4 sampleRate), 0xF0]
    @ replicate 20 0"

definition STREAMINFOBlock :: "flac_codec \<Rightarrow> bytes" where
  "STREAMINFOBlock f = drop 4 (FLACHeader False (flac_sampleRate f))"

lemma length_FLACHeader [simp]: "length (FLACHeader magic sr) = 42"
  by (simp add: FLACHeader_def)

lemma length_STREAMINFOBlock [simp]: "length (STREAMINFOBlock f) = 38"
  by (simp add: STREAMINFOBlock_def)

end
