(* ===== verification/G711.thy ===== *)
theory G711
  imports Av_Types
begin

text \<open>
  The G.711 companders of \<^verbatim>\<open>av/codec/pcm/pcmu.go\<close> and \<^verbatim>\<open>pcma.go\<close>.  An \<^verbatim>\<open>int16\<close> is a word of 16 bits: negation, addition
  and shifts wrap as in Go.  The loop that looks for the highest set bit has no lower limit in \<^verbatim>\<open>PCMtoPCMU\<close>; it is
  a partial function, shown to return for every sample.
\<close>

type_synonym i16 = "16 word"

definition bias :: i16 where
  "bias = 0x84"

definition alawMax :: i16 where
  "alawMax = 0x7FFF"

definition ulawMax :: i16 where
  "ulawMax = alawMax - bias"

definition PCMUtoPCM :: "byte \<Rightarrow> i16" where
  "PCMUtoPCM ulaw0 =
    (let ulaw = NOT ulaw0;
         exponent = drop_bit 4 (ulaw AND 0x70);
         data = push_bit (unat (exponent + 2)) (ucast (push_bit 1 ((ulaw AND 0x0F) OR 0x10) + 1) :: i16) - bias
     in if ulaw AND 0x80 = 0 then data else if data = 0 then - 1 else - data)"

partial_function (option) ulawExponent :: "i16 \<Rightarrow> i16 \<Rightarrow> byte \<Rightarrow> byte option" where
  "ulawExponent pcm expMask exponent =
    (if pcm AND expMask = 0 then ulawExponent pcm (signed_drop_bit 1 expMask) (exponent - 1) else Some exponent)"

declare ulawExponent.simps [code]

definition PCMtoPCMU :: "i16 \<Rightarrow> byte option" where
  "PCMtoPCMU pcm0 =
    (let (pcm1, sgn) = (if pcm0 <s 0 then (- pcm0, 0x80) else (pcm0, 0));
         pcm2 = (if ulawMax <s pcm1 then ulawMax else pcm1);
         pcm = pcm2 + bias
     in map_option (\<lambda>exponent.
          let ulaw = sgn OR (ucast (signed_drop_bit (unat (exponent + 3)) pcm) AND 0x0F)
          in NOT (if 0 < exponent then ulaw OR push_bit 4 exponent else ulaw)) (ulawExponent pcm 0x4000 7))"

definition PCMAtoPCM :: "byte \<Rightarrow> i16" where
  "PCMAtoPCM alaw0 =
    (let alaw = alaw0 XOR 0xD5;
         data0 = (ucast (push_bit 4 (alaw AND 0x0F) + 8) :: i16);
         exponent = drop_bit 4 (alaw AND 0x70);
         data1 = (if exponent \<noteq> 0 then data0 OR 0x100 else data0);
         data = (if 1 < exponent then push_bit (unat (exponent - 1)) data1 else data1)
     in if alaw AND 0x80 = 0 then data else - data)"

fun alawExponent :: "i16 \<Rightarrow> i16 \<Rightarrow> nat \<Rightarrow> nat" where
  "alawExponent pcm expMask 0 = 0"
| "alawExponent pcm expMask (Suc e) =
    (if pcm AND expMask = 0 then alawExponent pcm (signed_drop_bit 1 expMask) e else Suc e)"

definition PCMtoPCMA :: "i16 \<Rightarrow> byte" where
  "PCMtoPCMA pcm0 =
    (let (pcm1, sgn) = (if pcm0 <s 0 then (- pcm0, 0x80) else (pcm0, 0));
         pcm = (if alawMax <s pcm1 then alawMax else pcm1);
         exponent = alawExponent pcm 0x4000 7
     in (if exponent = 0 then sgn OR (ucast (signed_drop_bit 4 pcm) AND 0x0F)
         else sgn OR push_bit 4 (of_nat exponent) OR (ucast (signed_drop_bit (exponent + 3) pcm) AND 0x0F)) XOR 0xD5)"

lemma ulaw_exponent_min: "ulawExponent 0x8084 0x4000 7 = Some 0"
  by (subst ulawExponent.simps, simp)+

lemma ulaw_min: "PCMtoPCMU (- 32768) = Some 0x7F" "PCMUtoPCM 0x7F = - 1"
  using ulaw_exponent_min
  by (simp_all add: PCMtoPCMU_def PCMUtoPCM_def ulawMax_def alawMax_def bias_def word_sless_alt)

lemma alaw_exponent_min: "alawExponent 0x8000 0x4000 7 = 0"
  by (simp add: eval_nat_numeral)

lemma alaw_min: "PCMtoPCMA (- 32768) = 0x55" "PCMAtoPCM 0x55 = - 8"
  using alaw_exponent_min by (simp_all add: PCMtoPCMA_def PCMAtoPCM_def alawMax_def word_sless_alt)

lemma sint_small: "- 32768 \<le> z \<Longrightarrow> z < 32768 \<Longrightarrow> sint (of_int z :: i16) = z"
  by (simp add: signed_of_int signed_take_bit_int_eq_self)

lemma sint_of_nat_small: "x < 32768 \<Longrightarrow> sint (of_nat x :: i16) = int x"
  using sint_small [of "int x"] by simp

lemma sdrop_small:
  assumes "x < 32768" shows "signed_drop_bit n (of_nat x :: i16) = of_nat (x div 2 ^ n)"
proof -
  have "x div 2 ^ n < 32768"
    using assms by (meson div_le_dividend le_less_trans)
  then show ?thesis
    using assms by (intro signed_word_eqI [where ?'a = int])
      (simp add: sint_signed_drop_bit_eq sint_of_nat_small drop_bit_eq_div zdiv_int del: of_nat_div)
qed

lemma bit_word_of_nat: "k < LENGTH('a) \<Longrightarrow> bit (of_nat x :: 'a::len word) k \<longleftrightarrow> bit x k"
  by (metis bit_take_bit_iff bit_unsigned_iff of_nat_id possible_bit_nat unsigned_of_nat)

lemma and_mask_small:
  assumes "x < 2 ^ Suc k" "k < 15" shows "(of_nat x :: i16) AND 2 ^ k = 0 \<longleftrightarrow> x < 2 ^ k"
proof -
  have "(of_nat x :: i16) AND 2 ^ k = 0 \<longleftrightarrow> \<not> bit (of_nat x :: i16) k"
    by (metis and_exp_eq_0_iff_not_bit)
  also have "\<dots> \<longleftrightarrow> \<not> bit x k"
    using assms by (simp add: bit_word_of_nat)
  also have "\<dots> \<longleftrightarrow> x < 2 ^ k"
  proof -
    have "x div 2 ^ k < 2" using assms by (simp add: less_mult_imp_div_less)
    then show ?thesis
      by (auto simp: bit_iff_odd less_2_cases_iff div_eq_0_iff)
  qed
  finally show ?thesis .
qed

lemma digits_or:
  assumes "s < 2" "e < 8" "m < 16"
  shows "((if s = 0 then 0 else 0x80) OR of_nat m) OR push_bit 4 (of_nat e) = (of_nat (128 * s + 16 * e + m) :: byte)"
proof -
  have "e \<in> set [0,1,2,3,4,5,6,7]" "s = 0 \<or> s = 1"
    using assms by auto
  then have high: "(if s = 0 then 0 else 0x80) OR push_bit 4 (of_nat e) = (push_bit 4 (of_nat (8 * s + e)) :: byte)"
    by auto
  have "\<not> bit (of_nat m :: byte) n \<or> \<not> bit (push_bit 4 (of_nat (8 * s + e)) :: byte) n" for n
  proof (cases "n < 4")
    case False
    then have "m < 2 ^ n" using \<open>m < 16\<close> power_increasing [of 4 n "2::nat"] by simp
    then have "\<not> bit m n" by (simp add: bit_iff_odd)
    then show ?thesis by (metis bit_byte_ge bit_word_of_nat len_num1 len_bit0 linorder_not_less numeral_eq_Suc
        mult_2 numeral_Bit0 numeral_One)
  qed (simp add: bit_push_bit_iff)
  then have "of_nat m OR (push_bit 4 (of_nat (8 * s + e)) :: byte) = of_nat m + push_bit 4 (of_nat (8 * s + e))"
    by (simp add: disjunctive_add)
  then show ?thesis
    using high by (simp add: or.assoc or.left_commute push_bit_eq_mult algebra_simps)
qed

lemma digits_low:
  assumes "m < 16" shows "(of_nat (128 * s + 16 * e + m) :: byte) AND 0x0F = of_nat m"
proof -
  have "(of_nat (128 * s + 16 * e + m) :: byte) AND 0x0F = take_bit 4 (of_nat (128 * s + 16 * e + m))"
    by (simp add: take_bit_eq_mask mask_eq_exp_minus_1)
  also have "\<dots> = of_nat (take_bit 4 (128 * s + 16 * e + m))"
    by (rule take_bit_of_nat)
  also have "take_bit 4 (128 * s + 16 * e + m) = m"
    using assms mod_mult_self2 [of m 16 "8 * s + e"] by (simp add: take_bit_eq_mod algebra_simps)
  finally show ?thesis .
qed

lemma drop_byte: "n < 256 \<Longrightarrow> drop_bit k (of_nat n :: byte) = of_nat (n div 2 ^ k)"
  by (rule unsigned_word_eqI [where ?'a = nat], subst unat_drop_bit_eq)
    (simp add: unsigned_of_nat take_bit_nat_eq_self drop_bit_eq_div le_less_trans [OF div_le_dividend] del: of_nat_div)

lemma digits_mid:
  assumes "s < 2" "e < 8" "m < 16"
  shows "drop_bit 4 ((of_nat (128 * s + 16 * e + m) :: byte) AND 0x70) = of_nat e"
proof -
  have "drop_bit 4 ((of_nat (128 * s + 16 * e + m) :: byte) AND 0x70) = take_bit 3 (drop_bit 4 (of_nat (128 * s + 16 * e + m)))"
    by (simp add: take_bit_eq_mask mask_eq_exp_minus_1)
  also have "\<dots> = of_nat (take_bit 3 ((128 * s + 16 * e + m) div 16))"
    using assms by (simp add: drop_byte take_bit_of_nat del: of_nat_add of_nat_mult of_nat_div)
  also have "(128 * s + 16 * e + m) div 16 = e + 8 * s"
    using assms by simp
  also have "take_bit 3 (e + 8 * s) = e"
    unfolding take_bit_eq_mod using assms by simp
  finally show ?thesis .
qed

lemma digits_high:
  assumes "s < 2" "e < 8" "m < 16" shows "(of_nat (128 * s + 16 * e + m) :: byte) AND 0x80 = 0 \<longleftrightarrow> s = 0"
proof -
  have "(of_nat (128 * s + 16 * e + m) :: byte) AND 2 ^ 7 = 0 \<longleftrightarrow> \<not> bit (128 * s + 16 * e + m) 7"
    by (subst and_exp_eq_0_iff_not_bit, subst bit_word_of_nat) simp_all
  also have "\<dots> \<longleftrightarrow> s = 0"
  proof -
    have "(128 * s + 16 * e + m) div 2 ^ 7 = s"
      using assms by (intro div_nat_eqI) auto
    then show ?thesis
      using assms by (auto simp: bit_iff_odd less_2_cases_iff)
  qed
  finally show ?thesis by simp
qed

lemma digits_ex: obtains s e m where "s < 2" "e < 8" "m < 16" "(b :: byte) = of_nat (128 * s + 16 * e + m)"
proof -
  have "unat b < 256" using unsigned_less [of b, where ?'a = nat] by simp
  then have "unat b div 128 < 2" "unat b div 16 mod 8 < 8" "unat b mod 16 < 16"
    by auto
  moreover have "128 * (unat b div 128) + 16 * (unat b div 16 mod 8) + unat b mod 16 = unat b"
    using mult_div_mod_eq [of 16 "unat b"] mult_div_mod_eq [of 8 "unat b div 16"] div_mult2_eq [of "unat b" 16 8]
    unfolding numeral_times_numeral semiring_norm by linarith
  ultimately show thesis
    using that [of "unat b div 128" "unat b div 16 mod 8" "unat b mod 16"] by simp
qed

lemma signed_less_small:
  assumes "- 32768 \<le> y" "y < 32768" "- 32768 \<le> z" "z < 32768"
  shows "(of_int y :: i16) <s of_int z \<longleftrightarrow> y < z"
  using assms by (simp add: word_sless_alt sint_small)

lemma magnitude_small:
  assumes "- 32768 < z" "z < 32768" "a = nat \<bar>z\<bar>" "s = (if z < 0 then 1 else 0 :: nat)"
  shows "(if (of_int z :: i16) <s 0 then (- of_int z, 0x80) else (of_int z, 0)) =
    (of_nat a :: i16, if s = 0 then 0 else (0x80 :: byte))"
  using assms signed_less_small [of z 0] by (auto simp: abs_if of_nat_nat)

lemma clamp_small:
  assumes "x < 32768" "y < 32768"
  shows "(if (of_nat y :: i16) <s of_nat x then of_nat y else of_nat x) = (of_nat (min x y) :: i16)"
  using assms signed_less_small [of "int y" "int x"] by (auto simp: min_def)

lemma digit_cast:
  assumes "(16 + m) * 2 ^ (e + 3) \<le> x" "x < (17 + m) * 2 ^ (e + 3)" "x < 32768" "e < 8" "m < 16"
  shows "ucast (signed_drop_bit (e + 3) (of_nat x :: i16)) AND 0x0F = (of_nat m :: byte)"
proof -
  have "x div 2 ^ (e + 3) = 16 + m"
    using assms by (intro div_nat_eqI) (auto simp: mult.commute)
  then have "ucast (signed_drop_bit (e + 3) (of_nat x :: i16)) = (of_nat (16 + m) :: byte)"
    using assms by (simp only: sdrop_small) (simp add: unsigned_of_nat take_bit_nat_eq_self del: of_nat_add)
  then show ?thesis
    using assms digits_low [of m 0 1] by simp
qed

lemma and_mask:
  "x < 256 * 2 ^ k \<Longrightarrow> k < 8 \<Longrightarrow> (of_nat x :: i16) AND (128 * 2 ^ k) = 0 \<longleftrightarrow> x < 128 * 2 ^ k"
  using and_mask_small [of x "k + 7"] by (simp add: power_add mult.commute)

lemma mask_halves:
  assumes "k < 7" shows "signed_drop_bit 1 (128 * 2 ^ Suc k :: i16) = 128 * 2 ^ k"
proof -
  have "(2::nat) ^ k \<le> 2 ^ 6"
    using assms by (intro power_increasing) auto
  then show ?thesis
    using sdrop_small [of "128 * 2 ^ Suc k" 1] by simp
qed

lemma ulaw_exponent:
  assumes x: "128 * 2 ^ e \<le> x" "x < 256 * 2 ^ e" and "e \<le> k" "k < 8"
  shows "ulawExponent (of_nat x) (128 * 2 ^ k) (of_nat k) = Some (of_nat e)"
  using assms(3,4)
proof (induction k)
  case (Suc k)
  have hit: "of_nat x AND (128 * 2 ^ Suc k :: i16) = 0 \<longleftrightarrow> e \<noteq> Suc k"
  proof (cases "e = Suc k")
    case False
    then have "(2::nat) ^ e \<le> 2 ^ k"
      using Suc by (intro power_increasing) auto
    then have "x < 256 * 2 ^ k"
      using x by linarith
    then show ?thesis
      using Suc.prems False by (subst and_mask) auto
  qed (use x Suc.prems in \<open>subst and_mask, auto\<close>)
  show ?case
    using Suc by (subst ulawExponent.simps) (simp only: hit mask_halves, simp)
next
  case 0
  then have "of_nat x AND (128 * 2 ^ 0 :: i16) \<noteq> 0"
    using x by (subst and_mask) auto
  then show ?case
    using 0 by (subst ulawExponent.simps) simp
qed

lemma exponent_of:
  assumes "(16 + m) * 2 ^ (e + 3) \<le> x" "x < (17 + m) * 2 ^ (e + 3)" "m < 16"
  shows "128 * 2 ^ e \<le> x" "x < (256 * 2 ^ e :: nat)"
proof -
  have "(16 + m) * (8 * 2 ^ e) \<le> x" "x < (17 + m) * (8 * 2 ^ e)"
    using assms by (simp_all add: power_add mult.commute)
  moreover have "16 * (8 * 2 ^ e) \<le> (16 + m) * (8 * 2 ^ e)" "(17 + m) * (8 * 2 ^ e) \<le> 32 * (8 * 2 ^ e)"
    using assms by (intro mult_right_mono; simp)+
  ultimately have "128 * 2 ^ e \<le> x \<and> x < 256 * 2 ^ e" by linarith
  then show "128 * 2 ^ e \<le> x" "x < 256 * 2 ^ e" by simp_all
qed

lemma unat_plus3: "e < 8 \<Longrightarrow> unat (of_nat e + 3 :: byte) = e + 3"
  using unsigned_of_nat [of "e + 3", where ?'b = 8 and ?'a = nat] by (simp add: take_bit_nat_eq_self)

lemma ulaw_consts: "ulawMax = of_nat 32635" "bias = of_nat 132"
  by (simp_all add: ulawMax_def alawMax_def bias_def)

lemma or_exponent: "(if 0 < w then u OR push_bit 4 w else u) = u OR push_bit 4 w" for w u :: byte
  by (auto simp: word_gt_0)

lemma ulaw_encode:
  assumes z: "- 32768 < z" "z < 32768" "a = nat \<bar>z\<bar>" "s = (if z < 0 then 1 else 0 :: nat)"
    and x: "x = min a 32635 + 132" and e: "e < 8" "m < 16"
    and m: "(16 + m) * 2 ^ (e + 3) \<le> x" "x < (17 + m) * 2 ^ (e + 3)"
  shows "PCMtoPCMU (of_int z) = Some (NOT (of_nat (128 * s + 16 * e + m)))"
proof -
  have "a < 32768" "s < 2"
    using z by auto
  then have "(if (of_nat 32635 :: i16) <s of_nat a then of_nat 32635 else of_nat a) + of_nat 132 = (of_nat x :: i16)"
    using x by (subst clamp_small) auto
  then have p: "(if ulawMax <s of_nat a then ulawMax else of_nat a) + bias = of_nat x"
    unfolding ulaw_consts .
  have "ulawExponent (of_nat x) (128 * 2 ^ 7) (of_nat 7) = Some (of_nat e)"
    using exponent_of [OF m e(2)] e by (intro ulaw_exponent) auto
  then have ex: "ulawExponent (of_nat x) 0x4000 7 = Some (of_nat e)"
    by simp
  have "x < 32768"
    using x by simp
  then have d: "ucast (signed_drop_bit (e + 3) (of_nat x :: i16)) AND 0x0F = (of_nat m :: byte)"
    using m e by (intro digit_cast)
  show ?thesis
    unfolding PCMtoPCMU_def magnitude_small [OF z] Let_def prod.case p ex option.map unat_plus3 [OF e(1)] d or_exponent
      digits_or [OF \<open>s < 2\<close> e] ..
qed

lemma ulaw_range:
  assumes "e < 8" "m < 16" shows "132 \<le> (33 + 2 * m) * 2 ^ (e + 2)" "(33 + 2 * m) * 2 ^ (e + 2) \<le> (32256 :: nat)"
proof -
  have "(2::nat) ^ (e + 2) \<le> 2 ^ 9"
    using assms by (intro power_increasing) auto
  then have "(33 + 2 * m) * 2 ^ (e + 2) \<le> 63 * (512 :: nat)"
    using assms by (intro mult_mono) auto
  moreover have "33 * 4 \<le> (33 + 2 * m) * (2 ^ (e + 2) :: nat)"
    by (intro mult_mono) auto
  ultimately show "132 \<le> (33 + 2 * m) * 2 ^ (e + 2)" "(33 + 2 * m) * 2 ^ (e + 2) \<le> (32256 :: nat)"
    by simp_all
qed

lemma of_int_zero: "0 \<le> d \<Longrightarrow> d < 65536 \<Longrightarrow> (of_int d :: i16) = 0 \<longleftrightarrow> d = 0"
  using word_of_int_eq_iff [of d 0, where ?'a = 16] by (simp add: take_bit_int_eq_self)

lemma ulaw_zero:
  assumes "e < 8" "m < 16"
  shows "(of_int (int ((33 + 2 * m) * 2 ^ (e + 2)) - 132) :: i16) = 0 \<longleftrightarrow> e = 0 \<and> m = 0"
proof -
  let ?d = "int ((33 + 2 * m) * 2 ^ (e + 2)) - 132"
  have d: "0 \<le> ?d" "?d < 65536"
    using ulaw_range [OF assms] by linarith+
  have "(of_int ?d :: i16) = 0 \<longleftrightarrow> ?d = 0"
    using d by (rule of_int_zero)
  also have "\<dots> \<longleftrightarrow> (33 + 2 * m) * 2 ^ (e + 2) = (132 :: nat)"
    by linarith
  also have "\<dots> \<longleftrightarrow> e = 0 \<and> m = 0"
  proof (cases "e = 0")
    case False
    then have "33 * 8 \<le> (33 + 2 * m) * (2 ^ (e + 2) :: nat)"
      using power_increasing [of 3 "e + 2" "2::nat"] by (intro mult_mono) auto
    then show ?thesis using False by simp
  qed simp
  finally show ?thesis .
qed

lemma ulaw_decode:
  assumes "s < 2" "e < 8" "m < 16"
  shows "PCMUtoPCM (NOT (of_nat (128 * s + 16 * e + m))) =
    of_int (if s = 0 then int ((33 + 2 * m) * 2 ^ (e + 2)) - 132
      else if e = 0 \<and> m = 0 then - 1 else 132 - int ((33 + 2 * m) * 2 ^ (e + 2)))"
proof -
  have sh: "unat (of_nat e + 2 :: byte) = e + 2"
    using unsigned_of_nat [of "e + 2", where ?'b = 8 and ?'a = nat] assms by (simp add: take_bit_nat_eq_self add.commute)
  have "(of_nat m :: byte) OR 0x10 = of_nat (16 + m)"
    using digits_or [of 0 1 m] assms by simp
  moreover have "ucast (push_bit 1 (of_nat (16 + m) :: byte) + 1) = (of_nat (33 + 2 * m) :: i16)"
  proof -
    have "push_bit 1 (of_nat (16 + m) :: byte) + 1 = of_nat (33 + 2 * m)"
      by (simp add: push_bit_eq_mult)
    then show ?thesis
      using assms by (simp add: unsigned_of_nat take_bit_nat_eq_self del: of_nat_add of_nat_mult)
  qed
  moreover have "push_bit (e + 2) (of_nat (33 + 2 * m) :: i16) = of_int (int ((33 + 2 * m) * 2 ^ (e + 2)))"
    by (simp add: push_bit_eq_mult)
  ultimately have v: "push_bit (unat (of_nat e + 2 :: byte)) (ucast (push_bit 1 ((of_nat m :: byte) OR 0x10) + 1) :: i16) - bias =
    of_int (int ((33 + 2 * m) * 2 ^ (e + 2)) - 132)"
    by (simp only: sh) (simp add: bias_def)
  have zero: "(of_int (int ((33 + 2 * m) * 2 ^ (e + 2)) - 132) :: i16) = 0 \<longleftrightarrow> e = 0 \<and> m = 0"
    using assms(2,3) by (rule ulaw_zero)
  show ?thesis
    unfolding PCMUtoPCM_def Let_def bit.double_compl digits_low [OF assms(3)] digits_mid [OF assms]
      digits_high [OF assms] v zero by auto
qed

lemma exponent_ex:
  assumes "128 \<le> x" "x < 32768"
  obtains e where "e < 8" "128 * 2 ^ e \<le> x" "x < (256 * 2 ^ e :: nat)"
proof -
  have "\<exists>e<k. 128 * 2 ^ e \<le> x \<and> x < 256 * 2 ^ e" if "x < 128 * 2 ^ k" for k
    using that
  proof (induction k)
    case (Suc k)
    then show ?case
      by (cases "x < 128 * 2 ^ k") (auto intro: less_SucI exI [of _ k])
  qed (use assms in simp)
  from this [of 8] assms that show thesis by auto
qed

lemma digit_ex:
  assumes "128 * 2 ^ e \<le> x" "x < (256 * 2 ^ e :: nat)"
  obtains m where "m < 16" "(16 + m) * 2 ^ (e + 3) \<le> x" "x < (17 + m) * 2 ^ (e + 3)"
proof
  let ?q = "x div 2 ^ (e + 3)"
  have q: "16 \<le> ?q" "?q < 32"
    using assms by (simp_all add: less_eq_div_iff_mult_less_eq less_mult_imp_div_less power_add)
  have "?q * 2 ^ (e + 3) \<le> x" "x < Suc ?q * 2 ^ (e + 3)"
    using div_times_less_eq_dividend [of x "2 ^ (e + 3)"] dividend_less_div_times [of "2 ^ (e + 3)" x] by simp_all
  moreover have "16 + (?q - 16) = ?q" "17 + (?q - 16) = Suc ?q"
    using q by simp_all
  ultimately show "?q - 16 < 16" "(16 + (?q - 16)) * 2 ^ (e + 3) \<le> x" "x < (17 + (?q - 16)) * 2 ^ (e + 3)"
    using q by simp_all
qed

lemma ulaw_level:
  assumes "e < 8" "m < 16" and "v = (33 + 2 * m) * 2 ^ (e + 2)" "h = (2 ^ (e + 2) :: nat)"
  shows "132 \<le> v" "v \<le> 32256" "e = 0 \<and> m = 0 \<longleftrightarrow> v = 132" "4 \<le> h"
    "(16 + m) * 2 ^ (e + 3) + h = v" "v + h = (17 + m) * 2 ^ (e + 3)"
proof -
  show "132 \<le> v" "v \<le> 32256"
    using ulaw_range [OF assms(1,2)] assms(3) by simp_all
  show "4 \<le> h"
    using power_increasing [of 2 "e + 2" "2::nat"] assms(4) by simp
  show "(16 + m) * 2 ^ (e + 3) + h = v" "v + h = (17 + m) * 2 ^ (e + 3)"
    using assms(3,4) by (simp_all add: power_add algebra_simps)
  have "33 * 8 \<le> v" if "e \<noteq> 0"
    unfolding assms(3) using that power_increasing [of 3 "e + 2" "2::nat"] by (intro mult_mono) auto
  then show "e = 0 \<and> m = 0 \<longleftrightarrow> v = 132"
    using assms(3) by (cases "e = 0") auto
qed

lemma ulaw_decode_level:
  assumes "s < 2" "e < 8" "m < 16" "v = (33 + 2 * m) * 2 ^ (e + 2)"
  shows "PCMUtoPCM (NOT (of_nat (128 * s + 16 * e + m))) =
    of_int (if s = 0 then int v - 132 else if v = 132 then - 1 else 132 - int v)"
  unfolding ulaw_decode [OF assms(1-3)] ulaw_level(3) [OF assms(2,3) refl refl] assms(4) ..

lemma ulaw_identity: "PCMtoPCMU (PCMUtoPCM b) = Some b"
proof -
  obtain s e m where d: "s < 2" "e < 8" "m < 16" and b: "NOT b = of_nat (128 * s + 16 * e + m)"
    by (rule digits_ex)
  define v h where v: "v = (33 + 2 * m) * 2 ^ (e + 2)" and h: "h = (2 ^ (e + 2) :: nat)"
  note lv = ulaw_level [OF d(2,3) v h]
  define z where "z = (if s = 0 then int v - 132 else if v = 132 then - 1 else 132 - int v)"
  have z: "- 32768 < z" "z < 32768" "s = (if z < 0 then 1 else 0)" "v \<le> nat \<bar>z\<bar> + 132" "nat \<bar>z\<bar> + 132 < v + h"
    "nat \<bar>z\<bar> \<le> 32635"
    using lv(1-4) d(1) by (auto simp: z_def)
  have "PCMtoPCMU (of_int z) = Some (NOT (of_nat (128 * s + 16 * e + m)))"
    using z(4-6) lv(5,6) by (intro ulaw_encode [OF z(1,2) refl z(3) refl d(2,3)]; linarith)
  then show ?thesis
    using ulaw_decode_level [OF d v] b unfolding z_def by (metis bit.double_compl)
qed

lemma sample_int: obtains z where "(x :: i16) = of_int z" "- 32768 \<le> z" "z < 32768" "sint x = z"
  using that [of "sint x"] sint_greater_eq [of x] sint_less [of x] by simp

lemma ulaw_inside:
  assumes "- 32635 \<le> z" "z \<le> 32635"
  obtains b where "PCMtoPCMU (of_int z) = Some b" "32 * \<bar>sint (PCMUtoPCM b) - z\<bar> \<le> \<bar>z\<bar> + 132"
proof -
  define x s where x: "x = nat \<bar>z\<bar> + 132" and s: "s = (if z < 0 then 1 else 0 :: nat)"
  obtain e where e: "e < 8" "128 * 2 ^ e \<le> x" "x < 256 * 2 ^ e"
    using assms x by (rule_tac exponent_ex [of x]) auto
  obtain m where m: "m < 16" "(16 + m) * 2 ^ (e + 3) \<le> x" "x < (17 + m) * 2 ^ (e + 3)"
    using digit_ex [OF e(2,3)] by metis
  define v h where v: "v = (33 + 2 * m) * 2 ^ (e + 2)" and h: "h = (2 ^ (e + 2) :: nat)"
  note lv = ulaw_level [OF e(1) m(1) v h]
  have "x = min (nat \<bar>z\<bar>) 32635 + 132"
    using assms x by simp
  then have enc: "PCMtoPCMU (of_int z) = Some (NOT (of_nat (128 * s + 16 * e + m)))"
    using assms by (intro ulaw_encode [OF _ _ refl s _ e(1) m]) auto
  define y where "y = (if s = 0 then int v - 132 else if v = 132 then - 1 else 132 - int v)"
  have "s < 2" "- 32768 \<le> y" "y < 32768"
    using lv(1,2) s by (auto simp: y_def)
  then have "sint (PCMUtoPCM (NOT (of_nat (128 * s + 16 * e + m)))) = y"
    unfolding ulaw_decode_level [OF \<open>s < 2\<close> e(1) m(1) v] y_def [symmetric] by (simp only: sint_small)
  moreover have "v \<le> x + h" "x < v + h"
    using lv(5,6) m(2,3) by linarith+
  then have "\<bar>y - z\<bar> \<le> int h"
    using lv(1,4) s x by (auto simp: y_def)
  moreover have "32 * h \<le> x"
    using e(2) h by (simp add: power_add)
  then have "32 * int h \<le> \<bar>z\<bar> + 132"
    using x by linarith
  ultimately show thesis
    using that [OF enc] by simp
qed

lemma ulaw_clipped:
  assumes "- 32768 < z" "z < 32768" "32635 < \<bar>z\<bar>"
  shows "PCMtoPCMU (of_int z) = Some (NOT (of_nat (128 * (if z < 0 then 1 else 0) + 16 * 7 + 15)))"
    "sint (PCMUtoPCM (NOT (of_nat (128 * (if z < 0 then 1 else 0) + 16 * 7 + 15)))) = (if z < 0 then - 32124 else 32124)"
proof -
  define s where s: "s = (if z < 0 then 1 else 0 :: nat)"
  show "PCMtoPCMU (of_int z) = Some (NOT (of_nat (128 * (if z < 0 then 1 else 0) + 16 * 7 + 15)))"
    using assms by (intro ulaw_encode [OF _ _ refl refl refl]) auto
  have "PCMUtoPCM (NOT (of_nat (128 * s + 16 * 7 + 15))) = of_int (if z < 0 then - 32124 else 32124)"
    using s by (subst ulaw_decode_level [OF _ _ _ refl]) auto
  then show "sint (PCMUtoPCM (NOT (of_nat (128 * (if z < 0 then 1 else 0) + 16 * 7 + 15)))) = (if z < 0 then - 32124 else 32124)"
    unfolding s by (simp only:) (simp add: sint_small)
qed

lemma ulaw_error:
  assumes "- 32768 < z" "z < 32768"
  obtains b where "PCMtoPCMU (of_int z) = Some b" "32 * \<bar>sint (PCMUtoPCM b) - z\<bar> \<le> \<bar>z\<bar> + 132"
proof (cases "32635 < \<bar>z\<bar>")
  case True
  have "32 * \<bar>sint (PCMUtoPCM (NOT (of_nat (128 * (if z < 0 then 1 else 0) + 16 * 7 + 15)))) - z\<bar> \<le> \<bar>z\<bar> + 132"
    unfolding ulaw_clipped(2) [OF assms True] using assms True by (auto simp: abs_if)
  then show thesis
    using that ulaw_clipped(1) [OF assms True] by blast
next
  case False
  then have "- 32635 \<le> z" "z \<le> 32635" by linarith+
  then show thesis
    using that by (rule ulaw_inside)
qed

lemma alaw_exponent:
  assumes x: "e = 0 \<Longrightarrow> x < 256" "e \<noteq> 0 \<Longrightarrow> 128 * 2 ^ e \<le> x" "x < 256 * 2 ^ e" and "e \<le> k" "k < 8"
  shows "alawExponent (of_nat x) (128 * 2 ^ k) k = e"
  using assms(4,5)
proof (induction k)
  case (Suc k)
  have hit: "of_nat x AND (128 * 2 ^ Suc k :: i16) = 0 \<longleftrightarrow> e \<noteq> Suc k"
  proof (cases "e = Suc k")
    case False
    then have "(2::nat) ^ e \<le> 2 ^ k"
      using Suc by (intro power_increasing) auto
    then have "x < 256 * 2 ^ k"
      using x by linarith
    then show ?thesis
      using Suc.prems False by (subst and_mask) auto
  qed (use x Suc.prems in \<open>subst and_mask, auto\<close>)
  show ?case
    using Suc mask_halves [of k] unfolding alawExponent.simps hit by (simp only:) auto
qed simp

lemma alaw_const: "alawMax = of_nat 32767"
  by (simp add: alawMax_def)

lemma alaw_encode:
  assumes z: "- 32768 < z" "z < 32768" "a = nat \<bar>z\<bar>" "s = (if z < 0 then 1 else 0 :: nat)"
    and e: "e < 8" "m < 16"
    and m: "e = 0 \<Longrightarrow> 16 * m \<le> a \<and> a < 16 * m + 16"
      "e \<noteq> 0 \<Longrightarrow> (16 + m) * 2 ^ (e + 3) \<le> a \<and> a < (17 + m) * 2 ^ (e + 3)"
  shows "PCMtoPCMA (of_int z) = of_nat (128 * s + 16 * e + m) XOR 0xD5"
proof -
  have as: "a < 32768" "s < 2"
    using z by auto
  then have "(if (of_nat 32767 :: i16) <s of_nat a then of_nat 32767 else of_nat a) = (of_nat a :: i16)"
    by (subst clamp_small) auto
  then have p: "(if alawMax <s of_nat a then alawMax else of_nat a) = (of_nat a :: i16)"
    unfolding alaw_const .
  have "alawExponent (of_nat a) (128 * 2 ^ 7) 7 = e"
    using m e exponent_of [of m e a] by (intro alaw_exponent) (cases "e = 0"; auto)+
  then have ex: "alawExponent (of_nat a) 0x4000 7 = e"
    by simp
  have d: "ucast (signed_drop_bit (e + 3) (of_nat a :: i16)) AND 0x0F = (of_nat m :: byte)" if "e \<noteq> 0"
    using m e as that by (intro digit_cast) auto
  have d0: "ucast (signed_drop_bit 4 (of_nat a :: i16)) AND 0x0F = (of_nat m :: byte)" if "e = 0"
  proof -
    have "a div 2 ^ 4 = m"
      using m(1) [OF that] by (intro div_nat_eqI) auto
    then have "ucast (signed_drop_bit 4 (of_nat a :: i16)) = (of_nat m :: byte)"
      using as e by (simp only: sdrop_small) (simp add: unsigned_of_nat take_bit_nat_eq_self)
    then show ?thesis
      using digits_low [OF e(2), of 0 0] by simp
  qed
  have "(if e = 0 then (if s = 0 then 0 else 0x80) OR of_nat m
      else (if s = 0 then 0 else 0x80) OR push_bit 4 (of_nat e) OR of_nat m) = (of_nat (128 * s + 16 * e + m) :: byte)"
    unfolding digits_or [OF as(2) e, symmetric] by (simp add: or.assoc or.left_commute or.commute)
  then show ?thesis
    unfolding PCMtoPCMA_def magnitude_small [OF z] Let_def prod.case p ex
    by (cases "e = 0") (simp_all only: d d0 if_True if_False simp_thms)
qed

lemma or_above:
  assumes "x < 2 ^ k" "k < 16" shows "(of_nat x :: i16) OR 2 ^ k = of_nat (x + 2 ^ k)"
proof -
  have "\<not> bit (of_nat x :: i16) n \<or> \<not> bit (2 ^ k :: i16) n" for n
  proof (cases "n = k")
    case True
    then show ?thesis
      using assms by (simp add: bit_word_of_nat) (simp add: bit_iff_odd)
  qed (simp add: bit_exp_iff)
  then show ?thesis
    by (simp add: disjunctive_add [symmetric])
qed

lemma alaw_decode:
  assumes "s < 2" "e < 8" "m < 16" "v = (if e = 0 then 16 * m + 8 else (16 * m + 264) * 2 ^ (e - 1))"
  shows "PCMAtoPCM (of_nat (128 * s + 16 * e + m) XOR 0xD5) = of_int (if s = 0 then int v else - int v)"
proof -
  have c: "(of_nat (128 * s + 16 * e + m) XOR 0xD5) XOR 0xD5 = (of_nat (128 * s + 16 * e + m) :: byte)"
    by (simp only: xor.assoc xor_self_eq xor.right_neutral)
  have "push_bit 4 (of_nat m :: byte) + 8 = of_nat (16 * m + 8)"
    by (simp add: push_bit_eq_mult mult.commute)
  then have d0: "ucast (push_bit 4 (of_nat m :: byte) + 8) = (of_nat (16 * m + 8) :: i16)"
    using assms by (simp add: unsigned_of_nat take_bit_nat_eq_self del: of_nat_add of_nat_mult)
  have d1: "(of_nat (16 * m + 8) :: i16) OR 0x100 = of_nat (16 * m + 264)"
    using or_above [of "16 * m + 8" 8] assms by (simp add: add.commute del: of_nat_add of_nat_mult)
  have ue: "unat (of_nat e - 1 :: byte) = e - 1" if "1 < e"
  proof -
    have "of_nat e - 1 = (of_nat (e - 1) :: byte)"
      using that by (simp add: of_nat_diff)
    then show ?thesis
      using assms by (simp add: unsigned_of_nat take_bit_nat_eq_self del: of_nat_diff)
  qed
  have e1: "1 < (of_nat e :: byte) \<longleftrightarrow> 1 < e" "(of_nat e :: byte) \<noteq> 0 \<longleftrightarrow> e \<noteq> 0"
    using assms by (simp_all add: word_less_nat_alt unsigned_of_nat take_bit_nat_eq_self unat_gt_0 [symmetric] del: unat_gt_0)
  have "(let data1 = if (of_nat e :: byte) \<noteq> 0 then of_nat (16 * m + 8) OR 0x100 else of_nat (16 * m + 8)
    in if 1 < (of_nat e :: byte) then push_bit (unat (of_nat e - 1 :: byte)) data1 else data1) = (of_nat v :: i16)"
    unfolding e1 d1 Let_def assms(4) by (auto simp: ue push_bit_eq_mult)
  then show ?thesis
    unfolding PCMAtoPCM_def Let_def c digits_low [OF assms(3)] digits_mid [OF assms(1-3)] digits_high [OF assms(1-3)] d0
    by (simp only: of_int_minus of_int_of_nat_eq if_distrib [of of_int])
qed

lemma alaw_level:
  assumes "e < 8" "m < 16" "v = (if e = 0 then 16 * m + 8 else (16 * m + 264) * 2 ^ (e - 1))"
    "h = (if e = 0 then 8 else 2 ^ (e + 2) :: nat)"
  shows "e = 0 \<Longrightarrow> 16 * m + h = v \<and> v + h = 16 * m + 16 \<and> v < 256"
    "e \<noteq> 0 \<Longrightarrow> (16 + m) * 2 ^ (e + 3) + h = v \<and> v + h = (17 + m) * 2 ^ (e + 3)" "0 < v" "0 < h" "v \<le> 32256"
proof -
  show "e = 0 \<Longrightarrow> 16 * m + h = v \<and> v + h = 16 * m + 16 \<and> v < 256"
    using assms by simp
  show "(16 + m) * 2 ^ (e + 3) + h = v \<and> v + h = (17 + m) * 2 ^ (e + 3)" if "e \<noteq> 0"
    using that assms(3,4) by (cases e) (simp_all add: power_add algebra_simps)
  show "0 < v" "0 < h"
    using assms(3,4) by auto
  have "(16 * m + 264) * 2 ^ (e - 1) \<le> 504 * (2 ^ 6 :: nat)"
    using assms(1,2) by (intro mult_mono power_increasing) auto
  then show "v \<le> 32256"
    using assms by auto
qed

lemma alaw_identity: "PCMtoPCMA (PCMAtoPCM b) = b"
proof -
  obtain s e m where d: "s < 2" "e < 8" "m < 16" and b: "b XOR 0xD5 = of_nat (128 * s + 16 * e + m)"
    by (rule digits_ex)
  define v where v: "v = (if e = 0 then 16 * m + 8 else (16 * m + 264) * 2 ^ (e - 1))"
  define z where "z = (if s = 0 then int v else - int v)"
  have b': "b = of_nat (128 * s + 16 * e + m) XOR 0xD5"
    unfolding b [symmetric] by (simp only: xor.assoc xor_self_eq xor.right_neutral)
  note lv = alaw_level [OF d(2,3) v refl]
  have z: "- 32768 < z" "z < 32768" "v = nat \<bar>z\<bar>" "s = (if z < 0 then 1 else 0)"
    using lv(3,5) d(1) by (auto simp: z_def)
  have "PCMtoPCMA (of_int z) = of_nat (128 * s + 16 * e + m) XOR 0xD5"
    using lv(1,2,4) by (intro alaw_encode [OF z d(2,3)]) linarith+
  then show ?thesis
    using alaw_decode [OF d v] b' unfolding z_def by simp
qed

lemma alaw_error:
  assumes "- 32768 < z" "z < 32768"
  shows "\<bar>sint (PCMAtoPCM (PCMtoPCMA (of_int z))) - z\<bar> \<le> max 8 (\<bar>z\<bar> div 32)"
proof -
  define x s where x: "x = nat \<bar>z\<bar>" and s: "s = (if z < 0 then 1 else 0 :: nat)"
  obtain e m where e: "e < 8" "m < 16" "e = 0 \<Longrightarrow> 16 * m \<le> x \<and> x < 16 * m + 16"
    "e \<noteq> 0 \<Longrightarrow> (16 + m) * 2 ^ (e + 3) \<le> x \<and> x < (17 + m) * 2 ^ (e + 3)" "e \<noteq> 0 \<Longrightarrow> 128 * 2 ^ e \<le> x"
  proof (cases "x < 256")
    case True
    then show thesis
      using that [of 0 "x div 16"] dividend_less_div_times [of 16 x] div_times_less_eq_dividend [of x 16]
      by (simp add: less_mult_imp_div_less mult.commute)
  next
    case False
    then obtain e where "e < 8" "128 * 2 ^ e \<le> x" "x < 256 * 2 ^ e"
      using assms x by (rule_tac exponent_ex [of x]) auto
    moreover from this obtain m where "m < 16" "(16 + m) * 2 ^ (e + 3) \<le> x" "x < (17 + m) * 2 ^ (e + 3)"
      using digit_ex by metis
    moreover have "e \<noteq> 0"
      using False calculation(3) by (cases e) auto
    ultimately show thesis
      using that [of e m] by simp
  qed
  define v h where v: "v = (if e = 0 then 16 * m + 8 else (16 * m + 264) * 2 ^ (e - 1))"
    and h: "h = (if e = 0 then 8 else 2 ^ (e + 2) :: nat)"
  note lv = alaw_level [OF e(1,2) v h]
  have "s < 2"
    using s by simp
  have enc: "PCMtoPCMA (of_int z) = of_nat (128 * s + 16 * e + m) XOR 0xD5"
    using assms by (intro alaw_encode [OF _ _ x s e(1,2) e(3,4)])
  have "sint (PCMAtoPCM (PCMtoPCMA (of_int z))) = (if s = 0 then int v else - int v)"
    using lv(5) unfolding enc alaw_decode [OF \<open>s < 2\<close> e(1,2) v] by (intro sint_small) auto
  moreover have "v \<le> x + h \<and> x \<le> v + h"
    using lv(1,2) e(3,4) by linarith
  then have "\<bar>(if s = 0 then int v else - int v) - z\<bar> \<le> int h"
    using x s by auto
  moreover have "int h \<le> max 8 (\<bar>z\<bar> div 32)"
  proof (cases "e = 0")
    case False
    then have "32 * h \<le> x"
      using e(5) h by (simp add: power_add)
    then have "32 * int h \<le> \<bar>z\<bar>"
      using x by linarith
    then show ?thesis
      using zdiv_mono1 [of "32 * int h" "\<bar>z\<bar>" 32] by simp
  qed (simp add: h)
  ultimately show ?thesis by simp
qed

lemma sint_min: "sint x = - 32768 \<Longrightarrow> x = - 32768" for x :: i16
  by (rule signed_word_eqI [where ?'a = int]) simp

lemma ulaw_returns: "\<exists>c. PCMtoPCMU x = Some c"
proof (cases "sint x = - 32768")
  case True
  then show ?thesis
    using ulaw_min(1) sint_min by blast
next
  case False
  obtain z where "x = of_int z" "- 32768 \<le> z" "z < 32768" "sint x = z"
    by (rule sample_int)
  then show ?thesis
    using False ulaw_error [of z] by (metis order_le_less)
qed

text \<open>
  C39. The companders.  Decoding a G.711 byte and encoding the sample again gives the byte, for both laws.  The search for
  the exponent in \<^verbatim>\<open>PCMtoPCMU\<close> ends for every sample.  For every sample but the lowest the error of encoding and
  decoding is at most a thirty-second part of the biased magnitude for mu-law, and at most 8 or a thirty-second part of
  the magnitude for A-law.  The lowest sample, -32768, is its own negation, passes the clipping and comes back as -1
  for mu-law and as -8 for A-law.
\<close>

theorem g711_companding:
  "PCMtoPCMU (PCMUtoPCM b) = Some b \<and> PCMtoPCMA (PCMAtoPCM b) = b \<and>
   (\<exists>c. PCMtoPCMU x = Some c \<and>
     (if sint x = - 32768 then sint (PCMUtoPCM c) = - 1 \<and> sint (PCMAtoPCM (PCMtoPCMA x)) = - 8
      else 32 * \<bar>sint (PCMUtoPCM c) - sint x\<bar> \<le> \<bar>sint x\<bar> + 132 \<and>
        \<bar>sint (PCMAtoPCM (PCMtoPCMA x)) - sint x\<bar> \<le> max 8 (\<bar>sint x\<bar> div 32)))"
proof (cases "sint x = - 32768")
  case True
  then show ?thesis
    using ulaw_min alaw_min sint_min [OF True] by (simp add: ulaw_identity alaw_identity)
next
  case False
  obtain z where z: "x = of_int z" "- 32768 \<le> z" "z < 32768" "sint x = z"
    by (rule sample_int)
  then obtain c where "PCMtoPCMU x = Some c" "32 * \<bar>sint (PCMUtoPCM c) - z\<bar> \<le> \<bar>z\<bar> + 132"
    using False ulaw_error [of z] by (metis order_le_less)
  moreover have "\<bar>sint (PCMAtoPCM (PCMtoPCMA x)) - z\<bar> \<le> max 8 (\<bar>z\<bar> div 32)"
    using alaw_error [of z] z False by simp
  ultimately show ?thesis
    using False z(4) by (simp add: ulaw_identity alaw_identity)
qed

end
