(* ===== verification/Utf8.thy ===== *)
theory Utf8
  imports G711
begin

text \<open>
  The part of \<^verbatim>\<open>unicode/utf8\<close> that \<^verbatim>\<open>av/codec/pcm/flac.go\<close> calls.  A rune is an \<^verbatim>\<open>int32\<close>, kept as its 32 bits.  Surrogates
  and numbers above 0x10FFFF, so every negative rune, are encoded as U+FFFD.
\<close>

definition RuneError :: u32 where
  "RuneError = 0xFFFD"

definition validRune :: "u32 \<Rightarrow> bool" where
  "validRune r \<longleftrightarrow> r < 0xD800 \<or> 0xE000 \<le> r \<and> r \<le> 0x10FFFF"

definition rune_of :: "u32 \<Rightarrow> u32" where
  "rune_of r = (if validRune r then r else RuneError)"

definition EncodeRune :: "u32 \<Rightarrow> bytes" where
  "EncodeRune r0 =
    (let r = rune_of r0 in
     if r \<le> 0x7F then [ucast r]
     else if r \<le> 0x7FF then [0xC0 OR ucast (drop_bit 6 r), 0x80 OR (ucast r AND 0x3F)]
     else if r \<le> 0xFFFF
     then [0xE0 OR ucast (drop_bit 12 r), 0x80 OR (ucast (drop_bit 6 r) AND 0x3F), 0x80 OR (ucast r AND 0x3F)]
     else [0xF0 OR ucast (drop_bit 18 r), 0x80 OR (ucast (drop_bit 12 r) AND 0x3F),
       0x80 OR (ucast (drop_bit 6 r) AND 0x3F), 0x80 OR (ucast r AND 0x3F)])"

text \<open>The leading byte gives the size and the accepted range of the second byte.\<close>

definition runeClass :: "byte \<Rightarrow> (nat \<times> byte \<times> byte) option" where
  "runeClass b =
    (if b < 0xC2 then None else if b < 0xE0 then Some (2, 0x80, 0xBF)
     else if b = 0xE0 then Some (3, 0xA0, 0xBF) else if b = 0xED then Some (3, 0x80, 0x9F)
     else if b < 0xF0 then Some (3, 0x80, 0xBF)
     else if b = 0xF0 then Some (4, 0x90, 0xBF) else if b < 0xF4 then Some (4, 0x80, 0xBF)
     else if b = 0xF4 then Some (4, 0x80, 0x8F) else None)"

definition join6 :: "u32 \<Rightarrow> byte \<Rightarrow> u32" where
  "join6 v b = push_bit 6 v OR ucast (b AND 0x3F)"

definition DecodeRune :: "bytes \<Rightarrow> u32 \<times> nat" where
  "DecodeRune p =
    (if p = [] then (RuneError, 0)
     else if p ! 0 < 0x80 then (ucast (p ! 0), 1)
     else case runeClass (p ! 0) of None \<Rightarrow> (RuneError, 1)
     | Some (sz, lo, hi) \<Rightarrow>
         if length p < sz \<or> p ! 1 < lo \<or> hi < p ! 1 then (RuneError, 1)
         else if sz \<le> 2 then (join6 (ucast (p ! 0 AND 0x1F)) (p ! 1), 2)
         else if p ! 2 < 0x80 \<or> 0xBF < p ! 2 then (RuneError, 1)
         else if sz \<le> 3 then (join6 (join6 (ucast (p ! 0 AND 0x0F)) (p ! 1)) (p ! 2), 3)
         else if p ! 3 < 0x80 \<or> 0xBF < p ! 3 then (RuneError, 1)
         else (join6 (join6 (join6 (ucast (p ! 0 AND 0x07)) (p ! 1)) (p ! 2)) (p ! 3), 4))"

lemma or_low:
  assumes "x < 2 ^ j" "j < LENGTH('a)" shows "(push_bit j w :: 'a::len word) OR of_nat x = push_bit j w + of_nat x"
proof -
  have "\<not> bit (push_bit j w :: 'a word) n \<or> \<not> bit (of_nat x :: 'a word) n" for n
  proof (cases "n < j")
    case False
    then have "x < 2 ^ n"
      using assms less_le_trans [OF assms(1) power_increasing [of j n]] by simp
    then have "\<not> bit x n" by (simp add: bit_iff_odd)
    then show ?thesis
      using bit_imp_le_length [of "of_nat x :: 'a word" n] bit_word_of_nat [of n x, where ?'a = 'a] by blast
  qed (simp add: bit_push_bit_iff)
  then show ?thesis
    by (simp add: disjunctive_add)
qed

lemma take_digit:
  assumes "x < 2 ^ j" "j < LENGTH('a)" shows "take_bit j (push_bit j w + of_nat x) = (of_nat x :: 'a::len word)"
proof -
  have "take_bit j (push_bit j w + of_nat x) = take_bit j (push_bit j w OR (of_nat x :: 'a word))"
    using or_low [OF assms] by simp
  also have "\<dots> = of_nat (take_bit j x)"
    by (simp add: take_bit_push_bit take_bit_of_nat)
  finally show ?thesis
    using assms by (simp add: take_bit_nat_eq_self)
qed

lemma ucast_byte: "x < 256 \<Longrightarrow> ucast (of_nat x :: byte) = (of_nat x :: u32)"
  by (simp add: unsigned_of_nat take_bit_nat_eq_self)

lemma and_masks:
  "w AND 0x3F = take_bit 6 w" "w AND 0x1F = take_bit 5 w" "w AND 0x0F = take_bit 4 w" "w AND 0x07 = take_bit 3 w" for w :: byte
  by (simp_all add: take_bit_eq_mask mask_eq_exp_minus_1)

lemma join6_nat:
  assumes "x < 64" shows "join6 (of_nat v) (of_nat (128 + x)) = of_nat (64 * v + x)"
proof -
  have "(of_nat (128 + x) :: byte) AND 0x3F = of_nat x"
    unfolding and_masks using take_digit [of x 6 "2 :: byte"] assms by simp
  then have "join6 (of_nat v) (of_nat (128 + x)) = push_bit 6 (of_nat v) OR of_nat x"
    using assms unfolding join6_def by (simp only:) (simp add: ucast_byte)
  then show ?thesis
    using or_low [of x 6 "of_nat v :: u32"] assms by (simp add: push_bit_eq_mult mult.commute)
qed

lemma lead_byte:
  "x < 32 \<Longrightarrow> 0xC0 OR of_nat x = (of_nat (192 + x) :: byte)" "x < 16 \<Longrightarrow> 0xE0 OR of_nat x = (of_nat (224 + x) :: byte)"
  "x < 8 \<Longrightarrow> 0xF0 OR of_nat x = (of_nat (240 + x) :: byte)" "x < 64 \<Longrightarrow> 0x80 OR of_nat x = (of_nat (128 + x) :: byte)"
  using or_low [of x 5 "6 :: byte"] or_low [of x 4 "14 :: byte"] or_low [of x 3 "30 :: byte"] or_low [of x 6 "2 :: byte"]
  by simp_all

lemma lead_value:
  "x < 32 \<Longrightarrow> ucast ((of_nat (192 + x) :: byte) AND 0x1F) = (of_nat x :: u32)"
  "x < 16 \<Longrightarrow> ucast ((of_nat (224 + x) :: byte) AND 0x0F) = (of_nat x :: u32)"
  "x < 8 \<Longrightarrow> ucast ((of_nat (240 + x) :: byte) AND 0x07) = (of_nat x :: u32)"
  unfolding and_masks using take_digit [of x 5 "6 :: byte"] take_digit [of x 4 "14 :: byte"] take_digit [of x 3 "30 :: byte"]
  by (simp_all add: ucast_byte)

lemma ucast_drop:
  assumes "n < 2 ^ 32" shows "ucast (drop_bit k (of_nat n :: u32)) = (of_nat (n div 2 ^ k) :: byte)"
proof -
  have "unat (drop_bit k (of_nat n :: u32)) = n div 2 ^ k"
    using assms by (subst unat_drop_bit_eq) (simp add: unsigned_of_nat take_bit_nat_eq_self drop_bit_eq_div)
  then have "(of_nat (unat (drop_bit k (of_nat n :: u32))) :: byte) = of_nat (n div 2 ^ k)"
    by simp
  then show ?thesis
    by (simp add: unsigned_ucast_eq)
qed

lemma cont_byte:
  assumes "n < 2 ^ 32"
  shows "0x80 OR (ucast (drop_bit k (of_nat n :: u32)) AND 0x3F) = (of_nat (128 + n div 2 ^ k mod 64) :: byte)"
proof -
  have "ucast (drop_bit k (of_nat n :: u32)) AND 0x3F = (of_nat (n div 2 ^ k mod 64) :: byte)"
    unfolding and_masks ucast_drop [OF assms] take_bit_of_nat by (simp add: take_bit_eq_mod)
  then show ?thesis
    by (simp add: lead_byte)
qed

lemma byte_of_nat:
  "x < 256 \<Longrightarrow> y < 256 \<Longrightarrow> (of_nat x :: byte) < of_nat y \<longleftrightarrow> x < y"
  "x < 256 \<Longrightarrow> y < 256 \<Longrightarrow> (of_nat x :: byte) = of_nat y \<longleftrightarrow> x = y"
  by (simp_all add: word_less_nat_alt word_unat_eq_iff unsigned_of_nat take_bit_nat_eq_self)

definition classNat :: "nat \<Rightarrow> (nat \<times> nat \<times> nat) option" where
  "classNat b =
    (if b < 194 then None else if b < 224 then Some (2, 128, 191)
     else if b = 224 then Some (3, 160, 191) else if b = 237 then Some (3, 128, 159)
     else if b < 240 then Some (3, 128, 191)
     else if b = 240 then Some (4, 144, 191) else if b < 244 then Some (4, 128, 191)
     else if b = 244 then Some (4, 128, 143) else None)"

lemma runeClass_nat:
  "x < 256 \<Longrightarrow> runeClass (of_nat x) = map_option (\<lambda>(sz, lo, hi). (sz, of_nat lo, of_nat hi)) (classNat x)"
  using byte_of_nat [of x 194] byte_of_nat [of x 224] byte_of_nat [of x 237] byte_of_nat [of x 240] byte_of_nat [of x 244]
  by (simp add: runeClass_def classNat_def)

lemma decode2:
  assumes "194 \<le> a" "a < 224" "b < 64"
  shows "DecodeRune (of_nat a # of_nat (128 + b) # q) = (of_nat (64 * (a - 192) + b), 2)"
proof -
  have "ucast ((of_nat a :: byte) AND 0x1F) = (of_nat (a - 192) :: u32)"
    using lead_value(1) [of "a - 192"] assms by simp
  then show ?thesis
    using assms byte_of_nat [of a 128] byte_of_nat [of "128 + b" 128] byte_of_nat [of 191 "128 + b"] join6_nat [of b "a - 192"]
    by (simp add: DecodeRune_def runeClass_nat classNat_def)
qed

lemma cont_range:
  assumes "b < 64" shows "\<not> of_nat (128 + b) < (0x80 :: byte)" "\<not> 0xBF < (of_nat (128 + b) :: byte)"
  using assms byte_of_nat [of "128 + b" 128] byte_of_nat [of 191 "128 + b"] by simp_all

lemma class_range:
  assumes "\<exists>lo hi. classNat a = Some (k, lo, hi) \<and> lo \<le> 128 + b \<and> 128 + b \<le> hi \<and> hi < 256" "a < 256"
  shows "\<exists>lo hi. runeClass (of_nat a) = Some (k, lo, hi) \<and> \<not> of_nat (128 + b) < lo \<and> \<not> hi < of_nat (128 + b)"
proof -
  obtain lo hi where c: "classNat a = Some (k, lo, hi)" "lo \<le> 128 + b" "128 + b \<le> hi" "hi < 256"
    using assms by blast
  then have "\<not> (of_nat (128 + b) :: byte) < of_nat lo" "\<not> (of_nat hi :: byte) < of_nat (128 + b)"
    by (subst byte_of_nat; simp)+
  then show ?thesis
    using c assms(2) by (simp add: runeClass_nat)
qed

lemma decode3:
  assumes "224 \<le> a" "a < 240" "b < 64" "c < 64" "a = 224 \<Longrightarrow> 32 \<le> b" "a = 237 \<Longrightarrow> b < 32"
  shows "DecodeRune (of_nat a # of_nat (128 + b) # of_nat (128 + c) # q) = (of_nat (64 * (64 * (a - 224) + b) + c), 3)"
proof -
  have "ucast ((of_nat a :: byte) AND 0x0F) = (of_nat (a - 224) :: u32)"
    using lead_value(2) [of "a - 224"] assms by simp
  moreover have "\<not> of_nat a < (0x80 :: byte)"
    using assms byte_of_nat [of a 128] by simp
  moreover have "\<exists>lo hi. classNat a = Some (3, lo, hi) \<and> lo \<le> 128 + b \<and> 128 + b \<le> hi \<and> hi < 256"
    using assms by (auto simp: classNat_def)
  then have "\<exists>lo hi. runeClass (of_nat a) = Some (3, lo, hi) \<and> \<not> of_nat (128 + b) < lo \<and> \<not> hi < of_nat (128 + b)"
    using assms by (intro class_range) auto
  ultimately show ?thesis
    using assms(3,4) cont_range [OF assms(4)] join6_nat [OF assms(3), of "a - 224"] join6_nat [OF assms(4), of "64 * (a - 224) + b"]
    by (auto simp: DecodeRune_def nth_Cons_numeral simp del: of_nat_add of_nat_mult)
qed

lemma decode4:
  assumes "240 \<le> a" "a < 245" "b < 64" "c < 64" "d < 64" "a = 240 \<Longrightarrow> 16 \<le> b" "a = 244 \<Longrightarrow> b < 16"
  shows "DecodeRune (of_nat a # of_nat (128 + b) # of_nat (128 + c) # of_nat (128 + d) # q) =
    (of_nat (64 * (64 * (64 * (a - 240) + b) + c) + d), 4)"
proof -
  have "ucast ((of_nat a :: byte) AND 0x07) = (of_nat (a - 240) :: u32)"
    using lead_value(3) [of "a - 240"] assms by simp
  moreover have "\<not> of_nat a < (0x80 :: byte)"
    using assms byte_of_nat [of a 128] by simp
  moreover have "\<exists>lo hi. classNat a = Some (4, lo, hi) \<and> lo \<le> 128 + b \<and> 128 + b \<le> hi \<and> hi < 256"
    using assms by (auto simp: classNat_def)
  then have "\<exists>lo hi. runeClass (of_nat a) = Some (4, lo, hi) \<and> \<not> of_nat (128 + b) < lo \<and> \<not> hi < of_nat (128 + b)"
    using assms by (intro class_range) auto
  ultimately show ?thesis
    using assms(3-5) cont_range [OF assms(4)] cont_range [OF assms(5)] join6_nat [OF assms(3), of "a - 240"]
      join6_nat [OF assms(4), of "64 * (a - 240) + b"] join6_nat [OF assms(5), of "64 * (64 * (a - 240) + b) + c"]
    by (auto simp: DecodeRune_def nth_Cons_numeral simp del: of_nat_add of_nat_mult)
qed

lemma split64:
  "64 * (n div 64) + n mod 64 = n" "64 * (n div 4096) + n div 64 mod 64 = n div (64 :: nat)"
  "64 * (n div 262144) + n div 4096 mod 64 = n div 4096"
  using div_mult2_eq [of n 64 64] div_mult2_eq [of n 4096 64] mult_div_mod_eq [of 64 "n div 64"] mult_div_mod_eq [of 64 "n div 4096"]
  by simp_all

lemma rune_of_nat:
  obtains n where "rune_of r = of_nat n" "n < 0xD800 \<or> 0xE000 \<le> n" "n < 0x110000"
proof -
  have "unat (rune_of r) < 0xD800 \<or> 0xE000 \<le> unat (rune_of r)" "unat (rune_of r) \<le> 0x10FFFF"
    by (auto simp: rune_of_def validRune_def RuneError_def word_less_nat_alt word_le_nat_alt)
  then show thesis
    using that [of "unat (rune_of r)"] by simp
qed

lemma u32_le: "n < 2 ^ 32 \<Longrightarrow> y < 2 ^ 32 \<Longrightarrow> (of_nat n :: u32) \<le> of_nat y \<longleftrightarrow> n \<le> y"
  by (simp add: word_le_nat_alt unsigned_of_nat take_bit_nat_eq_self)

lemma EncodeRune_nat:
  assumes "rune_of r = of_nat n" "n < 0x110000"
  shows "EncodeRune r =
    (if n < 128 then [of_nat n]
     else if n < 2048 then [of_nat (192 + n div 64), of_nat (128 + n mod 64)]
     else if n < 65536 then [of_nat (224 + n div 4096), of_nat (128 + n div 64 mod 64), of_nat (128 + n mod 64)]
     else [of_nat (240 + n div 262144), of_nat (128 + n div 4096 mod 64), of_nat (128 + n div 64 mod 64), of_nat (128 + n mod 64)])"
proof -
  have n: "n < 2 ^ 32"
    using assms by simp
  have le: "(of_nat n :: u32) \<le> 0x7F \<longleftrightarrow> n < 128" "(of_nat n :: u32) \<le> 0x7FF \<longleftrightarrow> n < 2048" "(of_nat n :: u32) \<le> 0xFFFF \<longleftrightarrow> n < 65536"
    using u32_le [OF n, of 127] u32_le [OF n, of 2047] u32_le [OF n, of 65535] by auto
  have u: "ucast (of_nat n :: u32) = (of_nat n :: byte)"
    using ucast_drop [OF n, of 0] by simp
  have c0: "0x80 OR (ucast (of_nat n :: u32) AND 0x3F) = (of_nat (128 + n mod 64) :: byte)"
    using cont_byte [OF n, of 0] by simp
  show ?thesis
    using assms(2) lead_byte(1) [of "n div 64"] lead_byte(2) [of "n div 4096"] lead_byte(3) [of "n div 262144"]
    unfolding EncodeRune_def Let_def assms(1) le c0 cont_byte [OF n]
    unfolding ucast_drop [OF n]
    by (auto simp: u less_mult_imp_div_less simp del: of_nat_add)
qed

lemma DecodeRune_EncodeRune: "DecodeRune (EncodeRune r @ q) = (rune_of r, length (EncodeRune r))"
proof -
  obtain n where n: "rune_of r = of_nat n" "n < 0xD800 \<or> 0xE000 \<le> n" "n < 0x110000"
    by (rule rune_of_nat)
  note enc = EncodeRune_nat [OF n(1,3)]
  consider "n < 128" | "128 \<le> n" "n < 2048" | "2048 \<le> n" "n < 65536" | "65536 \<le> n"
    by linarith
  then show ?thesis
  proof cases
    case 1
    then have "(of_nat n :: byte) < 0x80"
      using byte_of_nat [of n 128] by simp
    then show ?thesis
      using 1 n by (simp add: enc DecodeRune_def ucast_byte)
  next
    case 2
    then have "2 \<le> n div 64" "n div 64 < 32"
      by auto
    then have "DecodeRune (of_nat (192 + n div 64) # of_nat (128 + n mod 64) # q) = (of_nat n, 2)"
      using split64(1) [of n] decode2 [of "192 + n div 64" "n mod 64" q] by simp
    then show ?thesis
      using 2 n(1) unfolding enc by simp
  next
    case 3
    have "n div 4096 < 16"
      using 3 by auto
    moreover have "32 \<le> n div 64 mod 64" if "n div 4096 = 0"
      using 3 that split64(2) [of n] by auto
    moreover have "n div 64 mod 64 < 32" if "n div 4096 = 13"
      using 3 n(2) that split64(2) [of n] split64(1) [of n] by auto
    ultimately show ?thesis
      using 3 n split64(1,2) [of n] decode3 [of "224 + n div 4096" "n div 64 mod 64" "n mod 64" q] by (simp add: enc)
  next
    case 4
    have "n div 262144 < 5"
      using n by auto
    moreover have "16 \<le> n div 4096 mod 64" if "n div 262144 = 0"
      using 4 that split64(3) [of n] by auto
    moreover have "n div 4096 mod 64 < 16" if "n div 262144 = 4"
      using n(3) that split64(3) [of n] by auto
    ultimately have "DecodeRune (of_nat (240 + n div 262144) # of_nat (128 + n div 4096 mod 64) #
        of_nat (128 + n div 64 mod 64) # of_nat (128 + n mod 64) # q) = (of_nat n, 4)"
      using split64 [of n] by (subst decode4) auto
    then show ?thesis
      using 4 n(1) unfolding enc by simp
  qed
qed

lemma length_EncodeRune: "1 \<le> length (EncodeRune r)" "length (EncodeRune r) \<le> 4"
  by (simp_all add: EncodeRune_def Let_def)

end
