(* ===== verification/Flac_Frame.thy ===== *)
theory Flac_Frame
  imports Flac Utf8 "HOL-Library.Monad_Syntax"
begin

text \<open>
  The FLAC frames that \<^verbatim>\<open>FLACEncoder\<close> of \<^verbatim>\<open>av/codec/pcm/flac.go\<close> wraps around PCM audio, and \<^verbatim>\<open>FLACCodecData.PacketDuration\<close>.
  The closure's captured variables are a record.  The buffer is made with a length computed in \<^verbatim>\<open>uint16\<close>; it is modelled by
  its filled prefix, and a write that does not fit, or an index outside the source, is the panic \<^const>\<open>None\<close>.  The two
  checksums come from packages outside the repository and are parameters.
\<close>

record flac_encoder =
  fe_codecName :: codec_type
  fe_sr :: byte
  fe_sampleNumber :: u32

definition flacRateCode :: "u32 \<Rightarrow> byte option" where
  "flacRateCode clockRate =
    (if clockRate = 8000 then Some 4 else if clockRate = 16000 then Some 5 else if clockRate = 22050 then Some 6
     else if clockRate = 24000 then Some 7 else if clockRate = 32000 then Some 8 else if clockRate = 44100 then Some 9
     else if clockRate = 48000 then Some 10 else if clockRate = 96000 then Some 11 else None)"

definition FLACEncoder :: "codec_type \<Rightarrow> u32 \<Rightarrow> flac_encoder option" where
  "FLACEncoder codecName clockRate =
    map_option (\<lambda>sr. \<lparr>fe_codecName = codecName, fe_sr = sr, fe_sampleNumber = 0\<rparr>) (flacRateCode clockRate)"

definition putBuf :: "nat \<Rightarrow> bytes \<Rightarrow> bytes \<Rightarrow> bytes option" where
  "putBuf cap b x = (if length b + length x \<le> cap then Some (b @ x) else None)"

definition s16be :: "i16 \<Rightarrow> bytes" where
  "s16be s = [ucast (signed_drop_bit 8 s), ucast s]"

fun swapPairs :: "bytes \<Rightarrow> bytes option" where
  "swapPairs [] = Some []"
| "swapPairs [x] = None"
| "swapPairs (x # y # r) = map_option (\<lambda>b. y # x # b) (swapPairs r)"

definition flacSubframe :: "codec_type \<Rightarrow> bytes \<Rightarrow> bytes option" where
  "flacSubframe codecName src =
    (if codecName = PCM_ALAW then Some (concat (map (\<lambda>b. s16be (PCMAtoPCM b)) src))
     else if codecName = PCM_MULAW then Some (concat (map (\<lambda>b. s16be (PCMUtoPCM b)) src))
     else if codecName = PCML then swapPairs src else Some [])"

definition flacEncode ::
  "(bytes \<Rightarrow> byte) \<Rightarrow> (bytes \<Rightarrow> u16) \<Rightarrow> flac_encoder \<Rightarrow> bytes \<Rightarrow> (bytes \<times> flac_encoder) option" where
  "flacEncode crc8 crc16 e src =
    (let samples = (if fe_codecName e = PCM then of_nat (length src) div 2 else of_nat (length src)) :: u16;
         cap = unat (samples * 2 + 30)
     in do {
       b \<leftarrow> putBuf cap [] [0xFF, 0xF9, 0x70 OR fe_sr e, 0x08];
       b \<leftarrow> putBuf cap b (EncodeRune (fe_sampleNumber e));
       b \<leftarrow> putBuf cap b (put16 (samples - 1));
       b \<leftarrow> putBuf cap b [crc8 b];
       b \<leftarrow> putBuf cap b [0x02];
       b \<leftarrow> (if fe_codecName e = PCM then Some (b @ take (cap - length b) src)
             else flacSubframe (fe_codecName e) src \<bind> putBuf cap b);
       b \<leftarrow> putBuf cap b (put16 (crc16 b));
       Some (b, e\<lparr>fe_sampleNumber := fe_sampleNumber e + ucast samples\<rparr>)
     })"

fun flacEncodes ::
  "(bytes \<Rightarrow> byte) \<Rightarrow> (bytes \<Rightarrow> u16) \<Rightarrow> flac_encoder \<Rightarrow> bytes list \<Rightarrow> bytes list option" where
  "flacEncodes crc8 crc16 e [] = Some []"
| "flacEncodes crc8 crc16 e (src # rest) = do {
     (b, e') \<leftarrow> flacEncode crc8 crc16 e src;
     bs \<leftarrow> flacEncodes crc8 crc16 e' rest;
     Some (b # bs)
   }"

datatype flac_error = errFlacPacketTooShort | errFlacInvalidUTF8 | errFlacPacketTruncated

definition flac_PacketDuration :: "flac_codec \<Rightarrow> bytes \<Rightarrow> (flac_error + duration) option" where
  "flac_PacketDuration f pkt =
    (if length pkt < 8 then Some (Inl errFlacPacketTooShort)
     else let runeLen = snd (DecodeRune (drop 4 pkt)) in
       if runeLen = 0 then Some (Inl errFlacInvalidUTF8)
       else let offset = 4 + runeLen in
         if length pkt < offset + 2 then Some (Inl errFlacPacketTruncated)
         else let blockSize = ucast (be16 (drop offset pkt)) + 1 :: u32 in
           if flac_sampleRate f = 0 then None
           else Some (Inr (go_quot (wrap64 (uint blockSize * second)) (uint (flac_sampleRate f)))))"

subsection \<open>Transcoding\<close>

text \<open>
  \<^verbatim>\<open>FlipEndian\<close> and the readers and writers of \<^verbatim>\<open>Transcode\<close> (\<^verbatim>\<open>av/codec/pcm/pcm.go\<close>).  An odd number of bytes of 16-bit audio
  is an index out of range.  \<open>Transcode\<close> is the closure for two codecs of the same rate and one channel, where the
  list of resampling filters is empty; a codec type outside the two switches leaves a nil function.
\<close>

definition FlipEndian :: "bytes \<Rightarrow> bytes option" where
  "FlipEndian src = swapPairs src"

fun pairs16 :: "(byte \<Rightarrow> byte \<Rightarrow> i16) \<Rightarrow> bytes \<Rightarrow> i16 list option" where
  "pairs16 f [] = Some []"
| "pairs16 f [x] = None"
| "pairs16 f (x # y # r) = map_option (Cons (f x y)) (pairs16 f r)"

definition transcodeReader :: "codec_type \<Rightarrow> bytes \<Rightarrow> i16 list option" where
  "transcodeReader t src =
    (if t = PCML then pairs16 (\<lambda>lo hi. push_bit 8 (ucast hi) OR ucast lo) src
     else if t = PCM then pairs16 (\<lambda>hi lo. push_bit 8 (ucast hi) OR ucast lo) src
     else if t = PCM_MULAW then Some (map PCMUtoPCM src)
     else if t = PCM_ALAW then Some (map PCMAtoPCM src) else None)"

fun ulawAll :: "i16 list \<Rightarrow> bytes option" where
  "ulawAll [] = Some []"
| "ulawAll (x # r) = do { b \<leftarrow> PCMtoPCMU x; bs \<leftarrow> ulawAll r; Some (b # bs) }"

definition transcodeWriter :: "codec_type \<Rightarrow> i16 list \<Rightarrow> bytes option" where
  "transcodeWriter t samples =
    (if t = PCML then Some (concat (map (\<lambda>s. [ucast s, ucast (signed_drop_bit 8 s)]) samples))
     else if t = PCM then Some (concat (map s16be samples))
     else if t = PCM_MULAW then ulawAll samples
     else if t = PCM_ALAW then Some (map PCMtoPCMA samples) else None)"

definition Transcode :: "codec_type \<Rightarrow> codec_type \<Rightarrow> bytes \<Rightarrow> bytes option" where
  "Transcode dst src b = transcodeReader src b \<bind> transcodeWriter dst"

subsection \<open>Reading a frame\<close>

text \<open>
  The reference reader follows the FLAC format for the frames of this encoder: variable block size, one channel of 16
  bits, a verbatim subframe.  It checks both checksums and gives the number of the first sample and the samples.
\<close>

fun samples16 :: "bytes \<Rightarrow> i16 list" where
  "samples16 (h # l # r) = (push_bit 8 (ucast h) OR ucast l) # samples16 r"
| "samples16 _ = []"

definition flacRead :: "(bytes \<Rightarrow> byte) \<Rightarrow> (bytes \<Rightarrow> u16) \<Rightarrow> bytes \<Rightarrow> (u32 \<times> i16 list) option" where
  "flacRead crc8 crc16 fr =
    (let (number, k) = DecodeRune (drop 4 fr); n = Suc (unat (be16 (drop (4 + k) fr)))
     in if take 2 fr = [0xFF, 0xF9] \<and> fr ! 3 = 0x08 \<and> length fr = 2 * n + k + 10 \<and> fr ! (6 + k) = crc8 (take (6 + k) fr) \<and>
           fr ! (7 + k) = 0x02 \<and> be16 (drop (8 + k + 2 * n) fr) = crc16 (take (8 + k + 2 * n) fr)
        then Some (number, samples16 (take (2 * n) (drop (8 + k) fr))) else None)"

definition law :: "codec_type \<Rightarrow> byte \<Rightarrow> i16" where
  "law codecName = (if codecName = PCM_ALAW then PCMAtoPCM else PCMUtoPCM)"

fun starts :: "nat \<Rightarrow> bytes list \<Rightarrow> nat list" where
  "starts k [] = []"
| "starts k (p # ps) = k # starts (k + length p) ps"

lemma s16_join: "push_bit 8 (ucast (ucast (signed_drop_bit 8 s) :: byte)) OR ucast (ucast s :: byte) = s" for s :: i16
  by (rule bit_word_eqI) (auto simp: bit_simps bit_signed_drop_bit_iff)

lemma samples16_s16be: "samples16 (s16be s @ r) = s # samples16 r"
  by (simp add: s16be_def s16_join)

lemma pairs16_s16be: "pairs16 (\<lambda>hi lo. push_bit 8 (ucast hi) OR ucast lo) (concat (map s16be xs)) = Some xs"
  by (induction xs) (simp_all add: s16be_def s16_join)

lemma pairs16_s16le:
  "pairs16 (\<lambda>lo hi. push_bit 8 (ucast hi) OR ucast lo) (concat (map (\<lambda>s. [ucast s, ucast (signed_drop_bit 8 s)]) xs)) = Some xs"
  by (induction xs) (simp_all add: s16_join)

lemma ulawAll_decoded: "ulawAll (map PCMUtoPCM b) = Some b"
  by (induction b) (simp_all add: ulaw_identity)

lemma pcm_types: "PCM_MULAW \<noteq> PCML" "PCM_MULAW \<noteq> PCM" "PCM_ALAW \<noteq> PCML" "PCM_ALAW \<noteq> PCM" "PCM_ALAW \<noteq> PCM_MULAW" "PCML \<noteq> PCM"
  by (simp_all add: codec_type_defs MakeAudioCodecType_def avCodecTypeMagic_def)

lemma writer_reader: "u = PCM \<or> u = PCML \<Longrightarrow> \<exists>w. transcodeWriter u xs = Some w \<and> transcodeReader u w = Some xs"
  using pcm_types by (auto simp: transcodeReader_def transcodeWriter_def pairs16_s16be pairs16_s16le)

lemma reader_writer: "t = PCM_MULAW \<or> t = PCM_ALAW \<Longrightarrow> \<exists>xs. transcodeReader t b = Some xs \<and> transcodeWriter t xs = Some b"
  using pcm_types by (auto simp: transcodeReader_def transcodeWriter_def ulawAll_decoded alaw_identity comp_def map_idI)

text \<open>G.711 audio converted to linear samples of either byte order and back is unchanged.\<close>

lemma transcode_roundtrip:
  assumes "t = PCM_MULAW \<or> t = PCM_ALAW" "u = PCM \<or> u = PCML"
  shows "\<exists>w. Transcode u t b = Some w \<and> Transcode t u w = Some b"
  using reader_writer [OF assms(1), of b] writer_reader [OF assms(2)] by (fastforce simp: Transcode_def)

lemma samples16_concat: "samples16 (concat (map (\<lambda>b. s16be (f b)) src)) = map f src"
  by (induction src) (simp_all add: samples16_s16be)

lemma length_s16be [simp]: "length (s16be s) = 2"
  by (simp add: s16be_def)

lemma length_concat_s16be [simp]: "length (concat (map (\<lambda>b. s16be (f b)) src)) = 2 * length src"
  by (induction src) simp_all

lemma law_subframe:
  "c = PCM_ALAW \<or> c = PCM_MULAW \<Longrightarrow> c \<noteq> PCM \<and> flacSubframe c src = Some (concat (map (\<lambda>b. s16be (law c b)) src))"
  by (auto simp: flacSubframe_def law_def codec_type_defs MakeAudioCodecType_def avCodecTypeMagic_def)

lemma flac_cap:
  assumes "1 \<le> k" "k \<le> 4" shows "10 + k + 2 * n \<le> unat (of_nat n * 2 + 30 :: u16) \<longleftrightarrow> n \<le> 32752"
proof -
  have "unat (of_nat n * 2 + 30 :: u16) = (2 * n + 30) mod 65536"
    using unsigned_of_nat [of "2 * n + 30", where ?'b = 16 and ?'a = nat] by (simp add: take_bit_eq_mod mult.commute)
  moreover have "(2 * n + 30) mod 65536 \<le> 2 * n + 30 - 65536" if "32752 < n"
    using that mod_less_eq_dividend [of "2 * n + 30 - 65536" 65536] le_mod_geq [of 65536 "2 * n + 30"] by simp
  ultimately show ?thesis
    using assms by (cases "n \<le> 32752") auto
qed

definition flacHead :: "byte \<Rightarrow> u32 \<Rightarrow> u16 \<Rightarrow> bytes" where
  "flacHead sr num n = [0xFF, 0xF9, 0x70 OR sr, 0x08] @ EncodeRune num @ put16 (n - 1)"

definition flacBody :: "(bytes \<Rightarrow> byte) \<Rightarrow> bytes \<Rightarrow> bytes \<Rightarrow> bytes" where
  "flacBody crc8 head payload = head @ [crc8 head, 0x02] @ payload"

lemma flacEncode_law:
  assumes "fe_codecName e = c" "c = PCM_ALAW \<or> c = PCM_MULAW"
  shows "flacEncode crc8 crc16 e src =
    (if length src \<le> 32752
     then let b = flacBody crc8 (flacHead (fe_sr e) (fe_sampleNumber e) (of_nat (length src))) (concat (map (\<lambda>b. s16be (law c b)) src))
       in Some (b @ put16 (crc16 b), e\<lparr>fe_sampleNumber := fe_sampleNumber e + ucast (of_nat (length src) :: u16)\<rparr>)
     else None)"
  using law_subframe [OF assms(2)] assms(1) flac_cap [OF length_EncodeRune, of "fe_sampleNumber e" "length src"]
  by (auto simp: flacEncode_def putBuf_def Let_def flacHead_def flacBody_def)

lemma flac_fields:
  assumes "length h = 4" "fr = h @ EncodeRune num @ put16 m @ c # x # payload @ t"
  shows "DecodeRune (drop 4 fr) = (rune_of num, length (EncodeRune num))"
    "be16 (drop (4 + length (EncodeRune num)) fr) = m"
    "take (6 + length (EncodeRune num)) fr = h @ EncodeRune num @ put16 m"
    "fr ! (6 + length (EncodeRune num)) = c" "fr ! (7 + length (EncodeRune num)) = x"
    "drop (8 + length (EncodeRune num)) fr = payload @ t"
    "take (8 + length (EncodeRune num) + length payload) fr = h @ EncodeRune num @ put16 m @ c # x # payload"
    "drop (8 + length (EncodeRune num) + length payload) fr = t"
  using assms DecodeRune_EncodeRune [of num "put16 m @ c # x # payload @ t"] by (simp_all add: nth_append)

lemma flac_blockSize: "0 < n \<Longrightarrow> n \<le> 65536 \<Longrightarrow> Suc (unat (of_nat n - 1 :: u16)) = n"
proof -
  assume n: "0 < n" "n \<le> 65536"
  then have "(of_nat n - 1 :: u16) = of_nat (n - 1)"
    by (simp add: of_nat_diff)
  then show ?thesis
    using n by (simp add: unsigned_of_nat take_bit_nat_eq_self del: of_nat_diff)
qed

lemma flacRead_frame:
  assumes n: "0 < n" "n \<le> 65536" "length payload = 2 * n"
    and b: "b = flacBody crc8 (flacHead sr num (of_nat n)) payload"
  shows "flacRead crc8 crc16 (b @ put16 (crc16 b)) = Some (rune_of num, samples16 payload)"
proof -
  define h where h: "h = [0xFF, 0xF9, 0x70 OR sr, 0x08]"
  define c where c: "c = crc8 (h @ EncodeRune num @ put16 (of_nat n - 1))"
  define fr where "fr = b @ put16 (crc16 b)"
  have hl: "length h = 4" and b': "b = h @ EncodeRune num @ put16 (of_nat n - 1) @ c # 0x02 # payload"
    by (simp_all add: b h c flacBody_def flacHead_def)
  then have fr: "fr = h @ EncodeRune num @ put16 (of_nat n - 1) @ c # 0x02 # payload @ put16 (crc16 b)"
    by (simp add: fr_def)
  have "take 2 fr = [0xFF, 0xF9]" "fr ! 3 = 0x08" "length fr = 2 * n + length (EncodeRune num) + 10"
    unfolding fr h using n by simp_all
  moreover have "8 + length (EncodeRune num) + 2 * n = 8 + length (EncodeRune num) + length payload"
    using n by simp
  ultimately show ?thesis
    unfolding fr_def [symmetric] flacRead_def Let_def flac_fields(1-6) [OF hl fr] prod.case flac_blockSize [OF n(1,2)]
    using n(3) flac_fields(7,8) [OF hl fr] c b' by simp
qed

lemma flac_duration:
  assumes n: "0 < n" "n \<le> 65536" "flac_sampleRate f \<noteq> 0"
    and b: "b = flacBody crc8 (flacHead sr num (of_nat n)) payload"
  shows "flac_PacketDuration f (b @ q) = Some (Inr (int n * second div uint (flac_sampleRate f)))"
proof -
  define h where h: "h = [0xFF, 0xF9, 0x70 OR sr, 0x08]"
  define c where c: "c = crc8 (h @ EncodeRune num @ put16 (of_nat n - 1))"
  have hl: "length h = 4" and fr: "b @ q = h @ EncodeRune num @ put16 (of_nat n - 1) @ c # 0x02 # payload @ q"
    by (simp_all add: b h c flacBody_def flacHead_def)
  have len: "8 \<le> length (b @ q)" "4 + length (EncodeRune num) + 2 \<le> length (b @ q)" "length (EncodeRune num) \<noteq> 0"
    unfolding fr using hl length_EncodeRune(1) [of num] by auto
  have "unat (of_nat n - 1 :: u16) = n - 1"
    using flac_blockSize [OF n(1,2)] by simp
  then have "ucast (of_nat n - 1 :: u16) + 1 = (of_nat n :: u32)"
    using n(1) by (metis One_nat_def Suc_pred of_nat_Suc add.commute of_nat_unat)
  then have "uint (ucast (of_nat n - 1 :: u16) + 1 :: u32) = int n"
    using n by (simp add: unsigned_of_nat take_bit_nat_eq_self)
  moreover have "in64 (int n * second)"
    using n by (simp add: in64_def second_def)
  moreover have "0 < uint (flac_sampleRate f)"
    using n(3) by (simp add: order_less_le uint_0_iff)
  ultimately show ?thesis
    using len n unfolding flac_PacketDuration_def Let_def flac_fields(1,2) [OF hl fr] snd_conv
    by (simp add: goint second_def)
qed

lemma FLACEncoder_new:
  "FLACEncoder c rate = Some e \<Longrightarrow> fe_codecName e = c \<and> fe_sampleNumber e = 0 \<and> rate \<noteq> 0"
  by (auto simp: FLACEncoder_def flacRateCode_def split: if_splits)

lemma flac_frames:
  assumes "fe_codecName e = c" "c = PCM_ALAW \<or> c = PCM_MULAW" "fe_sampleNumber e = of_nat k"
    and "\<forall>p\<in>set pkts. p \<noteq> [] \<and> length p \<le> 32752" and f: "flac_sampleRate f \<noteq> 0"
  shows "\<exists>frames. flacEncodes crc8 crc16 e pkts = Some frames \<and>
    map (flacRead crc8 crc16) frames = map2 (\<lambda>k p. Some (rune_of (of_nat k), map (law c) p)) (starts k pkts) pkts \<and>
    map (flac_PacketDuration f) frames = map (\<lambda>p. Some (Inr (int (length p) * second div uint (flac_sampleRate f)))) pkts"
  using assms(1,3,4)
proof (induction pkts arbitrary: e k)
  case (Cons p pkts)
  define b where b: "b = flacBody crc8 (flacHead (fe_sr e) (of_nat k) (of_nat (length p))) (concat (map (\<lambda>b. s16be (law c b)) p))"
  define e' where e': "e' = e\<lparr>fe_sampleNumber := of_nat k + ucast (of_nat (length p) :: u16)\<rparr>"
  have p: "0 < length p" "length p \<le> 32752"
    using Cons.prems by simp_all
  have enc: "flacEncode crc8 crc16 e p = Some (b @ put16 (crc16 b), e')"
    using Cons.prems flacEncode_law [OF Cons.prems(1) assms(2)] by (simp add: b e' Let_def)
  have rd: "flacRead crc8 crc16 (b @ put16 (crc16 b)) = Some (rune_of (of_nat k), map (law c) p)"
    using flacRead_frame [OF p(1) _ _ b] p(2) by (simp add: samples16_concat)
  have du: "flac_PacketDuration f (b @ put16 (crc16 b)) = Some (Inr (int (length p) * second div uint (flac_sampleRate f)))"
    using flac_duration [OF p(1) _ f b] p(2) by simp
  have "ucast (of_nat (length p) :: u16) = (of_nat (length p) :: u32)"
    using p by (simp add: unsigned_of_nat take_bit_nat_eq_self)
  then have "fe_codecName e' = c" "fe_sampleNumber e' = of_nat (k + length p)"
    using Cons.prems by (simp_all add: e')
  from Cons.IH [OF this] Cons.prems(3) obtain frames where
    "flacEncodes crc8 crc16 e' pkts = Some frames"
    "map (flacRead crc8 crc16) frames = map2 (\<lambda>k p. Some (rune_of (of_nat k), map (law c) p)) (starts (k + length p) pkts) pkts"
    "map (flac_PacketDuration f) frames = map (\<lambda>p. Some (Inr (int (length p) * second div uint (flac_sampleRate f)))) pkts"
    by auto
  then show ?case
    using enc rd du by (intro exI [of _ "(b @ put16 (crc16 b)) # frames"]) simp
qed simp

text \<open>
  C16. A stream of G.711 packets through the FLAC encoder.  For every checksum pair, every supported clock rate and every
  sequence of non-empty packets of at most 32752 bytes, the encoder returns one frame per packet without a panic; a FLAC
  reader accepts every frame, gets exactly the samples of the packet, and \<^verbatim>\<open>PacketDuration\<close> of the frame is the duration of
  those samples.  The number of the first sample in the header is the number of samples before the packet only while
  that number is a valid rune; a number between 0xD800 and 0xDFFF or above 0x10FFFF is written as 0xFFFD.  A packet longer
  than 32752 bytes always panics, since the length of the buffer is computed modulo 65536.
\<close>

theorem flac_stream:
  assumes "c = PCM_ALAW \<or> c = PCM_MULAW" "FLACEncoder c rate = Some e"
    and "\<forall>p\<in>set pkts. p \<noteq> [] \<and> length p \<le> 32752" and "32752 < length big"
  shows "(\<exists>frames. flacEncodes crc8 crc16 e pkts = Some frames \<and>
      map (flacRead crc8 crc16) frames = map2 (\<lambda>k p. Some (rune_of (of_nat k), map (law c) p)) (starts 0 pkts) pkts \<and>
      map (flac_PacketDuration (NewFLACCodecData c rate ch)) frames = map (\<lambda>p. Some (Inr (int (length p) * second div uint rate))) pkts) \<and>
    flacEncode crc8 crc16 e big = None"
proof -
  have e: "fe_codecName e = c" "fe_sampleNumber e = of_nat 0" "flac_sampleRate (NewFLACCodecData c rate ch) = rate" "rate \<noteq> 0"
    using FLACEncoder_new [OF assms(2)] by (simp_all add: NewFLACCodecData_def)
  show ?thesis
    using flac_frames [OF e(1) assms(1) e(2) assms(3), of "NewFLACCodecData c rate ch" crc8 crc16] assms(4)
      flacEncode_law [OF e(1) assms(1), of crc8 crc16 big] e(3,4) by simp
qed

lemma rune_numbers: "rune_of (of_nat 55295) = of_nat 55295" "rune_of (of_nat 55360) = 0xFFFD" "rune_of (of_nat 1114200) = 0xFFFD"
  by (simp_all add: rune_of_def validRune_def RuneError_def)

theorem flac_stream_witness:
  "\<exists>e. FLACEncoder PCM_MULAW 8000 = Some e \<and>
    (\<exists>frames. flacEncodes (\<lambda>_. 0) (\<lambda>_. 0) e [replicate 8 0xFF, [0x00, 0x80]] = Some frames \<and>
      map (flacRead (\<lambda>_. 0) (\<lambda>_. 0)) frames = [Some (0, replicate 8 (law PCM_MULAW 0xFF)), Some (8, map (law PCM_MULAW) [0x00, 0x80])])"
  using flac_stream [of PCM_MULAW 8000 _ "[replicate 8 0xFF, [0x00, 0x80]]" "replicate 32753 0" "\<lambda>_. 0" "\<lambda>_. 0" ch]
  by (fastforce simp: FLACEncoder_def flacRateCode_def rune_of_def validRune_def)

end
