(* ===== verification/Boxes.thy ===== *)
theory Boxes
  imports Prelude
begin

text \<open>
  ISO BMFF boxes as \<^verbatim>\<open>av/format/fmp4\<close> writes them (\<^verbatim>\<open>makeBox\<close>, \<^verbatim>\<open>makeFullBox\<close> in \<^verbatim>\<open>muxer.go\<close>) and
  searches them (\<^verbatim>\<open>findBox\<close>, \<^verbatim>\<open>findBoxes\<close> in \<^verbatim>\<open>demuxer.go\<close>).  The locale \<open>box_container\<close> is the interface
  between the two sides: from six laws about one box followed by anything it derives that a
  concatenation of boxes behaves like an association list of type and payload.  A box of 4 GiB or
  more makes \<^verbatim>\<open>makeBox\<close> wrap its size (and panic when the wrapped size is below 8); the laws carry the
  bound.
\<close>

subsection \<open>Writing\<close>

definition boxSize :: "bytes \<Rightarrow> u32" where
  "boxSize payload = of_nat (8 + length payload)"

definition makeBox :: "string \<Rightarrow> bytes \<Rightarrow> bytes" where
  "makeBox typ payload =
    (let size = boxSize payload
     in take (unat size) (put32 size @ take 4 (strbytes typ) @ payload))"

text \<open>The version byte and the three bytes of flags that \<^verbatim>\<open>makeFullBox\<close> puts before the payload.\<close>

definition fullHdr :: "byte \<Rightarrow> u32 \<Rightarrow> bytes" where
  "fullHdr version flags = [version, ucast (drop_bit 16 flags), ucast (drop_bit 8 flags), ucast flags]"

definition makeFullBox :: "string \<Rightarrow> byte \<Rightarrow> u32 \<Rightarrow> bytes \<Rightarrow> bytes" where
  "makeFullBox typ version flags payload = makeBox typ (fullHdr version flags @ payload)"

definition writeZeros :: "nat \<Rightarrow> bytes" where
  "writeZeros n = replicate n 0"

definition writeUint24 :: "u32 \<Rightarrow> bytes" where
  "writeUint24 v = [ucast (drop_bit 16 v), ucast (drop_bit 8 v), ucast v]"

subsection \<open>Searching\<close>

text \<open>
  The loop of \<^verbatim>\<open>findBox\<close>: it stops at a box whose size is below 8 or beyond the data.
\<close>

function findBox :: "bytes \<Rightarrow> string \<Rightarrow> bytes option" where
  "findBox data typ =
    (if length data < 8 then None
     else let size = be32 (slice data 0 4) in
       if size < 8 \<or> unat size > length data then None
       else if gostring (slice data 4 8) = typ then Some (slice data 8 (unat size))
       else findBox (drop (unat size) data) typ)"
  by pat_completeness auto
termination
  by (relation "measure (\<lambda>(data, typ). length data)") (auto simp: word_less_nat_alt)

function findBoxes :: "bytes \<Rightarrow> string \<Rightarrow> bytes list" where
  "findBoxes data typ =
    (if length data < 8 then []
     else let size = be32 (slice data 0 4) in
       if size < 8 \<or> unat size > length data then []
       else (if gostring (slice data 4 8) = typ then [slice data 8 (unat size)] else [])
            @ findBoxes (drop (unat size) data) typ)"
  by pat_completeness auto
termination
  by (relation "measure (\<lambda>(data, typ). length data)") (auto simp: word_less_nat_alt)

declare findBox.simps [simp del] findBoxes.simps [simp del]

text \<open>The version and flags prefix of a full box, as the parsers read it.\<close>

definition fullBoxFlags :: "bytes \<Rightarrow> u32" where
  "fullBoxFlags payload =
    (push_bit 16 (ucast (payload ! 1)) OR push_bit 8 (ucast (payload ! 2))) OR ucast (payload ! 3)"

subsection \<open>One box followed by anything\<close>

definition box_ok :: "string \<Rightarrow> bytes \<Rightarrow> bool" where
  "box_ok typ payload \<longleftrightarrow> length typ = 4 \<and> 8 + length payload < 2 ^ 32"

lemma unat_boxSize: "8 + length p < 2 ^ 32 \<Longrightarrow> unat (boxSize p) = 8 + length p"
  unfolding boxSize_def by (rule unat_of_nat_u32)

lemma boxSize_ge_8: "8 + length p < 2 ^ 32 \<Longrightarrow> \<not> boxSize p < 8"
  by (simp add: word_less_nat_alt unat_boxSize)

lemma makeBox_layout:
  assumes "box_ok typ p"
  shows "makeBox typ p = put32 (boxSize p) @ strbytes typ @ p"
  using assms by (simp add: makeBox_def box_ok_def Let_def unat_boxSize)

lemma length_makeBox: "8 + length p < 2 ^ 32 \<Longrightarrow> length typ = 4 \<Longrightarrow> length (makeBox typ p) = 8 + length p"
  by (simp add: makeBox_layout box_ok_def)

lemma makeBox_parts:
  assumes ok: "box_ok typ p"
  shows "8 + length p \<le> length (makeBox typ p @ rest)"
    and "be32 (slice (makeBox typ p @ rest) 0 4) = boxSize p"
    and "gostring (slice (makeBox typ p @ rest) 4 8) = typ"
    and "slice (makeBox typ p @ rest) 8 (8 + length p) = p"
    and "drop (8 + length p) (makeBox typ p @ rest) = rest"
proof -
  have len: "length typ = 4"
    using ok by (simp add: box_ok_def)
  show "8 + length p \<le> length (makeBox typ p @ rest)"
    by (simp add: makeBox_layout [OF ok] len)
  show "be32 (slice (makeBox typ p @ rest) 0 4) = boxSize p"
    by (simp add: makeBox_layout [OF ok] slice_prefix)
  show "gostring (slice (makeBox typ p @ rest) 4 8) = typ"
    by (simp add: makeBox_layout [OF ok] slice_middle len)
  show "slice (makeBox typ p @ rest) 8 (8 + length p) = p"
    by (simp add: makeBox_layout [OF ok] slices len)
  show "drop (8 + length p) (makeBox typ p @ rest) = rest"
    by (simp add: makeBox_layout [OF ok] len)
qed

lemma findBox_makeBox:
  assumes ok: "box_ok typ' p"
  shows "findBox (makeBox typ' p @ rest) typ = (if typ' = typ then Some p else findBox rest typ)"
  using makeBox_parts [OF ok, of rest] ok [unfolded box_ok_def]
  by (subst findBox.simps, simp add: Let_def unat_boxSize boxSize_ge_8 del: length_append drop_append, blast)

lemma findBoxes_makeBox:
  assumes ok: "box_ok typ' p"
  shows "findBoxes (makeBox typ' p @ rest) typ = (if typ' = typ then [p] else []) @ findBoxes rest typ"
  using makeBox_parts [OF ok, of rest] ok [unfolded box_ok_def]
  by (subst findBoxes.simps, simp add: Let_def unat_boxSize boxSize_ge_8 del: length_append drop_append, blast)

lemma findBox_short: "length data < 8 \<Longrightarrow> findBox data typ = None"
  by (simp add: findBox.simps)

lemma findBoxes_short: "length data < 8 \<Longrightarrow> findBoxes data typ = []"
  by (simp add: findBoxes.simps)

subsection \<open>The container interface\<close>

locale box_container =
  fixes make :: "string \<Rightarrow> bytes \<Rightarrow> bytes"
    and find :: "bytes \<Rightarrow> string \<Rightarrow> bytes option"
    and find_all :: "bytes \<Rightarrow> string \<Rightarrow> bytes list"
    and ok :: "string \<Rightarrow> bytes \<Rightarrow> bool"
  assumes find_make: "ok t' p \<Longrightarrow> find (make t' p @ rest) t = (if t' = t then Some p else find rest t)"
    and find_nil: "find [] t = None"
    and all_make: "ok t' p \<Longrightarrow> find_all (make t' p @ rest) t = (if t' = t then [p] else []) @ find_all rest t"
    and all_nil: "find_all [] t = []"
begin

definition layout :: "(string \<times> bytes) list \<Rightarrow> bytes" where
  "layout bs = concat (map (\<lambda>(t, p). make t p) bs)"

lemma find_layout:
  "\<forall>(t', p) \<in> set bs. ok t' p \<Longrightarrow> find (layout bs) t = map_of bs t"
  by (induction bs) (auto simp: layout_def find_make find_nil)

lemma find_all_layout:
  "\<forall>(t', p) \<in> set bs. ok t' p \<Longrightarrow> find_all (layout bs) t = map snd (filter (\<lambda>(t', p). t' = t) bs)"
  by (induction bs) (auto simp: layout_def all_make all_nil)

lemma find_only: "ok t' p \<Longrightarrow> find (make t' p) t = (if t' = t then Some p else None)"
  using find_make [of t' p "[]" t] by (simp add: find_nil)

lemma all_only: "ok t' p \<Longrightarrow> find_all (make t' p) t = (if t' = t then [p] else [])"
  using all_make [of t' p "[]" t] by (simp add: all_nil)

lemma all_concat_map:
  "(\<And>x. x \<in> set xs \<Longrightarrow> ok t (f x)) \<Longrightarrow> find_all (concat (map (\<lambda>x. make t (f x)) xs)) t = map f xs"
  by (induction xs) (auto simp: all_make all_nil)

end

interpretation fbox: box_container makeBox findBox findBoxes box_ok
  by unfold_locales (simp_all add: findBox_makeBox findBoxes_makeBox findBox_short findBoxes_short)

lemmas box_search = fbox.find_make fbox.find_only fbox.all_make fbox.all_only

subsection \<open>Full boxes\<close>

lemma length_fullHdr [simp]: "length (fullHdr v f) = 4"
  by (simp add: fullHdr_def)

lemma nth_fullHdr [simp]: "(fullHdr v f @ p) ! 0 = v"
  by (simp add: fullHdr_def)

lemma fullBoxFlags_fullHdr [simp]: "fullBoxFlags (fullHdr v flags @ r) = take_bit 24 flags"
proof (rule bit_word_eqI)
  fix n
  assume "n < LENGTH(32)"
  show "bit (fullBoxFlags (fullHdr v flags @ r)) n \<longleftrightarrow> bit (take_bit 24 flags) n"
    by (cases "n < 16") (auto simp: fullHdr_def fullBoxFlags_def bit_simps dest: bit_imp_le_length)
qed

lemma length_makeFullBox:
  "12 + length p < 2 ^ 32 \<Longrightarrow> length typ = 4 \<Longrightarrow> length (makeFullBox typ v f p) = 12 + length p"
  by (simp add: makeFullBox_def length_makeBox)

end
