(* ===== verification/Fmp4_Fragment.thy ===== *)
theory Fmp4_Fragment
  imports Boxes Av_Types
begin

text \<open>
  The fragment writer of \<^verbatim>\<open>av/format/fmp4/muxer.go\<close>: samples, track state, tick conversions and the
  builders of \<^verbatim>\<open>moof\<close>, \<^verbatim>\<open>mdat\<close>, \<^verbatim>\<open>emsg\<close> and \<^verbatim>\<open>sidx\<close>.  The lemmas compute the length of every box
  and show that \<^verbatim>\<open>estimateMoofSize\<close> is exact, which is what makes the data offsets of the \<^verbatim>\<open>trun\<close>
  boxes right.
\<close>

subsection \<open>Samples and tracks\<close>

record sample =
  sm_duration :: u32
  sm_size :: u32
  sm_flags :: u32
  sm_ptsOffset :: int
  sm_data :: bytes
  sm_extra :: bytes
  sm_presentationTimeMS :: int
  sm_dts :: int

record trackState =
  ts_streamIdx :: u16
  ts_id :: u32
  ts_codec :: codec_data
  ts_timescale :: u32
  ts_samples :: "sample list"
  ts_baseTime :: int
  ts_nextTime :: int
  ts_hasVideo :: bool

definition trunFlagDataOffset :: u32 where "trunFlagDataOffset = 0x000001"
definition trunFlagSampleDuration :: u32 where "trunFlagSampleDuration = 0x000100"
definition trunFlagSampleSize :: u32 where "trunFlagSampleSize = 0x000200"
definition trunFlagSampleFlags :: u32 where "trunFlagSampleFlags = 0x000400"
definition trunFlagSampleCTSOffset :: u32 where "trunFlagSampleCTSOffset = 0x000800"

definition videoTrunFlags :: u32 where
  "videoTrunFlags = trunFlagDataOffset OR trunFlagSampleDuration OR trunFlagSampleSize
     OR trunFlagSampleFlags OR trunFlagSampleCTSOffset"

definition audioTrunFlags :: u32 where
  "audioTrunFlags = trunFlagDataOffset OR trunFlagSampleDuration OR trunFlagSampleSize"

definition sampleFlagsKeyframe :: u32 where
  "sampleFlagsKeyframe = 0x02000000"

definition sampleFlagsNonKeyframe :: u32 where
  "sampleFlagsNonKeyframe = 0x01010000"

subsection \<open>Tick conversions\<close>

definition dtsToTimescale :: "duration \<Rightarrow> u32 \<Rightarrow> int" where
  "dtsToTimescale d timescale = go_quot (wrap64 (d * uint timescale)) second"

definition durationToTimescale :: "duration \<Rightarrow> u32 \<Rightarrow> int" where
  "durationToTimescale d timescale = go_quot (wrap64 (d * uint timescale)) second"

definition ticksToDuration :: "int \<Rightarrow> u32 \<Rightarrow> duration" where
  "ticksToDuration ticks timescale =
    (if timescale = 0 then 0 else go_quot (wrap64 (ticks * second)) (uint timescale))"

subsection \<open>Box builders\<close>

definition perSampleSize :: "trackState \<Rightarrow> nat" where
  "perSampleSize ts = (if ts_hasVideo ts then 16 else 8)"

definition estimateMoofSize :: "trackState list \<Rightarrow> u32" where
  "estimateMoofSize active =
    foldl (\<lambda>size ts.
      let n = length (ts_samples ts);
          trunPayload = 4 + 4 + n * perSampleSize ts;
          trunSize = 8 + 4 + trunPayload
      in size + of_nat (8 + 16 + 20 + trunSize)) (of_nat (8 + 16)) active"

definition buildMfhd :: "u32 \<Rightarrow> bytes" where
  "buildMfhd seqNum = makeFullBox ''mfhd'' 0 0 (put32 seqNum)"

definition buildTfhd :: "u32 \<Rightarrow> bytes" where
  "buildTfhd trackID = makeFullBox ''tfhd'' 0 0x020000 (put32 trackID)"

definition buildTfdt :: "int \<Rightarrow> bytes" where
  "buildTfdt baseTime = makeFullBox ''tfdt'' 1 0 (put64 (word_of_int baseTime))"

definition trunSample :: "bool \<Rightarrow> sample \<Rightarrow> bytes" where
  "trunSample hasVideo s =
    put32 (sm_duration s) @ put32 (sm_size s) @
    (if hasVideo then put32 (sm_flags s) @ put32 (word_of_int (sm_ptsOffset s)) else [])"

definition buildTrun :: "trackState \<Rightarrow> int \<Rightarrow> bytes" where
  "buildTrun ts dataOffset =
    (let flags = (if ts_hasVideo ts then videoTrunFlags else audioTrunFlags)
     in makeFullBox ''trun'' 1 flags
          (put32 (of_nat (length (ts_samples ts))) @ put32 (word_of_int dataOffset)
           @ concat (map (trunSample (ts_hasVideo ts)) (ts_samples ts))))"

definition buildTraf :: "trackState \<Rightarrow> u32 \<Rightarrow> bytes" where
  "buildTraf ts dataOffset =
    makeBox ''traf'' (buildTfhd (ts_id ts) @ buildTfdt (ts_baseTime ts) @ buildTrun ts (sint dataOffset))"

definition buildMoof :: "trackState list \<Rightarrow> u32 \<Rightarrow> u32 list \<Rightarrow> bytes" where
  "buildMoof active seqNum dataOffsets =
    makeBox ''moof'' (buildMfhd seqNum @ concat (map (\<lambda>(ts, off). buildTraf ts off) (zip active dataOffsets)))"

definition buildMdat :: "trackState list \<Rightarrow> bytes" where
  "buildMdat active = makeBox ''mdat'' (concat (map (\<lambda>ts. concat (map sm_data (ts_samples ts))) active))"

definition emsgSchemeIDURI :: string where
  "emsgSchemeIDURI = ''urn:vtpl:analytics:1''"

definition buildEmsg :: "int \<Rightarrow> u32 \<Rightarrow> bytes \<Rightarrow> bytes" where
  "buildEmsg presentationTimeMS eid data =
    makeFullBox ''emsg'' 1 0
      (strbytes ''urn:vtpl:analytics:1'' @ [0] @ strbytes '''' @ [0] @ put32 1000
       @ put64 (word_of_int presentationTimeMS) @ put32 0xFFFFFFFF @ put32 eid @ data)"

definition collectEmsg :: "trackState list \<Rightarrow> u32 \<Rightarrow> bytes \<times> u32" where
  "collectEmsg active seqBase =
    foldl (\<lambda>acc ts. foldl (\<lambda>(out, eid) s.
        if length (sm_extra s) > 0
        then (out @ buildEmsg (sm_presentationTimeMS s) eid (sm_extra s), eid + 1)
        else (out, eid)) acc (ts_samples ts))
      ([], seqBase) active"

record FragmentIndex =
  fi_PTS :: duration
  fi_Duration :: duration
  fi_Offset :: int
  fi_Size :: int
  fi_StartsWithSAP :: bool

text \<open>
  The reference loop of \<^verbatim>\<open>BuildSidx\<close>: the size of an entry is the distance to the next entry, and the
  last entry's own size.
\<close>

fun sidxRefSize :: "FragmentIndex \<Rightarrow> FragmentIndex list \<Rightarrow> int" where
  "sidxRefSize e [] = fi_Size e"
| "sidxRefSize e (e' # rest) = wrap64 (fi_Offset e' - fi_Offset e)"

fun sidxRefs :: "u32 \<Rightarrow> FragmentIndex list \<Rightarrow> bytes" where
  "sidxRefs trackTimescale [] = []"
| "sidxRefs trackTimescale (e # rest) =
    put32 (word_of_int (sidxRefSize e rest) AND 0x7FFFFFFF)
    @ put32 (word_of_int (dtsToTimescale (fi_Duration e) trackTimescale))
    @ put32 (if fi_StartsWithSAP e then (0 OR 0x80000000) OR 0x10000000 else 0)
    @ sidxRefs trackTimescale rest"

definition BuildSidx :: "FragmentIndex list \<Rightarrow> u32 \<Rightarrow> u32 \<Rightarrow> int \<Rightarrow> bytes" where
  "BuildSidx entries referenceID trackTimescale anchorOffset =
    (case entries of
       [] \<Rightarrow> []
     | e0 # _ \<Rightarrow> makeFullBox ''sidx'' 1 0
         (put32 referenceID @ put32 trackTimescale
          @ put64 (word_of_int (dtsToTimescale (fi_PTS e0) trackTimescale))
          @ put64 (word_of_int (wrap64 (fi_Offset e0 - anchorOffset)))
          @ put16 0 @ put16 (of_nat (length entries))
          @ sidxRefs trackTimescale entries))"

text \<open>The data offsets that \<^verbatim>\<open>flushFragment\<close> computes: one per active track, relative to the moof.\<close>

fun dataOffsetsFrom :: "u32 \<Rightarrow> trackState list \<Rightarrow> u32 list" where
  "dataOffsetsFrom offset [] = []"
| "dataOffsetsFrom offset (ts # active) =
    offset # dataOffsetsFrom (foldl (\<lambda>o' s. o' + sm_size s) offset (ts_samples ts)) active"

definition dataOffsets :: "trackState list \<Rightarrow> u32 list" where
  "dataOffsets active = dataOffsetsFrom (estimateMoofSize active + 8) active"

subsection \<open>Lengths\<close>

lemma length_trunSample: "length (trunSample hv s) = (if hv then 16 else 8)"
  by (simp add: trunSample_def)

lemma length_trunSamples:
  "length (concat (map (trunSample hv) ss)) = length ss * (if hv then 16 else 8)"
  by (induction ss) (simp_all add: length_trunSample)

lemma length_buildTfhd [simp]: "length (buildTfhd i) = 16"
  by (simp add: buildTfhd_def length_makeFullBox)

lemma length_buildTfdt [simp]: "length (buildTfdt t) = 20"
  by (simp add: buildTfdt_def length_makeFullBox)

lemma length_buildMfhd [simp]: "length (buildMfhd n) = 16"
  by (simp add: buildMfhd_def length_makeFullBox)

definition trafSize :: "trackState \<Rightarrow> nat" where
  "trafSize ts = 64 + length (ts_samples ts) * perSampleSize ts"

definition moofSize :: "trackState list \<Rightarrow> nat" where
  "moofSize active = 24 + sum_list (map trafSize active)"

lemma length_buildTrun:
  assumes "trafSize ts < 2 ^ 32"
  shows "length (buildTrun ts off) = 20 + length (ts_samples ts) * perSampleSize ts"
  using assms
  by (simp add: buildTrun_def Let_def length_makeFullBox length_trunSamples trafSize_def perSampleSize_def)

lemma length_buildTraf:
  assumes "trafSize ts < 2 ^ 32"
  shows "length (buildTraf ts off) = trafSize ts"
  using assms length_buildTrun [OF assms] by (simp add: buildTraf_def length_makeBox trafSize_def)

lemma length_trafs:
  "length offs = length active \<Longrightarrow> sum_list (map trafSize active) < 2 ^ 32 \<Longrightarrow>
   length (concat (map (\<lambda>(ts, off). buildTraf ts off) (zip active offs))) = sum_list (map trafSize active)"
  by (induction offs active rule: list_induct2) (simp_all add: length_buildTraf)

lemma length_buildMoof:
  "length offs = length active \<Longrightarrow> moofSize active < 2 ^ 32 \<Longrightarrow>
   length (buildMoof active seqNum offs) = moofSize active"
  by (simp add: buildMoof_def length_makeBox length_trafs moofSize_def)

lemma foldl_add_of_nat:
  "foldl (\<lambda>size x. size + of_nat (f x)) (of_nat a) xs = (of_nat (a + sum_list (map f xs)) :: u32)"
proof (induction xs arbitrary: a)
  case (Cons x xs)
  show ?case
    using Cons [of "a + f x"] by (simp add: add.assoc)
qed simp

lemma estimateMoofSize_moofSize: "estimateMoofSize active = of_nat (moofSize active)"
proof -
  have "(\<lambda>size ts. size + of_nat (8 + 16 + 20 + (8 + 4 + (4 + 4 + length (ts_samples ts) * perSampleSize ts)))) =
        (\<lambda>size ts. size + (of_nat (trafSize ts) :: u32))"
    by (simp add: fun_eq_iff trafSize_def)
  then show ?thesis
    using foldl_add_of_nat [of trafSize 24 active]
    by (simp add: estimateMoofSize_def Let_def moofSize_def)
qed

lemma length_dataOffsets [simp]: "length (dataOffsets active) = length active"
proof -
  have "length (dataOffsetsFrom off active) = length active" for off
    by (induction active arbitrary: off) simp_all
  then show ?thesis by (simp add: dataOffsets_def)
qed

subsection \<open>Properties\<close>

text \<open>
  C30.  The size that \<^verbatim>\<open>estimateMoofSize\<close> computes before the boxes exist, and from which the data offsets
  are derived, is the length of the moof box that \<^verbatim>\<open>buildMoof\<close> then writes, for every set of active tracks.
\<close>

theorem moof_size_exact:
  assumes "moofSize active < 2 ^ 32"
  shows "length (buildMoof active seqNum (dataOffsets active)) = unat (estimateMoofSize active)"
  using assms by (simp add: length_buildMoof estimateMoofSize_moofSize unat_of_nat_u32)

definition ex_sample :: "byte \<Rightarrow> sample" where
  "ex_sample b = \<lparr>sm_duration = 3000, sm_size = 6, sm_flags = 0, sm_ptsOffset = 0, sm_data = [0, 0, 0, 2, b, 1],
     sm_extra = [], sm_presentationTimeMS = 0, sm_dts = 0\<rparr>"

definition ex_track :: trackState where
  "ex_track = \<lparr>ts_streamIdx = 0, ts_id = 1, ts_codec = OtherCodec \<lparr>oc_Type = H264, oc_Tag = None, oc_Dims = None\<rparr>,
     ts_timescale = 90000, ts_samples = [ex_sample 101, ex_sample 65], ts_baseTime = 9000, ts_nextTime = 15000,
     ts_hasVideo = True\<rparr>"

theorem moof_size_exact_witness:
  "length (buildMoof [ex_track] 7 (dataOffsets [ex_track])) = unat (estimateMoofSize [ex_track])"
  by (rule moof_size_exact) (simp add: moofSize_def trafSize_def ex_track_def perSampleSize_def)

end
