(* ===== verification/Fmp4_Parse.thy ===== *)
theory Fmp4_Parse
  imports Boxes Av_Types Fmp4_Fragment
begin

text \<open>
  The fragment parsers of \<^verbatim>\<open>av/format/fmp4/demuxer.go\<close>: \<^verbatim>\<open>tfhd\<close>, \<^verbatim>\<open>tfdt\<close>, \<^verbatim>\<open>trun\<close>, \<^verbatim>\<open>moof\<close>, \<^verbatim>\<open>sidx\<close>
  and \<^verbatim>\<open>emsg\<close>.  \<^verbatim>\<open>ErrMalformed\<close> is the only error these functions raise, so they return options.  The
  track table is passed as a map: \<^verbatim>\<open>parseMoof\<close> writes the defaults of a \<^verbatim>\<open>tfhd\<close> through the track
  pointers, so it returns the updated map.
\<close>

record trackDef =
  td_id :: u32
  td_streamIdx :: u16
  td_timescale :: u32
  td_codec :: codec_data
  td_hasVideo :: bool
  td_defDuration :: u32
  td_defSize :: u32
  td_defFlags :: u32

type_synonym tracksByID = "u32 \<rightharpoonup> trackDef"

record rawSample =
  rs_trackID :: u32
  rs_dts :: int
  rs_cts :: int
  rs_duration :: u32
  rs_flags :: u32
  rs_mdatOff :: int
  rs_size :: nat

record emsgEntry =
  em_schemeIDURI :: string
  em_presentTimeMS :: int
  em_id :: u32
  em_payload :: bytes

record SidxEntry =
  sx_PTS :: duration
  sx_Duration :: duration
  sx_Offset :: int
  sx_Size :: int
  sx_StartsWithSAP :: bool

record tfhdResult =
  th_trackID :: u32
  th_flags :: u32
  th_baseDataOffset :: int
  th_defDuration :: u32
  th_defSize :: u32
  th_defFlags :: u32

text \<open>
  An optional 32-bit field of a full box: present when its flag is set, and then the payload must be
  long enough; absent, the default stands and the offset does not move.
\<close>

definition optField :: "u32 \<Rightarrow> u32 \<Rightarrow> bytes \<Rightarrow> nat \<Rightarrow> u32 \<Rightarrow> (u32 \<times> nat) option" where
  "optField flags flg payload off dflt =
    (if flags AND flg \<noteq> 0
     then if length payload < off + 4 then None
          else Some (be32 (slice payload off (off + 4)), off + 4)
     else Some (dflt, off))"

definition parseTfhd :: "bytes \<Rightarrow> int \<Rightarrow> tfhdResult option" where
  "parseTfhd payload moofStart =
    (if length payload < 8 then None
     else let flags = fullBoxFlags payload;
              trackID = be32 (slice payload 4 8) in
       case (if flags AND 0x000001 \<noteq> 0
             then if length payload < 8 + 8 then None
                  else Some (sint (be64 (slice payload 8 (8 + 8))), 8 + 8)
             else Some (moofStart, 8)) of
         None \<Rightarrow> None
       | Some (baseDataOffset, off1) \<Rightarrow>
           let off2 = (if flags AND 0x000002 \<noteq> 0 then off1 + 4 else off1) in
           case optField flags 0x000008 payload off2 0 of
             None \<Rightarrow> None
           | Some (defDuration, off3) \<Rightarrow>
               case optField flags 0x000010 payload off3 0 of
                 None \<Rightarrow> None
               | Some (defSize, off4) \<Rightarrow>
                   case optField flags 0x000020 payload off4 0 of
                     None \<Rightarrow> None
                   | Some (defFlags, off5) \<Rightarrow>
                       Some \<lparr>th_trackID = trackID, th_flags = flags,
                         th_baseDataOffset = baseDataOffset, th_defDuration = defDuration,
                         th_defSize = defSize, th_defFlags = defFlags\<rparr>)"

definition parseTfdt :: "bytes \<Rightarrow> int option" where
  "parseTfdt payload =
    (if length payload < 4 then None
     else if payload ! 0 = 0
          then if length payload < 8 then None else Some (uint (be32 (slice payload 4 8)))
          else if length payload < 12 then None else Some (sint (be64 (slice payload 4 12))))"

text \<open>The sample loop of \<^verbatim>\<open>parseTrun\<close>: \<open>n\<close> samples are left and \<open>i\<close> have been read.\<close>

fun parseTrunLoop ::
  "bytes \<Rightarrow> trackDef \<Rightarrow> u32 \<Rightarrow> u32 \<Rightarrow> nat \<Rightarrow> nat \<Rightarrow> nat \<Rightarrow> int \<Rightarrow> int \<Rightarrow> rawSample list option" where
  "parseTrunLoop payload track trunFlags firstSampleFlags 0 i off curDTS mdatOff = Some []"
| "parseTrunLoop payload track trunFlags firstSampleFlags (Suc n) i off curDTS mdatOff =
    (case optField trunFlags 0x000100 payload off (td_defDuration track) of
       None \<Rightarrow> None
     | Some (dur, off1) \<Rightarrow>
    (case optField trunFlags 0x000200 payload off1 (td_defSize track) of
       None \<Rightarrow> None
     | Some (sampleSize, off2) \<Rightarrow>
    (case optField trunFlags 0x000400 payload off2
            (if i = 0 then firstSampleFlags else td_defFlags track) of
       None \<Rightarrow> None
     | Some (sflags, off3) \<Rightarrow>
    (case optField trunFlags 0x000800 payload off3 0 of
       None \<Rightarrow> None
     | Some (cts, off4) \<Rightarrow>
    (case parseTrunLoop payload track trunFlags firstSampleFlags n (Suc i) off4
            (wrap64 (curDTS + uint dur)) (wrap64 (mdatOff + uint sampleSize)) of
       None \<Rightarrow> None
     | Some samples \<Rightarrow>
         Some (\<lparr>rs_trackID = td_id track, rs_dts = curDTS, rs_cts = sint cts, rs_duration = dur,
                 rs_flags = sflags, rs_mdatOff = mdatOff, rs_size = unat sampleSize\<rparr> # samples))))))"

definition parseTrun :: "bytes \<Rightarrow> trackDef \<Rightarrow> int \<Rightarrow> int \<Rightarrow> int \<Rightarrow> rawSample list option" where
  "parseTrun payload track baseDTS baseDataOffset mdatPayloadBase =
    (if length payload < 8 then None
     else let trunFlags = fullBoxFlags payload;
              sampleCount = be32 (slice payload 4 8) in
       case optField trunFlags 0x000001 payload 8 0 of
         None \<Rightarrow> None
       | Some (dataOffset, off1) \<Rightarrow>
       (case optField trunFlags 0x000004 payload off1 (td_defFlags track) of
          None \<Rightarrow> None
        | Some (firstSampleFlags, off2) \<Rightarrow>
            let mdatOff = wrap64 (wrap64 (baseDataOffset + sint dataOffset) - mdatPayloadBase) in
            parseTrunLoop payload track trunFlags firstSampleFlags (unat sampleCount) 0 off2 baseDTS mdatOff))"

text \<open>The loop over the \<^verbatim>\<open>trun\<close> boxes of one \<^verbatim>\<open>traf\<close>; \<open>baseDTS\<close> advances by the durations read.\<close>

definition advanceDTS :: "int \<Rightarrow> rawSample list \<Rightarrow> int" where
  "advanceDTS baseDTS samps = foldl (\<lambda>b s. wrap64 (b + uint (rs_duration s))) baseDTS samps"

fun parseTruns :: "bytes list \<Rightarrow> trackDef \<Rightarrow> int \<Rightarrow> int \<Rightarrow> int \<Rightarrow> rawSample list option" where
  "parseTruns [] track baseDTS baseDataOffset mdatPayloadBase = Some []"
| "parseTruns (p # ps) track baseDTS baseDataOffset mdatPayloadBase =
    (case parseTrun p track baseDTS baseDataOffset mdatPayloadBase of
       None \<Rightarrow> None
     | Some samps \<Rightarrow>
         (case parseTruns ps track (advanceDTS baseDTS samps) baseDataOffset mdatPayloadBase of
            None \<Rightarrow> None
          | Some rest \<Rightarrow> Some (samps @ rest)))"

definition overrideDefaults :: "trackDef \<Rightarrow> tfhdResult \<Rightarrow> trackDef" where
  "overrideDefaults track res =
    (let t1 = (if th_flags res AND 0x000008 \<noteq> 0 then track\<lparr>td_defDuration := th_defDuration res\<rparr> else track);
         t2 = (if th_flags res AND 0x000010 \<noteq> 0 then t1\<lparr>td_defSize := th_defSize res\<rparr> else t1)
     in if th_flags res AND 0x000020 \<noteq> 0 then t2\<lparr>td_defFlags := th_defFlags res\<rparr> else t2)"

text \<open>
  The loop over the \<^verbatim>\<open>traf\<close> boxes.  A missing or short \<^verbatim>\<open>tfhd\<close> or an unknown track skips the traf; a
  malformed \<^verbatim>\<open>tfdt\<close> or \<^verbatim>\<open>trun\<close> fails the fragment, with the defaults already written kept.
\<close>

fun parseTrafs :: "tracksByID \<Rightarrow> bytes list \<Rightarrow> int \<Rightarrow> int \<Rightarrow> rawSample list option \<times> tracksByID" where
  "parseTrafs tracks [] moofStart mdatPayloadBase = (Some [], tracks)"
| "parseTrafs tracks (trafPayload # rest) moofStart mdatPayloadBase =
    (case findBox trafPayload ''tfhd'' of
       None \<Rightarrow> parseTrafs tracks rest moofStart mdatPayloadBase
     | Some tfhdPayload \<Rightarrow>
    (case parseTfhd tfhdPayload moofStart of
       None \<Rightarrow> parseTrafs tracks rest moofStart mdatPayloadBase
     | Some tfhdRes \<Rightarrow>
    (case tracks (th_trackID tfhdRes) of
       None \<Rightarrow> parseTrafs tracks rest moofStart mdatPayloadBase
     | Some track0 \<Rightarrow>
         let track = overrideDefaults track0 tfhdRes;
             tracks' = tracks(th_trackID tfhdRes \<mapsto> track) in
    (case (case findBox trafPayload ''tfdt'' of None \<Rightarrow> Some 0 | Some p \<Rightarrow> parseTfdt p) of
       None \<Rightarrow> (None, tracks')
     | Some baseDTS \<Rightarrow>
    (case parseTruns (findBoxes trafPayload ''trun'') track baseDTS (th_baseDataOffset tfhdRes) mdatPayloadBase of
       None \<Rightarrow> (None, tracks')
     | Some samps \<Rightarrow>
    (case parseTrafs tracks' rest moofStart mdatPayloadBase of
       (None, tracks'') \<Rightarrow> (None, tracks'')
     | (Some others, tracks'') \<Rightarrow> (Some (samps @ others), tracks'')))))))"

definition parseMoof :: "tracksByID \<Rightarrow> bytes \<Rightarrow> int \<Rightarrow> int \<Rightarrow> rawSample list option \<times> tracksByID" where
  "parseMoof tracks payload moofStart moofSz =
    (let mdatPayloadBase = wrap64 (wrap64 (moofStart + moofSz) + 8)
     in parseTrafs tracks (findBoxes payload ''traf'') moofStart mdatPayloadBase)"

text \<open>
  The loop of \<^verbatim>\<open>parseMoofMdat\<close> that turns samples into packets: samples of unknown tracks and samples
  outside the mdat payload are dropped.
\<close>

definition sampleIsKey :: "u32 \<Rightarrow> bool" where
  "sampleIsKey flags \<longleftrightarrow> drop_bit 16 flags AND 1 = 0"

definition samplePacket :: "tracksByID \<Rightarrow> bytes \<Rightarrow> rawSample \<Rightarrow> packet option" where
  "samplePacket tracks mdatPayload s =
    (case tracks (rs_trackID s) of
       None \<Rightarrow> None
     | Some track \<Rightarrow>
         if rs_mdatOff s < 0 \<or> wrap64 (rs_mdatOff s + int (rs_size s)) > int (length mdatPayload) then None
         else let off = nat (rs_mdatOff s) in
           Some (zero_packet\<lparr>KeyFrame := sampleIsKey (rs_flags s),
             Idx := td_streamIdx track,
             DTS := ticksToDuration (rs_dts s) (td_timescale track),
             PTSOffset := ticksToDuration (rs_cts s) (td_timescale track),
             Duration := ticksToDuration (uint (rs_duration s)) (td_timescale track),
             CodecType := codecType (td_codec track),
             Data := slice mdatPayload off (off + rs_size s)\<rparr>))"

definition fragmentPackets :: "tracksByID \<Rightarrow> bytes \<Rightarrow> rawSample list \<Rightarrow> packet list" where
  "fragmentPackets tracks mdatPayload samples = List.map_filter (samplePacket tracks mdatPayload) samples"

subsection \<open>Segment index\<close>

fun parseSidxRefs :: "bytes \<Rightarrow> u32 \<Rightarrow> nat \<Rightarrow> nat \<Rightarrow> u64 \<Rightarrow> int \<Rightarrow> SidxEntry list" where
  "parseSidxRefs payload timescale 0 pos curPTS curOffset = []"
| "parseSidxRefs payload timescale (Suc n) pos curPTS curOffset =
    (let word0 = be32 (slice payload pos (pos + 4));
         subDur = be32 (slice payload (pos + 4) (pos + 8));
         word2 = be32 (slice payload (pos + 8) (pos + 12));
         refSize = uint (word0 AND 0x7FFFFFFF)
     in \<lparr>sx_PTS = ticksToDuration (sint curPTS) timescale,
          sx_Duration = ticksToDuration (uint subDur) timescale,
          sx_Offset = curOffset, sx_Size = refSize,
          sx_StartsWithSAP = (word2 AND 0x80000000 \<noteq> 0)\<rparr>
        # parseSidxRefs payload timescale n (pos + 12) (curPTS + ucast subDur) (wrap64 (curOffset + refSize)))"

text \<open>\<^verbatim>\<open>ParseSidx\<close> returns its entries and \<^verbatim>\<open>len(entries) > 0\<close>; \<open>None\<close> stands for a false second result.\<close>

definition ParseSidx :: "bytes \<Rightarrow> int \<Rightarrow> SidxEntry list option" where
  "ParseSidx payload anchorOffset =
    (if length payload < 4 then None
     else if length payload < 4 + 8 then None
     else let version = payload ! 0; timescale = be32 (slice payload 8 12) in
       if timescale = 0 then None
       else case (if version = 0
                  then if length payload < 12 + 8 then None
                       else Some (ucast (be32 (slice payload 12 16)) :: u64,
                              wrap64 (anchorOffset + uint (be32 (slice payload 16 20))), 20)
                  else if length payload < 12 + 16 then None
                       else Some (be64 (slice payload 12 20),
                              wrap64 (anchorOffset + sint (be64 (slice payload 20 28))), 28)) of
           None \<Rightarrow> None
         | Some (earliestPTS, anchor, pos) \<Rightarrow>
             if length payload < pos + 4 then None
             else let refCount = unat (be16 (slice payload (pos + 2) (pos + 4))) in
               if length payload < pos + 4 + refCount * 12 then None
               else let entries = parseSidxRefs payload timescale refCount (pos + 4) earliestPTS anchor in
                 if length entries > 0 then Some entries else None)"

subsection \<open>Event messages\<close>

text \<open>\<^verbatim>\<open>bytes.IndexByte\<close>.\<close>

fun indexByte :: "bytes \<Rightarrow> byte \<Rightarrow> nat option" where
  "indexByte [] c = None"
| "indexByte (x # xs) c = (if x = c then Some 0 else map_option Suc (indexByte xs c))"

definition parseEmsg :: "bytes \<Rightarrow> emsgEntry option" where
  "parseEmsg payload =
    (if length payload < 5 \<or> payload ! 0 \<noteq> 1 then None
     else case indexByte (drop 4 payload) 0 of
       None \<Rightarrow> None
     | Some end1 \<Rightarrow>
         let scheme = gostring (slice payload 4 (4 + end1)); pos1 = 4 + end1 + 1 in
         (case indexByte (drop pos1 payload) 0 of
            None \<Rightarrow> None
          | Some end2 \<Rightarrow>
              let pos2 = pos1 + end2 + 1 in
              if length payload < pos2 + 20 then None
              else let timescale = be32 (drop pos2 payload);
                       presentTime = be64 (drop (pos2 + 4) payload);
                       eid = be32 (drop (pos2 + 16) payload);
                       ptMS = (if timescale > 0
                               then go_quot (wrap64 (sint presentTime * 1000)) (uint timescale) else 0)
                   in Some \<lparr>em_schemeIDURI = scheme, em_presentTimeMS = ptMS, em_id = eid,
                        em_payload = drop (pos2 + 20) payload\<rparr>))"

subsection \<open>Base time of a fragment\<close>

text \<open>One pass of \<^verbatim>\<open>moofBaseTime\<close> over the traf boxes; the first pass only accepts video tracks.\<close>

fun moofBaseTimePass :: "bool \<Rightarrow> tracksByID \<Rightarrow> bytes list \<Rightarrow> duration option" where
  "moofBaseTimePass videoOnly tracks [] = None"
| "moofBaseTimePass videoOnly tracks (trafPayload # rest) =
    (case findBox trafPayload ''tfhd'' of
       None \<Rightarrow> moofBaseTimePass videoOnly tracks rest
     | Some tfhdPayload \<Rightarrow>
         if length tfhdPayload < 8 then moofBaseTimePass videoOnly tracks rest
         else (case tracks (be32 (slice tfhdPayload 4 8)) of
            None \<Rightarrow> moofBaseTimePass videoOnly tracks rest
          | Some track \<Rightarrow>
              if videoOnly \<and> \<not> td_hasVideo track then moofBaseTimePass videoOnly tracks rest
              else (case findBox trafPayload ''tfdt'' of
                 None \<Rightarrow> moofBaseTimePass videoOnly tracks rest
               | Some tfdtPayload \<Rightarrow>
                   (case parseTfdt tfdtPayload of
                      None \<Rightarrow> moofBaseTimePass videoOnly tracks rest
                    | Some baseDTS \<Rightarrow> Some (ticksToDuration baseDTS (td_timescale track))))))"

definition moofBaseTime :: "bytes \<Rightarrow> tracksByID \<Rightarrow> duration" where
  "moofBaseTime moofPayload tracks =
    (case moofBaseTimePass True tracks (findBoxes moofPayload ''traf'') of
       Some d \<Rightarrow> d
     | None \<Rightarrow>
         (case moofBaseTimePass False tracks (findBoxes moofPayload ''traf'') of
            Some d \<Rightarrow> d
          | None \<Rightarrow> 0))"

end
