(* ===== verification/Golomb.thy ===== *)
theory Golomb
  imports Prelude "HOL-Library.Monad_Syntax"
begin

text \<open>
  \<^verbatim>\<open>GolombBitReader\<close> of \<^verbatim>\<open>av/utils/bits/golomb_reader.go\<close> over a \<^verbatim>\<open>bytes.Reader\<close>: single bits, fixed-width
  fields and Exp-Golomb codes.  The only error is the end of the data, so every operation is a
  function from the reader state to an optional pair of a result and the next state.  The abstraction
  \<open>bitsOf\<close> reads the state as the list of bits that are left; all operations are characterised on it.
\<close>

record golomb =
  gr_R :: bytes
  gr_buf :: byte
  gr_left :: nat

definition newGolomb :: "bytes \<Rightarrow> golomb" where
  "newGolomb data = \<lparr>gr_R = data, gr_buf = 0, gr_left = 0\<rparr>"

definition takeBit :: "golomb \<Rightarrow> u64 \<times> golomb" where
  "takeBit s =
    (let left = gr_left s - 1 in (ucast (drop_bit left (gr_buf s)) AND 1, s\<lparr>gr_left := left\<rparr>))"

definition ReadBit :: "golomb \<Rightarrow> (u64 \<times> golomb) option" where
  "ReadBit s =
    (if gr_left s = 0
     then case gr_R s of
            [] \<Rightarrow> None
          | b # rest \<Rightarrow> Some (takeBit (s\<lparr>gr_R := rest, gr_buf := b, gr_left := 8\<rparr>))
     else Some (takeBit s))"

text \<open>The loop of \<^verbatim>\<open>ReadBits\<close> with \<open>k = n - i\<close> bits left to read.\<close>

fun readBitsLoop :: "nat \<Rightarrow> u64 \<Rightarrow> golomb \<Rightarrow> (u64 \<times> golomb) option" where
  "readBitsLoop 0 res s = Some (res, s)"
| "readBitsLoop (Suc k) res s = do {
     (b, s) \<leftarrow> ReadBit s;
     readBitsLoop k (res OR push_bit k b) s
   }"

definition ReadBits :: "nat \<Rightarrow> golomb \<Rightarrow> (u64 \<times> golomb) option" where
  "ReadBits n s = readBitsLoop n 0 s"

fun readBits32Loop :: "nat \<Rightarrow> u32 \<Rightarrow> golomb \<Rightarrow> (u32 \<times> golomb) option" where
  "readBits32Loop 0 r s = Some (r, s)"
| "readBits32Loop (Suc k) r s = do {
     (t, s) \<leftarrow> ReadBit s;
     readBits32Loop k (push_bit 1 r OR ucast t) s
   }"

definition ReadBits32 :: "nat \<Rightarrow> golomb \<Rightarrow> (u32 \<times> golomb) option" where
  "ReadBits32 n s = readBits32Loop n 0 s"

fun readBits64Loop :: "nat \<Rightarrow> u64 \<Rightarrow> golomb \<Rightarrow> (u64 \<times> golomb) option" where
  "readBits64Loop 0 r s = Some (r, s)"
| "readBits64Loop (Suc k) r s = do {
     (t, s) \<leftarrow> ReadBit s;
     readBits64Loop k (push_bit 1 r OR t) s
   }"

definition ReadBits64 :: "nat \<Rightarrow> golomb \<Rightarrow> (u64 \<times> golomb) option" where
  "ReadBits64 n s = readBits64Loop n 0 s"

text \<open>The prefix loop of \<^verbatim>\<open>ReadExponentialGolombCode\<close>: it counts zero bits and stops at a one or at 32.\<close>

function golombPrefix :: "nat \<Rightarrow> golomb \<Rightarrow> (nat \<times> golomb) option" where
  "golombPrefix i s =
    (case ReadBit s of
       None \<Rightarrow> None
     | Some (b, s') \<Rightarrow> if b \<noteq> 0 \<or> i \<ge> 32 then Some (i, s') else golombPrefix (i + 1) s')"
  by pat_completeness auto
termination
  by (relation "measure (\<lambda>(i, s). 32 - i)") auto

declare golombPrefix.simps [simp del]

definition ReadExponentialGolombCode :: "golomb \<Rightarrow> (u64 \<times> golomb) option" where
  "ReadExponentialGolombCode s = do {
     (i, s) \<leftarrow> golombPrefix 0 s;
     (res, s) \<leftarrow> ReadBits i s;
     Some (res + (push_bit i 1 - 1), s)
   }"

definition ReadSE :: "golomb \<Rightarrow> (u64 \<times> golomb) option" where
  "ReadSE s = do {
     (res, s) \<leftarrow> ReadExponentialGolombCode s;
     Some (if res AND 1 \<noteq> 0 then (res + 1) div 2 else word_of_int (go_quot (wrap64 (- sint res)) 2), s)
   }"

subsection \<open>The bits that are left\<close>

definition byteBits :: "byte \<Rightarrow> bool list" where
  "byteBits b = map (\<lambda>i. bit b (7 - i)) [0..<8]"

definition bitsOf :: "golomb \<Rightarrow> bool list" where
  "bitsOf s = map (\<lambda>i. bit (gr_buf s) (gr_left s - 1 - i)) [0..<gr_left s] @ concat (map byteBits (gr_R s))"

lemma takeBit_bits:
  assumes "gr_left s = Suc n"
  shows "bitsOf s = bit (gr_buf s) n # bitsOf (snd (takeBit s))"
    and "fst (takeBit s) = of_bool (bit (gr_buf s) n)"
proof -
  show "bitsOf s = bit (gr_buf s) n # bitsOf (snd (takeBit s))"
    by (simp add: bitsOf_def takeBit_def Let_def assms upt_conv_Cons map_Suc_upt [symmetric] comp_def del: upt_Suc)
  have "odd (ucast (drop_bit n (gr_buf s)) :: u64) \<longleftrightarrow> bit (gr_buf s) n"
    by (simp flip: bit_0 add: bit_simps)
  then show "fst (takeBit s) = of_bool (bit (gr_buf s) n)"
    by (simp add: takeBit_def Let_def assms and_one_eq mod_2_eq_odd)
qed

lemma ReadBit_None: "bitsOf s = [] \<Longrightarrow> ReadBit s = None"
  by (auto simp: bitsOf_def ReadBit_def byteBits_def split: list.splits)

lemma ReadBit_Some:
  assumes b: "bitsOf s = b # bs"
  shows "\<exists>s'. ReadBit s = Some (of_bool b, s') \<and> bitsOf s' = bs"
proof (cases "gr_left s")
  case (Suc n)
  then have "ReadBit s = Some (takeBit s)"
    by (simp add: ReadBit_def)
  then show ?thesis
    using b takeBit_bits [OF Suc] by (cases "takeBit s") simp
next
  case 0
  then obtain c rest where R: "gr_R s = c # rest"
    using b by (cases "gr_R s") (simp_all add: bitsOf_def)
  let ?s = "s\<lparr>gr_R := rest, gr_buf := c, gr_left := 8\<rparr>"
  have e: "bitsOf ?s = bitsOf s"
    using 0 R by (simp add: bitsOf_def byteBits_def)
  have l: "gr_left ?s = Suc 7"
    by simp
  have "ReadBit s = Some (takeBit ?s)"
    using 0 R by (simp add: ReadBit_def)
  then show ?thesis
    using b e takeBit_bits [OF l] by (cases "takeBit ?s") simp
qed

subsection \<open>Fixed-width fields\<close>

fun bitsWord :: "bool list \<Rightarrow> 'a::len word" where
  "bitsWord [] = 0"
| "bitsWord (b # bs) = push_bit (length bs) (of_bool b) OR bitsWord bs"

lemma readBitsLoop_bits:
  "bitsOf s = bs @ rest \<Longrightarrow> \<exists>s'. readBitsLoop (length bs) res s = Some (res OR bitsWord bs, s') \<and> bitsOf s' = rest"
proof (induction bs arbitrary: s res)
  case (Cons b bs)
  obtain s1 where s1: "ReadBit s = Some (of_bool b, s1)" "bitsOf s1 = bs @ rest"
    using ReadBit_Some [of s b "bs @ rest"] Cons.prems by auto
  show ?case
    using Cons.IH [OF s1(2), of "res OR push_bit (length bs) (of_bool b)"] s1(1) by (simp add: or.assoc)
qed simp

lemma ReadBits_bits:
  "bitsOf s = bs @ rest \<Longrightarrow> \<exists>s'. ReadBits (length bs) s = Some (bitsWord bs, s') \<and> bitsOf s' = rest"
  using readBitsLoop_bits [of s bs rest 0] by (simp add: ReadBits_def)

lemma readBitsLoop_short: "length (bitsOf s) < n \<Longrightarrow> readBitsLoop n res s = None"
proof (induction n arbitrary: s res)
  case (Suc n)
  show ?case
  proof (cases "bitsOf s")
    case Nil
    then show ?thesis by (simp add: ReadBit_None)
  next
    case (Cons b bs)
    then obtain s1 where "ReadBit s = Some (of_bool b, s1)" "bitsOf s1 = bs"
      using ReadBit_Some by blast
    then show ?thesis
      using Suc Cons by simp
  qed
qed simp

subsection \<open>Exp-Golomb codes\<close>

text \<open>The canonical code of \<open>v\<close>: as many zeros as \<open>v + 1\<close> has bits after the leading one, then \<open>v + 1\<close>.\<close>

definition natBits :: "nat \<Rightarrow> nat \<Rightarrow> bool list" where
  "natBits k n = map (\<lambda>i. bit n (k - 1 - i)) [0..<k]"

fun bitLength :: "nat \<Rightarrow> nat" where
  "bitLength n = (if n = 0 then 0 else Suc (bitLength (n div 2)))"

declare bitLength.simps [simp del]

definition ueBits :: "nat \<Rightarrow> bool list" where
  "ueBits v = replicate (bitLength (v + 1) - 1) False @ natBits (bitLength (v + 1)) (v + 1)"

lemma length_natBits [simp]: "length (natBits k n) = k"
  by (simp add: natBits_def)

lemma natBits_Suc: "natBits (Suc k) n = bit n k # natBits k n"
  by (simp add: natBits_def upt_conv_Cons map_Suc_upt [symmetric] comp_def del: upt_Suc)

lemma bitsWord_natBits: "bitsWord (natBits k n) = (take_bit k (of_nat n) :: 'a::len word)"
proof (induction k)
  case (Suc k)
  have "push_bit k (of_bool (bit n k)) OR take_bit k (of_nat n) = (take_bit (Suc k) (of_nat n) :: 'a word)"
    by (rule bit_word_eqI) (auto simp: bit_simps less_Suc_eq bit_1_iff)
  then show ?case
    using Suc by (simp add: natBits_Suc)
qed (simp add: natBits_def)

lemma bitLength_bounds: "0 < n \<Longrightarrow> 2 ^ (bitLength n - 1) \<le> n \<and> n < 2 ^ bitLength n \<and> 0 < bitLength n"
proof (induction n rule: bitLength.induct)
  case (1 n)
  show ?case
  proof (cases "n div 2 = 0")
    case True
    then have "n = 1"
      using 1 by auto
    then show ?thesis
      by (simp add: bitLength.simps)
  next
    case False
    then have IH: "2 ^ (bitLength (n div 2) - 1) \<le> n div 2" "n div 2 < 2 ^ bitLength (n div 2)" "0 < bitLength (n div 2)"
      using 1 by auto
    have e: "bitLength n = Suc (bitLength (n div 2))"
      using 1 by (simp add: bitLength.simps)
    have "2 * 2 ^ (bitLength (n div 2) - 1) = (2 :: nat) ^ bitLength (n div 2)"
      using IH(3) by (simp flip: power_Suc)
    moreover have "2 * (n div 2) \<le> n" "n < 2 * (n div 2) + 2"
      by simp_all
    ultimately have "2 ^ bitLength (n div 2) \<le> n" "n < 2 * 2 ^ bitLength (n div 2)"
      using IH by linarith+
    then show ?thesis
      unfolding e by simp
  qed
qed

lemma golombPrefix_zeros:
  "bitsOf s = replicate k False @ True # rest \<Longrightarrow> i + k \<le> 32 \<Longrightarrow>
   \<exists>s'. golombPrefix i s = Some (i + k, s') \<and> bitsOf s' = rest"
proof (induction k arbitrary: i s)
  case 0
  then obtain s' where "ReadBit s = Some (1, s')" "bitsOf s' = rest"
    using ReadBit_Some [of s True rest] by auto
  then show ?case
    by (subst golombPrefix.simps) simp
next
  case (Suc k)
  then obtain s1 where s1: "ReadBit s = Some (0, s1)" "bitsOf s1 = replicate k False @ True # rest"
    using ReadBit_Some [of s False "replicate k False @ True # rest"] by auto
  show ?case
    using Suc.IH [OF s1(2), of "Suc i"] Suc.prems(2) s1(1) by (subst golombPrefix.simps) simp
qed

lemma bit_top: "2 ^ k \<le> n \<Longrightarrow> n < 2 ^ Suc k \<Longrightarrow> bit n k" for n :: nat
  using div_nat_eqI [of "2 ^ k" 1 n] by (simp add: bit_iff_odd)

lemma ueBits_shape:
  assumes "bitLength (v + 1) = Suc k"
  shows "ueBits v = replicate k False @ True # natBits k (v + 1)" and "2 ^ k \<le> v + 1" and "v + 1 < 2 ^ Suc k"
proof -
  show "2 ^ k \<le> v + 1" "v + 1 < 2 ^ Suc k"
    using bitLength_bounds [of "v + 1"] assms by simp_all
  then have "bit (v + 1) k"
    by (rule bit_top)
  then show "ueBits v = replicate k False @ True # natBits k (v + 1)"
    by (simp only: ueBits_def assms natBits_Suc) simp
qed

lemma ReadExponentialGolombCode_ueBits:
  assumes v: "v + 1 < 2 ^ 33" and s: "bitsOf s = ueBits v @ rest"
  shows "\<exists>s'. ReadExponentialGolombCode s = Some (of_nat v, s') \<and> bitsOf s' = rest"
proof -
  obtain k where k: "bitLength (v + 1) = Suc k"
    using bitLength_bounds [of "v + 1"] by (cases "bitLength (v + 1)") auto
  note u = ueBits_shape [OF k]
  have "(2 :: nat) ^ k < 2 ^ 33"
    using u(2) v by linarith
  then have k32: "k \<le> 32"
    using power_increasing [of 33 k "2 :: nat"] by linarith
  obtain s1 where s1: "golombPrefix 0 s = Some (k, s1)" "bitsOf s1 = natBits k (v + 1) @ rest"
    using golombPrefix_zeros [of s k "natBits k (v + 1) @ rest" 0] s k32 by (auto simp: u(1))
  obtain s2 where s2: "ReadBits k s1 = Some (bitsWord (natBits k (v + 1)), s2)" "bitsOf s2 = rest"
    using ReadBits_bits [OF s1(2)] by auto
  have "take_bit k (v + 1) = v + 1 - 2 ^ k"
    using u(2,3) by (simp add: take_bit_eq_mod) (metis add.commute le_add_diff_inverse2 less_diff_conv2 mod_add_self2 mod_less mult_2)
  then have "take_bit k (of_nat (v + 1)) = (of_nat (v + 1 - 2 ^ k) :: u64)"
    by (metis take_bit_of_nat)
  then have "bitsWord (natBits k (v + 1)) + (push_bit k 1 - 1) = (of_nat v :: u64)"
    using u(2) by (simp add: bitsWord_natBits push_bit_eq_mult of_nat_diff)
  then show ?thesis
    using s1(1) s2 by (simp add: ReadExponentialGolombCode_def)
qed

text \<open>The signed value that a code number stands for (clause 9.1.1 of the H.264 standard).\<close>

definition seValue :: "nat \<Rightarrow> int" where
  "seValue k = (if odd k then int ((k + 1) div 2) else - int (k div 2))"

lemma ReadSE_ueBits:
  assumes v: "v + 1 < 2 ^ 33" and s: "bitsOf s = ueBits v @ rest"
  shows "\<exists>w s'. ReadSE s = Some (w, s') \<and> sint w = seValue v \<and> bitsOf s' = rest"
proof -
  obtain s' where e: "ReadExponentialGolombCode s = Some (of_nat v, s')" and r: "bitsOf s' = rest"
    using ReadExponentialGolombCode_ueBits [OF assms] by blast
  have small: "unat (of_nat v :: u64) = v" "sint (of_nat v :: u64) = int v"
    using v sint_of_int64 [of "int v"] by (simp_all add: unat_of_nat wrap64_id in64_def)
  have par: "(of_nat v :: u64) AND 1 \<noteq> 0 \<longleftrightarrow> odd v"
    by (simp add: and_one_eq mod_2_eq_odd)
  show ?thesis
  proof (cases "odd v")
    case True
    have "of_nat v + 1 = (of_nat (Suc v) :: u64)"
      by simp
    moreover have "unat (of_nat (Suc v) :: u64) = Suc v"
      using v by (simp add: unat_of_nat del: of_nat_Suc)
    moreover have "unat (of_nat (Suc v div 2) :: u64) = Suc v div 2"
      using v by (simp add: unat_of_nat)
    ultimately have "unat ((of_nat v + 1 :: u64) div 2) = unat (of_nat ((v + 1) div 2) :: u64)"
      by (simp only: unat_div Suc_eq_plus1) simp
    then have "(of_nat v + 1 :: u64) div 2 = of_nat ((v + 1) div 2)"
      by (rule word_unat_eq_iff [THEN iffD2])
    moreover have "sint (of_nat ((v + 1) div 2) :: u64) = int ((v + 1) div 2)"
      using v sint_of_int64 [of "int ((v + 1) div 2)"] by (simp add: wrap64_id in64_def)
    ultimately show ?thesis
      using e r par True by (simp add: ReadSE_def seValue_def)
  next
    case False
    have "go_quot (wrap64 (- sint (of_nat v :: u64))) 2 = - int (v div 2)"
      unfolding small using v by (simp add: wrap64_id in64_def go_quot_def sgn_if zdiv_int)
    moreover have "sint (word_of_int (- int (v div 2)) :: u64) = - int (v div 2)"
      unfolding sint_of_int64 using v by (simp add: wrap64_id in64_def)
    ultimately show ?thesis
      using e r par False by (simp add: ReadSE_def seValue_def)
  qed
qed

subsection \<open>Reading judgements\<close>

text \<open>\<open>reads f x bs\<close>: on a state whose next bits are \<open>bs\<close>, \<open>f\<close> returns \<open>x\<close> and consumes exactly \<open>bs\<close>.\<close>

definition reads :: "(golomb \<Rightarrow> ('a \<times> golomb) option) \<Rightarrow> 'a \<Rightarrow> bool list \<Rightarrow> bool" where
  "reads f x bs \<longleftrightarrow> (\<forall>s rest. bitsOf s = bs @ rest \<longrightarrow> (\<exists>s'. f s = Some (x, s') \<and> bitsOf s' = rest))"

lemma reads_bit: "reads ReadBit (of_bool b) [b]"
  using ReadBit_Some by (auto simp: reads_def)

lemma reads_bits: "v < 2 ^ n \<Longrightarrow> n < 64 \<Longrightarrow> reads (ReadBits n) (of_nat v) (natBits n v)"
proof -
  assume v: "v < 2 ^ n" and n: "n < 64"
  have "bitsWord (natBits n v) = (of_nat v :: u64)"
    using v by (simp add: bitsWord_natBits take_bit_nat_eq_self flip: of_nat_take_bit)
  then show ?thesis
    using ReadBits_bits [of _ "natBits n v"] by (auto simp: reads_def)
qed

lemma reads_ue: "v + 1 < 2 ^ 33 \<Longrightarrow> reads ReadExponentialGolombCode (of_nat v) (ueBits v)"
  using ReadExponentialGolombCode_ueBits by (auto simp: reads_def)

lemma reads_return: "reads (\<lambda>s. Some (x, s)) x []"
  by (simp add: reads_def)

lemma reads_bind:
  "reads f x bs \<Longrightarrow> reads (g x) y cs \<Longrightarrow> reads (\<lambda>s. Option.bind (f s) (\<lambda>(x, s'). g x s')) y (bs @ cs)"
  by (fastforce simp: reads_def)

lemma reads_bind_bit: "reads (g (of_bool b)) y cs \<Longrightarrow> reads (\<lambda>s. Option.bind (ReadBit s) (\<lambda>(x, s'). g x s')) y (b # cs)"
  using reads_bind [OF reads_bit] by fastforce

text \<open>The shifting loops of \<^verbatim>\<open>ReadBits32\<close> and \<^verbatim>\<open>ReadBits64\<close>.\<close>

lemma readBits32Loop_bits:
  "bitsOf s = bs @ rest \<Longrightarrow>
   \<exists>s'. readBits32Loop (length bs) r s = Some (push_bit (length bs) r OR bitsWord bs, s') \<and> bitsOf s' = rest"
proof (induction bs arbitrary: s r)
  case (Cons b bs)
  obtain s1 where s1: "ReadBit s = Some (of_bool b, s1)" "bitsOf s1 = bs @ rest"
    using ReadBit_Some [of s b "bs @ rest"] Cons.prems by auto
  have "push_bit (length bs) (push_bit 1 r OR ucast (of_bool b :: u64)) = push_bit (Suc (length bs)) r OR push_bit (length bs) (of_bool b)"
    by (simp add: push_bit_or)
  then show ?case
    using Cons.IH [OF s1(2), of "push_bit 1 r OR ucast (of_bool b :: u64)"] s1(1) by (simp add: or.assoc)
qed simp

lemma readBits64Loop_bits:
  "bitsOf s = bs @ rest \<Longrightarrow>
   \<exists>s'. readBits64Loop (length bs) r s = Some (push_bit (length bs) r OR bitsWord bs, s') \<and> bitsOf s' = rest"
proof (induction bs arbitrary: s r)
  case (Cons b bs)
  obtain s1 where s1: "ReadBit s = Some (of_bool b, s1)" "bitsOf s1 = bs @ rest"
    using ReadBit_Some [of s b "bs @ rest"] Cons.prems by auto
  have "push_bit (length bs) (push_bit 1 r OR of_bool b) = push_bit (Suc (length bs)) r OR push_bit (length bs) (of_bool b :: u64)"
    by (simp add: push_bit_or)
  then show ?case
    using Cons.IH [OF s1(2), of "push_bit 1 r OR of_bool b"] s1(1) by (simp add: or.assoc)
qed simp

lemma bitsWord_natBits_small: "v < 2 ^ n \<Longrightarrow> bitsWord (natBits n v) = (of_nat v :: 'a::len word)"
  by (simp add: bitsWord_natBits take_bit_nat_eq_self flip: of_nat_take_bit)

lemma reads_bits32: "v < 2 ^ n \<Longrightarrow> reads (ReadBits32 n) (of_nat v) (natBits n v)"
  using readBits32Loop_bits [of _ "natBits n v" _ 0]
  by (auto simp: reads_def ReadBits32_def bitsWord_natBits_small)

lemma reads_bits64: "v < 2 ^ n \<Longrightarrow> reads (ReadBits64 n) (of_nat v) (natBits n v)"
  using readBits64Loop_bits [of _ "natBits n v" _ 0]
  by (auto simp: reads_def ReadBits64_def bitsWord_natBits_small)

text \<open>An optional part, whose presence is known.\<close>

lemma reads_if: "(b \<Longrightarrow> reads f x bs) \<Longrightarrow> (\<not> b \<Longrightarrow> reads g x cs) \<Longrightarrow>
  reads (\<lambda>s. if b then f s else g s) x (if b then bs else cs)"
  by simp

lemmas reads_step = reads_bind [OF reads_bits] reads_bind [OF reads_ue] reads_bind_bit

lemma bitsOf_newGolomb: "bitsOf (newGolomb data) = concat (map byteBits data)"
  by (simp add: bitsOf_def newGolomb_def)

subsection \<open>Properties\<close>

text \<open>
  \<^verbatim>\<open>ReadExponentialGolombCode\<close> inverts the unsigned Exp-Golomb code and \<^verbatim>\<open>ReadSE\<close> the signed one: on a
  state whose next bits are the code of \<open>v\<close>, for every \<open>v\<close> of at most 33 bits, they return \<open>v\<close> and its
  signed counterpart, and consume exactly the code.
\<close>

theorem golomb_decodes:
  assumes "v + 1 < 2 ^ 33" and "bitsOf s = ueBits v @ rest"
  shows "(\<exists>s'. ReadExponentialGolombCode s = Some (of_nat v, s') \<and> bitsOf s' = rest) \<and>
    (\<exists>w s'. ReadSE s = Some (w, s') \<and> sint w = seValue v \<and> bitsOf s' = rest)"
  using ReadExponentialGolombCode_ueBits [OF assms] ReadSE_ueBits [OF assms] by blast

theorem golomb_decodes_witness:
  "\<exists>w s'. ReadSE (newGolomb [0x2C]) = Some (w, s') \<and> sint w = -2 \<and> bitsOf s' = [True, False, False]"
proof -
  have "bitsOf (newGolomb [0x2C]) = ueBits 4 @ [True, False, False]"
    by code_simp
  moreover have "seValue 4 = -2"
    by (simp add: seValue_def)
  ultimately show ?thesis
    using golomb_decodes [of 4 "newGolomb [0x2C]" "[True, False, False]"] by simp
qed

end
