(* ===== verification/H264_Sps.thy ===== *)
theory H264_Sps
  imports Golomb Pio Av_Types
begin

text \<open>
  \<^verbatim>\<open>av/codec/h264parser\<close>: emulation prevention, the SPS parser (\<^verbatim>\<open>sps.go\<close>), the AVC decoder configuration
  record and the codec descriptor (\<^verbatim>\<open>codec_data.go\<close>).  The SPS parser fails only at the end of its data.
\<close>

subsection \<open>Emulation prevention\<close>

text \<open>
  The loop of \<^verbatim>\<open>RemoveH264orH265EmulationBytes\<close>: \<^verbatim>\<open>00 00 03\<close> becomes \<^verbatim>\<open>00 00\<close>.  The bound \<^verbatim>\<open>j < len(b)\<close>
  always holds, since the output is never ahead of the input.
\<close>

fun RemoveH264orH265EmulationBytes :: "bytes \<Rightarrow> bytes" where
  "RemoveH264orH265EmulationBytes (a # b # c # rest) =
    (if a = 0 \<and> b = 0 \<and> c = 3 then 0 # 0 # RemoveH264orH265EmulationBytes rest
     else a # RemoveH264orH265EmulationBytes (b # c # rest))"
| "RemoveH264orH265EmulationBytes b = b"

subsection \<open>The sequence parameter set\<close>

fun skipSE :: "nat \<Rightarrow> golomb \<Rightarrow> (unit \<times> golomb) option" where
  "skipSE 0 r = Some ((), r)"
| "skipSE (Suc n) r = do { (_, r) \<leftarrow> ReadSE r; skipSE n r }"

fun skipScalingList :: "nat \<Rightarrow> u64 \<Rightarrow> u64 \<Rightarrow> golomb \<Rightarrow> (unit \<times> golomb) option" where
  "skipScalingList 0 lastScale nextScale r = Some ((), r)"
| "skipScalingList (Suc n) lastScale nextScale r = do {
     (next', r) \<leftarrow> (if nextScale \<noteq> 0
        then do { (deltaScale, r) \<leftarrow> ReadSE r; Some ((lastScale + deltaScale + 256) mod 256, r) }
        else Some (nextScale, r));
     skipScalingList n (if next' \<noteq> 0 then next' else lastScale) next' r
   }"

text \<open>The loop over the eight scaling lists, from list \<open>i\<close> on.\<close>

fun skipScalingMatrix :: "nat \<Rightarrow> nat \<Rightarrow> golomb \<Rightarrow> (unit \<times> golomb) option" where
  "skipScalingMatrix 0 i r = Some ((), r)"
| "skipScalingMatrix (Suc n) i r = do {
     (present, r) \<leftarrow> ReadBit r;
     (_, r) \<leftarrow> (if present \<noteq> 0 then skipScalingList (if i \<ge> 6 then 64 else 16) 8 8 r else Some ((), r));
     skipScalingMatrix n (i + 1) r
   }"

text \<open>A flag bit, and the fields it announces when it is set.\<close>

definition whenFlag :: "(golomb \<Rightarrow> (unit \<times> golomb) option) \<Rightarrow> golomb \<Rightarrow> (unit \<times> golomb) option" where
  "whenFlag body r = do {
     (flag, r) \<leftarrow> ReadBit r;
     if flag \<noteq> 0 then body r else Some ((), r)
   }"

definition parseHighProfileFields :: "golomb \<Rightarrow> (unit \<times> golomb) option" where
  "parseHighProfileFields r = do {
     (chromaFormatIdc, r) \<leftarrow> ReadExponentialGolombCode r;
     (_, r) \<leftarrow> (if chromaFormatIdc = 3 then do { (_, r) \<leftarrow> ReadBit r; Some ((), r) } else Some ((), r));
     (_, r) \<leftarrow> ReadExponentialGolombCode r;
     (_, r) \<leftarrow> ReadExponentialGolombCode r;
     (_, r) \<leftarrow> ReadBit r;
     whenFlag (skipScalingMatrix 8 0) r
   }"

text \<open>
  \<^verbatim>\<open>uint(math.Floor(float64(timeScale) / float64(numUnitsInTick) / 2.0))\<close> for two 32-bit values: the
  rounding error of the first quotient \<open>q\<close> is below \<open>q / 2 ^ 53\<close>, which is less than \<open>1 / numUnitsInTick\<close>, so the
  floor is that of the exact quotient.  For a zero divisor the conversion of an infinity or a NaN
  to \<^verbatim>\<open>uint\<close> is implementation-defined in Go, and the value is left unspecified here.
\<close>

definition framesPerSecond :: "u64 \<Rightarrow> u64 \<Rightarrow> u64" where
  "framesPerSecond timeScale numUnitsInTick =
    (if numUnitsInTick = 0 then undefined else of_nat (unat timeScale div (2 * unat numUnitsInTick)))"

definition parseVUI :: "h264_sps_info \<Rightarrow> golomb \<Rightarrow> (h264_sps_info \<times> golomb) option" where
  "parseVUI s r = do {
     (_, r) \<leftarrow> whenFlag (\<lambda>r. do {
          (aspectRatioIdc, r) \<leftarrow> ReadBits 8 r;
          if aspectRatioIdc = 255
          then do { (_, r) \<leftarrow> ReadBits 16 r; (_, r) \<leftarrow> ReadBits 16 r; Some ((), r) }
          else Some ((), r)
        }) r;
     (_, r) \<leftarrow> whenFlag (\<lambda>r. do { (_, r) \<leftarrow> ReadBit r; Some ((), r) }) r;
     (_, r) \<leftarrow> whenFlag (\<lambda>r. do {
          (_, r) \<leftarrow> ReadBits 3 r;
          (_, r) \<leftarrow> ReadBit r;
          whenFlag (\<lambda>r. do {
            (_, r) \<leftarrow> ReadBits 8 r; (_, r) \<leftarrow> ReadBits 8 r; (_, r) \<leftarrow> ReadBits 8 r; Some ((), r) }) r
        }) r;
     (_, r) \<leftarrow> whenFlag (\<lambda>r. do { (_, r) \<leftarrow> ReadSE r; (_, r) \<leftarrow> ReadSE r; Some ((), r) }) r;
     (timingInfoPresentFlag, r) \<leftarrow> ReadBit r;
     if timingInfoPresentFlag \<noteq> 0
     then do {
       (numUnitsInTick, r) \<leftarrow> ReadBits 32 r;
       (timeScale, r) \<leftarrow> ReadBits 32 r;
       Some (s\<lparr>h264_SPSFPS := framesPerSecond timeScale numUnitsInTick\<rparr>, r)
     }
     else Some (s, r)
   }"

definition zero_h264_sps :: h264_sps_info where
  "zero_h264_sps = \<lparr>h264_ID = 0, h264_ProfileIdc = 0, h264_LevelIdc = 0, h264_ConstraintSetFlag = 0,
     h264_MbWidth = 0, h264_MbHeight = 0, h264_CropLeft = 0, h264_CropRight = 0, h264_CropTop = 0,
     h264_CropBottom = 0, h264_SPSWidth = 0, h264_SPSHeight = 0, h264_SPSFPS = 0\<rparr>"

definition highProfiles :: "u64 list" where
  "highProfiles = [100, 110, 122, 244, 44, 83, 86, 118]"

definition skipPicOrderCnt :: "golomb \<Rightarrow> (unit \<times> golomb) option" where
  "skipPicOrderCnt r = do {
     (picOrderCntType, r) \<leftarrow> ReadExponentialGolombCode r;
     if picOrderCntType = 0 then do { (_, r) \<leftarrow> ReadExponentialGolombCode r; Some ((), r) }
     else if picOrderCntType = 1
     then do {
       (_, r) \<leftarrow> ReadBit r;
       (_, r) \<leftarrow> ReadSE r;
       (_, r) \<leftarrow> ReadSE r;
       (numRefFramesInPicOrderCntCycle, r) \<leftarrow> ReadExponentialGolombCode r;
       skipSE (unat numRefFramesInPicOrderCntCycle) r
     }
     else Some ((), r)
   }"

text \<open>The cropping fields: zero unless the flag is set.\<close>

definition readCrop :: "golomb \<Rightarrow> ((u64 \<times> u64 \<times> u64 \<times> u64) \<times> golomb) option" where
  "readCrop r = do {
     (frameCroppingFlag, r) \<leftarrow> ReadBit r;
     if frameCroppingFlag \<noteq> 0
     then do {
       (cropLeft, r) \<leftarrow> ReadExponentialGolombCode r;
       (cropRight, r) \<leftarrow> ReadExponentialGolombCode r;
       (cropTop, r) \<leftarrow> ReadExponentialGolombCode r;
       (cropBottom, r) \<leftarrow> ReadExponentialGolombCode r;
       Some ((cropLeft, cropRight, cropTop, cropBottom), r)
     }
     else Some ((0, 0, 0, 0), r)
   }"

text \<open>The part of \<^verbatim>\<open>ParseSPS\<close> after the cropping fields: the dimensions, then the VUI.\<close>

definition finishSPS :: "h264_sps_info \<Rightarrow> u64 \<Rightarrow> golomb \<Rightarrow> (h264_sps_info \<times> golomb) option" where
  "finishSPS s0 frameMbsOnlyFlag r =
    (let s = s0\<lparr>h264_SPSWidth := h264_MbWidth s0 * 16 - h264_CropLeft s0 * 2 - h264_CropRight s0 * 2,
       h264_SPSHeight := (2 - frameMbsOnlyFlag) * h264_MbHeight s0 * 16 - h264_CropTop s0 * 2 - h264_CropBottom s0 * 2\<rparr>
     in do {
       (vuiParameterPresentFlag, r) \<leftarrow> ReadBit r;
       if vuiParameterPresentFlag \<noteq> 0 then parseVUI s r else Some (s, r)
     })"

definition readSPS :: "golomb \<Rightarrow> (h264_sps_info \<times> golomb) option" where
  "readSPS r = do {
     (_, r) \<leftarrow> ReadBits 8 r;
     (profileIdc, r) \<leftarrow> ReadBits 8 r;
     (constraintSetFlag, r) \<leftarrow> ReadBits 8 r;
     (levelIdc, r) \<leftarrow> ReadBits 8 r;
     (spsID, r) \<leftarrow> ReadExponentialGolombCode r;
     (_, r) \<leftarrow> (if profileIdc \<in> set highProfiles then parseHighProfileFields r else Some ((), r));
     (_, r) \<leftarrow> ReadExponentialGolombCode r;
     (_, r) \<leftarrow> skipPicOrderCnt r;
     (_, r) \<leftarrow> ReadExponentialGolombCode r;
     (_, r) \<leftarrow> ReadBit r;
     (mbWidth, r) \<leftarrow> ReadExponentialGolombCode r;
     (mbHeight, r) \<leftarrow> ReadExponentialGolombCode r;
     (frameMbsOnlyFlag, r) \<leftarrow> ReadBit r;
     (_, r) \<leftarrow> (if frameMbsOnlyFlag = 0 then do { (_, r) \<leftarrow> ReadBit r; Some ((), r) } else Some ((), r));
     (_, r) \<leftarrow> ReadBit r;
     ((cropLeft, cropRight, cropTop, cropBottom), r) \<leftarrow> readCrop r;
     finishSPS (zero_h264_sps\<lparr>h264_ID := spsID, h264_ProfileIdc := profileIdc, h264_LevelIdc := levelIdc,
       h264_ConstraintSetFlag := drop_bit 2 constraintSetFlag,
       h264_MbWidth := mbWidth + 1, h264_MbHeight := mbHeight + 1,
       h264_CropLeft := cropLeft, h264_CropRight := cropRight, h264_CropTop := cropTop,
       h264_CropBottom := cropBottom\<rparr>) frameMbsOnlyFlag r
   }"

definition ParseSPS :: "bytes \<Rightarrow> h264_sps_info option" where
  "ParseSPS data = map_option fst (readSPS (newGolomb (RemoveH264orH265EmulationBytes data)))"

subsection \<open>The decoder configuration record\<close>

datatype h264_error = H264_SPSNotFound | H264_PPSNotFound | H264_DecconfInvalid | H264_EOF | H264_IndexPanic

text \<open>The two loops of \<^verbatim>\<open>Unmarshal\<close>: \<open>count\<close> units with 16-bit lengths, from offset \<open>n\<close>, appended to \<open>acc\<close>.\<close>

fun unmarshalUnits :: "nat \<Rightarrow> bytes \<Rightarrow> nat \<Rightarrow> bytes list \<Rightarrow> (bytes list \<times> nat) option" where
  "unmarshalUnits 0 b n acc = Some (acc, n)"
| "unmarshalUnits (Suc count) b n acc =
    (if length b < n + 2 then None
     else let len = unat (U16BE (drop n b)) in
       if length b < n + 2 + len then None
       else unmarshalUnits count b (n + 2 + len) (acc @ [slice b (n + 2) (n + 2 + len)]))"

definition AVC_Unmarshal :: "avc_record \<Rightarrow> bytes \<Rightarrow> (avc_record \<times> nat) option" where
  "AVC_Unmarshal s b =
    (if length b < 7 then None
     else case unmarshalUnits (unat (b ! 5 AND 0x1f)) b 6 (AVC_SPS s) of
       None \<Rightarrow> None
     | Some (sps, n) \<Rightarrow>
         if length b < n + 1 then None
         else case unmarshalUnits (unat (b ! n)) b (n + 1) (AVC_PPS s) of
           None \<Rightarrow> None
         | Some (pps, n') \<Rightarrow>
             Some (\<lparr>AVCProfileIndication = b ! 1, ProfileCompatibility = b ! 2, AVCLevelIndication = b ! 3,
               AVCLengthSizeMinusOne = b ! 4 AND 0x03, AVC_SPS = sps, AVC_PPS = pps\<rparr>, n'))"

definition AVC_Len :: "avc_record \<Rightarrow> nat" where
  "AVC_Len s = foldl (\<lambda>n pps. n + (2 + length pps)) (foldl (\<lambda>n sps. n + (2 + length sps)) 7 (AVC_SPS s)) (AVC_PPS s)"

definition marshalUnits :: "bytes list \<Rightarrow> bytes" where
  "marshalUnits us = concat (map (\<lambda>u. PutU16BE (of_nat (length u)) @ u) us)"

text \<open>The bytes that \<^verbatim>\<open>Marshal\<close> writes into its buffer.\<close>

definition AVC_Marshal :: "avc_record \<Rightarrow> bytes" where
  "AVC_Marshal s =
    [1, AVCProfileIndication s, ProfileCompatibility s, AVCLevelIndication s,
     AVCLengthSizeMinusOne s OR 0xfc, of_nat (length (AVC_SPS s)) OR 0xe0]
    @ marshalUnits (AVC_SPS s) @ [of_nat (length (AVC_PPS s))] @ marshalUnits (AVC_PPS s)"

definition zero_avc_record :: avc_record where
  "zero_avc_record = \<lparr>AVCProfileIndication = 0, ProfileCompatibility = 0, AVCLevelIndication = 0,
     AVCLengthSizeMinusOne = 0, AVC_SPS = [], AVC_PPS = []\<rparr>"

subsection \<open>The codec descriptor\<close>

definition h264_NewCodecDataFromAVCDecoderConfRecord :: "bytes \<Rightarrow> h264_error + h264_codec" where
  "h264_NewCodecDataFromAVCDecoderConfRecord record =
    (case AVC_Unmarshal zero_avc_record record of
       None \<Rightarrow> Inl H264_DecconfInvalid
     | Some (info, _) \<Rightarrow>
         if length (AVC_SPS info) = 0 then Inl H264_SPSNotFound
         else if length (AVC_PPS info) = 0 then Inl H264_PPSNotFound
         else case ParseSPS (AVC_SPS info ! 0) of
           None \<Rightarrow> Inl H264_SPSNotFound
         | Some sps \<Rightarrow> Inr \<lparr>h264_Record = record, h264_RecordInfo = info, h264_SPSInfo = sps, h264_ControlURL = []\<rparr>)"

text \<open>\<^verbatim>\<open>NewCodecDataFromSPSAndPPS\<close> indexes \<^verbatim>\<open>sps[1..3]\<close> without a check: a shorter slice panics.\<close>

definition h264_NewCodecDataFromSPSAndPPS :: "bytes \<Rightarrow> bytes \<Rightarrow> h264_error + h264_codec" where
  "h264_NewCodecDataFromSPSAndPPS sps pps =
    (if length sps < 4 then Inl H264_IndexPanic
     else let recordinfo = \<lparr>AVCProfileIndication = sps ! 1, ProfileCompatibility = sps ! 2,
                AVCLevelIndication = sps ! 3, AVCLengthSizeMinusOne = 3, AVC_SPS = [sps], AVC_PPS = [pps]\<rparr>;
              buf = AVC_Marshal recordinfo
          in case ParseSPS sps of
               None \<Rightarrow> Inl H264_EOF
             | Some info \<Rightarrow> Inr \<lparr>h264_Record = buf, h264_RecordInfo = recordinfo, h264_SPSInfo = info, h264_ControlURL = []\<rparr>)"

definition h264_SPS :: "h264_codec \<Rightarrow> bytes" where
  "h264_SPS s = (if length (AVC_SPS (h264_RecordInfo s)) > 0 then AVC_SPS (h264_RecordInfo s) ! 0 else [0])"

definition h264_PPS :: "h264_codec \<Rightarrow> bytes" where
  "h264_PPS s = (if length (AVC_PPS (h264_RecordInfo s)) > 0 then AVC_PPS (h264_RecordInfo s) ! 0 else [0])"

subsection \<open>Round trip of the record\<close>

lemma length_PutU16BE [simp]: "length (PutU16BE v) = 2"
  by (simp add: PutU16BE_def)

lemma length_marshalUnits: "length (marshalUnits us) = sum_list (map (\<lambda>u. 2 + length u) us)"
  by (induction us) (simp_all add: marshalUnits_def)

lemma AVC_Len_Marshal: "length (AVC_Marshal s) = AVC_Len s"
proof -
  have "foldl (\<lambda>n u. n + (2 + length u)) k us = k + length (marshalUnits us)" for k and us :: "bytes list"
    by (induction us arbitrary: k) (simp_all add: marshalUnits_def)
  then show ?thesis
    by (simp add: AVC_Len_def AVC_Marshal_def)
qed

lemma unmarshalUnits_marshalUnits:
  assumes "drop n b = marshalUnits us @ rest" and "\<forall>u \<in> set us. length u < 2 ^ 16"
  shows "unmarshalUnits (length us) b n acc = Some (acc @ us, n + length (marshalUnits us))"
  using assms
proof (induction us arbitrary: n acc)
  case Nil
  then show ?case by (simp add: marshalUnits_def)
next
  case (Cons u us)
  have d: "drop n b = PutU16BE (of_nat (length u)) @ u @ marshalUnits us @ rest"
    using Cons.prems(1) by (simp add: marshalUnits_def)
  have len: "unat (U16BE (drop n b)) = length u"
    using Cons.prems(2) unfolding d U_PutU by (simp add: unat_of_nat_u16)
  have d2: "drop (n + 2) b = u @ marshalUnits us @ rest"
    using drop_field [OF d] by simp
  note d3 = drop_field [OF d2]
  have fits: "n + 2 + length u \<le> length b"
    using arg_cong [OF d, of length] by simp
  have s: "slice b (n + 2) (n + 2 + length u) = u"
    by (rule slice_field [OF d2])
  show ?case
    using Cons.IH [OF d3] Cons.prems(2) fits len s
    by (simp add: marshalUnits_def Let_def)
qed

definition avc_ok :: "avc_record \<Rightarrow> bool" where
  "avc_ok s \<longleftrightarrow> length (AVC_SPS s) < 32 \<and> length (AVC_PPS s) < 256 \<and> AVCLengthSizeMinusOne s < 4 \<and>
     (\<forall>u \<in> set (AVC_SPS s) \<union> set (AVC_PPS s). length u < 2 ^ 16)"

lemma low_bits: "w < 32 \<Longrightarrow> (w OR 0xe0) AND 0x1f = w" "w < 4 \<Longrightarrow> (w OR 0xfc) AND 0x03 = w" for w :: byte
proof -
  show "(w OR 0xe0) AND 0x1f = w" if "w < 32"
    using take_bit_small [of w 5] that
    by (simp add: bit.conj_disj_distrib2 take_bit_eq_mask mask_numeral word_less_nat_alt)
  show "(w OR 0xfc) AND 0x03 = w" if "w < 4"
    using take_bit_small [of w 2] that
    by (simp add: bit.conj_disj_distrib2 take_bit_eq_mask mask_numeral word_less_nat_alt)
qed

lemma AVC_Unmarshal_Marshal:
  assumes ok: "avc_ok s"
  shows "AVC_Unmarshal zero_avc_record (AVC_Marshal s) = Some (s, AVC_Len s)"
proof -
  define b where "b = AVC_Marshal s"
  define n where "n = 6 + length (marshalUnits (AVC_SPS s))"
  have d6: "drop 6 b = marshalUnits (AVC_SPS s) @ of_nat (length (AVC_PPS s)) # marshalUnits (AVC_PPS s)"
    by (simp add: b_def AVC_Marshal_def)
  have dn: "drop n b = [of_nat (length (AVC_PPS s))] @ marshalUnits (AVC_PPS s)"
    using drop_field [OF d6] by (simp add: n_def)
  have dn1: "drop (n + 1) b = marshalUnits (AVC_PPS s) @ []"
    using drop_field [OF dn] by simp
  have len: "length b = n + 1 + length (marshalUnits (AVC_PPS s))"
    by (simp add: b_def n_def AVC_Marshal_def)
  have "b ! n = of_nat (length (AVC_PPS s))"
    using dn by (simp add: nth_via_drop)
  then have pc: "unat (b ! n) = length (AVC_PPS s)"
    using ok by (simp add: avc_ok_def unat_of_nat)
  have "(of_nat (length (AVC_SPS s)) :: byte) < 32"
    using ok by (simp add: avc_ok_def word_less_nat_alt unat_of_nat)
  then have b5: "unat (b ! 5 AND 0x1f) = length (AVC_SPS s)"
    using ok by (simp add: b_def AVC_Marshal_def low_bits unat_of_nat avc_ok_def)
  have hd: "b ! Suc 0 = AVCProfileIndication s" "b ! 2 = ProfileCompatibility s" "b ! 3 = AVCLevelIndication s"
    "b ! 4 AND 0x03 = AVCLengthSizeMinusOne s"
    using ok by (simp_all add: b_def AVC_Marshal_def low_bits avc_ok_def)
  have u1: "unmarshalUnits (length (AVC_SPS s)) b 6 [] = Some (AVC_SPS s, n)"
    using unmarshalUnits_marshalUnits [OF d6] ok by (simp add: avc_ok_def n_def)
  have u2: "unmarshalUnits (length (AVC_PPS s)) b (n + 1) [] = Some (AVC_PPS s, length b)"
    using unmarshalUnits_marshalUnits [OF dn1] ok by (simp add: avc_ok_def len)
  have n6: "6 \<le> n"
    by (simp add: n_def)
  have L: "AVC_Len s = length b"
    by (simp add: AVC_Len_Marshal b_def)
  show ?thesis
    unfolding AVC_Unmarshal_def b_def [symmetric] L
    using len n6 u2 by (simp add: b5 u1 pc hd zero_avc_record_def)
qed

lemma h264_record_roundtrip:
  assumes new: "h264_NewCodecDataFromSPSAndPPS sps pps = Inr c" and "length sps < 2 ^ 16" "length pps < 2 ^ 16"
  shows "h264_NewCodecDataFromAVCDecoderConfRecord (h264_Record c) = Inr c"
proof -
  let ?r = "\<lparr>AVCProfileIndication = sps ! 1, ProfileCompatibility = sps ! 2,
                AVCLevelIndication = sps ! 3, AVCLengthSizeMinusOne = 3, AVC_SPS = [sps], AVC_PPS = [pps]\<rparr>"
  have "avc_ok ?r"
    using assms(2,3) by (simp add: avc_ok_def)
  note u = AVC_Unmarshal_Marshal [OF this]
  show ?thesis
    using new u by (auto simp: h264_NewCodecDataFromSPSAndPPS_def h264_NewCodecDataFromAVCDecoderConfRecord_def
        Let_def split: if_splits option.splits)
qed

subsection \<open>Removing what an encoder inserts\<close>

text \<open>
  The insertion that clause 7.4.1 of the H.264 standard prescribes, with the number of zero bytes just
  written: after two zeros a byte up to 3 is preceded by 3.
\<close>

fun insertEmulation :: "nat \<Rightarrow> bytes \<Rightarrow> bytes" where
  "insertEmulation z [] = []"
| "insertEmulation z (x # xs) =
    (if z \<ge> 2 \<and> x \<le> 3 then 3 # x # insertEmulation (if x = 0 then 1 else 0) xs
     else x # insertEmulation (if x = 0 then z + 1 else 0) xs)"

lemma Remove_nonzero:
  "x \<noteq> 0 \<Longrightarrow> RemoveH264orH265EmulationBytes (x # xs) = x # RemoveH264orH265EmulationBytes xs"
  by (cases xs; cases "tl xs") auto

lemma Remove_zero_nonzero:
  "x \<noteq> 0 \<Longrightarrow> RemoveH264orH265EmulationBytes (0 # x # xs) = 0 # RemoveH264orH265EmulationBytes (x # xs)"
  by (cases xs) auto

lemma Remove_zeros_other:
  "x \<noteq> 0 \<Longrightarrow> x \<noteq> 3 \<Longrightarrow> RemoveH264orH265EmulationBytes (0 # 0 # x # xs) = 0 # 0 # RemoveH264orH265EmulationBytes (x # xs)"
  by (simp add: Remove_zero_nonzero)

lemma Remove_insert_from:
  "z \<le> 2 \<Longrightarrow> RemoveH264orH265EmulationBytes (replicate z 0 @ insertEmulation z xs) = replicate z 0 @ xs"
proof (induction xs arbitrary: z)
  case Nil
  then consider "z = 0" | "z = 1" | "z = 2"
    by linarith
  then show ?case
    by cases (simp_all add: numeral_2_eq_2)
next
  case (Cons x xs)
  consider (esc) "z = 2" "x \<le> 3" | (two) "z = 2" "\<not> x \<le> 3" | (one) "z = 1" | (none) "z = 0"
    using Cons.prems by linarith
  then show ?case
  proof cases
    case esc
    then show ?thesis
      using Cons.IH [of 0] Cons.IH [of 1] by (cases "x = 0") (simp_all add: numeral_2_eq_2 Remove_nonzero)
  next
    case two
    then have "x \<noteq> 0" "x \<noteq> 3"
      by auto
    then show ?thesis
      using two Cons.IH [of 0] Remove_zeros_other [of x] Remove_nonzero [of x] by (simp add: numeral_2_eq_2)
  next
    case one
    then show ?thesis
      using Cons.IH [of 0] Cons.IH [of 2]
      by (cases "x = 0") (simp_all add: numeral_2_eq_2 Remove_zero_nonzero Remove_nonzero)
  next
    case none
    then show ?thesis
      using Cons.IH [of 0] Cons.IH [of 1] by (cases "x = 0") (simp_all add: Remove_nonzero)
  qed
qed

lemma Remove_insert: "RemoveH264orH265EmulationBytes (insertEmulation 0 xs) = xs"
  using Remove_insert_from [of 0 xs] by simp

subsection \<open>Decoding a parameter set\<close>

text \<open>
  The fields of a sequence parameter set of a profile without chroma fields (clause 7.3.2.1.1 of the
  H.264 standard), with picture order count type 2 and no VUI, and the bits they are coded as.
\<close>

record sps_syntax =
  q_header :: nat
  q_profile :: nat
  q_constraints :: nat
  q_level :: nat
  q_id :: nat
  q_frameNum :: nat
  q_refFrames :: nat
  q_gaps :: bool
  q_mbWidth :: nat
  q_mbHeight :: nat
  q_frameMbsOnly :: bool
  q_mbaff :: bool
  q_direct8x8 :: bool
  q_crop :: "(nat \<times> nat \<times> nat \<times> nat) option"

definition cropBits :: "(nat \<times> nat \<times> nat \<times> nat) option \<Rightarrow> bool list" where
  "cropBits c = (case c of None \<Rightarrow> [False]
     | Some (l, r, t, b) \<Rightarrow> True # ueBits l @ ueBits r @ ueBits t @ ueBits b)"

definition spsBits :: "sps_syntax \<Rightarrow> bool list" where
  "spsBits q = natBits 8 (q_header q) @ natBits 8 (q_profile q) @ natBits 8 (q_constraints q)
     @ natBits 8 (q_level q) @ ueBits (q_id q) @ ueBits (q_frameNum q) @ ueBits 2 @ ueBits (q_refFrames q)
     @ [q_gaps q] @ ueBits (q_mbWidth q - 1) @ ueBits (q_mbHeight q - 1) @ [q_frameMbsOnly q]
     @ (if q_frameMbsOnly q then [] else [q_mbaff q]) @ [q_direct8x8 q] @ cropBits (q_crop q) @ [False]"

definition cropOf :: "sps_syntax \<Rightarrow> nat \<times> nat \<times> nat \<times> nat" where
  "cropOf q = (case q_crop q of None \<Rightarrow> (0, 0, 0, 0) | Some c \<Rightarrow> c)"

definition sps_ok :: "sps_syntax \<Rightarrow> bool" where
  "sps_ok q \<longleftrightarrow> q_header q < 256 \<and> q_profile q < 256 \<and> q_constraints q < 256 \<and> q_level q < 256 \<and>
     (of_nat (q_profile q) :: u64) \<notin> set highProfiles \<and>
     (\<forall>v \<in> {q_id q, q_frameNum q, q_refFrames q}. v < 2 ^ 32) \<and>
     0 < q_mbWidth q \<and> q_mbWidth q < 2 ^ 32 \<and> 0 < q_mbHeight q \<and> q_mbHeight q < 2 ^ 32 \<and>
     (case q_crop q of None \<Rightarrow> True
      | Some (l, r, t, b) \<Rightarrow> l < 2 ^ 32 \<and> r < 2 ^ 32 \<and> t < 2 ^ 32 \<and> b < 2 ^ 32)"

definition spsInfo :: "sps_syntax \<Rightarrow> h264_sps_info" where
  "spsInfo q = (case cropOf q of (l, r, t, b) \<Rightarrow>
    \<lparr>h264_ID = of_nat (q_id q), h264_ProfileIdc = of_nat (q_profile q), h264_LevelIdc = of_nat (q_level q),
      h264_ConstraintSetFlag = drop_bit 2 (of_nat (q_constraints q)),
      h264_MbWidth = of_nat (q_mbWidth q), h264_MbHeight = of_nat (q_mbHeight q),
      h264_CropLeft = of_nat l, h264_CropRight = of_nat r, h264_CropTop = of_nat t, h264_CropBottom = of_nat b,
      h264_SPSWidth = of_nat (q_mbWidth q) * 16 - of_nat l * 2 - of_nat r * 2,
      h264_SPSHeight = (if q_frameMbsOnly q then 1 else 2) * of_nat (q_mbHeight q) * 16 - of_nat t * 2 - of_nat b * 2,
      h264_SPSFPS = 0\<rparr>)"

lemma reads_pocType2: "reads skipPicOrderCnt () (ueBits 2)"
proof -
  have "reads (\<lambda>r. Option.bind (ReadExponentialGolombCode r) (\<lambda>(t, r).
     if t = 0 then ReadExponentialGolombCode r \<bind> (\<lambda>(_, r). Some ((), r))
     else if t = 1 then do {
       (_, r) \<leftarrow> ReadBit r;
       (_, r) \<leftarrow> ReadSE r;
       (_, r) \<leftarrow> ReadSE r;
       (n, r) \<leftarrow> ReadExponentialGolombCode r;
       skipSE (unat n) r
     } else Some ((), r))) () (ueBits 2 @ [])"
    by (rule reads_bind [OF reads_ue]) (simp_all add: reads_return)
  then show ?thesis
    by (simp add: skipPicOrderCnt_def [abs_def])
qed

lemma reads_crop:
  assumes "sps_ok q" and "cropOf q = (l, r, t, b)"
  shows "reads readCrop (of_nat l, of_nat r, of_nat t, of_nat b) (cropBits (q_crop q))"
proof (cases "q_crop q")
  case None
  then show ?thesis
    using assms(2) unfolding readCrop_def [abs_def] cropBits_def cropOf_def None
    by (simp add: reads_return, intro reads_bind_bit) (simp add: reads_return)
next
  case (Some c)
  then have c: "c = (l, r, t, b)"
    using assms(2) by (simp add: cropOf_def)
  have lt: "l + 1 < 2 ^ 33" "r + 1 < 2 ^ 33" "t + 1 < 2 ^ 33" "b + 1 < 2 ^ 33"
    using assms(1) Some c by (simp_all add: sps_ok_def)
  have "reads (\<lambda>r. do {
       (cropLeft, r) \<leftarrow> ReadExponentialGolombCode r;
       (cropRight, r) \<leftarrow> ReadExponentialGolombCode r;
       (cropTop, r) \<leftarrow> ReadExponentialGolombCode r;
       (cropBottom, r) \<leftarrow> ReadExponentialGolombCode r;
       Some ((cropLeft, cropRight, cropTop, cropBottom), r)
     }) (of_nat l, of_nat r, of_nat t, of_nat b) (ueBits l @ ueBits r @ ueBits t @ ueBits b @ [])"
    by (rule reads_bind [OF reads_ue [OF lt(1)]], rule reads_bind [OF reads_ue [OF lt(2)]],
        rule reads_bind [OF reads_ue [OF lt(3)]], rule reads_bind [OF reads_ue [OF lt(4)]], rule reads_return)
  then show ?thesis
    unfolding readCrop_def [abs_def] cropBits_def Some c
    by simp (intro reads_bind_bit, simp)
qed

lemma reads_finish:
  "reads (finishSPS s f) (s\<lparr>h264_SPSWidth := h264_MbWidth s * 16 - h264_CropLeft s * 2 - h264_CropRight s * 2,
       h264_SPSHeight := (2 - f) * h264_MbHeight s * 16 - h264_CropTop s * 2 - h264_CropBottom s * 2\<rparr>) [False]"
  unfolding finishSPS_def [abs_def] Let_def
  by (rule reads_bind_bit) (simp add: reads_return)

text \<open>The optional \<^verbatim>\<open>mb_adaptive_frame_field_flag\<close>.\<close>

lemma reads_mbaff:
  "reads (\<lambda>r. if of_bool f = (0 :: u64) then do { (_, r) \<leftarrow> ReadBit r; Some ((), r) } else Some ((), r)) ()
     (if f then [] else [x])"
  by (cases f) (simp_all add: reads_return, rule reads_bind_bit, rule reads_return)

lemma reads_SPS:
  assumes ok: "sps_ok q"
  shows "reads readSPS (spsInfo q) (spsBits q)"
proof -
  obtain l r t b where c: "cropOf q = (l, r, t, b)"
    by (cases "cropOf q") auto
  have v: "q_header q < 2 ^ 8" "q_profile q < 2 ^ 8" "q_constraints q < 2 ^ 8" "q_level q < 2 ^ 8"
    "q_id q + 1 < 2 ^ 33" "q_frameNum q + 1 < 2 ^ 33" "q_refFrames q + 1 < 2 ^ 33"
    "q_mbWidth q - 1 + 1 < 2 ^ 33" "q_mbHeight q - 1 + 1 < 2 ^ 33"
    and hp: "(of_nat (q_profile q) :: u64) \<notin> set highProfiles"
    and pos: "0 < q_mbWidth q" "0 < q_mbHeight q"
    using ok by (auto simp: sps_ok_def)
  have n8: "(8 :: nat) < 64"
    by simp
  have mb: "of_nat (q_mbWidth q - 1) + 1 = (of_nat (q_mbWidth q) :: u64)"
    "of_nat (q_mbHeight q - 1) + 1 = (of_nat (q_mbHeight q) :: u64)"
    using pos by (simp_all add: of_nat_diff)
  define s where "s = zero_h264_sps\<lparr>h264_ID := of_nat (q_id q), h264_ProfileIdc := of_nat (q_profile q),
    h264_LevelIdc := of_nat (q_level q), h264_ConstraintSetFlag := drop_bit 2 (of_nat (q_constraints q)),
    h264_MbWidth := of_nat (q_mbWidth q - 1) + 1, h264_MbHeight := of_nat (q_mbHeight q - 1) + 1,
    h264_CropLeft := of_nat l, h264_CropRight := of_nat r, h264_CropTop := of_nat t, h264_CropBottom := of_nat b\<rparr>"
  have info: "spsInfo q = s\<lparr>h264_SPSWidth := h264_MbWidth s * 16 - h264_CropLeft s * 2 - h264_CropRight s * 2,
    h264_SPSHeight := (2 - of_bool (q_frameMbsOnly q)) * h264_MbHeight s * 16 - h264_CropTop s * 2 - h264_CropBottom s * 2\<rparr>"
    unfolding s_def mb by (simp add: spsInfo_def c zero_h264_sps_def)
  show ?thesis
    unfolding readSPS_def [abs_def] spsBits_def
    apply (rule reads_bind [OF reads_bits [OF v(1) n8]])
    apply (rule reads_bind [OF reads_bits [OF v(2) n8]])
    apply (rule reads_bind [OF reads_bits [OF v(3) n8]])
    apply (rule reads_bind [OF reads_bits [OF v(4) n8]])
    apply (rule reads_bind [OF reads_ue [OF v(5)]])
    apply (simp only: hp if_False Option.bind.simps prod.case)
    apply (rule reads_bind [OF reads_ue [OF v(6)]])
    apply (rule reads_bind [OF reads_pocType2])
    apply (rule reads_bind [OF reads_ue [OF v(7)]])
    apply (rule reads_bind [OF reads_bit])
    apply (rule reads_bind [OF reads_ue [OF v(8)]])
    apply (rule reads_bind [OF reads_ue [OF v(9)]])
    apply (rule reads_bind [OF reads_bit])
    apply (rule reads_bind [OF reads_mbaff])
    apply (rule reads_bind [OF reads_bit])
    apply (rule reads_bind [OF reads_crop [OF ok c]])
    apply (simp only: prod.case info flip: s_def)
    apply (rule reads_finish)
    done
qed

lemma ParseSPS_syntax:
  assumes "sps_ok q" and "concat (map byteBits rbsp) = spsBits q @ trailing"
  shows "ParseSPS (insertEmulation 0 rbsp) = Some (spsInfo q)"
proof -
  have "bitsOf (newGolomb rbsp) = spsBits q @ trailing"
    using assms(2) by (simp add: bitsOf_newGolomb)
  then obtain s' where "readSPS (newGolomb rbsp) = Some (spsInfo q, s')"
    using reads_SPS [OF assms(1)] unfolding reads_def by blast
  then show ?thesis
    by (simp add: ParseSPS_def Remove_insert)
qed

subsection \<open>Properties\<close>

text \<open>
  \<^verbatim>\<open>RemoveH264orH265EmulationBytes\<close> undoes the emulation prevention of the H.264 and H.265 standards:
  for every payload, removing after inserting gives the payload back.
\<close>

theorem emulation_roundtrip: "RemoveH264orH265EmulationBytes (insertEmulation 0 rbsp) = rbsp"
  by (rule Remove_insert)

text \<open>
  A decoder configuration record with fewer than 32 SPS and 256 PPS of less than 64 KiB each is
  written and read back unchanged, and the reader consumes exactly \<^verbatim>\<open>Len\<close> bytes, which is what \<^verbatim>\<open>Marshal\<close>
  wrote.
\<close>

theorem avc_record_roundtrip:
  assumes "avc_ok s"
  shows "AVC_Unmarshal zero_avc_record (AVC_Marshal s) = Some (s, AVC_Len s) \<and> length (AVC_Marshal s) = AVC_Len s"
  using AVC_Unmarshal_Marshal [OF assms] AVC_Len_Marshal [of s] by simp

definition ex_avc :: avc_record where
  "ex_avc = \<lparr>AVCProfileIndication = 66, ProfileCompatibility = 192, AVCLevelIndication = 30,
     AVCLengthSizeMinusOne = 3, AVC_SPS = [[103, 66, 192, 30], [103, 77]], AVC_PPS = [[104, 206], []]\<rparr>"

theorem avc_record_roundtrip_witness:
  "AVC_Unmarshal zero_avc_record (AVC_Marshal ex_avc) = Some (ex_avc, 23)"
proof -
  have "avc_ok ex_avc" "AVC_Len ex_avc = 23"
    by (simp_all add: ex_avc_def avc_ok_def AVC_Len_def)
  then show ?thesis
    using avc_record_roundtrip [of ex_avc] by simp
qed

text \<open>
  C24.  A codec built from an SPS and a PPS is rebuilt, equal in every field, from its own decoder
  configuration record, which is what the containers store.
\<close>

theorem h264_codec_roundtrip:
  assumes "h264_NewCodecDataFromSPSAndPPS sps pps = Inr c" and "length sps < 2 ^ 16" and "length pps < 2 ^ 16"
  shows "h264_NewCodecDataFromAVCDecoderConfRecord (h264_Record c) = Inr c"
  using assms by (rule h264_record_roundtrip)

definition ex_sps :: bytes where
  "ex_sps = [103, 66, 192, 30, 0xDA, 0x05, 0x07, 0xE4]"

definition ex_sps_syntax :: sps_syntax where
  "ex_sps_syntax = \<lparr>q_header = 103, q_profile = 66, q_constraints = 192, q_level = 30, q_id = 0, q_frameNum = 0,
     q_refFrames = 1, q_gaps = False, q_mbWidth = 20, q_mbHeight = 15, q_frameMbsOnly = True, q_mbaff = False,
     q_direct8x8 = True, q_crop = None\<rparr>"



theorem h264_codec_roundtrip_witness:
  "\<exists>c. h264_NewCodecDataFromSPSAndPPS ex_sps [104, 206] = Inr c \<and>
    h264_NewCodecDataFromAVCDecoderConfRecord (h264_Record c) = Inr c"
proof -
  have "\<not> Option.is_none (ParseSPS ex_sps)"
    by code_simp
  then obtain i where "ParseSPS ex_sps = Some i"
    by (auto simp: Option.is_none_def)
  then obtain c where "h264_NewCodecDataFromSPSAndPPS ex_sps [104, 206] = Inr c"
    by (simp add: h264_NewCodecDataFromSPSAndPPS_def ex_sps_def Let_def)
  then show ?thesis
    using h264_codec_roundtrip [of ex_sps "[104, 206]" c] by (simp add: ex_sps_def)
qed

end
