(* ===== verification/Bits.thy ===== *)
theory Bits
  imports Golomb
begin

text \<open>
  \<^verbatim>\<open>Reader\<close> and \<^verbatim>\<open>Writer\<close> of \<^verbatim>\<open>av/utils/bits/bits.go\<close>: bit fields over a 64-bit staging word.  The reader runs
  over a \<^verbatim>\<open>bytes.Reader\<close>, the writer over a buffer that accepts everything.  Both are characterised by
  the bits they hold: \<open>readerBits\<close> are the bits still to be read, \<open>writerBits\<close> the bits written so far.
\<close>

record bitReader =
  br_R :: bytes
  br_n :: nat
  br_bits :: u64

definition newBitReader :: "bytes \<Rightarrow> bitReader" where
  "newBitReader data = \<lparr>br_R = data, br_n = 0, br_bits = 0\<rparr>"

text \<open>
  \<^verbatim>\<open>ReadBits64\<close>: a short read consumes what is there and fails.  For \<open>n \<le> 64\<close> the temporary of
  eight bytes is large enough.
\<close>

definition Reader_ReadBits64 :: "nat \<Rightarrow> bitReader \<Rightarrow> u64 option \<times> bitReader" where
  "Reader_ReadBits64 n s =
    (let want = (n - br_n s + 7) div 8;
         got = take want (br_R s);
         s1 = s\<lparr>br_R := drop want (br_R s)\<rparr> in
     if br_n s < n \<and> length got < want then (None, s1)
     else let s2 = (if br_n s < n
                then s1\<lparr>br_bits := foldl (\<lambda>w b. push_bit 8 w OR ucast b) (br_bits s) got,
                        br_n := br_n s + length got * 8\<rparr>
                else s);
              bits = drop_bit (br_n s2 - n) (br_bits s2)
          in (Some bits, s2\<lparr>br_bits := br_bits s2 XOR push_bit (br_n s2 - n) bits, br_n := br_n s2 - n\<rparr>))"

definition Reader_ReadBits :: "nat \<Rightarrow> bitReader \<Rightarrow> u64 option \<times> bitReader" where
  "Reader_ReadBits n s = Reader_ReadBits64 n s"

text \<open>The loop of \<^verbatim>\<open>Reader.Read\<close> for \<open>k\<close> more bytes: chunks of at most eight bytes.\<close>

function Reader_Read :: "nat \<Rightarrow> bitReader \<Rightarrow> bytes \<times> bool \<times> bitReader" where
  "Reader_Read k s =
    (if k = 0 then ([], True, s)
     else let want = min k 8 in
       case Reader_ReadBits64 (want * 8) s of
         (None, s') \<Rightarrow> ([], False, s')
       | (Some bits, s') \<Rightarrow>
           let chunk = map (\<lambda>i. ucast (drop_bit ((want - i - 1) * 8) bits)) [0..<want] in
           case Reader_Read (k - want) s' of
             (rest, ok, s'') \<Rightarrow> (chunk @ rest, ok, s''))"
  by pat_completeness auto
termination
  by (relation "measure fst") auto

record bitWriter =
  bw_W :: bytes
  bw_n :: nat
  bw_bits :: u64

definition newBitWriter :: bitWriter where
  "newBitWriter = \<lparr>bw_W = [], bw_n = 0, bw_bits = 0\<rparr>"

definition FlushBits :: "bitWriter \<Rightarrow> bitWriter" where
  "FlushBits s =
    (if bw_n s > 0
     then let bits = (if bw_n s mod 8 \<noteq> 0 then push_bit (8 - bw_n s mod 8) (bw_bits s) else bw_bits s);
              want = (bw_n s + 7) div 8
          in s\<lparr>bw_W := bw_W s @ map (\<lambda>i. ucast (drop_bit ((want - i - 1) * 8) bits)) [0..<want], bw_n := 0\<rparr>
     else s)"

definition WriteBits64 :: "u64 \<Rightarrow> nat \<Rightarrow> bitWriter \<Rightarrow> bitWriter" where
  "WriteBits64 bits0 n0 s0 =
    (let (bits, n, s) =
       (if bw_n s0 + n0 > 64
        then let move = 64 - bw_n s0;
                 s1 = (if move > 0
                       then s0\<lparr>bw_bits := push_bit move (bw_bits s0) OR drop_bit (n0 - move) bits0\<rparr> else s0);
                 s2 = FlushBits (s1\<lparr>bw_n := 64\<rparr>);
                 n1 = n0 - move
             in (if n1 > 0 \<and> n1 < 64 then bits0 AND (push_bit n1 1 - 1) else bits0, n1, s2)
        else (bits0, n0, s0))
     in s\<lparr>bw_bits := push_bit n (bw_bits s) OR bits, bw_n := bw_n s + n\<rparr>)"

definition WriteBits :: "u64 \<Rightarrow> nat \<Rightarrow> bitWriter \<Rightarrow> bitWriter" where
  "WriteBits bits n s = WriteBits64 bits n s"

definition Writer_Write :: "bytes \<Rightarrow> bitWriter \<Rightarrow> bitWriter" where
  "Writer_Write p s = foldl (\<lambda>s b. WriteBits64 (ucast b) 8 s) s p"

subsection \<open>Bit views\<close>

definition wordBits :: "nat \<Rightarrow> 'a::len word \<Rightarrow> bool list" where
  "wordBits k w = map (\<lambda>i. bit w (k - 1 - i)) [0..<k]"

definition readerBits :: "bitReader \<Rightarrow> bool list" where
  "readerBits s = wordBits (br_n s) (br_bits s) @ concat (map byteBits (br_R s))"

definition writerBits :: "bitWriter \<Rightarrow> bool list" where
  "writerBits s = concat (map byteBits (bw_W s)) @ wordBits (bw_n s) (bw_bits s)"

lemma length_wordBits [simp]: "length (wordBits k w) = k"
  by (simp add: wordBits_def)

lemma nth_wordBits: "i < k \<Longrightarrow> wordBits k w ! i = bit w (k - 1 - i)"
  by (simp add: wordBits_def)

lemma wordBits_0 [simp]: "wordBits 0 w = []"
  by (simp add: wordBits_def)

lemma byteBits_wordBits: "byteBits b = wordBits 8 b"
  by (simp add: byteBits_def wordBits_def)

definition lowOnly :: "nat \<Rightarrow> 'a::len word \<Rightarrow> bool" where
  "lowOnly k w \<longleftrightarrow> (\<forall>i \<ge> k. \<not> bit w i)"

lemma lowOnly_ucast [simp]: "lowOnly 8 (ucast (b :: byte) :: 'a::len word)"
  by (auto simp: lowOnly_def bit_simps dest: bit_imp_le_length)

lemma lowOnly_iff_take_bit: "lowOnly k w \<longleftrightarrow> take_bit k w = w" for w :: "'a::len word"
proof
  show "lowOnly k w \<Longrightarrow> take_bit k w = w"
    by (rule bit_word_eqI) (auto simp: lowOnly_def bit_simps, metis not_less)
  show "take_bit k w = w \<Longrightarrow> lowOnly k w"
    by (metis bit_take_bit_iff lowOnly_def not_less)
qed

lemma lowOnly_append: "lowOnly k v \<Longrightarrow> lowOnly n w \<Longrightarrow> lowOnly (k + n) (push_bit n v OR w)" for v w :: "'a::len word"
  by (auto simp: lowOnly_def bit_simps)

lemma wordBits_append:
  fixes v w :: "'a::len word"
  assumes "k + n \<le> LENGTH('a)" and "lowOnly n w"
  shows "wordBits (k + n) (push_bit n v OR w) = wordBits k v @ wordBits n w"
proof (rule nth_equalityI)
  fix i
  assume i: "i < length (wordBits (k + n) (push_bit n v OR w))"
  show "wordBits (k + n) (push_bit n v OR w) ! i = (wordBits k v @ wordBits n w) ! i"
  proof (cases "i < k")
    case True
    have e: "k + n - 1 - i = n + (k - 1 - i)"
      using True by simp
    show ?thesis
      using assms True i unfolding lowOnly_def by (auto simp: nth_wordBits nth_append bit_simps e)
  next
    case False
    have e: "n + k - Suc i = k + n - Suc i" "\<not> n \<le> k + n - Suc i"
      using False i by simp_all
    show ?thesis
      using assms False i by (simp add: nth_wordBits nth_append bit_simps e)
  qed
qed simp

lemma wordBits_split: "wordBits (k + n) w = wordBits k (drop_bit n w) @ wordBits n w" for w :: "'a::len word"
  by (rule nth_equalityI) (auto simp: nth_wordBits nth_append bit_simps ac_simps)

lemma wordBits_cong: "(\<And>i. i < k \<Longrightarrow> bit v i = bit w i) \<Longrightarrow> wordBits k v = wordBits k w"
  by (rule nth_equalityI) (auto simp: nth_wordBits)

lemma wordBits_Suc: "wordBits (Suc k) w = bit w k # wordBits k w"
  by (simp add: wordBits_def upt_conv_Cons map_Suc_upt [symmetric] comp_def del: upt_Suc)

lemma bitsWord_wordBits: "bitsWord (wordBits k w) = take_bit k w" for w :: "'a::len word"
proof (induction k)
  case (Suc k)
  have "push_bit k (of_bool (bit w k)) OR take_bit k w = take_bit (Suc k) w"
    by (rule bit_word_eqI) (auto simp: bit_simps less_Suc_eq bit_1_iff)
  then show ?case
    using Suc by (simp add: wordBits_Suc)
qed simp

lemma bitsWord_lowOnly: "lowOnly k w \<Longrightarrow> bitsWord (wordBits k w) = w" for w :: "'a::len word"
  by (simp add: bitsWord_wordBits lowOnly_iff_take_bit)

subsection \<open>Reading\<close>

definition reader_ok :: "bitReader \<Rightarrow> bool" where
  "reader_ok s \<longleftrightarrow> br_n s < 8 \<and> lowOnly (br_n s) (br_bits s)"

definition shiftIn :: "u64 \<Rightarrow> bytes \<Rightarrow> u64" where
  "shiftIn w bs = foldl (\<lambda>w b. push_bit 8 w OR ucast b) w bs"

lemma shiftIn_bits:
  "k + length bs * 8 \<le> 64 \<Longrightarrow> lowOnly k w \<Longrightarrow>
   wordBits (k + length bs * 8) (shiftIn w bs) = wordBits k w @ concat (map byteBits bs) \<and>
   lowOnly (k + length bs * 8) (shiftIn w bs)"
proof (induction bs arbitrary: k w)
  case (Cons b bs)
  have "wordBits (k + 8) (push_bit 8 w OR ucast b) = wordBits k w @ wordBits 8 (ucast b :: u64)"
    using Cons.prems(1) by (intro wordBits_append) simp_all
  moreover have "wordBits 8 (ucast b :: u64) = byteBits b"
    unfolding byteBits_wordBits by (rule nth_equalityI) (auto simp: nth_wordBits bit_simps)
  moreover have "lowOnly (k + 8) (push_bit 8 w OR ucast b)"
    using Cons.prems(2) by (intro lowOnly_append) simp_all
  ultimately show ?case
    using Cons.IH [of "k + 8" "push_bit 8 w OR ucast b"] Cons.prems(1) by (simp add: ac_simps shiftIn_def)
qed (simp add: shiftIn_def)

lemma take_low:
  "wordBits m (w XOR push_bit m (drop_bit m w)) = wordBits m w"
  "lowOnly m (w XOR push_bit m (drop_bit m w))" for w :: "'a::len word"
proof -
  show "wordBits m (w XOR push_bit m (drop_bit m w)) = wordBits m w"
    by (rule wordBits_cong) (simp add: bit_simps)
  show "lowOnly m (w XOR push_bit m (drop_bit m w))"
    by (auto simp: lowOnly_def bit_simps dest: bit_imp_le_length)
qed

lemma length_byteBits [simp]: "length (concat (map byteBits bs)) = 8 * length bs"
  by (induction bs) (simp_all add: byteBits_def)

text \<open>After refilling, the staging word holds at least \<open>n\<close> and fewer than \<open>n + 8\<close> bits.\<close>

definition refill :: "nat \<Rightarrow> bitReader \<Rightarrow> bitReader" where
  "refill n s =
    (if br_n s < n
     then let want = (n - br_n s + 7) div 8 in
       s\<lparr>br_R := drop want (br_R s), br_bits := shiftIn (br_bits s) (take want (br_R s)), br_n := br_n s + want * 8\<rparr>
     else s)"

lemma refill_bits:
  assumes ok: "reader_ok s" and n: "n \<le> 57" and enough: "n \<le> length (readerBits s)"
  shows "readerBits (refill n s) = readerBits s" and "lowOnly (br_n (refill n s)) (br_bits (refill n s))"
    and "n \<le> br_n (refill n s)" and "br_n (refill n s) < n + 8"
    and "br_n s < n \<Longrightarrow> (n - br_n s + 7) div 8 \<le> length (br_R s)"
proof -
  define want where "want = (n - br_n s + 7) div 8"
  have e: "n \<le> br_n s + 8 * length (br_R s)"
    using enough by (simp add: readerBits_def)
  have w: "br_n s < n \<Longrightarrow> want \<le> length (br_R s)" and w8: "br_n s < n \<Longrightarrow> br_n s + want * 8 < n + 8"
    and w0: "br_n s < n \<Longrightarrow> n \<le> br_n s + want * 8"
    using e unfolding want_def by linarith+
  show "br_n s < n \<Longrightarrow> (n - br_n s + 7) div 8 \<le> length (br_R s)"
    using w unfolding want_def .
  show "n \<le> br_n (refill n s)" "br_n (refill n s) < n + 8"
    using w0 w8 ok unfolding refill_def Let_def want_def [symmetric] by (auto simp: reader_ok_def)
  have sh: "wordBits (br_n s + want * 8) (shiftIn (br_bits s) (take want (br_R s))) =
      wordBits (br_n s) (br_bits s) @ concat (map byteBits (take want (br_R s))) \<and>
    lowOnly (br_n s + want * 8) (shiftIn (br_bits s) (take want (br_R s)))" if "br_n s < n"
    using shiftIn_bits [of "br_n s" "take want (br_R s)" "br_bits s"] w w8 that n ok
    by (simp add: reader_ok_def min_absorb2)
  show "lowOnly (br_n (refill n s)) (br_bits (refill n s))"
    using sh ok unfolding refill_def Let_def want_def [symmetric] by (auto simp: reader_ok_def)
  show "readerBits (refill n s) = readerBits s"
    using sh unfolding refill_def Let_def want_def [symmetric] readerBits_def
    by (auto simp flip: concat_append map_append)
qed

lemma ReadBits64_refill:
  assumes ok: "reader_ok s" and n: "n \<le> 57" and enough: "n \<le> length (readerBits s)"
  defines "s2 \<equiv> refill n s" and "m \<equiv> br_n (refill n s) - n"
  shows "Reader_ReadBits64 n s = (Some (drop_bit m (br_bits s2)),
     s2\<lparr>br_bits := br_bits s2 XOR push_bit m (drop_bit m (br_bits s2)), br_n := m\<rparr>)"
  using refill_bits(5) [OF ok n enough]
  by (simp add: Reader_ReadBits64_def s2_def m_def refill_def Let_def shiftIn_def min_absorb2)

lemma ReadBits64_bits:
  assumes ok: "reader_ok s" and n: "n \<le> 57" and b: "readerBits s = bs @ rest" and len: "length bs = n"
  shows "\<exists>s'. Reader_ReadBits64 n s = (Some (bitsWord bs), s') \<and> readerBits s' = rest \<and> reader_ok s'"
proof -
  define s2 where "s2 = refill n s"
  define m where "m = br_n s2 - n"
  have enough: "n \<le> length (readerBits s)"
    using b len by simp
  note r = refill_bits [OF ok n enough, folded s2_def]
  have n2: "br_n s2 = n + m"
    using r(3) by (simp add: m_def)
  have sp: "wordBits (br_n s2) (br_bits s2) = wordBits n (drop_bit m (br_bits s2)) @ wordBits m (br_bits s2)"
    unfolding n2 by (rule wordBits_split)
  have "wordBits n (drop_bit m (br_bits s2)) @ wordBits m (br_bits s2) @ concat (map byteBits (br_R s2)) = bs @ rest"
    using r(1) b sp by (simp add: readerBits_def)
  then have bs: "wordBits n (drop_bit m (br_bits s2)) = bs"
    and rest: "wordBits m (br_bits s2) @ concat (map byteBits (br_R s2)) = rest"
    using len by (simp_all add: append_eq_append_conv)
  have "lowOnly n (drop_bit m (br_bits s2))"
    using r(2) by (auto simp: lowOnly_def bit_simps n2)
  then have v: "drop_bit m (br_bits s2) = bitsWord bs"
    using bs bitsWord_lowOnly by metis
  have "m < 8"
    using r(3,4) by (simp add: m_def)
  then show ?thesis
    using ReadBits64_refill [OF ok n enough, folded s2_def, folded m_def] take_low [of m "br_bits s2"] rest
    by (simp add: readerBits_def reader_ok_def v)
qed

subsection \<open>Writing\<close>

definition writer_ok :: "bitWriter \<Rightarrow> bool" where
  "writer_ok s \<longleftrightarrow> bw_n s \<le> 64"

definition bytesOf :: "nat \<Rightarrow> u64 \<Rightarrow> bytes" where
  "bytesOf want bits = map (\<lambda>i. ucast (drop_bit ((want - i - 1) * 8) bits)) [0..<want]"

lemma byteBits_ucast: "byteBits (ucast w) = wordBits 8 w" for w :: u64
  unfolding byteBits_wordBits by (rule wordBits_cong) (simp add: bit_simps)

lemma bytesOf_bits: "concat (map byteBits (bytesOf want bits)) = wordBits (want * 8) bits"
proof (induction want)
  case (Suc want)
  have "bytesOf (Suc want) bits = ucast (drop_bit (want * 8) bits) # bytesOf want bits"
    by (rule nth_equalityI) (auto simp: bytesOf_def nth_Cons simp del: upt_Suc split: nat.split)
  then have "concat (map byteBits (bytesOf (Suc want) bits)) =
      wordBits 8 (drop_bit (want * 8) bits) @ wordBits (want * 8) bits"
    using Suc.IH by (simp add: byteBits_ucast)
  also have "\<dots> = wordBits (Suc want * 8) bits"
    unfolding mult_Suc by (rule wordBits_split [symmetric])
  finally show ?case .
qed (simp add: bytesOf_def)

lemma div8_pad: "(n + 7) div 8 * 8 = n + (8 - n mod 8) mod 8" for n :: nat
proof -
  define q r where "q = n div 8" and "r = n mod 8"
  have n: "n = r + 8 * q" and r: "r < 8"
    by (simp_all add: q_def r_def)
  have "(r + 7) div 8 * 8 = r + (8 - r) mod 8"
    using r by (cases "r = 0") (simp_all add: div_nat_eqI)
  moreover have "(n + 7) div 8 = (r + 7) div 8 + q"
    using div_mult_self2 [of 8 "r + 7" q] by (simp add: n add.commute add.left_commute)
  ultimately show ?thesis
    by (simp add: r_def [symmetric]) (simp add: n)
qed

lemma FlushBits_bits:
  assumes "writer_ok s"
  shows "writerBits (FlushBits s) = writerBits s @ replicate ((8 - bw_n s mod 8) mod 8) False"
    and "bw_n (FlushBits s) = 0"
proof -
  define pad where "pad = (8 - bw_n s mod 8) mod 8"
  have pad: "(bw_n s + 7) div 8 * 8 = bw_n s + pad"
    unfolding pad_def by (rule div8_pad)
  have shift: "(if bw_n s mod 8 \<noteq> 0 then push_bit (8 - bw_n s mod 8) (bw_bits s) else bw_bits s) = push_bit pad (bw_bits s) OR 0"
    unfolding pad_def by simp
  have "(bw_n s + 7) div 8 \<le> 8"
    using assms unfolding writer_ok_def by linarith
  then have "bw_n s + pad \<le> 64"
    using pad by linarith
  then have "wordBits (bw_n s + pad) (push_bit pad (bw_bits s) OR 0) = wordBits (bw_n s) (bw_bits s) @ wordBits pad (0 :: u64)"
    by (intro wordBits_append) (simp_all add: lowOnly_def)
  moreover have "wordBits pad (0 :: u64) = replicate pad False"
    by (simp add: wordBits_def map_replicate_const)
  ultimately show "writerBits (FlushBits s) = writerBits s @ replicate ((8 - bw_n s mod 8) mod 8) False"
    unfolding FlushBits_def writerBits_def Let_def shift bytesOf_def [symmetric] pad_def [symmetric]
    by (auto simp: bytesOf_bits pad) (simp add: pad_def)
  show "bw_n (FlushBits s) = 0"
    by (simp add: FlushBits_def Let_def)
qed

lemma lowOnly_mask: "n < 64 \<Longrightarrow> lowOnly n (v AND (push_bit n 1 - 1))" for v :: u64
  by (auto simp: lowOnly_def bit_simps simp flip: mask_eq_exp_minus_1 push_bit_eq_mult)

lemma WriteBits64_bits:
  assumes ok: "writer_ok s" and n: "n \<le> 64" and v: "lowOnly n v"
  shows "writerBits (WriteBits64 v n s) = writerBits s @ wordBits n v \<and> writer_ok (WriteBits64 v n s)"
proof (cases "bw_n s + n > 64")
  case False
  then show ?thesis
    using wordBits_append [of "bw_n s" n v "bw_bits s"] v
    by (simp add: WriteBits64_def writerBits_def writer_ok_def)
next
  case True
  define move where "move = 64 - bw_n s"
  define n1 where "n1 = n - move"
  define full where "full = push_bit move (bw_bits s) OR drop_bit n1 v"
  define s2 where "s2 = FlushBits (s\<lparr>bw_bits := full, bw_n := 64\<rparr>)"
  define low where "low = (if n1 > 0 \<and> n1 < 64 then v AND (push_bit n1 1 - 1) else v)"
  have k: "bw_n s + move = 64" "n = move + n1" "0 < n1" "n1 \<le> 64"
    using ok True n by (auto simp: writer_ok_def move_def n1_def)
  have "lowOnly move (drop_bit n1 v)"
    using v by (auto simp: lowOnly_def bit_simps k(2))
  then have "wordBits 64 full = wordBits (bw_n s) (bw_bits s) @ wordBits move (drop_bit n1 v)"
    using wordBits_append [of "bw_n s" move "drop_bit n1 v" "bw_bits s"] k(1) by (simp add: full_def)
  then have b2: "writerBits s2 = writerBits s @ wordBits move (drop_bit n1 v)" and n2: "bw_n s2 = 0"
    using FlushBits_bits [of "s\<lparr>bw_bits := full, bw_n := 64\<rparr>"]
    by (simp_all add: s2_def writer_ok_def writerBits_def)
  have low: "lowOnly n1 low" "wordBits n1 low = wordBits n1 v"
    using k(3,4) lowOnly_mask [of n1 v]
    by (auto simp: low_def lowOnly_def dest: bit_imp_le_length intro!: wordBits_cong
        simp: bit_simps simp flip: mask_eq_exp_minus_1 push_bit_eq_mult)
  have "drop_bit n v = 0"
    using v by (intro bit_word_eqI) (simp add: lowOnly_def bit_simps)
  then have s1: "(if 0 < move then s\<lparr>bw_bits := push_bit move (bw_bits s) OR drop_bit n1 v\<rparr> else s)\<lparr>bw_n := 64\<rparr> =
      s\<lparr>bw_bits := full, bw_n := 64\<rparr>"
    using k(2) by (auto simp: full_def)
  have "WriteBits64 v n s = s2\<lparr>bw_bits := push_bit n1 (bw_bits s2) OR low, bw_n := n1\<rparr>"
    using True n2 unfolding WriteBits64_def Let_def move_def [symmetric] n1_def [symmetric] s1 s2_def [symmetric]
      low_def [symmetric] by simp
  moreover have "wordBits n1 (push_bit n1 (bw_bits s2) OR low) = wordBits n1 v"
    using wordBits_append [of 0 n1 low "bw_bits s2"] low k(4) by simp
  moreover have "wordBits n v = wordBits move (drop_bit n1 v) @ wordBits n1 v"
    unfolding k(2) by (rule wordBits_split)
  ultimately show ?thesis
    using b2 n2 k(4) by (simp add: writerBits_def writer_ok_def)
qed

subsection \<open>Bit sources and bit sinks\<close>

text \<open>
  What a parser of fixed-width fields relies on: reading \<open>n\<close> bits returns the next \<open>n\<close> bits of the
  view as a number, most significant first, and removes them.  Both bit readers of the repository
  provide it, with different widths.
\<close>

definition fieldsBits :: "(nat \<times> u64) list \<Rightarrow> bool list" where
  "fieldsBits fs = concat (map (\<lambda>(n, v). wordBits n v) fs)"

definition fields_ok :: "nat \<Rightarrow> (nat \<times> u64) list \<Rightarrow> bool" where
  "fields_ok limit fs \<longleftrightarrow> (\<forall>(n, v) \<in> set fs. n \<le> limit \<and> lowOnly n v)"

primrec readFields :: "(nat \<Rightarrow> 's \<Rightarrow> (u64 \<times> 's) option) \<Rightarrow> nat list \<Rightarrow> 's \<Rightarrow> (u64 list \<times> 's) option" where
  "readFields rd [] s = Some ([], s)"
| "readFields rd (n # ns) s =
    Option.bind (rd n s) (\<lambda>(v, s1). map_option (apfst ((#) v)) (readFields rd ns s1))"

lemma fieldsBits_simps [simp]:
  "fieldsBits [] = []" "fieldsBits ((n, v) # fs) = wordBits n v @ fieldsBits fs"
  by (simp_all add: fieldsBits_def)

locale bit_source =
  fixes rd :: "nat \<Rightarrow> 's \<Rightarrow> (u64 \<times> 's) option" and view :: "'s \<Rightarrow> bool list" and ok :: "'s \<Rightarrow> bool"
    and limit :: nat
  assumes rd_bits: "ok s \<Longrightarrow> length bs \<le> limit \<Longrightarrow> view s = bs @ rest \<Longrightarrow>
    \<exists>s'. rd (length bs) s = Some (bitsWord bs, s') \<and> view s' = rest \<and> ok s'"
begin

lemma rd_word:
  assumes "ok s" and "n \<le> limit" and "lowOnly n v" and "view s = wordBits n v @ rest"
  shows "\<exists>s'. rd n s = Some (v, s') \<and> view s' = rest \<and> ok s'"
  using rd_bits [of s "wordBits n v" rest] bitsWord_lowOnly [OF assms(3)] assms(1,2,4) by auto

lemma read_fields:
  "ok s \<Longrightarrow> fields_ok limit fs \<Longrightarrow> view s = fieldsBits fs @ rest \<Longrightarrow>
   \<exists>s'. readFields rd (map fst fs) s = Some (map snd fs, s') \<and> view s' = rest \<and> ok s'"
proof (induction fs arbitrary: s)
  case (Cons f fs)
  obtain n v where f: "f = (n, v)"
    by force
  obtain s1 where "rd n s = Some (v, s1)" "view s1 = fieldsBits fs @ rest" "ok s1"
    using Cons.prems f rd_word [of s n v "fieldsBits fs @ rest"] by (auto simp: fields_ok_def)
  then show ?case
    using Cons.IH [of s1] Cons.prems(2) f by (auto simp: fields_ok_def)
qed simp

end

locale bit_sink =
  fixes wr :: "u64 \<Rightarrow> nat \<Rightarrow> 'w \<Rightarrow> 'w" and out :: "'w \<Rightarrow> bool list" and good :: "'w \<Rightarrow> bool" and width :: nat
  assumes wr_bits: "good w \<Longrightarrow> n \<le> width \<Longrightarrow> lowOnly n v \<Longrightarrow> out (wr v n w) = out w @ wordBits n v \<and> good (wr v n w)"
begin

lemma write_fields:
  "good w \<Longrightarrow> fields_ok width fs \<Longrightarrow>
   out (foldl (\<lambda>w (n, v). wr v n w) w fs) = out w @ fieldsBits fs \<and> good (foldl (\<lambda>w (n, v). wr v n w) w fs)"
proof (induction fs arbitrary: w)
  case (Cons f fs)
  then show ?case
    using wr_bits [of w "fst f" "snd f"] by (cases f) (auto simp: fields_ok_def)
qed simp

end

text \<open>A sink and a source joined by a transport that hands over the bits written, up to padding.\<close>

locale bit_channel = bit_source rd view ok limit + bit_sink wr out good limit
  for rd :: "nat \<Rightarrow> 's \<Rightarrow> (u64 \<times> 's) option" and view ok limit
    and wr :: "u64 \<Rightarrow> nat \<Rightarrow> 'w \<Rightarrow> 'w" and out good +
  fixes transport :: "'w \<Rightarrow> 's"
  assumes transport: "good w \<Longrightarrow> \<exists>pad. view (transport w) = out w @ pad \<and> ok (transport w)"
begin

lemma fields_roundtrip:
  assumes "good w" and "out w = []" and "fields_ok limit fs"
  shows "\<exists>s'. readFields rd (map fst fs) (transport (foldl (\<lambda>w (n, v). wr v n w) w fs)) = Some (map snd fs, s')"
proof -
  define w' where "w' = foldl (\<lambda>w (n, v). wr v n w) w fs"
  have "good w'" "out w' = fieldsBits fs"
    using write_fields [of w fs] assms by (simp_all add: w'_def)
  then obtain pad where "view (transport w') = fieldsBits fs @ pad" "ok (transport w')"
    using transport by metis
  then show ?thesis
    using read_fields [of "transport w'" fs pad] assms(3) by (auto simp: w'_def)
qed

end

definition nextBits :: "nat \<Rightarrow> bitReader \<Rightarrow> (u64 \<times> bitReader) option" where
  "nextBits n s = (case Reader_ReadBits n s of (None, _) \<Rightarrow> None | (Some v, s') \<Rightarrow> Some (v, s'))"

definition handOver :: "bitWriter \<Rightarrow> bitReader" where
  "handOver w = newBitReader (bw_W (FlushBits w))"

interpretation bch: bit_channel nextBits readerBits reader_ok 57 WriteBits writerBits writer_ok handOver
proof unfold_locales
  show "\<exists>s'. nextBits (length bs) s = Some (bitsWord bs, s') \<and> readerBits s' = rest \<and> reader_ok s'"
    if "reader_ok s" "length bs \<le> 57" "readerBits s = bs @ rest" for s bs rest
    using ReadBits64_bits [OF that refl] by (auto simp: nextBits_def Reader_ReadBits_def)
  show "writerBits (WriteBits v n w) = writerBits w @ wordBits n v \<and> writer_ok (WriteBits v n w)"
    if "writer_ok w" "n \<le> 57" "lowOnly n v" for w n v
    using WriteBits64_bits [of w n v] that by (simp add: WriteBits_def)
  show "\<exists>pad. readerBits (handOver w) = writerBits w @ pad \<and> reader_ok (handOver w)" if "writer_ok w" for w
    using FlushBits_bits [OF that]
    by (auto simp: handOver_def newBitReader_def readerBits_def writerBits_def reader_ok_def lowOnly_def)
qed

interpretation gsrc: bit_source ReadBits bitsOf "\<lambda>_. True" 63
proof unfold_locales
  show "\<exists>s'. ReadBits (length bs) s = Some (bitsWord bs, s') \<and> bitsOf s' = rest \<and> True"
    if "length bs \<le> 63" "bitsOf s = bs @ rest" for s bs rest
    using ReadBits_bits [of s bs rest] that by auto
qed

subsection \<open>Properties\<close>

text \<open>
  Bit fields survive the trip through \<^verbatim>\<open>bits.Writer\<close> and \<^verbatim>\<open>bits.Reader\<close>: after any sequence of
  \<^verbatim>\<open>WriteBits\<close> calls with widths of at most 57 bits and values that fit, followed by \<^verbatim>\<open>FlushBits\<close>, a reader
  over the bytes written returns the same values for the same widths, across every refill and every
  flush of the 64-bit staging words.
\<close>

theorem bits_roundtrip:
  assumes "fields_ok 57 fs"
  shows "\<exists>s'. readFields nextBits (map fst fs) (newBitReader (bw_W (FlushBits
      (foldl (\<lambda>w (n, v). WriteBits v n w) newBitWriter fs)))) = Some (map snd fs, s')"
  using bch.fields_roundtrip [OF _ _ assms, of newBitWriter]
  by (simp add: handOver_def newBitWriter_def writer_ok_def writerBits_def)

theorem bits_roundtrip_witness:
  "\<exists>s'. readFields nextBits [5, 57, 13] (newBitReader (bw_W (FlushBits
      (WriteBits 4097 13 (WriteBits 1 57 (WriteBits 21 5 newBitWriter)))))) = Some ([21, 1, 4097], s')"
proof -
  have "lowOnly 5 (21 :: u64)" "lowOnly 57 (1 :: u64)" "lowOnly 13 (4097 :: u64)"
    by (simp_all add: lowOnly_iff_take_bit)
  then have "fields_ok 57 [(5, 21), (57, 1), (13, 4097)]"
    by (simp add: fields_ok_def)
  from bits_roundtrip [OF this] show ?thesis
    by simp
qed

end
