(* ===== verification/H265.thy ===== *)
theory H265
  imports H264_Sps Bits
begin

unbundle bit_operations_syntax

text \<open>
  \<^verbatim>\<open>av/codec/h265parser\<close>: the SPS parser (\<^verbatim>\<open>sps.go\<close>), the HEVC decoder configuration record and the codec
  descriptor (\<^verbatim>\<open>codec_data.go\<close>).  The SPS parser fails at the end of its data, except in the VUI,
  where the code ignores read errors; a division by a wrapped zero in the VUI is the result
  \<open>H265_DividePanic\<close>.
\<close>

datatype h265_error = H265_InvalidSPS | H265_SPSNotFound | H265_PPSNotFound | H265_VPSNotFound |
  H265_SPSParseFailed | H265_DecconfInvalid | H265_EOF | H265_IncorrectUnitSize | H265_DividePanic

subsection \<open>The sequence parameter set\<close>

fun nal2rbsp :: "bytes \<Rightarrow> bytes" where
  "nal2rbsp (a # b # c # rest) =
    (if a = 0 \<and> b = 0 \<and> c = 3 then [0, 0] @ nal2rbsp rest else a # nal2rbsp (b # c # rest))"
| "nal2rbsp nal = nal"

definition zero_h265_sps :: h265_sps_info where
  "zero_h265_sps = \<lparr>h265_ProfileIdc = 0, h265_LevelIdc = 0, h265_MbWidth = 0, h265_MbHeight = 0,
     h265_CropLeft = 0, h265_CropRight = 0, h265_CropTop = 0, h265_CropBottom = 0, h265_SPSWidth = 0,
     h265_SPSHeight = 0, h265_numTemporalLayers = 0, h265_temporalIDNested = 0, h265_chromaFormat = 0,
     h265_PicWidthInLumaSamples = 0, h265_PicHeightInLumaSamples = 0, h265_bitDepthLumaMinus8 = 0,
     h265_bitDepthChromaMinus8 = 0, h265_generalProfileSpace = 0, h265_generalTierFlag = 0,
     h265_generalProfileIDC = 0, h265_generalProfileCompatibilityFlags = 0,
     h265_generalConstraintIndicatorFlags = 0, h265_generalLevelIDC = 0, h265_fps = 0\<rparr>"

definition updatePTL :: "h265_sps_info \<Rightarrow> h265_sps_info \<Rightarrow> h265_sps_info" where
  "updatePTL ctx ptl =
    (let c1 = ctx\<lparr>h265_generalProfileSpace := h265_generalProfileSpace ptl\<rparr>;
         c2 = (if h265_generalTierFlag ptl > h265_generalTierFlag c1
               then c1\<lparr>h265_generalLevelIDC := h265_generalLevelIDC ptl, h265_generalTierFlag := h265_generalTierFlag ptl\<rparr>
               else if h265_generalLevelIDC ptl > h265_generalLevelIDC c1
               then c1\<lparr>h265_generalLevelIDC := h265_generalLevelIDC ptl\<rparr> else c1);
         c3 = (if h265_generalProfileIDC ptl > h265_generalProfileIDC c2
               then c2\<lparr>h265_generalProfileIDC := h265_generalProfileIDC ptl\<rparr> else c2)
     in c3\<lparr>h265_generalProfileCompatibilityFlags :=
            h265_generalProfileCompatibilityFlags c3 OR h265_generalProfileCompatibilityFlags ptl,
          h265_generalConstraintIndicatorFlags :=
            h265_generalConstraintIndicatorFlags c3 OR h265_generalConstraintIndicatorFlags ptl\<rparr>)"

fun readSubLayerFlags :: "nat \<Rightarrow> golomb \<Rightarrow> ((u64 \<times> u64) list \<times> golomb) option" where
  "readSubLayerFlags 0 br = Some ([], br)"
| "readSubLayerFlags (Suc n) br = do {
     (profilePresent, br) \<leftarrow> ReadBit br;
     (levelPresent, br) \<leftarrow> ReadBit br;
     (rest, br) \<leftarrow> readSubLayerFlags n br;
     Some ((profilePresent, levelPresent) # rest, br)
   }"

fun skipReserved :: "nat \<Rightarrow> golomb \<Rightarrow> (unit \<times> golomb) option" where
  "skipReserved 0 br = Some ((), br)"
| "skipReserved (Suc n) br = do { (_, br) \<leftarrow> ReadBits 2 br; skipReserved n br }"

fun skipSubLayers :: "(u64 \<times> u64) list \<Rightarrow> golomb \<Rightarrow> (unit \<times> golomb) option" where
  "skipSubLayers [] br = Some ((), br)"
| "skipSubLayers ((profilePresent, levelPresent) # rest) br = do {
     (_, br) \<leftarrow> (if profilePresent \<noteq> 0
        then do { (_, br) \<leftarrow> ReadBits32 32 br; (_, br) \<leftarrow> ReadBits32 32 br; (_, br) \<leftarrow> ReadBits32 24 br; Some ((), br) }
        else Some ((), br));
     (_, br) \<leftarrow> (if levelPresent \<noteq> 0 then do { (_, br) \<leftarrow> ReadBits 8 br; Some ((), br) } else Some ((), br));
     skipSubLayers rest br
   }"

definition parsePTL :: "h265_sps_info \<Rightarrow> u64 \<Rightarrow> golomb \<Rightarrow> (h265_sps_info \<times> golomb) option" where
  "parsePTL ctx maxSubLayersMinus1 br = do {
     (profileSpace, br) \<leftarrow> ReadBits 2 br;
     (tierFlag, br) \<leftarrow> ReadBit br;
     (profileIDC, br) \<leftarrow> ReadBits 5 br;
     (compatibility, br) \<leftarrow> ReadBits32 32 br;
     (constraints, br) \<leftarrow> ReadBits64 48 br;
     (levelIDC, br) \<leftarrow> ReadBits 8 br;
     ctx \<leftarrow> Some (updatePTL ctx (zero_h265_sps\<lparr>h265_generalProfileSpace := profileSpace,
       h265_generalTierFlag := tierFlag, h265_generalProfileIDC := profileIDC,
       h265_generalProfileCompatibilityFlags := compatibility,
       h265_generalConstraintIndicatorFlags := constraints, h265_generalLevelIDC := levelIDC\<rparr>));
     if maxSubLayersMinus1 = 0 then Some (ctx, br)
     else do {
       (flags, br) \<leftarrow> readSubLayerFlags (unat maxSubLayersMinus1) br;
       (_, br) \<leftarrow> skipReserved (8 - unat maxSubLayersMinus1) br;
       (_, br) \<leftarrow> skipSubLayers flags br;
       Some (ctx, br)
     }
   }"

text \<open>
  In the VUI the code drops every error.  A read that fails returns zero, except \<^verbatim>\<open>ReadBits32\<close>, which
  returns the bits it got, and leaves the reader at the end of its data.
\<close>

definition lenient :: "(golomb \<Rightarrow> (u64 \<times> golomb) option) \<Rightarrow> golomb \<Rightarrow> u64 \<times> golomb" where
  "lenient rd br = (case rd br of Some r \<Rightarrow> r | None \<Rightarrow> (0, br\<lparr>gr_R := [], gr_left := 0\<rparr>))"

fun lenientBits32 :: "nat \<Rightarrow> u32 \<Rightarrow> golomb \<Rightarrow> u32 \<times> golomb" where
  "lenientBits32 0 r br = (r, br)"
| "lenientBits32 (Suc n) r br =
    (case ReadBit br of
       None \<Rightarrow> (r, br)
     | Some (t, br') \<Rightarrow> lenientBits32 n (push_bit 1 r OR ucast t) br')"

definition skipLenient :: "(golomb \<Rightarrow> (u64 \<times> golomb) option) \<Rightarrow> nat \<Rightarrow> golomb \<Rightarrow> golomb" where
  "skipLenient rd n br = ((\<lambda>br. snd (lenient rd br)) ^^ n) br"

definition lenientFlag :: "(golomb \<Rightarrow> golomb) \<Rightarrow> golomb \<Rightarrow> golomb" where
  "lenientFlag body br = (case lenient ReadBit br of (flag, br) \<Rightarrow> if flag \<noteq> 0 then body br else br)"

definition skipVUIFields :: "golomb \<Rightarrow> golomb" where
  "skipVUIFields br0 =
    (let br1 = lenientFlag (\<lambda>br. case lenient (ReadBits 8) br of (aspectRatioIdc, br) \<Rightarrow>
           if aspectRatioIdc = 255 then skipLenient (ReadBits 16) 2 br else br) br0;
         br2 = lenientFlag (skipLenient ReadBit 1) br1;
         br3 = lenientFlag (\<lambda>br. lenientFlag (skipLenient (ReadBits 8) 3)
           (skipLenient ReadBit 1 (skipLenient (ReadBits 3) 1 br))) br2;
         br4 = lenientFlag (skipLenient ReadExponentialGolombCode 2) br3;
         br5 = skipLenient ReadBit 3 br4
     in lenientFlag (skipLenient ReadExponentialGolombCode 4) br5)"

definition h265_parseVUI :: "h265_sps_info \<Rightarrow> golomb \<Rightarrow> h265_sps_info option" where
  "h265_parseVUI info br0 =
    (case lenient ReadBit (skipVUIFields br0) of (vuiTimingInfoPresentFlag, br) \<Rightarrow>
       if vuiTimingInfoPresentFlag \<noteq> 0
       then case lenientBits32 32 0 br of (numUnitsInTick, br) \<Rightarrow>
         case lenientBits32 32 0 br of (timeScale, br) \<Rightarrow>
           if numUnitsInTick > 0
           then if 2 * numUnitsInTick = 0 then None
                else Some (info\<lparr>h265_fps := ucast (timeScale div (2 * numUnitsInTick))\<rparr>)
           else Some info
       else Some info)"

fun skipUE :: "nat \<Rightarrow> golomb \<Rightarrow> (unit \<times> golomb) option" where
  "skipUE 0 br = Some ((), br)"
| "skipUE (Suc n) br = do { (_, br) \<leftarrow> ReadExponentialGolombCode br; skipUE n br }"

text \<open>\<^verbatim>\<open>ParseSPS\<close> up to the VUI; the second result is \<^verbatim>\<open>vuiParametersPresentFlag\<close>.\<close>

definition readHevcSPS :: "golomb \<Rightarrow> ((h265_sps_info \<times> u64) \<times> golomb) option" where
  "readHevcSPS br = do {
     (_, br) \<leftarrow> ReadBits 4 br;
     (maxSubLayersMinus1, br) \<leftarrow> ReadBits 3 br;
     (temporalIDNested, br) \<leftarrow> ReadBit br;
     (info, br) \<leftarrow> parsePTL (zero_h265_sps\<lparr>
         h265_numTemporalLayers := (if maxSubLayersMinus1 + 1 > 0 then maxSubLayersMinus1 + 1 else 0),
         h265_temporalIDNested := temporalIDNested\<rparr>) maxSubLayersMinus1 br;
     (_, br) \<leftarrow> ReadExponentialGolombCode br;
     (chromaFormat, br) \<leftarrow> ReadExponentialGolombCode br;
     (_, br) \<leftarrow> (if chromaFormat = 3 then do { (_, br) \<leftarrow> ReadBit br; Some ((), br) } else Some ((), br));
     (width, br) \<leftarrow> ReadExponentialGolombCode br;
     (height, br) \<leftarrow> ReadExponentialGolombCode br;
     (_, br) \<leftarrow> whenFlag (skipUE 4) br;
     (bitDepthLumaMinus8, br) \<leftarrow> ReadExponentialGolombCode br;
     (bitDepthChromaMinus8, br) \<leftarrow> ReadExponentialGolombCode br;
     (_, br) \<leftarrow> ReadExponentialGolombCode br;
     (orderingInfoPresentFlag, br) \<leftarrow> ReadBit br;
     (_, br) \<leftarrow> skipUE (3 * (if orderingInfoPresentFlag \<noteq> 0 then unat maxSubLayersMinus1 + 1 else 1)) br;
     (_, br) \<leftarrow> skipUE 6 br;
     (vuiParametersPresentFlag, br) \<leftarrow> ReadBit br;
     Some ((info\<lparr>h265_chromaFormat := chromaFormat, h265_PicWidthInLumaSamples := width, h265_SPSWidth := width,
       h265_PicHeightInLumaSamples := height, h265_SPSHeight := height,
       h265_bitDepthLumaMinus8 := bitDepthLumaMinus8, h265_bitDepthChromaMinus8 := bitDepthChromaMinus8\<rparr>,
       vuiParametersPresentFlag), br)
   }"

definition h265_ParseSPS :: "bytes \<Rightarrow> h265_error + h265_sps_info" where
  "h265_ParseSPS sps =
    (if length sps < 2 then Inl H265_IncorrectUnitSize
     else case readHevcSPS (newGolomb (nal2rbsp (drop 2 sps))) of
            None \<Rightarrow> Inl H265_EOF
          | Some ((info, vuiParametersPresentFlag), br) \<Rightarrow>
              if vuiParametersPresentFlag \<noteq> 0
              then (case h265_parseVUI info br of None \<Rightarrow> Inl H265_DividePanic | Some info' \<Rightarrow> Inr info')
              else Inr info)"

subsection \<open>The decoder configuration record\<close>

definition addUnits :: "byte \<Rightarrow> bytes list \<Rightarrow> hevc_record \<Rightarrow> hevc_record" where
  "addUnits nalType us s =
    (if nalType = 32 then s\<lparr>HEVC_VPS := HEVC_VPS s @ us\<rparr>
     else if nalType = 33 then s\<lparr>HEVC_SPS := HEVC_SPS s @ us\<rparr>
     else if nalType = 34 then s\<lparr>HEVC_PPS := HEVC_PPS s @ us\<rparr>
     else s)"

text \<open>
  The array loop of \<^verbatim>\<open>Unmarshal\<close>; the loop over the units of one array is the one of the AVC record.
\<close>

fun unmarshalArrays :: "nat \<Rightarrow> bytes \<Rightarrow> nat \<Rightarrow> hevc_record \<Rightarrow> (hevc_record \<times> nat) option" where
  "unmarshalArrays 0 b n s = Some (s, n)"
| "unmarshalArrays (Suc k) b n s =
    (if length b < n + 3 then None
     else case unmarshalUnits (unat (U16BE (drop (n + 1) b))) b (n + 3) [] of
            None \<Rightarrow> None
          | Some (us, n') \<Rightarrow> unmarshalArrays k b n' (addUnits (b ! n AND 0x3f) us s))"

definition HEVC_Unmarshal :: "bytes \<Rightarrow> (hevc_record \<times> nat) option" where
  "HEVC_Unmarshal b =
    (if length b < 23 then None
     else unmarshalArrays (unat (b ! 22)) b 23
       \<lparr>ConfigurationVersion = b ! 0, GeneralProfileSpace = drop_bit 6 (b ! 1),
         GeneralTierFlag = drop_bit 5 (b ! 1) AND 0x01, GeneralProfileIDC = b ! 1 AND 0x1f,
         GeneralProfileCompatibilityFlags = be32 (slice b 2 6),
         GeneralConstraintIndicatorFlags = push_bit 40 (ucast (b ! 6)) OR push_bit 32 (ucast (b ! 7))
           OR push_bit 24 (ucast (b ! 8)) OR push_bit 16 (ucast (b ! 9)) OR push_bit 8 (ucast (b ! 10)) OR ucast (b ! 11),
         GeneralLevelIDC = b ! 12,
         MinSpatialSegmentationIDC = push_bit 8 (ucast (b ! 13 AND 0x0f)) OR ucast (b ! 14),
         ParallelismType = b ! 15 AND 0x03, ChromaFormat = b ! 16 AND 0x03,
         BitDepthLumaMinus8 = b ! 17 AND 0x07, BitDepthChromaMinus8 = b ! 18 AND 0x07,
         AvgFrameRate = U16BE (drop 19 b), ConstantFrameRate = drop_bit 6 (b ! 21),
         NumTemporalLayers = drop_bit 3 (b ! 21) AND 0x07, TemporalIDNested = drop_bit 2 (b ! 21) AND 0x01,
         LengthSizeMinusOne = b ! 21 AND 0x03, HEVC_VPS = [], HEVC_SPS = [], HEVC_PPS = []\<rparr>)"

definition hevcArrayLen :: "bytes list \<Rightarrow> nat" where
  "hevcArrayLen nalus = (if length nalus = 0 then 0 else foldl (\<lambda>n nalu. n + (2 + length nalu)) 3 nalus)"

definition HEVC_Len :: "hevc_record \<Rightarrow> nat" where
  "HEVC_Len s = 23 + hevcArrayLen (HEVC_VPS s) + hevcArrayLen (HEVC_SPS s) + hevcArrayLen (HEVC_PPS s)"

definition marshalHEVCArray :: "byte \<Rightarrow> bytes list \<Rightarrow> bytes" where
  "marshalHEVCArray nalType nalus =
    (if length nalus = 0 then []
     else (0x80 OR (nalType AND 0x3f)) # PutU16BE (of_nat (length nalus)) @ marshalUnits nalus)"

text \<open>A field of the record, or the one of the SPS when it is zero.\<close>

definition fallback :: "byte \<Rightarrow> u64 \<Rightarrow> byte" where
  "fallback v i = (if v = 0 \<and> i \<noteq> 0 then ucast i else v)"

definition HEVC_Marshal :: "hevc_record \<Rightarrow> h265_sps_info \<Rightarrow> bytes" where
  "HEVC_Marshal s info =
    (let cfgVersion = (if ConfigurationVersion s = 0 then 1 else ConfigurationVersion s);
         profileSpace = fallback (GeneralProfileSpace s AND 0x03) (h265_generalProfileSpace info);
         tierFlag = fallback (GeneralTierFlag s AND 0x01) (h265_generalTierFlag info);
         profileIDC = fallback (GeneralProfileIDC s AND 0x1f) (h265_generalProfileIDC info);
         compatFlags = (if GeneralProfileCompatibilityFlags s = 0 \<and> h265_generalProfileCompatibilityFlags info \<noteq> 0
           then h265_generalProfileCompatibilityFlags info else GeneralProfileCompatibilityFlags s);
         constraint0 = GeneralConstraintIndicatorFlags s AND 0x0000FFFFFFFFFFFF;
         constraintFlags = (if constraint0 = 0 \<and> h265_generalConstraintIndicatorFlags info \<noteq> 0
           then h265_generalConstraintIndicatorFlags info AND 0x0000FFFFFFFFFFFF else constraint0);
         levelIDC = fallback (GeneralLevelIDC s) (h265_generalLevelIDC info);
         chromaFormat = fallback (ChromaFormat s AND 0x03) (h265_chromaFormat info);
         bitDepthLumaMinus8 = fallback (BitDepthLumaMinus8 s AND 0x07) (h265_bitDepthLumaMinus8 info);
         bitDepthChromaMinus8 = fallback (BitDepthChromaMinus8 s AND 0x07) (h265_bitDepthChromaMinus8 info);
         numTemporalLayers = fallback (NumTemporalLayers s AND 0x07) (h265_numTemporalLayers info);
         temporalIDNested = fallback (TemporalIDNested s AND 0x01) (h265_temporalIDNested info);
         length0 = LengthSizeMinusOne s AND 0x03;
         lengthSizeMinusOne = (if length0 = 0 then 3 else length0);
         numArrays = (if length (HEVC_VPS s) > 0 then 1 else 0) + (if length (HEVC_SPS s) > 0 then 1 else 0)
           + (if length (HEVC_PPS s) > 0 then 1 else 0) :: nat
     in [cfgVersion, push_bit 6 profileSpace OR push_bit 5 tierFlag OR profileIDC] @ put32 compatFlags
        @ map (\<lambda>n. ucast (drop_bit n constraintFlags)) [40, 32, 24, 16, 8, 0]
        @ [levelIDC, 0xF0 OR ucast (drop_bit 8 (MinSpatialSegmentationIDC s) AND 0x0f),
           ucast (MinSpatialSegmentationIDC s), 0xFC OR (ParallelismType s AND 0x03), 0xFC OR chromaFormat,
           0xF8 OR bitDepthLumaMinus8, 0xF8 OR bitDepthChromaMinus8]
        @ PutU16BE (AvgFrameRate s)
        @ [push_bit 6 (ConstantFrameRate s AND 0x03) OR push_bit 3 (numTemporalLayers AND 0x07)
             OR push_bit 2 (temporalIDNested AND 0x01) OR lengthSizeMinusOne,
           of_nat numArrays]
        @ marshalHEVCArray 32 (HEVC_VPS s) @ marshalHEVCArray 33 (HEVC_SPS s) @ marshalHEVCArray 34 (HEVC_PPS s))"

subsection \<open>The codec descriptor\<close>

definition h265_NewCodecDataFromAVCDecoderConfRecord :: "bytes \<Rightarrow> h265_error + h265_codec" where
  "h265_NewCodecDataFromAVCDecoderConfRecord record =
    (case HEVC_Unmarshal record of
       None \<Rightarrow> Inl H265_DecconfInvalid
     | Some (info, _) \<Rightarrow>
         if length (HEVC_SPS info) = 0 then Inl H265_SPSNotFound
         else if length (HEVC_PPS info) = 0 then Inl H265_PPSNotFound
         else if length (HEVC_VPS info) = 0 then Inl H265_VPSNotFound
         else case h265_ParseSPS (HEVC_SPS info ! 0) of
           Inl H265_DividePanic \<Rightarrow> Inl H265_DividePanic
         | Inl _ \<Rightarrow> Inl H265_SPSParseFailed
         | Inr sps \<Rightarrow> Inr \<lparr>h265_Record = record, h265_RecordInfo = info, h265_SPSInfo = sps, h265_ControlURL = []\<rparr>)"

definition recordOf :: "h265_sps_info \<Rightarrow> bytes \<Rightarrow> bytes \<Rightarrow> bytes \<Rightarrow> hevc_record" where
  "recordOf info vps sps pps =
    \<lparr>ConfigurationVersion = 1, GeneralProfileSpace = ucast (h265_generalProfileSpace info),
      GeneralTierFlag = ucast (h265_generalTierFlag info), GeneralProfileIDC = ucast (h265_generalProfileIDC info),
      GeneralProfileCompatibilityFlags = h265_generalProfileCompatibilityFlags info,
      GeneralConstraintIndicatorFlags = h265_generalConstraintIndicatorFlags info,
      GeneralLevelIDC = ucast (h265_generalLevelIDC info), MinSpatialSegmentationIDC = 0, ParallelismType = 0,
      ChromaFormat = ucast (h265_chromaFormat info), BitDepthLumaMinus8 = ucast (h265_bitDepthLumaMinus8 info),
      BitDepthChromaMinus8 = ucast (h265_bitDepthChromaMinus8 info), AvgFrameRate = 0, ConstantFrameRate = 0,
      NumTemporalLayers = ucast (h265_numTemporalLayers info), TemporalIDNested = ucast (h265_temporalIDNested info),
      LengthSizeMinusOne = 3, HEVC_VPS = [vps], HEVC_SPS = [sps], HEVC_PPS = [pps]\<rparr>"

definition h265_NewCodecDataFromVPSAndSPSAndPPS :: "bytes \<Rightarrow> bytes \<Rightarrow> bytes \<Rightarrow> h265_error + h265_codec" where
  "h265_NewCodecDataFromVPSAndSPSAndPPS vps sps pps =
    (if length sps < 6 then Inl H265_InvalidSPS
     else case h265_ParseSPS sps of
            Inl e \<Rightarrow> Inl e
          | Inr info \<Rightarrow>
              let recordinfo = recordOf info vps sps pps
              in Inr \<lparr>h265_Record = HEVC_Marshal recordinfo info, h265_RecordInfo = recordinfo, h265_SPSInfo = info,
                   h265_ControlURL = []\<rparr>)"

definition h265_SPS :: "h265_codec \<Rightarrow> bytes" where
  "h265_SPS s = (if length (HEVC_SPS (h265_RecordInfo s)) > 0 then HEVC_SPS (h265_RecordInfo s) ! 0 else [])"

definition h265_PPS :: "h265_codec \<Rightarrow> bytes" where
  "h265_PPS s = (if length (HEVC_PPS (h265_RecordInfo s)) > 0 then HEVC_PPS (h265_RecordInfo s) ! 0 else [])"

definition h265_VPS :: "h265_codec \<Rightarrow> bytes" where
  "h265_VPS s = (if length (HEVC_VPS (h265_RecordInfo s)) > 0 then HEVC_VPS (h265_RecordInfo s) ! 0 else [])"

definition h265_ParameterSetsAnnexB :: "h265_codec \<Rightarrow> bytes" where
  "h265_ParameterSetsAnnexB s = [0, 0, 0, 1] @ h265_VPS s @ [0, 0, 0, 1] @ h265_SPS s @ [0, 0, 0, 1] @ h265_PPS s"

subsection \<open>Round trip of the record\<close>

lemma length_marshalHEVCArray: "length (marshalHEVCArray t us) = hevcArrayLen us"
proof -
  have "foldl (\<lambda>n u. n + (2 + length u)) k us = k + length (marshalUnits us)" for k and us :: "bytes list"
    by (induction us arbitrary: k) (simp_all add: marshalUnits_def)
  then show ?thesis
    by (simp add: marshalHEVCArray_def hevcArrayLen_def)
qed

lemma length_HEVC_Marshal: "length (HEVC_Marshal s info) = HEVC_Len s"
  by (simp add: HEVC_Marshal_def HEVC_Len_def Let_def length_marshalHEVCArray)

definition array_ok :: "byte \<times> bytes list \<Rightarrow> bool" where
  "array_ok a \<longleftrightarrow> snd a \<noteq> [] \<and> length (snd a) < 2 ^ 16 \<and> (\<forall>u \<in> set (snd a). length u < 2 ^ 16) \<and> fst a < 64"

lemma array_type: "t < 64 \<Longrightarrow> (0x80 OR (t AND 0x3f)) AND 0x3f = t" for t :: byte
proof -
  assume "t < 64"
  then have "take_bit 6 t = t"
    by (intro take_bit_small) (simp add: word_less_nat_alt)
  then show ?thesis
    by (simp add: bit.conj_disj_distrib2 take_bit_eq_mask mask_numeral)
qed

lemma unmarshalArrays_marshal:
  assumes "drop n b = concat (map (\<lambda>(t, us). marshalHEVCArray t us) as) @ rest" and "\<forall>a \<in> set as. array_ok a"
  shows "unmarshalArrays (length as) b n s =
    Some (foldl (\<lambda>s (t, us). addUnits t us s) s as, n + length (concat (map (\<lambda>(t, us). marshalHEVCArray t us) as)))"
  using assms
proof (induction as arbitrary: n s)
  case (Cons a as)
  obtain t us where a: "a = (t, us)"
    by force
  have ok: "us \<noteq> []" "length us < 2 ^ 16" "\<forall>u \<in> set us. length u < 2 ^ 16" "t < 64"
    using Cons.prems(2) a by (simp_all add: array_ok_def)
  let ?h = "(0x80 OR (t AND 0x3f)) # PutU16BE (of_nat (length us))" and ?r = "concat (map (\<lambda>(t, us). marshalHEVCArray t us) as) @ rest"
  have m: "marshalHEVCArray t us = ?h @ marshalUnits us"
    using ok(1) by (simp add: marshalHEVCArray_def)
  have d: "drop n b = ?h @ marshalUnits us @ ?r"
    using Cons.prems(1) by (simp add: a m)
  have d3: "drop (n + 3) b = marshalUnits us @ ?r"
    using drop_field [OF d] by simp
  have d1: "drop (n + 1) b = PutU16BE (of_nat (length us)) @ marshalUnits us @ ?r"
    using drop_field [of n b "[0x80 OR (t AND 0x3f)]" "PutU16BE (of_nat (length us)) @ marshalUnits us @ ?r"] d by simp
  have len: "n + 3 \<le> length b" "b ! n = 0x80 OR (t AND 0x3f)"
    using arg_cong [OF d, of length] arg_cong [OF d, of "\<lambda>xs. xs ! 0"] by simp_all
  have u: "unmarshalUnits (length us) b (n + 3) [] = Some (us, n + 3 + length (marshalUnits us))"
    using unmarshalUnits_marshalUnits [OF d3 ok(3)] by simp
  have num: "unat (U16BE (drop (Suc n) b)) = length us"
    unfolding Suc_eq_plus1 d1 U_PutU using ok(2) by (simp add: unat_of_nat_u16)
  have "drop (n + 3 + length (marshalUnits us)) b = ?r"
    by (rule drop_field [OF d3])
  from Cons.IH [OF this] Cons.prems(2) show ?case
    using len(1) by (simp add: num u len(2) array_type ok(4) a m)
qed simp

text \<open>The record fits its fields, and the fields that are zero are not filled in from the SPS.\<close>

definition hevc_ok :: "hevc_record \<Rightarrow> h265_sps_info \<Rightarrow> bool" where
  "hevc_ok s info \<longleftrightarrow>
    ConfigurationVersion s \<noteq> 0 \<and> GeneralProfileSpace s < 4 \<and> GeneralTierFlag s < 2 \<and> GeneralProfileIDC s < 32 \<and>
    GeneralConstraintIndicatorFlags s < 2 ^ 48 \<and> MinSpatialSegmentationIDC s < 4096 \<and> ParallelismType s < 4 \<and>
    ChromaFormat s < 4 \<and> BitDepthLumaMinus8 s < 8 \<and> BitDepthChromaMinus8 s < 8 \<and> ConstantFrameRate s < 4 \<and>
    NumTemporalLayers s < 8 \<and> TemporalIDNested s < 2 \<and> 0 < LengthSizeMinusOne s \<and> LengthSizeMinusOne s < 4 \<and>
    fallback (GeneralProfileSpace s) (h265_generalProfileSpace info) = GeneralProfileSpace s \<and>
    fallback (GeneralTierFlag s) (h265_generalTierFlag info) = GeneralTierFlag s \<and>
    fallback (GeneralProfileIDC s) (h265_generalProfileIDC info) = GeneralProfileIDC s \<and>
    (GeneralProfileCompatibilityFlags s = 0 \<longrightarrow> h265_generalProfileCompatibilityFlags info = 0) \<and>
    (GeneralConstraintIndicatorFlags s = 0 \<longrightarrow> h265_generalConstraintIndicatorFlags info = 0) \<and>
    fallback (GeneralLevelIDC s) (h265_generalLevelIDC info) = GeneralLevelIDC s \<and>
    fallback (ChromaFormat s) (h265_chromaFormat info) = ChromaFormat s \<and>
    fallback (BitDepthLumaMinus8 s) (h265_bitDepthLumaMinus8 info) = BitDepthLumaMinus8 s \<and>
    fallback (BitDepthChromaMinus8 s) (h265_bitDepthChromaMinus8 info) = BitDepthChromaMinus8 s \<and>
    fallback (NumTemporalLayers s) (h265_numTemporalLayers info) = NumTemporalLayers s \<and>
    fallback (TemporalIDNested s) (h265_temporalIDNested info) = TemporalIDNested s \<and>
    length (HEVC_VPS s) < 2 ^ 16 \<and> length (HEVC_SPS s) < 2 ^ 16 \<and> length (HEVC_PPS s) < 2 ^ 16 \<and>
    (\<forall>u \<in> set (HEVC_VPS s) \<union> set (HEVC_SPS s) \<union> set (HEVC_PPS s). length u < 2 ^ 16)"

lemma byte_masks:
  "v < 2 \<Longrightarrow> v AND 0x01 = v" "v < 4 \<Longrightarrow> v AND 0x03 = v" "v < 8 \<Longrightarrow> v AND 0x07 = v" "v < 32 \<Longrightarrow> v AND 0x1f = v" for v :: byte
proof -
  have m: "take_bit n v = v" if "unat v < 2 ^ n" for n
    using that by (rule take_bit_small)
  show "v < 2 \<Longrightarrow> v AND 0x01 = v" "v < 4 \<Longrightarrow> v AND 0x03 = v" "v < 8 \<Longrightarrow> v AND 0x07 = v" "v < 32 \<Longrightarrow> v AND 0x1f = v"
    using m [of 1] m [of 2] m [of 3] m [of 5] by (simp_all add: word_less_nat_alt take_bit_eq_mask mask_numeral)
qed

lemma hevc_byte1:
  fixes p t i :: byte
  assumes "p AND 3 = p" "t AND 1 = t" "i AND 0x1f = i"
  defines "h \<equiv> push_bit 6 p OR push_bit 5 t OR i"
  shows "drop_bit 6 h = p" and "drop_bit 5 h AND 1 = t" and "h AND 0x1f = i"
proof -
  have "drop_bit 6 (push_bit 6 (p AND 3) OR push_bit 5 (t AND 1) OR (i AND 0x1f)) = p AND 3"
    by (rule byte_eqI; simp add: bit_simps bit_byte_ge bit_1_iff)
  moreover have "drop_bit 5 (push_bit 6 (p AND 3) OR push_bit 5 (t AND 1) OR (i AND 0x1f)) AND 1 = t AND 1"
    by (rule byte_eqI; simp add: bit_simps bit_byte_ge bit_1_iff)
  moreover have "(push_bit 6 (p AND 3) OR push_bit 5 (t AND 1) OR (i AND 0x1f)) AND 0x1f = i AND 0x1f"
    by (rule byte_eqI; simp add: bit_simps bit_byte_ge bit_1_iff)
  ultimately show "drop_bit 6 h = p" "drop_bit 5 h AND 1 = t" "h AND 0x1f = i"
    unfolding assms(1-3) h_def .
qed

lemma hevc_byte21:
  fixes f n t l :: byte
  assumes "f AND 3 = f" "n AND 7 = n" "t AND 1 = t" "l AND 3 = l"
  defines "h \<equiv> push_bit 6 f OR push_bit 3 n OR push_bit 2 t OR l"
  shows "drop_bit 6 h = f" and "drop_bit 3 h AND 7 = n" and "drop_bit 2 h AND 1 = t" and "h AND 3 = l"
proof -
  let ?h = "push_bit 6 (f AND 3) OR push_bit 3 (n AND 7) OR push_bit 2 (t AND 1) OR (l AND 3)"
  have "drop_bit 6 ?h = f AND 3"
    by (rule byte_eqI; simp add: bit_simps bit_byte_ge bit_1_iff)
  moreover have "drop_bit 3 ?h AND 7 = n AND 7"
    by (rule byte_eqI; simp add: bit_simps bit_byte_ge bit_1_iff)
  moreover have "drop_bit 2 ?h AND 1 = t AND 1"
    by (rule byte_eqI; simp add: bit_simps bit_byte_ge bit_1_iff)
  moreover have "?h AND 3 = l AND 3"
    by (rule byte_eqI; simp add: bit_simps bit_byte_ge bit_1_iff)
  ultimately show "drop_bit 6 h = f" "drop_bit 3 h AND 7 = n" "drop_bit 2 h AND 1 = t" "h AND 3 = l"
    unfolding assms(1-4) h_def .
qed

lemma hevc_tops:
  "v AND 3 = v \<Longrightarrow> (0xFC OR v) AND 3 = v" "v AND 7 = v \<Longrightarrow> (0xF8 OR v) AND 7 = v" for v :: byte
  by (simp_all add: bit.conj_disj_distrib2)

lemma six_bytes:
  fixes c :: u64
  assumes "c < 2 ^ 48"
  shows "push_bit 40 (ucast (ucast (drop_bit 40 c) :: byte)) OR push_bit 32 (ucast (ucast (drop_bit 32 c) :: byte))
    OR push_bit 24 (ucast (ucast (drop_bit 24 c) :: byte)) OR push_bit 16 (ucast (ucast (drop_bit 16 c) :: byte))
    OR push_bit 8 (ucast (ucast (drop_bit 8 c) :: byte)) OR ucast (ucast (drop_bit 0 c) :: byte) = c" (is "?l = c")
proof (rule bit_word_eqI)
  fix n
  assume n: "n < LENGTH(64)"
  have "take_bit 48 c = c"
    using assms by (intro take_bit_small) (simp add: word_less_nat_alt)
  then have hi: "\<not> bit c n" if "48 \<le> n"
    using that by (metis bit_take_bit_iff not_less)
  consider "n < 8" | "8 \<le> n" "n < 16" | "16 \<le> n" "n < 24" | "24 \<le> n" "n < 32" | "32 \<le> n" "n < 40"
    | "40 \<le> n" "n < 48" | "48 \<le> n"
    by linarith
  then show "bit ?l n = bit c n"
    by cases (use n hi in \<open>auto simp: bit_simps\<close>)
qed

lemma twelve_bits:
  fixes m :: u16
  assumes "m < 4096"
  shows "push_bit 8 (ucast ((0xF0 OR ucast (drop_bit 8 m AND 0x0f)) AND 0x0f :: byte)) OR ucast (ucast m :: byte) = m"
proof -
  have t: "take_bit 12 m = m"
    using assms by (intro take_bit_small) (simp add: word_less_nat_alt)
  have "((0xF0 OR ucast (drop_bit 8 m AND 0x0f)) AND 0x0f :: byte) = take_bit 4 (ucast (drop_bit 8 m))"
    by (rule byte_eqI; simp add: bit_simps)
  moreover have "push_bit 8 (ucast (take_bit 4 (ucast (drop_bit 8 m)) :: byte)) OR ucast (ucast m :: byte) = take_bit 12 m"
    by (rule bit_word_eqI) (auto simp: bit_simps)
  ultimately show ?thesis
    using t by simp
qed

definition hevcArrays :: "hevc_record \<Rightarrow> (byte \<times> bytes list) list" where
  "hevcArrays s = filter (\<lambda>(t, us). us \<noteq> []) [(32, HEVC_VPS s), (33, HEVC_SPS s), (34, HEVC_PPS s)]"

lemma hevcArrays_bytes:
  "concat (map (\<lambda>(t, us). marshalHEVCArray t us) (hevcArrays s)) =
     marshalHEVCArray 32 (HEVC_VPS s) @ marshalHEVCArray 33 (HEVC_SPS s) @ marshalHEVCArray 34 (HEVC_PPS s)"
  by (simp add: hevcArrays_def marshalHEVCArray_def)

lemma hevcArrays_length:
  "length (hevcArrays s) = (if length (HEVC_VPS s) > 0 then 1 else 0) + (if length (HEVC_SPS s) > 0 then 1 else 0)
     + (if length (HEVC_PPS s) > 0 then 1 else 0)"
  by (simp add: hevcArrays_def)

lemma hevcArrays_fold:
  "HEVC_VPS r = [] \<Longrightarrow> HEVC_SPS r = [] \<Longrightarrow> HEVC_PPS r = [] \<Longrightarrow>
   foldl (\<lambda>s (t, us). addUnits t us s) r (hevcArrays s) =
     r\<lparr>HEVC_VPS := HEVC_VPS s, HEVC_SPS := HEVC_SPS s, HEVC_PPS := HEVC_PPS s\<rparr>"
  by (simp add: hevcArrays_def addUnits_def)

lemma hevc_ok_masks:
  assumes "hevc_ok s info"
  shows "GeneralProfileSpace s AND 0x03 = GeneralProfileSpace s" "GeneralTierFlag s AND 0x01 = GeneralTierFlag s"
    "GeneralProfileIDC s AND 0x1f = GeneralProfileIDC s" "ParallelismType s AND 0x03 = ParallelismType s"
    "ChromaFormat s AND 0x03 = ChromaFormat s" "BitDepthLumaMinus8 s AND 0x07 = BitDepthLumaMinus8 s"
    "BitDepthChromaMinus8 s AND 0x07 = BitDepthChromaMinus8 s" "ConstantFrameRate s AND 0x03 = ConstantFrameRate s"
    "NumTemporalLayers s AND 0x07 = NumTemporalLayers s" "TemporalIDNested s AND 0x01 = TemporalIDNested s"
    "LengthSizeMinusOne s AND 0x03 = LengthSizeMinusOne s"
    "GeneralConstraintIndicatorFlags s AND 0x0000FFFFFFFFFFFF = GeneralConstraintIndicatorFlags s"
proof -
  have "take_bit 48 (GeneralConstraintIndicatorFlags s) = GeneralConstraintIndicatorFlags s"
    using assms by (intro take_bit_small) (simp add: hevc_ok_def word_less_nat_alt)
  then show "GeneralConstraintIndicatorFlags s AND 0x0000FFFFFFFFFFFF = GeneralConstraintIndicatorFlags s"
    by (simp add: take_bit_eq_mask mask_numeral)
qed (use assms in \<open>simp_all add: hevc_ok_def byte_masks\<close>)

lemma HEVC_Marshal_ok:
  assumes ok: "hevc_ok s info"
  shows "HEVC_Marshal s info =
    [ConfigurationVersion s,
     push_bit 6 (GeneralProfileSpace s) OR push_bit 5 (GeneralTierFlag s) OR GeneralProfileIDC s]
     @ put32 (GeneralProfileCompatibilityFlags s)
     @ map (\<lambda>n. ucast (drop_bit n (GeneralConstraintIndicatorFlags s))) [40, 32, 24, 16, 8, 0]
     @ [GeneralLevelIDC s, 0xF0 OR ucast (drop_bit 8 (MinSpatialSegmentationIDC s) AND 0x0f),
        ucast (MinSpatialSegmentationIDC s), 0xFC OR ParallelismType s, 0xFC OR ChromaFormat s,
        0xF8 OR BitDepthLumaMinus8 s, 0xF8 OR BitDepthChromaMinus8 s]
     @ PutU16BE (AvgFrameRate s)
     @ [push_bit 6 (ConstantFrameRate s) OR push_bit 3 (NumTemporalLayers s) OR push_bit 2 (TemporalIDNested s)
          OR LengthSizeMinusOne s, of_nat (length (hevcArrays s))]
     @ concat (map (\<lambda>(t, us). marshalHEVCArray t us) (hevcArrays s))"
proof -
  note m = hevc_ok_masks [OF ok]
  have f: "ConfigurationVersion s \<noteq> 0" "LengthSizeMinusOne s \<noteq> 0"
    "fallback (GeneralProfileSpace s) (h265_generalProfileSpace info) = GeneralProfileSpace s"
    "fallback (GeneralTierFlag s) (h265_generalTierFlag info) = GeneralTierFlag s"
    "fallback (GeneralProfileIDC s) (h265_generalProfileIDC info) = GeneralProfileIDC s"
    "GeneralProfileCompatibilityFlags s = 0 \<longrightarrow> h265_generalProfileCompatibilityFlags info = 0"
    "GeneralConstraintIndicatorFlags s = 0 \<longrightarrow> h265_generalConstraintIndicatorFlags info = 0"
    "fallback (GeneralLevelIDC s) (h265_generalLevelIDC info) = GeneralLevelIDC s"
    "fallback (ChromaFormat s) (h265_chromaFormat info) = ChromaFormat s"
    "fallback (BitDepthLumaMinus8 s) (h265_bitDepthLumaMinus8 info) = BitDepthLumaMinus8 s"
    "fallback (BitDepthChromaMinus8 s) (h265_bitDepthChromaMinus8 info) = BitDepthChromaMinus8 s"
    "fallback (NumTemporalLayers s) (h265_numTemporalLayers info) = NumTemporalLayers s"
    "fallback (TemporalIDNested s) (h265_temporalIDNested info) = TemporalIDNested s"
    using ok by (auto simp: hevc_ok_def)
  show ?thesis
    unfolding HEVC_Marshal_def Let_def m hevcArrays_bytes hevcArrays_length using f(1,2,6,7)
    by (auto simp: f(3-5,8-) m)
qed

lemma HEVC_Unmarshal_Marshal:
  assumes ok: "hevc_ok s info"
  shows "HEVC_Unmarshal (HEVC_Marshal s info) = Some (s, HEVC_Len s)"
proof -
  define b where "b = HEVC_Marshal s info"
  note b = HEVC_Marshal_ok [OF ok, folded b_def]
  note m = hevc_ok_masks [OF ok]
  have d23: "drop 23 b = concat (map (\<lambda>(t, us). marshalHEVCArray t us) (hevcArrays s)) @ []"
    unfolding b by simp
  have len: "length b = 23 + length (concat (map (\<lambda>(t, us). marshalHEVCArray t us) (hevcArrays s)))"
    unfolding b by simp
  have arr: "\<forall>a \<in> set (hevcArrays s). array_ok a"
    using ok by (auto simp: hevcArrays_def array_ok_def hevc_ok_def)
  have L: "HEVC_Len s = length b"
    by (simp add: b_def length_HEVC_Marshal)
  obtain c0 c1 c2 c3 where c: "put32 (GeneralProfileCompatibilityFlags s) = [c0, c1, c2, c3]"
    using list_of_length(2) [OF length_put(2)] by blast
  obtain a0 a1 where a: "PutU16BE (AvgFrameRate s) = [a0, a1]"
    using list_of_length(1) [OF length_PutU16BE] by blast
  have compat: "be32 (slice b 2 6) = GeneralProfileCompatibilityFlags s"
    unfolding b by (simp add: slice_def)
  have rate: "U16BE (drop 19 b) = AvgFrameRate s"
    unfolding b by (simp add: U_PutU)
  have n: "unat (b ! 22) = length (hevcArrays s)"
    unfolding b a c by (simp add: hevcArrays_length)
  note bs = b [unfolded a c]
  have v: "b ! 0 = ConfigurationVersion s"
    "b ! 1 = push_bit 6 (GeneralProfileSpace s) OR push_bit 5 (GeneralTierFlag s) OR GeneralProfileIDC s"
    "b ! 12 = GeneralLevelIDC s" "b ! 13 = 0xF0 OR ucast (drop_bit 8 (MinSpatialSegmentationIDC s) AND 0x0f)"
    "b ! 14 = ucast (MinSpatialSegmentationIDC s)" "b ! 15 = 0xFC OR ParallelismType s" "b ! 16 = 0xFC OR ChromaFormat s"
    "b ! 17 = 0xF8 OR BitDepthLumaMinus8 s" "b ! 18 = 0xF8 OR BitDepthChromaMinus8 s"
    "b ! 21 = push_bit 6 (ConstantFrameRate s) OR push_bit 3 (NumTemporalLayers s) OR push_bit 2 (TemporalIDNested s)
       OR LengthSizeMinusOne s"
    "b ! 6 = ucast (drop_bit 40 (GeneralConstraintIndicatorFlags s))" "b ! 7 = ucast (drop_bit 32 (GeneralConstraintIndicatorFlags s))"
    "b ! 8 = ucast (drop_bit 24 (GeneralConstraintIndicatorFlags s))" "b ! 9 = ucast (drop_bit 16 (GeneralConstraintIndicatorFlags s))"
    "b ! 10 = ucast (drop_bit 8 (GeneralConstraintIndicatorFlags s))" "b ! 11 = ucast (drop_bit 0 (GeneralConstraintIndicatorFlags s))"
    unfolding bs by simp_all
  have bounds: "GeneralConstraintIndicatorFlags s < 2 ^ 48" "MinSpatialSegmentationIDC s < 4096"
    using ok by (simp_all add: hevc_ok_def)
  have "\<not> length b < 23"
    using len by simp
  then show ?thesis
    unfolding HEVC_Unmarshal_def b_def [symmetric] n unmarshalArrays_marshal [OF d23 arr] L len v compat rate
      six_bytes [OF bounds(1)] twelve_bits [OF bounds(2)] hevc_byte1 [OF m(1-3)] hevc_byte21 [OF m(8-11)]
      hevc_tops(1) [OF m(4)] hevc_tops(1) [OF m(5)] hevc_tops(2) [OF m(6)] hevc_tops(2) [OF m(7)]
    by (simp add: hevcArrays_fold)
qed

subsection \<open>The ranges of the parsed fields\<close>

lemma ReadBit_low: "ReadBit s = Some (v, s') \<Longrightarrow> lowOnly 1 v"
  by (auto simp: ReadBit_def takeBit_def Let_def lowOnly_def bit_simps bit_1_iff split: if_splits list.splits)

lemma readBitsLoop_low: "readBitsLoop n res s = Some (v, s') \<Longrightarrow> n \<le> m \<Longrightarrow> lowOnly m res \<Longrightarrow> lowOnly m v"
proof (induction n arbitrary: res s)
  case (Suc n)
  then obtain t s1 where t: "ReadBit s = Some (t, s1)" "readBitsLoop n (res OR push_bit n t) s1 = Some (v, s')"
    by (auto split: bind_splits)
  have "lowOnly m (res OR push_bit n t)"
    using Suc.prems(2,3) ReadBit_low [OF t(1)] by (auto simp: lowOnly_def bit_simps)
  then show ?case
    using Suc.IH [OF t(2)] Suc.prems(2) by simp
qed simp

lemma readBits64Loop_low: "readBits64Loop n r s = Some (v, s') \<Longrightarrow> lowOnly k r \<Longrightarrow> lowOnly (k + n) v"
proof (induction n arbitrary: r s k)
  case (Suc n)
  then obtain t s1 where t: "ReadBit s = Some (t, s1)" "readBits64Loop n (push_bit 1 r OR t) s1 = Some (v, s')"
    by (auto split: bind_splits)
  have "lowOnly (k + 1) (push_bit 1 r OR t)"
    using Suc.prems(2) ReadBit_low [OF t(1)] by (intro lowOnly_append) simp_all
  then show ?case
    using Suc.IH [OF t(2)] by fastforce
qed simp

lemma lowOnly_bound: "lowOnly n v \<Longrightarrow> unat v < 2 ^ n" for v :: u64
proof -
  assume "lowOnly n v"
  then have "take_bit n (unat v) = unat v"
    by (intro bit_eqI) (auto simp: lowOnly_def bit_simps, metis not_less)
  then show "unat v < 2 ^ n"
    by (metis take_bit_nat_less_exp)
qed

lemma field_bounds:
  "ReadBit s = Some (v, s') \<Longrightarrow> unat v < 2" "ReadBits n s = Some (v, s') \<Longrightarrow> unat v < 2 ^ n"
  "ReadBits64 n s = Some (v, s') \<Longrightarrow> unat v < 2 ^ n"
proof -
  show "ReadBit s = Some (v, s') \<Longrightarrow> unat v < 2"
    using lowOnly_bound [of 1 v] ReadBit_low [of s v s'] by simp
  show "ReadBits n s = Some (v, s') \<Longrightarrow> unat v < 2 ^ n"
    using readBitsLoop_low [of n 0 s v s' n] by (auto simp: ReadBits_def lowOnly_def intro: lowOnly_bound)
  show "ReadBits64 n s = Some (v, s') \<Longrightarrow> unat v < 2 ^ n"
    using readBits64Loop_low [of n 0 s v s' 0] by (auto simp: ReadBits64_def lowOnly_def intro: lowOnly_bound)
qed

definition ptl_ok :: "h265_sps_info \<Rightarrow> bool" where
  "ptl_ok i \<longleftrightarrow> unat (h265_generalProfileSpace i) < 4 \<and> unat (h265_generalTierFlag i) < 2 \<and>
     unat (h265_generalProfileIDC i) < 32 \<and> unat (h265_generalLevelIDC i) < 256 \<and>
     unat (h265_generalConstraintIndicatorFlags i) < 2 ^ 48 \<and> unat (h265_temporalIDNested i) < 2"

lemma ptl_ok_cong:
  "ptl_ok (i\<lparr>h265_chromaFormat := a, h265_PicWidthInLumaSamples := b, h265_SPSWidth := c, h265_PicHeightInLumaSamples := d,
     h265_SPSHeight := e, h265_bitDepthLumaMinus8 := f, h265_bitDepthChromaMinus8 := g\<rparr>) = ptl_ok i"
  "ptl_ok (i\<lparr>h265_fps := a\<rparr>) = ptl_ok i"
  by (simp_all add: ptl_ok_def)

lemma updatePTL_ok:
  assumes "unat space < 4" "unat tier < 2" "unat idc < 32" "unat level < 256" "unat constr < 2 ^ 48" "unat nested < 2"
  shows "ptl_ok (updatePTL (zero_h265_sps\<lparr>h265_numTemporalLayers := n, h265_temporalIDNested := nested\<rparr>)
     (zero_h265_sps\<lparr>h265_generalProfileSpace := space, h265_generalTierFlag := tier, h265_generalProfileIDC := idc,
       h265_generalProfileCompatibilityFlags := cflags, h265_generalConstraintIndicatorFlags := constr,
       h265_generalLevelIDC := level\<rparr>))"
  using assms by (simp add: updatePTL_def ptl_ok_def zero_h265_sps_def Let_def)

lemma parsePTL_ok:
  assumes "parsePTL (zero_h265_sps\<lparr>h265_numTemporalLayers := n, h265_temporalIDNested := nested\<rparr>) k br = Some (i, br')"
    and "unat nested < 2"
  shows "ptl_ok i"
proof -
  from assms(1) obtain space tier idc cflags constr level b1 b2 b3 b4 b5 b6 where
    r: "ReadBits 2 br = Some (space, b1)" "ReadBit b1 = Some (tier, b2)" "ReadBits 5 b2 = Some (idc, b3)"
      "ReadBits64 48 b4 = Some (constr, b5)" "ReadBits 8 b5 = Some (level, b6)"
    and i: "i = updatePTL (zero_h265_sps\<lparr>h265_numTemporalLayers := n, h265_temporalIDNested := nested\<rparr>)
     (zero_h265_sps\<lparr>h265_generalProfileSpace := space, h265_generalTierFlag := tier, h265_generalProfileIDC := idc,
       h265_generalProfileCompatibilityFlags := cflags, h265_generalConstraintIndicatorFlags := constr,
       h265_generalLevelIDC := level\<rparr>)"
    by (auto simp: parsePTL_def split: bind_splits if_splits)
  show ?thesis
    unfolding i using field_bounds(2) [OF r(1)] field_bounds(1) [OF r(2)] field_bounds(2) [OF r(3)]
      field_bounds(3) [OF r(4)] field_bounds(2) [OF r(5)] assms(2)
    by (intro updatePTL_ok) simp_all
qed

lemma readHevcSPS_ok: "readHevcSPS br = Some ((i, f), br') \<Longrightarrow> ptl_ok i"
  by (auto simp: readHevcSPS_def ptl_ok_cong split: bind_splits if_splits dest!: parsePTL_ok field_bounds(1))

lemma h265_ParseSPS_ok: "h265_ParseSPS sps = Inr i \<Longrightarrow> ptl_ok i"
  by (auto simp: h265_ParseSPS_def h265_parseVUI_def ptl_ok_cong split: if_splits option.splits prod.splits
      dest!: readHevcSPS_ok)

lemma nal2rbsp_Remove: "nal2rbsp b = RemoveH264orH265EmulationBytes b"
  by (induction b rule: nal2rbsp.induct) simp_all

lemma double_zero: "2 * n = 0 \<longleftrightarrow> n = 0 \<or> n = 0x80000000" for n :: u32
proof
  assume z: "2 * n = 0"
  have "unat (2 * n) = 2 * unat n mod 2 ^ 32"
    by (simp add: unat_word_ariths)
  then have "(2 ^ 32 :: nat) dvd 2 * unat n"
    using z by (simp add: dvd_eq_mod_eq_0)
  then obtain q where "2 * unat n = 2 ^ 32 * q"
    by (auto elim: dvdE)
  then have q: "unat n = 2147483648 * q"
    by simp
  have "unat n < 4294967296"
    using unsigned_less [of n, where ?'a = nat] by simp
  then have "q = 0 \<or> q = 1"
    using q by linarith
  then show "n = 0 \<or> n = 0x80000000"
    using q by (auto simp: word_eq_iff_unsigned [where ?'a = nat])
qed auto

subsection \<open>Decoding a parameter set\<close>

text \<open>
  The fields of an H.265 sequence parameter set of one temporal layer in the order in which the code
  reads them, and the bits they are coded as.
\<close>

record hevc_syntax =
  v_vps :: nat
  v_nested :: bool
  v_space :: nat
  v_tier :: bool
  v_profile :: nat
  v_compat :: nat
  v_constraints :: nat
  v_level :: nat
  v_id :: nat
  v_chroma :: nat
  v_separate :: bool
  v_width :: nat
  v_height :: nat
  v_window :: "nat list option"
  v_lumaDepth :: nat
  v_chromaDepth :: nat
  v_maxPoc :: nat
  v_ordering :: bool
  v_layer :: "nat list"
  v_blocks :: "nat list"
  v_vui :: bool

definition hevcBits :: "hevc_syntax \<Rightarrow> bool list" where
  "hevcBits q = natBits 4 (v_vps q) @ natBits 3 0 @ [v_nested q]
     @ (natBits 2 (v_space q) @ [v_tier q] @ natBits 5 (v_profile q) @ natBits 32 (v_compat q)
        @ natBits 48 (v_constraints q) @ natBits 8 (v_level q) @ [])
     @ ueBits (v_id q) @ ueBits (v_chroma q) @ (if v_chroma q = 3 then [v_separate q] else [])
     @ ueBits (v_width q) @ ueBits (v_height q)
     @ (case v_window q of None \<Rightarrow> [False] | Some ws \<Rightarrow> True # concat (map ueBits ws))
     @ ueBits (v_lumaDepth q) @ ueBits (v_chromaDepth q) @ ueBits (v_maxPoc q) @ [v_ordering q]
     @ concat (map ueBits (v_layer q)) @ concat (map ueBits (v_blocks q)) @ [v_vui q] @ []"

definition hevc_syntax_ok :: "hevc_syntax \<Rightarrow> bool" where
  "hevc_syntax_ok q \<longleftrightarrow> v_vps q < 16 \<and> v_space q < 4 \<and> v_profile q < 32 \<and> v_compat q < 2 ^ 32 \<and>
     v_constraints q < 2 ^ 48 \<and> v_level q < 256 \<and>
     (\<forall>v \<in> {v_id q, v_chroma q, v_width q, v_height q, v_lumaDepth q, v_chromaDepth q, v_maxPoc q}. v + 1 < 2 ^ 33) \<and>
     (case v_window q of None \<Rightarrow> True | Some ws \<Rightarrow> length ws = 4 \<and> (\<forall>v \<in> set ws. v + 1 < 2 ^ 33)) \<and>
     length (v_layer q) = 3 \<and> length (v_blocks q) = 6 \<and> (\<forall>v \<in> set (v_layer q) \<union> set (v_blocks q). v + 1 < 2 ^ 33)"

definition hevcInfo :: "hevc_syntax \<Rightarrow> h265_sps_info" where
  "hevcInfo q = zero_h265_sps\<lparr>h265_numTemporalLayers := 1, h265_temporalIDNested := of_bool (v_nested q),
     h265_generalProfileSpace := of_nat (v_space q), h265_generalTierFlag := of_bool (v_tier q),
     h265_generalProfileIDC := of_nat (v_profile q), h265_generalProfileCompatibilityFlags := of_nat (v_compat q),
     h265_generalConstraintIndicatorFlags := of_nat (v_constraints q), h265_generalLevelIDC := of_nat (v_level q),
     h265_chromaFormat := of_nat (v_chroma q), h265_PicWidthInLumaSamples := of_nat (v_width q),
     h265_SPSWidth := of_nat (v_width q), h265_PicHeightInLumaSamples := of_nat (v_height q),
     h265_SPSHeight := of_nat (v_height q), h265_bitDepthLumaMinus8 := of_nat (v_lumaDepth q),
     h265_bitDepthChromaMinus8 := of_nat (v_chromaDepth q)\<rparr>"

lemma reads_skipUE: "\<forall>v \<in> set vs. v + 1 < 2 ^ 33 \<Longrightarrow> reads (skipUE (length vs)) () (concat (map ueBits vs))"
proof (induction vs)
  case Nil
  then show ?case
    using reads_return [of "()"] by simp
next
  case (Cons v vs)
  have "reads (\<lambda>br. Option.bind (ReadExponentialGolombCode br) (\<lambda>(_, br). skipUE (length vs) br)) ()
      (ueBits v @ concat (map ueBits vs))"
    using Cons by (intro reads_bind [OF reads_ue]) simp_all
  then show ?case
    by simp
qed

lemma reads_window:
  assumes "case w of None \<Rightarrow> True | Some ws \<Rightarrow> length ws = 4 \<and> (\<forall>v \<in> set ws. v + 1 < 2 ^ 33)"
  shows "reads (whenFlag (skipUE 4)) () (case w of None \<Rightarrow> [False] | Some ws \<Rightarrow> True # concat (map ueBits ws))"
proof (cases w)
  case None
  show ?thesis
    unfolding whenFlag_def [abs_def] None option.case by (rule reads_bind_bit) (simp add: reads_return)
next
  case (Some ws)
  have "reads (skipUE 4) () (concat (map ueBits ws))"
    using reads_skipUE [of ws] assms Some by simp
  then show ?thesis
    unfolding whenFlag_def [abs_def] Some option.case by (intro reads_bind_bit) simp
qed

lemma reads_separate:
  "reads (\<lambda>br. if of_nat c = (3 :: u64) then do { (_, br) \<leftarrow> ReadBit br; Some ((), br) } else Some ((), br)) ()
     (if c = 3 then [x] else [])" if "c + 1 < 2 ^ 33"
proof (cases "c = 3")
  case True
  then show ?thesis
    by (simp, intro reads_bind_bit reads_return)
next
  case False
  have "unat (of_nat c :: u64) = c"
    using that by (simp add: unat_of_nat)
  then have "of_nat c \<noteq> (3 :: u64)"
    using False by auto
  then show ?thesis
    using False by (simp add: reads_return)
qed

lemma reads_PTL:
  assumes ok: "hevc_syntax_ok q"
  defines "c0 \<equiv> zero_h265_sps\<lparr>h265_numTemporalLayers := 1, h265_temporalIDNested := of_bool (v_nested q)\<rparr>"
  shows "reads (parsePTL c0 0) (c0\<lparr>h265_generalProfileSpace := of_nat (v_space q), h265_generalTierFlag := of_bool (v_tier q),
      h265_generalProfileIDC := of_nat (v_profile q), h265_generalProfileCompatibilityFlags := of_nat (v_compat q),
      h265_generalConstraintIndicatorFlags := of_nat (v_constraints q), h265_generalLevelIDC := of_nat (v_level q)\<rparr>)
    (natBits 2 (v_space q) @ [v_tier q] @ natBits 5 (v_profile q) @ natBits 32 (v_compat q)
       @ natBits 48 (v_constraints q) @ natBits 8 (v_level q) @ [])"
proof -
  have v: "v_space q < 2 ^ 2" "v_profile q < 2 ^ 5" "v_compat q < 2 ^ 32" "v_constraints q < 2 ^ 48" "v_level q < 2 ^ 8"
    using ok by (simp_all add: hevc_syntax_ok_def)
  have n: "(2 :: nat) < 64" "(5 :: nat) < 64" "(8 :: nat) < 64"
    by simp_all
  have gt: "of_nat x > (0 :: u64) \<longleftrightarrow> of_nat x \<noteq> (0 :: u64)" for x
    by (simp add: word_gt_0)
  let ?p = "zero_h265_sps\<lparr>h265_generalProfileSpace := of_nat (v_space q), h265_generalTierFlag := of_bool (v_tier q),
      h265_generalProfileIDC := of_nat (v_profile q), h265_generalProfileCompatibilityFlags := of_nat (v_compat q),
      h265_generalConstraintIndicatorFlags := of_nat (v_constraints q), h265_generalLevelIDC := of_nat (v_level q)\<rparr>"
  have u: "updatePTL c0 ?p = c0\<lparr>h265_generalProfileSpace := of_nat (v_space q), h265_generalTierFlag := of_bool (v_tier q),
      h265_generalProfileIDC := of_nat (v_profile q), h265_generalProfileCompatibilityFlags := of_nat (v_compat q),
      h265_generalConstraintIndicatorFlags := of_nat (v_constraints q), h265_generalLevelIDC := of_nat (v_level q)\<rparr>"
    by (cases "v_tier q") (simp_all add: updatePTL_def c0_def zero_h265_sps_def Let_def word_gt_0)
  show ?thesis
    unfolding parsePTL_def [abs_def]
    apply (rule reads_bind [OF reads_bits [OF v(1) n(1)]])
    apply (rule reads_bind [OF reads_bit])
    apply (rule reads_bind [OF reads_bits [OF v(2) n(2)]])
    apply (rule reads_bind [OF reads_bits32 [OF v(3)]])
    apply (rule reads_bind [OF reads_bits64 [OF v(4)]])
    apply (rule reads_bind [OF reads_bits [OF v(5) n(3)]])
    apply (simp only: Option.bind.simps u simp_thms if_True)
    apply (rule reads_return)
    done
qed

lemma reads_HevcSPS:
  assumes ok: "hevc_syntax_ok q"
  shows "reads readHevcSPS (hevcInfo q, of_bool (v_vui q)) (hevcBits q)"
proof -
  have v: "v_vps q < 2 ^ 4" "(0 :: nat) < 2 ^ 3" "v_id q + 1 < 2 ^ 33" "v_chroma q + 1 < 2 ^ 33" "v_width q + 1 < 2 ^ 33"
    "v_height q + 1 < 2 ^ 33" "v_lumaDepth q + 1 < 2 ^ 33" "v_chromaDepth q + 1 < 2 ^ 33" "v_maxPoc q + 1 < 2 ^ 33"
    and l: "3 = length (v_layer q)" "6 = length (v_blocks q)" "\<forall>v \<in> set (v_layer q). v + 1 < 2 ^ 33"
      "\<forall>v \<in> set (v_blocks q). v + 1 < 2 ^ 33"
    and w: "case v_window q of None \<Rightarrow> True | Some ws \<Rightarrow> length ws = 4 \<and> (\<forall>v \<in> set ws. v + 1 < 2 ^ 33)"
    using ok by (auto simp: hevc_syntax_ok_def)
  have n: "(4 :: nat) < 64" "(3 :: nat) < 64"
    by simp_all
  have layers: "reads (skipUE (3 * (if of_bool (v_ordering q) \<noteq> (0 :: u64) then unat (0 :: u64) + 1 else 1))) ()
      (concat (map ueBits (v_layer q)))"
    using reads_skipUE [OF l(3)] l(1) by simp
  have blocks: "reads (skipUE 6) () (concat (map ueBits (v_blocks q)))"
    using reads_skipUE [OF l(4)] l(2) by simp
  have zero3: "reads (ReadBits 3) 0 (natBits 3 0)"
    using reads_bits [OF v(2) n(2)] by simp
  have one: "(if 0 + 1 > (0 :: u64) then 0 + 1 else 0) = (1 :: u64)"
    by simp
  show ?thesis
    unfolding readHevcSPS_def [abs_def] hevcBits_def
    apply (rule reads_bind [OF reads_bits [OF v(1) n(1)]])
    apply (rule reads_bind [OF zero3])
    apply (rule reads_bind [OF reads_bit])
    apply (simp only: one)
    apply (rule reads_bind [OF reads_PTL [OF ok]])
    apply (rule reads_bind [OF reads_ue [OF v(3)]])
    apply (rule reads_bind [OF reads_ue [OF v(4)]])
    apply (rule reads_bind [OF reads_separate [OF v(4)]])
    apply (rule reads_bind [OF reads_ue [OF v(5)]])
    apply (rule reads_bind [OF reads_ue [OF v(6)]])
    apply (rule reads_bind [OF reads_window [OF w]])
    apply (rule reads_bind [OF reads_ue [OF v(7)]])
    apply (rule reads_bind [OF reads_ue [OF v(8)]])
    apply (rule reads_bind [OF reads_ue [OF v(9)]])
    apply (rule reads_bind [OF reads_bit])
    apply (rule reads_bind [OF layers])
    apply (rule reads_bind [OF blocks])
    apply (rule reads_bind [OF reads_bit])
    apply (rule back_subst [where P = "\<lambda>x. reads (\<lambda>s. Some (x, s)) _ []", OF reads_return])
    apply (simp add: hevcInfo_def)
    done
qed

lemma h265_ParseSPS_syntax:
  assumes "hevc_syntax_ok q" and "length hdr = 2" and "concat (map byteBits rbsp) = hevcBits q @ rest"
  shows "\<exists>br. bitsOf br = rest \<and> h265_ParseSPS (hdr @ insertEmulation 0 rbsp) =
    (if v_vui q then case h265_parseVUI (hevcInfo q) br of None \<Rightarrow> Inl H265_DividePanic | Some i \<Rightarrow> Inr i
     else Inr (hevcInfo q))"
proof -
  have "bitsOf (newGolomb rbsp) = hevcBits q @ rest"
    using assms(3) by (simp add: bitsOf_newGolomb)
  then obtain br where "readHevcSPS (newGolomb rbsp) = Some ((hevcInfo q, of_bool (v_vui q)), br)" "bitsOf br = rest"
    using reads_HevcSPS [OF assms(1)] unfolding reads_def by blast
  then show ?thesis
    using assms(2) by (intro exI [of _ br]) (simp add: h265_ParseSPS_def nal2rbsp_Remove Remove_insert)
qed

text \<open>The VUI reader on a VUI with no field set before the timing information.\<close>

definition skips :: "(golomb \<Rightarrow> golomb) \<Rightarrow> bool list \<Rightarrow> bool" where
  "skips f bs \<longleftrightarrow> (\<forall>s rest. bitsOf s = bs @ rest \<longrightarrow> bitsOf (f s) = rest)"

lemma lenient_reads: "reads f x bs \<Longrightarrow> bitsOf s = bs @ rest \<Longrightarrow> fst (lenient f s) = x \<and> bitsOf (snd (lenient f s)) = rest"
  by (fastforce simp: reads_def lenient_def)

lemma skips_noFlag: "skips (lenientFlag body) [False]"
  unfolding skips_def lenientFlag_def case_prod_beta using lenient_reads [OF reads_bit [of False]] by simp

lemma skips_bits: "skips (skipLenient ReadBit (length bs)) bs"
proof (induction bs)
  case (Cons b bs)
  show ?case
    unfolding skips_def
  proof (intro allI impI)
    fix s rest
    assume "bitsOf s = (b # bs) @ rest"
    then have "bitsOf (snd (lenient ReadBit s)) = bs @ rest"
      using lenient_reads [OF reads_bit [of b], of s "bs @ rest"] by simp
    then have "bitsOf (skipLenient ReadBit (length bs) (snd (lenient ReadBit s))) = rest"
      using Cons.IH by (simp add: skips_def)
    then show "bitsOf (skipLenient ReadBit (length (b # bs)) s) = rest"
      by (simp add: skipLenient_def funpow_Suc_right del: funpow.simps)
  qed
qed (simp add: skips_def skipLenient_def)

lemma skips_plainVUI: "skips skipVUIFields (replicate 8 False)"
  unfolding skips_def
proof (intro allI impI)
  fix s rest
  assume "bitsOf s = replicate 8 False @ rest"
  then have s: "bitsOf s = [False] @ [False] @ [False] @ [False] @ [False, False, False] @ [False] @ rest"
    by (simp add: numeral_eq_Suc)
  have "skips (skipLenient ReadBit 3) [False, False, False]"
    using skips_bits [of "[False, False, False]"] by (simp add: numeral_eq_Suc)
  then show "bitsOf (skipVUIFields s) = rest"
    using s skips_noFlag unfolding skipVUIFields_def Let_def skips_def by blast
qed

lemma lenientBits32_bits:
  "bitsOf s = bs @ rest \<Longrightarrow>
   fst (lenientBits32 (length bs) r s) = push_bit (length bs) r OR bitsWord bs \<and> bitsOf (snd (lenientBits32 (length bs) r s)) = rest"
proof (induction bs arbitrary: s r)
  case (Cons b bs)
  obtain s1 where s1: "ReadBit s = Some (of_bool b, s1)" "bitsOf s1 = bs @ rest"
    using ReadBit_Some [of s b "bs @ rest"] Cons.prems by auto
  have "push_bit (length bs) (push_bit 1 r OR ucast (of_bool b :: u64)) = push_bit (Suc (length bs)) r OR push_bit (length bs) (of_bool b)"
    by (simp add: push_bit_or)
  then show ?case
    using Cons.IH [OF s1(2), of "push_bit 1 r OR ucast (of_bool b :: u64)"] s1(1) by (simp add: or.assoc)
qed simp

lemma plainVUI_timing:
  assumes "bitsOf br = replicate 8 False @ True # natBits 32 n @ rest" and "n < 2 ^ 32"
  shows "fst (lenient ReadBit (skipVUIFields br)) \<noteq> 0"
    and "fst (lenientBits32 32 0 (snd (lenient ReadBit (skipVUIFields br)))) = of_nat n"
proof -
  have "bitsOf (skipVUIFields br) = [True] @ natBits 32 n @ rest"
    using skips_plainVUI assms(1) by (simp add: skips_def)
  from lenient_reads [OF reads_bit [of True] this]
  show "fst (lenient ReadBit (skipVUIFields br)) \<noteq> 0"
    and "fst (lenientBits32 32 0 (snd (lenient ReadBit (skipVUIFields br)))) = of_nat n"
    using lenientBits32_bits [of _ "natBits 32 n" rest 0] assms(2) by (simp_all add: bitsWord_natBits_small)
qed

subsection \<open>Properties\<close>

text \<open>
  C25.  A codec built from a VPS, an SPS and a PPS is rebuilt, equal in every field, from its own hvcC record:
  whenever the constructor accepts the parameter sets, each is shorter than 64 KiB, and the SPS codes
  a chroma format below 4, bit depths below 16 and at most 7 temporal layers, the record that \<^verbatim>\<open>Marshal\<close>
  wrote is \<^verbatim>\<open>Len\<close> bytes long and parsing it gives the same record, the same SPS fields and the same codec.
\<close>

theorem h265_codec_roundtrip:
  assumes new: "h265_NewCodecDataFromVPSAndSPSAndPPS vps sps pps = Inr c"
    and len: "length vps < 2 ^ 16" "length sps < 2 ^ 16" "length pps < 2 ^ 16"
    and rng: "h265_chromaFormat (h265_SPSInfo c) < 4" "h265_bitDepthLumaMinus8 (h265_SPSInfo c) < 8"
      "h265_bitDepthChromaMinus8 (h265_SPSInfo c) < 8" "h265_numTemporalLayers (h265_SPSInfo c) < 8"
  shows "h265_NewCodecDataFromAVCDecoderConfRecord (h265_Record c) = Inr c \<and>
    length (h265_Record c) = HEVC_Len (h265_RecordInfo c)"
proof -
  obtain info where i: "h265_ParseSPS sps = Inr info"
    and c: "c = \<lparr>h265_Record = HEVC_Marshal (recordOf info vps sps pps) info, h265_RecordInfo = recordOf info vps sps pps,
      h265_SPSInfo = info, h265_ControlURL = []\<rparr>"
    using new by (auto simp: h265_NewCodecDataFromVPSAndSPSAndPPS_def Let_def split: if_splits sum.splits)
  have small: "ucast v = (0 :: byte) \<longleftrightarrow> v = 0" "unat (ucast v :: byte) = unat v" if "unat v < 256" for v :: u64
    using that by (simp_all add: word_eq_iff_unsigned [where ?'a = nat] unsigned_ucast_eq take_bit_eq_mod)
  have fb: "fallback (ucast v) v = ucast v" if "unat v < 256" for v
    using small(1) [OF that] by (auto simp: fallback_def)
  have "hevc_ok (recordOf info vps sps pps) info"
    using h265_ParseSPS_ok [OF i] rng len unfolding c
    by (simp add: hevc_ok_def recordOf_def ptl_ok_def word_less_nat_alt fb small)
  from HEVC_Unmarshal_Marshal [OF this] show ?thesis
    using i by (simp add: c h265_NewCodecDataFromAVCDecoderConfRecord_def recordOf_def length_HEVC_Marshal)
qed

definition ex_hevc_rbsp :: bytes where
  "ex_hevc_rbsp = [1, 1, 96, 0, 0, 0, 144, 0, 0, 0, 0, 0, 93, 160, 32, 130, 22, 95, 253]"

definition ex_hevc_syntax :: "bool \<Rightarrow> hevc_syntax" where
  "ex_hevc_syntax vui = \<lparr>v_vps = 0, v_nested = True, v_space = 0, v_tier = False, v_profile = 1, v_compat = 0x60000000,
     v_constraints = 0x900000000000, v_level = 93, v_id = 0, v_chroma = 1, v_separate = False, v_width = 64, v_height = 32,
     v_window = None, v_lumaDepth = 0, v_chromaDepth = 0, v_maxPoc = 4, v_ordering = True, v_layer = [0, 0, 0],
     v_blocks = [0, 0, 0, 0, 0, 0], v_vui = vui\<rparr>"

lemma ex_hevc_ok: "hevc_syntax_ok (ex_hevc_syntax vui)"
  by (simp add: hevc_syntax_ok_def ex_hevc_syntax_def)

text \<open>
  C27.  \<^verbatim>\<open>h265parser.ParseSPS\<close> recovers what an encoder coded: for every parameter set of one temporal layer
  whose bits follow the order in which the code reads them and that has no VUI, escaped by emulation
  prevention, it returns the coded profile, tier, level, constraint and compatibility flags, chroma
  format, bit depths, and the coded picture width and height, whatever the conformance window is.
\<close>

theorem h265_sps_fields_recovered:
  assumes "hevc_syntax_ok q" and "length hdr = 2" and "concat (map byteBits rbsp) = hevcBits q @ rest" and "\<not> v_vui q"
  shows "h265_ParseSPS (hdr @ insertEmulation 0 rbsp) = Inr (hevcInfo q)"
  using h265_ParseSPS_syntax [OF assms(1-3)] assms(4) by auto

lemma ex_ueBits: "ueBits 0 = [True]" "ueBits (Suc 0) = [False, True, False]" "ueBits 4 = [False, False, True, False, True]"
  "ueBits 32 = [False, False, False, False, False, True, False, False, False, False, True]"
  "ueBits 64 = [False, False, False, False, False, False, True, False, False, False, False, False, True]"
  by code_simp+

lemma replicate_8: "replicate 8 x = [x, x, x, x, x, x, x, x]"
  by (simp add: numeral_eq_Suc)

lemmas ex_bits = replicate_8 hevcBits_def ex_hevc_syntax_def byteBits_def natBits_def ex_ueBits upt_rec bit_Suc_0_iff

lemma ex_hevc_bits: "concat (map byteBits ex_hevc_rbsp) = hevcBits (ex_hevc_syntax False) @ [True]"
  by (simp add: ex_hevc_rbsp_def ex_bits)

theorem h265_sps_fields_recovered_witness:
  "h265_ParseSPS ([0x42, 0x01] @ insertEmulation 0 ex_hevc_rbsp) = Inr (hevcInfo (ex_hevc_syntax False)) \<and>
   h265_SPSWidth (hevcInfo (ex_hevc_syntax False)) = 64"
proof
  show "h265_ParseSPS ([0x42, 0x01] @ insertEmulation 0 ex_hevc_rbsp) = Inr (hevcInfo (ex_hevc_syntax False))"
    by (rule h265_sps_fields_recovered [OF ex_hevc_ok _ ex_hevc_bits]) (simp_all add: ex_hevc_syntax_def)
  show "h265_SPSWidth (hevcInfo (ex_hevc_syntax False)) = 64"
    by (simp add: hevcInfo_def ex_hevc_syntax_def)
qed

theorem h265_codec_roundtrip_witness:
  "\<exists>c. h265_NewCodecDataFromVPSAndSPSAndPPS [0x40, 0x01, 12] ([0x42, 0x01] @ insertEmulation 0 ex_hevc_rbsp) [0x44, 0x01, 193] = Inr c \<and>
   h265_NewCodecDataFromAVCDecoderConfRecord (h265_Record c) = Inr c \<and> h265_Width c = 64"
proof -
  let ?sps = "[0x42, 0x01] @ insertEmulation 0 ex_hevc_rbsp"
  have len: "length (insertEmulation 0 ex_hevc_rbsp) = 22"
    by (simp add: ex_hevc_rbsp_def)
  obtain br where "h265_ParseSPS ?sps = Inr (hevcInfo (ex_hevc_syntax False))"
    using h265_ParseSPS_syntax [OF ex_hevc_ok _ ex_hevc_bits, of "[0x42, 0x01]"] by (auto simp: ex_hevc_syntax_def)
  then obtain c where c: "h265_NewCodecDataFromVPSAndSPSAndPPS [0x40, 0x01, 12] ?sps [0x44, 0x01, 193] = Inr c"
    and i: "h265_SPSInfo c = hevcInfo (ex_hevc_syntax False)"
    using len by (simp add: h265_NewCodecDataFromVPSAndSPSAndPPS_def Let_def)
  then show ?thesis
    using h265_codec_roundtrip [OF c] len by (simp add: i hevcInfo_def ex_hevc_syntax_def zero_h265_sps_def h265_Width_def)
qed

text \<open>
  C28.  The VUI parser of the H.265 SPS crashes on untrusted input: it divides by the 32-bit product
  \<^verbatim>\<open>2 * numUnitsInTick\<close>, which is zero for a non-zero \<^verbatim>\<open>numUnitsInTick\<close> exactly when the field is 2^31, so parsing
  panics exactly then; and for every parameter set there is a VUI that reaches the panic.
\<close>

theorem h265_vui_panics_iff:
  assumes "hevc_syntax_ok q" and "v_vui q" and "length hdr = 2"
    and "concat (map byteBits rbsp) = hevcBits q @ replicate 8 False @ True # natBits 32 n @ rest" and "n < 2 ^ 32"
  shows "h265_ParseSPS (hdr @ insertEmulation 0 rbsp) = Inl H265_DividePanic \<longleftrightarrow> n = 2 ^ 31"
proof -
  obtain br where br: "bitsOf br = replicate 8 False @ True # natBits 32 n @ rest"
    and p: "h265_ParseSPS (hdr @ insertEmulation 0 rbsp) =
      (case h265_parseVUI (hevcInfo q) br of None \<Rightarrow> Inl H265_DividePanic | Some i \<Rightarrow> Inr i)"
    using h265_ParseSPS_syntax [OF assms(1,3,4)] assms(2) by auto
  have "unat (of_nat n :: u32) = n"
    using assms(5) by (simp add: unat_of_nat_u32)
  then have "of_nat n = (0x80000000 :: u32) \<longleftrightarrow> n = 2 ^ 31"
    by (auto simp: word_eq_iff_unsigned [where ?'a = nat])
  then have "h265_parseVUI (hevcInfo q) br = None \<longleftrightarrow> n = 2 ^ 31"
    using plainVUI_timing [OF br assms(5)]
    by (auto simp: h265_parseVUI_def double_zero split: prod.splits)
  then show ?thesis
    unfolding p by (auto split: option.splits)
qed

theorem h265_vui_panics_iff_witness:
  "h265_ParseSPS ([0x42, 0x01] @ insertEmulation 0
    [1, 1, 96, 0, 0, 0, 144, 0, 0, 0, 0, 0, 93, 160, 32, 130, 22, 95, 254, 1, 128, 0, 0, 0, 0, 0, 0, 50]) = Inl H265_DividePanic"
proof -
  have "concat (map byteBits [1, 1, 96, 0, 0, 0, 144, 0, 0, 0, 0, 0, 93, 160, 32, 130, 22, 95, 254, 1, 128, 0, 0, 0, 0, 0, 0, 50]) =
    hevcBits (ex_hevc_syntax True) @ replicate 8 False @ True # natBits 32 (2 ^ 31) @ natBits 32 50"
    by (simp add: ex_bits)
  from h265_vui_panics_iff [OF ex_hevc_ok _ _ this, of "[0x42, 0x01]"] show ?thesis
    by (simp add: ex_hevc_syntax_def)
qed

end
