(* ===== verification/Aac.thy ===== *)
theory Aac
  imports Av_Types Bits
begin

unbundle bit_operations_syntax

text \<open>
  \<^verbatim>\<open>av/codec/aacparser/parser.go\<close>: the AudioSpecificConfig (\<open>ParseMPEG4AudioConfigBytes\<close>,
  \<open>WriteMPEG4AudioConfig\<close>), the ADTS frame header (\<open>ParseADTSHeader\<close>, \<open>FillADTSHeader\<close>) and the codec
  descriptor.  Go's \<^verbatim>\<open>uint\<close> is a 64-bit word; \<^verbatim>\<open>int\<close> is \<open>int\<close> with explicit wrap-around.  The
  configuration writer writes to a \<^verbatim>\<open>bytes.Buffer\<close>, which accepts every byte.  An error result of the
  parsers carries the error only: no caller looks at the partly filled configuration.
\<close>

datatype aac_error =
  ErrAACUnexpectedEOF | ErrAACEOF | ErrAACparserNotAdtsHeader | ErrAACparserAdtsChannelCountInvalid |
  ErrAACparserAdtsFrameLen | ErrAACparserMPEG4AudioConfigFailed | ErrAACparserInvalidSampleRateIndex |
  ErrAACparserInvalidSampleRate

definition AOT_AAC_LC :: u64 where
  "AOT_AAC_LC = 2"

definition AOT_ESCAPE :: u64 where
  "AOT_ESCAPE = 31"

definition ChFrontCenter :: channel_layout where "ChFrontCenter = 1"
definition ChFrontLeft :: channel_layout where "ChFrontLeft = 2"
definition ChFrontRight :: channel_layout where "ChFrontRight = 4"
definition ChBackCenter :: channel_layout where "ChBackCenter = 8"
definition ChBackLeft :: channel_layout where "ChBackLeft = 16"
definition ChBackRight :: channel_layout where "ChBackRight = 32"
definition ChSideLeft :: channel_layout where "ChSideLeft = 64"
definition ChSideRight :: channel_layout where "ChSideRight = 128"
definition ChLowFreq :: channel_layout where "ChLowFreq = 256"

lemmas channel_defs = ChFrontCenter_def ChFrontLeft_def ChFrontRight_def ChBackCenter_def ChBackLeft_def
  ChBackRight_def ChSideLeft_def ChSideRight_def ChLowFreq_def

definition sampleRateTable :: "int list" where
  "sampleRateTable =
    [96000, 88200, 64000, 48000, 44100, 32000, 24000, 22050, 16000, 12000, 11025, 8000, 7350]"

definition chanConfigTable :: "channel_layout list" where
  "chanConfigTable =
    [0,
     ChFrontCenter,
     ChFrontLeft OR ChFrontRight,
     ChFrontCenter OR ChFrontLeft OR ChFrontRight,
     ChFrontCenter OR ChFrontLeft OR ChFrontRight OR ChBackCenter,
     ChFrontCenter OR ChFrontLeft OR ChFrontRight OR ChBackLeft OR ChBackRight,
     ChFrontCenter OR ChFrontLeft OR ChFrontRight OR ChBackLeft OR ChBackRight OR ChLowFreq,
     ChFrontCenter OR ChFrontLeft OR ChFrontRight OR ChSideLeft OR ChSideRight OR ChBackLeft OR ChBackRight
       OR ChLowFreq]"

definition layoutToChannelConfig :: "channel_layout \<rightharpoonup> u64" where
  "layoutToChannelConfig = map_of
    [(ChFrontCenter, 1),
     (ChFrontLeft OR ChFrontRight, 2),
     (ChFrontCenter OR ChFrontLeft OR ChFrontRight, 3),
     (ChFrontCenter OR ChFrontLeft OR ChFrontRight OR ChBackCenter, 4),
     (ChFrontCenter OR ChFrontLeft OR ChFrontRight OR ChBackLeft OR ChBackRight, 5),
     (ChFrontCenter OR ChFrontLeft OR ChFrontRight OR ChBackLeft OR ChBackRight OR ChLowFreq, 6)]"

definition zero_aac_config :: aac_config where
  "zero_aac_config = \<lparr>aac_SampleRate = 0, aac_ChannelLayout = 0, aac_ObjectType = 0, aac_SampleRateIndex = 0,
     aac_ChannelConfig = 0\<rparr>"

definition aac_IsValid :: "aac_config \<Rightarrow> bool" where
  "aac_IsValid c \<longleftrightarrow> aac_ObjectType c > 0"

definition Complete :: "aac_config \<Rightarrow> aac_config" where
  "Complete c =
    (let c1 = (if unat (aac_SampleRateIndex c) < length sampleRateTable
               then c\<lparr>aac_SampleRate := sampleRateTable ! unat (aac_SampleRateIndex c)\<rparr> else c)
     in if unat (aac_ChannelConfig c1) < length chanConfigTable
        then c1\<lparr>aac_ChannelLayout := chanConfigTable ! unat (aac_ChannelConfig c1)\<rparr> else c1)"

subsection \<open>ADTS\<close>

definition ParseADTSHeader :: "bytes \<Rightarrow> aac_error + aac_config \<times> nat \<times> nat \<times> nat" where
  "ParseADTSHeader frame =
    (if length frame < 7 then Inl ErrAACUnexpectedEOF
     else if frame ! 0 \<noteq> 0xff \<or> (frame ! 1) AND 0xf0 \<noteq> 0xf0 then Inl ErrAACparserNotAdtsHeader
     else let objectType = ucast (drop_bit 6 (frame ! 2)) + 1;
              sampleRateIndex = ucast (drop_bit 2 (frame ! 2) AND 0xf);
              channelConfig = ucast ((push_bit 2 (frame ! 2) AND 0x4) OR (drop_bit 6 (frame ! 3) AND 0x3))
          in if length sampleRateTable \<le> unat sampleRateIndex then Inl ErrAACparserInvalidSampleRateIndex
             else if channelConfig > 7 then Inl ErrAACparserAdtsChannelCountInvalid
             else let config = Complete (zero_aac_config\<lparr>aac_ObjectType := objectType,
                        aac_SampleRateIndex := sampleRateIndex, aac_ChannelConfig := channelConfig\<rparr>);
                      framelen = push_bit 11 (unat ((frame ! 3) AND 0x03)) OR push_bit 3 (unat (frame ! 4))
                        OR drop_bit 5 (unat (frame ! 5));
                      samples = (unat ((frame ! 6) AND 0x3) + 1) * 1024;
                      hdrlen = (if (frame ! 1) AND 0x1 = 0 then 9 else 7)
                  in if framelen < hdrlen then Inl ErrAACparserAdtsFrameLen
                     else if length frame < framelen then Inl ErrAACUnexpectedEOF
                     else Inr (config, hdrlen, framelen, samples))"

definition FillADTSHeader :: "bytes \<Rightarrow> aac_config \<Rightarrow> int \<Rightarrow> int \<Rightarrow> bytes" where
  "FillADTSHeader header config samples payloadLength0 =
    (if length header < 7 then header
     else let payloadLength = wrap64 (payloadLength0 + 7);
              h2 = push_bit 6 (ucast (aac_ObjectType config - 1) AND 0x3)
                OR push_bit 2 (ucast (aac_SampleRateIndex config) AND 0xf)
                OR (ucast (drop_bit 2 (aac_ChannelConfig config)) AND 0x1);
              h3 = (0x80 AND 0x3f) OR push_bit 6 (ucast (aac_ChannelConfig config AND 0x3));
              h3' = (h3 AND 0xfc) OR (word_of_int (drop_bit 11 payloadLength) AND 0x3);
              h4 = word_of_int (drop_bit 3 payloadLength);
              h5 = (0xff AND 0x1f) OR push_bit 5 (word_of_int payloadLength AND 0x7);
              h6 = (0xcd AND 0xfc) OR word_of_int (go_quot samples 1024 - 1)
          in [0xff, 0xf1, h2, h3', h4, h5, h6] @ drop 7 header)"

definition ExtractADTSFrame :: "bytes \<Rightarrow> aac_error + bytes \<times> aac_config \<times> nat" where
  "ExtractADTSFrame frame =
    (case ParseADTSHeader frame of
       Inl e \<Rightarrow> Inl e
     | Inr (config, hdrlen, framelen, samples) \<Rightarrow> Inr (slice frame hdrlen framelen, config, samples))"

subsection \<open>AudioSpecificConfig\<close>

definition readObjectType :: "bitReader \<Rightarrow> (u64 \<times> bitReader) option" where
  "readObjectType r = do {
     (objectType, r) \<leftarrow> nextBits 5 r;
     if objectType = AOT_ESCAPE then do { (i, r) \<leftarrow> nextBits 6 r; Some (32 + i, r) }
     else Some (objectType, r)
   }"

definition writeObjectType :: "u64 \<Rightarrow> bitWriter \<Rightarrow> bitWriter" where
  "writeObjectType objectType w =
    (if objectType \<ge> 32 then WriteBits (objectType - 32) 6 (WriteBits AOT_ESCAPE 5 w)
     else WriteBits objectType 5 w)"

definition readSampleRateIndex :: "bitReader \<Rightarrow> (u64 \<times> bitReader) option" where
  "readSampleRateIndex r = do {
     (index, r) \<leftarrow> nextBits 4 r;
     if index = 0xf then nextBits 24 r else Some (index, r)
   }"

definition writeSampleRateIndex :: "u64 \<Rightarrow> bitWriter \<Rightarrow> bitWriter" where
  "writeSampleRateIndex index w =
    (if index \<ge> 0xf then WriteBits index 24 (WriteBits 0xf 4 w) else WriteBits index 4 w)"

definition ParseMPEG4AudioConfigBytes :: "bytes \<Rightarrow> aac_config option" where
  "ParseMPEG4AudioConfigBytes data = do {
     (objectType, br) \<leftarrow> readObjectType (newBitReader data);
     (sampleRateIndex, br) \<leftarrow> readSampleRateIndex br;
     (channelConfig, br) \<leftarrow> nextBits 4 br;
     Some (Complete (zero_aac_config\<lparr>aac_ObjectType := objectType, aac_SampleRateIndex := sampleRateIndex,
       aac_ChannelConfig := channelConfig\<rparr>))
   }"

text \<open>The two fields that \<^verbatim>\<open>WriteMPEG4AudioConfig\<close> derives when they are zero.\<close>

definition effectiveIndex :: "aac_config \<Rightarrow> u64" where
  "effectiveIndex c =
    (if aac_SampleRateIndex c = 0
     then foldl (\<lambda>ix i. if sampleRateTable ! i = aac_SampleRate c then of_nat i else ix) 0
       [0..<length sampleRateTable]
     else aac_SampleRateIndex c)"

definition effectiveChannels :: "aac_config \<Rightarrow> u64" where
  "effectiveChannels c =
    (if aac_ChannelConfig c = 0
     then (case layoutToChannelConfig (aac_ChannelLayout c) of Some cc \<Rightarrow> cc | None \<Rightarrow> 0)
     else aac_ChannelConfig c)"

definition WriteMPEG4AudioConfig :: "aac_config \<Rightarrow> bytes" where
  "WriteMPEG4AudioConfig config =
    bw_W (FlushBits (WriteBits (effectiveChannels config) 4
      (writeSampleRateIndex (effectiveIndex config) (writeObjectType (aac_ObjectType config) newBitWriter))))"

definition aac_NewCodecDataFromMPEG4AudioConfigBytes :: "bytes \<Rightarrow> aac_error + aac_codec" where
  "aac_NewCodecDataFromMPEG4AudioConfigBytes config =
    (case ParseMPEG4AudioConfigBytes config of
       None \<Rightarrow> Inl ErrAACparserMPEG4AudioConfigFailed
     | Some c \<Rightarrow> Inr \<lparr>aac_ConfigBytes = config, aac_Config = c\<rparr>)"

definition aac_NewCodecDataFromMPEG4AudioConfig :: "aac_config \<Rightarrow> aac_error + aac_codec" where
  "aac_NewCodecDataFromMPEG4AudioConfig config =
    aac_NewCodecDataFromMPEG4AudioConfigBytes (WriteMPEG4AudioConfig config)"

definition aac_IsLC :: "aac_codec \<Rightarrow> bool" where
  "aac_IsLC s \<longleftrightarrow> aac_ObjectType (aac_Config s) = AOT_AAC_LC"

definition aac_PacketDuration :: "aac_codec \<Rightarrow> aac_error + int" where
  "aac_PacketDuration s =
    (if aac_SampleRate (aac_Config s) = 0 then Inl ErrAACparserInvalidSampleRate
     else Inr (go_quot (second * 1024) (aac_SampleRate (aac_Config s))))"

subsection \<open>The configuration round trip\<close>

definition asc_ok :: "aac_config \<Rightarrow> bool" where
  "asc_ok c \<longleftrightarrow> aac_ObjectType c < 96 \<and> aac_ObjectType c \<noteq> AOT_ESCAPE \<and> effectiveIndex c < 0x1000000 \<and>
     effectiveChannels c < 16"

definition objectTypeFields :: "u64 \<Rightarrow> (nat \<times> u64) list" where
  "objectTypeFields t = (if t \<ge> 32 then [(5, AOT_ESCAPE), (6, t - 32)] else [(5, t)])"

definition indexFields :: "u64 \<Rightarrow> (nat \<times> u64) list" where
  "indexFields i = (if i \<ge> 0xf then [(4, 0xf), (24, i)] else [(4, i)])"

lemma objectTypeFields_cases:
  "t < 32 \<Longrightarrow> objectTypeFields t = [(5, t)]" "\<not> t < 32 \<Longrightarrow> objectTypeFields t = [(5, AOT_ESCAPE), (6, t - 32)]"
  by (auto simp: objectTypeFields_def)

lemma indexFields_cases:
  "i < 15 \<Longrightarrow> indexFields i = [(4, i)]" "\<not> i < 15 \<Longrightarrow> indexFields i = [(4, 15), (24, i)]"
  by (auto simp: indexFields_def)

lemma lowOnly_less: "unat v < 2 ^ n \<Longrightarrow> lowOnly n v" for v :: u64
  by (simp add: lowOnly_iff_take_bit take_bit_small)

lemma lowOnly_fields:
  "t < 32 \<Longrightarrow> lowOnly 5 t" "t < 96 \<Longrightarrow> \<not> t < 32 \<Longrightarrow> lowOnly 6 (t - 32)" "t < 0x1000000 \<Longrightarrow> lowOnly 24 t"
  "t < 16 \<Longrightarrow> lowOnly 4 t" "t < 15 \<Longrightarrow> lowOnly 4 t" "lowOnly 5 AOT_ESCAPE" "lowOnly 4 (15 :: u64)" for t :: u64
proof -
  show "lowOnly 6 (t - 32)" if t: "t < 96" "\<not> t < 32"
  proof -
    have "unat (t - 32) = unat t - 32"
      using t(2) by (simp add: unat_sub not_less)
    then show ?thesis
      using t by (intro lowOnly_less) (simp add: word_less_nat_alt)
  qed
qed (rule lowOnly_less; simp add: word_less_nat_alt AOT_ESCAPE_def)+

lemma fields_ok_asc: "asc_ok c \<Longrightarrow>
  fields_ok 57 (objectTypeFields (aac_ObjectType c) @ indexFields (effectiveIndex c) @ [(4, effectiveChannels c)])"
  by (cases "aac_ObjectType c < 32"; cases "effectiveIndex c < 15")
    (simp_all add: fields_ok_def asc_ok_def objectTypeFields_cases indexFields_cases lowOnly_fields)

lemma WriteMPEG4AudioConfig_fields:
  "newBitReader (WriteMPEG4AudioConfig c) = handOver (foldl (\<lambda>w (n, v). WriteBits v n w) newBitWriter
     (objectTypeFields (aac_ObjectType c) @ indexFields (effectiveIndex c) @ [(4, effectiveChannels c)]))"
  by (simp add: WriteMPEG4AudioConfig_def handOver_def writeObjectType_def writeSampleRateIndex_def
      objectTypeFields_def indexFields_def)

lemma readObjectType_fields:
  assumes r: "reader_ok r" and t: "t < 96" "t \<noteq> AOT_ESCAPE" and b: "readerBits r = fieldsBits (objectTypeFields t) @ rest"
  shows "\<exists>r'. readObjectType r = Some (t, r') \<and> readerBits r' = rest \<and> reader_ok r'"
proof (cases "t < 32")
  case True
  then have "\<exists>r1. nextBits 5 r = Some (t, r1) \<and> readerBits r1 = rest \<and> reader_ok r1"
    using b by (intro bch.rd_word [OF r]) (simp_all add: objectTypeFields_cases lowOnly_fields)
  then show ?thesis
    using t by (auto simp: readObjectType_def)
next
  case False
  then have "\<exists>r1. nextBits 5 r = Some (AOT_ESCAPE, r1) \<and> readerBits r1 = wordBits 6 (t - 32) @ rest \<and> reader_ok r1"
    using b by (intro bch.rd_word [OF r]) (simp_all add: objectTypeFields_cases lowOnly_fields)
  then obtain r1 where r1: "nextBits 5 r = Some (AOT_ESCAPE, r1)" "readerBits r1 = wordBits 6 (t - 32) @ rest" "reader_ok r1"
    by blast
  have "\<exists>r2. nextBits 6 r1 = Some (t - 32, r2) \<and> readerBits r2 = rest \<and> reader_ok r2"
    using r1(2) lowOnly_fields(2) [OF t(1) False] by (intro bch.rd_word [OF r1(3)]) simp_all
  then show ?thesis
    using r1(1) by (auto simp: readObjectType_def)
qed

lemma readSampleRateIndex_fields:
  assumes r: "reader_ok r" and i: "i < 0x1000000" and b: "readerBits r = fieldsBits (indexFields i) @ rest"
  shows "\<exists>r'. readSampleRateIndex r = Some (i, r') \<and> readerBits r' = rest \<and> reader_ok r'"
proof (cases "i < 15")
  case True
  then have "\<exists>r1. nextBits 4 r = Some (i, r1) \<and> readerBits r1 = rest \<and> reader_ok r1"
    using b by (intro bch.rd_word [OF r]) (simp_all add: indexFields_cases lowOnly_fields)
  then show ?thesis
    using True by (auto simp: readSampleRateIndex_def)
next
  case False
  then have "\<exists>r1. nextBits 4 r = Some (15, r1) \<and> readerBits r1 = wordBits 24 i @ rest \<and> reader_ok r1"
    using b by (intro bch.rd_word [OF r]) (simp_all add: indexFields_cases lowOnly_fields)
  then obtain r1 where r1: "nextBits 4 r = Some (15, r1)" "readerBits r1 = wordBits 24 i @ rest" "reader_ok r1"
    by blast
  have "\<exists>r2. nextBits 24 r1 = Some (i, r2) \<and> readerBits r2 = rest \<and> reader_ok r2"
    using r1(2) lowOnly_fields(3) [OF i] by (intro bch.rd_word [OF r1(3)]) simp_all
  then show ?thesis
    using r1(1) by (auto simp: readSampleRateIndex_def)
qed

lemma Parse_Write_AudioConfig:
  assumes "asc_ok c"
  shows "ParseMPEG4AudioConfigBytes (WriteMPEG4AudioConfig c) =
    Some (Complete (zero_aac_config\<lparr>aac_ObjectType := aac_ObjectType c, aac_SampleRateIndex := effectiveIndex c,
      aac_ChannelConfig := effectiveChannels c\<rparr>))"
proof -
  let ?r = "newBitReader (WriteMPEG4AudioConfig c)"
  have "writerBits newBitWriter = []" "writer_ok newBitWriter"
    by (simp_all add: newBitWriter_def writerBits_def writer_ok_def)
  then obtain pad where r: "readerBits ?r = fieldsBits (objectTypeFields (aac_ObjectType c))
      @ fieldsBits (indexFields (effectiveIndex c)) @ wordBits 4 (effectiveChannels c) @ pad" "reader_ok ?r"
    unfolding WriteMPEG4AudioConfig_fields
    using bch.write_fields [OF _ fields_ok_asc [OF assms], of newBitWriter]
      bch.transport by (fastforce simp: fieldsBits_def)
  obtain r1 where r1: "readObjectType ?r = Some (aac_ObjectType c, r1)"
    "readerBits r1 = fieldsBits (indexFields (effectiveIndex c)) @ wordBits 4 (effectiveChannels c) @ pad" "reader_ok r1"
    using readObjectType_fields [OF r(2) _ _ r(1)] assms by (auto simp: asc_ok_def)
  obtain r2 where r2: "readSampleRateIndex r1 = Some (effectiveIndex c, r2)"
    "readerBits r2 = wordBits 4 (effectiveChannels c) @ pad" "reader_ok r2"
    using readSampleRateIndex_fields [OF r1(3) _ r1(2)] assms by (auto simp: asc_ok_def)
  obtain r3 where "nextBits 4 r2 = Some (effectiveChannels c, r3)"
    using bch.rd_word [OF r2(3) _ _ r2(2)] lowOnly_fields(4) assms by (auto simp: asc_ok_def)
  then show ?thesis
    using r1(1) r2(1) by (simp add: ParseMPEG4AudioConfigBytes_def)
qed

subsection \<open>The ADTS round trip\<close>

definition adts_ok :: "aac_config \<Rightarrow> nat \<Rightarrow> bool" where
  "adts_ok c len \<longleftrightarrow> 1 \<le> aac_ObjectType c \<and> aac_ObjectType c \<le> 4 \<and> aac_SampleRateIndex c < 13 \<and>
     aac_ChannelConfig c < 8 \<and> len + 7 < 8192"

lemma adts_h2:
  fixes o' i c :: byte
  defines "h \<equiv> push_bit 6 (o' AND 0x3) OR push_bit 2 (i AND 0xf) OR (c AND 0x1)"
  shows "drop_bit 6 h = o' AND 0x3" and "drop_bit 2 h AND 0xf = i AND 0xf" and "push_bit 2 h AND 0x4 = push_bit 2 (c AND 1)"
proof -
  show "drop_bit 6 h = o' AND 0x3"
    unfolding h_def by (rule byte_eqI; simp add: bit_simps bit_byte_ge bit_1_iff)
  show "drop_bit 2 h AND 0xf = i AND 0xf"
    unfolding h_def by (rule byte_eqI; simp add: bit_simps bit_byte_ge bit_1_iff)
  show "push_bit 2 h AND 0x4 = push_bit 2 (c AND 1)"
    unfolding h_def by (rule byte_eqI; simp add: bit_simps bit_byte_ge bit_1_iff)
qed

lemma adts_h3:
  fixes d q :: byte
  defines "h \<equiv> (((0x80 AND 0x3f) OR push_bit 6 d) AND 0xfc) OR (q AND 0x3)"
  shows "drop_bit 6 h AND 0x3 = d AND 0x3" and "h AND 0x3 = q AND 0x3"
proof -
  show "drop_bit 6 h AND 0x3 = d AND 0x3"
    unfolding h_def by (rule byte_eqI; simp add: bit_simps bit_byte_ge bit_1_iff)
  show "h AND 0x3 = q AND 0x3"
    unfolding h_def by (rule byte_eqI; simp add: bit_simps bit_byte_ge bit_1_iff)
qed

lemma adts_h5: "drop_bit 5 ((0xff AND 0x1f) OR push_bit 5 (q AND 0x7)) = q AND 0x7" for q :: byte
  by (rule byte_eqI; simp add: bit_simps bit_byte_ge bit_1_iff)

lemma adts_h6: "((0xcd AND 0xfc) OR q) AND 0x3 = q AND 0x3" for q :: byte
  by (rule byte_eqI; simp add: bit_simps bit_byte_ge bit_1_iff)

lemma low_masks: "x AND 3 = take_bit 2 x" "x AND 7 = take_bit 3 x" for x :: byte
  by (simp_all add: take_bit_eq_mask mask_numeral)

lemma adts_framelen:
  assumes "p < 8192"
  shows "push_bit 11 (unat ((word_of_int (drop_bit 11 (int p)) :: byte) AND 0x3))
    OR push_bit 3 (unat (word_of_int (drop_bit 3 (int p)) :: byte))
    OR unat ((word_of_int (int p) :: byte) AND 0x7) = p" (is "?l = p")
proof (rule bit_eqI)
  fix n
  have hi: "\<not> bit p n" if "13 \<le> n"
  proof -
    have "p < 2 ^ n"
      using assms power_increasing [OF that, of "2 :: nat"] by simp
    then show ?thesis
      by (simp add: bit_iff_odd)
  qed
  consider "n < 3" | "3 \<le> n" "n < 11" | "11 \<le> n" "n < 13" | "13 \<le> n"
    by linarith
  then show "bit ?l n = bit p n"
    by cases (auto simp: low_masks bit_simps hi)
qed

lemma word_small_cases:
  "c < 8 \<Longrightarrow> c \<in> {0, 1, 2, 3, 4, 5, 6, 7}" "c < 13 \<Longrightarrow> c \<in> {0, 1, 2, 3, 4, 5, 6, 7, 8, 9, 10, 11, 12}"
  "1 \<le> c \<Longrightarrow> c \<le> 4 \<Longrightarrow> c \<in> {1, 2, 3, 4}" for c :: u64
  by (simp_all, unat_arith+)

lemma adts_config:
  fixes o' i c :: u64
  shows "1 \<le> o' \<Longrightarrow> o' \<le> 4 \<Longrightarrow> ucast (ucast (o' - 1) AND 0x3 :: byte) + 1 = o'"
    and "i < 13 \<Longrightarrow> ucast (ucast i AND 0xf :: byte) = i"
    and "c < 8 \<Longrightarrow> ucast (push_bit 2 (ucast (drop_bit 2 c) AND 1 :: byte) OR (ucast (c AND 0x3) AND 0x3)) = c"
proof -
  show "1 \<le> o' \<Longrightarrow> o' \<le> 4 \<Longrightarrow> ucast (ucast (o' - 1) AND 0x3 :: byte) + 1 = o'"
    by (drule (1) word_small_cases(3)) auto
  show "i < 13 \<Longrightarrow> ucast (ucast i AND 0xf :: byte) = i"
    by (drule word_small_cases(2)) auto
  show "c < 8 \<Longrightarrow> ucast (push_bit 2 (ucast (drop_bit 2 c) AND 1 :: byte) OR (ucast (c AND 0x3) AND 0x3)) = c"
    by (drule word_small_cases(1)) auto
qed

lemma ParseADTSHeader_bytes:
  assumes "ucast (drop_bit 6 h2) + 1 = o'" and "ucast (drop_bit 2 h2 AND 0xf) = i"
    and "ucast ((push_bit 2 h2 AND 0x4) OR (drop_bit 6 h3 AND 0x3)) = c"
    and "push_bit 11 (unat (h3 AND 0x03)) OR push_bit 3 (unat h4) OR drop_bit 5 (unat h5) = 7 + length payload"
    and "unat (h6 AND 0x3) = k" and "unat i < 13" and "\<not> 7 < c"
  shows "ParseADTSHeader ([0xff, 0xf1, h2, h3, h4, h5, h6] @ payload) =
    Inr (Complete (zero_aac_config\<lparr>aac_ObjectType := o', aac_SampleRateIndex := i, aac_ChannelConfig := c\<rparr>),
      7, 7 + length payload, (k + 1) * 1024)"
proof -
  let ?f = "[0xff, 0xf1, h2, h3, h4, h5, h6] @ payload"
  have b: "?f ! 0 = 0xff" "?f ! 1 = 0xf1" "?f ! 2 = h2" "?f ! 3 = h3" "?f ! 4 = h4" "?f ! 5 = h5" "?f ! 6 = h6"
    "length ?f = 7 + length payload"
    by simp_all
  show ?thesis
    unfolding ParseADTSHeader_def Let_def b assms(1-5) using assms(6,7) by (simp add: sampleRateTable_def)
qed

lemma Parse_Fill_ADTS:
  assumes ok: "adts_ok c (length payload)" and h: "length header = 7" and k: "k < 4"
  shows "ParseADTSHeader (FillADTSHeader header c (1024 * (int k + 1)) (int (length payload)) @ payload) =
    Inr (Complete (zero_aac_config\<lparr>aac_ObjectType := aac_ObjectType c, aac_SampleRateIndex := aac_SampleRateIndex c,
        aac_ChannelConfig := aac_ChannelConfig c\<rparr>), 7, 7 + length payload, (k + 1) * 1024)"
proof -
  have c: "1 \<le> aac_ObjectType c" "aac_ObjectType c \<le> 4" "aac_SampleRateIndex c < 13" "aac_ChannelConfig c < 8"
    and p: "length payload + 7 < 8192"
    using ok by (simp_all add: adts_ok_def)
  have w: "wrap64 (int (length payload) + 7) = int (length payload + 7)"
    using p by (simp add: wrap64_id in64_def)
  have q: "go_quot (1024 * (int k + 1)) 1024 - 1 = int k"
    by (simp add: go_quot_def)
  have idx: "unat (aac_SampleRateIndex c) < 13" and cc: "\<not> 7 < aac_ChannelConfig c"
    using c(3) word_small_cases(1) [OF c(4)] by (auto simp: word_less_nat_alt)
  have k': "unat ((word_of_int (int k) :: byte) AND 3) = k"
  proof -
    have "k = 0 \<or> k = 1 \<or> k = 2 \<or> k = 3"
      using k by linarith
    then show ?thesis
      by auto
  qed
  have d: "drop 7 header = []" "(length header < 7) = False"
    using h by simp_all
  show ?thesis
    unfolding FillADTSHeader_def Let_def w q d if_False append_Nil2
    by (rule ParseADTSHeader_bytes [OF _ _ _ _ _ idx cc])
      (simp_all only: adts_h2 adts_h3 adts_h6 k' unat_drop_bit_eq [symmetric] adts_h5 adts_framelen [OF p]
        adts_config(1) [OF c(1,2)] adts_config(2) [OF c(3)] adts_config(3) [OF c(4)] add.commute [of 7 "length payload"])
qed

subsection \<open>Properties\<close>

text \<open>
  Writing an AudioSpecificConfig and parsing the bytes recovers the object type, the sampling
  frequency index and the channel configuration that were written (the latter two derived from the
  sample rate and the channel layout when they are zero), for object types up to 95 other than the
  escape value, indices below 2^24 and channel configurations below 16; sample rate and layout are
  those of the tables.
\<close>

theorem asc_roundtrip:
  assumes "asc_ok c"
  shows "aac_NewCodecDataFromMPEG4AudioConfig c = Inr \<lparr>aac_ConfigBytes = WriteMPEG4AudioConfig c,
    aac_Config = Complete (zero_aac_config\<lparr>aac_ObjectType := aac_ObjectType c,
      aac_SampleRateIndex := effectiveIndex c, aac_ChannelConfig := effectiveChannels c\<rparr>)\<rparr>"
  using Parse_Write_AudioConfig [OF assms]
  by (simp add: aac_NewCodecDataFromMPEG4AudioConfig_def aac_NewCodecDataFromMPEG4AudioConfigBytes_def)

definition ex_aac :: aac_config where
  "ex_aac = zero_aac_config\<lparr>aac_ObjectType := 42, aac_SampleRate := 44100,
     aac_ChannelLayout := ChFrontLeft OR ChFrontRight\<rparr>"

theorem asc_roundtrip_witness:
  "\<exists>c. aac_NewCodecDataFromMPEG4AudioConfig ex_aac = Inr c \<and> aac_SampleRate (aac_Config c) = 44100 \<and>
    aac_ObjectType (aac_Config c) = 42 \<and> aac_SampleRateIndex (aac_Config c) = 4 \<and> aac_ChannelConfig (aac_Config c) = 2"
proof -
  have e: "effectiveIndex ex_aac = 4" "effectiveChannels ex_aac = 2" "aac_ObjectType ex_aac = 42"
    by (code_simp)+
  have "asc_ok ex_aac"
    by (simp add: asc_ok_def e AOT_ESCAPE_def)
  from asc_roundtrip [OF this] show ?thesis
    by (simp add: e Complete_def sampleRateTable_def chanConfigTable_def zero_aac_config_def)
qed

text \<open>
  A header written by \<^verbatim>\<open>FillADTSHeader\<close> is parsed back by \<^verbatim>\<open>ExtractADTSFrame\<close>: for object types 1 to 4,
  a sampling frequency index of the table, a channel configuration below 8, one to four blocks of
  1024 samples and a frame of less than 8192 bytes, the payload, the configuration and the number of
  samples come back.
\<close>

theorem adts_roundtrip:
  assumes "adts_ok c (length payload)" and "length header = 7" and "k < 4"
  shows "ExtractADTSFrame (FillADTSHeader header c (1024 * (int k + 1)) (int (length payload)) @ payload) =
    Inr (payload, Complete (zero_aac_config\<lparr>aac_ObjectType := aac_ObjectType c,
        aac_SampleRateIndex := aac_SampleRateIndex c, aac_ChannelConfig := aac_ChannelConfig c\<rparr>), (k + 1) * 1024)"
proof -
  have "length (FillADTSHeader header c s n) = 7" for s n
    using assms(2) by (simp add: FillADTSHeader_def Let_def)
  then show ?thesis
    using Parse_Fill_ADTS [OF assms] by (simp add: ExtractADTSFrame_def slice_def)
qed

theorem adts_roundtrip_witness:
  "\<exists>c. ExtractADTSFrame (FillADTSHeader (replicate 7 0) (zero_aac_config\<lparr>aac_ObjectType := 2,
      aac_SampleRateIndex := 3, aac_ChannelConfig := 2\<rparr>) 1024 4 @ [1, 2, 3, 4]) = Inr ([1, 2, 3, 4], c, 1024) \<and>
    aac_SampleRate c = 48000"
  using adts_roundtrip [of "zero_aac_config\<lparr>aac_ObjectType := 2, aac_SampleRateIndex := 3, aac_ChannelConfig := 2\<rparr>"
      "[1, 2, 3, 4]" "replicate 7 0" 0]
  by (simp add: adts_ok_def Complete_def sampleRateTable_def chanConfigTable_def zero_aac_config_def)

end
