(* ===== verification/Fmp4_Demux.thy ===== *)
theory Fmp4_Demux
  imports Fmp4_Parse H264_Sps H265 Aac Flac
begin

text \<open>
  The state machine of \<^verbatim>\<open>Demuxer\<close> in \<^verbatim>\<open>av/format/fmp4/demuxer.go\<close>: reading boxes, parsing the movie box
  into tracks and streams, reading packets and seeking.  The underlying reader is a file of bytes
  with an offset, as \<^verbatim>\<open>bytes.Reader\<close> or a regular file are; whether it also implements
  \<^verbatim>\<open>io.ReadSeeker\<close> is a field.  \<^verbatim>\<open>sort.Slice\<close>, which is free in the order of equal elements, is the argument
  \<open>srt\<close>, and \<^verbatim>\<open>json.Unmarshal\<close> of the analytics the argument \<open>uj\<close>.  The context is never cancelled.  A
  run-time panic is the error \<open>DPanic\<close>.
\<close>

datatype demux_error =
    DEOF | DUnexpectedEOF | ErrNoMoovBox | ErrMalformed | ErrNotSeekable | DErrSeek | DErrCodec
  | DErrUnsupportedCodec | DPanic

record Demuxer =
  d_file :: bytes
  d_off :: nat
  d_seekable :: bool
  d_pos :: int
  d_tracksByID :: tracksByID
  d_streams :: "stream list"
  d_pending :: "packet list"
  d_pendingCodecChange :: "stream list"
  d_pendingEmsg :: "emsgEntry list"
  d_moovRead :: bool
  d_mediaStartPos :: int
  d_sidx :: "SidxEntry list"

definition NewDemuxer :: "bytes \<Rightarrow> bool \<Rightarrow> Demuxer" where
  "NewDemuxer file seekable =
    \<lparr>d_file = file, d_off = 0, d_seekable = seekable, d_pos = 0, d_tracksByID = Map.empty, d_streams = [],
      d_pending = [], d_pendingCodecChange = [], d_pendingEmsg = [], d_moovRead = False, d_mediaStartPos = 0,
      d_sidx = []\<rparr>"

subsection \<open>Reading boxes\<close>

text \<open>
  \<^verbatim>\<open>io.ReadFull\<close> on the position-tracking reader: at the end of the file a read of at least one byte is
  \<^verbatim>\<open>io.EOF\<close>, a partial one \<^verbatim>\<open>io.ErrUnexpectedEOF\<close>, and in both cases what was there is consumed.
\<close>

definition readFull :: "Demuxer \<Rightarrow> nat \<Rightarrow> (demux_error + bytes) \<times> Demuxer" where
  "readFull d n =
    (let avail = length (d_file d) - d_off d; got = min n avail;
         d' = d\<lparr>d_off := d_off d + got, d_pos := wrap64 (d_pos d + int got)\<rparr>
     in if n \<le> avail then (Inr (slice (d_file d) (d_off d) (d_off d + n)), d')
        else if avail = 0 then (Inl DEOF, d')
        else (Inl DUnexpectedEOF, d'))"

definition readBox :: "Demuxer \<Rightarrow> (demux_error + string \<times> bytes) \<times> Demuxer" where
  "readBox d =
    (case readFull d 8 of
       (Inl e, d1) \<Rightarrow> (Inl e, d1)
     | (Inr hdr, d1) \<Rightarrow>
         let size = be32 (slice hdr 0 4); typ = gostring (slice hdr 4 8) in
         if size < 8 then (Inl ErrMalformed, d1)
         else case readFull d1 (unat size - 8) of
           (Inl e, d2) \<Rightarrow> (Inl e, d2)
         | (Inr payload, d2) \<Rightarrow> (Inr (typ, payload), d2))"

subsection \<open>The movie box\<close>

text \<open>\<^verbatim>\<open>parseTkhdTrackID\<close> and \<^verbatim>\<open>parseMdhdTimescale\<close> have the same body.\<close>

definition parseTkhdTrackID :: "bytes \<Rightarrow> u32 option" where
  "parseTkhdTrackID payload =
    (if length payload < 4 then None
     else if payload ! 0 = 0
          then if length payload < 16 then None else Some (be32 (slice payload 12 16))
          else if length payload < 24 then None else Some (be32 (slice payload 20 24)))"

definition parseMdhdTimescale :: "bytes \<Rightarrow> u32 option" where
  "parseMdhdTimescale payload =
    (if length payload < 4 then None
     else if payload ! 0 = 0
          then if length payload < 16 then None else Some (be32 (slice payload 12 16))
          else if length payload < 24 then None else Some (be32 (slice payload 20 24)))"

definition parseHdlrType :: "bytes \<Rightarrow> string option" where
  "parseHdlrType payload = (if length payload < 12 then None else Some (gostring (slice payload 8 12)))"

definition visualSampleEntryHeaderSize :: nat where
  "visualSampleEntryHeaderSize = 78"

definition audioSampleEntryHeaderSize :: nat where
  "audioSampleEntryHeaderSize = 28"

text \<open>The length loop of \<^verbatim>\<open>readDescriptorBody\<close>: at most four bytes of seven bits.\<close>

function descriptorBodyLength :: "bytes \<Rightarrow> nat \<Rightarrow> nat \<Rightarrow> nat \<times> nat" where
  "descriptorBodyLength data len i =
    (if i \<le> 4 \<and> i < length data
     then let b = data ! i; len' = push_bit 7 len OR unat (b AND 0x7f) in
       if b AND 0x80 = 0 then (len', i + 1) else descriptorBodyLength data len' (i + 1)
     else (len, i))"
  by pat_completeness auto
termination
  by (relation "measure (\<lambda>(data, len, i). 5 - i)") auto

definition readDescriptorBody :: "bytes \<Rightarrow> byte \<Rightarrow> bytes option" where
  "readDescriptorBody data expectedTag =
    (if length data < 2 then None
     else if data ! 0 \<noteq> expectedTag then None
     else let (len, i) = descriptorBodyLength data 0 1 in
       if i + len > length data then None else Some (slice data i (i + len)))"

definition parseEsds :: "bytes \<Rightarrow> bytes option" where
  "parseEsds payload =
    (if length payload < 4 then None
     else case readDescriptorBody (drop 4 payload) 0x03 of
       None \<Rightarrow> None
     | Some esBody \<Rightarrow>
         if length esBody < 3 then None
         else let flags = esBody ! 2;
                  off1 = (if flags AND 0x80 \<noteq> 0 then 3 + 2 else 3) in
           if flags AND 0x40 \<noteq> 0 \<and> off1 \<ge> length esBody then None
           else let off2 = (if flags AND 0x40 \<noteq> 0 then off1 + (1 + unat (esBody ! off1)) else off1);
                    off3 = (if flags AND 0x20 \<noteq> 0 then off2 + 2 else off2) in
             if off3 \<ge> length esBody then None
             else case readDescriptorBody (drop off3 esBody) 0x04 of
               None \<Rightarrow> None
             | Some dcBody \<Rightarrow>
                 if length dcBody < 13 then None
                 else readDescriptorBody (drop 13 dcBody) 0x05)"

definition ChMono :: channel_layout where
  "ChMono = ChFrontCenter"

definition ChStereo :: channel_layout where
  "ChStereo = ChFrontLeft OR ChFrontRight"

definition channelLayoutFromCount :: "u16 \<Rightarrow> channel_layout" where
  "channelLayoutFromCount chCount =
    (if chCount = 1 then ChMono
     else if chCount = 2 then ChStereo
     else if chCount \<ge> 16 then 0xFFFF
     else push_bit (unat chCount) 1 - 1)"

text \<open>
  \<^verbatim>\<open>parseStsdEntry\<close> ignores the handler type.  An error of a codec constructor is returned as it is; a
  panic inside the H.265 parser stays a panic.
\<close>

definition parseVisualEntry :: "(bytes \<Rightarrow> demux_error + codec_data) \<Rightarrow> string \<Rightarrow> bytes \<Rightarrow> demux_error + codec_data \<times> bool" where
  "parseVisualEntry mk confBox entryPayload =
    (if length entryPayload < visualSampleEntryHeaderSize then Inl ErrMalformed
     else case findBox (drop visualSampleEntryHeaderSize entryPayload) confBox of
       None \<Rightarrow> Inl ErrMalformed
     | Some conf \<Rightarrow> (case mk conf of Inl e \<Rightarrow> Inl e | Inr codec \<Rightarrow> Inr (codec, True)))"

definition newH264 :: "bytes \<Rightarrow> demux_error + codec_data" where
  "newH264 conf =
    (case h264_NewCodecDataFromAVCDecoderConfRecord conf of
       Inl e \<Rightarrow> Inl DErrCodec | Inr c \<Rightarrow> Inr (H264Codec c))"

definition newH265 :: "bytes \<Rightarrow> demux_error + codec_data" where
  "newH265 conf =
    (case h265_NewCodecDataFromAVCDecoderConfRecord conf of
       Inl e \<Rightarrow> Inl (if e = H265_DividePanic then DPanic else DErrCodec) | Inr c \<Rightarrow> Inr (H265Codec c))"

definition parseStsdEntry :: "bytes \<Rightarrow> demux_error + codec_data \<times> bool" where
  "parseStsdEntry data =
    (if length data < 8 then Inl ErrMalformed
     else let size = be32 (slice data 0 4) in
       if size < 8 \<or> unat size > length data then Inl ErrMalformed
       else let typ = gostring (slice data 4 8); entryPayload = slice data 8 (unat size) in
         if typ = ''avc1'' \<or> typ = ''avc3'' then parseVisualEntry newH264 ''avcC'' entryPayload
         else if typ = ''hev1'' \<or> typ = ''hvc1'' then parseVisualEntry newH265 ''hvcC'' entryPayload
         else if typ = ''mp4a'' then
           (if length entryPayload < audioSampleEntryHeaderSize then Inl ErrMalformed
            else case findBox (drop audioSampleEntryHeaderSize entryPayload) ''esds'' of
              None \<Rightarrow> Inl ErrMalformed
            | Some esdsPayload \<Rightarrow>
                (case parseEsds esdsPayload of
                   None \<Rightarrow> Inl ErrMalformed
                 | Some asc \<Rightarrow>
                     (case aac_NewCodecDataFromMPEG4AudioConfigBytes asc of
                        Inl e \<Rightarrow> Inl DErrCodec
                      | Inr c \<Rightarrow> Inr (AACCodec c, False))))
         else if typ = ''fLaC'' then
           (if length entryPayload < audioSampleEntryHeaderSize then Inl ErrMalformed
            else let chCount = be16 (slice entryPayload 16 18) in
              if chCount = 0 then Inl ErrMalformed
              else let sampleRate = drop_bit 16 (be32 (slice entryPayload 24 28)) in
                if sampleRate = 0 then Inl ErrMalformed
                else case findBox (drop audioSampleEntryHeaderSize entryPayload) ''dfLa'' of
                  None \<Rightarrow> Inl ErrMalformed
                | Some _ \<Rightarrow> Inr (FLACCodec (NewFLACCodecData FLAC sampleRate (channelLayoutFromCount chCount)), False))
         else Inl DErrUnsupportedCodec)"

text \<open>\<^verbatim>\<open>ErrMalformed\<close> for a missing box or field.\<close>

definition orMalformed :: "'a option \<Rightarrow> demux_error + 'a" where
  "orMalformed x = (case x of None \<Rightarrow> Inl ErrMalformed | Some y \<Rightarrow> Inr y)"

definition andThen :: "demux_error + 'a \<Rightarrow> ('a \<Rightarrow> demux_error + 'b) \<Rightarrow> demux_error + 'b" where
  "andThen x f = (case x of Inl e \<Rightarrow> Inl e | Inr y \<Rightarrow> f y)"

definition parseTrak :: "bytes \<Rightarrow> demux_error + trackDef" where
  "parseTrak payload =
    andThen (orMalformed (findBox payload ''tkhd'')) (\<lambda>tkhd.
    andThen (orMalformed (parseTkhdTrackID tkhd)) (\<lambda>trackID.
    andThen (orMalformed (findBox payload ''mdia'')) (\<lambda>mdia.
    andThen (orMalformed (findBox mdia ''mdhd'')) (\<lambda>mdhd.
    andThen (orMalformed (parseMdhdTimescale mdhd)) (\<lambda>timescale.
    andThen (orMalformed (findBox mdia ''hdlr'')) (\<lambda>hdlr.
    andThen (orMalformed (parseHdlrType hdlr)) (\<lambda>handlerType.
    andThen (orMalformed (findBox mdia ''minf'')) (\<lambda>minf.
    andThen (orMalformed (findBox minf ''stbl'')) (\<lambda>stbl.
    andThen (orMalformed (findBox stbl ''stsd'')) (\<lambda>stsd.
    if length stsd < 8 then Inl ErrMalformed
    else andThen (parseStsdEntry (drop 8 stsd)) (\<lambda>(codec, hasVideo).
      Inr \<lparr>td_id = trackID, td_streamIdx = 0, td_timescale = timescale, td_codec = codec, td_hasVideo = hasVideo,
            td_defDuration = 0, td_defSize = 0, td_defFlags = 0\<rparr>)))))))))))"

text \<open>The loop of \<^verbatim>\<open>parseMoov\<close> over the trak boxes: errors skip the track, a panic ends everything.\<close>

fun parseTraks :: "bytes list \<Rightarrow> trackDef list option" where
  "parseTraks [] = Some []"
| "parseTraks (trakPayload # rest) =
    (case parseTrak trakPayload of
       Inl DPanic \<Rightarrow> None
     | Inl _ \<Rightarrow> parseTraks rest
     | Inr track \<Rightarrow> map_option ((#) track) (parseTraks rest))"

text \<open>The second loop numbers the streams; a later track with the same id takes over the table entry.\<close>

fun numberTracks :: "nat \<Rightarrow> trackDef list \<Rightarrow> trackDef list" where
  "numberTracks i [] = []"
| "numberTracks i (t # ts) = t\<lparr>td_streamIdx := of_nat i\<rparr> # numberTracks (i + 1) ts"

definition trackTable :: "trackDef list \<Rightarrow> tracksByID" where
  "trackTable ts = foldl (\<lambda>m t. m(td_id t \<mapsto> t)) Map.empty ts"

definition trackStream :: "trackDef \<Rightarrow> stream" where
  "trackStream t = \<lparr>s_Idx = td_streamIdx t, s_Codec = td_codec t\<rparr>"

definition parseMoov :: "Demuxer \<Rightarrow> bytes \<Rightarrow> Demuxer option" where
  "parseMoov d payload =
    (case parseTraks (findBoxes payload ''trak'') of
       None \<Rightarrow> None
     | Some newTracks \<Rightarrow>
         let ts = numberTracks 0 newTracks in
         Some (d\<lparr>d_tracksByID := trackTable ts, d_streams := map trackStream ts\<rparr>))"

lemma readFull_Inr:
  assumes "readFull d n = (Inr b, d')"
  shows "d_file d' = d_file d" and "d_off d' = d_off d + n" and "n \<le> length (d_file d) - d_off d"
  using assms by (auto simp: readFull_def Let_def split: if_splits)

lemma readBox_Inr:
  assumes "readBox d = (Inr x, d')"
  shows "d_file d' = d_file d" and "d_off d < d_off d'" and "d_off d' \<le> length (d_file d)"
proof -
  obtain hdr d1 where h: "readFull d 8 = (Inr hdr, d1)"
    using assms by (auto simp: readBox_def split: prod.splits sum.splits)
  obtain payload where p: "readFull d1 (unat (be32 (slice hdr 0 4)) - 8) = (Inr payload, d')"
    using assms h by (auto simp: readBox_def Let_def split: prod.splits sum.splits if_splits)
  note r = readFull_Inr [OF h] readFull_Inr [OF p]
  show "d_file d' = d_file d" "d_off d < d_off d'" "d_off d' \<le> length (d_file d)"
    using r by simp_all
qed

text \<open>The bytes not read yet, which every box makes fewer.\<close>

definition unread :: "Demuxer \<Rightarrow> nat" where
  "unread d = length (d_file d) - d_off d"

lemma readBox_unread: "readBox d = (Inr x, d') \<Longrightarrow> unread d' < unread d"
  using readBox_Inr [of d x d'] by (simp add: unread_def)

text \<open>Frames for the later lemmas: nothing else of the state changes while a box is read.\<close>

lemma readFull_frame: "readFull d n = (r, d') \<Longrightarrow> d' = d\<lparr>d_off := d_off d', d_pos := d_pos d'\<rparr>"
  by (auto simp: readFull_def Let_def split: if_splits)

lemma readBox_frame:
  assumes "readBox d = (r, d')"
  shows "d' = d\<lparr>d_off := d_off d', d_pos := d_pos d'\<rparr>"
proof -
  obtain r1 d1 where h: "readFull d 8 = (r1, d1)"
    by fastforce
  obtain r2 d2 where p: "readFull d1 (unat (be32 (slice (projr r1) 0 4)) - 8) = (r2, d2)"
    by fastforce
  have "d' = d1 \<or> d' = d2"
    using assms h p by (auto simp: readBox_def Let_def split: sum.splits if_splits)
  moreover have "d2 = d\<lparr>d_off := d_off d2, d_pos := d_pos d2\<rparr>"
    by (subst readFull_frame [OF p], subst readFull_frame [OF h]) simp
  ultimately show ?thesis
    using readFull_frame [OF h] by blast
qed

subsection \<open>Operations\<close>

function GetCodecs :: "Demuxer \<Rightarrow> (demux_error + stream list) \<times> Demuxer" where
  "GetCodecs d =
    (case readBox d of
       (Inl e, d1) \<Rightarrow> (Inl (if e = DEOF then ErrNoMoovBox else e), d1)
     | (Inr (typ, payload), d1) \<Rightarrow>
         if typ = ''moov''
         then (case parseMoov d1 payload of
                 None \<Rightarrow> (Inl DPanic, d1)
               | Some d2 \<Rightarrow> (Inr (d_streams d2), d2\<lparr>d_moovRead := True, d_mediaStartPos := d_pos d2\<rparr>))
         else GetCodecs d1)"
  by pat_completeness auto
termination
  by (relation "measure unread") (auto dest: readBox_unread [OF sym])

declare GetCodecs.simps [simp del]

text \<open>
  The slice expression of \<^verbatim>\<open>parseMoofMdat\<close>: its guard adds offset and size in 64 bits, so a sample whose
  sum overflows passes the guard and the slice panics.
\<close>

definition samplePanics :: "tracksByID \<Rightarrow> bytes \<Rightarrow> rawSample \<Rightarrow> bool" where
  "samplePanics tracks mdat s \<longleftrightarrow>
    tracks (rs_trackID s) \<noteq> None \<and> 0 \<le> rs_mdatOff s \<and>
    wrap64 (rs_mdatOff s + int (rs_size s)) \<le> int (length mdat) \<and>
    wrap64 (rs_mdatOff s + int (rs_size s)) < rs_mdatOff s"

definition parseMoofMdat ::
  "(packet list \<Rightarrow> packet list) \<Rightarrow> Demuxer \<Rightarrow> bytes \<Rightarrow> int \<Rightarrow> int \<Rightarrow> (demux_error + packet list) \<times> Demuxer" where
  "parseMoofMdat srt d moofPayload moofStart moofSz =
    (case parseMoof (d_tracksByID d) moofPayload moofStart moofSz of
       (None, tracks) \<Rightarrow> (Inl ErrMalformed, d\<lparr>d_tracksByID := tracks\<rparr>)
     | (Some samples, tracks) \<Rightarrow>
         (case readBox (d\<lparr>d_tracksByID := tracks\<rparr>) of
            (Inl e, d2) \<Rightarrow> (Inl e, d2)
          | (Inr (mdatTyp, mdat), d2) \<Rightarrow>
              if mdatTyp \<noteq> ''mdat'' then (Inl ErrMalformed, d2)
              else if list_ex (samplePanics tracks mdat) samples then (Inl DPanic, d2)
              else (Inr (srt (fragmentPackets tracks mdat samples)), d2)))"

definition attachAnalytics :: "(bytes \<Rightarrow> frame_analytics option) \<Rightarrow> emsgEntry list \<Rightarrow> packet \<Rightarrow> packet" where
  "attachAnalytics uj es pkt =
    (let ptMS = go_quot (wrap64 (DTS pkt + PTSOffset pkt)) millisecond in
     case find (\<lambda>e. em_presentTimeMS e = ptMS \<and> em_schemeIDURI e = emsgSchemeIDURI) es of
       None \<Rightarrow> pkt
     | Some e \<Rightarrow> (case uj (em_payload e) of None \<Rightarrow> pkt | Some pvd \<Rightarrow> pkt\<lparr>Analytics := Some pvd\<rparr>))"

definition attachCodecs :: "stream list \<Rightarrow> packet list \<Rightarrow> packet list" where
  "attachCodecs change pkts =
    (if length change > 0 \<and> length pkts > 0 then (hd pkts)\<lparr>NewCodecs := Some change\<rparr> # tl pkts else pkts)"

text \<open>The body of the switch in \<^verbatim>\<open>ReadPacket\<close>: one box, with the reader behind it.\<close>

definition handleBox :: "(packet list \<Rightarrow> packet list) \<Rightarrow> (bytes \<Rightarrow> frame_analytics option) \<Rightarrow>
    string \<Rightarrow> bytes \<Rightarrow> Demuxer \<Rightarrow> demux_error option \<times> Demuxer" where
  "handleBox srt uj typ payload d =
    (if typ = ''moof'' then
       (let moofSz = int (8 + length payload); moofStart = wrap64 (d_pos d - moofSz) in
        case parseMoofMdat srt d payload moofStart moofSz of
          (Inl e, d1) \<Rightarrow> (Some e, d1)
        | (Inr pkts, d1) \<Rightarrow>
            let pkts1 = attachCodecs (d_pendingCodecChange d1) pkts;
                d2 = (if length (d_pendingCodecChange d1) > 0 \<and> length pkts > 0
                      then d1\<lparr>d_pendingCodecChange := []\<rparr> else d1);
                pkts2 = (if length (d_pendingEmsg d2) > 0
                         then map (attachAnalytics uj (d_pendingEmsg d2)) pkts1 else pkts1)
            in (None, d2\<lparr>d_pendingEmsg := [], d_pending := pkts2\<rparr>))
     else if typ = ''moov'' then
       (case parseMoov d payload of
          None \<Rightarrow> (Some DPanic, d)
        | Some d1 \<Rightarrow> (None, d1\<lparr>d_pendingCodecChange := d_streams d1\<rparr>))
     else if typ = ''emsg'' then
       (case parseEmsg payload of
          None \<Rightarrow> (None, d)
        | Some e \<Rightarrow> (None, d\<lparr>d_pendingEmsg := d_pendingEmsg d @ [e]\<rparr>))
     else if typ = ''sidx'' then
       (case ParseSidx payload (d_mediaStartPos d) of
          None \<Rightarrow> (None, d)
        | Some entries \<Rightarrow> (None, d\<lparr>d_sidx := entries\<rparr>))
     else (None, d))"

lemma parseMoof_unread: "parseMoofMdat srt d p a b = (r, d') \<Longrightarrow> unread d' \<le> unread d"
proof -
  assume a: "parseMoofMdat srt d p a b = (r, d')"
  obtain o' tracks where m: "parseMoof (d_tracksByID d) p a b = (o', tracks)"
    by fastforce
  define d0 where "d0 = d\<lparr>d_tracksByID := tracks\<rparr>"
  obtain r1 d1 where rb: "readBox d0 = (r1, d1)"
    by fastforce
  have d0: "unread d0 = unread d"
    by (simp add: d0_def unread_def)
  have le: "unread d1 \<le> unread d0"
    using rb by (auto simp: readBox_def readFull_def Let_def unread_def split: if_splits)
  have "d' = d0 \<or> d' = d1"
    using a m rb by (auto simp: parseMoofMdat_def d0_def split: option.splits sum.splits if_splits)
  then show ?thesis
    using le d0 by auto
qed

lemma handleBox_unread: "handleBox srt uj typ p d = (None, d') \<Longrightarrow> unread d' \<le> unread d"
proof (cases "typ = ''moof''")
  case True
  assume h: "handleBox srt uj typ p d = (None, d')"
  define st where "st = wrap64 (d_pos d - int (8 + length p))"
  obtain r d1 where m: "parseMoofMdat srt d p st (int (8 + length p)) = (r, d1)"
    by fastforce
  have "unread d' = unread d1"
    using h m True by (auto simp: handleBox_def Let_def unread_def st_def split: sum.splits if_splits)
  then show ?thesis
    using parseMoof_unread [OF m] by simp
next
  case False
  assume "handleBox srt uj typ p d = (None, d')"
  then show ?thesis
    using False by (auto simp: handleBox_def parseMoov_def Let_def unread_def split: option.splits if_splits)
qed

function ReadPacket :: "(packet list \<Rightarrow> packet list) \<Rightarrow> (bytes \<Rightarrow> frame_analytics option) \<Rightarrow>
    Demuxer \<Rightarrow> (demux_error + packet) \<times> Demuxer" where
  "ReadPacket srt uj d =
    (case d_pending d of
       pkt # rest \<Rightarrow> (Inr pkt, d\<lparr>d_pending := rest\<rparr>)
     | [] \<Rightarrow>
         (case readBox d of
            (Inl e, d1) \<Rightarrow> (Inl e, d1)
          | (Inr (typ, payload), d1) \<Rightarrow>
              (case handleBox srt uj typ payload d1 of
                 (Some e, d2) \<Rightarrow> (Inl e, d2)
               | (None, d2) \<Rightarrow> ReadPacket srt uj d2)))"
  by pat_completeness auto
termination
  by (relation "measure (\<lambda>(srt, uj, d). unread d)")
    (auto dest!: readBox_unread [OF sym] handleBox_unread [OF sym])

declare ReadPacket.simps [simp del]

subsection \<open>Seeking\<close>

text \<open>
  The scans of \<^verbatim>\<open>seekViaMoofScan\<close> and \<^verbatim>\<open>loadSidx\<close> set the file position and \<^verbatim>\<open>pr.pos\<close> to the same value before
  the loop and after every skipped box, and both advance together in every read; one position \<open>p\<close> stands
  for the two.  A position is below the file length plus 2^32, so sums do not overflow.
\<close>

function scanMoofs :: "bytes \<Rightarrow> tracksByID \<Rightarrow> duration \<Rightarrow> nat \<Rightarrow> nat \<Rightarrow> nat" where
  "scanMoofs file tracks target p best =
    (if length file < p + 8 then best
     else let size = be32 (slice file p (p + 4)); typ = gostring (slice file (p + 4) (p + 8)) in
       if size < 8 then best
       else if typ = ''moof'' then
         (if length file < p + unat size then best
          else if moofBaseTime (slice file (p + 8) (p + unat size)) tracks \<le> target
               then scanMoofs file tracks target (p + unat size) p
               else best)
       else scanMoofs file tracks target (p + unat size) best)"
  by pat_completeness auto
termination
  by (relation "measure (\<lambda>(file, tracks, target, p, best). length file - p)") (auto simp: word_less_nat_alt)

function findSidx :: "bytes \<Rightarrow> nat \<Rightarrow> bytes option" where
  "findSidx file p =
    (if length file < p + 8 then None
     else let size = be32 (slice file p (p + 4)); typ = gostring (slice file (p + 4) (p + 8)) in
       if size < 8 then None
       else if typ = ''sidx'' then
         (if length file < p + unat size then None else Some (slice file (p + 8) (p + unat size)))
       else findSidx file (p + unat size))"
  by pat_completeness auto
termination
  by (relation "measure (\<lambda>(file, p). length file - p)") (auto simp: word_less_nat_alt)

declare scanMoofs.simps [simp del] findSidx.simps [simp del]

definition seekTo :: "Demuxer \<Rightarrow> int \<Rightarrow> demux_error option \<times> Demuxer" where
  "seekTo d pos = (if pos < 0 then (Some DErrSeek, d) else (None, d\<lparr>d_off := nat pos, d_pos := pos\<rparr>))"

fun lastAtOrBefore :: "duration \<Rightarrow> SidxEntry list \<Rightarrow> nat \<Rightarrow> nat \<Rightarrow> nat" where
  "lastAtOrBefore target [] i bestIdx = bestIdx"
| "lastAtOrBefore target (e # es) i bestIdx =
    (if sx_PTS e > target then bestIdx else lastAtOrBefore target es (i + 1) i)"

definition seekViaSidx :: "Demuxer \<Rightarrow> duration \<Rightarrow> demux_error option \<times> Demuxer" where
  "seekViaSidx d target = seekTo d (sx_Offset (d_sidx d ! lastAtOrBefore target (d_sidx d) 0 0))"

definition seekViaMoofScan :: "Demuxer \<Rightarrow> duration \<Rightarrow> demux_error option \<times> Demuxer" where
  "seekViaMoofScan d target =
    (case seekTo d (d_mediaStartPos d) of
       (Some e, d1) \<Rightarrow> (Some e, d1)
     | (None, d1) \<Rightarrow>
         seekTo d1 (int (scanMoofs (d_file d1) (d_tracksByID d1) target (nat (d_mediaStartPos d1)) (nat (d_mediaStartPos d1)))))"

definition loadSidx :: "Demuxer \<Rightarrow> Demuxer" where
  "loadSidx d =
    (case seekTo d (d_mediaStartPos d) of
       (Some e, d1) \<Rightarrow> d1
     | (None, d1) \<Rightarrow>
         let d2 = (case findSidx (d_file d1) (nat (d_mediaStartPos d1)) of
                     None \<Rightarrow> d1
                   | Some payload \<Rightarrow>
                       (case ParseSidx payload (d_mediaStartPos d1) of
                          None \<Rightarrow> d1 | Some entries \<Rightarrow> d1\<lparr>d_sidx := entries\<rparr>))
         in snd (seekTo d2 (d_pos d)))"

definition SeekToKeyframe :: "Demuxer \<Rightarrow> duration \<Rightarrow> demux_error option \<times> Demuxer" where
  "SeekToKeyframe d target =
    (if \<not> d_seekable d then (Some ErrNotSeekable, d)
     else let d1 = d\<lparr>d_pending := [], d_pendingEmsg := []\<rparr>;
              d2 = (if length (d_sidx d1) = 0 then loadSidx d1 else d1)
          in if length (d_sidx d2) > 0 then seekViaSidx d2 target else seekViaMoofScan d2 target)"

end
