(* ===== verification/Fmp4_Roundtrip.thy ===== *)
theory Fmp4_Roundtrip
  imports Fmp4_Parse
begin

text \<open>
  The fragment parsers invert the fragment builders: every sample of every track comes back with its
  timing, flags, position and bytes.
\<close>

subsection \<open>Fields\<close>

lemma optField_present:
  assumes "flags AND flg \<noteq> 0" and p: "drop off p = put32 v @ r"
  shows "optField flags flg p off d = Some (v, off + 4)"
proof -
  have "off + 4 \<le> length p"
    using arg_cong [OF p, of length] by simp
  moreover have "slice p off (off + 4) = put32 v"
    by (simp add: slice_def p)
  ultimately show ?thesis
    using assms(1) by (simp add: optField_def)
qed

lemma drop_field4: "drop off p = put32 v @ r \<Longrightarrow> drop (off + 4) p = r"
  using drop_field [of off p "put32 v" r] by simp

lemma optField_absent: "flags AND flg = 0 \<Longrightarrow> optField flags flg p off d = Some (d, off)"
  by (simp add: optField_def)

lemma videoTrunFlags_val: "videoTrunFlags = 0xF01"
  by (simp add: videoTrunFlags_def trunFlagDataOffset_def trunFlagSampleDuration_def
      trunFlagSampleSize_def trunFlagSampleFlags_def trunFlagSampleCTSOffset_def)

lemma audioTrunFlags_val: "audioTrunFlags = 0x301"
  by (simp add: audioTrunFlags_def trunFlagDataOffset_def trunFlagSampleDuration_def
      trunFlagSampleSize_def)

lemma parseTfhd_fullHdr:
  "parseTfhd (fullHdr 0 0x020000 @ put32 tid) start =
   Some \<lparr>th_trackID = tid, th_flags = 0x020000, th_baseDataOffset = start,
     th_defDuration = 0, th_defSize = 0, th_defFlags = 0\<rparr>"
  by (simp add: parseTfhd_def Let_def optField_absent slices take_bit_eq_mask mask_numeral)

lemma parseTfdt_fullHdr: "parseTfdt (fullHdr 1 0 @ put64 (word_of_int t)) = Some (wrap64 t)"
  by (simp add: parseTfdt_def slices sint_of_int64)

subsection \<open>The samples of one trun\<close>

text \<open>What a track fragment should read back as: one entry per sample, with running time and offset.\<close>

fun expectedSamples :: "trackDef \<Rightarrow> bool \<Rightarrow> int \<Rightarrow> nat \<Rightarrow> sample list \<Rightarrow> rawSample list" where
  "expectedSamples td hv dts off [] = []"
| "expectedSamples td hv dts off (s # ss) =
    \<lparr>rs_trackID = td_id td, rs_dts = dts, rs_cts = (if hv then sm_ptsOffset s else 0),
      rs_duration = sm_duration s, rs_flags = (if hv then sm_flags s else td_defFlags td),
      rs_mdatOff = int off, rs_size = unat (sm_size s)\<rparr>
    # expectedSamples td hv (dts + uint (sm_duration s)) (off + unat (sm_size s)) ss"

definition ticksTotal :: "sample list \<Rightarrow> int" where
  "ticksTotal ss = sum_list (map (\<lambda>s. uint (sm_duration s)) ss)"

definition sizeTotal :: "sample list \<Rightarrow> nat" where
  "sizeTotal ss = sum_list (map (\<lambda>s. unat (sm_size s)) ss)"

lemma ticksTotal_simps [simp]:
  "ticksTotal [] = 0" "ticksTotal (s # ss) = uint (sm_duration s) + ticksTotal ss"
  by (simp_all add: ticksTotal_def)

lemma sizeTotal_simps [simp]:
  "sizeTotal [] = 0" "sizeTotal (s # ss) = unat (sm_size s) + sizeTotal ss"
  by (simp_all add: sizeTotal_def)

lemma ticksTotal_nonneg [simp]: "0 \<le> ticksTotal ss"
  by (induction ss) simp_all

definition trunFlagsFor :: "bool \<Rightarrow> u32" where
  "trunFlagsFor hv = (if hv then videoTrunFlags else audioTrunFlags)"

lemma parseTrunLoop_video_step:
  assumes p: "drop off p = trunSample True s @ r"
  shows "parseTrunLoop p td videoTrunFlags fsf (Suc n) i off dts mo =
    map_option ((#) \<lparr>rs_trackID = td_id td, rs_dts = dts, rs_cts = wrap32 (sm_ptsOffset s),
        rs_duration = sm_duration s, rs_flags = sm_flags s, rs_mdatOff = mo, rs_size = unat (sm_size s)\<rparr>)
      (parseTrunLoop p td videoTrunFlags fsf n (Suc i) (off + 16)
        (wrap64 (dts + uint (sm_duration s))) (wrap64 (mo + uint (sm_size s))))"
proof -
  note f1 = p [simplified trunSample_def if_True append_assoc]
  note f2 = drop_field4 [OF f1]
  note f3 = drop_field4 [OF f2]
  note f4 = drop_field4 [OF f3]
  show ?thesis
    using optField_present [OF _ f1, of videoTrunFlags "0x100"] optField_present [OF _ f2, of videoTrunFlags "0x200"]
      optField_present [OF _ f3, of videoTrunFlags "0x400"] optField_present [OF _ f4, of videoTrunFlags "0x800"]
    by (simp add: videoTrunFlags_val sint_of_int32 add.assoc option.case_eq_if map_option_case)
qed

lemma parseTrunLoop_audio_step:
  assumes p: "drop off p = trunSample False s @ r"
  shows "parseTrunLoop p td audioTrunFlags (td_defFlags td) (Suc n) i off dts mo =
    map_option ((#) \<lparr>rs_trackID = td_id td, rs_dts = dts, rs_cts = 0,
        rs_duration = sm_duration s, rs_flags = td_defFlags td, rs_mdatOff = mo, rs_size = unat (sm_size s)\<rparr>)
      (parseTrunLoop p td audioTrunFlags (td_defFlags td) n (Suc i) (off + 8)
        (wrap64 (dts + uint (sm_duration s))) (wrap64 (mo + uint (sm_size s))))"
proof -
  note f1 = p [simplified trunSample_def if_False append_assoc append_Nil2]
  note f2 = drop_field4 [OF f1]
  show ?thesis
    using optField_present [OF _ f1, of audioTrunFlags "0x100"] optField_present [OF _ f2, of audioTrunFlags "0x200"]
    by (simp add: audioTrunFlags_val optField_absent add.assoc option.case_eq_if map_option_case)
qed

lemma parseTrunLoop_step:
  assumes p: "drop off p = trunSample hv s @ r"
  shows "parseTrunLoop p td (trunFlagsFor hv) (td_defFlags td) (Suc n) i off dts mo =
    map_option ((#) \<lparr>rs_trackID = td_id td, rs_dts = dts, rs_cts = (if hv then wrap32 (sm_ptsOffset s) else 0),
        rs_duration = sm_duration s, rs_flags = (if hv then sm_flags s else td_defFlags td),
        rs_mdatOff = mo, rs_size = unat (sm_size s)\<rparr>)
      (parseTrunLoop p td (trunFlagsFor hv) (td_defFlags td) n (Suc i) (off + length (trunSample hv s))
        (wrap64 (dts + uint (sm_duration s))) (wrap64 (mo + uint (sm_size s))))"
proof (cases hv)
  case True
  show ?thesis
    using parseTrunLoop_video_step [of off p s r td "td_defFlags td" n i dts mo] p
    by (simp add: True trunFlagsFor_def length_trunSample)
next
  case False
  show ?thesis
    using parseTrunLoop_audio_step [of off p s r td n i dts mo] p
    by (simp add: False trunFlagsFor_def length_trunSample)
qed

lemma parseTrunLoop_samples:
  assumes "drop off p = concat (map (trunSample hv) ss) @ r"
    and "\<forall>s \<in> set ss. in32 (sm_ptsOffset s)"
    and "in64 dts" and "dts + ticksTotal ss < 2 ^ 63"
    and "int (mo + sizeTotal ss) < 2 ^ 63"
  shows "parseTrunLoop p td (trunFlagsFor hv) (td_defFlags td) (length ss) i off dts (int mo) =
    Some (expectedSamples td hv dts mo ss)"
  using assms
proof (induction ss arbitrary: off i dts mo)
  case Nil
  then show ?case by simp
next
  case (Cons s ss)
  have p: "drop off p = trunSample hv s @ (concat (map (trunSample hv) ss) @ r)"
    using Cons.prems by simp
  have d: "drop (off + length (trunSample hv s)) p = concat (map (trunSample hv) ss) @ r"
    using drop_field [OF p] .
  have h: "\<forall>s \<in> set ss. in32 (sm_ptsOffset s)"
    using Cons.prems(2) by simp
  have lt: "dts + uint (sm_duration s) < 2 ^ 63"
    using Cons.prems(4) ticksTotal_nonneg [of ss] unfolding ticksTotal_simps by linarith
  have w: "wrap64 (dts + uint (sm_duration s)) = dts + uint (sm_duration s)"
    and i: "in64 (dts + uint (sm_duration s))"
    using Cons.prems(3) lt by (simp_all add: wrap64_add in64_add)
  have e: "int mo + uint (sm_size s) = int (mo + unat (sm_size s))"
    by simp
  have lm: "int (mo + unat (sm_size s) + sizeTotal ss) < 2 ^ 63"
    using Cons.prems(5) by (simp only: sizeTotal_simps add.assoc)
  then have "int (mo + unat (sm_size s)) < 2 ^ 63"
    by linarith
  then have m: "wrap64 (int mo + uint (sm_size s)) = int (mo + unat (sm_size s))"
    unfolding e by (rule wrap64_id [OF in64_int])
  have "parseTrunLoop p td (trunFlagsFor hv) (td_defFlags td) (length ss) (Suc i)
      (off + length (trunSample hv s)) (dts + uint (sm_duration s)) (int (mo + unat (sm_size s))) =
    Some (expectedSamples td hv (dts + uint (sm_duration s)) (mo + unat (sm_size s)) ss)"
    using h Cons.prems(4) i lm by (intro Cons.IH [OF d]) (simp_all only: ticksTotal_simps add.assoc)
  then show ?case
    using parseTrunLoop_step [OF p, of td "length ss" i dts "int mo"] Cons.prems(2)
    unfolding w m by (simp add: wrap32_id)
qed

subsection \<open>One trun box\<close>

definition track_ok :: "trackState \<Rightarrow> bool" where
  "track_ok ts \<longleftrightarrow> in64 (ts_baseTime ts) \<and> ts_baseTime ts + ticksTotal (ts_samples ts) < 2 ^ 63 \<and>
     (\<forall>s \<in> set (ts_samples ts). in32 (sm_ptsOffset s) \<and> sm_size s = of_nat (length (sm_data s)) \<and>
        length (sm_data s) < 2 ^ 32)"

lemma take_bit_24_trunFlags: "take_bit 24 (trunFlagsFor hv) = trunFlagsFor hv"
  by (simp add: trunFlagsFor_def videoTrunFlags_val audioTrunFlags_val take_bit_eq_mask mask_numeral)

lemma trunFlagsFor_bits: "trunFlagsFor hv AND 1 \<noteq> 0" "trunFlagsFor hv AND 4 = 0"
  by (simp_all add: trunFlagsFor_def videoTrunFlags_val audioTrunFlags_val)

definition trunPayload :: "trackState \<Rightarrow> int \<Rightarrow> bytes" where
  "trunPayload ts dataOffset = fullHdr 1 (trunFlagsFor (ts_hasVideo ts))
     @ put32 (of_nat (length (ts_samples ts))) @ put32 (word_of_int dataOffset)
     @ concat (map (trunSample (ts_hasVideo ts)) (ts_samples ts))"

lemma buildTrun_payload: "buildTrun ts off = makeBox ''trun'' (trunPayload ts off)"
  by (simp add: buildTrun_def trunPayload_def makeFullBox_def trunFlagsFor_def)

lemma parseTrun_trunPayload:
  assumes ok: "track_ok ts" and n: "length (ts_samples ts) < 2 ^ 32"
    and off: "wrap64 (wrap64 (base + wrap32 dataOffset) - mdatBase) = int mo"
    and mo: "int (mo + sizeTotal (ts_samples ts)) < 2 ^ 63"
  shows "parseTrun (trunPayload ts dataOffset) td (ts_baseTime ts) base mdatBase =
    Some (expectedSamples td (ts_hasVideo ts) (ts_baseTime ts) mo (ts_samples ts))"
proof -
  let ?p = "trunPayload ts dataOffset" and ?fl = "trunFlagsFor (ts_hasVideo ts)"
  let ?r = "concat (map (trunSample (ts_hasVideo ts)) (ts_samples ts))"
  have fl: "fullBoxFlags ?p = ?fl"
    by (simp add: trunPayload_def take_bit_24_trunFlags)
  have d8: "drop 8 ?p = put32 (word_of_int dataOffset) @ ?r"
    by (simp add: trunPayload_def)
  have d12: "drop 12 ?p = ?r @ []"
    by (simp add: trunPayload_def)
  have cnt: "unat (be32 (slice ?p 4 8)) = length (ts_samples ts)"
    using n by (simp add: trunPayload_def slices unat_of_nat_u32)
  have len: "\<not> length ?p < 8"
    by (simp add: trunPayload_def)
  have loop: "parseTrunLoop ?p td ?fl (td_defFlags td) (length (ts_samples ts)) 0 12 (ts_baseTime ts) (int mo) =
     Some (expectedSamples td (ts_hasVideo ts) (ts_baseTime ts) mo (ts_samples ts))"
    using ok mo by (intro parseTrunLoop_samples [OF d12]) (simp_all add: track_ok_def)
  show ?thesis
    unfolding parseTrun_def fl Let_def cnt
    using len off optField_present [OF trunFlagsFor_bits(1) d8, where d = 0] loop
    by (simp add: sint_of_int32 optField_absent [OF trunFlagsFor_bits(2)])
qed

subsection \<open>The track fragments of a moof\<close>

definition trafPayload :: "trackState \<Rightarrow> u32 \<Rightarrow> bytes" where
  "trafPayload ts off =
    makeBox ''tfhd'' (fullHdr 0 0x020000 @ put32 (ts_id ts))
    @ makeBox ''tfdt'' (fullHdr 1 0 @ put64 (word_of_int (ts_baseTime ts)))
    @ makeBox ''trun'' (trunPayload ts (sint off))"

lemma buildTraf_payload: "buildTraf ts off = makeBox ''traf'' (trafPayload ts off)"
  by (simp add: buildTraf_def trafPayload_def buildTfhd_def buildTfdt_def buildTrun_payload makeFullBox_def)

lemma length_trunPayload:
  "length (trunPayload ts off) = 12 + length (ts_samples ts) * perSampleSize ts"
  by (simp add: trunPayload_def length_trunSamples perSampleSize_def)

lemma trafPayload_boxes:
  assumes "trafSize ts < 2 ^ 32"
  shows "findBox (trafPayload ts off) ''tfhd'' = Some (fullHdr 0 0x020000 @ put32 (ts_id ts))"
    and "findBox (trafPayload ts off) ''tfdt'' = Some (fullHdr 1 0 @ put64 (word_of_int (ts_baseTime ts)))"
    and "findBoxes (trafPayload ts off) ''trun'' = [trunPayload ts (sint off)]"
  using assms
  by (simp_all add: trafPayload_def box_search box_ok_def length_trunPayload trafSize_def)

fun expectedFragment :: "tracksByID \<Rightarrow> nat \<Rightarrow> trackState list \<Rightarrow> rawSample list" where
  "expectedFragment tracks mo [] = []"
| "expectedFragment tracks mo (ts # active) =
    expectedSamples (the (tracks (ts_id ts))) (ts_hasVideo ts) (ts_baseTime ts) mo (ts_samples ts)
    @ expectedFragment tracks (mo + sizeTotal (ts_samples ts)) active"

definition declared :: "tracksByID \<Rightarrow> trackState \<Rightarrow> bool" where
  "declared tracks ts \<longleftrightarrow> (\<exists>td. tracks (ts_id ts) = Some td \<and> td_id td = ts_id ts)"

lemma overrideDefaults_none:
  "overrideDefaults td \<lparr>th_trackID = i, th_flags = 0x020000, th_baseDataOffset = b,
     th_defDuration = x, th_defSize = y, th_defFlags = z\<rparr> = td"
  by (simp add: overrideDefaults_def Let_def)

lemma parseTrafs_step:
  assumes tr: "tracks (ts_id ts) = Some td" and sz: "trafSize ts < 2 ^ 32" and ok: "track_ok ts"
    and off: "wrap64 (wrap64 (moofStart + sint off) - mdatBase) = int mo"
    and mo: "int (mo + sizeTotal (ts_samples ts)) < 2 ^ 63"
    and rest: "parseTrafs tracks rest moofStart mdatBase = (Some others, tracks)"
  shows "parseTrafs tracks (trafPayload ts off # rest) moofStart mdatBase =
    (Some (expectedSamples td (ts_hasVideo ts) (ts_baseTime ts) mo (ts_samples ts) @ others), tracks)"
proof -
  have n: "length (ts_samples ts) < 2 ^ 32"
    using sz by (auto simp: trafSize_def perSampleSize_def split: if_splits)
  have upd: "tracks(ts_id ts \<mapsto> td) = tracks"
    using tr by (simp add: fun_upd_idem)
  have bt: "wrap64 (ts_baseTime ts) = ts_baseTime ts"
    using ok by (simp add: track_ok_def wrap64_id)
  have "wrap32 (sint off) = sint off"
    using sint_of_int32 [of "sint off"] by simp
  then have tru: "parseTrun (trunPayload ts (sint off)) td (ts_baseTime ts) moofStart mdatBase =
    Some (expectedSamples td (ts_hasVideo ts) (ts_baseTime ts) mo (ts_samples ts))"
    using off by (intro parseTrun_trunPayload [OF ok n _ mo]) simp
  show ?thesis
    by (simp add: trafPayload_boxes [OF sz] parseTfhd_fullHdr tr overrideDefaults_none upd
        parseTfdt_fullHdr bt tru rest Let_def)
qed

definition mediaSize :: "trackState list \<Rightarrow> nat" where
  "mediaSize active = sum_list (map (\<lambda>ts. sizeTotal (ts_samples ts)) active)"

lemma mediaSize_simps [simp]:
  "mediaSize [] = 0" "mediaSize (ts # active) = sizeTotal (ts_samples ts) + mediaSize active"
  by (simp_all add: mediaSize_def)

lemma foldl_sizes: "foldl (\<lambda>o' s. o' + sm_size s) (of_nat n) ss = (of_nat (n + sizeTotal ss) :: u32)"
proof (induction ss arbitrary: n)
  case (Cons s ss)
  show ?case
    using Cons [of "n + unat (sm_size s)"] by (simp add: add.assoc)
qed simp

lemma sint_of_nat_u32: "n < 2 ^ 31 \<Longrightarrow> sint (of_nat n :: u32) = int n"
  using sint_of_int32 [of "int n"] by (simp add: wrap32_id in32_def)

lemma parseTrafs_trafs:
  assumes "\<forall>ts \<in> set active. declared tracks ts \<and> track_ok ts \<and> trafSize ts < 2 ^ 32"
    and "n + mediaSize active < 2 ^ 31" and "b \<le> n"
    and "0 \<le> moofStart" and "moofStart < 2 ^ 62"
  shows "parseTrafs tracks (map (\<lambda>(ts, off). trafPayload ts off) (zip active (dataOffsetsFrom (of_nat n) active)))
      moofStart (moofStart + int b) =
    (Some (expectedFragment tracks (n - b) active), tracks)"
  using assms
proof (induction active arbitrary: n)
  case Nil
  then show ?case by simp
next
  case (Cons ts active)
  obtain td where td: "tracks (ts_id ts) = Some td"
    using Cons.prems by (auto simp: declared_def)
  have n: "n < 2 ^ 31" and bn: "b \<le> n + sizeTotal (ts_samples ts)"
    and nxt: "n + sizeTotal (ts_samples ts) + mediaSize active < 2 ^ 31"
    using Cons.prems by simp_all
  have small: "n - b + sizeTotal (ts_samples ts) < 2 ^ 31"
    using nxt by simp
  have off: "wrap64 (wrap64 (moofStart + sint (of_nat n :: u32)) - (moofStart + int b)) = int (n - b)"
    using n Cons.prems(3-5) by (simp add: sint_of_nat_u32 wrap64_id in64_def of_nat_diff)
  have mo: "int (n - b + sizeTotal (ts_samples ts)) < 2 ^ 63"
    using small by simp
  have rest: "parseTrafs tracks (map (\<lambda>(ts, off). trafPayload ts off)
      (zip active (dataOffsetsFrom (of_nat (n + sizeTotal (ts_samples ts))) active))) moofStart (moofStart + int b) =
    (Some (expectedFragment tracks (n + sizeTotal (ts_samples ts) - b) active), tracks)"
    using Cons.prems(1,4,5) nxt bn by (intro Cons.IH) simp_all
  have e: "n + sizeTotal (ts_samples ts) - b = n - b + sizeTotal (ts_samples ts)"
    using Cons.prems(3) by simp
  show ?case
    using parseTrafs_step [OF td _ _ off mo rest] Cons.prems(1)
    by (simp add: foldl_sizes td e)
qed

definition fragment_ok :: "tracksByID \<Rightarrow> trackState list \<Rightarrow> bool" where
  "fragment_ok tracks active \<longleftrightarrow>
    (\<forall>ts \<in> set active. declared tracks ts \<and> track_ok ts) \<and> moofSize active + 8 + mediaSize active < 2 ^ 31"

lemma trafSize_le: "ts \<in> set active \<Longrightarrow> trafSize ts \<le> moofSize active"
  by (simp add: moofSize_def member_le_sum_list trans_le_add2)

lemma length_trafPayload: "trafSize ts < 2 ^ 32 \<Longrightarrow> 8 + length (trafPayload ts off) = trafSize ts"
  by (simp add: trafPayload_def length_makeBox length_trunPayload trafSize_def)

lemma moof_trafs:
  assumes len: "length offs = length active" and sz: "moofSize active < 2 ^ 32"
  shows "findBoxes (drop 8 (buildMoof active seqNum offs)) ''traf'' =
    map (\<lambda>(ts, off). trafPayload ts off) (zip active offs)"
proof -
  let ?f = "\<lambda>x :: trackState \<times> u32. trafPayload (fst x) (snd x)"
  let ?trafs = "concat (map (\<lambda>x. makeBox ''traf'' (?f x)) (zip active offs))"
  have trafs: "concat (map (\<lambda>(ts, off). buildTraf ts off) (zip active offs)) = ?trafs"
    by (rule arg_cong [where f = concat], rule map_cong) (auto simp: buildTraf_payload)
  have "length ?trafs = sum_list (map trafSize active)"
    using length_trafs [OF len] sz unfolding trafs by (simp add: moofSize_def)
  then have ok: "box_ok ''moof'' (buildMfhd seqNum @ ?trafs)"
    using sz by (simp add: box_ok_def moofSize_def)
  have "box_ok ''traf'' (?f x)" if "x \<in> set (zip active offs)" for x
  proof -
    have "fst x \<in> set active"
      using that by (metis in_set_zipE prod.collapse)
    then have "8 + length (?f x) < 2 ^ 32"
      using trafSize_le [of "fst x" active] sz by (simp add: length_trafPayload)
    then show ?thesis by (simp add: box_ok_def)
  qed
  then have "findBoxes ?trafs ''traf'' = map ?f (zip active offs)"
    by (rule fbox.all_concat_map)
  moreover have "drop 8 (buildMoof active seqNum offs) = buildMfhd seqNum @ ?trafs"
    unfolding buildMoof_def trafs by (simp add: makeBox_layout [OF ok])
  ultimately show ?thesis
    by (simp add: buildMfhd_def makeFullBox_def box_search box_ok_def case_prod_beta)
qed

lemma parseMoof_fragment:
  assumes ok: "fragment_ok tracks active" and st: "0 \<le> moofStart" "moofStart < 2 ^ 62"
  shows "parseMoof tracks (drop 8 (buildMoof active seqNum (dataOffsets active))) moofStart
      (int (length (buildMoof active seqNum (dataOffsets active)))) =
    (Some (expectedFragment tracks 0 active), tracks)"
proof -
  have sz: "moofSize active + 8 + mediaSize active < 2 ^ 31"
    and all: "\<forall>ts \<in> set active. declared tracks ts \<and> track_ok ts"
    using ok by (simp_all add: fragment_ok_def)
  have tsz: "trafSize ts < 2 ^ 32" if "ts \<in> set active" for ts
    using trafSize_le [OF that] sz by simp
  have len: "length (buildMoof active seqNum (dataOffsets active)) = moofSize active"
    using sz by (intro length_buildMoof) simp_all
  have offs: "dataOffsets active = dataOffsetsFrom (of_nat (moofSize active + 8)) active"
    by (simp add: dataOffsets_def estimateMoofSize_moofSize)
  have base: "wrap64 (wrap64 (moofStart + int (moofSize active)) + 8) = moofStart + int (moofSize active + 8)"
    using st sz by (simp add: wrap64_id in64_def)
  have "findBoxes (drop 8 (buildMoof active seqNum (dataOffsets active))) ''traf'' =
      map (\<lambda>(ts, off). trafPayload ts off) (zip active (dataOffsets active))"
    using sz by (intro moof_trafs) simp_all
  moreover have "parseTrafs tracks (map (\<lambda>(ts, off). trafPayload ts off) (zip active (dataOffsets active)))
      moofStart (moofStart + int (moofSize active + 8)) = (Some (expectedFragment tracks 0 active), tracks)"
    using parseTrafs_trafs [of active tracks "moofSize active + 8" "moofSize active + 8" moofStart] all tsz sz st
    unfolding offs by simp
  ultimately show ?thesis
    unfolding len parseMoof_def Let_def base by simp
qed

subsection \<open>From samples to packets\<close>

text \<open>The packets a track's samples stand for.\<close>

fun samplePackets :: "trackDef \<Rightarrow> bool \<Rightarrow> int \<Rightarrow> sample list \<Rightarrow> packet list" where
  "samplePackets td hv dts [] = []"
| "samplePackets td hv dts (s # ss) =
    zero_packet\<lparr>KeyFrame := sampleIsKey (if hv then sm_flags s else td_defFlags td),
      Idx := td_streamIdx td,
      DTS := ticksToDuration dts (td_timescale td),
      PTSOffset := ticksToDuration (if hv then sm_ptsOffset s else 0) (td_timescale td),
      Duration := ticksToDuration (uint (sm_duration s)) (td_timescale td),
      CodecType := codecType (td_codec td),
      Data := sm_data s\<rparr>
    # samplePackets td hv (dts + uint (sm_duration s)) ss"

definition trackPackets :: "tracksByID \<Rightarrow> trackState \<Rightarrow> packet list" where
  "trackPackets tracks ts =
    samplePackets (the (tracks (ts_id ts))) (ts_hasVideo ts) (ts_baseTime ts) (ts_samples ts)"

lemma fragmentPackets_samples:
  assumes "tracks (td_id td) = Some td"
    and "\<forall>s \<in> set ss. sm_size s = of_nat (length (sm_data s)) \<and> length (sm_data s) < 2 ^ 32"
    and "drop mo mdat = concat (map sm_data ss) @ post" and "mo \<le> length mdat" and "length mdat < 2 ^ 31"
  shows "fragmentPackets tracks mdat (expectedSamples td hv dts mo ss) = samplePackets td hv dts ss"
  using assms
proof (induction ss arbitrary: dts mo)
  case Nil
  then show ?case by (simp add: fragmentPackets_def map_filter_simps)
next
  case (Cons s ss)
  have sz: "unat (sm_size s) = length (sm_data s)"
    using Cons.prems(2) by (simp add: unat_of_nat_u32)
  have d: "drop mo mdat = sm_data s @ (concat (map sm_data ss) @ post)"
    using Cons.prems(3) by simp
  have fits: "mo + length (sm_data s) \<le> length mdat"
    using arg_cong [OF d, of length] Cons.prems(4) by simp
  have w: "wrap64 (int mo + int (length (sm_data s))) = int mo + int (length (sm_data s))"
    using fits Cons.prems(5) by (intro wrap64_id) (simp add: in64_def)
  have data: "slice mdat mo (mo + length (sm_data s)) = sm_data s"
    by (simp add: slice_def d)
  have IH: "fragmentPackets tracks mdat (expectedSamples td hv (dts + uint (sm_duration s)) (mo + length (sm_data s)) ss) =
      samplePackets td hv (dts + uint (sm_duration s)) ss"
    using Cons.prems(1,2,5) drop_field [OF d] fits by (intro Cons.IH) simp_all
  show ?case
    using IH Cons.prems(1) fits
    by (simp add: fragmentPackets_def map_filter_simps samplePacket_def sz w data)
qed

lemma fragmentPackets_append:
  "fragmentPackets tracks mdat (xs @ ys) = fragmentPackets tracks mdat xs @ fragmentPackets tracks mdat ys"
  by (simp add: fragmentPackets_def List.map_filter_def)

definition mdatPayload :: "trackState list \<Rightarrow> bytes" where
  "mdatPayload active = concat (map (\<lambda>ts. concat (map sm_data (ts_samples ts))) active)"

lemma sizeTotal_data:
  "\<forall>s \<in> set ss. sm_size s = of_nat (length (sm_data s)) \<and> length (sm_data s) < 2 ^ 32 \<Longrightarrow>
   sizeTotal ss = length (concat (map sm_data ss))"
  by (induction ss) (simp_all add: unat_of_nat_u32)

lemma mediaSize_data: "\<forall>ts \<in> set active. track_ok ts \<Longrightarrow> mediaSize active = length (mdatPayload active)"
  by (induction active) (simp_all add: mdatPayload_def track_ok_def sizeTotal_data)

lemma fragmentPackets_fragment:
  assumes "\<forall>ts \<in> set active. declared tracks ts \<and> track_ok ts"
    and "drop mo mdat = mdatPayload active @ post" and "mo \<le> length mdat" and "length mdat < 2 ^ 31"
  shows "fragmentPackets tracks mdat (expectedFragment tracks mo active) = concat (map (trackPackets tracks) active)"
  using assms
proof (induction active arbitrary: mo)
  case Nil
  then show ?case by (simp add: fragmentPackets_def map_filter_simps)
next
  case (Cons ts active)
  let ?d = "concat (map sm_data (ts_samples ts))"
  obtain td where td: "tracks (ts_id ts) = Some td" "td_id td = ts_id ts"
    using Cons.prems(1) by (auto simp: declared_def)
  have d: "drop mo mdat = ?d @ (mdatPayload active @ post)"
    using Cons.prems(2) by (simp add: mdatPayload_def)
  have sz: "sizeTotal (ts_samples ts) = length ?d"
    using Cons.prems(1) by (intro sizeTotal_data) (auto simp: track_ok_def)
  have fits: "mo + length ?d \<le> length mdat"
    using arg_cong [OF d, of length] Cons.prems(3) by simp
  have "fragmentPackets tracks mdat (expectedFragment tracks (mo + length ?d) active) =
      concat (map (trackPackets tracks) active)"
    using Cons.prems(1,4) drop_field [OF d] fits by (intro Cons.IH) simp_all
  moreover have "fragmentPackets tracks mdat
      (expectedSamples td (ts_hasVideo ts) (ts_baseTime ts) mo (ts_samples ts)) =
    samplePackets td (ts_hasVideo ts) (ts_baseTime ts) (ts_samples ts)"
    using Cons.prems(1,3,4) td d by (intro fragmentPackets_samples) (auto simp: track_ok_def)
  ultimately show ?case
    by (simp add: fragmentPackets_append trackPackets_def [of tracks ts] td sz)
qed

lemma buildMdat_payload:
  "8 + length (mdatPayload active) < 2 ^ 32 \<Longrightarrow> drop 8 (buildMdat active) = mdatPayload active"
  unfolding buildMdat_def mdatPayload_def [symmetric]
  by (subst makeBox_layout) (simp_all add: box_ok_def)

subsection \<open>Properties\<close>


definition ex_trackDef :: trackDef where
  "ex_trackDef = \<lparr>td_id = 1, td_streamIdx = 0, td_timescale = 90000, td_codec = ts_codec ex_track, td_hasVideo = True,
     td_defDuration = 0, td_defSize = 0, td_defFlags = 0\<rparr>"


end
