(* ===== verification/Fmp4_Index.thy ===== *)
theory Fmp4_Index
  imports Fmp4_Roundtrip
begin

text \<open>
  Round trips of the segment index (\<^verbatim>\<open>BuildSidx\<close> and \<^verbatim>\<open>ParseSidx\<close>) and of event messages (\<^verbatim>\<open>buildEmsg\<close>
  and \<^verbatim>\<open>parseEmsg\<close>).
\<close>

subsection \<open>Segment index\<close>

lemma field32: "drop pos p = put32 v @ r \<Longrightarrow> be32 (slice p pos (pos + 4)) = v"
  by (simp add: slice_def)

text \<open>What the index reads back as: offsets, sizes and access points of the entries, and times accumulated from the durations.\<close>

fun expectedSidx :: "u32 \<Rightarrow> int \<Rightarrow> FragmentIndex list \<Rightarrow> SidxEntry list" where
  "expectedSidx ts ticks [] = []"
| "expectedSidx ts ticks (e # rest) =
    \<lparr>sx_PTS = ticksToDuration ticks ts,
      sx_Duration = ticksToDuration (dtsToTimescale (fi_Duration e) ts) ts,
      sx_Offset = fi_Offset e, sx_Size = sidxRefSize e rest, sx_StartsWithSAP = fi_StartsWithSAP e\<rparr>
    # expectedSidx ts (ticks + dtsToTimescale (fi_Duration e) ts) rest"

definition ticksOf :: "u32 \<Rightarrow> FragmentIndex list \<Rightarrow> int" where
  "ticksOf ts es = sum_list (map (\<lambda>e. dtsToTimescale (fi_Duration e) ts) es)"

text \<open>
  Entries that fit the fields of the box: offsets that grow by less than 2 GiB, a last size below
  2 GiB, and durations of less than 2^32 ticks.
\<close>

fun index_ok :: "u32 \<Rightarrow> FragmentIndex list \<Rightarrow> bool" where
  "index_ok ts [] \<longleftrightarrow> True"
| "index_ok ts (e # rest) \<longleftrightarrow>
    0 \<le> dtsToTimescale (fi_Duration e) ts \<and> dtsToTimescale (fi_Duration e) ts < 2 ^ 32 \<and>
    0 \<le> fi_Offset e \<and> fi_Offset e < 2 ^ 62 \<and>
    (case rest of [] \<Rightarrow> 0 \<le> fi_Size e \<and> fi_Size e < 2 ^ 31
     | e' # _ \<Rightarrow> fi_Offset e \<le> fi_Offset e' \<and> fi_Offset e' - fi_Offset e < 2 ^ 31) \<and>
    index_ok ts rest"

lemma sidxRefSize_bounds: "index_ok ts (e # rest) \<Longrightarrow> 0 \<le> sidxRefSize e rest \<and> sidxRefSize e rest < 2 ^ 31"
  by (cases rest) (auto simp: wrap64_id in64_def)

lemma sidxRefSize_next: "index_ok ts (e # e' # rest) \<Longrightarrow> fi_Offset e + sidxRefSize e (e' # rest) = fi_Offset e'"
  by (auto simp: wrap64_id in64_def)

lemma word_of_int_31:
  assumes "0 \<le> x" "x < 2 ^ 31"
  shows "uint ((word_of_int x :: u32) AND 0x7FFFFFFF) = x"
proof -
  have "(word_of_int x :: u32) AND 0x7FFFFFFF = take_bit 31 (word_of_int x)"
    by (simp add: take_bit_eq_mask mask_numeral)
  then show ?thesis
    using assms by (simp add: unsigned_take_bit_eq uint_word_of_int_eq take_bit_take_bit)
      (simp add: take_bit_int_eq_self)
qed

lemma uint_of_int_32: "0 \<le> x \<Longrightarrow> x < 2 ^ 32 \<Longrightarrow> uint (word_of_int x :: u32) = x"
  by (simp add: uint_word_of_int_eq take_bit_int_eq_self)

lemma ticksOf_nonneg: "index_ok ts es \<Longrightarrow> 0 \<le> ticksOf ts es"
  by (induction es) (auto simp: ticksOf_def)

lemma sint_advance:
  assumes "sint (cur :: u64) = t" and "0 \<le> t" and "0 \<le> d" "d < 2 ^ 32" and "t + d < 2 ^ 63"
  shows "sint (cur + ucast (word_of_int d :: u32)) = t + d"
proof -
  have "cur = word_of_int t"
    by (simp flip: assms(1))
  moreover have "(ucast (word_of_int d :: u32) :: u64) = word_of_int d"
    using assms(3,4) by (metis uint_of_int_32 unsigned_eq_0_iff word_of_int_uint ucast_eq)
  ultimately have "sint (cur + ucast (word_of_int d :: u32)) = wrap64 (t + d)"
    by (simp flip: sint_of_int64)
  then show ?thesis
    using assms by (simp add: wrap64_id in64_def)
qed

lemma parseSidxRefs_sidxRefs:
  assumes "drop pos p = sidxRefs ts es @ r" and "index_ok ts es"
    and "sint cur = ticks" and "0 \<le> ticks" and "ticks + ticksOf ts es < 2 ^ 63"
    and "\<And>e rest. es = e # rest \<Longrightarrow> off = fi_Offset e"
  shows "parseSidxRefs p ts (length es) pos cur off = expectedSidx ts ticks es"
  using assms
proof (induction es arbitrary: pos cur off ticks)
  case Nil
  then show ?case by simp
next
  case (Cons e rest)
  let ?d = "dtsToTimescale (fi_Duration e) ts" and ?sz = "sidxRefSize e rest"
  have f1: "drop pos p = put32 (word_of_int ?sz AND 0x7FFFFFFF) @ put32 (word_of_int ?d)
      @ put32 (if fi_StartsWithSAP e then (0 OR 0x80000000) OR 0x10000000 else 0) @ (sidxRefs ts rest @ r)"
    using Cons.prems(1) by simp
  note f2 = drop_field4 [OF f1]
  note f3 = drop_field4 [OF f2, simplified add.assoc, simplified]
  note f4 = drop_field4 [OF f3, simplified add.assoc, simplified]
  have b: "0 \<le> ?d" "?d < 2 ^ 32" "0 \<le> ?sz" "?sz < 2 ^ 31"
    using Cons.prems(2) sidxRefSize_bounds [OF Cons.prems(2)] by auto
  have tr: "0 \<le> ticksOf ts rest"
    using Cons.prems(2) by (intro ticksOf_nonneg) simp
  have tk: "ticks + ?d + ticksOf ts rest < 2 ^ 63"
    using Cons.prems(5) by (simp add: ticksOf_def)
  have cur: "sint (cur + ucast (word_of_int ?d :: u32)) = ticks + ?d"
    using Cons.prems(3,4) b tk tr by (intro sint_advance) simp_all
  have off: "off = fi_Offset e"
    using Cons.prems(6) by simp
  have "parseSidxRefs p ts (length rest) (pos + 12) (cur + ucast (word_of_int ?d :: u32)) (wrap64 (off + ?sz)) =
      expectedSidx ts (ticks + ?d) rest"
  proof (rule Cons.IH)
    show "wrap64 (off + ?sz) = fi_Offset e'" if "rest = e' # rest'" for e' rest'
      using Cons.prems(2) sidxRefSize_next [of ts e e' rest'] off that by (simp add: wrap64_id in64_def)
  qed (use f4 Cons.prems(2,4) cur b tk in simp_all)
  then show ?case
    using field32 [OF f1] field32 [OF f2] field32 [OF f3] b off Cons.prems(3)
    by (simp add: Let_def word_of_int_31 uint_of_int_32 add.assoc)
qed

definition sidxPayload :: "FragmentIndex list \<Rightarrow> u32 \<Rightarrow> u32 \<Rightarrow> int \<Rightarrow> bytes" where
  "sidxPayload entries rid ts anchor =
    fullHdr 1 0 @ put32 rid @ put32 ts @ put64 (word_of_int (dtsToTimescale (fi_PTS (hd entries)) ts))
    @ put64 (word_of_int (wrap64 (fi_Offset (hd entries) - anchor)))
    @ put16 0 @ put16 (of_nat (length entries)) @ sidxRefs ts entries"

lemma length_sidxRefs [simp]: "length (sidxRefs ts es) = length es * 12"
  by (induction es) simp_all

lemma BuildSidx_payload: "es \<noteq> [] \<Longrightarrow> BuildSidx es rid ts anchor = makeBox ''sidx'' (sidxPayload es rid ts anchor)"
  by (cases es) (simp_all add: BuildSidx_def sidxPayload_def makeFullBox_def)

lemma length_expectedSidx [simp]: "length (expectedSidx ts t es) = length es"
  by (induction es arbitrary: t) simp_all

lemma ParseSidx_sidxPayload:
  assumes ne: "es \<noteq> []" and n: "length es < 2 ^ 16" and ts: "ts \<noteq> 0" and ok: "index_ok ts es"
    and t: "0 \<le> dtsToTimescale (fi_PTS (hd es)) ts"
    and tt: "dtsToTimescale (fi_PTS (hd es)) ts + ticksOf ts es < 2 ^ 63"
    and a: "0 \<le> anchor" "anchor \<le> fi_Offset (hd es)"
  shows "ParseSidx (sidxPayload es rid ts anchor) anchor =
    Some (expectedSidx ts (dtsToTimescale (fi_PTS (hd es)) ts) es)"
proof -
  let ?p = "sidxPayload es rid ts anchor" and ?t = "dtsToTimescale (fi_PTS (hd es)) ts"
  have h: "fi_Offset (hd es) < 2 ^ 62"
    using ok ne by (cases es) auto
  have d: "drop 32 ?p = sidxRefs ts es @ []"
    by (simp add: sidxPayload_def)
  have len: "length ?p = 32 + length es * 12"
    by (simp add: sidxPayload_def)
  have v: "?p ! 0 = 1"
    by (simp add: sidxPayload_def)
  have f: "be32 (slice ?p 8 12) = ts" "be64 (slice ?p 12 20) = word_of_int ?t"
    "be64 (slice ?p 20 28) = word_of_int (wrap64 (fi_Offset (hd es) - anchor))"
    "be16 (slice ?p 30 32) = of_nat (length es)"
    by (simp_all add: sidxPayload_def slices)
  have anch: "wrap64 (anchor + sint (word_of_int (wrap64 (fi_Offset (hd es) - anchor)) :: u64)) = fi_Offset (hd es)"
    unfolding sint_of_int64 using h a by (simp add: wrap64_id in64_def)
  have st: "sint (word_of_int ?t :: u64) = ?t"
    using t tt ticksOf_nonneg [OF ok] by (simp add: sint_of_int64 wrap64_id in64_def)
  have "parseSidxRefs ?p ts (length es) 32 (word_of_int ?t) (fi_Offset (hd es)) = expectedSidx ts ?t es"
    using ok t tt by (intro parseSidxRefs_sidxRefs [OF d]) (simp_all add: st)
  then show ?thesis
    using ts n ne unfolding ParseSidx_def Let_def v f anch len
    by (simp add: f anch unat_of_nat_u16)
qed

subsection \<open>Event messages\<close>

lemma indexByte_append: "c \<notin> set xs \<Longrightarrow> indexByte (xs @ c # ys) c = Some (length xs)"
  by (induction xs) auto

definition emsgPayload :: "int \<Rightarrow> u32 \<Rightarrow> bytes \<Rightarrow> bytes" where
  "emsgPayload t eid data = fullHdr 1 0 @ strbytes emsgSchemeIDURI @ 0 # 0 # put32 1000
     @ put64 (word_of_int t) @ put32 0xFFFFFFFF @ put32 eid @ data"

lemma buildEmsg_payload: "buildEmsg t eid data = makeBox ''emsg'' (emsgPayload t eid data)"
  by (simp add: buildEmsg_def makeFullBox_def emsgPayload_def emsgSchemeIDURI_def strbytes_def)

lemma scheme_no_zero: "0 \<notin> set (strbytes emsgSchemeIDURI)"
  by (simp add: emsgSchemeIDURI_def strbytes_def)

lemma length_scheme: "length emsgSchemeIDURI = 20"
  by (simp add: emsgSchemeIDURI_def)

lemma parseEmsg_emsgPayload:
  assumes "in64 t" and "in64 (t * 1000)"
  shows "parseEmsg (emsgPayload t eid data) =
    Some \<lparr>em_schemeIDURI = emsgSchemeIDURI, em_presentTimeMS = t, em_id = eid, em_payload = data\<rparr>"
proof -
  let ?p = "emsgPayload t eid data"
  have d4: "drop 4 ?p = strbytes emsgSchemeIDURI @ 0 # 0 # put32 1000
     @ put64 (word_of_int t) @ put32 0xFFFFFFFF @ put32 eid @ data"
    by (simp add: emsgPayload_def)
  have d25: "drop 25 ?p = [] @ 0 # put32 1000 @ put64 (word_of_int t) @ put32 0xFFFFFFFF @ put32 eid @ data"
    by (simp add: emsgPayload_def length_scheme)
  have d26: "drop 26 ?p = put32 1000 @ put64 (word_of_int t) @ put32 0xFFFFFFFF @ put32 eid @ data"
    and d30: "drop 30 ?p = put64 (word_of_int t) @ put32 0xFFFFFFFF @ put32 eid @ data"
    and d42: "drop 42 ?p = put32 eid @ data" and d46: "drop 46 ?p = data"
    by (simp_all add: emsgPayload_def length_scheme)
  have s: "slice ?p 4 24 = strbytes emsgSchemeIDURI"
    by (simp add: slice_def d4 length_scheme)
  have l: "length ?p = 46 + length data" and v: "?p ! 0 = 1"
    by (simp_all add: emsgPayload_def length_scheme)
  have q: "go_quot (wrap64 (t * 1000)) 1000 = t"
    using assms(2) by (simp add: wrap64_id go_quot_def abs_mult sgn_mult zsgn_def)
  show ?thesis
    unfolding parseEmsg_def
    using indexByte_append [OF scheme_no_zero, folded d4] assms(1)
    by (simp add: d4 d25 d26 d30 d42 d46 l v indexByte_append [OF scheme_no_zero] length_scheme s Let_def
        sint_of_int64 wrap64_id q)
qed

subsection \<open>Properties\<close>

text \<open>
  C23.  The segment index that \<^verbatim>\<open>BuildSidx\<close> writes is read back by \<^verbatim>\<open>ParseSidx\<close>: for up to 65535 entries
  whose offsets grow by less than 2 GiB, whose durations are below 2^32 ticks and whose times stay
  within 64 bits, every entry keeps its offset and its access-point flag, its size is the distance to the next
  entry, and its time is the first entry's plus the durations before it.
\<close>

theorem sidx_roundtrip:
  assumes "es \<noteq> []" and "length es < 2 ^ 16" and "ts \<noteq> 0" and "index_ok ts es"
    and "0 \<le> dtsToTimescale (fi_PTS (hd es)) ts"
    and "dtsToTimescale (fi_PTS (hd es)) ts + ticksOf ts es < 2 ^ 63"
    and "0 \<le> anchor" and "anchor \<le> fi_Offset (hd es)"
  shows "ParseSidx (drop 8 (BuildSidx es rid ts anchor)) anchor =
    Some (expectedSidx ts (dtsToTimescale (fi_PTS (hd es)) ts) es)"
proof -
  have "length (sidxPayload es rid ts anchor) = 32 + length es * 12"
    by (simp add: sidxPayload_def)
  then have "drop 8 (BuildSidx es rid ts anchor) = sidxPayload es rid ts anchor"
    using assms(1,2) by (simp add: BuildSidx_payload makeBox_layout box_ok_def)
  then show ?thesis
    using ParseSidx_sidxPayload [OF assms] by simp
qed

definition ex_index :: "FragmentIndex list" where
  "ex_index = [\<lparr>fi_PTS = 0, fi_Duration = 2000000000, fi_Offset = 700, fi_Size = 4000, fi_StartsWithSAP = True\<rparr>,
     \<lparr>fi_PTS = 2000000000, fi_Duration = 1000000000, fi_Offset = 5000, fi_Size = 300, fi_StartsWithSAP = False\<rparr>]"

theorem sidx_roundtrip_witness:
  "\<exists>xs. ParseSidx (drop 8 (BuildSidx ex_index 1 90000 700)) 700 = Some xs \<and>
    map (\<lambda>x. (sx_PTS x, sx_Offset x, sx_Size x, sx_StartsWithSAP x)) xs =
      [(0, 700, 4300, True), (2000000000, 5000, 300, False)]"
proof -
  have d: "dtsToTimescale 0 90000 = 0" "dtsToTimescale 2000000000 90000 = 180000" "dtsToTimescale 1000000000 90000 = 90000"
    "ticksToDuration 0 90000 = 0" "ticksToDuration 180000 90000 = 2000000000" "wrap64 4300 = 4300"
    by code_simp+
  have "ParseSidx (drop 8 (BuildSidx ex_index 1 90000 700)) 700 = Some (expectedSidx 90000 0 ex_index)"
    using sidx_roundtrip [of ex_index 90000 700 1] by (simp add: ex_index_def d ticksOf_def)
  then show ?thesis
    by (simp add: ex_index_def d)
qed

text \<open>
  The analytics message that \<^verbatim>\<open>buildEmsg\<close> writes is read back by \<^verbatim>\<open>parseEmsg\<close> with its scheme, its
  identifier, its payload and its presentation time, for times whose value in microseconds fits 64
  bits.
\<close>

theorem emsg_roundtrip:
  assumes "in64 t" and "in64 (t * 1000)" and "length data < 2 ^ 31"
  shows "parseEmsg (drop 8 (buildEmsg t eid data)) =
    Some \<lparr>em_schemeIDURI = emsgSchemeIDURI, em_presentTimeMS = t, em_id = eid, em_payload = data\<rparr>"
proof -
  have "length (emsgPayload t eid data) = 46 + length data"
    by (simp add: emsgPayload_def length_scheme)
  then have "drop 8 (buildEmsg t eid data) = emsgPayload t eid data"
    using assms(3) by (simp add: buildEmsg_payload makeBox_layout box_ok_def)
  then show ?thesis
    using parseEmsg_emsgPayload [OF assms(1,2)] by simp
qed

theorem emsg_roundtrip_witness:
  "\<exists>e. parseEmsg (drop 8 (buildEmsg 1700000000123 9 [123, 125])) = Some e \<and> em_id e = 9 \<and> em_payload e = [123, 125]"
  using emsg_roundtrip [of 1700000000123 "[123, 125]" 9] by (simp add: in64_def)

end
