(* ===== verification/Fmp4_Init.thy ===== *)
theory Fmp4_Init
  imports Fmp4_Fragment Flac "HOL-Library.Monad_Syntax"
begin

text \<open>
  The initialisation segment of \<^verbatim>\<open>av/format/fmp4/muxer.go\<close>: every builder from \<^verbatim>\<open>buildFtyp\<close> and
  \<^verbatim>\<open>buildMoov\<close> down to the sample entries.  \<^verbatim>\<open>buildDescriptor\<close> has a loop that need not end, so it is a
  partial function and the builders above it return options, where \<open>None\<close> means that the call does
  not return.
\<close>

subsection \<open>MPEG-4 descriptors\<close>

text \<open>The length bytes that \<^verbatim>\<open>buildDescriptor\<close> writes for a payload of \<open>n\<close> bytes.\<close>

partial_function (option) descriptorLength :: "nat \<Rightarrow> bytes option" where
  "descriptorLength n =
    (if n > 0x7f
     then Option.bind (descriptorLength (n AND 0x1fffff))
       (\<lambda>rest. Some ((of_nat (drop_bit 21 n) OR 0x80) # rest))
     else Some [of_nat n])"

declare descriptorLength.simps [code]

definition buildDescriptor :: "byte \<Rightarrow> bytes \<Rightarrow> bytes option" where
  "buildDescriptor tag payload =
    Option.bind (descriptorLength (length payload)) (\<lambda>len. Some (tag # len @ payload))"

definition buildEsds :: "aac_codec \<Rightarrow> bytes option" where
  "buildEsds c = do {
     dsi \<leftarrow> buildDescriptor 0x05 (aac_ConfigBytes c);
     dc \<leftarrow> buildDescriptor 0x04 ([0x40, 0x15] @ writeUint24 0 @ put32 0 @ put32 0 @ dsi);
     sl \<leftarrow> buildDescriptor 0x06 [0x02];
     esDesc \<leftarrow> buildDescriptor 0x03 (put16 1 @ [0x00] @ dc @ sl);
     Some (makeBox ''esds'' (put32 0 @ esDesc))
   }"

subsection \<open>Sample entries\<close>

definition buildAvc1 :: "h264_codec \<Rightarrow> bytes" where
  "buildAvc1 c = makeBox ''avc1''
    (writeZeros 6 @ put16 1 @ put16 0 @ put16 0 @ writeZeros 12
     @ put16 (word_of_int (h264_Width c)) @ put16 (word_of_int (h264_Height c))
     @ put32 0x00480000 @ put32 0x00480000 @ put32 0 @ put16 1 @ writeZeros 32
     @ put16 0x0018 @ put16 (word_of_int (- 1))
     @ makeBox ''avcC'' (h264_Record c))"

definition buildHev1 :: "h265_codec \<Rightarrow> bytes" where
  "buildHev1 c = makeBox ''hev1''
    (writeZeros 6 @ put16 1 @ put16 0 @ put16 0 @ writeZeros 12
     @ put16 (word_of_int (h265_Width c)) @ put16 (word_of_int (h265_Height c))
     @ put32 0x00480000 @ put32 0x00480000 @ put32 0 @ put16 1 @ writeZeros 32
     @ put16 0x0018 @ put16 (word_of_int (- 1))
     @ makeBox ''hvcC'' (h265_Record c))"

definition audioEntryHeader :: "channel_layout \<Rightarrow> int \<Rightarrow> bytes" where
  "audioEntryHeader layout sampleRate =
    writeZeros 6 @ put16 1 @ put32 0 @ put32 0 @ put16 (of_nat (ChannelCount layout))
    @ put16 16 @ put16 0 @ put16 0 @ put32 (push_bit 16 (word_of_int sampleRate))"

definition buildMp4a :: "aac_codec \<Rightarrow> bytes option" where
  "buildMp4a c = do {
     esds \<leftarrow> buildEsds c;
     Some (makeBox ''mp4a''
       (audioEntryHeader (aac_ChannelLayout (aac_Config c)) (aac_SampleRate (aac_Config c)) @ esds))
   }"

definition buildFLaC :: "flac_codec \<Rightarrow> bytes" where
  "buildFLaC c = makeBox ''fLaC''
    (audioEntryHeader (flac_chLayout c) (flac_SampleRate c)
     @ makeFullBox ''dfLa'' 0 0 (STREAMINFOBlock c))"

definition stsdEntry :: "codec_data \<Rightarrow> bytes option" where
  "stsdEntry codec =
    (case codec of
       H264Codec c \<Rightarrow> Some (buildAvc1 c)
     | H265Codec c \<Rightarrow> Some (buildHev1 c)
     | AACCodec c \<Rightarrow> buildMp4a c
     | FLACCodec c \<Rightarrow> Some (buildFLaC c)
     | OtherCodec c \<Rightarrow> Some [])"

definition buildStsd :: "trackState \<Rightarrow> bytes option" where
  "buildStsd ts = do {
     entry \<leftarrow> stsdEntry (ts_codec ts);
     Some (makeFullBox ''stsd'' 0 0 (put32 1 @ entry))
   }"

subsection \<open>The media boxes of a track\<close>

definition buildStts :: bytes where
  "buildStts = makeFullBox ''stts'' 0 0 (put32 0)"

definition buildStsc :: bytes where
  "buildStsc = makeFullBox ''stsc'' 0 0 (put32 0)"

definition buildStsz :: bytes where
  "buildStsz = makeFullBox ''stsz'' 0 0 (put32 0 @ put32 0)"

definition buildStco :: bytes where
  "buildStco = makeFullBox ''stco'' 0 0 (put32 0)"

definition buildStbl :: "trackState \<Rightarrow> bytes option" where
  "buildStbl ts = do {
     stsd \<leftarrow> buildStsd ts;
     Some (makeBox ''stbl'' (stsd @ buildStts @ buildStsc @ buildStsz @ buildStco))
   }"

definition buildVmhd :: bytes where
  "buildVmhd = makeFullBox ''vmhd'' 0 1 (put16 0 @ writeZeros 6)"

definition buildSmhd :: bytes where
  "buildSmhd = makeFullBox ''smhd'' 0 0 (put16 0 @ put16 0)"

definition buildDinf :: bytes where
  "buildDinf = makeBox ''dinf''
     (makeFullBox ''dref'' 0 0 (put32 1 @ makeFullBox ''url '' 0 1 []))"

definition buildMinf :: "trackState \<Rightarrow> bytes option" where
  "buildMinf ts = do {
     stbl \<leftarrow> buildStbl ts;
     Some (makeBox ''minf'' ((if ts_hasVideo ts then buildVmhd else buildSmhd) @ buildDinf @ stbl))
   }"

definition buildHdlr :: "trackState \<Rightarrow> bytes" where
  "buildHdlr ts = makeFullBox ''hdlr'' 0 0
    (put32 0 @
     (if ts_hasVideo ts
      then strbytes ''vide'' @ writeZeros 12 @ strbytes ''VideoHandler''
      else strbytes ''soun'' @ writeZeros 12 @ strbytes ''SoundHandler'')
     @ [0])"

definition buildMdhd :: "trackState \<Rightarrow> bytes" where
  "buildMdhd ts = makeFullBox ''mdhd'' 0 0
    (put32 0 @ put32 0 @ put32 (ts_timescale ts) @ put32 0 @ put16 0x55c4 @ put16 0)"

definition buildMdia :: "trackState \<Rightarrow> bytes option" where
  "buildMdia ts = do {
     minf \<leftarrow> buildMinf ts;
     Some (makeBox ''mdia'' (buildMdhd ts @ buildHdlr ts @ minf))
   }"

definition identityMatrix :: bytes where
  "identityMatrix = put32 0x00010000 @ put32 0 @ put32 0 @ put32 0 @ put32 0x00010000 @ put32 0
     @ put32 0 @ put32 0 @ put32 0x40000000"

definition buildTkhd :: "trackState \<Rightarrow> bytes" where
  "buildTkhd ts = makeFullBox ''tkhd'' 0 3
    (put32 0 @ put32 0 @ put32 (ts_id ts) @ put32 0 @ put32 0 @ writeZeros 8 @ put16 0 @ put16 0
     @ (if ts_hasVideo ts then put16 0 else put16 0x0100) @ put16 0 @ identityMatrix
     @ (case videoDims (ts_codec ts) of
          Some (w, h) \<Rightarrow> put32 (push_bit 16 (word_of_int w)) @ put32 (push_bit 16 (word_of_int h))
        | None \<Rightarrow> put32 0 @ put32 0))"

definition buildTrak :: "trackState \<Rightarrow> bytes option" where
  "buildTrak ts = do {
     mdia \<leftarrow> buildMdia ts;
     Some (makeBox ''trak'' (buildTkhd ts @ mdia))
   }"

subsection \<open>The movie boxes\<close>

definition buildMvhd :: "nat \<Rightarrow> bytes" where
  "buildMvhd numTracks = makeFullBox ''mvhd'' 0 0
    (put32 0 @ put32 0 @ put32 1000 @ put32 0 @ put32 0x00010000 @ put16 0x0100 @ writeZeros 10
     @ identityMatrix @ writeZeros 24 @ put32 (of_nat (numTracks + 1)))"

definition buildTrex :: "trackState \<Rightarrow> bytes" where
  "buildTrex ts = makeFullBox ''trex'' 0 0 (put32 (ts_id ts) @ put32 1 @ put32 0 @ put32 0 @ put32 0)"

definition buildMvex :: "trackState list \<Rightarrow> bytes" where
  "buildMvex tracks = makeBox ''mvex'' (concat (map buildTrex tracks))"

definition buildMoov :: "trackState list \<Rightarrow> bytes option" where
  "buildMoov tracks = do {
     traks \<leftarrow> those (map buildTrak tracks);
     Some (makeBox ''moov'' (buildMvhd (length tracks) @ concat traks @ buildMvex tracks))
   }"

definition isH265 :: "codec_data \<Rightarrow> bool" where
  "isH265 c = (case c of H265Codec _ \<Rightarrow> True | _ \<Rightarrow> False)"

definition buildFtyp :: "trackState list \<Rightarrow> bytes" where
  "buildFtyp tracks =
    (let codecBrand = (if list_ex (\<lambda>ts. isH265 (ts_codec ts)) tracks then ''hev1'' else ''avc1'')
     in makeBox ''ftyp''
       (strbytes ''isom'' @ put32 0x00000200 @ strbytes ''isom'' @ strbytes ''iso5''
        @ strbytes codecBrand @ strbytes ''mp41''))"

definition buildInitSegment :: "trackState list \<Rightarrow> bytes option" where
  "buildInitSegment tracks = do {
     moov \<leftarrow> buildMoov tracks;
     Some (buildFtyp tracks @ moov)
   }"

subsection \<open>When the descriptor writer returns\<close>

lemma descriptorLength_short: "n \<le> 127 \<Longrightarrow> descriptorLength n = Some [of_nat n]"
  by (subst descriptorLength.simps) simp

lemma and_21: "n AND 0x1fffff = n mod 2 ^ 21" for n :: nat
  using take_bit_eq_mask [of 21 n] by (simp add: take_bit_eq_mod mask_eq_exp_minus_1)

lemma descriptorLength_Some: "descriptorLength n = Some y \<Longrightarrow> n mod 2 ^ 21 \<le> 127"
proof (erule descriptorLength.raw_induct [of "\<lambda>n y. n mod 2 ^ 21 \<le> 127", rotated])
  fix dl :: "nat \<Rightarrow> bytes option" and n y
  assume IH: "\<And>k z. dl k = Some z \<Longrightarrow> k mod 2 ^ 21 \<le> 127"
    and body: "(if n > 0x7f then Option.bind (dl (n AND 0x1fffff)) (\<lambda>rest. Some ((of_nat (drop_bit 21 n) OR 0x80) # rest))
      else Some [of_nat n]) = Some y"
  show "n mod 2 ^ 21 \<le> 127"
  proof (cases "127 < n")
    case True
    then obtain z where "dl (n AND 0x1fffff) = Some z"
      using body by (auto split: bind_splits)
    from IH [OF this] show ?thesis
      by (simp add: and_21)
  next
    case False
    then show ?thesis
      using mod_less_eq_dividend [of n "2 ^ 21"] by linarith
  qed
qed

lemma descriptorLength_returns: "n mod 2 ^ 21 \<le> 127 \<Longrightarrow> \<exists>y. descriptorLength n = Some y"
  by (subst descriptorLength.simps) (auto simp: and_21 descriptorLength_short)

definition codec_fits :: "codec_data \<Rightarrow> bool" where
  "codec_fits codec = (case codec of AACCodec c \<Rightarrow> length (aac_ConfigBytes c) \<le> 104 | _ \<Rightarrow> True)"

lemma buildDescriptor_short:
  "length payload \<le> 127 \<Longrightarrow> buildDescriptor tag payload = Some (tag # of_nat (length payload) # payload)"
  by (simp add: buildDescriptor_def descriptorLength_short)

lemma buildEsds_short:
  assumes "length (aac_ConfigBytes c) \<le> 104"
  shows "buildEsds c = Some (makeBox ''esds'' (put32 0 @ 0x03 # of_nat (23 + length (aac_ConfigBytes c)) #
     put16 1 @ 0x00 # 0x04 # of_nat (15 + length (aac_ConfigBytes c)) #
       [0x40, 0x15] @ writeUint24 0 @ put32 0 @ put32 0
         @ 0x05 # of_nat (length (aac_ConfigBytes c)) # aac_ConfigBytes c
     @ [0x06, 0x01, 0x02]))"
  using assms by (simp add: buildEsds_def buildDescriptor_short writeUint24_def)

lemma stsdEntry_returns: "codec_fits codec \<Longrightarrow> \<exists>b. stsdEntry codec = Some b"
  by (cases codec) (simp_all add: codec_fits_def stsdEntry_def buildMp4a_def buildEsds_short)

lemma buildTrak_returns: "codec_fits (ts_codec ts) \<Longrightarrow> \<exists>b. buildTrak ts = Some b"
  using stsdEntry_returns [of "ts_codec ts"]
  by (auto simp: buildTrak_def buildMdia_def buildMinf_def buildStbl_def buildStsd_def)

lemma those_map_Some: "\<forall>x \<in> set xs. \<exists>y. f x = Some y \<Longrightarrow> \<exists>ys. those (map f xs) = Some ys"
  by (induction xs) auto

lemma buildInitSegment_returns:
  assumes "\<forall>ts \<in> set tracks. codec_fits (ts_codec ts)"
  shows "\<exists>b. buildInitSegment tracks = Some b"
  using those_map_Some [of tracks buildTrak] buildTrak_returns assms
  by (auto simp: buildInitSegment_def buildMoov_def)

text \<open>
  C29.  \<^verbatim>\<open>buildDescriptor\<close> returns exactly for payloads whose length modulo 2^21 is at most 127, and then for
  at most 127 bytes writes the tag, one length byte and the payload; for every other length its loop
  runs forever.
\<close>

theorem descriptor_returns_iff:
  "(buildDescriptor tag payload = None \<longleftrightarrow> 127 < length payload mod 2 ^ 21) \<and>
   (if length payload \<le> 127 then buildDescriptor tag payload = Some (tag # of_nat (length payload) # payload) else True)"
proof -
  have "buildDescriptor tag payload = None \<longleftrightarrow> 127 < length payload mod 2 ^ 21"
    using descriptorLength_returns [of "length payload"] descriptorLength_Some [of "length payload"]
    by (cases "descriptorLength (length payload)") (force simp: buildDescriptor_def not_le)+
  then show ?thesis
    by (simp add: buildDescriptor_short)
qed

end
