(* ===== verification/Fmp4_Mux.thy ===== *)
theory Fmp4_Mux
  imports Fmp4_Init
begin

text \<open>
  The state machine of \<^verbatim>\<open>Muxer\<close> in \<^verbatim>\<open>av/format/fmp4/muxer.go\<close>.  The tracks are held by value in the
  order of \<^verbatim>\<open>m.tracks\<close> and \<^verbatim>\<open>m.trackMap\<close> maps a stream index to a position in that list, which keeps the
  sharing of the track pointers.  \<^verbatim>\<open>json.Marshal\<close> of the analytics is the argument \<open>js\<close>.  Operations
  return the error, if any, and the new state, which on an error is the state the code leaves behind.
\<close>

datatype fmp4_error =
    ErrHeaderAlreadyWritten | ErrTrailerAlreadyWritten | ErrUnsupportedCodec | ErrHeaderNotWritten
  | ErrWriter

subsection \<open>The underlying writer\<close>

text \<open>
  An \<^verbatim>\<open>io.Writer\<close>: the bytes accepted so far and a script of what the next writes do, where
  \<open>Some k\<close> is a write that fails after \<open>k\<close> bytes and an empty script means that all writes succeed.
  \<open>w_closer\<close> tells whether it implements \<^verbatim>\<open>io.Closer\<close> and whether that \<^verbatim>\<open>Close\<close> succeeds.
\<close>

record writer =
  w_out :: bytes
  w_script :: "nat option list"
  w_closer :: "bool option"
  w_closes :: nat

definition Write :: "writer \<Rightarrow> bytes \<Rightarrow> bool \<times> writer" where
  "Write w b =
    (case w_script w of
       [] \<Rightarrow> (True, w\<lparr>w_out := w_out w @ b\<rparr>)
     | None # rest \<Rightarrow> (True, w\<lparr>w_out := w_out w @ b, w_script := rest\<rparr>)
     | Some k # rest \<Rightarrow> (False, w\<lparr>w_out := w_out w @ take k b, w_script := rest\<rparr>))"

definition CloseWriter :: "writer \<Rightarrow> bool \<times> writer" where
  "CloseWriter w =
    (case w_closer w of
       None \<Rightarrow> (True, w)
     | Some ok \<Rightarrow> (ok, w\<lparr>w_closes := w_closes w + 1\<rparr>))"

subsection \<open>Muxer state\<close>

record FragmentGap =
  fg_FragmentSeq :: int
  fg_DTSGap :: duration

definition maxFragmentGaps :: nat where
  "maxFragmentGaps = 100"

record Muxer =
  m_w :: writer
  m_tracks :: "trackState list"
  m_trackMap :: "u16 \<rightharpoonup> nat"
  m_seqNum :: u32
  m_emsgID :: u32
  m_written :: bool
  m_closed :: bool
  m_writerClosed :: bool
  m_dtsOffset :: duration
  m_dtsOffsetSet :: bool
  m_waitingForKeyframe :: bool
  m_fragIndex :: "FragmentIndex list"
  m_bytesWritten :: int
  m_mediaStartPos :: int
  m_firstFragmentFlushed :: bool
  m_lastVideoDTS :: duration
  m_lastVideoDTSSet :: bool
  m_FragmentGaps :: "FragmentGap list"

definition NewMuxer :: "writer \<Rightarrow> Muxer" where
  "NewMuxer w = \<lparr>m_w = w, m_tracks = [], m_trackMap = Map.empty, m_seqNum = 0, m_emsgID = 0,
     m_written = False, m_closed = False, m_writerClosed = False, m_dtsOffset = 0,
     m_dtsOffsetSet = False, m_waitingForKeyframe = False, m_fragIndex = [], m_bytesWritten = 0,
     m_mediaStartPos = 0, m_firstFragmentFlushed = False, m_lastVideoDTS = 0,
     m_lastVideoDTSSet = False, m_FragmentGaps = []\<rparr>"

definition newTrackState :: "stream \<Rightarrow> u32 \<Rightarrow> trackState option" where
  "newTrackState s tid =
    (let mk = (\<lambda>ts isVideo. Some \<lparr>ts_streamIdx = s_Idx s, ts_id = tid, ts_codec = s_Codec s,
                ts_timescale = ts, ts_samples = [], ts_baseTime = 0, ts_nextTime = 0, ts_hasVideo = isVideo\<rparr>)
     in case s_Codec s of
          H264Codec c \<Rightarrow> mk TimeScale True
        | H265Codec c \<Rightarrow> mk TimeScale True
        | AACCodec c \<Rightarrow> mk (word_of_int (aac_SampleRate (aac_Config c))) False
        | FLACCodec c \<Rightarrow> mk (word_of_int (flac_SampleRate c)) False
        | OtherCodec c \<Rightarrow> None)"

definition makeSample :: "(frame_analytics \<Rightarrow> bytes option) \<Rightarrow> packet \<Rightarrow> trackState \<Rightarrow> sample" where
  "makeSample js pkt ts =
    \<lparr>sm_duration = word_of_int (durationToTimescale (Duration pkt) (ts_timescale ts)),
      sm_size = of_nat (length (Data pkt)),
      sm_flags = (if ts_hasVideo ts
                  then if KeyFrame pkt then sampleFlagsKeyframe else sampleFlagsNonKeyframe
                  else 0),
      sm_ptsOffset = (if PTSOffset pkt \<noteq> 0
                      then wrap32 (durationToTimescale (PTSOffset pkt) (ts_timescale ts)) else 0),
      sm_data = Data pkt,
      sm_extra = (case Analytics pkt of
                    None \<Rightarrow> []
                  | Some a \<Rightarrow> (case js a of None \<Rightarrow> [] | Some b \<Rightarrow> b)),
      sm_presentationTimeMS = go_quot (wrap64 (DTS pkt + PTSOffset pkt)) millisecond,
      sm_dts = dtsToTimescale (DTS pkt) (ts_timescale ts)\<rparr>"

definition hasAnySamples :: "Muxer \<Rightarrow> bool" where
  "hasAnySamples m \<longleftrightarrow> list_ex (\<lambda>ts. length (ts_samples ts) > 0) (m_tracks m)"

definition hasVideoTracks :: "Muxer \<Rightarrow> bool" where
  "hasVideoTracks m \<longleftrightarrow> list_ex ts_hasVideo (m_tracks m)"

subsection \<open>Flushing a fragment\<close>

text \<open>A successful write advances \<^verbatim>\<open>m.bytesWritten\<close>; a failed one does not.\<close>

definition emit :: "Muxer \<Rightarrow> bytes \<Rightarrow> bool \<times> Muxer" where
  "emit m b =
    (case Write (m_w m) b of
       (True, w) \<Rightarrow> (True, m\<lparr>m_w := w, m_bytesWritten := wrap64 (m_bytesWritten m + int (length b))\<rparr>)
     | (False, w) \<Rightarrow> (False, m\<lparr>m_w := w\<rparr>))"

text \<open>Consecutive writes; the first failure returns.\<close>

fun emitAll :: "Muxer \<Rightarrow> bytes list \<Rightarrow> bool \<times> Muxer" where
  "emitAll m [] = (True, m)"
| "emitAll m (b # bs) =
    (case emit m b of
       (False, m') \<Rightarrow> (False, m')
     | (True, m') \<Rightarrow> emitAll m' bs)"

definition patchLast :: "trackState \<Rightarrow> trackState" where
  "patchLast ts =
    (let ss = ts_samples ts; n = length ss in
     if n \<ge> 1 \<and> sm_duration (ss ! (n - 1)) = 0 \<and> n \<ge> 2
     then ts\<lparr>ts_samples := ss[n - 1 := (ss ! (n - 1))\<lparr>sm_duration := sm_duration (ss ! (n - 2))\<rparr>]\<rparr>
     else ts)"

definition advanceTrack :: "trackState \<Rightarrow> trackState" where
  "advanceTrack ts =
    (if length (ts_samples ts) > 0
     then ts\<lparr>ts_nextTime := foldl (\<lambda>t s. wrap64 (t + uint (sm_duration s))) (ts_nextTime ts) (ts_samples ts),
             ts_samples := []\<rparr>
     else ts)"

definition fragmentIndexEntry :: "int \<Rightarrow> int \<Rightarrow> trackState \<Rightarrow> FragmentIndex" where
  "fragmentIndexEntry fragOffset fragSize ts =
    (let totalDur = foldl (\<lambda>t s. wrap64 (t + uint (sm_duration s))) 0 (ts_samples ts)
     in \<lparr>fi_PTS = ticksToDuration (ts_baseTime ts) (ts_timescale ts),
          fi_Duration = ticksToDuration totalDur (ts_timescale ts),
          fi_Offset = fragOffset, fi_Size = fragSize,
          fi_StartsWithSAP = (ts_hasVideo ts \<and> length (ts_samples ts) > 0
            \<and> sm_flags (ts_samples ts ! 0) = sampleFlagsKeyframe)\<rparr>)"

definition flushFragment :: "Muxer \<Rightarrow> fmp4_error option \<times> Muxer" where
  "flushFragment m =
    (let tracks = map patchLast (m_tracks m);
         active = filter (\<lambda>ts. length (ts_samples ts) > 0) tracks;
         m1 = m\<lparr>m_seqNum := m_seqNum m + 1, m_tracks := tracks\<rparr>
     in if length active = 0 then (None, m1)
        else let (emsgs, nextID) = collectEmsg active (m_emsgID m1);
                 m2 = m1\<lparr>m_emsgID := nextID\<rparr>;
                 moof = buildMoof active (m_seqNum m2) (dataOffsets active);
                 mdat = buildMdat active;
                 fragOffset = wrap64 (m_bytesWritten m2 + int (length emsgs));
                 fragSize = int (length moof + length mdat);
                 entry = fragmentIndexEntry fragOffset fragSize (active ! 0)
             in case emitAll m2 ((if length emsgs > 0 then [emsgs] else []) @ [moof, mdat]) of
                  (False, m3) \<Rightarrow> (Some ErrWriter, m3)
                | (True, m3) \<Rightarrow>
                    (None, m3\<lparr>m_fragIndex := m_fragIndex m3 @ [entry],
                              m_tracks := map advanceTrack (m_tracks m3)\<rparr>))"

subsection \<open>Operations\<close>

fun addTracks :: "Muxer \<Rightarrow> u32 \<Rightarrow> stream list \<Rightarrow> Muxer" where
  "addTracks m nextTrackID [] = m"
| "addTracks m nextTrackID (s # rest) =
    (case newTrackState s nextTrackID of
       None \<Rightarrow> addTracks m nextTrackID rest
     | Some ts \<Rightarrow>
         addTracks (m\<lparr>m_tracks := m_tracks m @ [ts],
                      m_trackMap := (m_trackMap m)(s_Idx s \<mapsto> length (m_tracks m))\<rparr>)
           (nextTrackID + 1) rest)"

definition WriteHeader :: "Muxer \<Rightarrow> stream list \<Rightarrow> (fmp4_error option \<times> Muxer) option" where
  "WriteHeader m streams =
    (if m_written m then Some (Some ErrHeaderAlreadyWritten, m)
     else let m1 = addTracks m 1 streams in
       if length (m_tracks m1) = 0 then Some (Some ErrUnsupportedCodec, m1)
       else Option.bind (buildInitSegment (m_tracks m1)) (\<lambda>init.
         case emit m1 init of
           (False, m2) \<Rightarrow> Some (Some ErrWriter, m2)
         | (True, m2) \<Rightarrow>
             Some (None, m2\<lparr>m_mediaStartPos := m_bytesWritten m2, m_written := True,
                           m_waitingForKeyframe := hasVideoTracks m2\<rparr>)))"

text \<open>The gap measurement of \<^verbatim>\<open>WritePacket\<close> at a fragment boundary, on the normalised \<open>dts\<close>.\<close>

definition recordGap :: "Muxer \<Rightarrow> duration \<Rightarrow> Muxer" where
  "recordGap m dts =
    (if m_lastVideoDTSSet m
     then let gap = wrap64 (dts - m_lastVideoDTS m) in
       if (gap < 0 \<or> gap > 500 * millisecond) \<and> length (m_FragmentGaps m) < maxFragmentGaps
       then m\<lparr>m_FragmentGaps := m_FragmentGaps m @ [\<lparr>fg_FragmentSeq = uint (m_seqNum m), fg_DTSGap = gap\<rparr>]\<rparr>
       else m
     else m)"

text \<open>Setting the base time or back-filling the previous duration, then appending the sample.\<close>

definition appendSample :: "(frame_analytics \<Rightarrow> bytes option) \<Rightarrow> packet \<Rightarrow> trackState \<Rightarrow> trackState" where
  "appendSample js pkt ts =
    (let newDTS = dtsToTimescale (DTS pkt) (ts_timescale ts);
         ss = ts_samples ts; n = length ss;
         ts1 = (if n = 0 then ts\<lparr>ts_baseTime := newDTS\<rparr>
                else let prev = ss ! (n - 1) in
                  if sm_duration prev = 0 \<and> newDTS > sm_dts prev
                  then ts\<lparr>ts_samples := ss[n - 1 := prev\<lparr>sm_duration := word_of_int (wrap64 (newDTS - sm_dts prev))\<rparr>]\<rparr>
                  else ts)
     in ts1\<lparr>ts_samples := ts_samples ts1 @ [makeSample js pkt ts1]\<rparr>)"

text \<open>The part of \<^verbatim>\<open>WritePacket\<close> after the flush at a keyframe, for the track at position \<open>k\<close>.\<close>

definition bufferPacket :: "(frame_analytics \<Rightarrow> bytes option) \<Rightarrow> Muxer \<Rightarrow> nat \<Rightarrow> packet \<Rightarrow> fmp4_error option \<times> Muxer" where
  "bufferPacket js m k pkt =
    (let ts = m_tracks m ! k;
         m1 = m\<lparr>m_tracks := (m_tracks m)[k := appendSample js pkt ts]\<rparr>;
         m2 = (if ts_hasVideo ts
               then m1\<lparr>m_lastVideoDTS := wrap64 (DTS pkt + m_dtsOffset m1), m_lastVideoDTSSet := True\<rparr> else m1)
     in if \<not> hasVideoTracks m2 then flushFragment m2
        else if \<not> m_firstFragmentFlushed m2 \<and> ts_hasVideo ts \<and> \<not> KeyFrame pkt \<and> hasAnySamples m2
        then flushFragment (m2\<lparr>m_firstFragmentFlushed := True\<rparr>)
        else (None, m2))"

text \<open>The part of \<^verbatim>\<open>WritePacket\<close> after the keyframe gate.\<close>

definition acceptPacket :: "(frame_analytics \<Rightarrow> bytes option) \<Rightarrow> Muxer \<Rightarrow> nat \<Rightarrow> packet \<Rightarrow> fmp4_error option \<times> Muxer" where
  "acceptPacket js m k pkt0 =
    (let m1 = (if \<not> m_dtsOffsetSet m then m\<lparr>m_dtsOffset := DTS pkt0, m_dtsOffsetSet := True\<rparr> else m);
         pkt = pkt0\<lparr>DTS := wrap64 (DTS pkt0 - m_dtsOffset m1)\<rparr>;
         ts = m_tracks m1 ! k
     in if ts_hasVideo ts \<and> KeyFrame pkt \<and> hasAnySamples m1
        then (case flushFragment m1 of
                (Some e, m2) \<Rightarrow> (Some e, m2)
              | (None, m2) \<Rightarrow>
                  bufferPacket js (recordGap (m2\<lparr>m_firstFragmentFlushed := True\<rparr>) (DTS pkt)) k pkt)
        else bufferPacket js m1 k pkt)"

definition WritePacket :: "(frame_analytics \<Rightarrow> bytes option) \<Rightarrow> Muxer \<Rightarrow> packet \<Rightarrow> fmp4_error option \<times> Muxer" where
  "WritePacket js m pkt =
    (if \<not> m_written m then (Some ErrHeaderNotWritten, m)
     else if m_closed m then (Some ErrTrailerAlreadyWritten, m)
     else case m_trackMap m (Idx pkt) of
            None \<Rightarrow> (None, m)
          | Some k \<Rightarrow>
              if m_waitingForKeyframe m
              then if \<not> ts_hasVideo (m_tracks m ! k) \<or> \<not> KeyFrame pkt then (None, m)
                   else acceptPacket js (m\<lparr>m_waitingForKeyframe := False\<rparr>) k pkt
              else acceptPacket js m k pkt)"

definition Flush :: "Muxer \<Rightarrow> fmp4_error option \<times> Muxer" where
  "Flush m =
    (if m_closed m \<or> \<not> m_written m then (None, m)
     else if hasAnySamples m then flushFragment m else (None, m))"

definition WriteTrailer :: "Muxer \<Rightarrow> fmp4_error option \<times> Muxer" where
  "WriteTrailer m =
    (if m_closed m then (Some ErrTrailerAlreadyWritten, m)
     else let m1 = m\<lparr>m_closed := True\<rparr> in
       if hasAnySamples m1 then flushFragment m1 else (None, m1))"

definition Close :: "Muxer \<Rightarrow> fmp4_error option \<times> Muxer" where
  "Close m =
    (let m1 = (if \<not> m_closed m then snd (WriteTrailer m) else m) in
     if m_writerClosed m1 then (None, m1)
     else let m2 = m1\<lparr>m_writerClosed := True\<rparr> in
       (case CloseWriter (m_w m2) of
          (ok, w) \<Rightarrow> (if ok then None else Some ErrWriter, m2\<lparr>m_w := w\<rparr>)))"

text \<open>The update loop of \<^verbatim>\<open>WriteCodecChange\<close>; the first track of the stream index is replaced.\<close>

fun firstTrack :: "u16 \<Rightarrow> trackState list \<Rightarrow> nat option" where
  "firstTrack idx [] = None"
| "firstTrack idx (t # rest) = (if ts_streamIdx t = idx then Some 0 else map_option Suc (firstTrack idx rest))"

fun updateCodecs :: "Muxer \<Rightarrow> stream list \<Rightarrow> fmp4_error option \<times> Muxer" where
  "updateCodecs m [] = (None, m)"
| "updateCodecs m (s # rest) =
    (case m_trackMap m (s_Idx s) of
       None \<Rightarrow> updateCodecs m rest
     | Some k \<Rightarrow>
         let old = m_tracks m ! k in
         (case newTrackState s (ts_id old) of
            None \<Rightarrow> (Some ErrUnsupportedCodec, m)
          | Some fresh0 \<Rightarrow>
              let fresh = fresh0\<lparr>ts_nextTime := ts_nextTime old\<rparr> in
              (case firstTrack (s_Idx s) (m_tracks m) of
                 None \<Rightarrow> updateCodecs m rest
               | Some i \<Rightarrow>
                   updateCodecs (m\<lparr>m_tracks := (m_tracks m)[i := fresh],
                                  m_trackMap := (m_trackMap m)(s_Idx s \<mapsto> i)\<rparr>) rest)))"

definition WriteCodecChange :: "Muxer \<Rightarrow> stream list \<Rightarrow> (fmp4_error option \<times> Muxer) option" where
  "WriteCodecChange m changed =
    (if \<not> m_written m \<or> m_closed m then Some (None, m)
     else case (if hasAnySamples m then flushFragment m else (None, m)) of
            (Some e, m1) \<Rightarrow> Some (Some e, m1)
          | (None, m1) \<Rightarrow>
              (case updateCodecs m1 changed of
                 (Some e, m2) \<Rightarrow> Some (Some e, m2)
               | (None, m2) \<Rightarrow>
                   Option.bind (buildInitSegment (m_tracks m2)) (\<lambda>init.
                     (case Write (m_w m2) init of
                        (ok, w) \<Rightarrow> Some (if ok then None else Some ErrWriter, m2\<lparr>m_w := w\<rparr>)))))"

definition VideoTrackInfo :: "Muxer \<Rightarrow> (u32 \<times> u32) option" where
  "VideoTrackInfo m = map_option (\<lambda>ts. (ts_id ts, ts_timescale ts)) (find ts_hasVideo (m_tracks m))"

end
