(* ===== verification/Fmp4_Mux_Inv.thy ===== *)
theory Fmp4_Mux_Inv
  imports Fmp4_Mux
begin

text \<open>
  Invariants of the muxer: what a flush writes and keeps, exact byte accounting, the shape of the
  buffered samples, and conservation of the media data.
\<close>

subsection \<open>What a flush does\<close>

definition pending :: "Muxer \<Rightarrow> trackState list" where
  "pending m = filter (\<lambda>ts. length (ts_samples ts) > 0) (map patchLast (m_tracks m))"

definition fragEmsgs :: "Muxer \<Rightarrow> bytes" where
  "fragEmsgs m = fst (collectEmsg (pending m) (m_emsgID m))"

definition fragMedia :: "Muxer \<Rightarrow> bytes" where
  "fragMedia m = buildMoof (pending m) (m_seqNum m + 1) (dataOffsets (pending m)) @ buildMdat (pending m)"

lemma emit_True:
  "emit m b = (True, m') \<Longrightarrow> \<exists>scr. m' = m\<lparr>m_w := (m_w m)\<lparr>w_out := w_out (m_w m) @ b, w_script := scr\<rparr>,
     m_bytesWritten := wrap64 (m_bytesWritten m + int (length b))\<rparr>"
  unfolding emit_def Write_def
  by (auto split: list.splits option.splits intro: exI [of _ "w_script (m_w m)"])

lemma length_patchLast [simp]: "length (ts_samples (patchLast ts)) = length (ts_samples ts)"
  by (simp add: patchLast_def Let_def)

lemma patchLast_samples_empty [simp]: "ts_samples (patchLast ts) = [] \<longleftrightarrow> ts_samples ts = []"
  by (metis length_0_conv length_patchLast)

lemma pending_empty: "pending m = [] \<longleftrightarrow> \<not> hasAnySamples m"
  by (auto simp: pending_def hasAnySamples_def filter_empty_conv list_ex_iff)

lemma wrap64_wrap64_add: "wrap64 (wrap64 a + b) = wrap64 (a + b)"
proof -
  have "word_of_int (wrap64 a) = (word_of_int a :: u64)"
    by (simp flip: sint_of_int64)
  then have "(word_of_int (wrap64 a + b) :: u64) = word_of_int (a + b)"
    by simp
  then show ?thesis
    by (metis sint_of_int64)
qed

lemma emitAll_True:
  "emitAll m bs = (True, m') \<Longrightarrow> bs \<noteq> [] \<Longrightarrow>
   \<exists>scr. m' = m\<lparr>m_w := (m_w m)\<lparr>w_out := w_out (m_w m) @ concat bs, w_script := scr\<rparr>,
     m_bytesWritten := wrap64 (m_bytesWritten m + int (length (concat bs)))\<rparr>"
proof (induction bs arbitrary: m)
  case (Cons b bs)
  then obtain m1 where m1: "emit m b = (True, m1)" and rest: "emitAll m1 bs = (True, m')"
    by (auto split: prod.splits bool.splits)
  obtain scr where e: "m1 = m\<lparr>m_w := (m_w m)\<lparr>w_out := w_out (m_w m) @ b, w_script := scr\<rparr>,
     m_bytesWritten := wrap64 (m_bytesWritten m + int (length b))\<rparr>"
    using emit_True [OF m1] by blast
  show ?case
  proof (cases "bs = []")
    case True
    then show ?thesis using rest e by auto
  next
    case False
    from Cons.IH [OF rest False] show ?thesis
      unfolding e by (auto simp: wrap64_wrap64_add add.assoc)
  qed
qed simp

lemma flushFragment_success:
  assumes fl: "flushFragment m = (None, m')" and ne: "hasAnySamples m"
  shows "\<exists>scr. m' = m\<lparr>
     m_w := (m_w m)\<lparr>w_out := w_out (m_w m) @ fragEmsgs m @ fragMedia m, w_script := scr\<rparr>,
     m_tracks := map advanceTrack (map patchLast (m_tracks m)),
     m_seqNum := m_seqNum m + 1,
     m_emsgID := snd (collectEmsg (pending m) (m_emsgID m)),
     m_fragIndex := m_fragIndex m @ [fragmentIndexEntry
        (wrap64 (m_bytesWritten m + int (length (fragEmsgs m)))) (int (length (fragMedia m))) (hd (pending m))],
     m_bytesWritten := wrap64 (m_bytesWritten m + int (length (fragEmsgs m @ fragMedia m)))\<rparr>"
proof -
  let ?m2 = "m\<lparr>m_seqNum := m_seqNum m + 1, m_tracks := map patchLast (m_tracks m),
       m_emsgID := snd (collectEmsg (pending m) (m_emsgID m))\<rparr>"
  let ?bs = "(if length (fragEmsgs m) > 0 then [fragEmsgs m] else [])
      @ [buildMoof (pending m) (m_seqNum m + 1) (dataOffsets (pending m)), buildMdat (pending m)]"
  have p: "pending m \<noteq> []"
    using ne by (simp add: pending_empty)
  obtain m3 where m3: "emitAll ?m2 ?bs = (True, m3)"
    and m': "m' = m3\<lparr>m_fragIndex := m_fragIndex m3 @ [fragmentIndexEntry
        (wrap64 (m_bytesWritten m + int (length (fragEmsgs m)))) (int (length (fragMedia m))) (hd (pending m))],
        m_tracks := map advanceTrack (m_tracks m3)\<rparr>"
  proof (cases "emitAll ?m2 ?bs")
    case (Pair ok m3)
    then show ?thesis
      using fl p that unfolding flushFragment_def Let_def pending_def [symmetric] fragEmsgs_def fragMedia_def
      by (cases ok) (simp_all add: hd_conv_nth case_prod_beta)
  qed
  have bs: "concat ?bs = fragEmsgs m @ fragMedia m"
    by (simp add: fragMedia_def)
  obtain scr where m3': "m3 = ?m2\<lparr>m_w := (m_w ?m2)\<lparr>w_out := w_out (m_w ?m2) @ fragEmsgs m @ fragMedia m, w_script := scr\<rparr>,
     m_bytesWritten := wrap64 (m_bytesWritten ?m2 + int (length (fragEmsgs m @ fragMedia m)))\<rparr>"
    using emitAll_True [OF m3] unfolding bs by auto
  show ?thesis
    unfolding m' m3' by (intro exI [of _ scr] Muxer.equality) simp_all
qed

subsection \<open>The ledger of emitted fragments\<close>

text \<open>
  A fragment as the muxer emitted it: its event messages, its sequence number and the tracks at the
  moment of the flush.  The ledger invariant ties the bytes written, the byte counter, the fragment
  index and the buffered samples to the list of fragments and to the samples accepted so far.
\<close>

record fragment =
  fr_emsgID :: u32
  fr_seq :: u32
  fr_tracks :: "trackState list"

definition fragActive :: "fragment \<Rightarrow> trackState list" where
  "fragActive f = filter (\<lambda>ts. length (ts_samples ts) > 0) (fr_tracks f)"

definition fr_emsgs :: "fragment \<Rightarrow> bytes" where
  "fr_emsgs f = fst (collectEmsg (fragActive f) (fr_emsgID f))"

definition fragMoofMdat :: "fragment \<Rightarrow> bytes" where
  "fragMoofMdat f = buildMoof (fragActive f) (fr_seq f) (dataOffsets (fragActive f)) @ buildMdat (fragActive f)"

definition fragBytes :: "fragment \<Rightarrow> bytes" where
  "fragBytes f = fr_emsgs f @ fragMoofMdat f"

text \<open>A sample up to its duration, which the muxer back-fills later.\<close>

definition sampleKey :: "sample \<Rightarrow> sample" where
  "sampleKey s = s\<lparr>sm_duration := 0\<rparr>"

definition trackKeys :: "nat \<Rightarrow> trackState list \<Rightarrow> sample list" where
  "trackKeys k tracks = map sampleKey (ts_samples (tracks ! k))"

definition accepted :: "nat \<Rightarrow> (nat \<times> sample) list \<Rightarrow> sample list" where
  "accepted k acc = map snd (filter (\<lambda>(j, s). j = k) acc)"

definition trackInfo :: "trackState \<Rightarrow> trackState" where
  "trackInfo ts = ts\<lparr>ts_samples := [], ts_baseTime := 0, ts_nextTime := 0\<rparr>"

fun indexed :: "nat \<Rightarrow> fragment list \<Rightarrow> FragmentIndex list \<Rightarrow> bool" where
  "indexed n [] es \<longleftrightarrow> es = []"
| "indexed n (f # fs) [] \<longleftrightarrow> False"
| "indexed n (f # fs) (e # es) \<longleftrightarrow>
    fi_Offset e = wrap64 (int (n + length (fr_emsgs f))) \<and> fi_Size e = int (length (fragMoofMdat f)) \<and>
    indexed (n + length (fragBytes f)) fs es"

text \<open>A base time is a 64-bit number of nanoseconds scaled down to ticks.\<close>

definition timed :: "trackState \<Rightarrow> bool" where
  "timed ts \<longleftrightarrow> \<bar>ts_baseTime ts\<bar> \<le> 2 ^ 34"

definition ledger :: "bytes \<Rightarrow> trackState list \<Rightarrow> fragment list \<Rightarrow> (nat \<times> sample) list \<Rightarrow> Muxer \<Rightarrow> bool" where
  "ledger init info frags acc m \<longleftrightarrow>
    w_out (m_w m) = init @ concat (map fragBytes frags) \<and>
    m_bytesWritten m = wrap64 (int (length (w_out (m_w m)))) \<and>
    indexed (length init) frags (m_fragIndex m) \<and>
    map trackInfo (m_tracks m) = info \<and>
    (\<forall>f \<in> set frags. map trackInfo (fr_tracks f) = info) \<and>
    (\<forall>ts \<in> set (m_tracks m). timed ts) \<and> (\<forall>f \<in> set frags. \<forall>ts \<in> set (fr_tracks f). timed ts) \<and>
    (\<forall>f \<in> set frags. fragActive f \<noteq> []) \<and>
    (\<forall>k < length info. concat (map (\<lambda>f. trackKeys k (fr_tracks f)) frags) @ trackKeys k (m_tracks m) = accepted k acc)"

lemma indexed_snoc:
  assumes "indexed n fs es"
    and "fi_Offset e = wrap64 (int (n + length (concat (map fragBytes fs)) + length (fr_emsgs f)))"
    and "fi_Size e = int (length (fragMoofMdat f))"
  shows "indexed n (fs @ [f]) (es @ [e])"
  using assms by (induction n fs es rule: indexed.induct) (simp_all add: add.assoc)

lemma patchLast_keys [simp]: "map sampleKey (ts_samples (patchLast ts)) = map sampleKey (ts_samples ts)"
  by (auto simp: patchLast_def Let_def map_update sampleKey_def list_update_same_conv)

lemma trackInfo_flush [simp]: "trackInfo (patchLast ts) = trackInfo ts" "trackInfo (advanceTrack ts) = trackInfo ts"
  by (simp_all add: trackInfo_def patchLast_def advanceTrack_def Let_def)

lemma timed_flush [simp]: "timed (patchLast ts) = timed ts" "timed (advanceTrack ts) = timed ts"
  by (simp_all add: timed_def patchLast_def advanceTrack_def Let_def)

lemma ts_samples_advanceTrack [simp]: "ts_samples (advanceTrack ts) = []"
  by (simp add: advanceTrack_def)

definition fragOf :: "Muxer \<Rightarrow> fragment" where
  "fragOf m = \<lparr>fr_emsgID = m_emsgID m, fr_seq = m_seqNum m + 1, fr_tracks = map patchLast (m_tracks m)\<rparr>"

lemma fragOf_bytes: "fragMoofMdat (fragOf m) = fragMedia m" "fr_emsgs (fragOf m) = fragEmsgs m"
  "fragBytes (fragOf m) = fragEmsgs m @ fragMedia m" "fr_tracks (fragOf m) = map patchLast (m_tracks m)"
  by (simp_all add: fragOf_def fragMoofMdat_def fragMedia_def fragActive_def pending_def fragBytes_def fr_emsgs_def fragEmsgs_def)

lemma trackKeys_flush:
  "k < length tracks \<Longrightarrow> trackKeys k (map patchLast tracks) = trackKeys k tracks"
  "k < length tracks \<Longrightarrow> trackKeys k (map (advanceTrack \<circ> patchLast) tracks) = []"
  by (simp_all add: trackKeys_def)

lemma flushFragment_ledger:
  assumes led: "ledger init info frags acc m" and fl: "flushFragment m = (None, m')" and ne: "hasAnySamples m"
  shows "ledger init info (frags @ [fragOf m]) acc m'"
proof -
  obtain scr where m': "m' = m\<lparr>
     m_w := (m_w m)\<lparr>w_out := w_out (m_w m) @ fragEmsgs m @ fragMedia m, w_script := scr\<rparr>,
     m_tracks := map advanceTrack (map patchLast (m_tracks m)),
     m_seqNum := m_seqNum m + 1,
     m_emsgID := snd (collectEmsg (pending m) (m_emsgID m)),
     m_fragIndex := m_fragIndex m @ [fragmentIndexEntry
        (wrap64 (m_bytesWritten m + int (length (fragEmsgs m)))) (int (length (fragMedia m))) (hd (pending m))],
     m_bytesWritten := wrap64 (m_bytesWritten m + int (length (fragEmsgs m @ fragMedia m)))\<rparr>"
    using flushFragment_success [OF fl ne] by blast
  have len: "length info = length (m_tracks m)"
    using led by (auto simp: ledger_def)
  have ix: "indexed (length init) (frags @ [fragOf m]) (m_fragIndex m')"
    unfolding m' using led
    by (auto simp: ledger_def fragOf_bytes fragmentIndexEntry_def Let_def wrap64_wrap64_add add.assoc
        intro!: indexed_snoc)
  have "fragActive (fragOf m) \<noteq> []"
    using ne pending_empty [of m] by (simp add: fragActive_def fragOf_def pending_def)
  then show ?thesis
    using led ix unfolding ledger_def m'
    by (simp add: fragOf_bytes wrap64_wrap64_add len trackKeys_flush add.assoc comp_def [of trackInfo])
qed

subsection \<open>Packets and the ledger\<close>

text \<open>The part of the state that decides which packets are accepted and with which time origin.\<close>

definition ctl :: "Muxer \<Rightarrow> (u16 \<rightharpoonup> nat) \<times> bool \<times> bool \<times> bool \<times> duration \<times> bool" where
  "ctl m = (m_trackMap m, m_written m, m_closed m, m_waitingForKeyframe m, m_dtsOffset m, m_dtsOffsetSet m)"

definition packetKey :: "(frame_analytics \<Rightarrow> bytes option) \<Rightarrow> trackState \<Rightarrow> packet \<Rightarrow> sample" where
  "packetKey js ts pkt = sampleKey (makeSample js pkt ts)"

lemma trackInfo_samples [simp]: "ts_samples (trackInfo ts) = []"
  by (simp add: trackInfo_def)

lemma packetKey_trackInfo [simp]: "packetKey js (trackInfo ts) pkt = packetKey js ts pkt"
  by (simp add: packetKey_def makeSample_def trackInfo_def)

lemma appendSample_keys:
  "map sampleKey (ts_samples (appendSample js pkt ts)) = map sampleKey (ts_samples ts) @ [packetKey js ts pkt]"
proof -
  have upd: "map sampleKey (ss[i := (ss ! i)\<lparr>sm_duration := d\<rparr>]) = map sampleKey ss" if "i < length ss" for ss i d
    using that by (simp add: map_update sampleKey_def list_update_same_conv)
  have mk: "sampleKey (makeSample js pkt (ts\<lparr>ts_samples := x\<rparr>)) = packetKey js ts pkt"
    "sampleKey (makeSample js pkt (ts\<lparr>ts_baseTime := t\<rparr>)) = packetKey js ts pkt" for x t
    by (simp_all add: packetKey_def makeSample_def)
  show ?thesis
    by (cases "ts_samples ts = []") (simp_all add: appendSample_def Let_def upd mk packetKey_def)
qed

lemma appendSample_info [simp]: "trackInfo (appendSample js pkt ts) = trackInfo ts"
  by (simp add: appendSample_def Let_def trackInfo_def)

lemma appendSample_hasVideo [simp]: "ts_hasVideo (appendSample js pkt ts) = ts_hasVideo ts"
  by (simp add: appendSample_def Let_def)

lemma abs_go_quot: "0 < b \<Longrightarrow> \<bar>go_quot a b\<bar> = \<bar>a\<bar> div b"
  by (cases "a = 0") (auto simp: go_quot_def abs_mult pos_imp_zdiv_nonneg_iff)

lemma dtsToTimescale_bound: "\<bar>dtsToTimescale d ts\<bar> \<le> 2 ^ 34"
proof -
  have "\<bar>wrap64 (d * uint ts)\<bar> \<le> 2 ^ 63"
    using in64_wrap64 [of "d * uint ts"] by (simp add: in64_def abs_le_iff)
  then have "\<bar>wrap64 (d * uint ts)\<bar> div second \<le> 2 ^ 63 div second"
    by (intro zdiv_mono1) (simp_all add: second_def)
  then show ?thesis
    by (simp add: dtsToTimescale_def abs_go_quot second_def)
qed

lemma timed_appendSample: "timed ts \<Longrightarrow> timed (appendSample js pkt ts)"
  using dtsToTimescale_bound by (simp add: timed_def appendSample_def Let_def)

lemma accepted_snoc: "accepted k (acc @ [(j, s)]) = accepted k acc @ (if j = k then [s] else [])"
  by (simp add: accepted_def)

lemma ledger_append:
  assumes led: "ledger init info frags acc m" and k: "k < length info"
  shows "ledger init info frags (acc @ [(k, packetKey js (info ! k) pkt)])
    (m\<lparr>m_tracks := (m_tracks m)[k := appendSample js pkt (m_tracks m ! k)]\<rparr>)"
proof -
  have info: "info = map trackInfo (m_tracks m)" and k': "k < length (m_tracks m)"
    using led k by (auto simp: ledger_def)
  have "map trackInfo ((m_tracks m)[k := appendSample js pkt (m_tracks m ! k)]) = info"
    using k' by (simp add: info map_update list_update_same_conv)
  moreover have "\<forall>ts \<in> set ((m_tracks m)[k := appendSample js pkt (m_tracks m ! k)]). timed ts"
  proof
    fix ts
    assume "ts \<in> set ((m_tracks m)[k := appendSample js pkt (m_tracks m ! k)])"
    then have "ts \<in> set (m_tracks m) \<or> ts = appendSample js pkt (m_tracks m ! k)"
      using set_update_subset_insert by fast
    then show "timed ts"
      using led k' by (auto simp: ledger_def timed_appendSample)
  qed
  ultimately show ?thesis
    using led k' by (auto simp: ledger_def accepted_snoc trackKeys_def nth_list_update appendSample_keys info
        simp flip: append_assoc)
qed

lemma flushFragment_ctl: "flushFragment m = (None, m') \<Longrightarrow> hasAnySamples m \<Longrightarrow> ctl m' = ctl m"
  using flushFragment_success by (fastforce simp: ctl_def)

lemma hasAnySamples_append:
  "k < length (m_tracks m) \<Longrightarrow> hasAnySamples (m\<lparr>m_tracks := (m_tracks m)[k := appendSample js pkt ts]\<rparr>)"
  by (auto simp: hasAnySamples_def list_ex_iff appendSample_def Let_def set_update_memI intro!: bexI [of _ "appendSample js pkt ts"])

definition sameOutput :: "Muxer \<Rightarrow> Muxer \<Rightarrow> bool" where
  "sameOutput m m' \<longleftrightarrow> m_w m' = m_w m \<and> m_tracks m' = m_tracks m \<and>
     m_bytesWritten m' = m_bytesWritten m \<and> m_fragIndex m' = m_fragIndex m \<and> ctl m' = ctl m"

lemma ledger_sameOutput: "sameOutput m m' \<Longrightarrow> ledger init info frags acc m' = ledger init info frags acc m"
  by (simp add: sameOutput_def ledger_def)

lemma bufferPacket_cases:
  assumes "bufferPacket js m k pkt = (None, m')"
  obtains m2 where "sameOutput (m\<lparr>m_tracks := (m_tracks m)[k := appendSample js pkt (m_tracks m ! k)]\<rparr>) m2"
    and "m' = m2 \<or> flushFragment m2 = (None, m')"
proof -
  define m1 where "m1 = m\<lparr>m_tracks := (m_tracks m)[k := appendSample js pkt (m_tracks m ! k)]\<rparr>"
  define m2 where "m2 = (if ts_hasVideo (m_tracks m ! k)
    then m1\<lparr>m_lastVideoDTS := wrap64 (DTS pkt + m_dtsOffset m1), m_lastVideoDTSSet := True\<rparr> else m1)"
  have "sameOutput m1 m2" "sameOutput m1 (m2\<lparr>m_firstFragmentFlushed := True\<rparr>)"
    by (simp_all add: m2_def sameOutput_def ctl_def)
  moreover have "flushFragment m2 = (None, m') \<or> flushFragment (m2\<lparr>m_firstFragmentFlushed := True\<rparr>) = (None, m') \<or> m' = m2"
    using assms unfolding bufferPacket_def Let_def m1_def [symmetric] m2_def [symmetric]
    by (auto split: if_splits)
  ultimately show ?thesis
    using that unfolding m1_def by blast
qed

lemma bufferPacket_ledger:
  assumes led: "ledger init info frags acc m" and k: "k < length info"
    and b: "bufferPacket js m k pkt = (None, m')"
  shows "\<exists>frags'. ledger init info frags' (acc @ [(k, packetKey js (info ! k) pkt)]) m' \<and> ctl m' = ctl m"
  using b
proof (cases rule: bufferPacket_cases)
  case (1 m2)
  let ?m1 = "m\<lparr>m_tracks := (m_tracks m)[k := appendSample js pkt (m_tracks m ! k)]\<rparr>"
  have led2: "ledger init info frags (acc @ [(k, packetKey js (info ! k) pkt)]) m2"
    using ledger_append [OF led k] 1(1) by (simp add: ledger_sameOutput)
  have ctl2: "ctl m2 = ctl m"
    using 1(1) by (simp add: sameOutput_def ctl_def)
  have "hasAnySamples ?m1"
    using led k by (intro hasAnySamples_append) (auto simp: ledger_def)
  then have any: "hasAnySamples m2"
    using 1(1) by (simp add: sameOutput_def hasAnySamples_def)
  from 1(2) show ?thesis
  proof
    assume "m' = m2"
    then show ?thesis using led2 ctl2 by auto
  next
    assume fl: "flushFragment m2 = (None, m')"
    show ?thesis
      using flushFragment_ledger [OF led2 fl any] flushFragment_ctl [OF fl any] ctl2 by auto
  qed
qed

text \<open>
  The samples that a run of \<^verbatim>\<open>WritePacket\<close> accepts, computed from the packets alone: packets of unknown
  streams are skipped, while \<open>w\<close> holds everything up to the first video keyframe is skipped, and the
  first accepted packet fixes the time origin \<open>off\<close>.
\<close>

fun acceptedFrom :: "(frame_analytics \<Rightarrow> bytes option) \<Rightarrow> (u16 \<rightharpoonup> nat) \<Rightarrow> trackState list \<Rightarrow> bool \<Rightarrow>
    duration option \<Rightarrow> packet list \<Rightarrow> (nat \<times> sample) list" where
  "acceptedFrom js tm info w off [] = []"
| "acceptedFrom js tm info w off (p # ps) =
    (case tm (Idx p) of
       None \<Rightarrow> acceptedFrom js tm info w off ps
     | Some k \<Rightarrow>
         if w \<and> \<not> (ts_hasVideo (info ! k) \<and> KeyFrame p) then acceptedFrom js tm info w off ps
         else let origin = (case off of None \<Rightarrow> DTS p | Some o' \<Rightarrow> o') in
           (k, packetKey js (info ! k) (p\<lparr>DTS := wrap64 (DTS p - origin)\<rparr>))
           # acceptedFrom js tm info False (Some origin) ps)"

definition originOf :: "Muxer \<Rightarrow> duration option" where
  "originOf m = (if m_dtsOffsetSet m then Some (m_dtsOffset m) else None)"

lemma recordGap_sameOutput: "sameOutput m (recordGap m d)"
  by (simp add: recordGap_def sameOutput_def Let_def ctl_def)

lemma acceptPacket_ledger:
  assumes led: "ledger init info frags acc m" and k: "k < length info"
    and a: "acceptPacket js m k pkt = (None, m')"
  defines "origin \<equiv> (case originOf m of None \<Rightarrow> DTS pkt | Some o' \<Rightarrow> o')"
  shows "\<exists>frags'. ledger init info frags'
      (acc @ [(k, packetKey js (info ! k) (pkt\<lparr>DTS := wrap64 (DTS pkt - origin)\<rparr>))]) m' \<and>
    originOf m' = Some origin \<and> m_trackMap m' = m_trackMap m \<and> m_written m' = m_written m \<and>
    m_closed m' = m_closed m \<and> m_waitingForKeyframe m' = m_waitingForKeyframe m"
proof -
  define m1 where "m1 = (if \<not> m_dtsOffsetSet m then m\<lparr>m_dtsOffset := DTS pkt, m_dtsOffsetSet := True\<rparr> else m)"
  let ?pkt = "pkt\<lparr>DTS := wrap64 (DTS pkt - origin)\<rparr>"
  have o1: "m_dtsOffset m1 = origin"
    by (simp add: m1_def origin_def originOf_def)
  have c1: "ctl m1 = (m_trackMap m, m_written m, m_closed m, m_waitingForKeyframe m, origin, True)"
    by (auto simp: m1_def ctl_def origin_def originOf_def)
  have led1: "ledger init info frags acc m1"
    using led by (simp add: m1_def ledger_def)
  have fin: ?thesis if "ledger init info fs acc m2" "ctl m2 = ctl m1" "bufferPacket js m2 k ?pkt = (None, m')" for fs m2
    using bufferPacket_ledger [OF that(1) k that(3)] that(2) c1 by (auto simp: ctl_def originOf_def)
  show ?thesis
  proof (cases "ts_hasVideo (m_tracks m1 ! k) \<and> KeyFrame ?pkt \<and> hasAnySamples m1")
    case True
    then obtain m2 where fl: "flushFragment m1 = (None, m2)"
      and b: "bufferPacket js (recordGap (m2\<lparr>m_firstFragmentFlushed := True\<rparr>) (DTS ?pkt)) k ?pkt = (None, m')"
      using a unfolding acceptPacket_def Let_def m1_def [symmetric] o1
      by (auto split: prod.splits option.splits)
    have any: "hasAnySamples m1"
      using True by simp
    have so: "sameOutput m2 (recordGap (m2\<lparr>m_firstFragmentFlushed := True\<rparr>) (DTS ?pkt))"
      using recordGap_sameOutput [of "m2\<lparr>m_firstFragmentFlushed := True\<rparr>"] by (simp add: sameOutput_def ctl_def)
    show ?thesis
    proof (rule fin [OF _ _ b])
      show "ledger init info (frags @ [fragOf m1]) acc (recordGap (m2\<lparr>m_firstFragmentFlushed := True\<rparr>) (DTS ?pkt))"
        unfolding ledger_sameOutput [OF so] by (rule flushFragment_ledger [OF led1 fl any])
      show "ctl (recordGap (m2\<lparr>m_firstFragmentFlushed := True\<rparr>) (DTS ?pkt)) = ctl m1"
        using so flushFragment_ctl [OF fl any] by (simp add: sameOutput_def)
    qed
  next
    case False
    then have "bufferPacket js m1 k ?pkt = (None, m')"
      using a unfolding acceptPacket_def Let_def m1_def [symmetric] o1 by (simp split: if_split_asm)
    then show ?thesis
      using fin [OF led1] by simp
  qed
qed

subsection \<open>Runs\<close>

text \<open>A sequence of \<^verbatim>\<open>WritePacket\<close> calls that stops at the first error.\<close>

fun writePackets :: "(frame_analytics \<Rightarrow> bytes option) \<Rightarrow> Muxer \<Rightarrow> packet list \<Rightarrow> fmp4_error option \<times> Muxer" where
  "writePackets js m [] = (None, m)"
| "writePackets js m (p # ps) =
    (case WritePacket js m p of
       (Some e, m') \<Rightarrow> (Some e, m')
     | (None, m') \<Rightarrow> writePackets js m' ps)"

definition open_mux :: "trackState list \<Rightarrow> Muxer \<Rightarrow> bool" where
  "open_mux info m \<longleftrightarrow> m_written m \<and> \<not> m_closed m \<and> (\<forall>i k. m_trackMap m i = Some k \<longrightarrow> k < length info)"

lemma ledger_hasVideo: "ledger init info frags acc m \<Longrightarrow> k < length info \<Longrightarrow> ts_hasVideo (m_tracks m ! k) = ts_hasVideo (info ! k)"
  by (auto simp: ledger_def trackInfo_def)

lemma WritePacket_ledger:
  assumes led: "ledger init info frags acc m" and op: "open_mux info m" and w: "WritePacket js m p = (None, m')"
  obtains frags' new where "ledger init info frags' (acc @ new) m'" "open_mux info m'"
    "m_trackMap m' = m_trackMap m"
    "acceptedFrom js (m_trackMap m) info (m_waitingForKeyframe m) (originOf m) (p # ps) =
     new @ acceptedFrom js (m_trackMap m') info (m_waitingForKeyframe m') (originOf m') ps"
proof (cases "m_trackMap m (Idx p)")
  case None
  then have "m' = m"
    using w op by (simp add: WritePacket_def open_mux_def)
  then show ?thesis
    using that [of frags "[]"] led op None by simp
next
  case (Some k)
  have k: "k < length info"
    using op Some by (auto simp: open_mux_def)
  note hv = ledger_hasVideo [OF led k]
  show ?thesis
  proof (cases "m_waitingForKeyframe m \<and> \<not> (ts_hasVideo (info ! k) \<and> KeyFrame p)")
    case True
    then have "m' = m"
      using w op Some hv by (auto simp: WritePacket_def open_mux_def split: if_splits)
    then show ?thesis
      using that [of frags "[]"] led op Some True by auto
  next
    case False
    define m1 where "m1 = m\<lparr>m_waitingForKeyframe := False\<rparr>"
    have eq: "m1 = (if m_waitingForKeyframe m then m\<lparr>m_waitingForKeyframe := False\<rparr> else m)"
      by (simp add: m1_def)
    have a: "acceptPacket js m1 k p = (None, m')"
      using w op Some hv False unfolding eq by (auto simp: WritePacket_def open_mux_def split: if_splits)
    have led1: "ledger init info frags acc m1"
      using led by (simp add: m1_def ledger_def)
    have o1: "originOf m1 = originOf m"
      by (simp add: m1_def originOf_def)
    define origin where "origin = (case originOf m of None \<Rightarrow> DTS p | Some o' \<Rightarrow> o')"
    obtain frags' where led': "ledger init info frags'
        (acc @ [(k, packetKey js (info ! k) (p\<lparr>DTS := wrap64 (DTS p - origin)\<rparr>))]) m'"
      and o': "originOf m' = Some origin" and tm: "m_trackMap m' = m_trackMap m"
      and op': "m_written m'" "\<not> m_closed m'" "\<not> m_waitingForKeyframe m'"
      using acceptPacket_ledger [OF led1 k a] op unfolding o1 origin_def [symmetric]
      by (auto simp: m1_def open_mux_def)
    show ?thesis
      using op Some False by (intro that [OF led'])
        (auto simp: open_mux_def tm o' op' Let_def simp flip: origin_def)
  qed
qed

lemma writePackets_ledger:
  assumes "ledger init info frags acc m" and "open_mux info m" and "writePackets js m ps = (None, m')"
  shows "\<exists>frags'. ledger init info frags'
      (acc @ acceptedFrom js (m_trackMap m) info (m_waitingForKeyframe m) (originOf m) ps) m' \<and> open_mux info m'"
  using assms
proof (induction ps arbitrary: m frags acc)
  case Nil
  then show ?case by auto
next
  case (Cons p ps)
  then obtain m1 where w: "WritePacket js m p = (None, m1)" and rest: "writePackets js m1 ps = (None, m')"
    by (auto split: prod.splits option.splits)
  from WritePacket_ledger [OF Cons.prems(1,2) w, of ps]
  obtain frags1 new where l: "ledger init info frags1 (acc @ new) m1" and o1: "open_mux info m1"
    and acc: "acceptedFrom js (m_trackMap m) info (m_waitingForKeyframe m) (originOf m) (p # ps) =
     new @ acceptedFrom js (m_trackMap m1) info (m_waitingForKeyframe m1) (originOf m1) ps"
    by metis
  from Cons.IH [OF l o1 rest] show ?case
    unfolding acc by simp
qed

lemma addTracks_wf:
  assumes "\<forall>i k. m_trackMap m i = Some k \<longrightarrow> k < length (m_tracks m)"
    and "map trackInfo (m_tracks m) = m_tracks m"
  shows "(\<forall>i k. m_trackMap (addTracks m n ss) i = Some k \<longrightarrow> k < length (m_tracks (addTracks m n ss))) \<and>
    map trackInfo (m_tracks (addTracks m n ss)) = m_tracks (addTracks m n ss)"
  using assms
proof (induction ss arbitrary: m n)
  case (Cons s ss)
  show ?case
  proof (cases "newTrackState s n")
    case (Some ts)
    have "trackInfo ts = ts"
      using Some by (auto simp: newTrackState_def Let_def trackInfo_def split: codec_data.splits)
    then show ?thesis
      using Cons.prems Some by (auto intro!: Cons.IH simp: less_Suc_eq split: if_splits)
  qed (use Cons in simp)
qed simp

lemma addTracks_frame:
  "m_w (addTracks m n ss) = m_w m" "m_bytesWritten (addTracks m n ss) = m_bytesWritten m"
  "m_fragIndex (addTracks m n ss) = m_fragIndex m" "m_closed (addTracks m n ss) = m_closed m"
  "m_dtsOffsetSet (addTracks m n ss) = m_dtsOffsetSet m"
  by (induction ss arbitrary: m n) (simp_all split: option.splits)

lemma WriteHeader_ledger:
  assumes "WriteHeader (NewMuxer w) streams = Some (None, m)" and "w_out w = []"
  shows "ledger (w_out (m_w m)) (m_tracks m) [] [] m" and "open_mux (m_tracks m) m" and "originOf m = None"
    and "m_waitingForKeyframe m = hasVideoTracks m" and "\<not> hasAnySamples m"
proof -
  let ?m1 = "addTracks (NewMuxer w) 1 streams"
  obtain init m2 where i: "buildInitSegment (m_tracks ?m1) = Some init" and e: "emit ?m1 init = (True, m2)"
    and m: "m = m2\<lparr>m_mediaStartPos := m_bytesWritten m2, m_written := True, m_waitingForKeyframe := hasVideoTracks m2\<rparr>"
    using assms(1) by (auto simp: WriteHeader_def NewMuxer_def Let_def split: if_splits bind_splits prod.splits bool.splits)
  obtain scr where m2: "m2 = ?m1\<lparr>m_w := (m_w ?m1)\<lparr>w_out := w_out (m_w ?m1) @ init, w_script := scr\<rparr>,
     m_bytesWritten := wrap64 (m_bytesWritten ?m1 + int (length init))\<rparr>"
    using emit_True [OF e] by blast
  have wf: "\<forall>i k. m_trackMap ?m1 i = Some k \<longrightarrow> k < length (m_tracks ?m1)"
    and inf: "map trackInfo (m_tracks ?m1) = m_tracks ?m1"
    using addTracks_wf [of "NewMuxer w" 1 streams] by (auto simp: NewMuxer_def)
  have emp: "ts_samples ts = []" if "ts \<in> set (m_tracks ?m1)" for ts
    using inf that map_eq_conv [of trackInfo "m_tracks ?m1" id] by (metis id_apply list.map_id trackInfo_samples)
  have tim: "\<forall>ts \<in> set (m_tracks ?m1). timed ts"
  proof
    fix ts
    assume "ts \<in> set (m_tracks ?m1)"
    then have "trackInfo ts = ts"
      using inf map_eq_conv [of trackInfo "m_tracks ?m1" id] by simp
    then have "ts_baseTime ts = 0"
      by (metis trackInfo_def trackState.select_convs(6) trackState.update_convs(6,7) trackState.surjective)
    then show "timed ts"
      by (simp add: timed_def)
  qed
  note defs = m m2 addTracks_frame
  show "ledger (w_out (m_w m)) (m_tracks m) [] [] m"
    using assms(2) inf tim by (simp add: defs ledger_def NewMuxer_def accepted_def trackKeys_def emp)
  show "open_mux (m_tracks m) m"
    using wf by (simp add: defs open_mux_def NewMuxer_def)
  show "originOf m = None"
    by (simp add: defs originOf_def NewMuxer_def)
  show "m_waitingForKeyframe m = hasVideoTracks m"
    by (simp add: defs hasVideoTracks_def)
  show "\<not> hasAnySamples m"
    by (auto simp: defs hasAnySamples_def list_ex_iff emp)
qed

lemma WriteTrailer_ledger:
  assumes led: "ledger init info frags acc m" and t: "WriteTrailer m = (None, m')"
  shows "\<exists>frags'. ledger init info frags' acc m' \<and> \<not> hasAnySamples m'"
proof -
  let ?m1 = "m\<lparr>m_closed := True\<rparr>"
  have led1: "ledger init info frags acc ?m1"
    using led by (simp add: ledger_def)
  show ?thesis
  proof (cases "hasAnySamples ?m1")
    case True
    then have fl: "flushFragment ?m1 = (None, m')"
      using t by (simp add: WriteTrailer_def Let_def split: if_splits)
    have "\<not> hasAnySamples m'"
      using flushFragment_success [OF fl True] by (auto simp: hasAnySamples_def list_ex_iff)
    then show ?thesis
      using flushFragment_ledger [OF led1 fl True] by blast
  next
    case False
    then have "m' = ?m1"
      using t by (simp add: WriteTrailer_def Let_def split: if_splits)
    then show ?thesis
      using led1 False by blast
  qed
qed

lemma ledger_drained:
  assumes "ledger init info frags acc m" and "\<not> hasAnySamples m" and "k < length info"
  shows "concat (map (\<lambda>f. trackKeys k (fr_tracks f)) frags) = accepted k acc"
proof -
  have "ts_samples (m_tracks m ! k) = []"
    using assms by (auto simp: ledger_def hasAnySamples_def list_ex_iff)
  then show ?thesis
    using assms(1,3) by (auto simp: ledger_def trackKeys_def)
qed

text \<open>A session from the header to the trailer ends with a ledger and nothing buffered.\<close>

lemma mux_session:
  assumes "WriteHeader (NewMuxer w) streams = Some (None, m0)" and "w_out w = []"
    and "writePackets js m0 pkts = (None, m1)" and "WriteTrailer m1 = (None, m2)"
  shows "\<exists>frags. ledger (w_out (m_w m0)) (m_tracks m0) frags
      (acceptedFrom js (m_trackMap m0) (m_tracks m0) (hasVideoTracks m0) None pkts) m2 \<and> \<not> hasAnySamples m2"
proof -
  note h = WriteHeader_ledger [OF assms(1,2)]
  obtain fr1 where l1: "ledger (w_out (m_w m0)) (m_tracks m0) fr1
      (acceptedFrom js (m_trackMap m0) (m_tracks m0) (hasVideoTracks m0) None pkts) m1"
    using writePackets_ledger [OF h(1,2) assms(3)] h(3,4) by auto
  then show ?thesis
    using WriteTrailer_ledger [OF l1 assms(4)] by blast
qed

subsection \<open>A writer that does not fail\<close>

definition reliable :: "Muxer \<Rightarrow> bool" where
  "reliable m \<longleftrightarrow> w_script (m_w m) = []"

lemma emitAll_reliable:
  "reliable m \<Longrightarrow> \<exists>m'. emitAll m bs = (True, m') \<and> reliable m' \<and> m_written m' = m_written m \<and> m_closed m' = m_closed m"
proof (induction bs arbitrary: m)
  case (Cons b bs)
  have "\<exists>m1. emit m b = (True, m1) \<and> reliable m1 \<and> m_written m1 = m_written m \<and> m_closed m1 = m_closed m"
    using Cons.prems by (simp add: reliable_def emit_def Write_def)
  then obtain m1 where m1: "emit m b = (True, m1)" "reliable m1" "m_written m1 = m_written m" "m_closed m1 = m_closed m"
    by blast
  then show ?case
    using Cons.IH [of m1] by simp
qed simp

lemma flushFragment_reliable:
  assumes "reliable m"
  shows "\<exists>m'. flushFragment m = (None, m') \<and> reliable m' \<and> m_written m' = m_written m \<and> m_closed m' = m_closed m"
proof -
  define active where "active = filter (\<lambda>ts. length (ts_samples ts) > 0) (map patchLast (m_tracks m))"
  define m1 where "m1 = m\<lparr>m_seqNum := m_seqNum m + 1, m_tracks := map patchLast (m_tracks m)\<rparr>"
  obtain emsgs nid where ce: "collectEmsg active (m_emsgID m1) = (emsgs, nid)"
    by force
  define m2 where "m2 = m1\<lparr>m_emsgID := nid\<rparr>"
  define bs where "bs = (if length emsgs > 0 then [emsgs] else []) @ [buildMoof active (m_seqNum m2) (dataOffsets active), buildMdat active]"
  have r: "reliable m1" "reliable m2" "m_written m1 = m_written m" "m_closed m1 = m_closed m"
      "m_written m2 = m_written m" "m_closed m2 = m_closed m"
    using assms by (simp_all add: reliable_def m1_def m2_def)
  obtain m3 where e: "emitAll m2 bs = (True, m3)" "reliable m3" "m_written m3 = m_written m" "m_closed m3 = m_closed m"
    using emitAll_reliable [OF r(2), of bs] r by auto
  show ?thesis
  proof (cases "length active = 0")
    case True
    then have "flushFragment m = (None, m1)"
      unfolding flushFragment_def Let_def active_def [symmetric] m1_def [symmetric] by simp
    then show ?thesis
      using r by simp
  next
    case False
    then have "\<exists>x y. flushFragment m = (None, m3\<lparr>m_fragIndex := x, m_tracks := y\<rparr>)"
      unfolding flushFragment_def Let_def active_def [symmetric] m1_def [symmetric] ce prod.case m2_def [symmetric]
        bs_def [symmetric] e by simp (intro exI, rule refl)
    then show ?thesis
      using e by (auto simp: reliable_def)
  qed
qed

lemma bufferPacket_reliable:
  assumes "reliable m"
  shows "\<exists>m'. bufferPacket js m k pkt = (None, m') \<and> reliable m' \<and> m_written m' = m_written m \<and> m_closed m' = m_closed m"
proof -
  define m2 where "m2 = (let m1 = m\<lparr>m_tracks := (m_tracks m)[k := appendSample js pkt (m_tracks m ! k)]\<rparr> in
    if ts_hasVideo (m_tracks m ! k)
    then m1\<lparr>m_lastVideoDTS := wrap64 (DTS pkt + m_dtsOffset m1), m_lastVideoDTSSet := True\<rparr> else m1)"
  have r: "reliable m2" "m_written m2 = m_written m" "m_closed m2 = m_closed m"
    using assms by (simp_all add: m2_def reliable_def Let_def)
  then have "reliable (m2\<lparr>m_firstFragmentFlushed := True\<rparr>)"
    by (simp add: reliable_def)
  then show ?thesis
    using flushFragment_reliable [OF r(1)] flushFragment_reliable [of "m2\<lparr>m_firstFragmentFlushed := True\<rparr>"] r
    unfolding bufferPacket_def Let_def m2_def [unfolded Let_def, symmetric] by simp
qed

lemma acceptPacket_reliable:
  assumes "reliable m"
  shows "\<exists>m'. acceptPacket js m k pkt = (None, m') \<and> reliable m' \<and> m_written m' = m_written m \<and> m_closed m' = m_closed m"
proof -
  define m1 where "m1 = (if \<not> m_dtsOffsetSet m then m\<lparr>m_dtsOffset := DTS pkt, m_dtsOffsetSet := True\<rparr> else m)"
  have r1: "reliable m1" "m_written m1 = m_written m" "m_closed m1 = m_closed m"
    using assms by (simp_all add: m1_def reliable_def)
  obtain m2 where m2: "flushFragment m1 = (None, m2)" "reliable m2" "m_written m2 = m_written m" "m_closed m2 = m_closed m"
    using flushFragment_reliable [OF r1(1)] r1 by auto
  have g: "reliable (recordGap m d) = reliable m" "m_written (recordGap m d) = m_written m"
    "m_closed (recordGap m d) = m_closed m" for m d
    by (simp_all add: recordGap_def reliable_def Let_def)
  have "reliable (recordGap (m2\<lparr>m_firstFragmentFlushed := True\<rparr>) d)" for d
    using m2(2) by (simp add: g) (simp add: reliable_def)
  from bufferPacket_reliable [OF this] bufferPacket_reliable [OF r1(1)] show ?thesis
    using m2 r1(2,3) unfolding acceptPacket_def Let_def m1_def [symmetric] by (simp add: g)
qed

lemma writePackets_reliable:
  "reliable m \<Longrightarrow> m_written m \<Longrightarrow> \<not> m_closed m \<Longrightarrow>
   \<exists>m'. writePackets js m pkts = (None, m') \<and> reliable m' \<and> m_written m' \<and> \<not> m_closed m'"
proof (induction pkts arbitrary: m)
  case (Cons p pkts)
  have "reliable (m\<lparr>m_waitingForKeyframe := False\<rparr>)"
    using Cons.prems(1) by (simp add: reliable_def)
  from acceptPacket_reliable [OF this] acceptPacket_reliable [OF Cons.prems(1)]
  have "\<exists>m1. WritePacket js m p = (None, m1) \<and> reliable m1 \<and> m_written m1 \<and> \<not> m_closed m1"
    using Cons.prems by (cases "m_trackMap m (Idx p)") (simp_all add: WritePacket_def)
  then show ?case
    using Cons.IH by auto
qed simp

lemma addTracks_codecs:
  "\<forall>s \<in> set streams. codec_fits (s_Codec s) \<Longrightarrow> \<forall>ts \<in> set (m_tracks m). codec_fits (ts_codec ts) \<Longrightarrow>
   \<forall>ts \<in> set (m_tracks (addTracks m tid streams)). codec_fits (ts_codec ts)"
proof (induction streams arbitrary: m tid)
  case (Cons s streams)
  have "codec_fits (ts_codec ts)" if "newTrackState s tid = Some ts" for ts
    using that Cons.prems(1) by (auto simp: newTrackState_def Let_def split: codec_data.splits)
  note fits = this
  have ss: "\<forall>s \<in> set streams. codec_fits (s_Codec s)"
    using Cons.prems(1) by simp
  show ?case
  proof (cases "newTrackState s tid")
    case None
    then show ?thesis
      using Cons.IH [OF ss Cons.prems(2), of tid] by simp
  next
    case (Some ts)
    let ?m = "m\<lparr>m_tracks := m_tracks m @ [ts], m_trackMap := (m_trackMap m)(s_Idx s \<mapsto> length (m_tracks m))\<rparr>"
    have "\<forall>ts \<in> set (m_tracks ?m). codec_fits (ts_codec ts)"
      using Cons.prems(2) fits [OF Some] by auto
    from Cons.IH [OF ss this, of "tid + 1"] show ?thesis
      by (simp add: Some)
  qed
qed simp

definition supported :: "stream \<Rightarrow> bool" where
  "supported s \<longleftrightarrow> (case s_Codec s of OtherCodec _ \<Rightarrow> False | _ \<Rightarrow> True)"

lemma addTracks_length:
  "length (m_tracks (addTracks m tid streams)) = length (m_tracks m) + length (filter supported streams)"
  by (induction streams arbitrary: m tid)
    (auto simp: newTrackState_def supported_def Let_def split: codec_data.splits)

lemma WriteTrailer_reliable:
  assumes "reliable m" and "\<not> m_closed m"
  shows "\<exists>m'. WriteTrailer m = (None, m')"
proof -
  have "reliable (m\<lparr>m_closed := True\<rparr>)"
    using assms(1) by (simp add: reliable_def)
  from flushFragment_reliable [OF this] show ?thesis
    using assms(2) by (auto simp: WriteTrailer_def Let_def)
qed

lemma WriteHeader_reliable:
  assumes "w_script w = []" and "\<forall>s \<in> set streams. codec_fits (s_Codec s)" and "\<exists>s \<in> set streams. supported s"
  shows "\<exists>m0. WriteHeader (NewMuxer w) streams = Some (None, m0) \<and> reliable m0 \<and> m_written m0 \<and> \<not> m_closed m0"
proof -
  define m1 where "m1 = addTracks (NewMuxer w) 1 streams"
  have fr: "m_w m1 = w" "\<not> m_closed m1" "m_written (NewMuxer w) = False"
    using addTracks_frame [of "NewMuxer w" 1 streams] by (simp_all add: m1_def NewMuxer_def)
  have "filter supported streams \<noteq> []"
    using assms(3) by (simp add: filter_empty_conv)
  then have ne: "length (m_tracks m1) \<noteq> 0"
    using addTracks_length [of "NewMuxer w" 1 streams] by (simp add: m1_def)
  obtain init where i: "buildInitSegment (m_tracks m1) = Some init"
    using buildInitSegment_returns addTracks_codecs [OF assms(2), of "NewMuxer w" 1] by (auto simp: m1_def NewMuxer_def)
  show ?thesis
    using assms(1) fr ne unfolding WriteHeader_def Let_def m1_def [symmetric] i
    by (simp add: emit_def Write_def reliable_def)
qed

subsection \<open>Properties\<close>

text \<open>
  Muxing to a writer that does not fail succeeds: if at least one stream has a supported codec and
  every AAC configuration has at most 104 bytes, the header, every packet and the trailer are written
  without an error, whatever the packets are.
\<close>

theorem mux_succeeds:
  assumes "w_script w = []" and "\<forall>s \<in> set streams. codec_fits (s_Codec s)" and "\<exists>s \<in> set streams. supported s"
  shows "\<exists>m0 m1 m2. WriteHeader (NewMuxer w) streams = Some (None, m0) \<and>
    writePackets js m0 pkts = (None, m1) \<and> WriteTrailer m1 = (None, m2)"
proof -
  obtain m0 where m0: "WriteHeader (NewMuxer w) streams = Some (None, m0)" "reliable m0" "m_written m0" "\<not> m_closed m0"
    using WriteHeader_reliable [OF assms] by blast
  obtain m1 where m1: "writePackets js m0 pkts = (None, m1)" "reliable m1" "\<not> m_closed m1"
    using writePackets_reliable [OF m0(2-4)] by blast
  then show ?thesis
    using m0(1) WriteTrailer_reliable by blast
qed

text \<open>
  C11.  Conservation of samples: when a muxer on an empty writer writes its header, any sequence of
  packets and the trailer without an error, the output is the initialisation segment followed by
  fragments, each the event messages of its samples, a moof and an mdat; the fragment index holds the
  position of every moof and the size of its moof and mdat; and for every track the samples of the
  fragments, in order, are exactly those of the packets that pass the keyframe gate, with decode times relative
  to the first of them (sample durations apart, which are filled in from the next packet).
\<close>

theorem mux_conservation:
  assumes "WriteHeader (NewMuxer w) streams = Some (None, m0)" and "w_out w = []"
    and "writePackets js m0 pkts = (None, m1)" and "WriteTrailer m1 = (None, m2)"
  shows "\<exists>frags. w_out (m_w m2) = w_out (m_w m0) @ concat (map fragBytes frags) \<and>
    indexed (length (w_out (m_w m0))) frags (m_fragIndex m2) \<and>
    (\<forall>k < length (m_tracks m0). concat (map (\<lambda>f. trackKeys k (fr_tracks f)) frags) =
       accepted k (acceptedFrom js (m_trackMap m0) (m_tracks m0) (hasVideoTracks m0) None pkts))"
proof -
  obtain frags where l: "ledger (w_out (m_w m0)) (m_tracks m0) frags
      (acceptedFrom js (m_trackMap m0) (m_tracks m0) (hasVideoTracks m0) None pkts) m2" and d: "\<not> hasAnySamples m2"
    using mux_session [OF assms] by blast
  show ?thesis
    using l ledger_drained [OF l d] by (intro exI [of _ frags]) (simp add: ledger_def)
qed

definition ex_writer :: writer where
  "ex_writer = \<lparr>w_out = [], w_script = [], w_closer = None, w_closes = 0\<rparr>"

definition ex_streams :: "stream list" where
  "ex_streams = [\<lparr>s_Idx = 3, s_Codec = AACCodec \<lparr>aac_ConfigBytes = [0x12, 0x10],
      aac_Config = \<lparr>aac_SampleRate = 44100, aac_ChannelLayout = 6, aac_ObjectType = 2, aac_SampleRateIndex = 4,
        aac_ChannelConfig = 2\<rparr>\<rparr>\<rparr>]"

definition ex_packets :: "packet list" where
  "ex_packets = [zero_packet\<lparr>Idx := 3, DTS := 5000000, Data := [1, 2, 3]\<rparr>,
     zero_packet\<lparr>Idx := 3, DTS := 28000000, Data := [4, 5]\<rparr>]"

lemma ex_run:
  "w_script ex_writer = []" "w_out ex_writer = []" "\<forall>s \<in> set ex_streams. codec_fits (s_Codec s)"
  "\<exists>s \<in> set ex_streams. supported s"
  by (simp_all add: ex_writer_def ex_streams_def codec_fits_def supported_def)

theorem mux_succeeds_witness:
  "\<exists>m0 m1 m2. WriteHeader (NewMuxer ex_writer) ex_streams = Some (None, m0) \<and>
    writePackets (\<lambda>_. None) m0 ex_packets = (None, m1) \<and> WriteTrailer m1 = (None, m2)"
  by (rule mux_succeeds [OF ex_run(1,3,4)])

theorem mux_conservation_witness:
  "\<exists>m0 m1 m2 frags. WriteHeader (NewMuxer ex_writer) ex_streams = Some (None, m0) \<and>
    writePackets (\<lambda>_. None) m0 ex_packets = (None, m1) \<and> WriteTrailer m1 = (None, m2) \<and>
    w_out (m_w m2) = w_out (m_w m0) @ concat (map fragBytes frags)"
proof -
  obtain m0 where m0: "WriteHeader (NewMuxer ex_writer) ex_streams = Some (None, m0)" "reliable m0" "m_written m0"
      "\<not> m_closed m0"
    using WriteHeader_reliable [OF ex_run(1,3,4)] by blast
  obtain m1 where m1: "writePackets (\<lambda>_. None) m0 ex_packets = (None, m1)" "reliable m1" "\<not> m_closed m1"
    using writePackets_reliable [OF m0(2-4)] by blast
  obtain m2 where m2: "WriteTrailer m1 = (None, m2)"
    using WriteTrailer_reliable [OF m1(2,3)] by blast
  show ?thesis
    using mux_conservation [OF m0(1) ex_run(2) m1(1) m2] m0(1) m1(1) m2 by blast
qed

end
