(* ===== verification/Fmp4_Session.thy ===== *)
theory Fmp4_Session
  imports Fmp4_Demux Fmp4_Roundtrip Fmp4_Index Fmp4_Mux_Inv "HOL-Library.Multiset"
begin

text \<open>
  What the demuxer makes of a file that the muxer wrote: the initialisation segment gives back the
  tracks and codecs, a sequence of fragments gives back the packets, and a seek lands on a fragment.
\<close>

subsection \<open>Sample entries\<close>

text \<open>
  A codec that survives its own sample entry.  For H.264, H.265 and AAC this is the round trip of its
  configuration record; for FLAC the source type is forgotten, the layout is the one that
  \<^verbatim>\<open>channelLayoutFromCount\<close> chooses for its channel count, and the sample rate has 16 bits.
\<close>

definition codec_stable :: "codec_data \<Rightarrow> bool" where
  "codec_stable codec =
    (case codec of
       H264Codec c \<Rightarrow> h264_NewCodecDataFromAVCDecoderConfRecord (h264_Record c) = Inr c \<and> length (h264_Record c) < 2 ^ 20
     | H265Codec c \<Rightarrow> h265_NewCodecDataFromAVCDecoderConfRecord (h265_Record c) = Inr c \<and> length (h265_Record c) < 2 ^ 20
     | AACCodec c \<Rightarrow> aac_NewCodecDataFromMPEG4AudioConfigBytes (aac_ConfigBytes c) = Inr c \<and> length (aac_ConfigBytes c) \<le> 104
     | FLACCodec c \<Rightarrow> flac_sourceType c = FLAC \<and> flac_sampleRate c \<noteq> 0 \<and> unat (flac_sampleRate c) < 2 ^ 16 \<and>
         flac_chLayout c \<noteq> 0 \<and> channelLayoutFromCount (of_nat (ChannelCount (flac_chLayout c))) = flac_chLayout c
     | OtherCodec _ \<Rightarrow> False)"

fun isVideoCodec :: "codec_data \<Rightarrow> bool" where
  "isVideoCodec (H264Codec c) = True"
| "isVideoCodec (H265Codec c) = True"
| "isVideoCodec _ = False"

lemma parseStsdEntry_makeBox:
  assumes "box_ok typ p"
  shows "parseStsdEntry (makeBox typ p @ rest) =
    (if typ = ''avc1'' \<or> typ = ''avc3'' then parseVisualEntry newH264 ''avcC'' p
     else if typ = ''hev1'' \<or> typ = ''hvc1'' then parseVisualEntry newH265 ''hvcC'' p
     else if typ = ''mp4a'' then
       (if length p < audioSampleEntryHeaderSize then Inl ErrMalformed
        else case findBox (drop audioSampleEntryHeaderSize p) ''esds'' of
          None \<Rightarrow> Inl ErrMalformed
        | Some esdsPayload \<Rightarrow>
            (case parseEsds esdsPayload of
               None \<Rightarrow> Inl ErrMalformed
             | Some asc \<Rightarrow>
                 (case aac_NewCodecDataFromMPEG4AudioConfigBytes asc of
                    Inl e \<Rightarrow> Inl DErrCodec
                  | Inr c \<Rightarrow> Inr (AACCodec c, False))))
     else if typ = ''fLaC'' then
       (if length p < audioSampleEntryHeaderSize then Inl ErrMalformed
        else let chCount = be16 (slice p 16 18) in
          if chCount = 0 then Inl ErrMalformed
          else let sampleRate = drop_bit 16 (be32 (slice p 24 28)) in
            if sampleRate = 0 then Inl ErrMalformed
            else case findBox (drop audioSampleEntryHeaderSize p) ''dfLa'' of
              None \<Rightarrow> Inl ErrMalformed
            | Some _ \<Rightarrow> Inr (FLACCodec (NewFLACCodecData FLAC sampleRate (channelLayoutFromCount chCount)), False))
     else Inl DErrUnsupportedCodec)"
proof -
  note parts = makeBox_parts [OF assms, of rest]
  have len: "8 + length p < 2 ^ 32"
    using assms by (simp add: box_ok_def)
  have 1: "\<not> length (makeBox typ p @ rest) < 8" "unat (boxSize p) = 8 + length p" "\<not> boxSize p < 8"
    "\<not> length (makeBox typ p @ rest) < 8 + length p"
    using parts(1) len by (simp_all add: unat_boxSize boxSize_ge_8 del: length_append)
  show ?thesis
    unfolding parseStsdEntry_def parts(2,3) 1(2) parts(4) Let_def if_not_P [OF 1(1)] using 1(3,4) by simp
qed

lemma parseVisualEntry_box:
  assumes "length hdr = 78" and "box_ok conf rec"
  shows "parseVisualEntry mk conf (hdr @ makeBox conf rec) = (case mk rec of Inl e \<Rightarrow> Inl e | Inr codec \<Rightarrow> Inr (codec, True))"
  using assms by (simp add: parseVisualEntry_def visualSampleEntryHeaderSize_def box_search)

lemma descriptor_byte:
  assumes "n \<le> 127"
  shows "(of_nat n :: byte) AND 0x80 = 0" and "unat ((of_nat n :: byte) AND 0x7f) = n"
proof -
  have w: "unat (of_nat n :: byte) = n"
    using assms by (simp add: unat_of_nat)
  have t: "take_bit 7 (of_nat n :: byte) = of_nat n"
    using assms w by (intro take_bit_small) simp
  have m: "(of_nat n :: byte) AND 0x7f = of_nat n"
    using t by (simp add: take_bit_eq_mask mask_numeral)
  show "unat ((of_nat n :: byte) AND 0x7f) = n"
    unfolding m by (rule w)
  have "(of_nat n :: byte) AND 0x80 = ((of_nat n :: byte) AND 0x7f) AND 0x80"
    by (simp only: m)
  also have "\<dots> = 0"
    by (simp add: and.assoc)
  finally show "(of_nat n :: byte) AND 0x80 = 0" .
qed

lemma readDescriptorBody_short:
  assumes "length body \<le> 127"
  shows "readDescriptorBody (tag # of_nat (length body) # body @ rest) tag = Some body"
proof -
  have "descriptorBodyLength (tag # of_nat (length body) # body @ rest) 0 1 = (length body, 2)"
    by (subst descriptorBodyLength.simps) (simp add: descriptor_byte [OF assms] Let_def)
  then show ?thesis
    by (simp add: readDescriptorBody_def slice_def)
qed

lemma parseEsds_short:
  assumes "length asc \<le> 104"
  shows "parseEsds (put32 0 @ 0x03 # of_nat (23 + length asc) #
     put16 1 @ 0x00 # 0x04 # of_nat (15 + length asc) #
       [0x40, 0x15] @ writeUint24 0 @ put32 0 @ put32 0 @ 0x05 # of_nat (length asc) # asc
     @ [0x06, 0x01, 0x02]) = Some asc"
proof -
  define dc where "dc = [0x40, 0x15] @ writeUint24 0 @ put32 0 @ put32 0 @ 0x05 # of_nat (length asc) # asc"
  define es where "es = put16 1 @ 0x00 # 0x04 # of_nat (length dc) # dc @ [0x06, 0x01, 0x02]"
  have ldc: "length dc = 15 + length asc" and les: "length es = 23 + length asc"
    by (simp_all add: dc_def es_def writeUint24_def)
  have 1: "readDescriptorBody (0x03 # of_nat (length es) # es) 0x03 = Some es"
    using readDescriptorBody_short [of es 3 "[]"] assms les by simp
  have 2: "readDescriptorBody (0x04 # of_nat (length dc) # dc @ [0x06, 0x01, 0x02]) 0x04 = Some dc"
    using readDescriptorBody_short [of dc 4 "[0x06, 0x01, 0x02]"] assms ldc by simp
  have 3: "readDescriptorBody (0x05 # of_nat (length asc) # asc) 0x05 = Some asc"
    using readDescriptorBody_short [of asc 5 "[]"] assms by simp
  have nth: "es ! 2 = 0" and dr: "drop 3 es = 0x04 # of_nat (length dc) # dc @ [0x06, 0x01, 0x02]"
    by (simp_all add: es_def nth_append)
  have dr2: "drop 13 dc = 0x05 # of_nat (length asc) # asc"
    by (simp add: dc_def writeUint24_def)
  have "parseEsds (put32 0 @ 0x03 # of_nat (length es) # es) = Some asc"
    unfolding parseEsds_def using 1 2 3 by (simp add: nth dr dr2 les ldc)
  then show ?thesis
    unfolding les by (simp add: es_def ldc, simp add: dc_def)
qed

lemma length_audioEntryHeader [simp]: "length (audioEntryHeader l r) = 28"
  by (simp add: audioEntryHeader_def writeZeros_def)

lemma ChannelCount_le: "ChannelCount s \<le> unat s"
proof (induction s rule: ChannelCount.induct)
  case (1 s)
  show ?case
  proof (cases "s = 0")
    case False
    have "unat ((s - 1) AND s) \<le> unat (s - 1)"
      using word_and_le2 [of "s - 1" s] by (simp add: word_le_nat_alt)
    also have "\<dots> < unat s"
      using False by (simp add: unat_minus_one unat_gt_0)
    finally show ?thesis
      using 1 [OF False] False by (subst ChannelCount.simps) simp
  qed (simp add: ChannelCount.simps)
qed

lemma ChannelCount_nonzero: "s \<noteq> 0 \<Longrightarrow> (of_nat (ChannelCount s) :: u16) \<noteq> 0"
proof -
  assume "s \<noteq> 0"
  then have "0 < ChannelCount s"
    by (subst ChannelCount.simps) simp
  moreover have "ChannelCount s < 2 ^ 16"
    using ChannelCount_le [of s] unsigned_less [of s, where ?'a = nat] by (simp add: le_less_trans)
  ultimately show ?thesis
    by (simp add: unsigned_eq_0_iff [symmetric, where ?'a = nat] unat_of_nat_u16)
qed

lemma rate_fixed_point:
  assumes "unat (sr :: u32) < 2 ^ 16"
  shows "drop_bit 16 (push_bit 16 (word_of_int (uint sr)) :: u32) = sr"
proof -
  have "drop_bit 16 (push_bit 16 sr) = take_bit 16 sr"
    by (rule bit_word_eqI) (auto simp: bit_simps dest: bit_imp_le_length)
  then show ?thesis
    using take_bit_small [OF assms] by simp
qed

lemma parseStsdEntry_codec:
  assumes st: "codec_stable codec" and e: "stsdEntry codec = Some entry"
  shows "parseStsdEntry (entry @ rest) = Inr (codec, isVideoCodec codec) \<and> length entry < 2 ^ 20 + 200"
proof (cases codec)
  case (H264Codec c)
  define hdr where "hdr = writeZeros 6 @ put16 1 @ put16 0 @ put16 0 @ writeZeros 12
     @ put16 (word_of_int (h264_Width c)) @ put16 (word_of_int (h264_Height c))
     @ put32 0x00480000 @ put32 0x00480000 @ put32 0 @ put16 1 @ writeZeros 32
     @ put16 0x0018 @ put16 (word_of_int (- 1))"
  have "length hdr = 78"
    by (simp add: hdr_def writeZeros_def)
  moreover have "entry = makeBox ''avc1'' (hdr @ makeBox ''avcC'' (h264_Record c))"
    using e H264Codec by (simp add: stsdEntry_def buildAvc1_def hdr_def)
  ultimately show ?thesis
    using st H264Codec
    by (simp add: codec_stable_def parseStsdEntry_makeBox box_ok_def length_makeBox parseVisualEntry_box newH264_def)
next
  case (H265Codec c)
  define hdr where "hdr = writeZeros 6 @ put16 1 @ put16 0 @ put16 0 @ writeZeros 12
     @ put16 (word_of_int (h265_Width c)) @ put16 (word_of_int (h265_Height c))
     @ put32 0x00480000 @ put32 0x00480000 @ put32 0 @ put16 1 @ writeZeros 32
     @ put16 0x0018 @ put16 (word_of_int (- 1))"
  have "length hdr = 78"
    by (simp add: hdr_def writeZeros_def)
  moreover have "entry = makeBox ''hev1'' (hdr @ makeBox ''hvcC'' (h265_Record c))"
    using e H265Codec by (simp add: stsdEntry_def buildHev1_def hdr_def)
  ultimately show ?thesis
    using st H265Codec
    by (simp add: codec_stable_def parseStsdEntry_makeBox box_ok_def length_makeBox parseVisualEntry_box newH265_def)
next
  case (AACCodec c)
  define esds where "esds = put32 0 @ 0x03 # of_nat (23 + length (aac_ConfigBytes c)) #
     put16 1 @ 0x00 # 0x04 # of_nat (15 + length (aac_ConfigBytes c)) #
       [0x40, 0x15] @ writeUint24 0 @ put32 0 @ put32 0
         @ 0x05 # of_nat (length (aac_ConfigBytes c)) # aac_ConfigBytes c
     @ [0x06, 0x01, 0x02]"
  have len: "length (aac_ConfigBytes c) \<le> 104" and c: "aac_NewCodecDataFromMPEG4AudioConfigBytes (aac_ConfigBytes c) = Inr c"
    using st AACCodec by (simp_all add: codec_stable_def)
  have lesds: "length esds \<le> 200"
    using len by (simp add: esds_def writeUint24_def)
  have "entry = makeBox ''mp4a'' (audioEntryHeader (aac_ChannelLayout (aac_Config c)) (aac_SampleRate (aac_Config c))
      @ makeBox ''esds'' esds)"
    using e AACCodec by (simp add: stsdEntry_def buildMp4a_def buildEsds_short [OF len] esds_def)
  moreover have "parseEsds esds = Some (aac_ConfigBytes c)"
    unfolding esds_def by (rule parseEsds_short [OF len])
  ultimately show ?thesis
    using lesds AACCodec c
    by (simp add: parseStsdEntry_makeBox box_ok_def length_makeBox audioSampleEntryHeaderSize_def box_search)
next
  case (FLACCodec c)
  define hdr where "hdr = audioEntryHeader (flac_chLayout c) (flac_SampleRate c)"
  have ch: "slice (hdr @ r) 16 18 = put16 (of_nat (ChannelCount (flac_chLayout c)))"
    and sr: "slice (hdr @ r) 24 28 = put32 (push_bit 16 (word_of_int (uint (flac_sampleRate c))))" for r
    by (simp_all add: hdr_def audioEntryHeader_def writeZeros_def flac_SampleRate_def slice_def)
  have lh: "length hdr = 28"
    by (simp add: hdr_def)
  have entry: "entry = makeBox ''fLaC'' (hdr @ makeBox ''dfLa'' (fullHdr 0 0 @ STREAMINFOBlock c))"
    using e FLACCodec by (simp add: stsdEntry_def buildFLaC_def hdr_def makeFullBox_def)
  have layout: "flac_chLayout c \<noteq> 0" "flac_sampleRate c \<noteq> 0" "unat (flac_sampleRate c) < 2 ^ 16"
    using st FLACCodec by (simp_all add: codec_stable_def)
  have "NewFLACCodecData FLAC (flac_sampleRate c) (channelLayoutFromCount (of_nat (ChannelCount (flac_chLayout c)))) = c"
    using st FLACCodec by (simp add: codec_stable_def NewFLACCodecData_def)
  then show ?thesis
    using FLACCodec ChannelCount_nonzero [OF layout(1)] layout(2) rate_fixed_point [OF layout(3)]
    by (simp add: entry lh parseStsdEntry_makeBox box_ok_def length_makeBox audioSampleEntryHeaderSize_def box_search ch sr)
next
  case (OtherCodec c)
  then show ?thesis
    using st by (simp add: codec_stable_def)
qed

subsection \<open>The initialisation segment\<close>

definition trackDefOf :: "trackState \<Rightarrow> trackDef" where
  "trackDefOf ts = \<lparr>td_id = ts_id ts, td_streamIdx = 0, td_timescale = ts_timescale ts, td_codec = ts_codec ts,
     td_hasVideo = isVideoCodec (ts_codec ts), td_defDuration = 0, td_defSize = 0, td_defFlags = 0\<rparr>"

lemma box_sizes:
  "length buildVmhd = 20" "length buildSmhd = 16" "length buildDinf = 36" "length (buildMdhd ts) = 32"
  "length (buildHdlr ts) = 45" "length (buildTkhd ts) = 92" "length buildStts = 16" "length buildStsc = 16"
  "length buildStsz = 20" "length buildStco = 16"
  by (auto simp: buildVmhd_def buildSmhd_def buildDinf_def buildMdhd_def buildHdlr_def buildTkhd_def buildStts_def
      buildStsc_def buildStsz_def buildStco_def length_makeFullBox length_makeBox writeZeros_def identityMatrix_def
      split: option.splits)

lemma stbl_search:
  assumes "length e < 2 ^ 25"
  shows "findBox (makeFullBox ''stsd'' 0 0 (put32 1 @ e) @ buildStts @ buildStsc @ buildStsz @ buildStco) ''stsd'' =
    Some (fullHdr 0 0 @ put32 1 @ e)"
  using assms by (simp add: makeFullBox_def box_search box_ok_def)

lemma minf_search:
  assumes "length p < 2 ^ 26"
  shows "findBox ((if hv then buildVmhd else buildSmhd) @ buildDinf @ makeBox ''stbl'' p) ''stbl'' = Some p"
  using assms by (simp add: buildVmhd_def buildSmhd_def buildDinf_def makeFullBox_def box_search box_ok_def
      length_makeBox writeZeros_def)

lemma hdlr_payload:
  "\<exists>p. buildHdlr ts = makeBox ''hdlr'' p \<and> box_ok ''hdlr'' p \<and> parseHdlrType p \<noteq> None"
  unfolding buildHdlr_def makeFullBox_def
  by (intro exI conjI, rule refl) (auto simp: box_ok_def parseHdlrType_def writeZeros_def)

lemma mdia_search:
  assumes "length p < 2 ^ 27"
  shows "findBox (buildMdhd ts @ buildHdlr ts @ makeBox ''minf'' p) ''minf'' = Some p"
    and "\<exists>q t. findBox (buildMdhd ts @ buildHdlr ts @ makeBox ''minf'' p) ''hdlr'' = Some q \<and> parseHdlrType q = Some t"
    and "\<exists>q. findBox (buildMdhd ts @ buildHdlr ts @ makeBox ''minf'' p) ''mdhd'' = Some q \<and>
      parseMdhdTimescale q = Some (ts_timescale ts)"
  using assms hdlr_payload [of ts]
  by (auto simp: buildMdhd_def makeFullBox_def box_search box_ok_def parseMdhdTimescale_def slices)

lemma trak_search:
  assumes "length p < 2 ^ 28"
  shows "findBox (buildTkhd ts @ makeBox ''mdia'' p) ''mdia'' = Some p"
    and "\<exists>q. findBox (buildTkhd ts @ makeBox ''mdia'' p) ''tkhd'' = Some q \<and> parseTkhdTrackID q = Some (ts_id ts)"
  using assms
  by (auto simp: buildTkhd_def makeFullBox_def box_search box_ok_def parseTkhdTrackID_def slices writeZeros_def
      identityMatrix_def split: option.splits)

lemma parseTrak_buildTrak:
  assumes st: "codec_stable (ts_codec ts)"
  shows "\<exists>p. buildTrak ts = Some (makeBox ''trak'' p) \<and> length p < 2 ^ 20 + 1000 \<and> parseTrak p = Inr (trackDefOf ts)"
proof -
  obtain e where e: "stsdEntry (ts_codec ts) = Some e"
    using st stsdEntry_returns [of "ts_codec ts"]
    by (cases "ts_codec ts") (auto simp: codec_stable_def codec_fits_def)
  note pe = parseStsdEntry_codec [OF st e, of "[]"]
  define stbl where "stbl = makeFullBox ''stsd'' 0 0 (put32 1 @ e) @ buildStts @ buildStsc @ buildStsz @ buildStco"
  define minf where "minf = (if ts_hasVideo ts then buildVmhd else buildSmhd) @ buildDinf @ makeBox ''stbl'' stbl"
  define mdia where "mdia = buildMdhd ts @ buildHdlr ts @ makeBox ''minf'' minf"
  define trak where "trak = buildTkhd ts @ makeBox ''mdia'' mdia"
  have len: "length stbl < 2 ^ 26" "length minf < 2 ^ 27" "length mdia < 2 ^ 28" "length trak < 2 ^ 20 + 1000"
    using pe by (simp_all add: stbl_def minf_def mdia_def trak_def length_makeBox length_makeFullBox box_sizes)
  have "buildTrak ts = Some (makeBox ''trak'' trak)"
    by (simp add: buildTrak_def buildMdia_def buildMinf_def buildStbl_def buildStsd_def e trak_def mdia_def minf_def stbl_def)
  moreover have "findBox stbl ''stsd'' = Some (fullHdr 0 0 @ put32 1 @ e)"
    unfolding stbl_def using pe by (intro stbl_search) simp
  moreover note minf_search [OF len(1), of "ts_hasVideo ts", folded minf_def] mdia_search [OF len(2), of ts, folded mdia_def]
    trak_search [OF len(3), of ts, folded trak_def]
  ultimately have "parseTrak trak = Inr (trackDefOf ts)"
    using pe by (auto simp: parseTrak_def orMalformed_def andThen_def trackDefOf_def)
  with \<open>buildTrak ts = _\<close> len(4) show ?thesis
    by blast
qed

definition moovPayload :: "trackState list \<Rightarrow> bytes" where
  "moovPayload tracks = buildMvhd (length tracks) @ concat (map (\<lambda>ts. the (buildTrak ts)) tracks) @ buildMvex tracks"

definition tracks_ok :: "trackState list \<Rightarrow> bool" where
  "tracks_ok tracks \<longleftrightarrow> length tracks \<le> 1000 \<and> (\<forall>ts \<in> set tracks. codec_stable (ts_codec ts))"

lemma those_map_the: "\<forall>x \<in> set xs. f x \<noteq> None \<Longrightarrow> those (map f xs) = Some (map (the \<circ> f) xs)"
  by (induction xs) auto

lemma traks_search:
  assumes "\<forall>ts \<in> set tracks. codec_stable (ts_codec ts)"
  shows "parseTraks (findBoxes (concat (map (\<lambda>ts. the (buildTrak ts)) tracks) @ rest) ''trak'') =
      map_option ((@) (map trackDefOf tracks)) (parseTraks (findBoxes rest ''trak'')) \<and>
    length (concat (map (\<lambda>ts. the (buildTrak ts)) tracks)) \<le> length tracks * (2 ^ 20 + 1008)"
  using assms
proof (induction tracks)
  case Nil
  then show ?case
    by (cases "parseTraks (findBoxes rest ''trak'')") simp_all
next
  case (Cons ts tracks)
  obtain p where p: "buildTrak ts = Some (makeBox ''trak'' p)" "length p < 2 ^ 20 + 1000" "parseTrak p = Inr (trackDefOf ts)"
    using parseTrak_buildTrak [of ts] Cons.prems by auto
  then show ?case
    using Cons.IH Cons.prems by (simp add: box_search box_ok_def option.map_comp comp_def length_makeBox)
qed

lemma length_buildTrex: "length (buildTrex ts) = 32"
  by (simp add: buildTrex_def length_makeFullBox)

lemma moov_search:
  assumes ok: "tracks_ok tracks"
  shows "buildMoov tracks = Some (makeBox ''moov'' (moovPayload tracks))" and "box_ok ''moov'' (moovPayload tracks)"
    and "parseTraks (findBoxes (moovPayload tracks) ''trak'') = Some (map trackDefOf tracks)"
proof -
  have st: "\<forall>ts \<in> set tracks. codec_stable (ts_codec ts)" and n: "length tracks \<le> 1000"
    using ok by (simp_all add: tracks_ok_def)
  have "\<forall>ts \<in> set tracks. buildTrak ts \<noteq> None"
    using st parseTrak_buildTrak by fastforce
  then show "buildMoov tracks = Some (makeBox ''moov'' (moovPayload tracks))"
    by (simp add: buildMoov_def those_map_the moovPayload_def comp_def)
  have trex: "length (concat (map buildTrex tracks)) = length tracks * 32"
    by (induction tracks) (simp_all add: length_buildTrex)
  then have mvex: "buildMvex tracks = makeBox ''mvex'' (concat (map buildTrex tracks))"
    "box_ok ''mvex'' (concat (map buildTrex tracks))"
    using n by (simp_all add: buildMvex_def box_ok_def)
  obtain q where mvhd: "buildMvhd (length tracks) = makeBox ''mvhd'' q" "length q = 100"
    by (rule that [of "fullHdr 0 0 @ put32 0 @ put32 0 @ put32 1000 @ put32 0 @ put32 0x00010000 @ put16 0x0100
        @ writeZeros 10 @ identityMatrix @ writeZeros 24 @ put32 (of_nat (length tracks + 1))"])
      (simp_all add: buildMvhd_def makeFullBox_def writeZeros_def identityMatrix_def)
  have "length tracks * (2 ^ 20 + 1008) \<le> 1000 * (2 ^ 20 + 1008)"
    using n by (intro mult_le_mono1)
  then show "box_ok ''moov'' (moovPayload tracks)"
    using traks_search [OF st, of "[]", THEN conjunct2] trex n mvhd mvex by (simp add: moovPayload_def box_ok_def length_makeBox)
  show "parseTraks (findBoxes (moovPayload tracks) ''trak'') = Some (map trackDefOf tracks)"
    using traks_search [OF st, of "buildMvex tracks"] mvhd mvex(2)
    by (simp add: moovPayload_def mvex(1) box_search box_ok_def)
qed

subsection \<open>Reading a sequence of boxes\<close>

text \<open>The reader stands in front of \<open>rest\<close>, and its two positions agree.\<close>

definition reader_at :: "Demuxer \<Rightarrow> bytes \<Rightarrow> bool" where
  "reader_at d rest \<longleftrightarrow> d_pos d = int (d_off d) \<and> d_off d \<le> length (d_file d) \<and> length (d_file d) < 2 ^ 62 \<and>
     drop (d_off d) (d_file d) = rest"

definition advance :: "Demuxer \<Rightarrow> nat \<Rightarrow> Demuxer" where
  "advance d n = d\<lparr>d_off := d_off d + n, d_pos := d_pos d + int n\<rparr>"

lemma reader_at_update [simp]:
  "reader_at (d\<lparr>d_tracksByID := a\<rparr>) r = reader_at d r" "reader_at (d\<lparr>d_streams := b\<rparr>) r = reader_at d r"
  "reader_at (d\<lparr>d_pending := c\<rparr>) r = reader_at d r" "reader_at (d\<lparr>d_pendingCodecChange := e\<rparr>) r = reader_at d r"
  "reader_at (d\<lparr>d_pendingEmsg := f\<rparr>) r = reader_at d r" "reader_at (d\<lparr>d_moovRead := g\<rparr>) r = reader_at d r"
  "reader_at (d\<lparr>d_mediaStartPos := h\<rparr>) r = reader_at d r" "reader_at (d\<lparr>d_sidx := i\<rparr>) r = reader_at d r"
  by (simp_all add: reader_at_def)

lemma readFull_at:
  assumes "reader_at d (b @ rest)"
  shows "readFull d (length b) = (Inr b, advance d (length b))" and "reader_at (advance d (length b)) rest"
proof -
  have dr: "drop (d_off d) (d_file d) = b @ rest" and le: "d_off d \<le> length (d_file d)" and big: "length (d_file d) < 2 ^ 62"
    and pos: "d_pos d = int (d_off d)"
    using assms by (simp_all add: reader_at_def)
  have fits: "length b \<le> length (d_file d) - d_off d"
    using arg_cong [OF dr, of length] by simp
  have w: "wrap64 (d_pos d + int (length b)) = d_pos d + int (length b)"
    using fits le big pos by (intro wrap64_id) (simp add: in64_def)
  show "readFull d (length b) = (Inr b, advance d (length b))"
    using fits by (simp add: readFull_def Let_def min_absorb1 w advance_def slice_def dr)
  show "reader_at (advance d (length b)) rest"
    using fits le big pos drop_field [OF dr] by (simp add: reader_at_def advance_def)
qed

lemma readBox_at:
  assumes at: "reader_at d (makeBox typ p @ rest)" and ok: "box_ok typ p"
  shows "readBox d = (Inr (typ, p), advance d (8 + length p))" and "reader_at (advance d (8 + length p)) rest"
proof -
  define hdr where "hdr = put32 (boxSize p) @ strbytes typ"
  have hdr: "makeBox typ p = hdr @ p" "length hdr = 8" "be32 (slice hdr 0 4) = boxSize p" "gostring (slice hdr 4 8) = typ"
    using ok by (simp_all add: hdr_def makeBox_layout box_ok_def slices)
  have sz: "unat (boxSize p) = 8 + length p" "\<not> boxSize p < 8"
    using ok by (simp_all add: box_ok_def unat_boxSize boxSize_ge_8)
  have at1: "reader_at d (hdr @ p @ rest)"
    using at by (simp add: hdr)
  note r1 = readFull_at [OF at1]
  note r2 = readFull_at [OF r1(2)]
  have adv: "advance (advance d (length hdr)) (length p) = advance d (8 + length p)"
    by (simp add: advance_def hdr)
  show "readBox d = (Inr (typ, p), advance d (8 + length p))"
    using r1(1) r2(1) by (simp add: readBox_def hdr sz Let_def adv [unfolded hdr(2)])
  show "reader_at (advance d (8 + length p)) rest"
    using r2(2) by (simp add: adv)
qed

lemma readBox_end: "reader_at d [] \<Longrightarrow> \<exists>d'. readBox d = (Inl DEOF, d')"
  by (auto simp: reader_at_def readBox_def readFull_def Let_def)

lemma buildFtyp_box: "\<exists>p. buildFtyp tracks = makeBox ''ftyp'' p \<and> box_ok ''ftyp'' p"
  unfolding buildFtyp_def Let_def by (intro exI conjI, rule refl) (simp add: box_ok_def)

text \<open>The state after the initialisation segment of \<open>tracks\<close>.\<close>

definition initialised :: "trackState list \<Rightarrow> Demuxer \<Rightarrow> Demuxer" where
  "initialised tracks d =
    (let ts = numberTracks 0 (map trackDefOf tracks)
     in d\<lparr>d_tracksByID := trackTable ts, d_streams := map trackStream ts\<rparr>)"

lemma GetCodecs_init:
  assumes at: "reader_at d (init @ rest)" and init: "buildInitSegment tracks = Some init" and ok: "tracks_ok tracks"
  defines "d' \<equiv> initialised tracks (advance d (length init))"
  shows "GetCodecs d = (Inr (d_streams d'), d'\<lparr>d_moovRead := True, d_mediaStartPos := d_pos d'\<rparr>)" and "reader_at d' rest"
proof -
  obtain p where p: "buildFtyp tracks = makeBox ''ftyp'' p" "box_ok ''ftyp'' p"
    using buildFtyp_box by blast
  note moov = moov_search [OF ok]
  have split: "init = makeBox ''ftyp'' p @ makeBox ''moov'' (moovPayload tracks)"
    using init by (simp add: buildInitSegment_def moov(1) p(1))
  have at1: "reader_at d (makeBox ''ftyp'' p @ makeBox ''moov'' (moovPayload tracks) @ rest)"
    using at by (simp add: split)
  note r1 = readBox_at [OF at1 p(2)]
  note r2 = readBox_at [OF r1(2) moov(2)]
  have len: "length init = 8 + length p + (8 + length (moovPayload tracks))"
    using p(2) moov(2) by (simp add: split length_makeBox box_ok_def)
  have adv: "advance (advance d (8 + length p)) (8 + length (moovPayload tracks)) = advance d (length init)"
    by (simp add: advance_def len)
  have "parseMoov (advance d (length init)) (moovPayload tracks) = Some d'"
    by (simp add: parseMoov_def moov(3) d'_def initialised_def Let_def)
  then show "GetCodecs d = (Inr (d_streams d'), d'\<lparr>d_moovRead := True, d_mediaStartPos := d_pos d'\<rparr>)"
    using r1(1) r2(1) adv by (subst GetCodecs.simps, simp, subst GetCodecs.simps, simp)
  show "reader_at d' rest"
    using r2(2) unfolding adv by (simp add: d'_def initialised_def Let_def)
qed

subsection \<open>Event messages before a fragment\<close>

fun emsgRun :: "u32 \<Rightarrow> sample list \<Rightarrow> bytes" where
  "emsgRun eid [] = []"
| "emsgRun eid (s # ss) =
    (if sm_extra s \<noteq> [] then buildEmsg (sm_presentationTimeMS s) eid (sm_extra s) @ emsgRun (eid + 1) ss
     else emsgRun eid ss)"

fun emsgEntries :: "u32 \<Rightarrow> sample list \<Rightarrow> emsgEntry list" where
  "emsgEntries eid [] = []"
| "emsgEntries eid (s # ss) =
    (if sm_extra s \<noteq> []
     then \<lparr>em_schemeIDURI = emsgSchemeIDURI, em_presentTimeMS = sm_presentationTimeMS s, em_id = eid,
            em_payload = sm_extra s\<rparr> # emsgEntries (eid + 1) ss
     else emsgEntries eid ss)"

definition fragSamples :: "fragment \<Rightarrow> sample list" where
  "fragSamples f = concat (map ts_samples (fragActive f))"

lemma collectEmsg_samples:
  "foldl (\<lambda>(out, eid) s. if length (sm_extra s) > 0 then (out @ buildEmsg (sm_presentationTimeMS s) eid (sm_extra s), eid + 1)
      else (out, eid)) (out0, eid0) ss =
   (out0 @ emsgRun eid0 ss, eid0 + of_nat (length (filter (\<lambda>s. sm_extra s \<noteq> []) ss)))"
  by (induction ss arbitrary: out0 eid0) (simp_all add: add.assoc)

lemma emsgRun_append:
  "emsgRun eid (xs @ ys) = emsgRun eid xs @ emsgRun (eid + of_nat (length (filter (\<lambda>s. sm_extra s \<noteq> []) xs))) ys"
  by (induction xs arbitrary: eid) (simp_all add: add.assoc)

lemma collectEmsg_foldl:
  "foldl (\<lambda>acc ts. foldl (\<lambda>(out, eid) s.
        if length (sm_extra s) > 0 then (out @ buildEmsg (sm_presentationTimeMS s) eid (sm_extra s), eid + 1)
        else (out, eid)) acc (ts_samples ts)) (out0, eid0) active =
   (out0 @ emsgRun eid0 (concat (map ts_samples active)),
    eid0 + of_nat (length (filter (\<lambda>s. sm_extra s \<noteq> []) (concat (map ts_samples active)))))"
  by (induction active arbitrary: out0 eid0)
    (simp_all add: collectEmsg_samples [simplified] emsgRun_append add.assoc)

lemma fr_emsgs_run: "fr_emsgs f = emsgRun (fr_emsgID f) (fragSamples f)"
  using collectEmsg_foldl [of "[]" "fr_emsgID f" "fragActive f"]
  by (simp add: fr_emsgs_def collectEmsg_def fragSamples_def)

definition emsg_ok :: "sample \<Rightarrow> bool" where
  "emsg_ok s \<longleftrightarrow> \<bar>sm_presentationTimeMS s\<bar> < 2 ^ 44 \<and> length (sm_extra s) < 2 ^ 31"

lemma emsg_box:
  assumes "emsg_ok s"
  shows "box_ok ''emsg'' (emsgPayload (sm_presentationTimeMS s) eid (sm_extra s))"
    and "parseEmsg (emsgPayload (sm_presentationTimeMS s) eid (sm_extra s)) =
      Some \<lparr>em_schemeIDURI = emsgSchemeIDURI, em_presentTimeMS = sm_presentationTimeMS s, em_id = eid, em_payload = sm_extra s\<rparr>"
proof -
  have "\<bar>sm_presentationTimeMS s\<bar> < 2 ^ 44"
    using assms by (simp add: emsg_ok_def)
  then have "in64 (sm_presentationTimeMS s)" "in64 (sm_presentationTimeMS s * 1000)"
    by (auto simp: in64_def)
  then show "parseEmsg (emsgPayload (sm_presentationTimeMS s) eid (sm_extra s)) =
      Some \<lparr>em_schemeIDURI = emsgSchemeIDURI, em_presentTimeMS = sm_presentationTimeMS s, em_id = eid, em_payload = sm_extra s\<rparr>"
    by (rule parseEmsg_emsgPayload)
qed (use assms in \<open>simp add: emsg_ok_def box_ok_def emsgPayload_def length_scheme\<close>)

lemma ReadPacket_emsgs:
  assumes "reader_at d (emsgRun eid ss @ rest)" and "\<forall>s \<in> set ss. emsg_ok s" and "d_pending d = []"
  shows "\<exists>d'. ReadPacket srt uj d = ReadPacket srt uj d' \<and> reader_at d' rest \<and>
    d' = (advance d (length (emsgRun eid ss)))\<lparr>d_pendingEmsg := d_pendingEmsg d @ emsgEntries eid ss\<rparr>"
  using assms
proof (induction ss arbitrary: d eid)
  case Nil
  then show ?case
    by (simp add: advance_def)
next
  case (Cons s ss)
  show ?case
  proof (cases "sm_extra s = []")
    case True
    then show ?thesis
      using Cons by simp
  next
    case False
    define p where "p = emsgPayload (sm_presentationTimeMS s) eid (sm_extra s)"
    define d1 where "d1 = advance d (8 + length p)"
    have ok: "emsg_ok s"
      using Cons.prems(2) by simp
    have "reader_at d (makeBox ''emsg'' p @ emsgRun (eid + 1) ss @ rest)"
      using Cons.prems(1) False by (simp add: buildEmsg_payload p_def)
    note r = readBox_at [OF this emsg_box(1) [OF ok, of eid, folded p_def], folded d1_def]
    let ?e = "\<lparr>em_schemeIDURI = emsgSchemeIDURI, em_presentTimeMS = sm_presentationTimeMS s, em_id = eid, em_payload = sm_extra s\<rparr>"
    let ?d = "d1\<lparr>d_pendingEmsg := d_pendingEmsg d1 @ [?e]\<rparr>"
    have hb: "handleBox srt uj ''emsg'' p d1 = (None, ?d)"
      using emsg_box(2) [OF ok, of eid] by (simp add: handleBox_def p_def)
    have step: "ReadPacket srt uj d = ReadPacket srt uj ?d"
      using Cons.prems(3) r(1) hb by (subst ReadPacket.simps) simp
    have "\<exists>d'. ReadPacket srt uj ?d = ReadPacket srt uj d' \<and> reader_at d' rest \<and>
       d' = (advance ?d (length (emsgRun (eid + 1) ss)))\<lparr>d_pendingEmsg := d_pendingEmsg ?d @ emsgEntries (eid + 1) ss\<rparr>"
      using Cons.prems(2,3) r(2) by (intro Cons.IH) (simp_all add: d1_def advance_def)
    moreover have "length (buildEmsg (sm_presentationTimeMS s) eid (sm_extra s)) = 8 + length p"
      using emsg_box(1) [OF ok, of eid] by (simp add: buildEmsg_payload p_def length_makeBox box_ok_def)
    ultimately show ?thesis
      using False by (simp add: step advance_def d1_def add.assoc)
  qed
qed

subsection \<open>One fragment\<close>

lemma expectedSamples_bounds:
  "s \<in> set (expectedSamples td hv dts mo ss) \<Longrightarrow> 0 \<le> rs_mdatOff s \<and> rs_mdatOff s + int (rs_size s) \<le> int (mo + sizeTotal ss)"
  by (induction ss arbitrary: dts mo) force+

lemma expectedFragment_bounds:
  "s \<in> set (expectedFragment tracks mo active) \<Longrightarrow> 0 \<le> rs_mdatOff s \<and> rs_mdatOff s + int (rs_size s) \<le> int (mo + mediaSize active)"
  by (induction active arbitrary: mo) (force dest: expectedSamples_bounds)+

lemma fragment_no_panic:
  assumes "fragment_ok tracks active"
  shows "\<not> list_ex (samplePanics tracks mdat) (expectedFragment tracks 0 active)"
proof -
  have "\<not> samplePanics tracks mdat s" if "s \<in> set (expectedFragment tracks 0 active)" for s
  proof -
    have "0 \<le> rs_mdatOff s" "rs_mdatOff s + int (rs_size s) < 2 ^ 31"
      using expectedFragment_bounds [OF that] assms by (auto simp: fragment_ok_def)
    then have "wrap64 (rs_mdatOff s + int (rs_size s)) = rs_mdatOff s + int (rs_size s)"
      by (intro wrap64_id) (simp add: in64_def)
    then show ?thesis
      by (simp add: samplePanics_def)
  qed
  then show ?thesis
    by (auto simp: list_ex_iff)
qed

lemma moof_box:
  assumes "moofSize active < 2 ^ 31"
  shows "\<exists>p. buildMoof active seqNum (dataOffsets active) = makeBox ''moof'' p \<and> box_ok ''moof'' p \<and>
    8 + length p = moofSize active \<and> drop 8 (buildMoof active seqNum (dataOffsets active)) = p"
proof -
  define p where "p = buildMfhd seqNum @ concat (map (\<lambda>(ts, off). buildTraf ts off) (zip active (dataOffsets active)))"
  have b: "buildMoof active seqNum (dataOffsets active) = makeBox ''moof'' p"
    by (simp add: buildMoof_def p_def)
  have lp: "8 + length p = moofSize active"
    using assms by (simp add: p_def length_trafs moofSize_def buildMfhd_def length_makeFullBox)
  then have ok: "box_ok ''moof'' p"
    using assms by (simp add: box_ok_def)
  then show ?thesis
    using lp b by (simp add: makeBox_layout [OF ok])
qed

text \<open>What reading the fragment \<open>f\<close> yields when the event messages \<open>es\<close> precede it, and with its own messages.\<close>

definition fragPacketsWith :: "(packet list \<Rightarrow> packet list) \<Rightarrow> (bytes \<Rightarrow> frame_analytics option) \<Rightarrow> tracksByID \<Rightarrow>
    emsgEntry list \<Rightarrow> fragment \<Rightarrow> packet list" where
  "fragPacketsWith srt uj tracks es f =
    map (attachAnalytics uj es) (srt (concat (map (trackPackets tracks) (fragActive f))))"

definition fragPackets :: "(packet list \<Rightarrow> packet list) \<Rightarrow> (bytes \<Rightarrow> frame_analytics option) \<Rightarrow> tracksByID \<Rightarrow> fragment \<Rightarrow> packet list" where
  "fragPackets srt uj tracks f = fragPacketsWith srt uj tracks (emsgEntries (fr_emsgID f) (fragSamples f)) f"

definition frag_ok :: "tracksByID \<Rightarrow> fragment \<Rightarrow> bool" where
  "frag_ok tracks f \<longleftrightarrow> fragment_ok tracks (fragActive f) \<and> (\<forall>s \<in> set (fragSamples f). emsg_ok s)"

lemma attachAnalytics_Nil [simp]: "attachAnalytics uj [] = id"
  by (rule ext) (simp add: attachAnalytics_def Let_def)

lemma ReadPacket_moof:
  assumes at: "reader_at d (fragMoofMdat f @ rest)" and ok: "frag_ok (d_tracksByID d) f"
    and idle: "d_pending d = []" "d_pendingCodecChange d = []"
  shows "\<exists>d'. ReadPacket srt uj d = ReadPacket srt uj d' \<and> reader_at d' rest \<and>
    d' = (advance d (length (fragMoofMdat f)))\<lparr>d_pendingEmsg := [], d_pending := fragPacketsWith srt uj (d_tracksByID d) (d_pendingEmsg d) f\<rparr>"
proof -
  let ?A = "fragActive f" and ?T = "d_tracksByID d"
  have fo: "fragment_ok ?T ?A"
    using ok by (simp add: frag_ok_def)
  then have all: "\<forall>ts \<in> set ?A. declared ?T ts \<and> track_ok ts" and sz: "moofSize ?A + 8 + mediaSize ?A < 2 ^ 31"
    by (simp_all add: fragment_ok_def)
  have ms: "moofSize ?A < 2 ^ 31"
    using sz by simp
  obtain p where p: "buildMoof ?A (fr_seq f) (dataOffsets ?A) = makeBox ''moof'' p" "box_ok ''moof'' p"
      "8 + length p = moofSize ?A" "drop 8 (buildMoof ?A (fr_seq f) (dataOffsets ?A)) = p"
    using moof_box [OF ms, of "fr_seq f"] by blast
  define q where "q = mdatPayload ?A"
  have lq: "length q = mediaSize ?A"
    using all by (simp add: q_def mediaSize_data)
  have q: "buildMdat ?A = makeBox ''mdat'' q" "box_ok ''mdat'' q"
    using sz lq by (simp_all add: buildMdat_def q_def mdatPayload_def box_ok_def)
  have at1: "reader_at d (makeBox ''moof'' p @ makeBox ''mdat'' q @ rest)"
    using at by (simp add: fragMoofMdat_def p(1) q(1))
  define d1 where "d1 = advance d (8 + length p)"
  define d2 where "d2 = advance d1 (8 + length q)"
  note r1 = readBox_at [OF at1 p(2), folded d1_def]
  note r2 = readBox_at [OF r1(2) q(2), folded d2_def]
  have pos: "0 \<le> d_pos d" "d_pos d < 2 ^ 62" "in64 (d_pos d)"
    using at by (auto simp: reader_at_def in64_def)
  have start: "wrap64 (d_pos d1 - (8 + int (length p))) = d_pos d"
    using pos(3) by (simp add: d1_def advance_def wrap64_id)
  have T1: "d_tracksByID d1 = ?T"
    by (simp add: d1_def advance_def)
  have "length (buildMoof ?A (fr_seq f) (dataOffsets ?A)) = 8 + length p"
    using p by (simp add: length_makeBox box_ok_def)
  then have pm: "parseMoof ?T p (d_pos d) (8 + int (length p)) = (Some (expectedFragment ?T 0 ?A), ?T)"
    using parseMoof_fragment [OF fo pos(1,2), of "fr_seq f"] by (simp add: p(4))
  have pk: "fragmentPackets ?T q (expectedFragment ?T 0 ?A) = concat (map (trackPackets ?T) ?A)"
    using all sz lq by (intro fragmentPackets_fragment [where post = "[]"]) (simp_all add: q_def)
  have upd: "d1\<lparr>d_tracksByID := ?T\<rparr> = d1"
    by (simp add: d1_def advance_def)
  have mm: "parseMoofMdat srt d1 p (d_pos d) (8 + int (length p)) = (Inr (srt (concat (map (trackPackets ?T) ?A))), d2)"
    using r2(1) fragment_no_panic [OF fo] by (simp add: parseMoofMdat_def T1 pm upd pk)
  have hb: "handleBox srt uj ''moof'' p d1 = (None, d2\<lparr>d_pendingEmsg := [], d_pending := fragPacketsWith srt uj ?T (d_pendingEmsg d) f\<rparr>)"
    using mm idle start
    by (cases "d_pendingEmsg d = []")
      (simp_all add: handleBox_def d2_def d1_def advance_def attachCodecs_def fragPacketsWith_def Let_def)
  have len: "length (fragMoofMdat f) = 8 + length p + (8 + length q)"
    using p(2) q(2) by (simp add: fragMoofMdat_def p(1) q(1) length_makeBox box_ok_def)
  have "ReadPacket srt uj d = ReadPacket srt uj (d2\<lparr>d_pendingEmsg := [], d_pending := fragPacketsWith srt uj ?T (d_pendingEmsg d) f\<rparr>)"
    using idle r1(1) hb by (subst ReadPacket.simps) simp
  then show ?thesis
    using r2(2) by (intro exI [of _ "d2\<lparr>d_pendingEmsg := [], d_pending := fragPacketsWith srt uj ?T (d_pendingEmsg d) f\<rparr>"])
      (simp add: len d2_def d1_def advance_def add.assoc)
qed

lemma ReadPacket_fragment:
  assumes at: "reader_at d (fragBytes f @ rest)" and ok: "frag_ok (d_tracksByID d) f"
    and idle: "d_pending d = []" "d_pendingCodecChange d = []" "d_pendingEmsg d = []"
  shows "\<exists>d'. ReadPacket srt uj d = ReadPacket srt uj d' \<and> reader_at d' rest \<and>
    d' = (advance d (length (fragBytes f)))\<lparr>d_pending := fragPackets srt uj (d_tracksByID d) f\<rparr>"
proof -
  have at1: "reader_at d (emsgRun (fr_emsgID f) (fragSamples f) @ fragMoofMdat f @ rest)"
    using at by (simp add: fragBytes_def fr_emsgs_run)
  have em: "\<forall>s \<in> set (fragSamples f). emsg_ok s"
    using ok by (simp add: frag_ok_def)
  obtain d1 where d1: "ReadPacket srt uj d = ReadPacket srt uj d1" "reader_at d1 (fragMoofMdat f @ rest)"
    "d1 = (advance d (length (emsgRun (fr_emsgID f) (fragSamples f))))\<lparr>d_pendingEmsg :=
        d_pendingEmsg d @ emsgEntries (fr_emsgID f) (fragSamples f)\<rparr>"
    using ReadPacket_emsgs [OF at1 em idle(1), of srt uj] by blast
  have keep: "d_tracksByID d1 = d_tracksByID d" "d_pending d1 = []" "d_pendingCodecChange d1 = []"
    "d_pendingEmsg d1 = emsgEntries (fr_emsgID f) (fragSamples f)"
    using idle by (simp_all add: d1(3) advance_def)
  have "\<exists>d'. ReadPacket srt uj d1 = ReadPacket srt uj d' \<and> reader_at d' rest \<and>
    d' = (advance d1 (length (fragMoofMdat f)))\<lparr>d_pendingEmsg := [], d_pending := fragPackets srt uj (d_tracksByID d1) f\<rparr>"
    using ReadPacket_moof [OF d1(2), of srt uj] ok keep by (simp add: fragPackets_def)
  moreover have "d\<lparr>d_off := a, d_pos := b, d_pendingEmsg := [], d_pending := c\<rparr> = d\<lparr>d_off := a, d_pos := b, d_pending := c\<rparr>"
    for a b c
    using idle(3) by (cases d) simp
  ultimately show ?thesis
    using idle by (simp add: d1 keep(1) advance_def fragBytes_def fr_emsgs_run add.assoc)
qed

subsection \<open>A whole file\<close>

text \<open>Up to \<open>n\<close> calls of \<^verbatim>\<open>ReadPacket\<close>, as the documented loop makes them, until the first error.\<close>

fun drain :: "(packet list \<Rightarrow> packet list) \<Rightarrow> (bytes \<Rightarrow> frame_analytics option) \<Rightarrow> nat \<Rightarrow> Demuxer \<Rightarrow>
    packet list \<times> demux_error option" where
  "drain srt uj 0 d = ([], None)"
| "drain srt uj (Suc n) d =
    (case ReadPacket srt uj d of
       (Inl e, d') \<Rightarrow> ([], Some e)
     | (Inr pkt, d') \<Rightarrow> (let (pkts, e) = drain srt uj n d' in (pkt # pkts, e)))"

lemma drain_cong: "ReadPacket srt uj d = ReadPacket srt uj d' \<Longrightarrow> drain srt uj n d = drain srt uj n d'"
  by (cases n) simp_all

lemma drain_pending:
  "d_pending d = pkts \<Longrightarrow> drain srt uj (length pkts + n) d =
   (let (rest, e) = drain srt uj n (d\<lparr>d_pending := []\<rparr>) in (pkts @ rest, e))"
proof (induction pkts arbitrary: d)
  case Nil
  then have "d\<lparr>d_pending := []\<rparr> = d"
    by simp
  then show ?case
    by simp
next
  case (Cons p pkts)
  have "ReadPacket srt uj d = (Inr p, d\<lparr>d_pending := pkts\<rparr>)"
    using Cons.prems by (subst ReadPacket.simps) simp
  then show ?case
    using Cons.IH [of "d\<lparr>d_pending := pkts\<rparr>"] by (simp add: case_prod_beta Let_def)
qed

text \<open>
  What lies behind the fragments: bytes that yield no packet and on which reading ends with \<open>e\<close>.
\<close>

definition ends :: "(packet list \<Rightarrow> packet list) \<Rightarrow> (bytes \<Rightarrow> frame_analytics option) \<Rightarrow> demux_error \<Rightarrow> bytes \<Rightarrow> bool" where
  "ends srt uj e rest \<longleftrightarrow> (\<forall>d. reader_at d rest \<longrightarrow> d_pending d = [] \<longrightarrow> (\<exists>d'. ReadPacket srt uj d = (Inl e, d')))"

lemma ends_Nil: "ends srt uj DEOF []"
  unfolding ends_def
proof (intro allI impI)
  fix d
  assume at: "reader_at d []" and "d_pending d = []"
  obtain d' where "readBox d = (Inl DEOF, d')"
    using readBox_end [OF at] by blast
  then show "\<exists>d'. ReadPacket srt uj d = (Inl DEOF, d')"
    using \<open>d_pending d = []\<close> by (subst ReadPacket.simps) simp
qed

lemma ends_short: "0 < length rest \<Longrightarrow> length rest < 8 \<Longrightarrow> ends srt uj DUnexpectedEOF rest"
  unfolding ends_def
proof (intro allI impI)
  fix d
  assume len: "0 < length rest" "length rest < 8" and at: "reader_at d rest" and "d_pending d = []"
  have "length (d_file d) - d_off d = length rest"
    using at by (metis length_drop reader_at_def)
  then obtain d' where "readBox d = (Inl DUnexpectedEOF, d')"
    using len by (simp add: readBox_def readFull_def Let_def)
  then show "\<exists>d'. ReadPacket srt uj d = (Inl DUnexpectedEOF, d')"
    using \<open>d_pending d = []\<close> by (subst ReadPacket.simps) simp
qed

lemma ends_box:
  assumes "ends srt uj e rest" and "box_ok typ p" and "typ \<notin> {''moof'', ''moov'', ''emsg''}"
  shows "ends srt uj e (makeBox typ p @ rest)"
  unfolding ends_def
proof (intro allI impI)
  fix d
  assume at: "reader_at d (makeBox typ p @ rest)" and pend: "d_pending d = []"
  note r = readBox_at [OF at assms(2)]
  let ?d = "advance d (8 + length p)"
  have "handleBox srt uj typ p ?d = (None, ?d\<lparr>d_sidx :=
      (if typ = ''sidx'' then (case ParseSidx p (d_mediaStartPos ?d) of None \<Rightarrow> d_sidx ?d | Some es \<Rightarrow> es) else d_sidx ?d)\<rparr>)"
    using assms(3) by (simp add: handleBox_def split: option.split)
  then obtain sx where h: "handleBox srt uj typ p ?d = (None, ?d\<lparr>d_sidx := sx\<rparr>)"
    by blast
  have "ReadPacket srt uj d = ReadPacket srt uj (?d\<lparr>d_sidx := sx\<rparr>)"
    using pend r(1) h by (subst ReadPacket.simps) simp
  moreover have "reader_at (?d\<lparr>d_sidx := sx\<rparr>) rest" "d_pending (?d\<lparr>d_sidx := sx\<rparr>) = []"
    using r(2) pend by (simp_all add: advance_def reader_at_def)
  ultimately show "\<exists>d'. ReadPacket srt uj d = (Inl e, d')"
    using assms(1) unfolding ends_def by metis
qed

lemma drain_fragments_tail:
  assumes "reader_at d (concat (map fragBytes frags) @ rest)" and "\<forall>f \<in> set frags. frag_ok (d_tracksByID d) f"
    and "d_pending d = []" "d_pendingCodecChange d = []" "d_pendingEmsg d = []" and tail: "ends srt uj e rest"
  shows "drain srt uj (Suc (length (concat (map (fragPackets srt uj (d_tracksByID d)) frags)))) d =
    (concat (map (fragPackets srt uj (d_tracksByID d)) frags), Some e)"
  using assms(1-5)
proof (induction frags arbitrary: d)
  case Nil
  then obtain d' where "ReadPacket srt uj d = (Inl e, d')"
    using tail by (auto simp: ends_def)
  then show ?case
    by simp
next
  case (Cons f frags)
  let ?P = "fragPackets srt uj (d_tracksByID d)"
  let ?n = "Suc (length (concat (map ?P frags)))"
  have at: "reader_at d (fragBytes f @ concat (map fragBytes frags) @ rest)" and ok: "frag_ok (d_tracksByID d) f"
    using Cons.prems by simp_all
  obtain d1 where d1: "ReadPacket srt uj d = ReadPacket srt uj d1" "reader_at d1 (concat (map fragBytes frags) @ rest)"
    "d1 = (advance d (length (fragBytes f)))\<lparr>d_pending := ?P f\<rparr>"
    using ReadPacket_fragment [OF at ok Cons.prems(3-5), of srt uj] by blast
  let ?d = "d1\<lparr>d_pending := []\<rparr>"
  have T: "d_tracksByID ?d = d_tracksByID d"
    by (simp add: d1(3) advance_def)
  have "drain srt uj ?n ?d = (concat (map ?P frags), Some e)"
    using Cons.IH [of ?d] Cons.prems d1(2) T by (simp add: d1(3) advance_def)
  then have "drain srt uj (length (?P f) + ?n) d1 = (?P f @ concat (map ?P frags), Some e)"
    using drain_pending [of d1 "?P f" srt uj ?n] by (simp add: d1(3))
  then show ?case
    by (simp add: d1(1))
qed

lemma drain_fragments:
  assumes "reader_at d (concat (map fragBytes frags))" and "\<forall>f \<in> set frags. frag_ok (d_tracksByID d) f"
    and "d_pending d = []" "d_pendingCodecChange d = []" "d_pendingEmsg d = []"
  shows "drain srt uj (Suc (length (concat (map (fragPackets srt uj (d_tracksByID d)) frags)))) d =
    (concat (map (fragPackets srt uj (d_tracksByID d)) frags), Some DEOF)"
  using drain_fragments_tail [of d frags "[]"] assms ends_Nil by simp

subsection \<open>The tracks of a session\<close>

lemma addTracks_tracks:
  "map ts_codec (m_tracks (addTracks m n ss)) = map ts_codec (m_tracks m) @ map s_Codec (filter supported ss)"
  "map ts_id (m_tracks (addTracks m n ss)) = map ts_id (m_tracks m) @ map (\<lambda>i. n + of_nat i) [0..<length (filter supported ss)]"
proof -
  have ts: "ts_codec ts = s_Codec s \<and> ts_id ts = n" if "newTrackState s n = Some ts" for s n ts
    using that by (auto simp: newTrackState_def Let_def split: codec_data.splits)
  have no: "newTrackState s n = None \<longleftrightarrow> \<not> supported s" for s n
    by (auto simp: newTrackState_def supported_def Let_def split: codec_data.splits)
  have sup: "newTrackState s n = Some t \<Longrightarrow> supported s" for s n t
    using no [of s n] by simp
  show "map ts_codec (m_tracks (addTracks m n ss)) = map ts_codec (m_tracks m) @ map s_Codec (filter supported ss)"
    by (induction ss arbitrary: m n) (auto split: option.splits simp: ts dest: no [THEN iffD1] sup)
  have shift: "map (\<lambda>i. n + of_nat i) [0..<Suc k] = n # map (\<lambda>i. (n + 1) + of_nat i) [0..<k]" for n :: u32 and k
    by (simp add: upt_conv_Cons map_Suc_upt [symmetric] del: upt_Suc)
  show "map ts_id (m_tracks (addTracks m n ss)) = map ts_id (m_tracks m) @ map (\<lambda>i. n + of_nat i) [0..<length (filter supported ss)]"
  proof (induction ss arbitrary: m n)
    case (Cons s ss)
    show ?case
    proof (cases "newTrackState s n")
      case None
      then show ?thesis
        using Cons.IH [of m n] no [of s n] by simp
    next
      case (Some t)
      then have "supported s"
        using no [of s n] by simp
      then show ?thesis
        using Some ts [OF Some] shift [of n "length (filter supported ss)"] Cons.IH by (simp add: add.assoc)
    qed
  qed simp
qed

lemma addTracks_video:
  "\<forall>ts \<in> set (m_tracks m). ts_hasVideo ts = isVideoCodec (ts_codec ts) \<Longrightarrow>
   \<forall>ts \<in> set (m_tracks (addTracks m n ss)). ts_hasVideo ts = isVideoCodec (ts_codec ts)"
proof (induction ss arbitrary: m n)
  case (Cons s ss)
  have "ts_hasVideo ts = isVideoCodec (ts_codec ts)" if "newTrackState s n = Some ts" for ts
    using that by (auto simp: newTrackState_def Let_def split: codec_data.splits)
  then show ?case
    using Cons.prems by (auto split: option.splits intro!: Cons.IH)
qed simp

lemma WriteHeader_tracks:
  assumes "WriteHeader (NewMuxer w) streams = Some (None, m0)" and "w_out w = []"
  shows "buildInitSegment (m_tracks m0) = Some (w_out (m_w m0))"
    and "map ts_codec (m_tracks m0) = map s_Codec (filter supported streams)"
    and "length streams \<le> 1000 \<Longrightarrow> distinct (map ts_id (m_tracks m0))"
    and "\<forall>ts \<in> set (m_tracks m0). ts_hasVideo ts = isVideoCodec (ts_codec ts)"
proof -
  let ?m1 = "addTracks (NewMuxer w) 1 streams"
  obtain init m2 where i: "buildInitSegment (m_tracks ?m1) = Some init" and e: "emit ?m1 init = (True, m2)"
    and m: "m0 = m2\<lparr>m_mediaStartPos := m_bytesWritten m2, m_written := True, m_waitingForKeyframe := hasVideoTracks m2\<rparr>"
    using assms(1) by (auto simp: WriteHeader_def NewMuxer_def Let_def split: if_splits bind_splits prod.splits bool.splits)
  have tr: "m_tracks m0 = m_tracks ?m1" and out: "w_out (m_w m0) = init"
    using emit_True [OF e] m assms(2) addTracks_frame [of "NewMuxer w" 1 streams] by (auto simp: NewMuxer_def)
  show "buildInitSegment (m_tracks m0) = Some (w_out (m_w m0))"
    by (simp add: tr out i)
  have nil: "m_tracks (NewMuxer w) = []"
    by (simp add: NewMuxer_def)
  show "map ts_codec (m_tracks m0) = map s_Codec (filter supported streams)"
    by (simp add: tr addTracks_tracks nil)
  show "\<forall>ts \<in> set (m_tracks m0). ts_hasVideo ts = isVideoCodec (ts_codec ts)"
    unfolding tr by (rule addTracks_video) (simp add: nil)
  assume "length streams \<le> 1000"
  then have n: "length (filter supported streams) \<le> 1000"
    by (meson length_filter_le order_trans)
  have "inj_on (\<lambda>i. 1 + of_nat i :: u32) {0..<length (filter supported streams)}"
  proof (rule inj_onI)
    fix x y
    assume "x \<in> {0..<length (filter supported streams)}" "y \<in> {0..<length (filter supported streams)}"
      "(1 + of_nat x :: u32) = 1 + of_nat y"
    then have "unat (of_nat x :: u32) = unat (of_nat y :: u32)" "x < 2 ^ 32" "y < 2 ^ 32"
      using n by simp_all
    then show "x = y"
      by (simp add: unat_of_nat_u32)
  qed
  then show "distinct (map ts_id (m_tracks m0))"
    by (simp add: tr addTracks_tracks nil distinct_map)
qed

lemma trackTable_nth:
  assumes "distinct (map td_id ts)" and "k < length ts"
  shows "trackTable ts (td_id (ts ! k)) = Some (ts ! k)"
proof -
  have upd: "foldl (\<lambda>m t. m(td_id t \<mapsto> t)) m ts = m ++ map_of (rev (map (\<lambda>t. (td_id t, t)) ts))" for m ts
    by (induction ts arbitrary: m) (simp_all add: map_add_assoc)
  have "distinct (map fst (rev (map (\<lambda>t. (td_id t, t)) ts)))"
    using assms(1) by (simp add: rev_map [symmetric] comp_def)
  then have "map_of (rev (map (\<lambda>t. (td_id t, t)) ts)) (td_id (ts ! k)) = Some (ts ! k)"
    using assms(2) by (intro map_of_is_SomeI) auto
  then show ?thesis
    by (simp add: trackTable_def upd)
qed

lemma numberTracks_nth: "k < length ts \<Longrightarrow> numberTracks i ts ! k = (ts ! k)\<lparr>td_streamIdx := of_nat (i + k)\<rparr>"
  by (induction i ts arbitrary: k rule: numberTracks.induct) (auto simp: nth_Cons' gr0_conv_Suc)

lemma length_numberTracks [simp]: "length (numberTracks i ts) = length ts"
  by (induction i ts rule: numberTracks.induct) simp_all

lemma ids_numberTracks: "map td_id (numberTracks i ts) = map td_id ts"
  by (induction i ts rule: numberTracks.induct) simp_all

definition sessionTable :: "trackState list \<Rightarrow> tracksByID" where
  "sessionTable tracks = trackTable (numberTracks 0 (map trackDefOf tracks))"

lemma sessionTable_nth:
  assumes "distinct (map ts_id tracks)" and "k < length tracks"
  shows "sessionTable tracks (ts_id (tracks ! k)) = Some ((trackDefOf (tracks ! k))\<lparr>td_streamIdx := of_nat k\<rparr>)"
  using trackTable_nth [of "numberTracks 0 (map trackDefOf tracks)" k] assms
  by (simp add: sessionTable_def ids_numberTracks comp_def numberTracks_nth) (simp add: trackDefOf_def)

subsection \<open>The fragments of a session\<close>

text \<open>What a sample inherits from its packet, whatever its duration is.\<close>

definition sample_ok :: "sample \<Rightarrow> bool" where
  "sample_ok s \<longleftrightarrow> in32 (sm_ptsOffset s) \<and> sm_size s = of_nat (length (sm_data s)) \<and> length (sm_data s) < 2 ^ 31 \<and> emsg_ok s"

definition sampleWeight :: "sample \<Rightarrow> nat" where
  "sampleWeight s = 16 + length (sm_data s)"

definition session_ok :: "(frame_analytics \<Rightarrow> bytes option) \<Rightarrow> stream list \<Rightarrow> packet list \<Rightarrow> bool" where
  "session_ok js streams pkts \<longleftrightarrow>
    (\<forall>s \<in> set (filter supported streams). codec_stable (s_Codec s)) \<and> length streams \<le> 1000 \<and>
    sum_list (map (\<lambda>p. 16 + length (Data p)) pkts) < 2 ^ 30 \<and>
    (\<forall>p \<in> set pkts. \<forall>a b. Analytics p = Some a \<longrightarrow> js a = Some b \<longrightarrow> length b < 2 ^ 31)"

lemma sampleKey_facts [simp]:
  "sample_ok (sampleKey s) = sample_ok s" "sampleWeight (sampleKey s) = sampleWeight s" "sm_data (sampleKey s) = sm_data s"
  "sm_flags (sampleKey s) = sm_flags s" "emsg_ok (sampleKey s) = emsg_ok s"
  by (simp_all add: sample_ok_def sampleWeight_def sampleKey_def emsg_ok_def)

lemma in32_wrap32: "in32 (wrap32 x)"
  using signed_take_bit_int_greater_eq_minus_exp [of 31 x] signed_take_bit_int_less_exp [of 31 x]
  by (simp add: wrap32_def in32_def)

lemma makeSample_ok:
  assumes "length (Data p) < 2 ^ 31" and "\<And>a b. Analytics p = Some a \<Longrightarrow> js a = Some b \<Longrightarrow> length b < 2 ^ 31"
  shows "sample_ok (makeSample js p ts)"
proof -
  have "\<bar>wrap64 (DTS p + PTSOffset p)\<bar> \<le> 2 ^ 63"
    using in64_wrap64 [of "DTS p + PTSOffset p"] by (simp add: in64_def abs_le_iff)
  then have "\<bar>wrap64 (DTS p + PTSOffset p)\<bar> div millisecond \<le> 2 ^ 63 div millisecond"
    by (intro zdiv_mono1) (simp_all add: millisecond_def)
  then have "\<bar>sm_presentationTimeMS (makeSample js p ts)\<bar> < 2 ^ 44"
    by (simp add: makeSample_def abs_go_quot millisecond_def)
  moreover have "length (sm_extra (makeSample js p ts)) < 2 ^ 31"
    using assms(2) by (auto simp: makeSample_def split: option.splits)
  moreover have "in32 (sm_ptsOffset (makeSample js p ts))"
    using in32_wrap32 by (simp add: makeSample_def in32_def)
  ultimately show ?thesis
    using assms(1) by (simp add: sample_ok_def emsg_ok_def) (simp add: makeSample_def)
qed

lemma acceptedFrom_ok:
  assumes "\<forall>p \<in> set pkts. length (Data p) < 2 ^ 31"
    and "\<forall>p \<in> set pkts. \<forall>a b. Analytics p = Some a \<longrightarrow> js a = Some b \<longrightarrow> length b < 2 ^ 31"
  shows "(\<forall>(k, s) \<in> set (acceptedFrom js tm info w off pkts). sample_ok s) \<and>
    sum_list (map (\<lambda>x. sampleWeight (snd x)) (acceptedFrom js tm info w off pkts)) \<le> sum_list (map (\<lambda>p. 16 + length (Data p)) pkts)"
  using assms
proof (induction pkts arbitrary: w off)
  case (Cons p ps)
  have ok: "sample_ok (packetKey js ts (p\<lparr>DTS := t\<rparr>))" for ts t
    using Cons.prems by (auto simp: packetKey_def intro!: makeSample_ok)
  have w: "sampleWeight (packetKey js ts (p\<lparr>DTS := t\<rparr>)) = 16 + length (Data p)" for ts t
    by (simp add: packetKey_def) (simp add: sampleWeight_def makeSample_def)
  have IH: "(\<forall>(k, s) \<in> set (acceptedFrom js tm info w off ps). sample_ok s) \<and>
    sum_list (map (\<lambda>x. sampleWeight (snd x)) (acceptedFrom js tm info w off ps)) \<le> sum_list (map (\<lambda>p. 16 + length (Data p)) ps)" for w off
    using Cons.prems by (intro Cons.IH) simp_all
  show ?case
    using IH [of w off] IH [of False]
    by (cases "tm (Idx p)") (auto simp: Let_def ok w trans_le_add2)
qed simp

lemma sum_accepted_le: "(\<Sum>k<n. sum_list (map g (accepted k acc))) \<le> sum_list (map (\<lambda>x. g (snd x)) acc)" for g :: "sample \<Rightarrow> nat"
proof (induction acc)
  case (Cons x acc)
  have "sum_list (map g (accepted k (x # acc))) = (if fst x = k then g (snd x) else 0) + sum_list (map g (accepted k acc))" for k
    by (cases x) (simp add: accepted_def)
  then have "(\<Sum>k<n. sum_list (map g (accepted k (x # acc)))) =
      (\<Sum>k<n. (if fst x = k then g (snd x) else 0)) + (\<Sum>k<n. sum_list (map g (accepted k acc)))"
    by (simp add: sum.distrib)
  also have "(\<Sum>k<n. (if fst x = k then g (snd x) else 0)) \<le> g (snd x)"
    by (simp add: sum.delta)
  finally show ?case
    using Cons.IH by simp
qed (simp add: accepted_def)

lemma accepted_ok: "\<forall>(k, s) \<in> set acc. P s \<Longrightarrow> \<forall>s \<in> set (accepted k acc). P s"
  by (auto simp: accepted_def)

lemma sum_list_filter_le: "sum_list (map g (filter P xs)) \<le> sum_list (map g xs)" for g :: "'a \<Rightarrow> nat"
  by (induction xs) simp_all

lemma sum_list_map_concat: "sum_list (map g (concat xss)) = (\<Sum>xs \<leftarrow> xss. sum_list (map g xs))" for g :: "'a \<Rightarrow> nat"
  by (induction xss) simp_all

lemma trackInfo_fields: "ts_id (trackInfo ts) = ts_id ts" "ts_hasVideo (trackInfo ts) = ts_hasVideo ts"
  by (simp_all add: trackInfo_def)

lemma ledger_fragment:
  assumes "ledger init info frags acc m" and "f \<in> set frags"
  shows "map trackInfo (fr_tracks f) = info" and "length (fr_tracks f) = length info" and "\<forall>ts \<in> set (fr_tracks f). timed ts"
proof -
  show "map trackInfo (fr_tracks f) = info" "\<forall>ts \<in> set (fr_tracks f). timed ts"
    using assms by (simp_all add: ledger_def)
  then show "length (fr_tracks f) = length info"
    using length_map [of trackInfo "fr_tracks f"] by simp
qed

text \<open>What the samples of the fragments weigh, all accepted packets weigh together.\<close>

lemma session_weight:
  fixes g :: "sample \<Rightarrow> nat"
  assumes led: "ledger init info frags acc m" and dr: "\<not> hasAnySamples m" and key: "\<And>s. g (sampleKey s) = g s"
  shows "(\<Sum>f \<leftarrow> frags. \<Sum>ts \<leftarrow> fragActive f. sum_list (map g (ts_samples ts))) \<le> sum_list (map (\<lambda>x. g (snd x)) acc)"
proof -
  let ?G = "\<lambda>f k. sum_list (map g (trackKeys k (fr_tracks f)))" and ?n = "length info"
  have one: "(\<Sum>ts \<leftarrow> fragActive f. sum_list (map g (ts_samples ts))) \<le> (\<Sum>k < ?n. ?G f k)" if "f \<in> set frags" for f
  proof -
    have "(\<Sum>ts \<leftarrow> fragActive f. sum_list (map g (ts_samples ts))) \<le> (\<Sum>ts \<leftarrow> fr_tracks f. sum_list (map g (ts_samples ts)))"
      unfolding fragActive_def by (rule sum_list_filter_le)
    also have "\<dots> = (\<Sum>k < ?n. sum_list (map g (ts_samples (fr_tracks f ! k))))"
      by (simp add: sum_list_sum_nth ledger_fragment(2) [OF led that] atLeast0LessThan)
    finally show ?thesis
      by (simp add: trackKeys_def comp_def key)
  qed
  have swap: "(\<Sum>f \<leftarrow> fs. \<Sum>k < ?n. ?G f k) = (\<Sum>k < ?n. \<Sum>f \<leftarrow> fs. ?G f k)" for fs
    by (induction fs) (simp_all add: sum.distrib)
  have "(\<Sum>f \<leftarrow> frags. \<Sum>ts \<leftarrow> fragActive f. sum_list (map g (ts_samples ts))) \<le> (\<Sum>f \<leftarrow> frags. \<Sum>k < ?n. ?G f k)"
    using one by (intro sum_list_mono) simp
  also have "\<dots> = (\<Sum>k < ?n. sum_list (map g (accepted k acc)))"
    unfolding swap by (intro sum.cong refl)
      (simp add: ledger_drained [OF led dr, symmetric] sum_list_map_concat comp_def)
  also have "\<dots> \<le> sum_list (map (\<lambda>x. g (snd x)) acc)"
    by (rule sum_accepted_le)
  finally show ?thesis .
qed

lemma fragment_weight:
  assumes led: "ledger init info frags acc m" and dr: "\<not> hasAnySamples m" and f: "f \<in> set frags"
  shows "(\<Sum>ts \<leftarrow> fragActive f. sum_list (map sampleWeight (ts_samples ts))) \<le> sum_list (map (\<lambda>x. sampleWeight (snd x)) acc)"
proof -
  have "(\<Sum>ts \<leftarrow> fragActive f. sum_list (map sampleWeight (ts_samples ts))) \<le>
      (\<Sum>f \<leftarrow> frags. \<Sum>ts \<leftarrow> fragActive f. sum_list (map sampleWeight (ts_samples ts)))"
    using f by (intro member_le_sum_list) auto
  also have "\<dots> \<le> sum_list (map (\<lambda>x. sampleWeight (snd x)) acc)"
    by (rule session_weight [OF led dr]) simp
  finally show ?thesis .
qed

lemma fragment_samples_ok:
  assumes led: "ledger init info frags acc m" and dr: "\<not> hasAnySamples m" and f: "f \<in> set frags"
    and ok: "\<forall>(k, s) \<in> set acc. P s" and key: "\<And>s. P (sampleKey s) = P s" and ts: "ts \<in> set (fr_tracks f)"
  shows "\<forall>s \<in> set (ts_samples ts). P s"
proof -
  have len: "length (fr_tracks f) = length info"
    by (rule ledger_fragment [OF led f])
  obtain k where k: "k < length info" "ts = fr_tracks f ! k"
    using ts len by (metis in_set_conv_nth)
  have "set (trackKeys k (fr_tracks f)) \<subseteq> set (accepted k acc)"
    unfolding ledger_drained [OF led dr k(1), symmetric] using f by auto
  then show ?thesis
    using accepted_ok [OF ok, of k] key by (auto simp: trackKeys_def k(2))
qed

lemma ticksTotal_bound: "ticksTotal ss \<le> int (length ss) * 2 ^ 32"
proof (induction ss)
  case (Cons s ss)
  have "uint (sm_duration s) < 2 ^ 32"
    using uint_lt2p [of "sm_duration s"] by simp
  then show ?case
    using Cons by simp
qed simp

lemma sizeTotal_ok: "\<forall>s \<in> set ss. sample_ok s \<Longrightarrow> sizeTotal ss + length ss * 16 = sum_list (map sampleWeight ss)"
proof (induction ss)
  case (Cons s ss)
  then have "unat (sm_size s) = length (sm_data s)"
    by (simp add: sample_ok_def unat_of_nat_u32)
  then show ?case
    using Cons by (simp add: sampleWeight_def)
qed simp

lemma fragment_size:
  assumes "\<forall>ts \<in> set active. \<forall>s \<in> set (ts_samples ts). sample_ok s"
  shows "sum_list (map trafSize active) + mediaSize active \<le>
    64 * length active + (\<Sum>ts \<leftarrow> active. sum_list (map sampleWeight (ts_samples ts)))"
  using assms
proof (induction active)
  case (Cons ts active)
  have "trafSize ts \<le> 64 + length (ts_samples ts) * 16"
    by (simp add: trafSize_def perSampleSize_def)
  then show ?case
    using Cons.IH Cons.prems sizeTotal_ok [of "ts_samples ts"] by simp
qed simp

lemma session_frag_ok:
  assumes led: "ledger init tracks frags acc m" and dr: "\<not> hasAnySamples m" and f: "f \<in> set frags"
    and ok: "\<forall>(k, s) \<in> set acc. sample_ok s" and w: "sum_list (map (\<lambda>x. sampleWeight (snd x)) acc) < 2 ^ 30"
    and n: "length tracks \<le> 1000" and ids: "distinct (map ts_id tracks)"
  shows "frag_ok (sessionTable tracks) f"
proof -
  note fr = ledger_fragment [OF led f]
  have sok: "\<forall>s \<in> set (ts_samples ts). sample_ok s" if "ts \<in> set (fr_tracks f)" for ts
    by (rule fragment_samples_ok [OF led dr f ok _ that]) simp
  have sub: "ts \<in> set (fr_tracks f)" if "ts \<in> set (fragActive f)" for ts
    using that by (simp add: fragActive_def)
  have weight: "(\<Sum>ts \<leftarrow> fragActive f. sum_list (map sampleWeight (ts_samples ts))) < 2 ^ 30"
    using fragment_weight [OF led dr f] w by simp
  have "declared (sessionTable tracks) ts \<and> track_ok ts" if ts: "ts \<in> set (fragActive f)" for ts
  proof
    obtain k where k: "k < length tracks" "ts = fr_tracks f ! k"
      using sub [OF ts] fr(2) by (metis in_set_conv_nth)
    then have "trackInfo ts = tracks ! k"
      using fr(1,2) by (metis nth_map)
    then have id: "ts_id ts = ts_id (tracks ! k)"
      by (metis trackInfo_fields(1))
    show "declared (sessionTable tracks) ts"
      using sessionTable_nth [OF ids k(1)] by (simp add: declared_def id) (simp add: trackDefOf_def)
    have "length (ts_samples ts) * 16 \<le> sum_list (map sampleWeight (ts_samples ts))"
      using sizeTotal_ok [OF sok [OF sub [OF ts]]] by simp
    also have "\<dots> \<le> (\<Sum>ts \<leftarrow> fragActive f. sum_list (map sampleWeight (ts_samples ts)))"
      using ts by (intro member_le_sum_list) auto
    finally have cnt: "int (length (ts_samples ts)) < 2 ^ 30"
      using weight by simp
    have "\<bar>ts_baseTime ts\<bar> \<le> 2 ^ 34"
      using fr(3) sub [OF ts] by (simp add: timed_def)
    then show "track_ok ts"
      using cnt ticksTotal_bound [of "ts_samples ts"] sok [OF sub [OF ts]]
      by (auto simp: track_ok_def sample_ok_def in64_def)
  qed
  moreover have "moofSize (fragActive f) + 8 + mediaSize (fragActive f) < 2 ^ 31"
  proof -
    have "length (fragActive f) \<le> 1000"
      using fr(2) n length_filter_le [of "\<lambda>ts. length (ts_samples ts) > 0" "fr_tracks f"] by (simp add: fragActive_def)
    moreover have "\<forall>ts \<in> set (fragActive f). \<forall>s \<in> set (ts_samples ts). sample_ok s"
      using sok sub by blast
    ultimately show ?thesis
      using fragment_size [of "fragActive f"] weight by (simp add: moofSize_def)
  qed
  moreover have "\<forall>s \<in> set (fragSamples f). emsg_ok s"
    using sok sub by (fastforce simp: fragSamples_def sample_ok_def)
  ultimately show ?thesis
    by (simp add: frag_ok_def fragment_ok_def)
qed

subsection \<open>No packet is lost or invented\<close>

lemma attachAnalytics_keep [simp]:
  "Idx (attachAnalytics uj es p) = Idx p" "Data (attachAnalytics uj es p) = Data p" "KeyFrame (attachAnalytics uj es p) = KeyFrame p"
  by (simp_all add: attachAnalytics_def Let_def split: option.splits)

lemma samplePackets_keep:
  "map (\<lambda>p. (Idx p, KeyFrame p, Data p)) (samplePackets td hv dts ss) =
   map (\<lambda>s. (td_streamIdx td, sampleIsKey (if hv then sm_flags s else td_defFlags td), sm_data s)) ss"
  by (induction ss arbitrary: dts) simp_all

text \<open>The sync flag and the data that stream \<open>k\<close> should carry for a sample.\<close>

definition payloadOf :: "trackState \<Rightarrow> sample \<Rightarrow> bool \<times> bytes" where
  "payloadOf ts s = (sampleIsKey (if ts_hasVideo ts then sm_flags s else 0), sm_data s)"

definition streamPayloads :: "nat \<Rightarrow> packet list \<Rightarrow> (bool \<times> bytes) multiset" where
  "streamPayloads k pkts = mset (map (\<lambda>p. (KeyFrame p, Data p)) (filter (\<lambda>p. Idx p = of_nat k) pkts))"

lemma streamPayloads_append [simp]: "streamPayloads k (xs @ ys) = streamPayloads k xs + streamPayloads k ys"
  "streamPayloads k [] = {#}"
  by (simp_all add: streamPayloads_def)

lemma streamPayloads_mset: "mset xs = mset ys \<Longrightarrow> streamPayloads k xs = streamPayloads k ys"
  by (simp add: streamPayloads_def)

lemma streamPayloads_attach: "streamPayloads k (map (attachAnalytics uj es) ps) = streamPayloads k ps"
  by (simp add: streamPayloads_def filter_map comp_def)

lemma streamPayloads_track:
  assumes "td_streamIdx td = of_nat j" and "j < 1000" and "k < 1000" and "td_defFlags td = 0"
  shows "streamPayloads k (samplePackets td hv dts ss) =
    (if j = k then mset (map (\<lambda>s. (sampleIsKey (if hv then sm_flags s else 0), sm_data s)) ss) else {#})"
proof -
  have inj: "(of_nat j :: u16) = of_nat k \<longleftrightarrow> j = k"
    using assms(2,3) by (simp add: word_eq_iff_unsigned [where ?'a = nat] unat_of_nat_u16)
  show ?thesis
    by (induction ss arbitrary: dts) (auto simp: streamPayloads_def assms(1,4) inj)
qed

lemma payloadOf_sampleKey [simp]: "payloadOf ts (sampleKey s) = payloadOf ts s"
  by (simp add: payloadOf_def)

lemma streamPayloads_tracks:
  assumes ids: "distinct (map ts_id tracks)" and n: "length tracks \<le> 1000" and k: "k < length tracks"
    and fr: "map trackInfo frtracks = map trackInfo tracks"
  shows "streamPayloads k (concat (map (trackPackets (sessionTable tracks)) (filter (\<lambda>ts. length (ts_samples ts) > 0) frtracks))) =
    mset (map (payloadOf (tracks ! k)) (trackKeys k frtracks))"
proof -
  let ?T = "sessionTable tracks"
  have len: "length frtracks = length tracks"
    using fr by (metis length_map)
  have drop_empty: "concat (map (trackPackets ?T) (filter (\<lambda>ts. length (ts_samples ts) > 0) xs)) = concat (map (trackPackets ?T) xs)" for xs
    by (induction xs) (simp_all add: trackPackets_def)
  have info: "ts_id (frtracks ! j) = ts_id (tracks ! j) \<and> ts_hasVideo (frtracks ! j) = ts_hasVideo (tracks ! j)" if "j < length tracks" for j
  proof -
    have "trackInfo (frtracks ! j) = trackInfo (tracks ! j)"
      using fr that len by (metis nth_map)
    then show ?thesis
      by (metis trackInfo_fields)
  qed
  have one: "streamPayloads k (trackPackets ?T (frtracks ! j)) =
      (if j = k then mset (map (payloadOf (tracks ! k)) (trackKeys k frtracks)) else {#})" if j: "j < length tracks" for j
  proof -
    have "streamPayloads k (trackPackets ?T (frtracks ! j)) =
        (if j = k then mset (map (\<lambda>s. (sampleIsKey (if ts_hasVideo (tracks ! j) then sm_flags s else 0), sm_data s)) (ts_samples (frtracks ! j))) else {#})"
      unfolding trackPackets_def using info [OF j] sessionTable_nth [OF ids j] j k n
      by (subst streamPayloads_track [of _ j]) (auto simp: trackDefOf_def)
    also have "\<dots> = (if j = k then mset (map (payloadOf (tracks ! k)) (trackKeys k frtracks)) else {#})"
      by (simp add: trackKeys_def comp_def payloadOf_def [abs_def] cong: if_cong)
    finally show ?thesis .
  qed
  have conc: "streamPayloads k (concat (map g xs)) = (\<Sum>x \<leftarrow> xs. streamPayloads k (g x))" for g :: "'z \<Rightarrow> packet list" and xs
    by (induction xs) simp_all
  have "(\<Sum>ts \<leftarrow> frtracks. streamPayloads k (trackPackets ?T ts)) = (\<Sum>j < length tracks. streamPayloads k (trackPackets ?T (frtracks ! j)))"
    by (simp add: sum_list_sum_nth len atLeast0LessThan)
  also have "\<dots> = (\<Sum>j < length tracks. if j = k then mset (map (payloadOf (tracks ! k)) (trackKeys k frtracks)) else {#})"
    by (intro sum.cong refl one) simp
  also have "\<dots> = mset (map (payloadOf (tracks ! k)) (trackKeys k frtracks))"
    using k by (simp add: sum.delta)
  finally show ?thesis
    unfolding drop_empty conc .
qed

lemma streamPayloads_fragment:
  assumes led: "ledger init tracks frags acc m" and f: "f \<in> set frags" and ids: "distinct (map ts_id tracks)"
    and n: "length tracks \<le> 1000" and k: "k < length tracks" and perm: "\<forall>ps. mset (srt ps) = mset ps"
    and info: "map trackInfo tracks = tracks"
  shows "streamPayloads k (fragPackets srt uj (sessionTable tracks) f) = mset (map (payloadOf (tracks ! k)) (trackKeys k (fr_tracks f)))"
proof -
  have "map trackInfo (fr_tracks f) = map trackInfo tracks"
    using ledger_fragment(1) [OF led f] info by simp
  note tr = streamPayloads_tracks [OF ids n k this]
  have "streamPayloads k (srt ps) = streamPayloads k ps" for ps
    using perm by (intro streamPayloads_mset) simp
  then show ?thesis
    unfolding fragPackets_def fragPacketsWith_def streamPayloads_attach fragActive_def by (simp only: tr)
qed

lemma streamPayloads_session:
  assumes led: "ledger init tracks frags acc m" and dr: "\<not> hasAnySamples m" and ids: "distinct (map ts_id tracks)"
    and n: "length tracks \<le> 1000" and k: "k < length tracks" and perm: "\<forall>ps. mset (srt ps) = mset ps"
    and info: "map trackInfo tracks = tracks"
  shows "streamPayloads k (concat (map (fragPackets srt uj (sessionTable tracks)) frags)) =
    mset (map (payloadOf (tracks ! k)) (accepted k acc))"
proof -
  have "streamPayloads k (concat (map (fragPackets srt uj (sessionTable tracks)) fs)) =
      mset (map (payloadOf (tracks ! k)) (concat (map (\<lambda>f. trackKeys k (fr_tracks f)) fs)))" if "set fs \<subseteq> set frags" for fs
    using that
  proof (induction fs)
    case (Cons f fs)
    then have "f \<in> set frags"
      by simp
    from streamPayloads_fragment [OF led this ids n k perm info] show ?case
      using Cons by simp
  qed simp
  then show ?thesis
    using ledger_drained [OF led dr k] by simp
qed

definition numberedStreams :: "codec_data list \<Rightarrow> stream list" where
  "numberedStreams cs = map (\<lambda>i. \<lparr>s_Idx = of_nat i, s_Codec = cs ! i\<rparr>) [0..<length cs]"

lemma streams_of_tracks: "map trackStream (numberTracks 0 (map trackDefOf tracks)) = numberedStreams (map ts_codec tracks)"
  by (rule nth_equalityI) (simp_all add: numberedStreams_def numberTracks_nth trackStream_def trackDefOf_def)

lemma GetCodecs_file:
  assumes init: "buildInitSegment tracks = Some init" and ok: "tracks_ok tracks" and len: "length (init @ rest) < 2 ^ 62"
  shows "\<exists>d. GetCodecs (NewDemuxer (init @ rest) seekable) = (Inr (numberedStreams (map ts_codec tracks)), d) \<and>
    reader_at d rest \<and> d_tracksByID d = sessionTable tracks \<and> d_pending d = [] \<and> d_pendingCodecChange d = [] \<and>
    d_pendingEmsg d = [] \<and> d_mediaStartPos d = int (length init) \<and> d_sidx d = [] \<and> d_seekable d = seekable \<and> d_file d = init @ rest"
proof -
  have at: "reader_at (NewDemuxer (init @ rest) seekable) (init @ rest)"
    using len by (simp add: reader_at_def NewDemuxer_def)
  show ?thesis
    using GetCodecs_init [OF at init ok]
    by (simp add: initialised_def Let_def streams_of_tracks sessionTable_def advance_def NewDemuxer_def reader_at_def)
qed

subsection \<open>The size of a recording\<close>

lemma length_emsgRun: "\<forall>s \<in> set ss. emsg_ok s \<Longrightarrow> length (emsgRun eid ss) \<le> length ss * (2 ^ 31 + 100)"
proof (induction ss arbitrary: eid)
  case (Cons s ss)
  have "length (buildEmsg (sm_presentationTimeMS s) eid (sm_extra s)) \<le> 2 ^ 31 + 100"
    using Cons.prems by (simp add: emsg_ok_def buildEmsg_payload length_makeBox emsgPayload_def length_scheme)
  moreover have "length (emsgRun e ss) \<le> length ss * (2 ^ 31 + 100)" for e
    using Cons by simp
  ultimately show ?case
    by (simp add: add_le_mono trans_le_add2)
qed simp

lemma length_fragment:
  assumes "frag_ok tracks f"
  shows "length (fragBytes f) \<le> 2 ^ 31 + length (fragSamples f) * (2 ^ 31 + 100)"
proof -
  let ?A = "fragActive f"
  have sz: "moofSize ?A + 8 + mediaSize ?A < 2 ^ 31" and all: "\<forall>ts \<in> set ?A. track_ok ts"
    and em: "\<forall>s \<in> set (fragSamples f). emsg_ok s"
    using assms by (simp_all add: frag_ok_def fragment_ok_def)
  have "length (buildMoof ?A (fr_seq f) (dataOffsets ?A)) = moofSize ?A"
    using sz by (intro length_buildMoof) simp_all
  moreover have "length (buildMdat ?A) = 8 + mediaSize ?A"
    unfolding buildMdat_def mdatPayload_def [symmetric] using sz mediaSize_data [OF all] by (subst length_makeBox) simp_all
  ultimately have "length (fragMoofMdat f) \<le> 2 ^ 31"
    using sz by (simp add: fragMoofMdat_def)
  then show ?thesis
    using length_emsgRun [OF em, of "fr_emsgID f"] by (simp add: fragBytes_def fr_emsgs_run)
qed

lemma fragments_samples:
  assumes led: "ledger init tracks frags acc m" and dr: "\<not> hasAnySamples m"
  shows "(\<Sum>f \<leftarrow> frags. length (fragSamples f)) \<le> length acc" and "f \<in> set frags \<Longrightarrow> 1 \<le> length (fragSamples f)"
proof -
  have cnt: "length (fragSamples f) = (\<Sum>ts \<leftarrow> fragActive f. sum_list (map (\<lambda>s. 1) (ts_samples ts)))" for f
    by (simp add: fragSamples_def length_concat comp_def sum_list_triv)
  have "(\<Sum>f \<leftarrow> frags. length (fragSamples f)) \<le> sum_list (map (\<lambda>x. 1) acc)"
    unfolding cnt by (rule session_weight [OF led dr]) simp
  then show "(\<Sum>f \<leftarrow> frags. length (fragSamples f)) \<le> length acc"
    by (simp add: sum_list_triv)
  assume "f \<in> set frags"
  then have "fragActive f \<noteq> []"
    using led by (simp add: ledger_def)
  then obtain ts rest where "fragActive f = ts # rest"
    by (cases "fragActive f") auto
  moreover then have "ts \<in> set (fragActive f)"
    by simp
  then have "ts_samples ts \<noteq> []"
    by (simp add: fragActive_def)
  ultimately show "1 \<le> length (fragSamples f)"
    by (simp add: fragSamples_def Suc_le_eq)
qed

lemma length_frags:
  assumes "ledger init tracks frags acc m" and "\<not> hasAnySamples m"
  shows "length frags \<le> length acc"
proof -
  have "sum_list (map (\<lambda>f. 1) frags) \<le> (\<Sum>f \<leftarrow> frags. length (fragSamples f))"
    using fragments_samples(2) [OF assms] by (intro sum_list_mono) simp
  then show ?thesis
    using fragments_samples(1) [OF assms] by (simp add: sum_list_triv)
qed

lemma length_fragments:
  assumes led: "ledger init tracks frags acc m" and dr: "\<not> hasAnySamples m"
    and ok: "\<forall>f \<in> set frags. frag_ok T f" and n: "length acc \<le> 2 ^ 26"
  shows "length (concat (map fragBytes frags)) < 2 ^ 60"
proof -
  have total: "(\<Sum>f \<leftarrow> frags. length (fragSamples f)) \<le> 2 ^ 26"
    using fragments_samples(1) [OF led dr] n by simp
  note pos = fragments_samples(2) [OF led dr]
  have "length (fragBytes f) \<le> length (fragSamples f) * (2 ^ 32 + 100)" if "f \<in> set frags" for f
    using length_fragment [of T f] ok pos [OF that] that by simp
  then have "(\<Sum>f \<leftarrow> frags. length (fragBytes f)) \<le> (\<Sum>f \<leftarrow> frags. length (fragSamples f) * (2 ^ 32 + 100))"
    by (intro sum_list_mono) simp
  also have "\<dots> = (\<Sum>f \<leftarrow> frags. length (fragSamples f)) * (2 ^ 32 + 100)"
    by (simp add: sum_list_mult_const)
  also have "\<dots> \<le> 2 ^ 26 * (2 ^ 32 + 100)"
    using total by (intro mult_le_mono1)
  finally show ?thesis
    by (simp add: length_concat comp_def)
qed

lemma length_init:
  assumes "tracks_ok tracks" and "buildInitSegment tracks = Some init"
  shows "length init < 2 ^ 33"
proof -
  obtain p where p: "buildFtyp tracks = makeBox ''ftyp'' p" "box_ok ''ftyp'' p"
    using buildFtyp_box by blast
  then show ?thesis
    using moov_search [OF assms(1)] assms(2)
    by (auto simp: buildInitSegment_def length_makeBox box_ok_def)
qed

end
