(* ===== verification/Fmp4_Seek.thy ===== *)
theory Fmp4_Seek
  imports Fmp4_Session
begin

text \<open>
  Seeking in a recording: \<^verbatim>\<open>SeekToKeyframe\<close> without an index scans the moof boxes and stops at the last
  fragment that starts at or before the target.
\<close>

lemma slice_drop: "slice (drop p xs) i j = slice xs (p + i) (p + j)"
  by (simp add: slice_def add.commute)

lemma box_at:
  assumes d: "drop p xs = makeBox typ q @ rest" and ok: "box_ok typ q" and p: "p \<le> length xs"
  shows "p + (8 + length q) \<le> length xs" and "be32 (slice xs p (p + 4)) = boxSize q"
    and "gostring (slice xs (p + 4) (p + 8)) = typ" and "slice xs (p + 8) (p + (8 + length q)) = q"
    and "drop (p + (8 + length q)) xs = rest"
proof -
  note parts = makeBox_parts [OF ok, of rest, folded d]
  show "p + (8 + length q) \<le> length xs"
    using parts(1) p by simp
  show "be32 (slice xs p (p + 4)) = boxSize q" "gostring (slice xs (p + 4) (p + 8)) = typ"
    "slice xs (p + 8) (p + (8 + length q)) = q"
    using parts(2-4) by (simp_all add: slice_drop)
  show "drop (p + (8 + length q)) xs = rest"
    using parts(5) by (simp add: add.commute)
qed

lemma scanMoofs_box:
  assumes d: "drop p xs = makeBox typ q @ rest" and ok: "box_ok typ q" and p: "p \<le> length xs"
  shows "scanMoofs xs T target p best =
    (if typ = ''moof''
     then if moofBaseTime q T \<le> target then scanMoofs xs T target (p + (8 + length q)) p else best
     else scanMoofs xs T target (p + (8 + length q)) best)"
proof -
  note b = box_at [OF assms]
  have sz: "unat (boxSize q) = 8 + length q" "\<not> boxSize q < 8"
    using ok by (simp_all add: box_ok_def unat_boxSize boxSize_ge_8)
  have "\<not> length xs < p + 8" "\<not> length xs < p + (8 + length q)"
    using b(1) by simp_all
  then show ?thesis
    by (subst scanMoofs.simps) (simp add: b sz Let_def del: add_Suc_right)
qed

lemma findSidx_box:
  assumes d: "drop p xs = makeBox typ q @ rest" and ok: "box_ok typ q" and p: "p \<le> length xs"
  shows "findSidx xs p = (if typ = ''sidx'' then Some q else findSidx xs (p + (8 + length q)))"
proof -
  note b = box_at [OF assms]
  have sz: "unat (boxSize q) = 8 + length q" "\<not> boxSize q < 8"
    using ok by (simp_all add: box_ok_def unat_boxSize boxSize_ge_8)
  have "\<not> length xs < p + 8" "\<not> length xs < p + (8 + length q)"
    using b(1) by simp_all
  then show ?thesis
    by (subst findSidx.simps) (simp add: b sz Let_def del: add_Suc_right)
qed

lemma scan_emsgs:
  assumes "drop p xs = emsgRun eid ss @ rest" and "\<forall>s \<in> set ss. emsg_ok s" and "p \<le> length xs"
  shows "scanMoofs xs T target p best = scanMoofs xs T target (p + length (emsgRun eid ss)) best \<and>
    findSidx xs p = findSidx xs (p + length (emsgRun eid ss))"
  using assms
proof (induction ss arbitrary: p eid)
  case (Cons s ss)
  show ?case
  proof (cases "sm_extra s = []")
    case False
    define q where "q = emsgPayload (sm_presentationTimeMS s) eid (sm_extra s)"
    have ok: "box_ok ''emsg'' q"
      using Cons.prems(2) by (simp add: q_def emsg_box)
    have d: "drop p xs = makeBox ''emsg'' q @ (emsgRun (eid + 1) ss @ rest)"
      using Cons.prems(1) False by (simp add: buildEmsg_payload q_def)
    note b = box_at [OF d ok Cons.prems(3)]
    have "length (emsgRun eid (s # ss)) = 8 + length q + length (emsgRun (eid + 1) ss)"
      using False ok by (simp add: buildEmsg_payload q_def length_makeBox box_ok_def)
    then show ?thesis
      using Cons.IH [OF b(5) _ b(1)] Cons.prems(2) scanMoofs_box [OF d ok Cons.prems(3)] findSidx_box [OF d ok Cons.prems(3)]
      by (simp add: add.assoc)
  qed (use Cons in simp)
qed simp

subsection \<open>The start of a fragment\<close>

text \<open>The time by which a fragment is found: the base time of its first video track, else of its first track.\<close>

definition fragStart :: "trackState list \<Rightarrow> duration" where
  "fragStart active =
    (case find ts_hasVideo active of
       Some ts \<Rightarrow> ticksToDuration (ts_baseTime ts) (ts_timescale ts)
     | None \<Rightarrow> (case active of [] \<Rightarrow> 0 | ts # _ \<Rightarrow> ticksToDuration (ts_baseTime ts) (ts_timescale ts)))"

definition matches :: "tracksByID \<Rightarrow> trackState \<Rightarrow> bool" where
  "matches T ts \<longleftrightarrow> (\<exists>td. T (ts_id ts) = Some td \<and> td_hasVideo td = ts_hasVideo ts \<and> td_timescale td = ts_timescale ts) \<and>
     in64 (ts_baseTime ts) \<and> trafSize ts < 2 ^ 32"

lemma trafPayload_times:
  assumes "trafSize ts < 2 ^ 32" and "in64 (ts_baseTime ts)"
  shows "findBox (trafPayload ts off) ''tfhd'' = Some (fullHdr 0 0x020000 @ put32 (ts_id ts))"
    and "\<exists>p. findBox (trafPayload ts off) ''tfdt'' = Some p \<and> parseTfdt p = Some (ts_baseTime ts)"
  using trafPayload_boxes [OF assms(1), of off] assms(2) by (simp_all add: parseTfdt_fullHdr wrap64_id)

lemma moofBaseTimePass_step:
  assumes "matches T ts"
  shows "moofBaseTimePass vo T (trafPayload ts off # rest) =
    (if vo \<and> \<not> ts_hasVideo ts then moofBaseTimePass vo T rest else Some (ticksToDuration (ts_baseTime ts) (ts_timescale ts)))"
proof -
  obtain td where td: "T (ts_id ts) = Some td" "td_hasVideo td = ts_hasVideo ts" "td_timescale td = ts_timescale ts"
    using assms by (auto simp: matches_def)
  obtain p where "findBox (trafPayload ts off) ''tfdt'' = Some p" "parseTfdt p = Some (ts_baseTime ts)"
    using trafPayload_times(2) [of ts off] assms by (auto simp: matches_def)
  moreover have "findBox (trafPayload ts off) ''tfhd'' = Some (fullHdr 0 0x020000 @ put32 (ts_id ts))"
    using trafPayload_times(1) [of ts off] assms by (simp add: matches_def)
  ultimately show ?thesis
    using td by (simp add: slices)
qed

lemma moofBaseTimePass_video:
  assumes "\<forall>ts \<in> set active. matches T ts" and "length offs = length active"
  shows "moofBaseTimePass True T (map (\<lambda>(ts, off). trafPayload ts off) (zip active offs)) =
    map_option (\<lambda>ts. ticksToDuration (ts_baseTime ts) (ts_timescale ts)) (find ts_hasVideo active)"
  using assms(2,1)
  by (induction offs active rule: list_induct2) (simp_all add: moofBaseTimePass_step del: moofBaseTimePass.simps(2))

lemma moofBaseTime_fragment:
  assumes ok: "\<forall>ts \<in> set active. matches T ts" and sz: "moofSize active < 2 ^ 32"
  shows "moofBaseTime (drop 8 (buildMoof active seqNum (dataOffsets active))) T = fragStart active"
proof -
  have trafs: "findBoxes (drop 8 (buildMoof active seqNum (dataOffsets active))) ''traf'' =
      map (\<lambda>(ts, off). trafPayload ts off) (zip active (dataOffsets active))"
    using sz by (intro moof_trafs) simp_all
  note video = moofBaseTimePass_video [OF ok, of "dataOffsets active"]
  show ?thesis
  proof (cases active)
    case Nil
    then show ?thesis
      unfolding moofBaseTime_def trafs by (simp add: fragStart_def)
  next
    case (Cons ts rest)
    obtain off offs where "dataOffsets active = off # offs"
      using Cons by (cases "dataOffsets active") (auto dest: arg_cong [of _ _ length])
    then have "moofBaseTimePass False T (map (\<lambda>(ts, off). trafPayload ts off) (zip active (dataOffsets active))) =
        Some (ticksToDuration (ts_baseTime ts) (ts_timescale ts))"
      using Cons ok by (simp add: moofBaseTimePass_step del: moofBaseTimePass.simps(2))
    then show ?thesis
      unfolding moofBaseTime_def trafs
      using video Cons by (simp add: fragStart_def split: option.splits)
  qed
qed

lemma session_matches:
  assumes led: "ledger init tracks frags acc m" and f: "f \<in> set frags" and ok: "frag_ok (sessionTable tracks) f"
    and ids: "distinct (map ts_id tracks)" and vid: "\<forall>ts \<in> set tracks. ts_hasVideo ts = isVideoCodec (ts_codec ts)"
  shows "\<forall>ts \<in> set (fragActive f). matches (sessionTable tracks) ts"
proof
  fix ts
  assume ts: "ts \<in> set (fragActive f)"
  note fr = ledger_fragment [OF led f]
  have "ts \<in> set (fr_tracks f)"
    using ts by (simp add: fragActive_def)
  then obtain k where k: "k < length tracks" "ts = fr_tracks f ! k"
    using fr(2) by (metis in_set_conv_nth)
  then have ti: "trackInfo ts = tracks ! k"
    using fr(1,2) by (metis nth_map)
  have eq: "ts_id ts = ts_id (tracks ! k)" "ts_hasVideo ts = ts_hasVideo (tracks ! k)" "ts_timescale ts = ts_timescale (tracks ! k)"
    by (simp_all add: ti [symmetric]) (simp_all add: trackInfo_def)
  have "in64 (ts_baseTime ts)" "trafSize ts < 2 ^ 32"
    using ok ts trafSize_le [OF ts] by (auto simp: frag_ok_def fragment_ok_def track_ok_def)
  then show "matches (sessionTable tracks) ts"
    using sessionTable_nth [OF ids k(1)] vid k(1) by (simp add: matches_def eq) (simp add: trackDefOf_def)
qed

subsection \<open>Scanning the fragments\<close>

lemma scan_fragment:
  assumes d: "drop p xs = fragBytes f @ rest" and ok: "frag_ok T f" and mt: "\<forall>ts \<in> set (fragActive f). matches T ts"
    and p: "p \<le> length xs"
  shows "scanMoofs xs T target p best =
      (if fragStart (fragActive f) \<le> target
       then scanMoofs xs T target (p + length (fragBytes f)) (p + length (fr_emsgs f)) else best)"
    and "findSidx xs p = findSidx xs (p + length (fragBytes f))"
    and "drop (p + length (fragBytes f)) xs = rest" and "p + length (fragBytes f) \<le> length xs"
    and "drop (p + length (fr_emsgs f)) xs = fragMoofMdat f @ rest"
proof -
  let ?A = "fragActive f"
  have sz: "moofSize ?A + 8 + mediaSize ?A < 2 ^ 31" and all: "\<forall>ts \<in> set ?A. track_ok ts"
    and em: "\<forall>s \<in> set (fragSamples f). emsg_ok s"
    using ok by (simp_all add: frag_ok_def fragment_ok_def)
  have ms: "moofSize ?A < 2 ^ 31"
    using sz by simp
  obtain q where q: "buildMoof ?A (fr_seq f) (dataOffsets ?A) = makeBox ''moof'' q" "box_ok ''moof'' q"
      "drop 8 (buildMoof ?A (fr_seq f) (dataOffsets ?A)) = q"
    using moof_box [OF ms, of "fr_seq f"] by blast
  define md where "md = mdatPayload ?A"
  have md: "buildMdat ?A = makeBox ''mdat'' md" "box_ok ''mdat'' md"
    using sz mediaSize_data [OF all] by (simp_all add: buildMdat_def md_def mdatPayload_def box_ok_def)
  have start: "moofBaseTime q T = fragStart ?A"
    using moofBaseTime_fragment [OF mt, of "fr_seq f"] sz by (simp add: q(3))
  define p1 where "p1 = p + length (fr_emsgs f)"
  have d0: "drop p xs = emsgRun (fr_emsgID f) (fragSamples f) @ (fragMoofMdat f @ rest)"
    using d by (simp add: fragBytes_def fr_emsgs_run)
  have d1: "drop p1 xs = makeBox ''moof'' q @ (makeBox ''mdat'' md @ rest)"
    using drop_field [OF d0] by (simp add: p1_def fr_emsgs_run fragMoofMdat_def q(1) md(1))
  have le1: "p1 \<le> length xs"
    using arg_cong [OF d0, of length] p by (simp add: p1_def fr_emsgs_run)
  note b1 = box_at [OF d1 q(2) le1] note b2 = box_at [OF b1(5) md(2) b1(1)]
  have end_eq: "p1 + (8 + length q) + (8 + length md) = p + length (fragBytes f)"
    using q(2) md(2) by (simp add: p1_def fragBytes_def fragMoofMdat_def q(1) md(1) length_makeBox box_ok_def)
  have skip: "scanMoofs xs T target p best = scanMoofs xs T target p1 best" "findSidx xs p = findSidx xs p1"
    using scan_emsgs [OF d0 em p, of T target best] by (simp_all add: p1_def fr_emsgs_run)
  show "scanMoofs xs T target p best =
      (if fragStart ?A \<le> target then scanMoofs xs T target (p + length (fragBytes f)) (p + length (fr_emsgs f)) else best)"
    using skip(1) scanMoofs_box [OF d1 q(2) le1, of T target best]
      scanMoofs_box [OF b1(5) md(2) b1(1), of T target p1, unfolded end_eq] start
    unfolding p1_def by simp
  show "findSidx xs p = findSidx xs (p + length (fragBytes f))"
    using skip(2) findSidx_box [OF d1 q(2) le1] findSidx_box [OF b1(5) md(2) b1(1), unfolded end_eq] by simp
  show "drop (p + length (fragBytes f)) xs = rest" "p + length (fragBytes f) \<le> length xs"
    using b2(1,5) end_eq by simp_all
  show "drop (p + length (fr_emsgs f)) xs = fragMoofMdat f @ rest"
    using d1 by (simp add: p1_def fragMoofMdat_def q(1) md(1))
qed

text \<open>The offset, within the fragments, of the moof that a scan for \<open>target\<close> chooses.\<close>

fun seekOffset :: "duration \<Rightarrow> nat \<Rightarrow> nat \<Rightarrow> fragment list \<Rightarrow> nat" where
  "seekOffset target n best [] = best"
| "seekOffset target n best (f # fs) =
    (if fragStart (fragActive f) \<le> target
     then seekOffset target (n + length (fragBytes f)) (n + length (fr_emsgs f)) fs else best)"

lemma scan_fragments:
  assumes "drop p xs = concat (map fragBytes frags)" and "\<forall>f \<in> set frags. frag_ok T f"
    and "\<forall>f \<in> set frags. \<forall>ts \<in> set (fragActive f). matches T ts" and "p \<le> length xs"
  shows "scanMoofs xs T target p best = seekOffset target p best frags" and "findSidx xs p = None"
proof -
  have "scanMoofs xs T target p best = seekOffset target p best frags \<and> findSidx xs p = None"
    using assms
  proof (induction frags arbitrary: p best)
    case Nil
    then show ?case
      by (simp add: scanMoofs.simps findSidx.simps)
  next
    case (Cons f fs)
    have d: "drop p xs = fragBytes f @ concat (map fragBytes fs)"
      using Cons.prems(1) by simp
    have "frag_ok T f" "\<forall>ts \<in> set (fragActive f). matches T ts"
      using Cons.prems by simp_all
    note s = scan_fragment [OF d this Cons.prems(4)]
    show ?case
      using s(1) [of target best] s(2) Cons.IH [OF s(3) _ _ s(4)] Cons.prems(2,3) by simp
  qed
  then show "scanMoofs xs T target p best = seekOffset target p best frags" "findSidx xs p = None"
    by simp_all
qed

lemma seekOffset_split:
  assumes "frags \<noteq> []" and "fragStart (fragActive (hd frags)) \<le> target"
  shows "\<exists>before f after. frags = before @ f # after \<and> (\<forall>g \<in> set (before @ [f]). fragStart (fragActive g) \<le> target) \<and>
     (after = [] \<or> target < fragStart (fragActive (hd after))) \<and>
     seekOffset target n best frags = n + length (concat (map fragBytes before)) + length (fr_emsgs f)"
  using assms
proof (induction frags arbitrary: n best)
  case (Cons f fs)
  have le: "fragStart (fragActive f) \<le> target"
    using Cons.prems by simp
  show ?case
  proof (cases "fs = [] \<or> target < fragStart (fragActive (hd fs))")
    case True
    then show ?thesis
      using le by (intro exI [of _ "[]"] exI [of _ f] exI [of _ fs]) (cases fs; auto)
  next
    case False
    then obtain before g after where *: "fs = before @ g # after" "\<forall>h \<in> set (before @ [g]). fragStart (fragActive h) \<le> target"
        "after = [] \<or> target < fragStart (fragActive (hd after))"
        "seekOffset target (n + length (fragBytes f)) (n + length (fr_emsgs f)) fs =
         n + length (fragBytes f) + length (concat (map fragBytes before)) + length (fr_emsgs g)"
      using Cons.IH [of "n + length (fragBytes f)" "n + length (fr_emsgs f)"] by (auto simp: not_less)
    show ?thesis
      using * le by (intro exI [of _ "f # before"] exI [of _ g] exI [of _ after]) (simp add: add.assoc)
  qed
qed simp

lemma SeekToKeyframe_fragments:
  assumes sk: "d_seekable d" and no: "d_sidx d = []" and pos: "0 \<le> d_pos d" and len: "length (d_file d) < 2 ^ 62"
    and media: "d_mediaStartPos d = int p" "p \<le> length (d_file d)" "drop p (d_file d) = concat (map fragBytes frags)"
    and ok: "\<forall>f \<in> set frags. frag_ok (d_tracksByID d) f"
    and mt: "\<forall>f \<in> set frags. \<forall>ts \<in> set (fragActive f). matches (d_tracksByID d) ts"
    and first: "frags \<noteq> []" "fragStart (fragActive (hd frags)) \<le> target"
  shows "\<exists>before f after d'. frags = before @ f # after \<and> (\<forall>g \<in> set (before @ [f]). fragStart (fragActive g) \<le> target) \<and>
     (after = [] \<or> target < fragStart (fragActive (hd after))) \<and> SeekToKeyframe d target = (None, d') \<and>
     reader_at d' (fragMoofMdat f @ concat (map fragBytes after)) \<and> d_tracksByID d' = d_tracksByID d \<and>
     d_pending d' = [] \<and> d_pendingEmsg d' = [] \<and> d_pendingCodecChange d' = d_pendingCodecChange d"
proof -
  note scan = scan_fragments [OF media(3) ok mt media(2)]
  obtain before f after where s: "frags = before @ f # after" "\<forall>g \<in> set (before @ [f]). fragStart (fragActive g) \<le> target"
     "after = [] \<or> target < fragStart (fragActive (hd after))"
     "seekOffset target p p frags = p + length (concat (map fragBytes before)) + length (fr_emsgs f)"
    using seekOffset_split [OF first, of p p] by blast
  let ?o = "p + length (concat (map fragBytes before)) + length (fr_emsgs f)"
  have seek: "\<exists>d'. SeekToKeyframe d target = (None, d') \<and> d_off d' = ?o \<and> d_pos d' = int ?o \<and> d_file d' = d_file d \<and>
      d_tracksByID d' = d_tracksByID d \<and> d_pending d' = [] \<and> d_pendingEmsg d' = [] \<and> d_pendingCodecChange d' = d_pendingCodecChange d"
    using sk no pos media(1) scan(1) [of target p] scan(2) s(4)
    by (simp add: SeekToKeyframe_def loadSidx_def seekTo_def seekViaMoofScan_def Let_def)
  have d1: "drop p (d_file d) = (concat (map fragBytes before) @ fr_emsgs f) @ (fragMoofMdat f @ concat (map fragBytes after))"
    using media(3) s(1) by (simp add: fragBytes_def)
  have "drop ?o (d_file d) = fragMoofMdat f @ concat (map fragBytes after)"
    using drop_field [OF d1] by (simp add: add.assoc)
  moreover have "?o \<le> length (d_file d)"
    using arg_cong [OF d1, of length] media(2) by simp
  ultimately have "\<exists>d'. SeekToKeyframe d target = (None, d') \<and> reader_at d' (fragMoofMdat f @ concat (map fragBytes after)) \<and>
      d_tracksByID d' = d_tracksByID d \<and> d_pending d' = [] \<and> d_pendingEmsg d' = [] \<and> d_pendingCodecChange d' = d_pendingCodecChange d"
    using seek len by (auto simp: reader_at_def)
  then show ?thesis
    using s(1-3) by blast
qed

subsection \<open>Recordings\<close>

text \<open>Everything the two sides of a recording session agree on.\<close>

definition recorded :: "trackState list \<Rightarrow> bytes \<Rightarrow> fragment list \<Rightarrow> (nat \<times> sample) list \<Rightarrow> Muxer \<Rightarrow> bool" where
  "recorded tracks init frags acc m \<longleftrightarrow>
    ledger init tracks frags acc m \<and> \<not> hasAnySamples m \<and> buildInitSegment tracks = Some init \<and> tracks_ok tracks \<and>
    distinct (map ts_id tracks) \<and> map trackInfo tracks = tracks \<and>
    (\<forall>f \<in> set frags. frag_ok (sessionTable tracks) f) \<and>
    (\<forall>f \<in> set frags. \<forall>ts \<in> set (fragActive f). matches (sessionTable tracks) ts) \<and>
    length (init @ concat (map fragBytes frags)) < 2 ^ 61 \<and> length frags \<le> 2 ^ 26"

lemma session_recorded:
  assumes "WriteHeader (NewMuxer w) streams = Some (None, m0)" and "w_out w = []"
    and "writePackets js m0 pkts = (None, m1)" and "WriteTrailer m1 = (None, m2)" and ok: "session_ok js streams pkts"
  defines "acc \<equiv> acceptedFrom js (m_trackMap m0) (m_tracks m0) (hasVideoTracks m0) None pkts"
  shows "\<exists>frags. recorded (m_tracks m0) (w_out (m_w m0)) frags acc m2"
proof -
  note hdr = WriteHeader_tracks [OF assms(1,2)]
  have n: "length streams \<le> 1000" and stable: "\<forall>s \<in> set (filter supported streams). codec_stable (s_Codec s)"
    and w: "sum_list (map (\<lambda>p. 16 + length (Data p)) pkts) < 2 ^ 30"
    and js: "\<forall>p \<in> set pkts. \<forall>a b. Analytics p = Some a \<longrightarrow> js a = Some b \<longrightarrow> length b < 2 ^ 31"
    using ok by (simp_all add: session_ok_def)
  have nt: "length (m_tracks m0) \<le> 1000"
    using arg_cong [OF hdr(2), of length] n by (metis length_filter_le length_map order_trans)
  obtain frags where led: "ledger (w_out (m_w m0)) (m_tracks m0) frags acc m2" and dr: "\<not> hasAnySamples m2"
    using mux_session [OF assms(1-4)] by (auto simp: acc_def)
  have "\<forall>p \<in> set pkts. length (Data p) < 2 ^ 31"
    using w member_le_sum_list [of "16 + length (Data p)" "map (\<lambda>p. 16 + length (Data p)) pkts" for p] by fastforce
  from acceptedFrom_ok [OF this js, of "m_trackMap m0" "m_tracks m0" "hasVideoTracks m0" None]
  have sok: "\<forall>(k, s) \<in> set acc. sample_ok s" and weight: "sum_list (map (\<lambda>x. sampleWeight (snd x)) acc) < 2 ^ 30"
    using w by (simp_all add: acc_def)
  have frag: "\<forall>f \<in> set frags. frag_ok (sessionTable (m_tracks m0)) f"
    using session_frag_ok [OF led dr _ sok weight nt hdr(3) [OF n]] by blast
  have "\<forall>ts \<in> set (m_tracks m0). codec_stable (ts_codec ts)"
    using stable arg_cong [OF hdr(2), of set] by (metis (mono_tags, lifting) image_iff list.set_map)
  then have tok: "tracks_ok (m_tracks m0)"
    using nt by (simp add: tracks_ok_def)
  have "length acc * 16 \<le> sum_list (map (\<lambda>x. sampleWeight (snd x)) acc)"
    by (induction acc) (simp_all add: sampleWeight_def)
  then have small: "length acc \<le> 2 ^ 26"
    using weight by simp
  then have "length (w_out (m_w m0) @ concat (map fragBytes frags)) < 2 ^ 61" "length frags \<le> 2 ^ 26"
    using length_fragments [OF led dr frag] length_init [OF tok hdr(1)] length_frags [OF led dr] by simp_all
  moreover have "map trackInfo (m_tracks m0) = m_tracks m0"
    using WriteHeader_ledger(1) [OF assms(1,2)] by (simp add: ledger_def)
  ultimately show ?thesis
    using led dr hdr(1) tok hdr(3) [OF n] frag session_matches [OF led _ _ hdr(3) [OF n] hdr(4)]
    by (intro exI [of _ frags]) (simp add: recorded_def)
qed

lemma recorded_plays:
  assumes r: "recorded T I frags acc m" and perm: "\<forall>ps. mset (srt ps) = mset ps"
    and tail: "ends srt uj e rest" and len: "length rest < 2 ^ 34"
  shows "\<exists>d out n. GetCodecs (NewDemuxer (w_out (m_w m) @ rest) seekable) = (Inr (numberedStreams (map ts_codec T)), d) \<and>
    drain srt uj n d = (out, Some e) \<and> (\<forall>k < length T. streamPayloads k out = mset (map (payloadOf (T ! k)) (accepted k acc)))"
proof -
  have led: "ledger I T frags acc m" and dr: "\<not> hasAnySamples m" and ids: "distinct (map ts_id T)"
    and init: "buildInitSegment T = Some I" and tok: "tracks_ok T" and info: "map trackInfo T = T"
    and frag: "\<forall>f \<in> set frags. frag_ok (sessionTable T) f"
    and len1: "length (I @ concat (map fragBytes frags) @ rest) < 2 ^ 62"
    using r len by (simp_all add: recorded_def)
  have out: "w_out (m_w m) = I @ concat (map fragBytes frags)"
    using led by (simp add: ledger_def)
  obtain d where d: "GetCodecs (NewDemuxer (w_out (m_w m) @ rest) seekable) = (Inr (numberedStreams (map ts_codec T)), d)"
    "reader_at d (concat (map fragBytes frags) @ rest)" "d_tracksByID d = sessionTable T"
    "d_pending d = []" "d_pendingCodecChange d = []" "d_pendingEmsg d = []"
    using GetCodecs_file [OF init tok len1, of seekable] out by auto
  define got where "got = concat (map (fragPackets srt uj (sessionTable T)) frags)"
  have "drain srt uj (Suc (length got)) d = (got, Some e)"
    using drain_fragments_tail [OF d(2) _ d(4-6) tail] frag unfolding got_def d(3) by blast
  moreover have "\<forall>k < length T. streamPayloads k got = mset (map (payloadOf (T ! k)) (accepted k acc))"
    using streamPayloads_session [OF led dr ids _ _ perm info, of _ uj] tok by (simp add: got_def tracks_ok_def)
  ultimately show ?thesis
    using d(1) by blast
qed

lemma drain_from_moof:
  assumes at: "reader_at d (fragMoofMdat f @ concat (map fragBytes frags))"
    and ok: "\<forall>g \<in> set (f # frags). frag_ok (d_tracksByID d) g"
    and idle: "d_pending d = []" "d_pendingCodecChange d = []" "d_pendingEmsg d = []"
  shows "\<exists>n. drain srt uj n d =
    (fragPacketsWith srt uj (d_tracksByID d) [] f @ concat (map (fragPackets srt uj (d_tracksByID d)) frags), Some DEOF)"
proof -
  let ?T = "d_tracksByID d" and ?P = "fragPacketsWith srt uj (d_tracksByID d) [] f"
  have ok1: "frag_ok ?T f"
    using ok by simp
  obtain d1 where d1: "ReadPacket srt uj d = ReadPacket srt uj d1" "reader_at d1 (concat (map fragBytes frags))"
    "d1 = (advance d (length (fragMoofMdat f)))\<lparr>d_pendingEmsg := [], d_pending := ?P\<rparr>"
    using ReadPacket_moof [OF at ok1 idle(1,2), of srt uj] idle(3) by auto
  let ?d = "d1\<lparr>d_pending := []\<rparr>"
  have T: "d_tracksByID ?d = ?T"
    by (simp add: d1(3) advance_def)
  define n where "n = Suc (length (concat (map (fragPackets srt uj ?T) frags)))"
  have "drain srt uj n ?d = (concat (map (fragPackets srt uj ?T) frags), Some DEOF)"
    using drain_fragments [of ?d frags srt uj] ok d1(2) idle T by (simp add: n_def d1(3) advance_def)
  then have "drain srt uj (length ?P + n) d1 = (?P @ concat (map (fragPackets srt uj ?T) frags), Some DEOF)"
    using drain_pending [of d1 ?P srt uj n] by (simp add: d1(3))
  then show ?thesis
    using drain_cong [OF d1(1)] by metis
qed

lemma session_ok_blocks: "session_ok js hs (concat blocks) \<Longrightarrow> ps \<in> set blocks \<Longrightarrow> session_ok js hs ps"
proof (induction blocks)
  case (Cons b blocks)
  have "session_ok js hs b" "session_ok js hs (concat blocks)"
    using Cons.prems(1) by (auto simp: session_ok_def)
  then show ?case
    using Cons by auto
qed simp

lemma ex_session_ok: "session_ok (\<lambda>_. None) ex_streams ex_packets"
proof -
  have "aac_NewCodecDataFromMPEG4AudioConfigBytes [0x12, 0x10] = Inr \<lparr>aac_ConfigBytes = [0x12, 0x10],
      aac_Config = \<lparr>aac_SampleRate = 44100, aac_ChannelLayout = 6, aac_ObjectType = 2, aac_SampleRateIndex = 4,
        aac_ChannelConfig = 2\<rparr>\<rparr>"
    by code_simp
  then show ?thesis
    by (simp add: session_ok_def ex_streams_def ex_packets_def supported_def codec_stable_def)
qed

end
