(* ===== verification/Fmp4_Typed.thy ===== *)
theory Fmp4_Typed
  imports Fmp4_Seek
begin

text \<open>
  The typing of what the fMP4 demuxer returns, for every file: a consumer that knows the codecs of \<^verbatim>\<open>GetCodecs\<close> and
  follows the codec changes attached to packets always has a stream for the next packet, with the packet's
  index and codec type.
\<close>

definition numbered :: "stream list \<Rightarrow> bool" where
  "numbered ss \<longleftrightarrow> map s_Idx ss = map of_nat [0..<length ss]"

definition fits :: "stream list \<Rightarrow> packet \<Rightarrow> bool" where
  "fits ss p \<longleftrightarrow> (\<exists>s\<in>set ss. s_Idx s = Idx p \<and> codecType (s_Codec s) = CodecType p)"

definition announced :: "stream list \<Rightarrow> packet \<Rightarrow> stream list" where
  "announced cur p = (case NewCodecs p of None \<Rightarrow> cur | Some cs \<Rightarrow> cs)"

fun wellTyped :: "stream list \<Rightarrow> packet list \<Rightarrow> bool" where
  "wellTyped cur [] = True"
| "wellTyped cur (p # ps) = (numbered (announced cur p) \<and> fits (announced cur p) p \<and> wellTyped (announced cur p) ps)"

text \<open>Calls of a client after \<^verbatim>\<open>GetCodecs\<close>; it may read on after an error.\<close>

datatype demux_call = CallRead | CallSeek duration

fun demuxCalls :: "(packet list \<Rightarrow> packet list) \<Rightarrow> (bytes \<Rightarrow> frame_analytics option) \<Rightarrow> demux_call list \<Rightarrow> Demuxer \<Rightarrow> packet list" where
  "demuxCalls srt uj [] d = []"
| "demuxCalls srt uj (CallRead # cs) d =
    (case ReadPacket srt uj d of (Inr p, d') \<Rightarrow> p # demuxCalls srt uj cs d' | (Inl e, d') \<Rightarrow> demuxCalls srt uj cs d')"
| "demuxCalls srt uj (CallSeek t # cs) d = demuxCalls srt uj cs (snd (SeekToKeyframe d t))"

definition table_ok :: "tracksByID \<Rightarrow> stream list \<Rightarrow> bool" where
  "table_ok tracks ss \<longleftrightarrow> (\<forall>k t. tracks k = Some t \<longrightarrow> trackStream t \<in> set ss)"

definition typed_inv :: "stream list \<Rightarrow> Demuxer \<Rightarrow> bool" where
  "typed_inv cur d \<longleftrightarrow>
    table_ok (d_tracksByID d) (d_streams d) \<and> numbered (d_streams d) \<and> d_pendingCodecChange d \<in> {[], d_streams d} \<and>
    (\<forall>p\<in>set (d_pending d). fits (d_streams d) p) \<and> (\<forall>p\<in>set (tl (d_pending d)). NewCodecs p = None) \<and>
    (if d_pending d = [] then d_pendingCodecChange d \<noteq> [] \<or> d_streams d = [] \<or> cur = d_streams d
     else announced cur (hd (d_pending d)) = d_streams d \<and> d_pendingCodecChange d = [])"

lemma trackStream_override [simp]: "trackStream (overrideDefaults t r) = trackStream t"
  by (simp add: overrideDefaults_def trackStream_def Let_def)

lemma parseTrafs_table:
  "table_ok tracks ss \<Longrightarrow> parseTrafs tracks ps a b = (r, tracks') \<Longrightarrow> table_ok tracks' ss"
proof (induction ps arbitrary: tracks r tracks')
  case (Cons p rest)
  show ?case
  proof (cases "findBox p ''tfhd'' = None \<or> parseTfhd (the (findBox p ''tfhd'')) a = None \<or>
      tracks (th_trackID (the (parseTfhd (the (findBox p ''tfhd'')) a))) = None")
    case True
    then have "parseTrafs tracks rest a b = (r, tracks')"
      using Cons.prems(2) by (auto split: option.splits)
    then show ?thesis
      by (rule Cons.IH [OF Cons.prems(1)])
  next
    case False
    then obtain h x t where hx: "findBox p ''tfhd'' = Some h" "parseTfhd h a = Some x" "tracks (th_trackID x) = Some t"
      by auto
    define tr where "tr = tracks(th_trackID x \<mapsto> overrideDefaults t x)"
    obtain q tr2 where rec: "parseTrafs tr rest a b = (q, tr2)"
      by fastforce
    have ok: "table_ok tr ss"
      using Cons.prems(1) hx(3) by (auto simp: tr_def table_ok_def)
    have "tracks' = tr \<or> tracks' = tr2"
      using Cons.prems(2) rec by (auto simp: hx Let_def tr_def [symmetric] split: option.splits)
    then show ?thesis
      using ok Cons.IH [OF ok rec] by auto
  qed
qed simp

lemma samplePacket_fits:
  assumes "table_ok tracks ss" "samplePacket tracks mdat s = Some p" shows "fits ss p \<and> NewCodecs p = None"
proof -
  obtain t where t: "tracks (rs_trackID s) = Some t" "Idx p = td_streamIdx t" "CodecType p = codecType (td_codec t)" "NewCodecs p = None"
    using assms(2) by (auto simp: samplePacket_def Let_def zero_packet_def split: option.splits if_splits)
  then have "trackStream t \<in> set ss"
    using assms(1) by (simp add: table_ok_def)
  then show ?thesis
    using t by (auto simp: fits_def trackStream_def intro: bexI [of _ "trackStream t"])
qed

lemma fragmentPackets_fit:
  "table_ok tracks ss \<Longrightarrow> p \<in> set (fragmentPackets tracks mdat samples) \<Longrightarrow> fits ss p \<and> NewCodecs p = None"
  by (auto simp: fragmentPackets_def List.map_filter_def dest: samplePacket_fits)

lemma attachAnalytics_typed [simp]:
  "fits ss (attachAnalytics uj es p) = fits ss p" "NewCodecs (attachAnalytics uj es p) = NewCodecs p"
  by (simp_all add: attachAnalytics_def fits_def Let_def split: option.splits)

lemma trackTable_mem: "trackTable ts k = Some t \<Longrightarrow> t \<in> set ts"
  by (induction ts rule: rev_induct) (auto simp: trackTable_def split: if_splits)

lemma map_idx_numberTracks: "map td_streamIdx (numberTracks i ts) = map of_nat [i..<i + length ts]"
  by (induction ts arbitrary: i) (simp_all add: upt_conv_Cons del: upt_Suc)

lemma parseMoov_typed:
  assumes "parseMoov d payload = Some d'"
  shows "table_ok (d_tracksByID d') (d_streams d')" "numbered (d_streams d')"
    "d' = d\<lparr>d_tracksByID := d_tracksByID d', d_streams := d_streams d'\<rparr>"
proof -
  obtain ts where d': "d' = d\<lparr>d_tracksByID := trackTable (numberTracks 0 ts), d_streams := map trackStream (numberTracks 0 ts)\<rparr>"
    using assms by (auto simp: parseMoov_def Let_def split: option.splits)
  show "table_ok (d_tracksByID d') (d_streams d')"
    by (auto simp: d' table_ok_def dest: trackTable_mem)
  show "numbered (d_streams d')"
    using map_idx_numberTracks [of 0 ts] by (simp add: d' numbered_def length_numberTracks trackStream_def comp_def)
  show "d' = d\<lparr>d_tracksByID := d_tracksByID d', d_streams := d_streams d'\<rparr>"
    by (simp add: d')
qed

lemma parseMoofMdat_typed:
  assumes "table_ok (d_tracksByID d) (d_streams d)" "parseMoofMdat srt d payload a b = (r, d')" "\<forall>ps. mset (srt ps) = mset ps"
  shows "table_ok (d_tracksByID d') (d_streams d')" "d_streams d' = d_streams d" "d_pendingCodecChange d' = d_pendingCodecChange d"
    "d_pending d' = d_pending d" "\<forall>ps. r = Inr ps \<longrightarrow> (\<forall>p\<in>set ps. fits (d_streams d) p \<and> NewCodecs p = None)"
proof -
  obtain samples tracks where m: "parseMoof (d_tracksByID d) payload a b = (samples, tracks)"
    by fastforce
  then have ok: "table_ok tracks (d_streams d)"
    using parseTrafs_table [OF assms(1)] by (simp add: parseMoof_def Let_def)
  define d0 where "d0 = d\<lparr>d_tracksByID := tracks\<rparr>"
  obtain r1 d1 where rb: "readBox d0 = (r1, d1)"
    by fastforce
  have d1: "d1 = d0\<lparr>d_off := d_off d1, d_pos := d_pos d1\<rparr>"
    by (rule readBox_frame [OF rb])
  have d': "d' = d0 \<or> d' = d1"
    using assms(2) m rb by (auto simp: parseMoofMdat_def d0_def split: option.splits sum.splits if_splits)
  have eq: "d_tracksByID d1 = tracks" "d_streams d1 = d_streams d" "d_pendingCodecChange d1 = d_pendingCodecChange d" "d_pending d1 = d_pending d"
    by (subst d1, simp add: d0_def)+
  then show "table_ok (d_tracksByID d') (d_streams d')" "d_streams d' = d_streams d" "d_pendingCodecChange d' = d_pendingCodecChange d"
    "d_pending d' = d_pending d"
    using d' ok by (auto simp: d0_def)
  have "set (srt (fragmentPackets tracks mdat xs)) = set (fragmentPackets tracks mdat xs)" for mdat xs
    using assms(3) by (metis set_mset_mset)
  then show "\<forall>ps. r = Inr ps \<longrightarrow> (\<forall>p\<in>set ps. fits (d_streams d) p \<and> NewCodecs p = None)"
    using assms(2) m rb fragmentPackets_fit [OF ok]
    by (auto simp: parseMoofMdat_def d0_def [symmetric] split: option.splits sum.splits if_splits)
qed

lemma typed_inv_same:
  assumes "typed_inv cur d" "d_tracksByID d' = d_tracksByID d" "d_streams d' = d_streams d"
    "d_pendingCodecChange d' = d_pendingCodecChange d" "d_pending d' = d_pending d"
  shows "typed_inv cur d'"
  using assms(1) unfolding typed_inv_def assms(2-5) .

lemma attachCodecs_pending:
  assumes inv: "typed_inv cur d" "d_pending d = []" and pkts: "\<forall>p\<in>set pkts. fits (d_streams d) p \<and> NewCodecs p = None"
    and ps: "ps = map f (attachCodecs (d_pendingCodecChange d) pkts)"
      "\<And>p. fits (d_streams d) (f p) = fits (d_streams d) p" "\<And>p. NewCodecs (f p) = NewCodecs p"
  shows "\<forall>p\<in>set ps. fits (d_streams d) p" "\<forall>p\<in>set (tl ps). NewCodecs p = None"
    "ps \<noteq> [] \<Longrightarrow> announced cur (hd ps) = d_streams d"
proof -
  have fit: "fits ss (x\<lparr>NewCodecs := c\<rparr>) = fits ss x" for ss x c
    by (simp add: fits_def)
  show "\<forall>p\<in>set ps. fits (d_streams d) p" "\<forall>p\<in>set (tl ps). NewCodecs p = None"
    using pkts by (cases pkts; auto simp: ps attachCodecs_def fit)+
  show "announced cur (hd ps) = d_streams d" if ne: "ps \<noteq> []"
  proof -
    obtain x xs where x: "pkts = x # xs"
      using ne ps(1) by (cases pkts) (auto simp: attachCodecs_def)
    then have "d_streams d \<noteq> []"
      using pkts by (auto simp: fits_def)
    then show ?thesis
      using inv pkts x by (auto simp: ps attachCodecs_def typed_inv_def announced_def)
  qed
qed

lemma handleBox_moof:
  assumes inv: "typed_inv cur d" "d_pending d = []" and perm: "\<forall>ps. mset (srt ps) = mset ps"
    and h: "handleBox srt uj ''moof'' payload d = (r, d')"
  shows "typed_inv cur d' \<and> (r \<noteq> None \<longrightarrow> d_pending d' = [])"
proof -
  obtain q d1 where m: "parseMoofMdat srt d payload (wrap64 (d_pos d - int (8 + length payload))) (int (8 + length payload)) = (q, d1)"
    by fastforce
  have tab: "table_ok (d_tracksByID d) (d_streams d)"
    using inv by (simp add: typed_inv_def)
  note t = parseMoofMdat_typed [OF tab m perm]
  have inv1: "typed_inv cur d1"
    using inv t(1-4) by (simp add: typed_inv_def)
  show ?thesis
  proof (cases q)
    case (Inl e)
    then show ?thesis
      using h m inv1 inv(2) t(4) by (auto simp: handleBox_def Let_def)
  next
    case (Inr pkts)
    define f where "f = (if length (d_pendingEmsg d1) > 0 then attachAnalytics uj (d_pendingEmsg d1) else (\<lambda>p. p))"
    define ps where "ps = map f (attachCodecs (d_pendingCodecChange d1) pkts)"
    have d': "d' = d1\<lparr>d_pendingCodecChange := (if d_pendingCodecChange d1 \<noteq> [] \<and> pkts \<noteq> [] then [] else d_pendingCodecChange d1),
        d_pendingEmsg := [], d_pending := ps\<rparr>" "r = None"
      using h m Inr by (auto simp: handleBox_def Let_def ps_def f_def split: if_splits)
    have pk: "\<forall>p\<in>set pkts. fits (d_streams d1) p \<and> NewCodecs p = None"
      using t(2,5) Inr by simp
    have "fits (d_streams d1) (f p) = fits (d_streams d1) p" "NewCodecs (f p) = NewCodecs p" for p
      by (simp_all add: f_def)
    note a = attachCodecs_pending [OF inv1 _ pk ps_def this]
    have "ps = [] \<longleftrightarrow> pkts = []"
      by (auto simp: ps_def attachCodecs_def)
    then show ?thesis
      using a inv1 inv(2) t(4) d' by (auto simp: typed_inv_def)
  qed
qed

lemma handleBox_typed:
  assumes inv: "typed_inv cur d" "d_pending d = []" and perm: "\<forall>ps. mset (srt ps) = mset ps"
    and h: "handleBox srt uj typ payload d = (r, d')"
  shows "typed_inv cur d' \<and> (r \<noteq> None \<longrightarrow> d_pending d' = [])"
proof (cases "typ = ''moof''")
  case True
  then show ?thesis
    using handleBox_moof [OF inv perm] h by simp
next
  case False
  consider (moov) d1 where "parseMoov d payload = Some d1" "d' = d1\<lparr>d_pendingCodecChange := d_streams d1\<rparr>"
    | (other) "d' = d\<lparr>d_pendingEmsg := d_pendingEmsg d', d_sidx := d_sidx d'\<rparr>"
    using h False by (auto simp: handleBox_def split: if_splits option.splits)
  then show ?thesis
  proof cases
    case moov
    then have "d_pending d1 = []"
      using parseMoov_typed(3) [OF moov(1)] inv(2) by (metis Demuxer.select_convs(7) Demuxer.surjective Demuxer.update_convs(5,6))
    then show ?thesis
      using parseMoov_typed(1,2) [OF moov(1)] moov(2) by (auto simp: typed_inv_def)
  next
    case other
    have "d_tracksByID d' = d_tracksByID d" "d_streams d' = d_streams d"
      "d_pendingCodecChange d' = d_pendingCodecChange d" "d_pending d' = d_pending d"
      by (subst other, simp)+
    then show ?thesis
      using typed_inv_same [OF inv(1)] inv(2) by simp
  qed
qed

lemma ReadPacket_typed:
  assumes "\<forall>ps. mset (srt ps) = mset ps"
  shows "typed_inv cur d \<Longrightarrow> ReadPacket srt uj d = (r, d') \<Longrightarrow>
    (case r of Inr p \<Rightarrow> numbered (announced cur p) \<and> fits (announced cur p) p \<and> typed_inv (announced cur p) d' \<and>
        (\<forall>q\<in>set (d_pending d'). NewCodecs q = None)
     | Inl e \<Rightarrow> typed_inv cur d' \<and> d_pending d' = [])"
  using assms
proof (induction srt uj d rule: ReadPacket.induct)
  case (1 srt uj d)
  show ?case
  proof (cases "d_pending d")
    case (Cons p rest)
    then have "r = Inr p" "d' = d\<lparr>d_pending := rest\<rparr>"
      using 1(3) by (simp_all add: ReadPacket.simps)
    then show ?thesis
      using 1(2) Cons by (cases rest) (auto simp: typed_inv_def announced_def)
  next
    case Nil
    obtain q d1 where rb: "readBox d = (q, d1)"
      by fastforce
    have d1: "typed_inv cur d1" "d_pending d1 = []"
      by (rule typed_inv_same [OF 1(2)]; subst readBox_frame [OF rb]; simp)
        (subst readBox_frame [OF rb], simp add: Nil)
    show ?thesis
    proof (cases q)
      case (Inl e)
      then show ?thesis
        using 1(3) Nil rb d1 by (auto simp: ReadPacket.simps [of srt uj d])
    next
      case (Inr b)
      obtain ty payload e d2 where b: "b = (ty, payload)" "handleBox srt uj ty payload d1 = (e, d2)"
        by (metis surj_pair)
      note h = handleBox_typed [OF d1 1(4) b(2)]
      show ?thesis
      proof (cases e)
        case None
        then have "ReadPacket srt uj d2 = (r, d')"
          using 1(3) Nil rb Inr b by (simp add: ReadPacket.simps [of srt uj d])
        then show ?thesis
          using 1(1) [OF Nil rb [symmetric] Inr b(1) [symmetric] b(2) [symmetric] None] h 1(4) by blast
      next
        case (Some x)
        then show ?thesis
          using 1(3) Nil rb Inr b h by (auto simp: ReadPacket.simps [of srt uj d])
      qed
    qed
  qed
qed

lemma SeekToKeyframe_frame:
  "SeekToKeyframe d t = (r, d') \<Longrightarrow> d_tracksByID d' = d_tracksByID d \<and> d_streams d' = d_streams d \<and>
    d_pendingCodecChange d' = d_pendingCodecChange d \<and> d_pending d' \<in> {[], d_pending d}"
  by (auto simp: SeekToKeyframe_def seekViaSidx_def seekViaMoofScan_def loadSidx_def seekTo_def Let_def
      split: if_splits option.splits)

lemma seek_typed:
  assumes "typed_inv cur d" "\<forall>q\<in>set (d_pending d). NewCodecs q = None" "SeekToKeyframe d t = (r, d')"
  shows "typed_inv cur d' \<and> (\<forall>q\<in>set (d_pending d'). NewCodecs q = None)"
proof -
  have "cur = d_streams d" if "d_pending d \<noteq> []"
    using assms(1,2) that by (cases "d_pending d") (auto simp: typed_inv_def announced_def)
  then show ?thesis
    using SeekToKeyframe_frame [OF assms(3)] assms(1,2) by (cases "d_pending d = []") (auto simp: typed_inv_def)
qed

lemma demuxCalls_typed:
  assumes perm: "\<forall>ps. mset (srt ps) = mset ps"
  shows "typed_inv cur d \<Longrightarrow> \<forall>q\<in>set (d_pending d). NewCodecs q = None \<Longrightarrow> wellTyped cur (demuxCalls srt uj cs d)"
proof (induction cs arbitrary: cur d)
  case (Cons c cs)
  show ?case
  proof (cases c)
    case CallRead
    obtain r d' where r: "ReadPacket srt uj d = (r, d')"
      by fastforce
    show ?thesis
      using ReadPacket_typed [OF perm Cons.prems(1) r] Cons.IH by (cases r) (auto simp: CallRead r)
  next
    case (CallSeek t)
    obtain r d' where r: "SeekToKeyframe d t = (r, d')"
      by fastforce
    show ?thesis
      using seek_typed [OF Cons.prems r] Cons.IH by (simp add: CallSeek r)
  qed
qed simp

lemma GetCodecs_typed:
  "d_pending d = [] \<Longrightarrow> d_pendingCodecChange d = [] \<Longrightarrow> GetCodecs d = (Inr ss, d') \<Longrightarrow>
    typed_inv ss d' \<and> d_pending d' = [] \<and> numbered ss"
proof (induction d rule: GetCodecs.induct)
  case (1 d)
  obtain q d1 where rb: "readBox d = (q, d1)"
    by fastforce
  have d1: "d_pending d1 = []" "d_pendingCodecChange d1 = []"
    by (subst readBox_frame [OF rb], simp add: 1(2,3))+
  obtain ty payload where q: "q = Inr (ty, payload)"
    using 1(4) rb by (cases q) (auto simp: GetCodecs.simps [of d])
  show ?case
  proof (cases "ty = ''moov''")
    case True
    then obtain d2 where m: "parseMoov d1 payload = Some d2" "ss = d_streams d2" "d' = d2\<lparr>d_moovRead := True, d_mediaStartPos := d_pos d2\<rparr>"
      using 1(4) rb q by (auto simp: GetCodecs.simps [of d] split: option.splits)
    have "d_pending d2 = []" "d_pendingCodecChange d2 = []"
      by (subst parseMoov_typed(3) [OF m(1)], simp add: d1)+
    then show ?thesis
      using parseMoov_typed(1,2) [OF m(1)] m(2,3) by (simp add: typed_inv_def)
  next
    case False
    then show ?thesis
      using 1 rb q d1 by (simp add: GetCodecs.simps [of d])
  qed
qed

text \<open>
  C9. What the demuxer returns is well typed, for every sequence of bytes.  Whenever \<^verbatim>\<open>GetCodecs\<close> returns streams, they are
  numbered from zero, and for every sequence of reads and seeks after it, errors included, each packet returned has
  the index and the codec type of one of the streams announced last: those of \<^verbatim>\<open>GetCodecs\<close>, or those
  attached to the packet itself or to an earlier one after a movie box in the middle of the file.  A
  seek never loses an announcement.
\<close>

theorem demuxer_typed:
  assumes "GetCodecs (NewDemuxer file seekable) = (Inr ss, d)" and "\<forall>ps. mset (srt ps) = mset ps"
  shows "numbered ss \<and> wellTyped ss (demuxCalls srt uj cs d)"
  using GetCodecs_typed [OF _ _ assms(1)] demuxCalls_typed [OF assms(2)] by (simp add: NewDemuxer_def)

theorem demuxer_typed_witness:
  "\<exists>file ss d. GetCodecs (NewDemuxer file True) = (Inr ss, d) \<and> ss = numberedStreams (map s_Codec (filter supported ex_streams)) \<and>
    numbered ss \<and> wellTyped ss (demuxCalls (sort_key DTS) (\<lambda>_. None) [CallRead, CallRead, CallSeek second, CallRead] d)"
proof -
  obtain m0 where m0: "WriteHeader (NewMuxer ex_writer) ex_streams = Some (None, m0)" "reliable m0" "m_written m0"
      "\<not> m_closed m0"
    using WriteHeader_reliable [OF ex_run(1,3,4)] by blast
  obtain m1 where m1: "writePackets (\<lambda>_. None) m0 ex_packets = (None, m1)" "reliable m1" "\<not> m_closed m1"
    using writePackets_reliable [OF m0(2-4)] by blast
  obtain m2 where m2: "WriteTrailer m1 = (None, m2)"
    using WriteTrailer_reliable [OF m1(2,3)] by blast
  obtain frags acc where r: "recorded (m_tracks m0) (w_out (m_w m0)) frags acc m2"
    using session_recorded [OF m0(1) ex_run(2) m1(1) m2 ex_session_ok] by blast
  have perm: "\<forall>ps. mset (sort_key DTS ps) = mset (ps :: packet list)"
    by simp
  obtain d where d: "GetCodecs (NewDemuxer (w_out (m_w m2)) True) = (Inr (numberedStreams (map s_Codec (filter supported ex_streams))), d)"
    using recorded_plays [OF r perm ends_Nil, of True "\<lambda>_. None"] WriteHeader_tracks(2) [OF m0(1) ex_run(2)] by auto
  then show ?thesis
    using demuxer_typed [OF d perm] by blast
qed

end
