(* ===== verification/Mp4_Mux.thy ===== *)
theory Mp4_Mux
  imports Fmp4_Mux
begin

text \<open>
  The muxer of \<^verbatim>\<open>av/format/mp4/muxer.go\<close>, which buffers all samples and writes a whole MP4 file at the end.  Builders
  whose text is the same as in \<^verbatim>\<open>av/format/fmp4/muxer.go\<close> (boxes, sample entries, \<^verbatim>\<open>vmhd\<close>, \<^verbatim>\<open>smhd\<close>, \<^verbatim>\<open>dinf\<close>) are shared
  with that development.  \<^const>\<open>None\<close> is a call that does not return: the loop of \<^verbatim>\<open>buildDescriptor\<close> does not end, or
  the duration in milliseconds divides by a time scale of zero.
\<close>

datatype mp4_error = Mp4HeaderAlreadyWritten | Mp4TrailerAlreadyWritten | Mp4HeaderNotWritten | Mp4ErrWriter

record bufferedSample =
  bs_isKey :: bool
  bs_duration :: u32
  bs_ptsOff :: u32
  bs_data :: bytes

record mp4Track =
  mt_streamIdx :: u16
  mt_id :: u32
  mt_codec :: codec_data
  mt_timescale :: u32
  mt_isVideo :: bool
  mt_samples :: "bufferedSample list"

record Mp4Muxer =
  pm_w :: writer
  pm_tracks :: "mp4Track list"
  pm_trackMap :: "u16 \<rightharpoonup> nat"
  pm_written :: bool
  pm_closed :: bool
  pm_writerClosed :: bool

definition mp4_NewMuxer :: "writer \<Rightarrow> Mp4Muxer" where
  "mp4_NewMuxer w = \<lparr>pm_w = w, pm_tracks = [], pm_trackMap = Map.empty, pm_written = False, pm_closed = False, pm_writerClosed = False\<rparr>"

definition mp4_timescaleForCodec :: "codec_data \<Rightarrow> u32 option" where
  "mp4_timescaleForCodec codec =
    (case codec of
       H264Codec c \<Rightarrow> Some TimeScale
     | H265Codec c \<Rightarrow> Some TimeScale
     | AACCodec c \<Rightarrow> Some (word_of_int (aac_SampleRate (aac_Config c)))
     | _ \<Rightarrow> None)"

definition mp4_durationToTicks :: "duration \<Rightarrow> u32 \<Rightarrow> int" where
  "mp4_durationToTicks d timescale =
    (if timescale = 0 \<or> d = 0 then 0 else go_quot (wrap64 (d * uint timescale)) second)"

subsection \<open>Buffering\<close>

fun mp4_addTracks :: "Mp4Muxer \<Rightarrow> stream list \<Rightarrow> Mp4Muxer" where
  "mp4_addTracks m [] = m"
| "mp4_addTracks m (s # rest) =
    (case mp4_timescaleForCodec (s_Codec s) of
       None \<Rightarrow> mp4_addTracks m rest
     | Some ts \<Rightarrow>
         let t = \<lparr>mt_streamIdx = s_Idx s, mt_id = of_nat (length (pm_tracks m) + 1), mt_codec = s_Codec s, mt_timescale = ts,
               mt_isVideo = IsVideo (codecType (s_Codec s)), mt_samples = []\<rparr>
         in mp4_addTracks (m\<lparr>pm_tracks := pm_tracks m @ [t], pm_trackMap := (pm_trackMap m)(s_Idx s \<mapsto> length (pm_tracks m))\<rparr>) rest)"

definition mp4_WriteHeader :: "Mp4Muxer \<Rightarrow> stream list \<Rightarrow> mp4_error option \<times> Mp4Muxer" where
  "mp4_WriteHeader m streams =
    (if pm_written m then (Some Mp4HeaderAlreadyWritten, m)
     else (None, (mp4_addTracks m streams)\<lparr>pm_written := True\<rparr>))"

definition mp4_sample :: "packet \<Rightarrow> mp4Track \<Rightarrow> bufferedSample" where
  "mp4_sample pkt t =
    \<lparr>bs_isKey = KeyFrame pkt, bs_duration = word_of_int (mp4_durationToTicks (Duration pkt) (mt_timescale t)),
      bs_ptsOff = word_of_int (mp4_durationToTicks (PTSOffset pkt) (mt_timescale t)), bs_data = Data pkt\<rparr>"

definition mp4_append :: "packet \<Rightarrow> mp4Track \<Rightarrow> mp4Track" where
  "mp4_append pkt t = t\<lparr>mt_samples := mt_samples t @ [mp4_sample pkt t]\<rparr>"

definition mp4_WritePacket :: "Mp4Muxer \<Rightarrow> packet \<Rightarrow> mp4_error option \<times> Mp4Muxer" where
  "mp4_WritePacket m pkt =
    (if \<not> pm_written m then (Some Mp4HeaderNotWritten, m)
     else if pm_closed m then (Some Mp4TrailerAlreadyWritten, m)
     else case pm_trackMap m (Idx pkt) of
       None \<Rightarrow> (None, m)
     | Some i \<Rightarrow> (None, m\<lparr>pm_tracks := (pm_tracks m)[i := mp4_append pkt (pm_tracks m ! i)]\<rparr>))"

fun mp4_writePackets :: "Mp4Muxer \<Rightarrow> packet list \<Rightarrow> mp4_error option \<times> Mp4Muxer" where
  "mp4_writePackets m [] = (None, m)"
| "mp4_writePackets m (p # ps) =
    (case mp4_WritePacket m p of (Some e, m') \<Rightarrow> (Some e, m') | (None, m') \<Rightarrow> mp4_writePackets m' ps)"

subsection \<open>Sample tables\<close>

definition mp4_stsdEntry :: "codec_data \<Rightarrow> bytes option" where
  "mp4_stsdEntry codec =
    (case codec of
       H264Codec c \<Rightarrow> Some (buildAvc1 c)
     | H265Codec c \<Rightarrow> Some (buildHev1 c)
     | AACCodec c \<Rightarrow> buildMp4a c
     | _ \<Rightarrow> Some [])"

definition mp4_buildStsd :: "mp4Track \<Rightarrow> bytes option" where
  "mp4_buildStsd t = do {
     entry \<leftarrow> mp4_stsdEntry (mt_codec t);
     Some (makeFullBox ''stsd'' 0 0 (put32 1 @ entry))
   }"

text \<open>The run-length coding that \<^verbatim>\<open>buildStts\<close> and \<^verbatim>\<open>buildCtts\<close> share.\<close>

definition addRun :: "(u32 \<times> u32) list \<Rightarrow> u32 \<Rightarrow> (u32 \<times> u32) list" where
  "addRun entries d =
    (if length entries > 0 \<and> snd (last entries) = d
     then butlast entries @ [(fst (last entries) + 1, d)] else entries @ [(1, d)])"

definition runs :: "u32 list \<Rightarrow> (u32 \<times> u32) list" where
  "runs ds = foldl addRun [] ds"

definition putRuns :: "(u32 \<times> u32) list \<Rightarrow> bytes" where
  "putRuns entries = put32 (of_nat (length entries)) @ concat (map (\<lambda>(count, d). put32 count @ put32 d) entries)"

definition mp4_buildStts :: "mp4Track \<Rightarrow> bytes" where
  "mp4_buildStts t = makeFullBox ''stts'' 0 0 (putRuns (runs (map bs_duration (mt_samples t))))"

definition mp4_buildCtts :: "mp4Track \<Rightarrow> bytes" where
  "mp4_buildCtts t =
    (if list_ex (\<lambda>s. bs_ptsOff s \<noteq> 0) (mt_samples t)
     then makeFullBox ''ctts'' 1 0 (putRuns (runs (map bs_ptsOff (mt_samples t)))) else [])"

definition stssIndices :: "bufferedSample list \<Rightarrow> u32 list" where
  "stssIndices samples = map (\<lambda>i. of_nat (i + 1)) (filter (\<lambda>i. bs_isKey (samples ! i)) [0..<length samples])"

definition mp4_buildStss :: "mp4Track \<Rightarrow> bytes" where
  "mp4_buildStss t = (let indices = stssIndices (mt_samples t)
    in makeFullBox ''stss'' 0 0 (put32 (of_nat (length indices)) @ concat (map put32 indices)))"

definition mp4_buildStsc :: "mp4Track \<Rightarrow> bytes" where
  "mp4_buildStsc t = makeFullBox ''stsc'' 0 0
    (if length (mt_samples t) > 0 then put32 1 @ put32 1 @ put32 1 @ put32 1 else put32 0)"

definition mp4_buildStsz :: "mp4Track \<Rightarrow> bytes" where
  "mp4_buildStsz t = makeFullBox ''stsz'' 0 0
    (put32 0 @ put32 (of_nat (length (mt_samples t))) @ concat (map (\<lambda>s. put32 (of_nat (length (bs_data s)))) (mt_samples t)))"

fun stcoOffsets :: "int \<Rightarrow> bufferedSample list \<Rightarrow> int list" where
  "stcoOffsets offset [] = []"
| "stcoOffsets offset (s # rest) = offset # stcoOffsets (wrap64 (offset + int (length (bs_data s)))) rest"

definition mp4_buildStco :: "mp4Track \<Rightarrow> int \<Rightarrow> bytes" where
  "mp4_buildStco t base = makeFullBox ''stco'' 0 0
    (put32 (of_nat (length (mt_samples t))) @ concat (map (\<lambda>offset. put32 (word_of_int offset)) (stcoOffsets base (mt_samples t))))"

definition mp4_buildStbl :: "mp4Track \<Rightarrow> int \<Rightarrow> bytes option" where
  "mp4_buildStbl t base = do {
     stsd \<leftarrow> mp4_buildStsd t;
     Some (makeBox ''stbl'' (stsd @ mp4_buildStts t @ mp4_buildCtts t @ (if mt_isVideo t then mp4_buildStss t else [])
       @ mp4_buildStsc t @ mp4_buildStsz t @ mp4_buildStco t base))
   }"

subsection \<open>The movie box\<close>

definition mp4_ticks :: "mp4Track \<Rightarrow> u64" where
  "mp4_ticks t = foldl (\<lambda>ticks s. ticks + ucast (bs_duration s)) 0 (mt_samples t)"

definition mp4_millis :: "mp4Track \<Rightarrow> u32 option" where
  "mp4_millis t = (if mt_timescale t = 0 then None else Some (ucast ((mp4_ticks t * 1000) div ucast (mt_timescale t))))"

fun mp4_movieDuration :: "u32 \<Rightarrow> mp4Track list \<Rightarrow> u32 option" where
  "mp4_movieDuration maxMs [] = Some maxMs"
| "mp4_movieDuration maxMs (t # ts) = do {
     ms \<leftarrow> mp4_millis t;
     mp4_movieDuration (if ms > maxMs then ms else maxMs) ts
   }"

definition mp4_buildTkhd :: "mp4Track \<Rightarrow> bytes option" where
  "mp4_buildTkhd t = do {
     durMs \<leftarrow> mp4_millis t;
     Some (makeFullBox ''tkhd'' 0 3
       (put32 0 @ put32 0 @ put32 (mt_id t) @ put32 0 @ put32 durMs @ writeZeros 8 @ put16 0 @ put16 0
        @ (if mt_isVideo t then put16 0 else put16 0x0100) @ put16 0 @ identityMatrix
        @ (case videoDims (mt_codec t) of
             Some (w, h) \<Rightarrow> put32 (push_bit 16 (word_of_int w)) @ put32 (push_bit 16 (word_of_int h))
           | None \<Rightarrow> put32 0 @ put32 0)))
   }"

definition mp4_buildMdhd :: "mp4Track \<Rightarrow> bytes" where
  "mp4_buildMdhd t = makeFullBox ''mdhd'' 0 0
    (put32 0 @ put32 0 @ put32 (mt_timescale t) @ put32 (ucast (mp4_ticks t)) @ put16 0x55c4 @ put16 0)"

definition mp4_buildHdlr :: "mp4Track \<Rightarrow> bytes" where
  "mp4_buildHdlr t = makeFullBox ''hdlr'' 0 0
    (put32 0 @
     (if mt_isVideo t
      then strbytes ''vide'' @ writeZeros 12 @ strbytes ''VideoHandler''
      else strbytes ''soun'' @ writeZeros 12 @ strbytes ''SoundHandler'')
     @ [0])"

definition mp4_buildMinf :: "mp4Track \<Rightarrow> int \<Rightarrow> bytes option" where
  "mp4_buildMinf t base = do {
     stbl \<leftarrow> mp4_buildStbl t base;
     Some (makeBox ''minf'' ((if mt_isVideo t then buildVmhd else buildSmhd) @ buildDinf @ stbl))
   }"

definition mp4_buildMdia :: "mp4Track \<Rightarrow> int \<Rightarrow> bytes option" where
  "mp4_buildMdia t base = do {
     minf \<leftarrow> mp4_buildMinf t base;
     Some (makeBox ''mdia'' (mp4_buildMdhd t @ mp4_buildHdlr t @ minf))
   }"

definition mp4_buildTrak :: "mp4Track \<Rightarrow> int \<Rightarrow> bytes option" where
  "mp4_buildTrak t base = do {
     tkhd \<leftarrow> mp4_buildTkhd t;
     mdia \<leftarrow> mp4_buildMdia t base;
     Some (makeBox ''trak'' (tkhd @ mdia))
   }"

definition mp4_buildMvhd :: "u32 \<Rightarrow> bytes" where
  "mp4_buildMvhd durationMs = makeFullBox ''mvhd'' 0 0
    (put32 0 @ put32 0 @ put32 1000 @ put32 durationMs @ put32 0x00010000 @ put16 0x0100 @ writeZeros 10
     @ identityMatrix @ writeZeros 24 @ put32 0xFFFFFFFF)"

definition mp4_buildMoov :: "mp4Track list \<Rightarrow> int list option \<Rightarrow> bytes option" where
  "mp4_buildMoov tracks trackBases = do {
     durationMs \<leftarrow> mp4_movieDuration 0 tracks;
     traks \<leftarrow> those (map2 mp4_buildTrak tracks (case trackBases of None \<Rightarrow> replicate (length tracks) 0 | Some bs \<Rightarrow> bs));
     Some (makeBox ''moov'' (mp4_buildMvhd durationMs @ concat traks))
   }"

definition mp4_buildFtyp :: "mp4Track list \<Rightarrow> bytes" where
  "mp4_buildFtyp tracks =
    (let codecBrand = (if list_ex (\<lambda>t. isH265 (mt_codec t)) tracks then ''hev1'' else ''avc1'')
     in makeBox ''ftyp''
       (strbytes ''isom'' @ put32 0x00000200 @ strbytes ''isom'' @ strbytes ''iso2''
        @ strbytes codecBrand @ strbytes ''mp41''))"

subsection \<open>Writing the file\<close>

definition trackBytes :: "mp4Track \<Rightarrow> int" where
  "trackBytes t = int (sum_list (map (\<lambda>s. length (bs_data s)) (mt_samples t)))"

fun mp4_trackBases :: "int \<Rightarrow> int \<Rightarrow> mp4Track list \<Rightarrow> int list" where
  "mp4_trackBases mdatBase acc [] = []"
| "mp4_trackBases mdatBase acc (t # ts) = wrap64 (mdatBase + acc) # mp4_trackBases mdatBase (wrap64 (acc + trackBytes t)) ts"

definition mdatPayloadSize :: "mp4Track list \<Rightarrow> int" where
  "mdatPayloadSize tracks = foldl (\<lambda>acc t. wrap64 (acc + trackBytes t)) 0 tracks"

fun writeParts :: "writer \<Rightarrow> bytes list \<Rightarrow> bool \<times> writer" where
  "writeParts w [] = (True, w)"
| "writeParts w (b # bs) = (case Write w b of (False, w') \<Rightarrow> (False, w') | (True, w') \<Rightarrow> writeParts w' bs)"

definition mp4_flush :: "Mp4Muxer \<Rightarrow> (mp4_error option \<times> Mp4Muxer) option" where
  "mp4_flush m = do {
     let ftyp = mp4_buildFtyp (pm_tracks m);
     moovPass1 \<leftarrow> mp4_buildMoov (pm_tracks m) None;
     let mdatBase = wrap64 (int (length ftyp) + int (length moovPass1) + 8);
     moovFinal \<leftarrow> mp4_buildMoov (pm_tracks m) (Some (mp4_trackBases mdatBase 0 (pm_tracks m)));
     let mdatHdr = put32 (word_of_int (8 + mdatPayloadSize (pm_tracks m))) @ strbytes ''mdat'';
     Some (case writeParts (pm_w m) ([ftyp, moovFinal, mdatHdr] @ concat (map (\<lambda>t. map bs_data (mt_samples t)) (pm_tracks m))) of
       (ok, w) \<Rightarrow> (if ok then None else Some Mp4ErrWriter, m\<lparr>pm_w := w\<rparr>))
   }"

definition mp4_WriteTrailer :: "Mp4Muxer \<Rightarrow> (mp4_error option \<times> Mp4Muxer) option" where
  "mp4_WriteTrailer m =
    (if pm_closed m then Some (Some Mp4TrailerAlreadyWritten, m) else mp4_flush (m\<lparr>pm_closed := True\<rparr>))"

definition mp4_Close :: "Mp4Muxer \<Rightarrow> (bool \<times> Mp4Muxer) option" where
  "mp4_Close m = do {
     m1 \<leftarrow> (if pm_closed m then Some m else map_option snd (mp4_WriteTrailer m));
     Some (if pm_writerClosed m1 then (True, m1)
       else case CloseWriter (pm_w m1) of (ok, w) \<Rightarrow> (ok, m1\<lparr>pm_writerClosed := True, pm_w := w\<rparr>))
   }"

end
