(* ===== verification/Mp4_Demux.thy ===== *)
theory Mp4_Demux
  imports Fmp4_Demux
begin

text \<open>
  The demuxer of \<^verbatim>\<open>av/format/mp4/demuxer.go\<close> on a file of bytes.  The box searches, the descriptor parsers and the
  sample entry parsers have the same text as in \<^verbatim>\<open>av/format/fmp4/demuxer.go\<close> and are shared with that development, except that
  this package knows no FLAC entry.  A file offset is below 2^62; an allocation succeeds up to the limit of the
  runtime, 2^48 bytes.  A run-time panic is the error \<^const>\<open>DPanic\<close>.
\<close>

record sampleEntry =
  se_streamIdx :: u16
  se_codecType :: codec_type
  se_offset :: int
  se_size :: u32
  se_dts :: duration
  se_ptsOffset :: duration
  se_duration :: duration
  se_isKey :: bool

record Mp4Demuxer =
  pd_file :: bytes
  pd_streams :: "stream list"
  pd_samples :: "sampleEntry list"
  pd_pos :: nat

definition mp4_NewDemuxer :: "bytes \<Rightarrow> Mp4Demuxer" where
  "mp4_NewDemuxer file = \<lparr>pd_file = file, pd_streams = [], pd_samples = [], pd_pos = 0\<rparr>"

definition readAt :: "bytes \<Rightarrow> nat \<Rightarrow> nat \<Rightarrow> demux_error + bytes" where
  "readAt file p n =
    (if n = 0 then Inr [] else if p + n \<le> length file then Inr (slice file p (p + n))
     else if length file \<le> p then Inl DEOF else Inl DUnexpectedEOF)"

definition topBoxSize :: "bytes \<Rightarrow> nat \<Rightarrow> u32 \<Rightarrow> int" where
  "topBoxSize file p sz =
    (if sz = 1 then sint (be64 (slice file (p + 8) (p + 16)))
     else if sz = 0 then int (length file) - int p else uint sz)"

function findTopLevelBox :: "bytes \<Rightarrow> nat \<Rightarrow> string \<Rightarrow> demux_error + bytes" where
  "findTopLevelBox file p want =
    (if length file < p + 8 then Inl ErrNoMoovBox
     else let size = be32 (slice file p (p + 4)); boxTyp = gostring (slice file (p + 4) (p + 8)) in
       if size = 1 \<and> length file < p + 16 then Inl (if length file \<le> p + 8 then DEOF else DUnexpectedEOF)
       else let boxSize = topBoxSize file p size; headerSize = (if size = 1 then 16 else 8);
                payloadSize = wrap64 (boxSize - int headerSize) in
         if payloadSize < 0 then Inl ErrMalformed
         else if boxTyp = want then
           (if payloadSize > 2 ^ 48 then Inl DPanic else readAt file (p + headerSize) (nat payloadSize))
         else if boxSize \<le> 0 \<or> 2 ^ 63 \<le> int p + boxSize then Inl ErrNoMoovBox
         else findTopLevelBox file (nat (int p + boxSize)) want)"
  by pat_completeness auto
termination
  by (relation "measure (\<lambda>(file, p, want). length file - p)") auto

declare findTopLevelBox.simps [simp del]

subsection \<open>Sample entries\<close>

definition mp4_parseStsdEntry :: "bytes \<Rightarrow> demux_error + codec_data \<times> bool" where
  "mp4_parseStsdEntry data =
    (if length data < 8 then Inl ErrMalformed
     else let size = be32 (slice data 0 4) in
       if size < 8 \<or> unat size > length data then Inl ErrMalformed
       else let ty = gostring (slice data 4 8); entryPayload = slice data 8 (unat size) in
         if ty = ''avc1'' \<or> ty = ''avc3'' then parseVisualEntry newH264 ''avcC'' entryPayload
         else if ty = ''hev1'' \<or> ty = ''hvc1'' then parseVisualEntry newH265 ''hvcC'' entryPayload
         else if ty = ''mp4a'' then
           (if length entryPayload < audioSampleEntryHeaderSize then Inl ErrMalformed
            else case findBox (drop audioSampleEntryHeaderSize entryPayload) ''esds'' of
              None \<Rightarrow> Inl ErrMalformed
            | Some esdsPayload \<Rightarrow>
                (case parseEsds esdsPayload of
                   None \<Rightarrow> Inl ErrMalformed
                 | Some asc \<Rightarrow>
                     (case aac_NewCodecDataFromMPEG4AudioConfigBytes asc of
                        Inl e \<Rightarrow> Inl DErrCodec
                      | Inr c \<Rightarrow> Inr (AACCodec c, False))))
         else Inl DErrUnsupportedCodec)"

subsection \<open>Sample tables\<close>

definition parseStsz :: "bytes \<Rightarrow> demux_error + u32 list" where
  "parseStsz stbl =
    (case findBox stbl ''stsz'' of
       None \<Rightarrow> Inl ErrMalformed
     | Some p \<Rightarrow>
         if length p < 12 then Inl ErrMalformed
         else let constantSize = be32 (slice p 4 8); count = unat (be32 (slice p 8 12)) in
           if count = 0 then Inr []
           else if constantSize \<noteq> 0 then Inr (replicate count constantSize)
           else if length p < 12 + count * 4 then Inl ErrMalformed
           else Inr (map (\<lambda>i. be32 (drop (12 + i * 4) p)) [0..<count]))"

definition parseChunkOffsets :: "bytes \<Rightarrow> demux_error + int list" where
  "parseChunkOffsets stbl =
    (case findBox stbl ''co64'' of
       Some p \<Rightarrow>
         if length p < 8 then Inl ErrMalformed
         else let count = unat (be32 (slice p 4 8)) in
           if length p < 8 + count * 8 then Inl ErrMalformed
           else Inr (map (\<lambda>i. sint (be64 (drop (8 + i * 8) p))) [0..<count])
     | None \<Rightarrow>
         (case findBox stbl ''stco'' of
            Some p \<Rightarrow>
              if length p < 8 then Inl ErrMalformed
              else let count = unat (be32 (slice p 4 8)) in
                if length p < 8 + count * 4 then Inl ErrMalformed
                else Inr (map (\<lambda>i. uint (be32 (drop (8 + i * 4) p))) [0..<count])
          | None \<Rightarrow> Inl ErrMalformed))"

text \<open>The loop over the entries of \<^verbatim>\<open>stsc\<close>; a first chunk of zero indexes the slice at -1.\<close>

fun chunkFill :: "nat \<Rightarrow> (nat \<times> nat) list \<Rightarrow> nat list \<Rightarrow> nat list option" where
  "chunkFill numChunks [] result = Some result"
| "chunkFill numChunks ((firstChunk, spc) # es) result =
    (let lastChunk = (case es of [] \<Rightarrow> int numChunks | (fc, _) # _ \<Rightarrow> int fc - 1); hi = min lastChunk (int numChunks)
     in if firstChunk = 0 \<and> 0 \<le> hi then None
        else chunkFill numChunks es (foldl (\<lambda>r c. r[c - 1 := spc]) result [firstChunk..<nat (hi + 1)]))"

definition buildChunkSamplesMap :: "bytes \<Rightarrow> nat \<Rightarrow> demux_error + nat list" where
  "buildChunkSamplesMap stbl numChunks =
    (case findBox stbl ''stsc'' of
       None \<Rightarrow> Inl ErrMalformed
     | Some p \<Rightarrow>
         if length p < 8 then Inl ErrMalformed
         else let entryCount = unat (be32 (slice p 4 8)) in
           if length p < 8 + entryCount * 12 then Inl ErrMalformed
           else case chunkFill numChunks
               (map (\<lambda>i. (unat (be32 (drop (8 + i * 12) p)), unat (be32 (drop (12 + i * 12) p)))) [0..<entryCount])
               (replicate numChunks 0) of
             None \<Rightarrow> Inl DPanic | Some r \<Rightarrow> Inr r)"

text \<open>The entries of the run-length tables \<^verbatim>\<open>stts\<close> and \<^verbatim>\<open>ctts\<close>, or nothing when the table is malformed.\<close>

definition runEntries :: "bytes \<Rightarrow> (nat \<times> u32) list option" where
  "runEntries p =
    (if length p < 8 then None
     else let entryCount = unat (be32 (slice p 4 8)) in
       if length p < 8 + entryCount * 8 then None
       else Some (map (\<lambda>i. (unat (be32 (drop (8 + i * 8) p)), be32 (drop (12 + i * 8) p))) [0..<entryCount]))"

fun sttsFill :: "u32 \<Rightarrow> nat \<Rightarrow> int \<Rightarrow> (nat \<times> u32) list \<Rightarrow> (duration \<times> duration) list" where
  "sttsFill timescale 0 dts es = []"
| "sttsFill timescale n dts [] = replicate n (0, 0)"
| "sttsFill timescale n dts ((0, delta) # es) = sttsFill timescale n dts es"
| "sttsFill timescale (Suc n) dts ((Suc c, delta) # es) =
    (ticksToDuration dts timescale, ticksToDuration (uint delta) timescale)
    # sttsFill timescale n (wrap64 (dts + uint delta)) ((c, delta) # es)"

definition parseStts :: "bytes \<Rightarrow> nat \<Rightarrow> u32 \<Rightarrow> demux_error + (duration \<times> duration) list" where
  "parseStts stbl n timescale =
    (case findBox stbl ''stts'' of
       None \<Rightarrow> Inl ErrMalformed
     | Some p \<Rightarrow> (case runEntries p of None \<Rightarrow> Inl ErrMalformed | Some es \<Rightarrow> Inr (sttsFill timescale n 0 es)))"

fun cttsFill :: "u32 \<Rightarrow> nat \<Rightarrow> (nat \<times> u32) list \<Rightarrow> duration list" where
  "cttsFill timescale n [] = replicate n 0"
| "cttsFill timescale n ((c, offset) # es) =
    replicate (min c n) (ticksToDuration (sint offset) timescale) @ cttsFill timescale (n - c) es"

definition parseCtts :: "bytes \<Rightarrow> nat \<Rightarrow> u32 \<Rightarrow> duration list option" where
  "parseCtts stbl n timescale =
    (case findBox stbl ''ctts'' of
       None \<Rightarrow> None
     | Some p \<Rightarrow> (case runEntries p of None \<Rightarrow> None | Some es \<Rightarrow> Some (cttsFill timescale n es)))"

definition parseStss :: "bytes \<Rightarrow> nat \<Rightarrow> bool \<Rightarrow> bool list" where
  "parseStss stbl n isVideo =
    (if \<not> isVideo then replicate n False
     else case findBox stbl ''stss'' of
       None \<Rightarrow> replicate n True
     | Some p \<Rightarrow>
         if length p < 8 then replicate n True
         else let entryCount = unat (be32 (slice p 4 8)) in
           if length p < 8 + entryCount * 4 then replicate n True
           else let indices = map (\<lambda>i. unat (be32 (drop (8 + i * 4) p))) [0..<entryCount]
             in map (\<lambda>i. i + 1 \<in> set indices) [0..<n])"

fun offsetsFrom :: "int \<Rightarrow> int \<Rightarrow> u32 list \<Rightarrow> int list" where
  "offsetsFrom chunkBase acc [] = []"
| "offsetsFrom chunkBase acc (s # ss) = wrap64 (chunkBase + acc) # offsetsFrom chunkBase (wrap64 (acc + uint s)) ss"

fun placeSamples :: "(nat \<times> int) list \<Rightarrow> u32 list \<Rightarrow> int list" where
  "placeSamples [] sizes = replicate (length sizes) 0"
| "placeSamples ((spc, chunkBase) # cs) sizes = offsetsFrom chunkBase 0 (take spc sizes) @ placeSamples cs (drop spc sizes)"

definition parseSampleTable :: "bytes \<Rightarrow> u32 \<Rightarrow> u16 \<Rightarrow> codec_type \<Rightarrow> bool \<Rightarrow> demux_error + sampleEntry list" where
  "parseSampleTable stbl timescale streamIdx ct isVideo =
    andThen (parseStsz stbl) (\<lambda>sizes.
    let n = length sizes in
    if n = 0 then Inr []
    else andThen (parseChunkOffsets stbl) (\<lambda>chunkOffsets.
    andThen (buildChunkSamplesMap stbl (length chunkOffsets)) (\<lambda>chunkSamples.
    andThen (parseStts stbl n timescale) (\<lambda>times.
    let ptsOffsets = parseCtts stbl n timescale;
        keyframes = parseStss stbl n isVideo;
        sampleOffsets = placeSamples (zip chunkSamples chunkOffsets) sizes
    in Inr (map (\<lambda>i. \<lparr>se_streamIdx = streamIdx, se_codecType = ct, se_offset = sampleOffsets ! i, se_size = sizes ! i,
         se_dts = fst (times ! i), se_ptsOffset = (case ptsOffsets of None \<Rightarrow> 0 | Some os \<Rightarrow> os ! i),
         se_duration = snd (times ! i), se_isKey = keyframes ! i\<rparr>) [0..<n])))))"

subsection \<open>The movie box\<close>

definition mp4_parseTrak :: "bytes \<Rightarrow> u16 \<Rightarrow> demux_error + stream \<times> sampleEntry list" where
  "mp4_parseTrak payload streamIdx =
    andThen (orMalformed (findBox payload ''mdia'')) (\<lambda>mdia.
    andThen (orMalformed (findBox mdia ''mdhd'')) (\<lambda>mdhd.
    andThen (orMalformed (parseMdhdTimescale mdhd)) (\<lambda>timescale.
    andThen (orMalformed (findBox mdia ''minf'')) (\<lambda>minf.
    andThen (orMalformed (findBox minf ''stbl'')) (\<lambda>stbl.
    andThen (orMalformed (findBox stbl ''stsd'')) (\<lambda>stsd.
    if length stsd < 8 then Inl ErrMalformed
    else andThen (mp4_parseStsdEntry (drop 8 stsd)) (\<lambda>(codec, isVideo).
    andThen (parseSampleTable stbl timescale streamIdx (codecType codec) isVideo) (\<lambda>samples.
    Inr (\<lparr>s_Idx = streamIdx, s_Codec = codec\<rparr>, samples)))))))))"

text \<open>Errors skip a track and leave its number to the next one; a panic ends everything.\<close>

fun mp4_parseTraks :: "nat \<Rightarrow> bytes list \<Rightarrow> (stream list \<times> sampleEntry list) option" where
  "mp4_parseTraks k [] = Some ([], [])"
| "mp4_parseTraks k (trak # rest) =
    (case mp4_parseTrak trak (of_nat k) of
       Inl DPanic \<Rightarrow> None
     | Inl _ \<Rightarrow> mp4_parseTraks k rest
     | Inr (s, samples) \<Rightarrow> map_option (\<lambda>(ss, es). (s # ss, samples @ es)) (mp4_parseTraks (k + 1) rest))"

definition parseMoovPayload :: "bytes \<Rightarrow> demux_error + stream list \<times> sampleEntry list" where
  "parseMoovPayload moov =
    (case mp4_parseTraks 0 (findBoxes moov ''trak'') of
       None \<Rightarrow> Inl DPanic
     | Some (streams, allSamples) \<Rightarrow>
         if length streams = 0 then Inl ErrNoMoovBox else Inr (streams, sort_key se_dts allSamples))"

subsection \<open>Operations\<close>

definition mp4_GetCodecs :: "Mp4Demuxer \<Rightarrow> (demux_error + stream list) \<times> Mp4Demuxer" where
  "mp4_GetCodecs d =
    (case andThen (findTopLevelBox (pd_file d) 0 ''moov'') parseMoovPayload of
       Inl e \<Rightarrow> (Inl e, d)
     | Inr (streams, samples) \<Rightarrow> (Inr streams, d\<lparr>pd_streams := streams, pd_samples := samples\<rparr>))"

definition mp4_ReadPacket :: "Mp4Demuxer \<Rightarrow> (demux_error + packet) \<times> Mp4Demuxer" where
  "mp4_ReadPacket d =
    (if pd_pos d \<ge> length (pd_samples d) then (Inl DEOF, d)
     else let s = pd_samples d ! pd_pos d; d1 = d\<lparr>pd_pos := pd_pos d + 1\<rparr> in
       if se_offset s < 0 then (Inl DErrSeek, d1)
       else case readAt (pd_file d) (nat (se_offset s)) (unat (se_size s)) of
         Inl e \<Rightarrow> (Inl e, d1)
       | Inr data \<Rightarrow>
           (Inr (zero_packet\<lparr>Idx := se_streamIdx s, KeyFrame := se_isKey s, DTS := se_dts s, PTSOffset := se_ptsOffset s,
              Duration := se_duration s, CodecType := se_codecType s, Data := data\<rparr>), d1))"

fun mp4_drain :: "nat \<Rightarrow> Mp4Demuxer \<Rightarrow> packet list \<times> demux_error option" where
  "mp4_drain 0 d = ([], None)"
| "mp4_drain (Suc n) d =
    (case mp4_ReadPacket d of
       (Inl e, d') \<Rightarrow> ([], Some e)
     | (Inr p, d') \<Rightarrow> (case mp4_drain n d' of (ps, e) \<Rightarrow> (p # ps, e)))"

end
