(* ===== verification/Mp4_Tables.thy ===== *)
theory Mp4_Tables
  imports Mp4_Mux Mp4_Demux
begin

text \<open>
  The sample tables of an MP4 track: what the builders of \<^verbatim>\<open>av/format/mp4/muxer.go\<close> write is what the parsers of
  \<^verbatim>\<open>demuxer.go\<close> read back, table by table and for the whole track.
\<close>

subsection \<open>Arrays of words\<close>

lemma drop_words: "i \<le> length xs \<Longrightarrow> drop (i * 4) (concat (map put32 xs) @ r) = concat (map put32 (drop i xs)) @ r"
proof (induction xs arbitrary: i)
  case (Cons x xs)
  show ?case
  proof (cases i)
    case (Suc j)
    have "drop (i * 4) (concat (map put32 (x # xs)) @ r) = drop (j * 4) (concat (map put32 xs) @ r)"
      by (simp add: Suc add.commute [of 4])
    then show ?thesis
      using Cons.IH [of j] Cons.prems by (simp add: Suc)
  qed simp
qed simp

lemma word_at:
  assumes "length h = a" "i < length xs"
  shows "be32 (drop (a + i * 4) (h @ concat (map put32 xs) @ r)) = xs ! i"
proof -
  have "drop (a + i * 4) (h @ concat (map put32 xs) @ r) = concat (map put32 (drop i xs)) @ r"
    using drop_words [of i xs r] assms by (simp flip: drop_drop)
  then show ?thesis
    using assms(2) by (simp add: Cons_nth_drop_Suc [symmetric])
qed

lemma words_at:
  "length h = a \<Longrightarrow> map (\<lambda>i. f (be32 (drop (a + i * 4) (h @ concat (map put32 xs) @ r)))) [0..<length xs] = map f xs"
  by (rule nth_equalityI) (simp_all add: word_at del: drop_append)

lemma length_words [simp]: "length (concat (map put32 xs)) = 4 * length xs"
  by (induction xs) simp_all

lemma length_words_comp [simp]: "length (concat (map (put32 \<circ> f) xs)) = 4 * length xs"
  by (induction xs) simp_all

lemma words_map: "concat (map (\<lambda>x. put32 (f x)) xs) = concat (map put32 (map f xs))"
  by (simp add: comp_def)

lemma count_field: "length h = 4 \<Longrightarrow> n < 2 ^ 32 \<Longrightarrow> unat (be32 (slice (h @ put32 (of_nat n) @ r) 4 8)) = n"
  by (simp add: slice_middle unat_of_nat_u32)

subsection \<open>Run-length tables\<close>

definition expand :: "(u32 \<times> u32) list \<Rightarrow> u32 list" where
  "expand es = concat (map (\<lambda>(c, d). replicate (unat c) d) es)"

lemma addRun_expand:
  assumes "length (expand es) + 1 < 2 ^ 32"
  shows "expand (addRun es d) = expand es @ [d]"
proof (cases "es \<noteq> [] \<and> snd (last es) = d")
  case True
  then obtain c init where es: "es = init @ [(c, d)]"
    by (metis append_butlast_last_id prod.collapse)
  have "unat c + 1 < 2 ^ 32"
    using assms by (simp add: es expand_def)
  then have "unat (c + 1) = unat c + 1"
    by (simp add: unat_plus_if_size word_size)
  then show ?thesis
    by (simp add: es addRun_def expand_def replicate_append_same)
next
  case False
  then show ?thesis
    by (auto simp: addRun_def expand_def)
qed

lemma length_addRun: "length (addRun es d) \<le> length es + 1"
  by (cases es) (auto simp: addRun_def)

lemma runs_expand: "length ds < 2 ^ 32 \<Longrightarrow> expand (runs ds) = ds \<and> length (runs ds) \<le> length ds"
proof (induction ds rule: rev_induct)
  case (snoc d ds)
  then show ?case
    using addRun_expand [of "runs ds" d] length_addRun [of "runs ds" d] by (auto simp: runs_def)
qed (simp add: runs_def expand_def)

definition runWords :: "(u32 \<times> u32) list \<Rightarrow> u32 list" where
  "runWords es = concat (map (\<lambda>(c, d). [c, d]) es)"

lemma putRuns_words: "putRuns es = put32 (of_nat (length es)) @ concat (map put32 (runWords es))"
  by (simp add: putRuns_def runWords_def) (induction es; auto)

lemma runWords_nth: "i < length es \<Longrightarrow> runWords es ! (2 * i) = fst (es ! i) \<and> runWords es ! (2 * i + 1) = snd (es ! i)"
proof (induction es arbitrary: i)
  case (Cons e es)
  then show ?case by (cases i) (auto simp: runWords_def split: prod.splits)
qed simp

lemma length_runWords [simp]: "length (runWords es) = 2 * length es"
  by (induction es) (auto simp: runWords_def)

lemma runEntries_putRuns:
  assumes "length h = 4" "length es < 2 ^ 32"
  shows "runEntries (h @ putRuns es) = Some (map (\<lambda>(c, d). (unat c, d)) es)"
proof -
  have at: "be32 (drop (8 + j * 4) (h @ putRuns es)) = runWords es ! j" if "j < 2 * length es" for j
    using word_at [of "h @ put32 (of_nat (length es))" 8 j "runWords es" "[]"] assms(1) that by (simp add: putRuns_words)
  have "map (\<lambda>i. (unat (be32 (drop (8 + i * 8) (h @ putRuns es))), be32 (drop (12 + i * 8) (h @ putRuns es)))) [0..<length es] =
      map (\<lambda>(c, d). (unat c, d)) es"
  proof (rule nth_equalityI)
    fix i
    assume "i < length (map (\<lambda>i. (unat (be32 (drop (8 + i * 8) (h @ putRuns es))), be32 (drop (12 + i * 8) (h @ putRuns es)))) [0..<length es])"
    then show "map (\<lambda>i. (unat (be32 (drop (8 + i * 8) (h @ putRuns es))), be32 (drop (12 + i * 8) (h @ putRuns es)))) [0..<length es] ! i =
        map (\<lambda>(c, d). (unat c, d)) es ! i"
      using at [of "2 * i"] at [of "2 * i + 1"] runWords_nth [of i es]
      by (simp add: split_beta mult.commute mult.left_commute)
  qed simp
  then show ?thesis
    using assms count_field [OF assms(1), of "length es" "concat (map put32 (runWords es))"]
    by (simp add: runEntries_def Let_def putRuns_words [symmetric]) (simp add: putRuns_words)
qed

fun sttsTimes :: "u32 \<Rightarrow> int \<Rightarrow> u32 list \<Rightarrow> (duration \<times> duration) list" where
  "sttsTimes timescale dts [] = []"
| "sttsTimes timescale dts (d # ds) =
    (ticksToDuration dts timescale, ticksToDuration (uint d) timescale) # sttsTimes timescale (wrap64 (dts + uint d)) ds"

lemma sttsFill_zero: "sttsFill timescale n dts ((0, d) # es) = sttsFill timescale n dts es"
  by (cases n) simp_all

lemma sttsFill_run:
  "\<exists>dts'. sttsFill timescale (c + n) dts ((c, d) # es) = sttsTimes timescale dts (replicate c d) @ sttsFill timescale n dts' es \<and>
    (\<forall>ds. sttsTimes timescale dts (replicate c d @ ds) = sttsTimes timescale dts (replicate c d) @ sttsTimes timescale dts' ds)"
proof (induction c arbitrary: dts)
  case 0
  then show ?case by (auto simp: sttsFill_zero)
next
  case (Suc c)
  then show ?case by auto
qed

lemma sttsFill_expand:
  "sttsFill timescale (length (expand es)) dts (map (\<lambda>(c, d). (unat c, d)) es) = sttsTimes timescale dts (expand es)"
proof (induction es arbitrary: dts)
  case (Cons e es)
  obtain c d where e: "e = (c, d)"
    by (cases e)
  have x: "expand (e # es) = replicate (unat c) d @ expand es"
    by (simp add: e expand_def)
  obtain dts' where dts': "sttsFill timescale (unat c + length (expand es)) dts ((unat c, d) # map (\<lambda>(c, d). (unat c, d)) es) =
      sttsTimes timescale dts (replicate (unat c) d) @ sttsFill timescale (length (expand es)) dts' (map (\<lambda>(c, d). (unat c, d)) es)"
    "\<forall>ds. sttsTimes timescale dts (replicate (unat c) d @ ds) = sttsTimes timescale dts (replicate (unat c) d) @ sttsTimes timescale dts' ds"
    using sttsFill_run by metis
  then show ?case
    using Cons.IH [of dts'] unfolding x by (simp add: e)
qed (simp add: expand_def)

lemma cttsFill_expand:
  "cttsFill timescale (length (expand es)) (map (\<lambda>(c, d). (unat c, d)) es) = map (\<lambda>d. ticksToDuration (sint d) timescale) (expand es)"
  by (induction es) (auto simp: expand_def)

lemma length_sttsTimes [simp]: "length (sttsTimes timescale dts ds) = length ds"
  by (induction ds arbitrary: dts) simp_all

subsection \<open>Chunks\<close>

lemma chunkFill_one:
  assumes "length r = n" shows "chunkFill n [(1, 1)] r = Some (replicate n 1)"
proof -
  have step: "foldl (\<lambda>r c. r[c - 1 := 1]) r [1..<Suc k] = replicate k 1 @ drop k r" if "k \<le> n" for k
    using that
  proof (induction k)
    case (Suc k)
    have "foldl (\<lambda>r c. r[c - 1 := 1]) r [1..<Suc (Suc k)] = (replicate k 1 @ drop k r)[k := 1]"
      using Suc by simp
    also have "\<dots> = replicate (Suc k) 1 @ drop (Suc k) r"
      using Suc.prems assms by (simp add: list_update_append Cons_nth_drop_Suc [symmetric] replicate_append_same)
    finally show ?case .
  qed simp
  have "nat (int n + 1) = Suc n"
    by simp
  then show ?thesis
    using step [of n] assms by (simp add: Let_def del: upt_Suc)
qed

lemma placeSamples_one:
  assumes "length offsets = length sizes" "\<forall>x\<in>set offsets. in64 x"
  shows "placeSamples (zip (replicate (length offsets) 1) offsets) sizes = offsets"
  using assms
proof (induction offsets sizes rule: list_induct2)
  case (Cons x xs y ys)
  then show ?case
    by (simp add: goint take_Cons drop_Cons)
qed simp

subsection \<open>The tables of a track\<close>

definition stblBoxes :: "mp4Track \<Rightarrow> int \<Rightarrow> bytes \<Rightarrow> (string \<times> bytes) list" where
  "stblBoxes t base entry =
    [(''stsd'', fullHdr 0 0 @ put32 1 @ entry), (''stts'', fullHdr 0 0 @ putRuns (runs (map bs_duration (mt_samples t))))]
    @ (if list_ex (\<lambda>s. bs_ptsOff s \<noteq> 0) (mt_samples t)
       then [(''ctts'', fullHdr 1 0 @ putRuns (runs (map bs_ptsOff (mt_samples t))))] else [])
    @ (if mt_isVideo t
       then [(''stss'', fullHdr 0 0 @ put32 (of_nat (length (stssIndices (mt_samples t)))) @ concat (map put32 (stssIndices (mt_samples t))))]
       else [])
    @ [(''stsc'', fullHdr 0 0 @ (if length (mt_samples t) > 0 then put32 1 @ put32 1 @ put32 1 @ put32 1 else put32 0)),
       (''stsz'', fullHdr 0 0 @ put32 0 @ put32 (of_nat (length (mt_samples t)))
          @ concat (map put32 (map (\<lambda>s. of_nat (length (bs_data s))) (mt_samples t)))),
       (''stco'', fullHdr 0 0 @ put32 (of_nat (length (mt_samples t)))
          @ concat (map put32 (map word_of_int (stcoOffsets base (mt_samples t)))))]"

lemma length_stcoOffsets [simp]: "length (stcoOffsets base ss) = length ss"
  by (induction ss arbitrary: base) simp_all

lemma length_stssIndices: "length (stssIndices ss) \<le> length ss"
  using length_filter_le [of "\<lambda>i. bs_isKey (ss ! i)" "[0..<length ss]"] by (simp add: stssIndices_def)

lemma mp4_buildStbl_boxes:
  "mp4_stsdEntry (mt_codec t) = Some e \<Longrightarrow> mp4_buildStbl t base = Some (makeBox ''stbl'' (fbox.layout (stblBoxes t base e)))"
  by (simp add: mp4_buildStbl_def mp4_buildStsd_def mp4_buildStts_def mp4_buildCtts_def mp4_buildStss_def mp4_buildStsc_def
      mp4_buildStsz_def mp4_buildStco_def makeFullBox_def stblBoxes_def fbox.layout_def Let_def comp_def)

definition track_small :: "mp4Track \<Rightarrow> bytes \<Rightarrow> bool" where
  "track_small t entry \<longleftrightarrow> length (mt_samples t) \<le> 2 ^ 26 \<and> length entry < 2 ^ 20 + 200"

lemma length_putRuns [simp]: "length (putRuns es) = 4 + 8 * length es"
  by (simp add: putRuns_words)

lemma stblBoxes_small:
  assumes "track_small t e"
  shows "\<forall>(ty, p) \<in> set (stblBoxes t base e). box_ok ty p"
    and "length (fbox.layout (stblBoxes t base e)) \<le> length e + 28 * length (mt_samples t) + 200"
proof -
  have r: "length (runs (map f (mt_samples t))) \<le> length (mt_samples t)" for f :: "bufferedSample \<Rightarrow> u32"
    using runs_expand [of "map f (mt_samples t)"] assms by (simp add: track_small_def)
  note len = r [of bs_duration] r [of bs_ptsOff] length_stssIndices [of "mt_samples t"]
  show ok: "\<forall>(ty, p) \<in> set (stblBoxes t base e). box_ok ty p"
    using assms len by (auto simp: stblBoxes_def box_ok_def track_small_def)
  have "length (makeBox ty p) = 8 + length p" if "(ty, p) \<in> set (stblBoxes t base e)" for ty p
    using ok that by (auto simp: box_ok_def intro!: length_makeBox)
  then have sum: "length (fbox.layout (stblBoxes t base e)) = sum_list (map (\<lambda>(ty, p). 8 + length p) (stblBoxes t base e))"
    unfolding fbox.layout_def length_concat map_map by (intro arg_cong [of _ _ sum_list] map_cong) auto
  show "length (fbox.layout (stblBoxes t base e)) \<le> length e + 28 * length (mt_samples t) + 200"
    unfolding sum using len by (auto simp: stblBoxes_def)
qed

lemma stbl_find:
  assumes "track_small t e"
  shows "findBox (fbox.layout (stblBoxes t base e)) ty = map_of (stblBoxes t base e) ty"
  using stblBoxes_small(1) [OF assms] by (rule fbox.find_layout)

definition mp4_entries :: "u16 \<Rightarrow> mp4Track \<Rightarrow> int \<Rightarrow> sampleEntry list" where
  "mp4_entries idx t base =
    map (\<lambda>i. \<lparr>se_streamIdx = idx, se_codecType = codecType (mt_codec t), se_offset = stcoOffsets base (mt_samples t) ! i,
        se_size = of_nat (length (bs_data (mt_samples t ! i))),
        se_dts = fst (sttsTimes (mt_timescale t) 0 (map bs_duration (mt_samples t)) ! i),
        se_ptsOffset = ticksToDuration (sint (bs_ptsOff (mt_samples t ! i))) (mt_timescale t),
        se_duration = snd (sttsTimes (mt_timescale t) 0 (map bs_duration (mt_samples t)) ! i),
        se_isKey = (mt_isVideo t \<and> bs_isKey (mt_samples t ! i))\<rparr>) [0..<length (mt_samples t)]"

lemma parseStsz_stbl:
  assumes "track_small t e"
  shows "parseStsz (fbox.layout (stblBoxes t base e)) = Inr (map (\<lambda>s. of_nat (length (bs_data s))) (mt_samples t))"
proof -
  let ?n = "length (mt_samples t)"
  let ?sizes = "map (\<lambda>s. of_nat (length (bs_data s))) (mt_samples t) :: u32 list"
  define p where "p = fullHdr 0 0 @ put32 0 @ put32 (of_nat ?n) @ concat (map put32 ?sizes)"
  have f: "findBox (fbox.layout (stblBoxes t base e)) ''stsz'' = Some p"
    unfolding stbl_find [OF assms] p_def by (simp add: stblBoxes_def)
  have c: "be32 (slice p 4 8) = 0" "be32 (slice p 8 12) = of_nat ?n" "length p = 12 + ?n * 4"
    by (simp_all add: p_def slice_def)
  have n: "unat (of_nat ?n :: u32) = ?n"
    using assms by (intro unat_of_nat_u32) (simp add: track_small_def)
  have "map (\<lambda>i. be32 (drop (12 + i * 4) p)) [0..<?n] = ?sizes"
    using words_at [of "fullHdr 0 0 @ put32 0 @ put32 (of_nat ?n)" 12 "\<lambda>x. x" ?sizes "[]"] by (simp add: p_def del: drop_append)
  then show ?thesis
    unfolding parseStsz_def f using n by (simp add: c Let_def del: map_map)
qed

lemma parseChunkOffsets_stbl:
  assumes "track_small t e" "\<forall>x\<in>set (stcoOffsets base (mt_samples t)). 0 \<le> x \<and> x < 2 ^ 32"
  shows "parseChunkOffsets (fbox.layout (stblBoxes t base e)) = Inr (stcoOffsets base (mt_samples t))"
proof -
  let ?n = "length (mt_samples t)"
  let ?os = "map word_of_int (stcoOffsets base (mt_samples t)) :: u32 list"
  define p where "p = fullHdr 0 0 @ put32 (of_nat ?n) @ concat (map put32 ?os)"
  have f: "findBox (fbox.layout (stblBoxes t base e)) ''stco'' = Some p" "findBox (fbox.layout (stblBoxes t base e)) ''co64'' = None"
    unfolding stbl_find [OF assms(1)] p_def by (simp_all add: stblBoxes_def)
  have c: "unat (be32 (slice p 4 8)) = ?n" "length p = 8 + ?n * 4"
    using count_field [of "fullHdr 0 0" ?n] assms(1) by (simp_all add: p_def track_small_def)
  have "uint (word_of_int x :: u32) = x" if "x \<in> set (stcoOffsets base (mt_samples t))" for x
    using assms(2) that by (simp add: unsigned_of_int take_bit_int_eq_self)
  then have "map (\<lambda>i. uint (be32 (drop (8 + i * 4) p))) [0..<?n] = stcoOffsets base (mt_samples t)"
    using words_at [of "fullHdr 0 0 @ put32 (of_nat ?n)" 8 uint ?os "[]"] by (simp add: p_def comp_def map_idI del: drop_append)
  then show ?thesis
    unfolding parseChunkOffsets_def f by (simp add: c Let_def)
qed

lemma buildChunkSamplesMap_stbl:
  assumes "track_small t e" "mt_samples t \<noteq> []"
  shows "buildChunkSamplesMap (fbox.layout (stblBoxes t base e)) n = Inr (replicate n 1)"
proof -
  define p where "p = fullHdr 0 0 @ put32 1 @ put32 1 @ put32 1 @ put32 1"
  have f: "findBox (fbox.layout (stblBoxes t base e)) ''stsc'' = Some p"
    unfolding stbl_find [OF assms(1)] p_def using assms(2) by (simp add: stblBoxes_def)
  have c: "be32 (slice p 4 8) = 1" "length p = 20" "be32 (drop 8 p) = 1" "be32 (drop 12 p) = 1"
    by (simp_all add: p_def slice_def)
  show ?thesis
    unfolding buildChunkSamplesMap_def f using chunkFill_one [of "replicate n 0" n] by (simp add: c Let_def)
qed

lemma parseStts_stbl:
  assumes "track_small t e"
  shows "parseStts (fbox.layout (stblBoxes t base e)) (length (mt_samples t)) ts =
    Inr (sttsTimes ts 0 (map bs_duration (mt_samples t)))"
proof -
  let ?r = "runs (map bs_duration (mt_samples t))"
  have r: "expand ?r = map bs_duration (mt_samples t)" "length ?r \<le> length (mt_samples t)"
    using runs_expand [of "map bs_duration (mt_samples t)"] assms by (simp_all add: track_small_def)
  have f: "findBox (fbox.layout (stblBoxes t base e)) ''stts'' = Some (fullHdr 0 0 @ putRuns ?r)"
    unfolding stbl_find [OF assms] by (simp add: stblBoxes_def)
  have "runEntries (fullHdr 0 0 @ putRuns ?r) = Some (map (\<lambda>(c, d). (unat c, d)) ?r)"
    using assms r(2) by (intro runEntries_putRuns) (simp_all add: track_small_def)
  then show ?thesis
    unfolding parseStts_def f using sttsFill_expand [of ts ?r 0] by (simp add: r(1))
qed

lemma parseCtts_stbl:
  assumes "track_small t e" "i < length (mt_samples t)"
  shows "(case parseCtts (fbox.layout (stblBoxes t base e)) (length (mt_samples t)) ts of None \<Rightarrow> 0 | Some os \<Rightarrow> os ! i) =
    ticksToDuration (sint (bs_ptsOff (mt_samples t ! i))) ts"
proof (cases "list_ex (\<lambda>s. bs_ptsOff s \<noteq> 0) (mt_samples t)")
  case True
  let ?r = "runs (map bs_ptsOff (mt_samples t))"
  have r: "expand ?r = map bs_ptsOff (mt_samples t)" "length ?r \<le> length (mt_samples t)"
    using runs_expand [of "map bs_ptsOff (mt_samples t)"] assms by (simp_all add: track_small_def)
  have f: "findBox (fbox.layout (stblBoxes t base e)) ''ctts'' = Some (fullHdr 1 0 @ putRuns ?r)"
    unfolding stbl_find [OF assms(1)] using True by (simp add: stblBoxes_def)
  have "runEntries (fullHdr 1 0 @ putRuns ?r) = Some (map (\<lambda>(c, d). (unat c, d)) ?r)"
    using assms r(2) by (intro runEntries_putRuns) (simp_all add: track_small_def)
  then show ?thesis
    unfolding parseCtts_def f using cttsFill_expand [of ts ?r] assms(2) by (simp add: r(1))
next
  case False
  have f: "findBox (fbox.layout (stblBoxes t base e)) ''ctts'' = None"
    unfolding stbl_find [OF assms(1)] using False by (simp add: stblBoxes_def)
  have "bs_ptsOff (mt_samples t ! i) = 0"
    using False assms(2) by (auto simp: list_ex_iff)
  then show ?thesis
    unfolding parseCtts_def f by (simp add: ticksToDuration_def go_quot_def wrap64_def)
qed

lemma parseStss_stbl:
  assumes "track_small t e" "i < length (mt_samples t)"
  shows "parseStss (fbox.layout (stblBoxes t base e)) (length (mt_samples t)) (mt_isVideo t) ! i =
    (mt_isVideo t \<and> bs_isKey (mt_samples t ! i))"
proof (cases "mt_isVideo t")
  case True
  let ?x = "stssIndices (mt_samples t)"
  define p where "p = fullHdr 0 0 @ put32 (of_nat (length ?x)) @ concat (map put32 ?x)"
  have f: "findBox (fbox.layout (stblBoxes t base e)) ''stss'' = Some p"
    unfolding stbl_find [OF assms(1)] p_def using True by (simp add: stblBoxes_def)
  have c: "unat (be32 (slice p 4 8)) = length ?x" "length p = 8 + length ?x * 4"
    using count_field [of "fullHdr 0 0" "length ?x"] length_stssIndices [of "mt_samples t"] assms(1)
    by (simp_all add: p_def track_small_def)
  have "map (\<lambda>i. unat (be32 (drop (8 + i * 4) p))) [0..<length ?x] = map unat ?x"
    using words_at [of "fullHdr 0 0 @ put32 (of_nat (length ?x))" 8 unat ?x "[]"] by (simp add: p_def del: drop_append)
  moreover have "map unat ?x = map Suc (filter (\<lambda>i. bs_isKey (mt_samples t ! i)) [0..<length (mt_samples t)])"
  proof -
    have "unat (of_nat (i + 1) :: u32) = Suc i" if "i < length (mt_samples t)" for i
      using that assms(1) by (subst unat_of_nat_u32) (simp_all add: track_small_def)
    then show ?thesis
      unfolding stssIndices_def map_map comp_def by (intro map_cong) auto
  qed
  ultimately show ?thesis
    unfolding parseStss_def f using assms(2) True by (auto simp: c Let_def)
qed (use assms in \<open>simp add: parseStss_def\<close>)

text \<open>The whole sample table of a track.\<close>

lemma parseSampleTable_stbl:
  assumes small: "track_small t e" and os: "\<forall>x\<in>set (stcoOffsets base (mt_samples t)). 0 \<le> x \<and> x < 2 ^ 32"
  shows "parseSampleTable (fbox.layout (stblBoxes t base e)) (mt_timescale t) idx (codecType (mt_codec t)) (mt_isVideo t) =
    Inr (mp4_entries idx t base)"
proof (cases "mt_samples t = []")
  case True
  then show ?thesis
    by (simp add: parseSampleTable_def andThen_def parseStsz_stbl [OF small] mp4_entries_def)
next
  case False
  let ?n = "length (mt_samples t)" and ?s = "fbox.layout (stblBoxes t base e)"
  have "\<forall>x\<in>set (stcoOffsets base (mt_samples t)). in64 x"
    using os by (auto simp: in64_def)
  then have place: "placeSamples (zip (replicate ?n 1) (stcoOffsets base (mt_samples t)))
      (map (\<lambda>s. of_nat (length (bs_data s))) (mt_samples t)) = stcoOffsets base (mt_samples t)"
    using placeSamples_one [of "stcoOffsets base (mt_samples t)" "map (\<lambda>s. of_nat (length (bs_data s))) (mt_samples t)"] by simp
  show ?thesis
    unfolding parseSampleTable_def andThen_def parseStsz_stbl [OF small] sum.case Let_def parseChunkOffsets_stbl [OF small os]
      buildChunkSamplesMap_stbl [OF small False] length_map parseStts_stbl [OF small] length_stcoOffsets place mp4_entries_def
    using False parseCtts_stbl [OF small] parseStss_stbl [OF small] by simp
qed

end
