(* ===== verification/Mp4_Session.thy ===== *)
theory Mp4_Session
  imports Mp4_Tables Fmp4_Session
begin

text \<open>
  What the demuxer of \<^verbatim>\<open>av/format/mp4\<close> makes of a file that the muxer of the package wrote.
\<close>

subsection \<open>Sample entries and tracks\<close>

definition mp4_codec :: "codec_data \<Rightarrow> bool" where
  "mp4_codec codec \<longleftrightarrow> mp4_timescaleForCodec codec \<noteq> None"

lemma mp4_parseStsdEntry_codec:
  assumes "codec_stable codec" "mp4_codec codec"
  obtains e where "mp4_stsdEntry codec = Some e" "mp4_parseStsdEntry (e @ rest) = Inr (codec, isVideoCodec codec)" "length e < 2 ^ 20 + 200"
proof -
  obtain e where e: "stsdEntry codec = Some e"
    using assms(1) stsdEntry_returns [of codec] by (cases codec) (auto simp: codec_stable_def codec_fits_def)
  have "mp4_stsdEntry codec = Some e"
    using e assms(2) by (cases codec) (auto simp: mp4_stsdEntry_def stsdEntry_def mp4_codec_def mp4_timescaleForCodec_def)
  moreover note p = parseStsdEntry_codec [OF assms(1) e, of rest]
  have "\<forall>c. codec \<noteq> FLACCodec c"
    using assms(2) by (auto simp: mp4_codec_def mp4_timescaleForCodec_def)
  then have "mp4_parseStsdEntry (e @ rest) = Inr (codec, isVideoCodec codec)"
    using p by (auto simp: parseStsdEntry_def mp4_parseStsdEntry_def Let_def split: if_splits option.splits)
  ultimately show thesis
    using that p by blast
qed

definition mtrack_ok :: "mp4Track \<Rightarrow> bool" where
  "mtrack_ok t \<longleftrightarrow> codec_stable (mt_codec t) \<and> mp4_codec (mt_codec t) \<and> mt_isVideo t = isVideoCodec (mt_codec t) \<and>
    mt_timescale t \<noteq> 0 \<and> length (mt_samples t) \<le> 2 ^ 26"

definition stblOf :: "mp4Track \<Rightarrow> int \<Rightarrow> bytes" where
  "stblOf t base = fbox.layout (stblBoxes t base (the (mp4_stsdEntry (mt_codec t))))"

definition minfOf :: "mp4Track \<Rightarrow> int \<Rightarrow> bytes" where
  "minfOf t base = (if mt_isVideo t then buildVmhd else buildSmhd) @ buildDinf @ makeBox ''stbl'' (stblOf t base)"

definition mdiaOf :: "mp4Track \<Rightarrow> int \<Rightarrow> bytes" where
  "mdiaOf t base = mp4_buildMdhd t @ mp4_buildHdlr t @ makeBox ''minf'' (minfOf t base)"

definition trakOf :: "mp4Track \<Rightarrow> int \<Rightarrow> bytes" where
  "trakOf t base = the (mp4_buildTkhd t) @ makeBox ''mdia'' (mdiaOf t base)"

lemma mtrack_ok_entry:
  assumes "mtrack_ok t"
  obtains e where "mp4_stsdEntry (mt_codec t) = Some e" "track_small t e"
    "mp4_parseStsdEntry e = Inr (mt_codec t, mt_isVideo t)"
proof -
  have "codec_stable (mt_codec t)" "mp4_codec (mt_codec t)"
    using assms by (simp_all add: mtrack_ok_def)
  then obtain e where "mp4_stsdEntry (mt_codec t) = Some e" "mp4_parseStsdEntry (e @ []) = Inr (mt_codec t, isVideoCodec (mt_codec t))"
      "length e < 2 ^ 20 + 200"
    by (rule mp4_parseStsdEntry_codec)
  then show thesis
    using that [of e] assms by (simp add: mtrack_ok_def track_small_def)
qed

lemma length_stblOf:
  assumes "mtrack_ok t" shows "length (stblOf t base) \<le> 28 * length (mt_samples t) + 2 ^ 20 + 400"
proof -
  obtain e where e: "mp4_stsdEntry (mt_codec t) = Some e" "track_small t e" "mp4_parseStsdEntry e = Inr (mt_codec t, mt_isVideo t)"
    by (rule mtrack_ok_entry [OF assms])
  then show ?thesis
    using stblBoxes_small(2) [OF e(2), of base] by (simp add: stblOf_def track_small_def)
qed

lemma length_stblOf_base:
  assumes "mtrack_ok t" shows "length (stblOf t base) = length (stblOf t base')"
proof -
  obtain e where e: "mp4_stsdEntry (mt_codec t) = Some e" "track_small t e" "mp4_parseStsdEntry e = Inr (mt_codec t, mt_isVideo t)"
    by (rule mtrack_ok_entry [OF assms])
  have "length (fbox.layout (stblBoxes t b e)) = sum_list (map (\<lambda>(ty, p). length (makeBox ty p)) (stblBoxes t b e))" for b
    by (simp add: fbox.layout_def length_concat comp_def split_def)
  moreover have "8 + length p < 2 ^ 32 \<Longrightarrow> length ty = 4 \<Longrightarrow> length (makeBox ty p) = 8 + length p" for ty p
    by (rule length_makeBox)
  ultimately show ?thesis
    using stblBoxes_small(1) [OF e(2), of base] stblBoxes_small(1) [OF e(2), of base']
    by (auto simp: stblOf_def e(1) stblBoxes_def box_ok_def)
qed

lemma mp4_box_sizes:
  "length (mp4_buildMdhd t) = 32" "length (mp4_buildHdlr t) = 45" "mt_timescale t \<noteq> 0 \<Longrightarrow> length (the (mp4_buildTkhd t)) = 92"
  "length (mp4_buildMvhd ms) = 108" "length (mp4_buildFtyp ts) = 32"
  by (auto simp: mp4_buildMdhd_def mp4_buildHdlr_def mp4_buildTkhd_def mp4_buildMvhd_def mp4_buildFtyp_def mp4_millis_def
      length_makeFullBox length_makeBox writeZeros_def identityMatrix_def Let_def split: option.splits)

lemma length_trakOf:
  assumes "mtrack_ok t"
  shows "length (minfOf t base) = length (stblOf t base) + (if mt_isVideo t then 64 else 60)"
    "length (mdiaOf t base) = length (minfOf t base) + 85" "length (trakOf t base) = length (mdiaOf t base) + 100"
  using length_stblOf [OF assms, of base] assms
  by (simp_all add: minfOf_def mdiaOf_def trakOf_def length_makeBox box_sizes mp4_box_sizes mtrack_ok_def)

lemma trakOf_bound:
  assumes "mtrack_ok t" shows "length (trakOf t base) \<le> 28 * length (mt_samples t) + 2 ^ 20 + 700" "length (trakOf t base) < 2 ^ 31"
  using length_trakOf [OF assms, of base] length_stblOf [OF assms, of base] assms by (auto simp: mtrack_ok_def)

lemma mp4_buildTrak_trakOf:
  assumes "mtrack_ok t" shows "mp4_buildTrak t base = Some (makeBox ''trak'' (trakOf t base))"
proof -
  obtain e where e: "mp4_stsdEntry (mt_codec t) = Some e" "track_small t e" "mp4_parseStsdEntry e = Inr (mt_codec t, mt_isVideo t)"
    by (rule mtrack_ok_entry [OF assms])
  have "\<exists>b. mp4_buildTkhd t = Some b"
    using assms by (simp add: mtrack_ok_def mp4_buildTkhd_def mp4_millis_def)
  then show ?thesis
    by (auto simp: mp4_buildTrak_def mp4_buildMdia_def mp4_buildMinf_def mp4_buildStbl_boxes [OF e(1)] trakOf_def mdiaOf_def minfOf_def
        stblOf_def e(1))
qed

lemma trakOf_search:
  assumes "mtrack_ok t"
  shows "findBox (trakOf t base) ''mdia'' = Some (mdiaOf t base)"
    "\<exists>q. findBox (mdiaOf t base) ''mdhd'' = Some q \<and> parseMdhdTimescale q = Some (mt_timescale t)"
    "findBox (mdiaOf t base) ''minf'' = Some (minfOf t base)" "findBox (minfOf t base) ''stbl'' = Some (stblOf t base)"
proof -
  have b: "length (stblOf t base) < 2 ^ 31" "length (minfOf t base) < 2 ^ 31" "length (mdiaOf t base) < 2 ^ 31"
    using trakOf_bound(2) [OF assms, of base] length_trakOf [OF assms, of base] by auto
  have "\<exists>p. mp4_buildTkhd t = Some (makeBox ''tkhd'' p) \<and> box_ok ''tkhd'' p"
    using assms by (auto simp: mtrack_ok_def mp4_buildTkhd_def mp4_millis_def makeFullBox_def box_ok_def writeZeros_def identityMatrix_def
        split: option.splits)
  then show "findBox (trakOf t base) ''mdia'' = Some (mdiaOf t base)"
    using b(3) by (auto simp: trakOf_def box_search box_ok_def)
  have "\<exists>p. mp4_buildHdlr t = makeBox ''hdlr'' p \<and> box_ok ''hdlr'' p"
    unfolding mp4_buildHdlr_def makeFullBox_def by (intro exI conjI, rule refl) (auto simp: box_ok_def writeZeros_def)
  then show "findBox (mdiaOf t base) ''minf'' = Some (minfOf t base)"
      "\<exists>q. findBox (mdiaOf t base) ''mdhd'' = Some q \<and> parseMdhdTimescale q = Some (mt_timescale t)"
    using b(2) by (auto simp: mdiaOf_def mp4_buildMdhd_def makeFullBox_def box_search box_ok_def parseMdhdTimescale_def slices)
  show "findBox (minfOf t base) ''stbl'' = Some (stblOf t base)"
    using b(1) by (simp add: minfOf_def buildVmhd_def buildSmhd_def buildDinf_def makeFullBox_def box_search box_ok_def
        length_makeBox writeZeros_def)
qed

lemma mp4_parseTrak_trakOf:
  assumes ok: "mtrack_ok t" and os: "\<forall>x\<in>set (stcoOffsets base (mt_samples t)). 0 \<le> x \<and> x < 2 ^ 32"
  shows "mp4_parseTrak (trakOf t base) idx = Inr (\<lparr>s_Idx = idx, s_Codec = mt_codec t\<rparr>, mp4_entries idx t base)"
proof -
  obtain e where e: "mp4_stsdEntry (mt_codec t) = Some e" "track_small t e" "mp4_parseStsdEntry e = Inr (mt_codec t, mt_isVideo t)"
    by (rule mtrack_ok_entry [OF ok])
  have st: "findBox (stblOf t base) ''stsd'' = Some (fullHdr 0 0 @ put32 1 @ e)"
    unfolding stblOf_def e(1) option.sel stbl_find [OF e(2)] by (simp add: stblBoxes_def)
  have tab: "parseSampleTable (stblOf t base) (mt_timescale t) idx (codecType (mt_codec t)) (mt_isVideo t) = Inr (mp4_entries idx t base)"
    using parseSampleTable_stbl [OF e(2) os] by (simp add: stblOf_def e(1))
  show ?thesis
    using trakOf_search [OF ok, of base] st tab e(3) by (auto simp: mp4_parseTrak_def andThen_def orMalformed_def)
qed

subsection \<open>The movie box\<close>

definition moovOf :: "u32 \<Rightarrow> (mp4Track \<times> int) list \<Rightarrow> bytes" where
  "moovOf ms tbs = mp4_buildMvhd ms @ concat (map (\<lambda>(t, b). makeBox ''trak'' (trakOf t b)) tbs)"

lemma mp4_movieDuration_returns: "\<forall>t\<in>set ts. mt_timescale t \<noteq> 0 \<Longrightarrow> \<exists>ms. mp4_movieDuration m ts = Some ms"
  by (induction ts arbitrary: m) (auto simp: mp4_millis_def)

lemma mp4_buildMoov_moovOf:
  assumes "\<forall>t\<in>set ts. mtrack_ok t" "mp4_movieDuration 0 ts = Some ms" "length bs = length ts"
  shows "mp4_buildMoov ts (Some bs) = Some (makeBox ''moov'' (moovOf ms (zip ts bs)))"
    "mp4_buildMoov ts None = Some (makeBox ''moov'' (moovOf ms (zip ts (replicate (length ts) 0))))"
proof -
  have *: "those (map2 mp4_buildTrak ts bs) = Some (map (\<lambda>(t, b). makeBox ''trak'' (trakOf t b)) (zip ts bs))"
    if "length bs = length ts" "\<forall>t\<in>set ts. mtrack_ok t" for ts bs
    using that by (induction bs ts rule: list_induct2) (simp_all add: mp4_buildTrak_trakOf)
  show "mp4_buildMoov ts (Some bs) = Some (makeBox ''moov'' (moovOf ms (zip ts bs)))"
    "mp4_buildMoov ts None = Some (makeBox ''moov'' (moovOf ms (zip ts (replicate (length ts) 0))))"
    using * [OF assms(3,1)] * [of "replicate (length ts) 0" ts] assms(1,2) by (simp_all add: mp4_buildMoov_def moovOf_def)
qed

definition mediaOf :: "mp4Track \<Rightarrow> bytes" where
  "mediaOf t = concat (map bs_data (mt_samples t))"

definition tracks_fit :: "mp4Track list \<Rightarrow> bool" where
  "tracks_fit ts \<longleftrightarrow> ts \<noteq> [] \<and> length ts \<le> 1000 \<and> (\<forall>t\<in>set ts. mtrack_ok t) \<and>
    sum_list (map (\<lambda>t. length (mt_samples t)) ts) \<le> 2 ^ 26 \<and> length (concat (map mediaOf ts)) < 2 ^ 30"

lemma length_trakOf_base: "mtrack_ok t \<Longrightarrow> length (trakOf t base) = length (trakOf t base')"
  using length_trakOf [of t base] length_trakOf [of t base'] length_stblOf_base [of t base base'] by simp

lemma length_moovOf_sum:
  assumes "\<forall>t\<in>set ts. mtrack_ok t" "length bs = length ts"
  shows "length (moovOf ms (zip ts bs)) = 108 + sum_list (map (\<lambda>t. 8 + length (trakOf t 0)) ts)"
proof -
  have box: "length (makeBox ''trak'' (trakOf t b)) = 8 + length (trakOf t 0)" if "mtrack_ok t" for t b
    using trakOf_bound(2) [OF that, of b] length_trakOf_base [OF that, of b 0] by (simp add: length_makeBox)
  show ?thesis
    using assms(2,1)
  proof (induction bs ts rule: list_induct2)
    case (Cons b bs t ts)
    then show ?case
      using box [of t b] by (simp add: moovOf_def)
  qed (simp add: moovOf_def mp4_box_sizes)
qed

lemma length_moovOf:
  assumes "\<forall>t\<in>set ts. mtrack_ok t" "length bs = length ts"
  shows "length (moovOf ms (zip ts bs)) \<le> 108 + 28 * sum_list (map (\<lambda>t. length (mt_samples t)) ts) + length ts * (2 ^ 20 + 708)"
proof -
  have "sum_list (map (\<lambda>t. 8 + length (trakOf t 0)) ts) \<le> 28 * sum_list (map (\<lambda>t. length (mt_samples t)) ts) + length ts * (2 ^ 20 + 708)"
    using assms(1)
  proof (induction ts)
    case (Cons t ts)
    then show ?case
      using trakOf_bound(1) [of t 0] by simp
  qed simp
  then show ?thesis
    by (simp add: length_moovOf_sum [OF assms])
qed

subsection \<open>Offsets\<close>

fun basesFrom :: "int \<Rightarrow> mp4Track list \<Rightarrow> int list" where
  "basesFrom b [] = []"
| "basesFrom b (t # ts) = b # basesFrom (b + int (length (mediaOf t))) ts"

lemma trackBytes_media: "trackBytes t = int (length (mediaOf t))"
  by (simp add: trackBytes_def mediaOf_def length_concat comp_def)

lemma length_basesFrom [simp]: "length (basesFrom b ts) = length ts"
  by (induction ts arbitrary: b) simp_all

lemma mp4_trackBases_plain:
  "0 \<le> m \<Longrightarrow> 0 \<le> acc \<Longrightarrow> m + acc + int (length (concat (map mediaOf ts))) < 2 ^ 62 \<Longrightarrow> mp4_trackBases m acc ts = basesFrom (m + acc) ts"
proof (induction ts arbitrary: acc)
  case (Cons t ts)
  have "in64 (m + acc)" "in64 (acc + int (length (mediaOf t)))"
    using Cons.prems by (auto simp: in64_def)
  then show ?case
    using Cons by (simp add: trackBytes_media goint add.assoc)
qed simp

lemma mdatPayloadSize_plain:
  "length (concat (map mediaOf ts)) < 2 ^ 62 \<Longrightarrow> mdatPayloadSize ts = int (length (concat (map mediaOf ts)))"
proof -
  have "0 \<le> a \<Longrightarrow> a + int (length (concat (map mediaOf ts))) < 2 ^ 62 \<Longrightarrow>
      foldl (\<lambda>acc t. wrap64 (acc + trackBytes t)) a ts = a + int (length (concat (map mediaOf ts)))" for a
  proof (induction ts arbitrary: a)
    case (Cons t ts)
    have "in64 (a + int (length (mediaOf t)))"
      using Cons.prems by (auto simp: in64_def)
    then show ?case
      using Cons by (simp add: trackBytes_media goint add.assoc)
  qed simp
  from this [of 0] show "length (concat (map mediaOf ts)) < 2 ^ 62 \<Longrightarrow> ?thesis"
    by (simp add: mdatPayloadSize_def)
qed

lemma stcoOffsets_data:
  "base = int (length pre) \<Longrightarrow> length pre + length (concat (map bs_data ss)) < 2 ^ 62 \<Longrightarrow> i < length ss \<Longrightarrow>
    base \<le> stcoOffsets base ss ! i \<and>
    stcoOffsets base ss ! i + int (length (bs_data (ss ! i))) \<le> base + int (length (concat (map bs_data ss))) \<and>
    slice (pre @ concat (map bs_data ss) @ post) (nat (stcoOffsets base ss ! i))
      (nat (stcoOffsets base ss ! i) + length (bs_data (ss ! i))) = bs_data (ss ! i)"
proof (induction ss arbitrary: base pre i)
  case (Cons s ss)
  show ?case
  proof (cases i)
    case 0
    then show ?thesis
      using Cons.prems by (simp add: slice_middle)
  next
    case (Suc j)
    have "in64 (int (length pre) + int (length (bs_data s)))"
      using Cons.prems by (auto simp: in64_def)
    then have w: "wrap64 (int (length pre) + int (length (bs_data s))) = int (length pre) + int (length (bs_data s))"
      by (simp add: goint)
    show ?thesis
      using Cons.IH [of "int (length (pre @ bs_data s))" "pre @ bs_data s" j] Cons.prems Suc by (simp add: w)
  qed
qed simp

lemma stcoOffsets_range:
  assumes "0 \<le> base" "base + int (length (concat (map bs_data ss))) < 2 ^ 32"
  shows "\<forall>x\<in>set (stcoOffsets base ss). 0 \<le> x \<and> x < 2 ^ 32"
proof
  fix x
  assume "x \<in> set (stcoOffsets base ss)"
  then obtain i where "i < length ss" "x = stcoOffsets base ss ! i"
    by (auto simp: in_set_conv_nth)
  moreover have "int (nat base + length (concat (map bs_data ss))) < int (2 ^ 62)"
    using assms by simp
  then have "nat base + length (concat (map bs_data ss)) < 2 ^ 62"
    by (simp only: of_nat_less_iff)
  ultimately show "0 \<le> x \<and> x < 2 ^ 32"
    using stcoOffsets_data [of base "replicate (nat base) 0" ss i "[]"] assms by simp
qed

subsection \<open>The file\<close>

lemma findTopLevelBox_box:
  assumes "file = pre @ makeBox ty p @ rest" "box_ok ty p" "length file < 2 ^ 62"
  shows "findTopLevelBox file (length pre) want =
    (if ty = want then Inr p else findTopLevelBox file (length pre + 8 + length p) want)"
proof -
  have lay: "file = pre @ put32 (boxSize p) @ strbytes ty @ p @ rest"
    using assms(1,2) by (simp add: makeBox_layout)
  have len: "length ty = 4" "8 + length p < 2 ^ 32"
    using assms(2) by (simp_all add: box_ok_def)
  have hdr: "slice file (length pre) (length pre + 4) = put32 (boxSize p)"
    "slice file (length pre + 4) (length pre + 8) = strbytes ty"
    "slice file (length pre + 8) (length pre + 8 + length p) = p" "length pre + 8 + length p \<le> length file"
    using len by (simp_all add: lay slice_def)
  have u: "uint (boxSize p) = 8 + int (length p)"
    using unat_boxSize [OF len(2)] by (metis int_plus of_nat_numeral uint_nat)
  have ne: "boxSize p \<noteq> 0" "boxSize p \<noteq> 1"
    using unat_boxSize [OF len(2)] by auto
  have "in64 (int (length p))"
    using len by (simp add: in64_def)
  then have w: "wrap64 (topBoxSize file (length pre) (boxSize p) - 8) = int (length p)"
      "topBoxSize file (length pre) (boxSize p) = 8 + int (length p)"
    using ne by (simp_all add: topBoxSize_def u goint)
  have rd: "readAt file (length pre + 8) (length p) = Inr p"
    using hdr by (simp add: readAt_def slice_def)
  show ?thesis
    using hdr(4) rd len w ne assms(3)
    by (subst findTopLevelBox.simps) (simp add: hdr Let_def nat_add_distrib ac_simps)
qed

definition mp4_file :: "u32 \<Rightarrow> mp4Track list \<Rightarrow> int \<Rightarrow> bytes" where
  "mp4_file ms ts base = mp4_buildFtyp ts @ makeBox ''moov'' (moovOf ms (zip ts (basesFrom base ts))) @
    put32 (of_nat (8 + length (concat (map mediaOf ts)))) @ strbytes ''mdat'' @ concat (map mediaOf ts)"

lemma moovOf_small:
  assumes "tracks_fit ts" "length bs = length ts" shows "length (moovOf ms (zip ts bs)) < 3 * 10 ^ 9" "box_ok ''moov'' (moovOf ms (zip ts bs))"
proof -
  have "length ts * (2 ^ 20 + 708) \<le> 1000 * (2 ^ 20 + 708)" "28 * sum_list (map (\<lambda>t. length (mt_samples t)) ts) \<le> 28 * 2 ^ 26"
    using assms(1) by (auto simp: tracks_fit_def)
  then show "length (moovOf ms (zip ts bs)) < 3 * 10 ^ 9"
    using length_moovOf [of ts bs ms] assms by (simp add: tracks_fit_def)
  then show "box_ok ''moov'' (moovOf ms (zip ts bs))"
    by (simp add: box_ok_def)
qed

lemma writeParts_reliable: "w_script w = [] \<Longrightarrow> writeParts w bs = (True, w\<lparr>w_out := w_out w @ concat bs\<rparr>)"
  by (induction bs arbitrary: w) (simp_all add: Write_def)

lemma mp4_flush_file:
  assumes fit: "tracks_fit (pm_tracks m)" and w: "w_out (pm_w m) = []" "w_script (pm_w m) = []"
  obtains ms base m' where "mp4_flush m = Some (None, m')" "w_out (pm_w m') = mp4_file ms (pm_tracks m) base"
    "base = int (length (mp4_buildFtyp (pm_tracks m) @ makeBox ''moov'' (moovOf ms (zip (pm_tracks m) (basesFrom base (pm_tracks m))))) + 8)"
proof -
  let ?ts = "pm_tracks m"
  have ok: "\<forall>t\<in>set ?ts. mtrack_ok t"
    using fit by (simp add: tracks_fit_def)
  obtain ms where ms: "mp4_movieDuration 0 ?ts = Some ms"
    using mp4_movieDuration_returns [of ?ts 0] ok by (auto simp: mtrack_ok_def)
  define p1 where "p1 = moovOf ms (zip ?ts (replicate (length ?ts) 0))"
  define base where "base = int (48 + length p1)"
  have p1: "length p1 < 3 * 10 ^ 9"
    unfolding p1_def using fit by (intro moovOf_small) simp_all
  have len: "length (moovOf ms (zip ?ts (basesFrom base ?ts))) = length p1"
    unfolding p1_def using length_moovOf_sum [OF ok, of "basesFrom base ?ts" ms] length_moovOf_sum [OF ok, of "replicate (length ?ts) 0" ms]
    by simp
  have box: "length (makeBox ''moov'' q) = 8 + length p1" if "length q = length p1" for q
    using that p1 by (simp add: length_makeBox)
  have "mp4_buildMoov ?ts None = Some (makeBox ''moov'' p1)"
    unfolding p1_def by (rule mp4_buildMoov_moovOf(2) [OF ok ms, of "replicate (length ?ts) 0"]) simp
  moreover have "wrap64 (int (length (mp4_buildFtyp ?ts)) + int (length (makeBox ''moov'' p1)) + 8) = base"
    using p1 box [of p1] by (simp add: mp4_box_sizes base_def goint in64_def)
  moreover have "mp4_trackBases base 0 ?ts = basesFrom base ?ts"
    using mp4_trackBases_plain [of base 0 ?ts] p1 fit by (simp add: base_def tracks_fit_def)
  moreover have "mp4_buildMoov ?ts (Some (basesFrom base ?ts)) = Some (makeBox ''moov'' (moovOf ms (zip ?ts (basesFrom base ?ts))))"
    by (rule mp4_buildMoov_moovOf(1) [OF ok ms]) simp
  moreover have "mdatPayloadSize ?ts = int (length (concat (map mediaOf ?ts)))"
    using fit by (intro mdatPayloadSize_plain) (simp add: tracks_fit_def)
  moreover have "concat (concat (map (\<lambda>t. map bs_data (mt_samples t)) ts)) = concat (map mediaOf ts)" for ts
    by (induction ts) (simp_all add: mediaOf_def)
  ultimately have "mp4_flush m = Some (None, m\<lparr>pm_w := (pm_w m)\<lparr>w_out := mp4_file ms ?ts base\<rparr>\<rparr>)"
    by (simp add: mp4_flush_def writeParts_reliable w mp4_file_def del: concat_append writeParts.simps)
  moreover have "w_out (pm_w (m\<lparr>pm_w := (pm_w m)\<lparr>w_out := mp4_file ms ?ts base\<rparr>\<rparr>)) = mp4_file ms ?ts base"
    by simp
  moreover have "base = int (length (mp4_buildFtyp ?ts @ makeBox ''moov'' (moovOf ms (zip ?ts (basesFrom base ?ts)))) + 8)"
    using box [OF len] by (simp add: base_def mp4_box_sizes)
  ultimately show thesis
    by (rule that)
qed

end
