(* ===== verification/Mp4_Playback.thy ===== *)
theory Mp4_Playback
  imports Mp4_Session
begin

text \<open>
  Recording into a whole MP4 file and playing it back: the entries that the demuxer reads from the movie box, the packets
  it makes of them, and the tracks that the muxer fills.
\<close>

subsection \<open>Reading the movie box\<close>

fun fileEntries :: "nat \<Rightarrow> int \<Rightarrow> mp4Track list \<Rightarrow> sampleEntry list" where
  "fileEntries k b [] = []"
| "fileEntries k b (t # ts) = mp4_entries (of_nat k) t b @ fileEntries (Suc k) (b + int (length (mediaOf t))) ts"

lemma findBoxes_moovOf:
  assumes "\<forall>t\<in>set ts. mtrack_ok t" "length bs = length ts"
  shows "findBoxes (moovOf ms (zip ts bs)) ''trak'' = map (\<lambda>(t, b). trakOf t b) (zip ts bs)"
proof -
  have traks: "findBoxes (concat (map (\<lambda>(t, b). makeBox ''trak'' (trakOf t b)) (zip ts bs))) ''trak'' = map (\<lambda>(t, b). trakOf t b) (zip ts bs)"
    using assms(2,1)
  proof (induction bs ts rule: list_induct2)
    case (Cons b bs t ts)
    then have "box_ok ''trak'' (trakOf t b)"
      using trakOf_bound(2) [of t b] by (simp add: box_ok_def)
    then show ?case
      using Cons by (simp add: findBoxes_makeBox)
  qed (simp add: findBoxes_short)
  obtain p where "mp4_buildMvhd ms = makeBox ''mvhd'' p" "box_ok ''mvhd'' p"
    by (simp add: mp4_buildMvhd_def makeFullBox_def box_ok_def writeZeros_def identityMatrix_def)
  then show ?thesis
    using traks by (simp add: moovOf_def findBoxes_makeBox)
qed

lemma mp4_parseTraks_trakOf:
  "\<forall>t\<in>set ts. mtrack_ok t \<Longrightarrow> 0 \<le> b \<Longrightarrow> b + int (length (concat (map mediaOf ts))) < 2 ^ 32 \<Longrightarrow>
    mp4_parseTraks k (map (\<lambda>(t, b). trakOf t b) (zip ts (basesFrom b ts))) =
      Some (map (\<lambda>(i, t). \<lparr>s_Idx = of_nat i, s_Codec = mt_codec t\<rparr>) (enumerate k ts), fileEntries k b ts)"
proof (induction ts arbitrary: k b)
  case (Cons t ts)
  have "\<forall>x\<in>set (stcoOffsets b (mt_samples t)). 0 \<le> x \<and> x < 2 ^ 32"
    using Cons.prems by (intro stcoOffsets_range) (simp_all add: mediaOf_def)
  then have "mp4_parseTrak (trakOf t b) (of_nat k) = Inr (\<lparr>s_Idx = of_nat k, s_Codec = mt_codec t\<rparr>, mp4_entries (of_nat k) t b)"
    using Cons.prems by (intro mp4_parseTrak_trakOf) simp_all
  then show ?case
    using Cons by (simp add: add.assoc)
qed simp

lemma parseMoovPayload_moovOf:
  assumes "tracks_fit ts" "0 \<le> b" "b + int (length (concat (map mediaOf ts))) < 2 ^ 32"
  shows "parseMoovPayload (moovOf ms (zip ts (basesFrom b ts))) =
    Inr (numberedStreams (map mt_codec ts), sort_key se_dts (fileEntries 0 b ts))"
proof -
  have ok: "\<forall>t\<in>set ts. mtrack_ok t" and ne: "ts \<noteq> []"
    using assms(1) by (simp_all add: tracks_fit_def)
  have "map (\<lambda>(i, t). \<lparr>s_Idx = of_nat i, s_Codec = mt_codec t\<rparr>) (enumerate 0 ts) = numberedStreams (map mt_codec ts)"
    by (rule nth_equalityI) (simp_all add: numberedStreams_def nth_enumerate_eq)
  then show ?thesis
    unfolding parseMoovPayload_def findBoxes_moovOf [OF ok length_basesFrom] mp4_parseTraks_trakOf [OF ok assms(2,3)]
    using ne by (simp add: numberedStreams_def)
qed

subsection \<open>Reading the samples\<close>

definition packetOf :: "bytes \<Rightarrow> sampleEntry \<Rightarrow> packet" where
  "packetOf file e = zero_packet\<lparr>Idx := se_streamIdx e, KeyFrame := se_isKey e, DTS := se_dts e, PTSOffset := se_ptsOffset e,
     Duration := se_duration e, CodecType := se_codecType e, Data := slice file (nat (se_offset e)) (nat (se_offset e) + unat (se_size e))\<rparr>"

definition readable :: "bytes \<Rightarrow> sampleEntry \<Rightarrow> bool" where
  "readable file e \<longleftrightarrow> 0 \<le> se_offset e \<and> nat (se_offset e) + unat (se_size e) \<le> length file"

lemma mp4_ReadPacket_next:
  assumes "pd_pos d < length (pd_samples d)" "readable (pd_file d) (pd_samples d ! pd_pos d)"
  shows "mp4_ReadPacket d = (Inr (packetOf (pd_file d) (pd_samples d ! pd_pos d)), d\<lparr>pd_pos := pd_pos d + 1\<rparr>)"
  using assms by (auto simp: mp4_ReadPacket_def readAt_def packetOf_def readable_def Let_def slice_def)

lemma mp4_drain_readable:
  assumes "\<forall>e\<in>set (pd_samples d). readable (pd_file d) e" "length (drop (pd_pos d) (pd_samples d)) < n"
  shows "mp4_drain n d = (map (packetOf (pd_file d)) (drop (pd_pos d) (pd_samples d)), Some DEOF)"
  using assms
proof (induction n arbitrary: d)
  case (Suc n)
  show ?case
  proof (cases "pd_pos d < length (pd_samples d)")
    case True
    then have "mp4_ReadPacket d = (Inr (packetOf (pd_file d) (pd_samples d ! pd_pos d)), d\<lparr>pd_pos := pd_pos d + 1\<rparr>)"
      using Suc.prems by (intro mp4_ReadPacket_next) simp_all
    moreover have "mp4_drain n (d\<lparr>pd_pos := pd_pos d + 1\<rparr>) = (map (packetOf (pd_file d)) (drop (pd_pos d + 1) (pd_samples d)), Some DEOF)"
      using Suc.IH [of "d\<lparr>pd_pos := pd_pos d + 1\<rparr>"] Suc.prems True by simp
    ultimately show ?thesis
      using True by (simp add: Cons_nth_drop_Suc [symmetric])
  qed (simp add: mp4_ReadPacket_def)
qed simp

subsection \<open>The packets of a track\<close>

definition mp4_expected :: "u16 \<Rightarrow> mp4Track \<Rightarrow> nat \<Rightarrow> packet" where
  "mp4_expected idx t i = (let s = mt_samples t ! i in
     zero_packet\<lparr>Idx := idx, KeyFrame := mt_isVideo t \<and> bs_isKey s,
       DTS := ticksToDuration (sum_list (map (\<lambda>s. uint (bs_duration s)) (take i (mt_samples t)))) (mt_timescale t),
       PTSOffset := ticksToDuration (sint (bs_ptsOff s)) (mt_timescale t),
       Duration := ticksToDuration (uint (bs_duration s)) (mt_timescale t), CodecType := codecType (mt_codec t), Data := bs_data s\<rparr>)"

lemma sttsTimes_nth:
  "0 \<le> dts \<Longrightarrow> dts + sum_list (map uint ds) < 2 ^ 62 \<Longrightarrow> i < length ds \<Longrightarrow>
    sttsTimes ts dts ds ! i = (ticksToDuration (dts + sum_list (map uint (take i ds))) ts, ticksToDuration (uint (ds ! i)) ts)"
proof (induction ds arbitrary: dts i)
  case (Cons d ds)
  show ?case
  proof (cases i)
    case (Suc j)
    have "0 \<le> sum_list (map uint ds)"
      by (intro sum_list_nonneg) auto
    moreover have "0 \<le> dts + uint d"
      using Cons.prems by (intro add_nonneg_nonneg) simp_all
    moreover from this have "- (2 ^ 63) \<le> dts + uint d"
      by (rule order_trans [rotated]) simp
    ultimately have "in64 (dts + uint d)"
      using Cons.prems by (simp only: in64_def) simp
    then show ?thesis
      using Cons Suc by (simp add: goint add.assoc)
  qed simp
qed simp

definition ticks_fit :: "mp4Track \<Rightarrow> bool" where
  "ticks_fit t \<longleftrightarrow> sum_list (map (\<lambda>s. uint (bs_duration s)) (mt_samples t)) * second < 2 ^ 63"

lemma mp4_entries_play:
  assumes fit: "ticks_fit t" and lay: "file = pre @ mediaOf t @ post" "length file < 2 ^ 62" and small: "length (mediaOf t) < 2 ^ 30"
  shows "map (packetOf file) (mp4_entries idx t (int (length pre))) = map (mp4_expected idx t) [0..<length (mt_samples t)]"
    "\<forall>e\<in>set (mp4_entries idx t (int (length pre))). readable file e"
proof -
  have sum: "sum_list (map uint (map bs_duration (mt_samples t))) < 2 ^ 62"
    using fit by (simp add: ticks_fit_def second_def comp_def)
  have at: "packetOf file e = mp4_expected idx t i \<and> readable file e"
    if i: "i < length (mt_samples t)" and e: "e = mp4_entries idx t (int (length pre)) ! i" for i e
  proof -
    let ?s = "mt_samples t ! i" and ?o = "stcoOffsets (int (length pre)) (mt_samples t) ! i"
    have "length (bs_data ?s) \<le> length (mediaOf t)"
      unfolding mediaOf_def using i by (auto simp: length_concat comp_def intro!: member_le_sum_list)
    then have sz: "unat (of_nat (length (bs_data ?s)) :: u32) = length (bs_data ?s)"
      using small by (intro unat_of_nat_u32) simp
    have off: "int (length pre) \<le> ?o" "?o + int (length (bs_data ?s)) \<le> int (length pre) + int (length (mediaOf t))"
        "slice file (nat ?o) (nat ?o + length (bs_data ?s)) = bs_data ?s"
      using stcoOffsets_data [OF refl _ i, of pre post] lay by (simp_all add: mediaOf_def)
    have tm: "sttsTimes (mt_timescale t) 0 (map bs_duration (mt_samples t)) ! i =
        (ticksToDuration (sum_list (map (\<lambda>s. uint (bs_duration s)) (take i (mt_samples t)))) (mt_timescale t),
         ticksToDuration (uint (bs_duration ?s)) (mt_timescale t))"
      using sttsTimes_nth [of 0 "map bs_duration (mt_samples t)" i "mt_timescale t"] sum i by (simp add: take_map comp_def)
    have "packetOf file e = mp4_expected idx t i"
      using i off(3) by (simp add: e mp4_entries_def packetOf_def mp4_expected_def tm sz Let_def)
    moreover have "readable file e"
      using i off(1,2) lay(1) by (simp add: e mp4_entries_def readable_def sz)
    ultimately show ?thesis ..
  qed
  have len: "length (mp4_entries idx t (int (length pre))) = length (mt_samples t)"
    by (simp add: mp4_entries_def)
  show "map (packetOf file) (mp4_entries idx t (int (length pre))) = map (mp4_expected idx t) [0..<length (mt_samples t)]"
    using at len by (intro nth_equalityI) simp_all
  show "\<forall>e\<in>set (mp4_entries idx t (int (length pre))). readable file e"
    using at len by (auto simp: in_set_conv_nth)
qed

text \<open>The time stamps of a track do not decrease, so the sort over all tracks keeps its samples in order.\<close>

lemma ticksToDuration_mono:
  assumes "0 \<le> a" "a \<le> b" "b * second < 2 ^ 63" shows "ticksToDuration a ts \<le> ticksToDuration b ts"
proof (cases "ts = 0")
  case False
  have "in64 (a * second)" "in64 (b * second)"
    using assms by (auto simp: in64_def second_def)
  moreover have "0 < uint ts"
    using False by (metis uint_0_iff uint_ge_0 order_le_imp_less_or_eq)
  moreover have "a * second div uint ts \<le> b * second div uint ts"
    using assms \<open>0 < uint ts\<close> by (intro zdiv_mono1) (simp_all add: second_def)
  ultimately show ?thesis
    using assms False by (simp add: ticksToDuration_def goint second_def)
qed (simp add: ticksToDuration_def)

lemma sum_list_take_mono:
  fixes f :: "'a \<Rightarrow> int"
  assumes "\<And>x. 0 \<le> f x" "i \<le> j" shows "sum_list (map f (take i xs)) \<le> sum_list (map f (take j xs))"
proof -
  have "take j xs = take i xs @ take (j - i) (drop i xs)"
    using assms(2) by (metis le_add_diff_inverse take_add)
  moreover have "0 \<le> sum_list (map f (take (j - i) (drop i xs)))"
    using assms(1) by (intro sum_list_nonneg) auto
  ultimately show ?thesis by simp
qed

lemma mp4_expected_sorted:
  assumes "ticks_fit t" shows "sorted (map (\<lambda>i. DTS (mp4_expected idx t i)) [0..<length (mt_samples t)])"
proof -
  let ?sum = "\<lambda>i. sum_list (map (\<lambda>s. uint (bs_duration s)) (take i (mt_samples t)))"
  have "DTS (mp4_expected idx t i) \<le> DTS (mp4_expected idx t j)" if "i \<le> j" for i j
  proof -
    have "?sum i \<le> ?sum j"
      using that by (intro sum_list_take_mono) simp_all
    moreover have "?sum j \<le> ?sum (max j (length (mt_samples t)))"
      by (intro sum_list_take_mono) simp_all
    then have "?sum j * second < 2 ^ 63"
      using assms by (simp add: ticks_fit_def second_def)
    moreover have "0 \<le> ?sum i"
      by (intro sum_list_nonneg) auto
    ultimately show ?thesis
      by (simp add: mp4_expected_def Let_def ticksToDuration_mono)
  qed
  then show ?thesis
    by (simp add: sorted_iff_nth_mono)
qed

subsection \<open>The packets of a file\<close>

lemma fileEntries_stream:
  "k + length ts \<le> 2 ^ 16 \<Longrightarrow> i < length ts \<Longrightarrow>
    filter (\<lambda>e. se_streamIdx e = of_nat (k + i)) (fileEntries k b ts) = mp4_entries (of_nat (k + i)) (ts ! i) (basesFrom b ts ! i)"
proof (induction ts arbitrary: k b i)
  case (Cons t ts)
  have idx: "se_streamIdx e = of_nat k" if "e \<in> set (mp4_entries (of_nat k) t b)" for e
    using that by (auto simp: mp4_entries_def)
  have later: "\<exists>j. k' \<le> j \<and> j < k' + length ts' \<and> se_streamIdx e = of_nat j" if "e \<in> set (fileEntries k' b' ts')" for e k' b' ts'
    using that
  proof (induction ts' arbitrary: k' b')
    case (Cons t' ts')
    then consider "e \<in> set (mp4_entries (of_nat k') t' b')" | "e \<in> set (fileEntries (Suc k') (b' + int (length (mediaOf t'))) ts')"
      by auto
    then show ?case
    proof cases
      case 1
      then show ?thesis by (intro exI [of _ k']) (auto simp: mp4_entries_def)
    next
      case 2
      then show ?thesis using Cons.IH by (fastforce dest: Cons.IH)
    qed
  qed simp
  have inj: "(of_nat a :: u16) = of_nat c \<longleftrightarrow> a = c" if "a < 2 ^ 16" "c < 2 ^ 16" for a c
    using that by (metis unat_of_nat_u16)
  show ?case
  proof (cases i)
    case 0
    have "filter (\<lambda>e. se_streamIdx e = of_nat k) (fileEntries (Suc k) b' ts) = []" for b'
      using later [of _ "Suc k" b' ts] inj Cons.prems by (fastforce simp: filter_empty_conv)
    then show ?thesis
      using 0 idx by (simp add: filter_id_conv)
  next
    case (Suc j)
    have "(of_nat k :: u16) \<noteq> of_nat (k + i)"
      using inj [of k "k + i"] Cons.prems Suc by simp
    then have "filter (\<lambda>e. se_streamIdx e = of_nat (k + i)) (mp4_entries (of_nat k) t b) = []"
      using idx by (auto simp: filter_empty_conv)
    then show ?thesis
      using Cons.IH [of "Suc k" j "b + int (length (mediaOf t))"] Cons.prems Suc by simp
  qed
qed simp

lemma fileEntries_concat:
  "fileEntries k b ts = concat (map (\<lambda>i. mp4_entries (of_nat (k + i)) (ts ! i) (basesFrom b ts ! i)) [0..<length ts])"
proof (induction ts arbitrary: k b)
  case (Cons t ts)
  have "[0..<length (t # ts)] = 0 # map Suc [0..<length ts]"
    by (simp add: upt_conv_Cons map_Suc_upt del: upt_Suc)
  then show ?case
    by (simp add: Cons.IH comp_def ac_simps del: upt_Suc)
qed simp

lemma basesFrom_nth: "i < length ts \<Longrightarrow> basesFrom b ts ! i = b + int (length (concat (map mediaOf (take i ts))))"
  by (induction ts arbitrary: b i) (auto simp: nth_Cons split: nat.splits)

lemma mp4_file_track:
  assumes fit: "tracks_fit ts" "ticks_fit (ts ! i)" and i: "i < length ts" and base: "base = int (length pre)"
    and lay: "file = pre @ concat (map mediaOf ts)" "length file < 2 ^ 62"
  shows "map (packetOf file) (mp4_entries idx (ts ! i) (basesFrom base ts ! i)) = map (mp4_expected idx (ts ! i)) [0..<length (mt_samples (ts ! i))]"
    "\<forall>e\<in>set (mp4_entries idx (ts ! i) (basesFrom base ts ! i)). readable file e"
proof -
  let ?pre = "pre @ concat (map mediaOf (take i ts))" and ?post = "concat (map mediaOf (drop (Suc i) ts))"
  have "map mediaOf ts = map mediaOf (take i ts @ ts ! i # drop (Suc i) ts)"
    using i by (simp only: id_take_nth_drop [symmetric])
  then have split: "concat (map mediaOf ts) = concat (map mediaOf (take i ts)) @ mediaOf (ts ! i) @ ?post"
    by simp
  have small: "length (mediaOf (ts ! i)) < 2 ^ 30"
    using fit(1) split by (simp add: tracks_fit_def)
  have at: "basesFrom base ts ! i = int (length ?pre)"
    using i by (simp add: basesFrom_nth base)
  have parts: "file = ?pre @ mediaOf (ts ! i) @ ?post"
    by (simp add: lay(1) split)
  show "map (packetOf file) (mp4_entries idx (ts ! i) (basesFrom base ts ! i)) = map (mp4_expected idx (ts ! i)) [0..<length (mt_samples (ts ! i))]"
    "\<forall>e\<in>set (mp4_entries idx (ts ! i) (basesFrom base ts ! i)). readable file e"
    unfolding at by (rule mp4_entries_play [OF fit(2) parts lay(2) small])+
qed

lemma mp4_GetCodecs_file:
  assumes fit: "tracks_fit ts" and base: "base = int (length (mp4_buildFtyp ts @ makeBox ''moov'' (moovOf ms (zip ts (basesFrom base ts)))) + 8)"
  shows "mp4_GetCodecs (mp4_NewDemuxer (mp4_file ms ts base)) = (Inr (numberedStreams (map mt_codec ts)),
      \<lparr>pd_file = mp4_file ms ts base, pd_streams = numberedStreams (map mt_codec ts),
       pd_samples = sort_key se_dts (fileEntries 0 base ts), pd_pos = 0\<rparr>)" (is ?g)
    and "length (mp4_file ms ts base) < 2 ^ 62"
proof -
  let ?moov = "moovOf ms (zip ts (basesFrom base ts))"
  have moov: "length ?moov < 3 * 10 ^ 9" "box_ok ''moov'' ?moov"
    using moovOf_small [OF fit, of "basesFrom base ts" ms] by simp_all
  have media: "length (concat (map mediaOf ts)) < 2 ^ 30"
    using fit by (simp add: tracks_fit_def)
  have lmoov: "length (makeBox ''moov'' ?moov) = 8 + length ?moov"
    using moov(1) by (simp add: length_makeBox)
  have b: "base = 48 + int (length ?moov)"
    using base lmoov by (simp add: mp4_box_sizes)
  show len: "length (mp4_file ms ts base) < 2 ^ 62"
    using media moov(1) lmoov by (simp add: mp4_file_def mp4_box_sizes)
  have range: "0 \<le> base" "base + int (length (concat (map mediaOf ts))) < 2 ^ 32"
    using b media moov(1) by simp_all
  obtain p where p: "mp4_buildFtyp ts = makeBox ''ftyp'' p" "box_ok ''ftyp'' p" "length p = 24"
    by (simp add: mp4_buildFtyp_def box_ok_def Let_def)
  let ?mdat = "put32 (of_nat (8 + length (concat (map mediaOf ts)))) @ strbytes ''mdat'' @ concat (map mediaOf ts)"
  have "findTopLevelBox (mp4_file ms ts base) 0 ''moov'' = findTopLevelBox (mp4_file ms ts base) 32 ''moov''"
    using findTopLevelBox_box [of "mp4_file ms ts base" "[]" "''ftyp''" p "makeBox ''moov'' ?moov @ ?mdat" "''moov''"] p len
    by (simp add: mp4_file_def)
  also have "\<dots> = Inr ?moov"
    using findTopLevelBox_box [of "mp4_file ms ts base" "mp4_buildFtyp ts" "''moov''" ?moov ?mdat "''moov''"] moov len
    by (simp add: mp4_file_def mp4_box_sizes)
  finally show ?g
    by (simp add: mp4_GetCodecs_def mp4_NewDemuxer_def andThen_def parseMoovPayload_moovOf [OF fit range])
qed

lemma mp4_file_plays:
  assumes fit: "tracks_fit ts" "\<forall>t\<in>set ts. ticks_fit t"
    and base: "base = int (length (mp4_buildFtyp ts @ makeBox ''moov'' (moovOf ms (zip ts (basesFrom base ts)))) + 8)"
    and n: "sum_list (map (\<lambda>t. length (mt_samples t)) ts) < n"
  shows "\<exists>d out. mp4_GetCodecs (mp4_NewDemuxer (mp4_file ms ts base)) = (Inr (numberedStreams (map mt_codec ts)), d) \<and>
    mp4_drain n d = (out, Some DEOF) \<and> sorted (map DTS out) \<and> (\<forall>p\<in>set out. \<exists>k<length ts. Idx p = of_nat k) \<and>
    (\<forall>k<length ts. filter (\<lambda>p. Idx p = of_nat k) out = map (mp4_expected (of_nat k) (ts ! k)) [0..<length (mt_samples (ts ! k))])"
proof -
  define f where "f = mp4_file ms ts base"
  define S where "S = sort_key se_dts (fileEntries 0 base ts)"
  define out where "out = map (packetOf f) S"
  let ?d = "\<lparr>pd_file = f, pd_streams = numberedStreams (map mt_codec ts), pd_samples = S, pd_pos = 0\<rparr>"
  let ?pre = "mp4_buildFtyp ts @ makeBox ''moov'' (moovOf ms (zip ts (basesFrom base ts))) @
    put32 (of_nat (8 + length (concat (map mediaOf ts)))) @ strbytes ''mdat''"
  note g = mp4_GetCodecs_file [OF fit(1) base]
  have lay: "base = int (length ?pre)" "f = ?pre @ concat (map mediaOf ts)" "length f < 2 ^ 62"
    using base g(2) by (simp_all add: f_def mp4_file_def)
  have track: "map (packetOf f) (mp4_entries idx (ts ! i) (basesFrom base ts ! i)) = map (mp4_expected idx (ts ! i)) [0..<length (mt_samples (ts ! i))]"
    "\<forall>e\<in>set (mp4_entries idx (ts ! i) (basesFrom base ts ! i)). readable f e" if "i < length ts" for i idx
    using mp4_file_track [OF fit(1) _ that lay] fit(2) that by auto
  have readable: "\<forall>e\<in>set S. readable f e"
    using track(2) by (auto simp: S_def fileEntries_concat)
  have "length S = sum_list (map (\<lambda>i. length (mt_samples (ts ! i))) [0..<length ts])"
    by (simp add: S_def fileEntries_concat length_concat comp_def mp4_entries_def)
  also have "map (\<lambda>i. length (mt_samples (ts ! i))) [0..<length ts] = map (\<lambda>t. length (mt_samples t)) ts"
    by (rule nth_equalityI) simp_all
  finally have "mp4_drain n ?d = (out, Some DEOF)"
    using mp4_drain_readable [of ?d n] readable n by (simp add: out_def)
  moreover have "map DTS out = map se_dts S"
    by (simp add: out_def packetOf_def comp_def)
  then have "sorted (map DTS out)"
    by (simp add: S_def)
  moreover have "\<forall>p\<in>set out. \<exists>k<length ts. Idx p = of_nat k"
    by (auto simp: out_def S_def fileEntries_concat packetOf_def mp4_entries_def)
  moreover have "filter (\<lambda>p. Idx p = of_nat k) out = map (mp4_expected (of_nat k) (ts ! k)) [0..<length (mt_samples (ts ! k))]"
    if k: "k < length ts" for k
  proof -
    let ?es = "mp4_entries (of_nat k) (ts ! k) (basesFrom base ts ! k)"
    have "map se_dts ?es = map DTS (map (packetOf f) ?es)"
      by (simp add: packetOf_def comp_def)
    also have "\<dots> = map (\<lambda>i. DTS (mp4_expected (of_nat k) (ts ! k) i)) [0..<length (mt_samples (ts ! k))]"
      by (simp add: track(1) [OF k] comp_def)
    finally have "sorted (map se_dts ?es)"
      using mp4_expected_sorted [of "ts ! k"] fit(2) k by simp
    then have "filter (\<lambda>e. se_streamIdx e = of_nat k) S = ?es"
      using fileEntries_stream [of 0 ts k base] k fit(1) by (simp add: S_def filter_sort sort_key_id_if_sorted tracks_fit_def)
    then show ?thesis
      using track(1) [OF k] by (simp add: out_def filter_map comp_def packetOf_def)
  qed
  ultimately show ?thesis
    using g(1) by (auto simp: f_def S_def)
qed

subsection \<open>Filling the tracks\<close>

definition mp4_newTrack :: "nat \<Rightarrow> stream \<Rightarrow> mp4Track" where
  "mp4_newTrack i s = \<lparr>mt_streamIdx = s_Idx s, mt_id = of_nat (i + 1), mt_codec = s_Codec s,
     mt_timescale = the (mp4_timescaleForCodec (s_Codec s)), mt_isVideo = IsVideo (codecType (s_Codec s)), mt_samples = []\<rparr>"

abbreviation mp4_streams :: "stream list \<Rightarrow> stream list" where
  "mp4_streams streams \<equiv> filter (\<lambda>s. mp4_codec (s_Codec s)) streams"

lemma mp4_addTracks_tracks:
  "pm_tracks (mp4_addTracks m streams) =
    pm_tracks m @ map (\<lambda>(i, s). mp4_newTrack i s) (enumerate (length (pm_tracks m)) (mp4_streams streams))"
  "pm_w (mp4_addTracks m streams) = pm_w m" "pm_closed (mp4_addTracks m streams) = pm_closed m"
  by (induction m streams rule: mp4_addTracks.induct) (auto simp: mp4_codec_def mp4_newTrack_def Let_def split: option.splits)

lemma mp4_addTracks_map:
  "distinct (map s_Idx (mp4_streams streams)) \<Longrightarrow>
    (\<forall>k<length (mp4_streams streams). pm_trackMap (mp4_addTracks m streams) (s_Idx (mp4_streams streams ! k)) = Some (length (pm_tracks m) + k)) \<and>
    (\<forall>i. i \<notin> s_Idx ` set (mp4_streams streams) \<longrightarrow> pm_trackMap (mp4_addTracks m streams) i = pm_trackMap m i)"
proof (induction m streams rule: mp4_addTracks.induct)
  case (2 m s rest)
  show ?case
  proof (cases "mp4_timescaleForCodec (s_Codec s)")
    case None
    then show ?thesis
      using 2 by (simp add: mp4_codec_def)
  next
    case (Some ts)
    then show ?thesis
      using 2 by (auto simp: mp4_codec_def Let_def nth_Cons split: nat.splits)
  qed
qed simp

definition mp4_fill :: "mp4Track \<Rightarrow> packet list \<Rightarrow> mp4Track" where
  "mp4_fill t ps = t\<lparr>mt_samples := mt_samples t @ map (\<lambda>p. mp4_sample p t) ps\<rparr>"

lemma mp4_writePackets_fill:
  "pm_written m \<Longrightarrow> \<not> pm_closed m \<Longrightarrow> \<forall>i k. pm_trackMap m i = Some k \<longrightarrow> k < length (pm_tracks m) \<Longrightarrow>
    mp4_writePackets m pkts =
      (None, m\<lparr>pm_tracks := map (\<lambda>k. mp4_fill (pm_tracks m ! k) (filter (\<lambda>p. pm_trackMap m (Idx p) = Some k) pkts)) [0..<length (pm_tracks m)]\<rparr>)"
proof (induction pkts arbitrary: m)
  case Nil
  have "map (\<lambda>k. mp4_fill (pm_tracks m ! k) []) [0..<length (pm_tracks m)] = pm_tracks m"
    by (rule nth_equalityI) (simp_all add: mp4_fill_def)
  then show ?case by simp
next
  case (Cons p pkts)
  show ?case
  proof (cases "pm_trackMap m (Idx p)")
    case None
    then show ?thesis
      using Cons by (simp add: mp4_WritePacket_def)
  next
    case (Some i)
    let ?m = "m\<lparr>pm_tracks := (pm_tracks m)[i := mp4_append p (pm_tracks m ! i)]\<rparr>"
    have i: "i < length (pm_tracks m)"
      using Cons.prems Some by blast
    have "map (\<lambda>k. mp4_fill (pm_tracks ?m ! k) (filter (\<lambda>p. pm_trackMap m (Idx p) = Some k) pkts)) [0..<length (pm_tracks m)] =
        map (\<lambda>k. mp4_fill (pm_tracks m ! k) (filter (\<lambda>p. pm_trackMap m (Idx p) = Some k) (p # pkts))) [0..<length (pm_tracks m)]"
      using i Some by (intro map_cong refl) (auto simp: nth_list_update mp4_fill_def mp4_append_def mp4_sample_def)
    then show ?thesis
      using Cons.IH [of ?m] Cons.prems Some by (simp add: mp4_WritePacket_def)
  qed
qed

lemma parts_le_whole:
  fixes f :: "'a \<Rightarrow> nat" and g :: "'a \<Rightarrow> nat option"
  shows "sum_list (map (\<lambda>k. sum_list (map f (filter (\<lambda>x. g x = Some k) xs))) [0..<n]) \<le> sum_list (map f xs)"
proof (induction xs)
  case (Cons x xs)
  have "sum_list (map (\<lambda>k. if g x = Some k then f x else 0) [0..<n]) \<le> f x"
  proof (cases "g x")
    case (Some j)
    then have "sum_list (map (\<lambda>k. if g x = Some k then f x else 0) [0..<n]) = (if j < n then f x else 0)"
      by (induction n) auto
    then show ?thesis by simp
  qed simp
  moreover have "sum_list (map (\<lambda>k. sum_list (map f (filter (\<lambda>x. g x = Some k) (x # xs)))) [0..<n]) =
      sum_list (map (\<lambda>k. if g x = Some k then f x else 0) [0..<n]) + sum_list (map (\<lambda>k. sum_list (map f (filter (\<lambda>x. g x = Some k) xs))) [0..<n])"
    by (induction n) auto
  ultimately show ?case
    using Cons.IH by simp
qed simp

subsection \<open>Sessions\<close>

text \<open>
  The sessions of the round trip: at least one stream that the muxer supports and at most 1000, with different numbers,
  codecs that survive their own configuration record and time scales up to 96 kHz; less than 1 GiB of media in at most
  2^26 packets; a packet lasts at most ten hours, is presented at most six hours from its decoding time, and a
  stream lasts at most a day, which keeps the tick arithmetic of the demuxer in 64 bits.
\<close>

definition mp4_session :: "stream list \<Rightarrow> packet list \<Rightarrow> bool" where
  "mp4_session streams pkts \<longleftrightarrow> mp4_streams streams \<noteq> [] \<and> length (mp4_streams streams) \<le> 1000 \<and>
    distinct (map s_Idx (mp4_streams streams)) \<and>
    (\<forall>s\<in>set (mp4_streams streams). codec_stable (s_Codec s) \<and>
      0 < the (mp4_timescaleForCodec (s_Codec s)) \<and> the (mp4_timescaleForCodec (s_Codec s)) \<le> 96000 \<and>
      sum_list (map Duration (filter (\<lambda>p. Idx p = s_Idx s) pkts)) \<le> 86400 * second) \<and>
    length pkts \<le> 2 ^ 26 \<and> sum_list (map (\<lambda>p. length (Data p)) pkts) < 2 ^ 30 \<and>
    (\<forall>p\<in>set pkts. 0 \<le> Duration p \<and> Duration p \<le> 36000 * second \<and> \<bar>PTSOffset p\<bar> \<le> 21600 * second)"

definition wholeTicks :: "duration \<Rightarrow> u32 \<Rightarrow> int" where
  "wholeTicks d timescale = go_quot (d * uint timescale) second"

text \<open>Packet \<open>i\<close> of a stream as it is played: its times are whole ticks, and it follows the packets before it without a gap.\<close>

definition mp4_played :: "u16 \<Rightarrow> codec_data \<Rightarrow> packet list \<Rightarrow> nat \<Rightarrow> packet" where
  "mp4_played idx codec ps i = (let timescale = the (mp4_timescaleForCodec codec); p = ps ! i in
     zero_packet\<lparr>Idx := idx, KeyFrame := isVideoCodec codec \<and> KeyFrame p,
       DTS := ticksToDuration (sum_list (map (\<lambda>q. wholeTicks (Duration q) timescale) (take i ps))) timescale,
       PTSOffset := ticksToDuration (wholeTicks (PTSOffset p) timescale) timescale,
       Duration := ticksToDuration (wholeTicks (Duration p) timescale) timescale, CodecType := codecType codec, Data := Data p\<rparr>)"

lemma go_quot_abs: assumes "0 < b" shows "\<bar>go_quot a b\<bar> * b \<le> \<bar>a\<bar>"
proof -
  have "0 \<le> \<bar>a\<bar> div b" "\<bar>a\<bar> div b * b \<le> \<bar>a\<bar>"
    using assms div_mult_mod_eq [of "\<bar>a\<bar>" b] pos_mod_sign [OF assms, of "\<bar>a\<bar>"]
    by (simp add: pos_imp_zdiv_nonneg_iff, linarith)
  then show ?thesis
    using assms by (auto simp: go_quot_def abs_mult sgn_if abs_if split: if_splits)
qed

lemma mp4_durationToTicks_exact:
  assumes "\<bar>d\<bar> \<le> 36000 * second" "0 < ts" "ts \<le> 96000" shows "mp4_durationToTicks d ts = wholeTicks d ts" "\<bar>wholeTicks d ts\<bar> * second \<le> \<bar>d\<bar> * 96000"
proof -
  have ts: "0 < uint ts" "uint ts \<le> 96000"
    using assms(2,3) by (simp_all add: word_less_def word_le_def)
  have prod: "\<bar>d * uint ts\<bar> \<le> \<bar>d\<bar> * 96000"
    using ts by (simp add: abs_mult mult_left_mono)
  then have "in64 (d * uint ts)"
    using assms(1) by (auto simp: in64_def second_def)
  then show "mp4_durationToTicks d ts = wholeTicks d ts"
    using assms(2) by (auto simp: mp4_durationToTicks_def wholeTicks_def goint go_quot_def)
  have "\<bar>wholeTicks d ts\<bar> * second \<le> \<bar>d * uint ts\<bar>"
    unfolding wholeTicks_def by (rule go_quot_abs) (simp add: second_def)
  then show "\<bar>wholeTicks d ts\<bar> * second \<le> \<bar>d\<bar> * 96000"
    using prod by linarith
qed

lemma wholeTicks_nonneg: "0 \<le> d \<Longrightarrow> 0 \<le> wholeTicks d ts"
  by (simp add: wholeTicks_def go_quot_nonneg second_def pos_imp_zdiv_nonneg_iff)

lemma mp4_sample_ticks:
  assumes "0 \<le> Duration p" "Duration p \<le> 36000 * second" "\<bar>PTSOffset p\<bar> \<le> 21600 * second" "0 < mt_timescale t" "mt_timescale t \<le> 96000"
  shows "uint (bs_duration (mp4_sample p t)) = wholeTicks (Duration p) (mt_timescale t)"
    "sint (bs_ptsOff (mp4_sample p t)) = wholeTicks (PTSOffset p) (mt_timescale t)"
proof -
  have d: "mp4_durationToTicks (Duration p) (mt_timescale t) = wholeTicks (Duration p) (mt_timescale t)"
      "\<bar>wholeTicks (Duration p) (mt_timescale t)\<bar> * second \<le> \<bar>Duration p\<bar> * 96000"
    using assms by (intro mp4_durationToTicks_exact; simp)+
  have o: "mp4_durationToTicks (PTSOffset p) (mt_timescale t) = wholeTicks (PTSOffset p) (mt_timescale t)"
      "\<bar>wholeTicks (PTSOffset p) (mt_timescale t)\<bar> * second \<le> \<bar>PTSOffset p\<bar> * 96000"
    using assms by (intro mp4_durationToTicks_exact; simp add: second_def)+
  have "0 \<le> wholeTicks (Duration p) (mt_timescale t)" "wholeTicks (Duration p) (mt_timescale t) < 2 ^ 32"
    using d(2) assms(1,2) wholeTicks_nonneg [OF assms(1), of "mt_timescale t"] by (auto simp: second_def)
  then show "uint (bs_duration (mp4_sample p t)) = wholeTicks (Duration p) (mt_timescale t)"
    by (simp add: mp4_sample_def d(1) uint_word_of_int)
  have "- (2 ^ 31) \<le> wholeTicks (PTSOffset p) (mt_timescale t)" "wholeTicks (PTSOffset p) (mt_timescale t) < 2 ^ 31"
    using o(2) assms(3) by (auto simp: second_def)
  then show "sint (bs_ptsOff (mp4_sample p t)) = wholeTicks (PTSOffset p) (mt_timescale t)"
    by (simp add: mp4_sample_def o(1) sint_of_int32 wrap32_def signed_take_bit_int_eq_self)
qed

lemma sum_wholeTicks:
  assumes "\<forall>p\<in>set ps. 0 \<le> Duration p \<and> Duration p \<le> 36000 * second" "0 < ts" "ts \<le> 96000"
  shows "sum_list (map (\<lambda>p. wholeTicks (Duration p) ts) ps) * second \<le> sum_list (map Duration ps) * 96000"
  using assms(1)
proof (induction ps)
  case (Cons p ps)
  then have "wholeTicks (Duration p) ts * second \<le> Duration p * 96000"
    using mp4_durationToTicks_exact(2) [of "Duration p" ts] wholeTicks_nonneg [of "Duration p" ts] assms(2,3) by simp
  then show ?case
    using Cons by (simp add: distrib_right)
qed simp

lemma mp4_fill_session:
  assumes ses: "mp4_session streams pkts" and k: "k < length (mp4_streams streams)"
    and ps: "ps = filter (\<lambda>p. Idx p = s_Idx (mp4_streams streams ! k)) pkts"
  defines "t \<equiv> mp4_fill (mp4_newTrack k (mp4_streams streams ! k)) ps"
  shows "mtrack_ok t" "ticks_fit t" "length (mt_samples t) = length ps" "mediaOf t = concat (map Data ps)"
    "\<forall>i<length ps. mp4_expected idx t i = mp4_played idx (s_Codec (mp4_streams streams ! k)) ps i"
proof -
  let ?s = "mp4_streams streams ! k"
  let ?t = "mp4_newTrack k ?s" and ?ts = "the (mp4_timescaleForCodec (s_Codec ?s))"
  have "?s \<in> set (mp4_streams streams)"
    using k by (rule nth_mem)
  then have s: "codec_stable (s_Codec ?s)" "mp4_codec (s_Codec ?s)" "0 < ?ts" "?ts \<le> 96000" "sum_list (map Duration ps) \<le> 86400 * second"
    using ses ps by (auto simp: mp4_session_def)
  have p: "\<forall>p\<in>set ps. 0 \<le> Duration p \<and> Duration p \<le> 36000 * second \<and> \<bar>PTSOffset p\<bar> \<le> 21600 * second"
    using ses ps by (auto simp: mp4_session_def)
  have vid: "IsVideo (codecType (s_Codec ?s)) = isVideoCodec (s_Codec ?s)"
    using s(2) by (cases "s_Codec ?s") (simp_all add: mp4_codec_def mp4_timescaleForCodec_def)
  have samples: "mt_samples t = map (\<lambda>p. mp4_sample p ?t) ps" "mt_timescale t = ?ts" "mt_codec t = s_Codec ?s"
      "mt_isVideo t = isVideoCodec (s_Codec ?s)"
    using vid by (simp_all add: t_def mp4_fill_def mp4_newTrack_def)
  show len: "length (mt_samples t) = length ps"
    by (simp add: samples)
  have "length ps \<le> 2 ^ 26"
    unfolding ps using ses by (intro order_trans [OF length_filter_le]) (simp add: mp4_session_def)
  then show "mtrack_ok t"
    using s samples vid by (auto simp: mtrack_ok_def)
  show "mediaOf t = concat (map Data ps)"
    by (simp add: mediaOf_def samples mp4_sample_def comp_def)
  have smp: "uint (bs_duration (mp4_sample p ?t)) = wholeTicks (Duration p) ?ts"
      "sint (bs_ptsOff (mp4_sample p ?t)) = wholeTicks (PTSOffset p) ?ts" if "p \<in> set ps" for p
    using mp4_sample_ticks [of p ?t] p s(3,4) that by (simp_all add: mp4_newTrack_def)
  have sums: "map (\<lambda>s. uint (bs_duration s)) (take i (mt_samples t)) = map (\<lambda>p. wholeTicks (Duration p) ?ts) (take i ps)" for i
    using smp(1) by (auto simp: samples take_map dest: in_set_takeD)
  have "sum_list (map (\<lambda>p. wholeTicks (Duration p) ?ts) ps) * second \<le> 86400 * second * 96000"
    using sum_wholeTicks [of ps ?ts] p s(3-5) by simp
  then show "ticks_fit t"
    using sums [of "length ps"] len by (simp add: ticks_fit_def second_def)
  show "\<forall>i<length ps. mp4_expected idx t i = mp4_played idx (s_Codec ?s) ps i"
    using smp sums by (auto simp: mp4_expected_def mp4_played_def samples(2-4) Let_def) (auto simp: samples(1) mp4_sample_def mp4_newTrack_def)
qed

lemma mp4_WriteHeader_session:
  assumes ses: "mp4_session streams pkts"
  obtains m0 where "mp4_WriteHeader (mp4_NewMuxer w) streams = (None, m0)" "pm_w m0 = w" "pm_written m0" "\<not> pm_closed m0"
    "pm_tracks m0 = map (\<lambda>k. mp4_newTrack k (mp4_streams streams ! k)) [0..<length (mp4_streams streams)]"
    "\<forall>i k. pm_trackMap m0 i = Some k \<longleftrightarrow> k < length (mp4_streams streams) \<and> i = s_Idx (mp4_streams streams ! k)"
proof -
  let ?m = "mp4_NewMuxer w" and ?ss = "mp4_streams streams"
  let ?h = "(mp4_addTracks ?m streams)\<lparr>pm_written := True\<rparr>"
  have dist: "distinct (map s_Idx ?ss)"
    using ses by (simp add: mp4_session_def)
  have map: "\<forall>k<length ?ss. pm_trackMap ?h (s_Idx (?ss ! k)) = Some k" "\<forall>i. i \<notin> s_Idx ` set ?ss \<longrightarrow> pm_trackMap ?h i = None"
    using mp4_addTracks_map [OF dist, of ?m] by (simp_all add: mp4_NewMuxer_def)
  have "pm_trackMap ?h i = Some k \<longleftrightarrow> k < length ?ss \<and> i = s_Idx (?ss ! k)" for i k
  proof
    assume some: "pm_trackMap ?h i = Some k"
    then have "i \<in> s_Idx ` set ?ss"
      using map(2) by (metis option.distinct(1))
    then obtain j where "j < length ?ss" "i = s_Idx (?ss ! j)"
      by (auto simp: in_set_conv_nth simp del: set_filter)
    then show "k < length ?ss \<and> i = s_Idx (?ss ! k)"
      using some map(1) by simp
  qed (use map(1) in simp)
  moreover have "map (\<lambda>(i, s). mp4_newTrack i s) (enumerate 0 ?ss) = map (\<lambda>k. mp4_newTrack k (?ss ! k)) [0..<length ?ss]"
    by (rule nth_equalityI) (simp_all add: nth_enumerate_eq)
  ultimately show thesis
    using that [of ?h] by (simp add: mp4_WriteHeader_def mp4_addTracks_tracks mp4_NewMuxer_def)
qed

lemma mp4_session_tracks:
  assumes ses: "mp4_session streams pkts"
  defines "ss \<equiv> mp4_streams streams"
  defines "ts \<equiv> map (\<lambda>k. mp4_fill (mp4_newTrack k (ss ! k)) (filter (\<lambda>p. Idx p = s_Idx (ss ! k)) pkts)) [0..<length ss]"
  shows "tracks_fit ts" "\<forall>t\<in>set ts. ticks_fit t" "sum_list (map (\<lambda>t. length (mt_samples t)) ts) \<le> length pkts"
proof -
  define g :: "packet \<Rightarrow> nat option" where "g = (\<lambda>p. find (\<lambda>k. Idx p = s_Idx (ss ! k)) [0..<length ss])"
  note fill = mp4_fill_session [OF ses _ refl, folded ss_def]
  have "distinct (map s_Idx ss)"
    using ses by (simp add: mp4_session_def ss_def)
  then have g: "g p = Some k \<longleftrightarrow> Idx p = s_Idx (ss ! k)" if "k < length ss" for p k
    using that unfolding g_def find_Some_iff by (auto simp: distinct_conv_nth)
  have parts: "sum_list (map (\<lambda>k. sum_list (map f (filter (\<lambda>p. Idx p = s_Idx (ss ! k)) pkts))) [0..<length ss]) \<le> sum_list (map f pkts)" for f :: "packet \<Rightarrow> nat"
  proof -
    have "map (\<lambda>k. sum_list (map f (filter (\<lambda>p. g p = Some k) pkts))) [0..<length ss] =
        map (\<lambda>k. sum_list (map f (filter (\<lambda>p. Idx p = s_Idx (ss ! k)) pkts))) [0..<length ss]"
      using g by simp
    then show ?thesis
      using parts_le_whole [of f g pkts "length ss"] by (simp only:)
  qed
  have "map (\<lambda>t. length (mt_samples t)) ts = map (\<lambda>k. sum_list (map (\<lambda>p. 1) (filter (\<lambda>p. Idx p = s_Idx (ss ! k)) pkts))) [0..<length ss]"
    by (simp add: ts_def fill(3) sum_list_triv)
  then have "sum_list (map (\<lambda>t. length (mt_samples t)) ts) \<le> sum_list (map (\<lambda>p. 1) pkts)"
    using parts [of "\<lambda>p. 1"] by (simp only:)
  then show len: "sum_list (map (\<lambda>t. length (mt_samples t)) ts) \<le> length pkts"
    by (simp add: sum_list_triv)
  have "map (\<lambda>t. length (mediaOf t)) ts = map (\<lambda>k. sum_list (map (\<lambda>p. length (Data p)) (filter (\<lambda>p. Idx p = s_Idx (ss ! k)) pkts))) [0..<length ss]"
    by (simp add: ts_def fill(4) length_concat comp_def)
  then have "length (concat (map mediaOf ts)) \<le> sum_list (map (\<lambda>p. length (Data p)) pkts)"
    using parts [of "\<lambda>p. length (Data p)"] by (simp add: length_concat comp_def)
  moreover have "\<forall>t\<in>set ts. mtrack_ok t"
    using fill(1) by (auto simp: ts_def)
  ultimately show "tracks_fit ts"
    using ses len by (auto simp: tracks_fit_def mp4_session_def ts_def ss_def)
  show "\<forall>t\<in>set ts. ticks_fit t"
    using fill(2) by (auto simp: ts_def)
qed

definition ex_mp4_packets :: "packet list" where
  "ex_mp4_packets = [zero_packet\<lparr>Idx := 3, DTS := 5000000, Duration := 20000000, Data := [1, 2, 3]\<rparr>,
     zero_packet\<lparr>Idx := 7, Data := [9]\<rparr>, zero_packet\<lparr>Idx := 3, DTS := 90000000, Duration := 10000000, Data := [4, 5]\<rparr>]"

lemma ex_mp4_session: "mp4_session ex_streams ex_mp4_packets" "mp4_streams ex_streams = ex_streams"
proof -
  have "aac_NewCodecDataFromMPEG4AudioConfigBytes [0x12, 0x10] = Inr \<lparr>aac_ConfigBytes = [0x12, 0x10],
      aac_Config = \<lparr>aac_SampleRate = 44100, aac_ChannelLayout = 6, aac_ObjectType = 2, aac_SampleRateIndex = 4,
        aac_ChannelConfig = 2\<rparr>\<rparr>"
    by code_simp
  then show "mp4_session ex_streams ex_mp4_packets"
    by (simp add: mp4_session_def ex_streams_def ex_mp4_packets_def codec_stable_def mp4_codec_def mp4_timescaleForCodec_def second_def zero_packet_def)
  show "mp4_streams ex_streams = ex_streams"
    by (simp add: ex_streams_def mp4_codec_def mp4_timescaleForCodec_def)
qed

text \<open>
  C6.  An MP4 recording can be played back.  On a writer that accepts every write, for every session within the bounds of
  \<^const>\<open>mp4_session\<close> and packets of any streams in any order: header, packets and trailer succeed; the demuxer then finds exactly
  the supported streams with their codecs, numbered from zero; reading gives, in the order of decoding times and then \<^verbatim>\<open>io.EOF\<close>,
  for every stream exactly its packets in the order written, each with its data, its key flag (video only), its duration and
  presentation offset in whole ticks, and as decoding time the sum of the durations before it.
\<close>

theorem mp4_recording:
  assumes ses: "mp4_session streams pkts" and w: "w_out w = []" "w_script w = []"
  shows "\<exists>m0 m1 m2 d out. mp4_WriteHeader (mp4_NewMuxer w) streams = (None, m0) \<and> mp4_writePackets m0 pkts = (None, m1) \<and>
    mp4_WriteTrailer m1 = Some (None, m2) \<and>
    mp4_GetCodecs (mp4_NewDemuxer (w_out (pm_w m2))) = (Inr (numberedStreams (map s_Codec (mp4_streams streams))), d) \<and>
    mp4_drain (length pkts + 1) d = (out, Some DEOF) \<and> sorted (map DTS out) \<and>
    (\<forall>p\<in>set out. \<exists>k<length (mp4_streams streams). Idx p = of_nat k) \<and>
    (\<forall>k<length (mp4_streams streams). let ps = filter (\<lambda>p. Idx p = s_Idx (mp4_streams streams ! k)) pkts in
      filter (\<lambda>p. Idx p = of_nat k) out = map (mp4_played (of_nat k) (s_Codec (mp4_streams streams ! k)) ps) [0..<length ps])"
proof -
  let ?ss = "mp4_streams streams"
  obtain m0 where m0: "mp4_WriteHeader (mp4_NewMuxer w) streams = (None, m0)" "pm_w m0 = w" "pm_written m0" "\<not> pm_closed m0"
      "pm_tracks m0 = map (\<lambda>k. mp4_newTrack k (?ss ! k)) [0..<length ?ss]"
      "\<forall>i k. pm_trackMap m0 i = Some k \<longleftrightarrow> k < length ?ss \<and> i = s_Idx (?ss ! k)"
    using mp4_WriteHeader_session [OF ses] by blast
  define ts where "ts = map (\<lambda>k. mp4_fill (mp4_newTrack k (?ss ! k)) (filter (\<lambda>p. Idx p = s_Idx (?ss ! k)) pkts)) [0..<length ?ss]"
  note fit = mp4_session_tracks [OF ses, folded ts_def]
  have "map (\<lambda>k. mp4_fill (pm_tracks m0 ! k) (filter (\<lambda>p. pm_trackMap m0 (Idx p) = Some k) pkts)) [0..<length (pm_tracks m0)] = ts"
    by (simp add: m0(5,6) ts_def)
  then have m1: "mp4_writePackets m0 pkts = (None, m0\<lparr>pm_tracks := ts\<rparr>)"
    using mp4_writePackets_fill [OF m0(3,4), of pkts] m0(5,6) by simp
  let ?m = "m0\<lparr>pm_tracks := ts, pm_closed := True\<rparr>"
  have wm: "tracks_fit (pm_tracks ?m)" "w_out (pm_w ?m) = []" "w_script (pm_w ?m) = []"
    using fit(1) w m0(2) by simp_all
  obtain ms base m2 where m2: "mp4_flush ?m = Some (None, m2)" "w_out (pm_w m2) = mp4_file ms ts base"
      "base = int (length (mp4_buildFtyp ts @ makeBox ''moov'' (moovOf ms (zip ts (basesFrom base ts)))) + 8)"
    by (rule mp4_flush_file [OF wm]) simp
  have n: "sum_list (map (\<lambda>t. length (mt_samples t)) ts) < length pkts + 1"
    using fit(3) by simp
  obtain d out where play: "mp4_GetCodecs (mp4_NewDemuxer (mp4_file ms ts base)) = (Inr (numberedStreams (map mt_codec ts)), d)"
      "mp4_drain (length pkts + 1) d = (out, Some DEOF)" "sorted (map DTS out)" "\<forall>p\<in>set out. \<exists>k<length ts. Idx p = of_nat k"
      "\<forall>k<length ts. filter (\<lambda>p. Idx p = of_nat k) out = map (mp4_expected (of_nat k) (ts ! k)) [0..<length (mt_samples (ts ! k))]"
    using mp4_file_plays [OF fit(1,2) m2(3) n] by blast
  have codecs: "map mt_codec ts = map s_Codec ?ss"
    by (rule nth_equalityI) (simp_all add: ts_def mp4_fill_def mp4_newTrack_def)
  have tr: "mp4_WriteTrailer (m0\<lparr>pm_tracks := ts\<rparr>) = Some (None, m2)"
    using m0(4) m2(1) by (simp add: mp4_WriteTrailer_def)
  have streams: "let ps = filter (\<lambda>p. Idx p = s_Idx (?ss ! k)) pkts in
      filter (\<lambda>p. Idx p = of_nat k) out = map (mp4_played (of_nat k) (s_Codec (?ss ! k)) ps) [0..<length ps]" if k: "k < length ?ss" for k
    using play(5) mp4_fill_session(3,5) [OF ses k refl] k by (simp add: ts_def)
  show ?thesis
    by (rule exI [of _ m0], rule exI [of _ "m0\<lparr>pm_tracks := ts\<rparr>"], rule exI [of _ m2], rule exI [of _ d], rule exI [of _ out])
      (use m0(1) m1 tr play(1-4) streams codecs m2(2) ts_def in simp)
qed

theorem mp4_recording_witness:
  "\<exists>m0 m1 m2 d out. mp4_WriteHeader (mp4_NewMuxer ex_writer) ex_streams = (None, m0) \<and> mp4_writePackets m0 ex_mp4_packets = (None, m1) \<and>
    mp4_WriteTrailer m1 = Some (None, m2) \<and>
    mp4_GetCodecs (mp4_NewDemuxer (w_out (pm_w m2))) = (Inr (numberedStreams (map s_Codec ex_streams)), d) \<and>
    mp4_drain 4 d = (out, Some DEOF) \<and>
    map (\<lambda>p. (Idx p, DTS p, Duration p, Data p)) out = [(0, 0, 20000000, [1, 2, 3]), (0, 20000000, 10000000, [4, 5])]"
proof -
  have w: "w_out ex_writer = []" "w_script ex_writer = []"
    by (simp_all add: ex_writer_def)
  define ps where "ps = [ex_mp4_packets ! 0, ex_mp4_packets ! 2]"
  have ps: "filter (\<lambda>p. Idx p = s_Idx (ex_streams ! 0)) ex_mp4_packets = ps" "length ps = 2" "length ex_streams = 1"
      "length ex_mp4_packets + 1 = 4"
    by (simp_all add: ps_def ex_streams_def ex_mp4_packets_def)
  obtain m0 m1 m2 d out where *: "mp4_WriteHeader (mp4_NewMuxer ex_writer) ex_streams = (None, m0)" "mp4_writePackets m0 ex_mp4_packets = (None, m1)"
      "mp4_WriteTrailer m1 = Some (None, m2)"
      "mp4_GetCodecs (mp4_NewDemuxer (w_out (pm_w m2))) = (Inr (numberedStreams (map s_Codec ex_streams)), d)"
      "mp4_drain 4 d = (out, Some DEOF)" "\<forall>p\<in>set out. \<exists>k<1. Idx p = of_nat k"
      "\<forall>k<1. let ps = filter (\<lambda>p. Idx p = s_Idx (ex_streams ! k)) ex_mp4_packets in
        filter (\<lambda>p. Idx p = of_nat k) out = map (mp4_played (of_nat k) (s_Codec (ex_streams ! k)) ps) [0..<length ps]"
    using mp4_recording [OF ex_mp4_session(1) w] unfolding ex_mp4_session(2) ps(3,4) by blast
  have "\<forall>p\<in>set out. Idx p = 0" "filter (\<lambda>p. Idx p = 0) out = map (mp4_played 0 (s_Codec (ex_streams ! 0)) ps) [0..<2]"
    using *(6,7) ps(1,2) by simp_all
  then have "out = map (mp4_played 0 (s_Codec (ex_streams ! 0)) ps) [0..<2]"
    by simp
  moreover have "map (\<lambda>p. (Idx p, DTS p, Duration p, Data p)) (map (mp4_played 0 (s_Codec (ex_streams ! 0)) [ex_mp4_packets ! 0, ex_mp4_packets ! 2]) [0..<2]) =
      [(0, 0, 20000000, [1, 2, 3]), (0, 20000000, 10000000, [4, 5])]"
    by code_simp
  ultimately have "map (\<lambda>p. (Idx p, DTS p, Duration p, Data p)) out = [(0, 0, 20000000, [1, 2, 3]), (0, 20000000, 10000000, [4, 5])]"
    by (simp only: ps_def)
  with *(1-5) show ?thesis
    by (intro exI conjI)
qed

end
