(* ===== verification/Fragment_Writer.thy ===== *)
theory Fragment_Writer
  imports Fmp4_Seek
begin

text \<open>
  \<^verbatim>\<open>FragmentWriter\<close> of \<^verbatim>\<open>av/format/fmp4/fragment_writer.go\<close>, which leaves the fragment boundaries to its caller.  Track states
  and the code for samples, durations and boxes are those of the muxer.  A flush is refined to the flush of a muxer on a
  buffer, so what is known about fragments of the muxer holds for the fragments of this writer.
\<close>

record FragmentWriter =
  fw_tracks :: "trackState list"
  fw_trackMap :: "u16 \<rightharpoonup> nat"
  fw_seqNum :: u32
  fw_emsgID :: u32
  fw_hasVideo :: bool

fun fw_addTracks :: "FragmentWriter \<Rightarrow> stream list \<Rightarrow> fmp4_error + FragmentWriter" where
  "fw_addTracks fw [] = Inr fw"
| "fw_addTracks fw (s # rest) =
    (case newTrackState s (of_nat (length (fw_tracks fw) + 1)) of
       None \<Rightarrow> Inl ErrUnsupportedCodec
     | Some ts \<Rightarrow>
         fw_addTracks (fw\<lparr>fw_tracks := fw_tracks fw @ [ts], fw_trackMap := (fw_trackMap fw)(s_Idx s \<mapsto> length (fw_tracks fw)),
             fw_hasVideo := (ts_hasVideo ts \<or> fw_hasVideo fw)\<rparr>) rest)"

text \<open>\<^const>\<open>None\<close>: the loop of \<^verbatim>\<open>buildDescriptor\<close> does not end.\<close>

definition NewFragmentWriter :: "stream list \<Rightarrow> (fmp4_error + FragmentWriter \<times> bytes) option" where
  "NewFragmentWriter streams =
    (case fw_addTracks \<lparr>fw_tracks = [], fw_trackMap = Map.empty, fw_seqNum = 0, fw_emsgID = 0, fw_hasVideo = False\<rparr> streams of
       Inl e \<Rightarrow> Some (Inl e)
     | Inr fw \<Rightarrow> map_option (\<lambda>init. Inr (fw, init)) (buildInitSegment (fw_tracks fw)))"

definition fw_WritePacket :: "(frame_analytics \<Rightarrow> bytes option) \<Rightarrow> FragmentWriter \<Rightarrow> packet \<Rightarrow> FragmentWriter" where
  "fw_WritePacket js fw pkt =
    (case fw_trackMap fw (Idx pkt) of
       None \<Rightarrow> fw
     | Some k \<Rightarrow> fw\<lparr>fw_tracks := (fw_tracks fw)[k := appendSample js pkt (fw_tracks fw ! k)]\<rparr>)"

definition HasSamples :: "FragmentWriter \<Rightarrow> bool" where
  "HasSamples fw \<longleftrightarrow> list_ex (\<lambda>ts. length (ts_samples ts) > 0) (fw_tracks fw)"

definition FirstIsKeyframe :: "FragmentWriter \<Rightarrow> bool" where
  "FirstIsKeyframe fw =
    (case find (\<lambda>ts. ts_hasVideo ts \<and> length (ts_samples ts) > 0) (fw_tracks fw) of
       None \<Rightarrow> False
     | Some ts \<Rightarrow> sm_flags (ts_samples ts ! 0) = sampleFlagsKeyframe)"

text \<open>The offsets of the code are the running sums that \<^const>\<open>dataOffsets\<close> computes; an empty result is the nil slice.\<close>

definition fw_Flush :: "FragmentWriter \<Rightarrow> bytes \<times> FragmentWriter" where
  "fw_Flush fw =
    (let tracks = map patchLast (fw_tracks fw);
         active = filter (\<lambda>ts. length (ts_samples ts) > 0) tracks
     in if length active = 0 then ([], fw)
        else let seqNum = fw_seqNum fw + 1;
                 (emsgs, nextID) = collectEmsg active (fw_emsgID fw);
                 moof = buildMoof active seqNum (dataOffsets active);
                 mdat = buildMdat active
             in (emsgs @ moof @ mdat,
                 fw\<lparr>fw_seqNum := seqNum, fw_emsgID := nextID, fw_tracks := map advanceTrack tracks\<rparr>))"

definition CodecDataForStreams :: "FragmentWriter \<Rightarrow> (u16 \<rightharpoonup> codec_data)" where
  "CodecDataForStreams fw = foldl (\<lambda>m ts. m(ts_streamIdx ts \<mapsto> ts_codec ts)) Map.empty (fw_tracks fw)"

definition BuildInitSegment :: "stream list \<Rightarrow> (fmp4_error + bytes) option" where
  "BuildInitSegment streams =
    (case those (map2 (\<lambda>s i. newTrackState s (of_nat (i + 1))) streams [0..<length streams]) of
       None \<Rightarrow> Some (Inl ErrUnsupportedCodec)
     | Some tracks \<Rightarrow> map_option Inr (buildInitSegment tracks))"

subsection \<open>Refinement to the muxer\<close>

text \<open>A muxer on a buffer that has the state of the fragment writer and has written \<open>out\<close>.\<close>

definition fwMuxer :: "FragmentWriter \<Rightarrow> bytes \<Rightarrow> FragmentIndex list \<Rightarrow> Muxer" where
  "fwMuxer fw out es = (NewMuxer \<lparr>w_out = out, w_script = [], w_closer = None, w_closes = 0\<rparr>)\<lparr>m_tracks := fw_tracks fw,
     m_trackMap := fw_trackMap fw, m_seqNum := fw_seqNum fw, m_emsgID := fw_emsgID fw, m_fragIndex := es,
     m_bytesWritten := wrap64 (int (length out))\<rparr>"

lemma fwMuxer_simps [simp]:
  "m_tracks (fwMuxer fw out es) = fw_tracks fw" "w_out (m_w (fwMuxer fw out es)) = out" "m_fragIndex (fwMuxer fw out es) = es"
  "m_bytesWritten (fwMuxer fw out es) = wrap64 (int (length out))" "hasAnySamples (fwMuxer fw out es) = HasSamples fw"
  "m_seqNum (fwMuxer fw out es) = fw_seqNum fw" "m_emsgID (fwMuxer fw out es) = fw_emsgID fw"
  by (simp_all add: fwMuxer_def hasAnySamples_def HasSamples_def NewMuxer_def)

lemma HasSamples_active: "HasSamples fw \<longleftrightarrow> filter (\<lambda>ts. length (ts_samples ts) > 0) (map patchLast (fw_tracks fw)) \<noteq> []"
proof -
  have "length (ts_samples (patchLast ts)) = length (ts_samples ts)" for ts
    by (simp add: patchLast_def Let_def)
  then show ?thesis
    by (auto simp: HasSamples_def list_ex_iff filter_empty_conv)
qed

text \<open>The flush of the writer is the flush of the muxer: the same bytes, the same state.\<close>

lemma fw_Flush_refines:
  assumes "HasSamples fw" and "fw_Flush fw = (data, fw')"
  shows "\<exists>es'. flushFragment (fwMuxer fw out es) = (None, fwMuxer fw' (out @ data) es')" "data = fragBytes (fragOf (fwMuxer fw out es))"
    "\<not> HasSamples fw'"
proof -
  let ?tracks = "map patchLast (fw_tracks fw)"
  let ?active = "filter (\<lambda>ts. length (ts_samples ts) > 0) ?tracks"
  have ne: "?active \<noteq> []"
    using assms(1) by (simp add: HasSamples_active)
  obtain emsgs nextID where c: "collectEmsg ?active (fw_emsgID fw) = (emsgs, nextID)"
    by fastforce
  have data: "data = emsgs @ buildMoof ?active (fw_seqNum fw + 1) (dataOffsets ?active) @ buildMdat ?active"
    and fw': "fw' = fw\<lparr>fw_seqNum := fw_seqNum fw + 1, fw_emsgID := nextID, fw_tracks := map advanceTrack ?tracks\<rparr>"
    using assms(2) ne c by (auto simp: fw_Flush_def Let_def)
  show "\<exists>es'. flushFragment (fwMuxer fw out es) = (None, fwMuxer fw' (out @ data) es')"
    using ne c by (auto simp: flushFragment_def Let_def fwMuxer_def fw' data emit_def Write_def NewMuxer_def wrap64_wrap64_add add.assoc comp_def)
  show "data = fragBytes (fragOf (fwMuxer fw out es))"
    using c by (simp add: data fragBytes_def fragMoofMdat_def fr_emsgs_def fragOf_def fragActive_def)
  show "\<not> HasSamples fw'"
    by (simp add: HasSamples_def fw' list_ex_iff)
qed

subsection \<open>What the fragments contain\<close>

definition fw_ledger :: "bytes \<Rightarrow> trackState list \<Rightarrow> fragment list \<Rightarrow> (nat \<times> sample) list \<Rightarrow> FragmentWriter \<Rightarrow> bool" where
  "fw_ledger init info frags acc fw \<longleftrightarrow> (\<exists>es. ledger init info frags acc (fwMuxer fw (init @ concat (map fragBytes frags)) es))"

definition fw_wf :: "FragmentWriter \<Rightarrow> bool" where
  "fw_wf fw \<longleftrightarrow> (\<forall>i k. fw_trackMap fw i = Some k \<longrightarrow> k < length (fw_tracks fw))"

lemma fw_ledger_tracks: "fw_ledger init info frags acc fw \<Longrightarrow> map trackInfo (fw_tracks fw) = info"
  by (auto simp: fw_ledger_def ledger_def)

lemma fw_Flush_ledger:
  assumes led: "fw_ledger init info frags acc fw" and fl: "fw_Flush fw = (data, fw')"
  obtains frags' where "fw_ledger init info (frags @ frags') acc fw'" "data = concat (map fragBytes frags')" "\<not> HasSamples fw'"
    "length frags' \<le> 1" "HasSamples fw \<Longrightarrow> frags' \<noteq> []"
proof (cases "HasSamples fw")
  case True
  obtain es where es: "ledger init info frags acc (fwMuxer fw (init @ concat (map fragBytes frags)) es)"
    using led by (auto simp: fw_ledger_def)
  let ?m = "fwMuxer fw (init @ concat (map fragBytes frags)) es"
  obtain es' where fl': "flushFragment ?m = (None, fwMuxer fw' ((init @ concat (map fragBytes frags)) @ data) es')"
    using fw_Flush_refines(1) [OF True fl] by blast
  have data: "data = fragBytes (fragOf ?m)"
    by (rule fw_Flush_refines(2) [OF True fl])
  have "ledger init info (frags @ [fragOf ?m]) acc (fwMuxer fw' ((init @ concat (map fragBytes frags)) @ data) es')"
    using flushFragment_ledger [OF es fl'] True by simp
  then have "fw_ledger init info (frags @ [fragOf ?m]) acc fw'"
    by (auto simp: fw_ledger_def data)
  then show thesis
    using that [of "[fragOf ?m]"] data fw_Flush_refines(3) [OF True fl] by simp
next
  case False
  then have "data = []" "fw' = fw"
    using fl by (auto simp: fw_Flush_def Let_def HasSamples_active)
  then show thesis
    using that [of "[]"] led False by simp
qed

lemma fw_Flush_frame:
  assumes "fw_Flush fw = (data, fw')"
  shows "fw_trackMap fw' = fw_trackMap fw" "fw_hasVideo fw' = fw_hasVideo fw" "length (fw_tracks fw') = length (fw_tracks fw)"
  using assms by (auto simp: fw_Flush_def Let_def split: if_splits prod.splits)

lemma fw_WritePacket_ledger:
  assumes led: "fw_ledger init info frags acc fw" and wf: "fw_wf fw"
  shows "fw_ledger init info frags (acc @ (case fw_trackMap fw (Idx pkt) of None \<Rightarrow> [] | Some k \<Rightarrow> [(k, packetKey js (info ! k) pkt)]))
    (fw_WritePacket js fw pkt)"
proof (cases "fw_trackMap fw (Idx pkt)")
  case None
  then show ?thesis using led by (simp add: fw_WritePacket_def)
next
  case (Some k)
  obtain es where es: "ledger init info frags acc (fwMuxer fw (init @ concat (map fragBytes frags)) es)"
    using led by (auto simp: fw_ledger_def)
  have k: "k < length info"
    using wf Some fw_ledger_tracks [OF led] by (auto simp: fw_wf_def)
  have "(fwMuxer fw out es)\<lparr>m_tracks := (fw_tracks fw)[k := appendSample js pkt (fw_tracks fw ! k)]\<rparr> =
      fwMuxer (fw_WritePacket js fw pkt) out es" for out
    using Some by (simp add: fwMuxer_def fw_WritePacket_def)
  then show ?thesis
    using ledger_append [OF es k, of js pkt] Some by (auto simp: fw_ledger_def)
qed

lemma fw_WritePacket_frame:
  "fw_trackMap (fw_WritePacket js fw pkt) = fw_trackMap fw" "fw_hasVideo (fw_WritePacket js fw pkt) = fw_hasVideo fw"
  "length (fw_tracks (fw_WritePacket js fw pkt)) = length (fw_tracks fw)"
  by (simp_all add: fw_WritePacket_def split: option.split)

subsection \<open>A new writer\<close>

text \<open>The tracks are those of a muxer for the same streams, all of them supported.\<close>

lemma fw_addTracks_muxer:
  "fw_addTracks fw streams = Inr fw' \<Longrightarrow> m_tracks m = fw_tracks fw \<Longrightarrow> m_trackMap m = fw_trackMap fw \<Longrightarrow>
    tid = of_nat (length (fw_tracks fw) + 1) \<Longrightarrow>
    m_tracks (addTracks m tid streams) = fw_tracks fw' \<and> m_trackMap (addTracks m tid streams) = fw_trackMap fw' \<and>
    fw_seqNum fw' = fw_seqNum fw \<and> fw_emsgID fw' = fw_emsgID fw \<and>
    fw_hasVideo fw' = (fw_hasVideo fw \<or> list_ex ts_hasVideo (drop (length (fw_tracks fw)) (fw_tracks fw'))) \<and>
    filter supported streams = streams \<and> (\<exists>ts. fw_tracks fw' = fw_tracks fw @ ts \<and> length ts = length streams)"
proof (induction fw streams arbitrary: m tid rule: fw_addTracks.induct)
  case (2 fw s rest)
  obtain ts where ts: "newTrackState s (of_nat (length (fw_tracks fw) + 1)) = Some ts"
    using 2(2) by (auto split: option.splits)
  have "supported s"
    using ts by (auto simp: supported_def newTrackState_def Let_def split: codec_data.splits)
  then show ?case
    using 2(1) [OF ts, of "m\<lparr>m_tracks := m_tracks m @ [ts], m_trackMap := (m_trackMap m)(s_Idx s \<mapsto> length (m_tracks m))\<rparr>" "tid + 1"] 2(2-5) ts
    by (auto simp: ac_simps)
qed auto

lemma NewFragmentWriter_header:
  assumes "NewFragmentWriter streams = Some (Inr (fw, init))" "streams \<noteq> []"
  obtains m0 where "WriteHeader (NewMuxer \<lparr>w_out = [], w_script = [], w_closer = None, w_closes = 0\<rparr>) streams = Some (None, m0)"
    "m_tracks m0 = fw_tracks fw" "m_trackMap m0 = fw_trackMap fw" "w_out (m_w m0) = init" "m_bytesWritten m0 = wrap64 (int (length init))" "m_fragIndex m0 = []"
    "fw_seqNum fw = 0" "fw_emsgID fw = 0" "fw_hasVideo fw = list_ex ts_hasVideo (fw_tracks fw)" "filter supported streams = streams"
proof -
  let ?w = "\<lparr>w_out = [], w_script = [], w_closer = None, w_closes = 0\<rparr>"
  let ?m1 = "addTracks (NewMuxer ?w) 1 streams"
  have f: "fw_addTracks \<lparr>fw_tracks = [], fw_trackMap = Map.empty, fw_seqNum = 0, fw_emsgID = 0, fw_hasVideo = False\<rparr> streams = Inr fw"
    and i: "buildInitSegment (fw_tracks fw) = Some init"
    using assms(1) by (auto simp: NewFragmentWriter_def split: sum.splits)
  have t: "m_tracks ?m1 = fw_tracks fw" "m_trackMap ?m1 = fw_trackMap fw" "fw_seqNum fw = 0" "fw_emsgID fw = 0"
      "fw_hasVideo fw = list_ex ts_hasVideo (fw_tracks fw)" "filter supported streams = streams" "fw_tracks fw \<noteq> []"
    using fw_addTracks_muxer [OF f, of "NewMuxer ?w" 1] assms(2) by (auto simp: NewMuxer_def)
  have fr: "m_w ?m1 = ?w" "m_bytesWritten ?m1 = 0" "\<not> m_written (NewMuxer ?w)" "m_fragIndex ?m1 = []"
    using addTracks_frame [of "NewMuxer ?w" 1 streams] by (auto simp: NewMuxer_def)
  have "\<exists>m0. WriteHeader (NewMuxer ?w) streams = Some (None, m0) \<and> m_tracks m0 = fw_tracks fw \<and> m_trackMap m0 = fw_trackMap fw \<and>
      w_out (m_w m0) = init \<and> m_bytesWritten m0 = wrap64 (int (length init)) \<and> m_fragIndex m0 = []"
    using t fr i by (simp add: WriteHeader_def Let_def emit_def Write_def)
  then show thesis
    using that t(3-6) by blast
qed

lemma fw_ledger_cong:
  assumes "m_tracks m = fw_tracks fw" "w_out (m_w m) = init @ concat (map fragBytes frags)"
    "m_bytesWritten m = wrap64 (int (length (w_out (m_w m))))" "ledger init info frags acc m"
  shows "fw_ledger init info frags acc fw"
  unfolding fw_ledger_def using assms by (intro exI [of _ "m_fragIndex m"]) (simp add: ledger_def)

lemma NewFragmentWriter_ledger:
  assumes "NewFragmentWriter streams = Some (Inr (fw, init))" "streams \<noteq> []"
  shows "fw_ledger init (fw_tracks fw) [] [] fw" "fw_wf fw" "\<not> HasSamples fw"
proof -
  obtain m0 where m0: "WriteHeader (NewMuxer \<lparr>w_out = [], w_script = [], w_closer = None, w_closes = 0\<rparr>) streams = Some (None, m0)"
    "m_tracks m0 = fw_tracks fw" "m_trackMap m0 = fw_trackMap fw" "w_out (m_w m0) = init" "m_bytesWritten m0 = wrap64 (int (length init))"
    using NewFragmentWriter_header [OF assms] by metis
  note h = WriteHeader_ledger [OF m0(1)]
  show "fw_ledger init (fw_tracks fw) [] [] fw"
    by (rule fw_ledger_cong [of m0]) (use h(1) m0 in simp_all)
  show "fw_wf fw"
    using h(2) m0(2,3) by (simp add: open_mux_def fw_wf_def)
  show "\<not> HasSamples fw"
    using h(5) m0(2) by (simp add: hasAnySamples_def HasSamples_def)
qed

text \<open>A client that gets the initialisation segment and all fragments plays exactly the samples that were written.\<close>

lemma fw_plays:
  assumes new: "NewFragmentWriter streams = Some (Inr (fw0, init))" "streams \<noteq> []"
    and led: "fw_ledger init (fw_tracks fw0) frags acc fw" and dr: "\<not> HasSamples fw"
    and n: "length streams \<le> 1000" and stable: "\<forall>s \<in> set streams. codec_stable (s_Codec s)"
    and sok: "\<forall>(k, s) \<in> set acc. sample_ok s" and weight: "sum_list (map (\<lambda>x. sampleWeight (snd x)) acc) < 2 ^ 30"
    and perm: "\<forall>ps. mset (srt ps) = mset ps"
  shows "\<exists>d out n. GetCodecs (NewDemuxer (init @ concat (map fragBytes frags)) seekable) = (Inr (numberedStreams (map s_Codec streams)), d) \<and>
    drain srt uj n d = (out, Some DEOF) \<and>
    (\<forall>k < length streams. streamPayloads k out = mset (map (payloadOf (fw_tracks fw0 ! k)) (accepted k acc)))"
proof -
  obtain m0 where m0: "WriteHeader (NewMuxer \<lparr>w_out = [], w_script = [], w_closer = None, w_closes = 0\<rparr>) streams = Some (None, m0)"
    "m_tracks m0 = fw_tracks fw0" "w_out (m_w m0) = init" "filter supported streams = streams"
    using NewFragmentWriter_header [OF new] by metis
  note hdr = WriteHeader_tracks [OF m0(1), simplified m0(2-4)]
  have codecs: "map ts_codec (fw_tracks fw0) = map s_Codec streams"
    using hdr(2) by simp
  then have len: "length (fw_tracks fw0) = length streams"
    by (rule map_eq_imp_length_eq)
  obtain es where l: "ledger init (fw_tracks fw0) frags acc (fwMuxer fw (init @ concat (map fragBytes frags)) es)"
    using led by (auto simp: fw_ledger_def)
  let ?m = "fwMuxer fw (init @ concat (map fragBytes frags)) es"
  have d: "\<not> hasAnySamples ?m"
    using dr by simp
  have frag: "\<forall>f \<in> set frags. frag_ok (sessionTable (fw_tracks fw0)) f"
    using session_frag_ok [OF l d _ sok weight _ hdr(3)] n len by simp
  have "\<forall>ts \<in> set (fw_tracks fw0). codec_stable (ts_codec ts)"
    using stable arg_cong [OF codecs, of set] by (metis (mono_tags, lifting) image_iff list.set_map)
  then have tok: "tracks_ok (fw_tracks fw0)"
    using n len by (simp add: tracks_ok_def)
  have "length acc * 16 \<le> sum_list (map (\<lambda>x. sampleWeight (snd x)) acc)"
    by (induction acc) (simp_all add: sampleWeight_def)
  then have small: "length acc \<le> 2 ^ 26"
    using weight by simp
  have "length (init @ concat (map fragBytes frags)) < 2 ^ 61" "length frags \<le> 2 ^ 26"
    using length_fragments [OF l d frag small] length_init [OF tok] hdr(1) length_frags [OF l d] small by simp_all
  moreover have "map trackInfo (fw_tracks fw0) = fw_tracks fw0"
    using WriteHeader_ledger(1) [OF m0(1)] m0(2) by (simp add: ledger_def)
  ultimately have "recorded (fw_tracks fw0) init frags acc ?m"
    using l d hdr(1) tok hdr(3) n frag session_matches [OF l _ _ _ hdr(4)] by (simp add: recorded_def)
  from recorded_plays [OF this perm ends_Nil, of seekable uj] show ?thesis
    by (simp add: codecs len)
qed

end
