(* ===== verification/Llhls.thy ===== *)
theory Llhls
  imports Fragment_Writer
begin

text \<open>
  The low-latency HLS muxer of \<^verbatim>\<open>av/format/llhls/muxer.go\<close>: packets become parts, parts become segments, and an HTTP handler serves
  playlist, segments and parts.  Clock readings are arguments.  The arithmetic of \<^verbatim>\<open>float64\<close> and the formatting of numbers
  with decimals and of times are arguments too (\<open>F\<close>); no property depends on what they compute.  A \<^verbatim>\<open>float64\<close> is its bit
  pattern, whose zero is the number zero.  \<^const>\<open>None\<close> is an operation that panics or does not return.
\<close>

type_synonym float64 = u64

record float64_ops =
  Seconds :: "duration \<Rightarrow> float64"
  fAdd :: "float64 \<Rightarrow> float64 \<Rightarrow> float64"
  fGreater :: "float64 \<Rightarrow> float64 \<Rightarrow> bool"
  fGreaterEq :: "float64 \<Rightarrow> float64 \<Rightarrow> bool"
  fTriple :: "float64 \<Rightarrow> float64"
  fCeil :: "float64 \<Rightarrow> int"
  formatF5 :: "float64 \<Rightarrow> string"
  formatUTC :: "int \<Rightarrow> string"

datatype ll_error = LlHeaderAlreadyWritten | LlTrailerAlreadyWritten | LlHeaderNotWritten | LlErrCodec fmp4_error
  | LlMuxerClosed | LlReloadTimeout | LlContextDone

record LlConfig =
  cf_PartTarget :: duration
  cf_SegTarget :: duration
  cf_SegBufferCount :: int
  cf_BlockingReloadTimeout :: duration

definition ll_DefaultConfig :: LlConfig where
  "ll_DefaultConfig = \<lparr>cf_PartTarget = 200 * millisecond, cf_SegTarget = 2 * second, cf_SegBufferCount = 5,
     cf_BlockingReloadTimeout = 10 * second\<rparr>"

record HlsPart =
  pa_SegSeqNo :: u64
  pa_PartIdx :: nat
  pa_Independent :: bool
  pa_Duration :: float64
  pa_Data :: bytes

record HlsSegment =
  sg_SeqNo :: u64
  sg_Duration :: float64
  sg_WallTime :: int
  sg_Parts :: "HlsPart list"
  sg_Data :: bytes

text \<open>\<open>lm_history\<close> keeps all segments that were completed, also those that left the ring buffer.\<close>

record LlMuxer =
  lm_cfg :: LlConfig
  lm_fw :: "FragmentWriter option"
  lm_initData :: bytes
  lm_streams :: "stream list"
  lm_partDurAccum :: duration
  lm_segDurAccum :: float64
  lm_curSeg :: "HlsSegment option"
  lm_compSegs :: "HlsSegment list"
  lm_maxSegDur :: float64
  lm_seenFirstKey :: bool
  lm_written :: bool
  lm_closed :: bool
  lm_terminating :: bool
  lm_history :: "HlsSegment list"

definition ll_NewMuxer :: "LlConfig \<Rightarrow> LlMuxer" where
  "ll_NewMuxer cfg = \<lparr>lm_cfg = cfg, lm_fw = None, lm_initData = [], lm_streams = [], lm_partDurAccum = 0, lm_segDurAccum = 0,
     lm_curSeg = None, lm_compSegs = [], lm_maxSegDur = 0, lm_seenFirstKey = False, lm_written = False, lm_closed = False,
     lm_terminating = False, lm_history = []\<rparr>"

definition newSegment :: "u64 \<Rightarrow> int \<Rightarrow> HlsSegment" where
  "newSegment seqNo now = \<lparr>sg_SeqNo = seqNo, sg_Duration = 0, sg_WallTime = now, sg_Parts = [], sg_Data = []\<rparr>"

subsection \<open>Parts and segments\<close>

text \<open>With a negative buffer count the slice expression panics.\<close>

definition trimRing :: "int \<Rightarrow> HlsSegment list \<Rightarrow> HlsSegment list option" where
  "trimRing limit segs =
    (if int (length segs) > limit then if limit < 0 then None else Some (drop (length segs - nat limit) segs)
     else Some segs)"

definition finaliseSegment :: "float64_ops \<Rightarrow> int \<Rightarrow> LlMuxer \<Rightarrow> HlsSegment \<Rightarrow> LlMuxer option" where
  "finaliseSegment F now m cur =
    (let cur' = cur\<lparr>sg_Data := concat (map pa_Data (sg_Parts cur))\<rparr>;
         maxSegDur = (if fGreater F (sg_Duration cur') (lm_maxSegDur m) then sg_Duration cur' else lm_maxSegDur m)
     in map_option (\<lambda>segs. m\<lparr>lm_maxSegDur := maxSegDur, lm_compSegs := segs, lm_curSeg := Some (newSegment (sg_SeqNo cur' + 1) now),
          lm_history := lm_history m @ [cur']\<rparr>)
        (trimRing (cf_SegBufferCount (lm_cfg m)) (lm_compSegs m @ [cur'])))"

definition emitPart :: "float64_ops \<Rightarrow> int \<Rightarrow> LlMuxer \<Rightarrow> FragmentWriter \<Rightarrow> bool \<Rightarrow> LlMuxer option" where
  "emitPart F now m fw nextIsKey =
    (let indep = FirstIsKeyframe fw; (data, fw') = fw_Flush fw; m1 = m\<lparr>lm_fw := Some fw'\<rparr> in
     if length data = 0 then Some m1
     else case lm_curSeg m1 of
       None \<Rightarrow> None
     | Some cur \<Rightarrow>
         let dur = Seconds F (lm_partDurAccum m1);
             part = \<lparr>pa_SegSeqNo = sg_SeqNo cur, pa_PartIdx = length (sg_Parts cur), pa_Independent = indep,
                      pa_Duration = dur, pa_Data = data\<rparr>;
             cur' = cur\<lparr>sg_Parts := sg_Parts cur @ [part], sg_Duration := fAdd F (sg_Duration cur) dur\<rparr>;
             m2 = m1\<lparr>lm_curSeg := Some cur'\<rparr>
         in map_option (\<lambda>m3. m3\<lparr>lm_partDurAccum := 0, lm_segDurAccum := 0\<rparr>)
              (if nextIsKey \<and> fGreaterEq F (sg_Duration cur') (Seconds F (cf_SegTarget (lm_cfg m2)))
               then finaliseSegment F now m2 cur' else Some m2))"

subsection \<open>Muxer operations\<close>

definition ll_WriteHeader :: "int \<Rightarrow> LlMuxer \<Rightarrow> stream list \<Rightarrow> (ll_error option \<times> LlMuxer) option" where
  "ll_WriteHeader now m streams =
    (if lm_written m then Some (Some LlHeaderAlreadyWritten, m)
     else map_option (\<lambda>r. case r of
         Inl e \<Rightarrow> (Some (LlErrCodec e), m)
       | Inr (fw, init) \<Rightarrow> (None, m\<lparr>lm_fw := Some fw, lm_initData := init, lm_streams := streams,
           lm_curSeg := Some (newSegment 0 now), lm_written := True\<rparr>)) (NewFragmentWriter streams))"

definition ll_WritePacket :: "float64_ops \<Rightarrow> (frame_analytics \<Rightarrow> bytes option) \<Rightarrow> int \<Rightarrow> LlMuxer \<Rightarrow> packet \<Rightarrow> (ll_error option \<times> LlMuxer) option" where
  "ll_WritePacket F js now m pkt =
    (if \<not> lm_written m then Some (Some LlHeaderNotWritten, m)
     else if lm_closed m then Some (Some LlTrailerAlreadyWritten, m)
     else case lm_fw m of
       None \<Rightarrow> None
     | Some fw \<Rightarrow>
         let isVideoKey = (KeyFrame pkt \<and> IsVideo (CodecType pkt) \<and> fw_hasVideo fw) in
         if \<not> lm_seenFirstKey m \<and> \<not> isVideoKey then Some (None, m)
         else let m1 = m\<lparr>lm_seenFirstKey := True\<rparr>;
                  shouldFlush = (HasSamples fw \<and> (isVideoKey \<or> lm_partDurAccum m1 \<ge> cf_PartTarget (lm_cfg m1)))
           in do {
             m2 \<leftarrow> (if shouldFlush then emitPart F now m1 fw isVideoKey else Some m1);
             fw2 \<leftarrow> lm_fw m2;
             Some (None, m2\<lparr>lm_fw := Some (fw_WritePacket js fw2 pkt), lm_partDurAccum := wrap64 (lm_partDurAccum m2 + Duration pkt)\<rparr>)
           })"

definition flushPart :: "float64_ops \<Rightarrow> int \<Rightarrow> LlMuxer \<Rightarrow> LlMuxer option" where
  "flushPart F now m =
    (case lm_fw m of
       None \<Rightarrow> Some m
     | Some fw \<Rightarrow> if HasSamples fw then emitPart F now m fw False else Some m)"

definition ll_WriteTrailer :: "float64_ops \<Rightarrow> int \<Rightarrow> LlMuxer \<Rightarrow> (ll_error option \<times> LlMuxer) option" where
  "ll_WriteTrailer F now m =
    (if lm_closed m then Some (Some LlTrailerAlreadyWritten, m)
     else do {
       m1 \<leftarrow> flushPart F now (m\<lparr>lm_closed := True\<rparr>);
       m2 \<leftarrow> (case lm_curSeg m1 of
               None \<Rightarrow> Some m1
             | Some cur \<Rightarrow> if length (sg_Parts cur) > 0 then finaliseSegment F now m1 cur else Some m1);
       Some (None, m2)
     })"

definition ll_Close :: "float64_ops \<Rightarrow> int \<Rightarrow> LlMuxer \<Rightarrow> LlMuxer option" where
  "ll_Close F now m = do {
     m1 \<leftarrow> (if lm_written m \<and> \<not> lm_closed m then map_option snd (ll_WriteTrailer F now m) else Some m);
     Some (m1\<lparr>lm_terminating := True\<rparr>)
   }"

fun replaceStream :: "stream \<Rightarrow> stream list \<Rightarrow> stream list" where
  "replaceStream s [] = []"
| "replaceStream s (orig # rest) = (if s_Idx orig = s_Idx s then s # rest else orig # replaceStream s rest)"

definition ll_WriteCodecChange :: "float64_ops \<Rightarrow> int \<Rightarrow> LlMuxer \<Rightarrow> stream list \<Rightarrow> (ll_error option \<times> LlMuxer) option" where
  "ll_WriteCodecChange F now m changed =
    (if \<not> lm_written m \<or> lm_closed m then Some (None, m)
     else do {
       m1 \<leftarrow> flushPart F now m;
       let m2 = m1\<lparr>lm_streams := foldl (\<lambda>ss s. replaceStream s ss) (lm_streams m1) changed\<rparr>;
       r \<leftarrow> NewFragmentWriter (lm_streams m2);
       Some (case r of
         Inl e \<Rightarrow> (Some (LlErrCodec e), m2)
       | Inr (fw, init) \<Rightarrow> (None, m2\<lparr>lm_fw := Some fw, lm_initData := init\<rparr>))
     })"

subsection \<open>Numbers in names\<close>

definition digit :: "nat \<Rightarrow> char" where
  "digit d = char_of (48 + d)"

fun decimal :: "nat \<Rightarrow> string" where
  "decimal n = (if n < 10 then [digit n] else decimal (n div 10) @ [digit (n mod 10)])"

declare decimal.simps [simp del]

definition digitValue :: "char \<Rightarrow> nat option" where
  "digitValue c = (let n = of_char c in if 48 \<le> n \<and> n \<le> (57 :: nat) then Some (n - 48) else None)"

fun digitsValue :: "nat \<Rightarrow> string \<Rightarrow> nat option" where
  "digitsValue acc [] = Some acc"
| "digitsValue acc (c # cs) = (case digitValue c of None \<Rightarrow> None | Some d \<Rightarrow> digitsValue (acc * 10 + d) cs)"

definition parseUint64 :: "string \<Rightarrow> u64 option" where
  "parseUint64 s =
    (if s = [] then None
     else case digitsValue 0 s of
       None \<Rightarrow> None
     | Some v \<Rightarrow> if v < 2 ^ 64 then Some (of_nat v) else None)"

text \<open>\<^verbatim>\<open>strconv.Atoi\<close> accepts a sign.\<close>

definition parseIndex :: "string \<Rightarrow> int option" where
  "parseIndex s =
    (if s = [] then None
     else let neg = (hd s = CHR ''-''); ds = (if hd s = CHR ''-'' \<or> hd s = CHR ''+'' then tl s else s) in
       if ds = [] then None
       else case digitsValue 0 ds of
         None \<Rightarrow> None
       | Some v \<Rightarrow> let i = (if neg then - int v else int v) in if in64 i then Some i else None)"

definition partURI :: "u64 \<Rightarrow> nat \<Rightarrow> string" where
  "partURI seqNo idx = ''part'' @ decimal (unat seqNo) @ ''_'' @ decimal idx @ ''.mp4''"

definition segmentURI :: "HlsSegment \<Rightarrow> string" where
  "segmentURI s = ''seg'' @ decimal (unat (sg_SeqNo s)) @ ''.mp4''"

subsection \<open>The HTTP handler\<close>

definition hasPrefix :: "string \<Rightarrow> string \<Rightarrow> bool" where
  "hasPrefix s p \<longleftrightarrow> take (length p) s = p"

definition trimPrefix :: "string \<Rightarrow> string \<Rightarrow> string" where
  "trimPrefix s p = (if hasPrefix s p then drop (length p) s else s)"

definition trimSuffix :: "string \<Rightarrow> string \<Rightarrow> string" where
  "trimSuffix s p = (if hasPrefix (rev s) (rev p) then take (length s - length p) s else s)"

text \<open>A request: its path and the values of the two query parameters, empty when absent.\<close>

record request =
  rq_path :: string
  rq_msn :: string
  rq_part :: string

datatype response = NotFound | Unavailable string | Served string string bytes

definition serveInit :: "LlMuxer \<Rightarrow> response" where
  "serveInit m =
    (if length (lm_initData m) = 0 then Unavailable ''not ready'' else Served ''video/mp4'' ''no-cache'' (lm_initData m))"

definition findSegmentData :: "LlMuxer \<Rightarrow> u64 \<Rightarrow> bytes option" where
  "findSegmentData m seqNo = map_option sg_Data (find (\<lambda>s. sg_SeqNo s = seqNo) (lm_compSegs m))"

definition partAt :: "HlsSegment \<Rightarrow> int \<Rightarrow> bytes option" where
  "partAt s pIdx = (if pIdx \<ge> 0 \<and> pIdx < int (length (sg_Parts s)) then Some (pa_Data (sg_Parts s ! nat pIdx)) else None)"

definition findPartData :: "LlMuxer \<Rightarrow> u64 \<Rightarrow> int \<Rightarrow> bytes option" where
  "findPartData m seqNo pIdx =
    (case find (\<lambda>s. sg_SeqNo s = seqNo) (lm_compSegs m) of
       Some s \<Rightarrow> partAt s pIdx
     | None \<Rightarrow>
         (case lm_curSeg m of
            None \<Rightarrow> None
          | Some cur \<Rightarrow> if sg_SeqNo cur = seqNo then partAt cur pIdx else None))"

text \<open>The data of a segment without parts is the nil slice.\<close>

definition serveData :: "bytes option \<Rightarrow> response" where
  "serveData d = (case d of None \<Rightarrow> NotFound | Some b \<Rightarrow> if b = [] then NotFound else Served ''video/mp4'' ''max-age=3600'' b)"

definition serveSegment :: "LlMuxer \<Rightarrow> string \<Rightarrow> response" where
  "serveSegment m path =
    (case parseUint64 (trimSuffix (trimPrefix path ''seg'') ''.mp4'') of
       None \<Rightarrow> NotFound
     | Some seqNo \<Rightarrow> serveData (findSegmentData m seqNo))"

definition servePart :: "LlMuxer \<Rightarrow> string \<Rightarrow> response" where
  "servePart m path =
    (let inner = trimSuffix (trimPrefix path ''part'') ''.mp4''
     in if CHR ''_'' \<notin> set inner then NotFound
        else let after = takeWhile (\<lambda>c. c \<noteq> CHR ''_'') (rev inner); sep = length inner - length after - 1 in
          case (parseUint64 (take sep inner), parseIndex (drop (sep + 1) inner)) of
            (Some seqNo, Some pIdx) \<Rightarrow> serveData (findPartData m seqNo pIdx)
          | _ \<Rightarrow> NotFound)"

definition hasCompletedSegment :: "LlMuxer \<Rightarrow> bool" where
  "hasCompletedSegment m \<longleftrightarrow> length (lm_compSegs m) > 0"

definition partAvailable :: "LlMuxer \<Rightarrow> u64 \<Rightarrow> int \<Rightarrow> bool \<Rightarrow> bool" where
  "partAvailable m msn pIdx hasPIdx =
    (if list_ex (\<lambda>s. sg_SeqNo s = msn \<and> (\<not> hasPIdx \<or> pIdx < int (length (sg_Parts s))) \<or> sg_SeqNo s > msn) (lm_compSegs m) then True
     else case lm_curSeg m of
       None \<Rightarrow> False
     | Some cur \<Rightarrow> sg_SeqNo cur = msn \<and> hasPIdx \<and> pIdx < int (length (sg_Parts cur)))"

text \<open>
  The waiting loop: the observations are what it sees each time it holds the lock (the state, whether the deadline has passed,
  whether the context is done).  \<^const>\<open>None\<close> when it still waits after the last one.
\<close>

fun waitForPart :: "u64 \<Rightarrow> int \<Rightarrow> bool \<Rightarrow> (LlMuxer \<times> bool \<times> bool) list \<Rightarrow> ll_error option option" where
  "waitForPart msn pIdx hasPIdx [] = None"
| "waitForPart msn pIdx hasPIdx ((m, late, cancelled) # obs) =
    (if partAvailable m msn pIdx hasPIdx then Some None
     else if lm_terminating m then Some (Some LlMuxerClosed)
     else if late then Some (Some LlReloadTimeout)
     else if cancelled then Some (Some LlContextDone)
     else waitForPart msn pIdx hasPIdx obs)"

subsection \<open>The playlist\<close>

definition writePartTag :: "float64_ops \<Rightarrow> HlsPart \<Rightarrow> string" where
  "writePartTag F p = ''#EXT-X-PART:DURATION='' @ formatF5 F (pa_Duration p) @ (if pa_Independent p then '',INDEPENDENT=YES'' else [])
     @ '',URI='' @ [CHR 34] @ partURI (pa_SegSeqNo p) (pa_PartIdx p) @ [CHR 34, CHR 10]"

definition dateTimeTag :: "float64_ops \<Rightarrow> HlsSegment \<Rightarrow> string" where
  "dateTimeTag F s = (if sg_WallTime s = 0 then [] else ''#EXT-X-PROGRAM-DATE-TIME:'' @ formatUTC F (sg_WallTime s) @ [CHR 10])"

definition segmentTags :: "float64_ops \<Rightarrow> HlsSegment \<Rightarrow> string" where
  "segmentTags F s = dateTimeTag F s @ concat (map (writePartTag F) (sg_Parts s)) @ ''#EXTINF:'' @ formatF5 F (sg_Duration s)
     @ [CHR 44, CHR 10] @ segmentURI s @ [CHR 10]"

definition formatInt :: "int \<Rightarrow> string" where
  "formatInt i = (if i < 0 then CHR ''-'' # decimal (nat (- i)) else decimal (nat i))"

definition buildPlaylist :: "float64_ops \<Rightarrow> LlMuxer \<Rightarrow> string" where
  "buildPlaylist F m =
    (let partTarget = Seconds F (cf_PartTarget (lm_cfg m));
         segTarget = Seconds F (cf_SegTarget (lm_cfg m));
         targetDur = (if fGreater F (lm_maxSegDur m) segTarget then lm_maxSegDur m else segTarget);
         firstSeq = (case lm_compSegs m of s # _ \<Rightarrow> sg_SeqNo s | [] \<Rightarrow> (case lm_curSeg m of Some cur \<Rightarrow> sg_SeqNo cur | None \<Rightarrow> 0))
     in ''#EXTM3U'' @ [CHR 10]
      @ ''#EXT-X-TARGETDURATION:'' @ formatInt (fCeil F targetDur) @ [CHR 10]
      @ ''#EXT-X-VERSION:9'' @ [CHR 10]
      @ ''#EXT-X-PART-INF:PART-TARGET='' @ formatF5 F partTarget @ [CHR 10]
      @ ''#EXT-X-SERVER-CONTROL:CAN-BLOCK-RELOAD=YES,PART-HOLD-BACK='' @ formatF5 F (fTriple F partTarget) @ [CHR 10]
      @ ''#EXT-X-MAP:URI='' @ [CHR 34] @ ''init.mp4'' @ [CHR 34, CHR 10]
      @ ''#EXT-X-MEDIA-SEQUENCE:'' @ decimal (unat firstSeq) @ [CHR 10]
      @ concat (map (segmentTags F) (lm_compSegs m))
      @ (case lm_curSeg m of
           None \<Rightarrow> []
         | Some cur \<Rightarrow>
             if length (sg_Parts cur) > 0
             then dateTimeTag F cur @ concat (map (writePartTag F) (sg_Parts cur))
                @ ''#EXT-X-PRELOAD-HINT:TYPE=PART,URI='' @ [CHR 34] @ partURI (sg_SeqNo cur) (length (sg_Parts cur)) @ [CHR 34, CHR 10]
             else []))"

text \<open>
  Serving the playlist: the state \<open>m\<close> at the first look (only without a sequence number in the query), the
  observations of the waiting loop, and the state \<open>m'\<close> when the playlist is built.
\<close>

definition servePlaylist :: "float64_ops \<Rightarrow> request \<Rightarrow> LlMuxer \<Rightarrow> (LlMuxer \<times> bool \<times> bool) list \<Rightarrow> LlMuxer \<Rightarrow> response option" where
  "servePlaylist F rq m obs m' =
    (let ok = Served ''application/vnd.apple.mpegurl'' ''no-cache'' (strbytes (buildPlaylist F m')) in
     case parseUint64 (rq_msn rq) of
       Some msn \<Rightarrow>
         map_option (\<lambda>e. if e = None then ok else Unavailable ''timeout waiting for part'')
           (case parseIndex (rq_part rq) of
              Some pIdx \<Rightarrow> waitForPart msn pIdx True obs
            | None \<Rightarrow> waitForPart msn 0 False obs)
     | None \<Rightarrow>
         if hasCompletedSegment m then Some ok
         else map_option (\<lambda>e. if e = None then ok else Unavailable ''timeout waiting for first segment'')
           (waitForPart 0 0 False obs))"

definition ll_Handler :: "float64_ops \<Rightarrow> string \<Rightarrow> request \<Rightarrow> LlMuxer \<Rightarrow> (LlMuxer \<times> bool \<times> bool) list \<Rightarrow> LlMuxer \<Rightarrow> response option" where
  "ll_Handler F pre rq m obs m' =
    (let path = trimPrefix (trimPrefix (rq_path rq) pre) ''/'' in
     if path = ''index.m3u8'' then servePlaylist F rq m obs m'
     else Some (if path = ''init.mp4'' then serveInit m
       else if hasPrefix path ''seg'' then serveSegment m path
       else if hasPrefix path ''part'' then servePart m path
       else NotFound))"

end
