(* ===== verification/Llhls_Inv.thy ===== *)
theory Llhls_Inv
  imports Llhls "HOL-Library.Sublist"
begin

text \<open>
  Properties of the low-latency HLS muxer over arbitrary sequences of its operations: numbering, the ring buffer, what the
  handler serves under which name, and that published data never changes.
\<close>

subsection \<open>Names\<close>

lemma digitValue_digit: "d < 10 \<Longrightarrow> digitValue (digit d) = Some d"
  by (simp add: digitValue_def digit_def Let_def)

lemma digitsValue_append: "digitsValue a (s @ t) = Option.bind (digitsValue a s) (\<lambda>v. digitsValue v t)"
  by (induction s arbitrary: a) (auto split: option.split)

lemma digitsValue_decimal: "digitsValue 0 (decimal n) = Some n"
proof (induction n rule: decimal.induct)
  case (1 n)
  show ?case
  proof (cases "n < 10")
    case True
    then show ?thesis by (simp add: decimal.simps [of n] digitValue_digit)
  next
    case False
    then show ?thesis
      using 1 by (subst decimal.simps) (simp add: digitsValue_append digitValue_digit)
  qed
qed

lemma decimal_digits: "set (decimal n) \<subseteq> digit ` {..<10}"
proof (induction n rule: decimal.induct)
  case (1 n)
  then show ?case
    by (subst decimal.simps) auto
qed

lemma decimal_chars: "decimal n \<noteq> []" "CHR ''_'' \<notin> set (decimal n)" "hd (decimal n) \<noteq> CHR ''-''" "hd (decimal n) \<noteq> CHR ''+''"
proof -
  show ne: "decimal n \<noteq> []"
    by (subst decimal.simps) simp
  have "digit d \<noteq> c" if "d < 10" "of_char c < (48 :: nat) \<or> of_char c > (57 :: nat)" for d c
    using that digitValue_digit [of d] by (auto simp: digitValue_def Let_def split: if_splits)
  then have no: "c \<notin> set (decimal n)" if "of_char c < (48 :: nat) \<or> of_char c > (57 :: nat)" for c
    using decimal_digits [of n] that by fastforce
  show "CHR ''_'' \<notin> set (decimal n)"
    by (rule no) simp
  have "CHR ''-'' \<notin> set (decimal n)" "CHR ''+'' \<notin> set (decimal n)"
    by (rule no, simp)+
  then show "hd (decimal n) \<noteq> CHR ''-''" "hd (decimal n) \<noteq> CHR ''+''"
    using hd_in_set [OF ne] by metis+
qed

lemma parseUint64_decimal: "parseUint64 (decimal (unat n)) = Some n"
  using decimal_chars(1) [of "unat n"] unsigned_less [of n] by (simp add: parseUint64_def digitsValue_decimal)

lemma parseIndex_decimal: "n < 2 ^ 63 \<Longrightarrow> parseIndex (decimal n) = Some (int n)"
  using decimal_chars [of n] by (simp add: parseIndex_def digitsValue_decimal Let_def in64_def)

lemma trimPrefix_append [simp]: "trimPrefix (p @ s) p = s"
  by (simp add: trimPrefix_def hasPrefix_def)

lemma trimSuffix_append [simp]: "trimSuffix (s @ p) p = s"
  by (simp add: trimSuffix_def hasPrefix_def)

lemma servePart_name:
  assumes "idx < 2 ^ 63" shows "servePart m (partURI seqNo idx) = serveData (findPartData m seqNo (int idx))"
proof -
  let ?a = "decimal (unat seqNo)" and ?b = "decimal idx"
  have inner: "trimSuffix (trimPrefix (partURI seqNo idx) ''part'') ''.mp4'' = ?a @ CHR ''_'' # ?b"
    using trimPrefix_append [of "''part''" "?a @ ''_'' @ ?b @ ''.mp4''"] trimSuffix_append [of "?a @ ''_'' @ ?b" "''.mp4''"]
    by (simp add: partURI_def)
  have "takeWhile (\<lambda>c. c \<noteq> CHR ''_'') (rev (?a @ CHR ''_'' # ?b)) = rev ?b"
    using decimal_chars(2) [of idx] by (auto simp: takeWhile_tail takeWhile_eq_all_conv)
  then show ?thesis
    unfolding servePart_def inner using assms by (simp add: parseUint64_decimal parseIndex_decimal)
qed

lemma serveSegment_name: "serveSegment m (segmentURI s) = serveData (findSegmentData m (sg_SeqNo s))"
proof -
  have "trimSuffix (trimPrefix (segmentURI s) ''seg'') ''.mp4'' = decimal (unat (sg_SeqNo s))"
    using trimPrefix_append [of "''seg''" "decimal (unat (sg_SeqNo s)) @ ''.mp4''"] by (simp add: segmentURI_def)
  then show ?thesis
    by (simp add: serveSegment_def parseUint64_decimal)
qed

lemma handler_path: "rq_path rq = pre @ ''/'' @ x \<Longrightarrow> trimPrefix (trimPrefix (rq_path rq) pre) ''/'' = x"
  using trimPrefix_append [of "''/''" x] by simp

lemma ll_Handler_part:
  "rq_path rq = pre @ ''/'' @ partURI seqNo idx \<Longrightarrow> ll_Handler F pre rq m obs m' = Some (servePart m (partURI seqNo idx))"
  unfolding ll_Handler_def handler_path by (simp add: partURI_def hasPrefix_def Let_def)

lemma ll_Handler_segment:
  "rq_path rq = pre @ ''/'' @ segmentURI s \<Longrightarrow> ll_Handler F pre rq m obs m' = Some (serveSegment m (segmentURI s))"
  unfolding ll_Handler_def handler_path by (simp add: segmentURI_def hasPrefix_def Let_def)

subsection \<open>Runs\<close>

datatype ll_op = OpPacket int packet | OpCodec int "stream list" | OpTrailer int | OpClose int

definition ll_step :: "float64_ops \<Rightarrow> (frame_analytics \<Rightarrow> bytes option) \<Rightarrow> LlMuxer \<Rightarrow> ll_op \<Rightarrow> LlMuxer option" where
  "ll_step F js m op =
    (case op of
       OpPacket now pkt \<Rightarrow> map_option snd (ll_WritePacket F js now m pkt)
     | OpCodec now changed \<Rightarrow> map_option snd (ll_WriteCodecChange F now m changed)
     | OpTrailer now \<Rightarrow> map_option snd (ll_WriteTrailer F now m)
     | OpClose now \<Rightarrow> ll_Close F now m)"

fun ll_run :: "float64_ops \<Rightarrow> (frame_analytics \<Rightarrow> bytes option) \<Rightarrow> LlMuxer \<Rightarrow> ll_op list \<Rightarrow> LlMuxer option" where
  "ll_run F js m [] = Some m"
| "ll_run F js m (op # ops) = Option.bind (ll_step F js m op) (\<lambda>m'. ll_run F js m' ops)"

definition seg_ok :: "nat \<Rightarrow> HlsSegment \<Rightarrow> bool" where
  "seg_ok n s \<longleftrightarrow> sg_SeqNo s = of_nat n \<and>
    (\<forall>i < length (sg_Parts s). pa_SegSeqNo (sg_Parts s ! i) = of_nat n \<and> pa_PartIdx (sg_Parts s ! i) = i \<and> pa_Data (sg_Parts s ! i) \<noteq> [])"

definition seg_done :: "nat \<Rightarrow> HlsSegment \<Rightarrow> bool" where
  "seg_done n s \<longleftrightarrow> seg_ok n s \<and> sg_Parts s \<noteq> [] \<and> sg_Data s = concat (map pa_Data (sg_Parts s))"

definition ring_inv :: "LlMuxer \<Rightarrow> bool" where
  "ring_inv m \<longleftrightarrow> (\<forall>n < length (lm_history m). seg_done n (lm_history m ! n)) \<and>
    (\<forall>cur. lm_curSeg m = Some cur \<longrightarrow> seg_ok (length (lm_history m)) cur) \<and>
    lm_compSegs m = drop (length (lm_history m) - nat (cf_SegBufferCount (lm_cfg m))) (lm_history m)"

text \<open>\<open>published m m'\<close>: everything published in \<open>m\<close> is there unchanged in \<open>m'\<close>, apart from what left the ring.\<close>

definition allSegments :: "LlMuxer \<Rightarrow> HlsSegment list" where
  "allSegments m = lm_history m @ (case lm_curSeg m of None \<Rightarrow> [] | Some cur \<Rightarrow> [cur])"

definition published :: "LlMuxer \<Rightarrow> LlMuxer \<Rightarrow> bool" where
  "published m m' \<longleftrightarrow> lm_cfg m' = lm_cfg m \<and> prefix (lm_history m) (lm_history m') \<and> length (allSegments m) \<le> length (allSegments m') \<and>
    (\<forall>n < length (allSegments m). prefix (sg_Parts (allSegments m ! n)) (sg_Parts (allSegments m' ! n)))"

lemma published_refl: "published m m"
  by (simp add: published_def)

lemma published_trans: "published m m' \<Longrightarrow> published m' m'' \<Longrightarrow> published m m''"
proof -
  assume a: "published m m'" "published m' m''"
  have "prefix (sg_Parts (allSegments m ! n)) (sg_Parts (allSegments m'' ! n))" if "n < length (allSegments m)" for n
  proof -
    have "prefix (sg_Parts (allSegments m ! n)) (sg_Parts (allSegments m' ! n))" "prefix (sg_Parts (allSegments m' ! n)) (sg_Parts (allSegments m'' ! n))"
      using a that by (auto simp: published_def)
    then show ?thesis
      by (rule prefix_order.trans)
  qed
  moreover have "prefix (lm_history m) (lm_history m'')"
    using a prefix_order.trans by (auto simp: published_def)
  ultimately show "published m m''"
    using a by (simp add: published_def)
qed

text \<open>Updates that leave the segments alone.\<close>

definition sameSegments :: "LlMuxer \<Rightarrow> LlMuxer \<Rightarrow> bool" where
  "sameSegments m m' \<longleftrightarrow> lm_cfg m' = lm_cfg m \<and> lm_history m' = lm_history m \<and> lm_curSeg m' = lm_curSeg m \<and> lm_compSegs m' = lm_compSegs m"

lemma sameSegments_inv: "sameSegments m m' \<Longrightarrow> ring_inv m' = ring_inv m" "sameSegments m m' \<Longrightarrow> published m m'"
  "sameSegments m m' \<Longrightarrow> published m' m'' = published m m''" "sameSegments m m' \<Longrightarrow> published m'' m' = published m'' m"
  by (simp_all add: sameSegments_def ring_inv_def published_def allSegments_def)

lemma finaliseSegment_inv:
  assumes inv: "ring_inv m" and cur: "lm_curSeg m = Some cur" "sg_Parts cur \<noteq> []" and fin: "finaliseSegment F now m cur = Some m'"
  shows "ring_inv m'" "published m m'"
proof -
  let ?cur = "cur\<lparr>sg_Data := concat (map pa_Data (sg_Parts cur))\<rparr>" and ?c = "cf_SegBufferCount (lm_cfg m)"
  obtain segs where segs: "trimRing ?c (lm_compSegs m @ [?cur]) = Some segs"
    and m': "lm_cfg m' = lm_cfg m" "lm_history m' = lm_history m @ [?cur]" "lm_compSegs m' = segs"
      "lm_curSeg m' = Some (newSegment (sg_SeqNo cur + 1) now)"
    using fin by (auto simp: finaliseSegment_def Let_def)
  have ok: "seg_ok (length (lm_history m)) cur"
    using inv cur by (simp add: ring_inv_def)
  then have "seg_done (length (lm_history m)) ?cur"
    using cur(2) by (simp add: seg_done_def seg_ok_def)
  then have hist: "\<forall>n < length (lm_history m'). seg_done n (lm_history m' ! n)"
    using inv by (auto simp: ring_inv_def m' nth_append less_Suc_eq)
  have comp: "lm_compSegs m = drop (length (lm_history m) - nat ?c) (lm_history m)"
    using inv by (simp add: ring_inv_def)
  have next': "seg_ok (length (lm_history m')) (newSegment (sg_SeqNo cur + 1) now)"
    using ok by (simp add: seg_ok_def newSegment_def m')
  have "segs = drop (length (lm_history m @ [?cur]) - nat ?c) (lm_history m @ [?cur])"
  proof (cases "int (length (lm_compSegs m @ [?cur])) > ?c")
    case True
    then have "segs = drop (length (lm_compSegs m @ [?cur]) - nat ?c) (lm_compSegs m @ [?cur])" "0 \<le> ?c"
      using segs by (auto simp: trimRing_def split: if_splits)
    moreover have "nat ?c \<le> length (lm_history m)"
      using True comp \<open>0 \<le> ?c\<close> by auto
    ultimately show ?thesis
      by (simp add: comp Suc_diff_le)
  next
    case False
    then have "segs = lm_compSegs m @ [?cur]"
      using segs by (auto simp: trimRing_def)
    moreover have "length (lm_history m) < nat ?c"
      using False comp by auto
    ultimately show ?thesis
      by (simp add: comp)
  qed
  then show "ring_inv m'"
    using hist next' by (simp add: ring_inv_def m')
  show "published m m'"
    using cur(1) by (auto simp: published_def allSegments_def m' nth_append less_Suc_eq)
qed

lemma emitPart_cases:
  assumes em: "emitPart F now m fw b = Some m'" and fl: "fw_Flush fw = (data, fw')"
  obtains (none) "data = []" "m' = m\<lparr>lm_fw := Some fw'\<rparr>"
  | (part) cur p cur' m2 m3 where "data \<noteq> []" "lm_curSeg m = Some cur"
      "p = \<lparr>pa_SegSeqNo = sg_SeqNo cur, pa_PartIdx = length (sg_Parts cur), pa_Independent = FirstIsKeyframe fw,
        pa_Duration = Seconds F (lm_partDurAccum m), pa_Data = data\<rparr>"
      "cur' = cur\<lparr>sg_Parts := sg_Parts cur @ [p], sg_Duration := fAdd F (sg_Duration cur) (Seconds F (lm_partDurAccum m))\<rparr>"
      "m2 = m\<lparr>lm_fw := Some fw', lm_curSeg := Some cur'\<rparr>" "m' = m3\<lparr>lm_partDurAccum := 0, lm_segDurAccum := 0\<rparr>"
      "m3 = m2 \<or> b \<and> finaliseSegment F now m2 cur' = Some m3"
proof (cases "data = []")
  case True
  then show thesis
    using em fl by (intro none) (auto simp: emitPart_def)
next
  case False
  then obtain cur where cur: "lm_curSeg m = Some cur"
    using em fl by (cases "lm_curSeg m") (auto simp: emitPart_def Let_def)
  define p where "p = \<lparr>pa_SegSeqNo = sg_SeqNo cur, pa_PartIdx = length (sg_Parts cur), pa_Independent = FirstIsKeyframe fw,
    pa_Duration = Seconds F (lm_partDurAccum m), pa_Data = data\<rparr>"
  define cur' where "cur' = cur\<lparr>sg_Parts := sg_Parts cur @ [p], sg_Duration := fAdd F (sg_Duration cur) (Seconds F (lm_partDurAccum m))\<rparr>"
  define m2 where "m2 = m\<lparr>lm_fw := Some fw', lm_curSeg := Some cur'\<rparr>"
  obtain m3 where "m' = m3\<lparr>lm_partDurAccum := 0, lm_segDurAccum := 0\<rparr>" "m3 = m2 \<or> b \<and> finaliseSegment F now m2 cur' = Some m3"
    using em fl False cur by (auto simp: emitPart_def Let_def p_def cur'_def m2_def split: if_splits)
  then show thesis
    using part [OF False cur p_def cur'_def m2_def] by blast
qed

lemma emitPart_inv:
  assumes inv: "ring_inv m" and em: "emitPart F now m fw b = Some m'"
  shows "ring_inv m' \<and> published m m'"
proof -
  obtain data fw' where fl: "fw_Flush fw = (data, fw')"
    by fastforce
  from em fl show ?thesis
  proof (cases rule: emitPart_cases)
    case none
    then have "sameSegments m m'"
      by (simp add: sameSegments_def)
    then show ?thesis
      using inv sameSegments_inv(1,2) by simp
  next
    case (part cur p cur' m2 m3)
    have same: "sameSegments m3 m'"
      by (simp add: part(6) sameSegments_def)
    have "seg_ok (length (lm_history m)) cur"
      using inv part(2) by (simp add: ring_inv_def)
    then have "seg_ok (length (lm_history m)) cur'"
      using part(1) by (auto simp: seg_ok_def part(3,4) nth_append less_Suc_eq)
    then have inv2: "ring_inv m2"
      using inv by (simp add: ring_inv_def part(5))
    have pub2: "published m m2"
      using part(2) by (auto simp: published_def allSegments_def part(4,5) nth_append less_Suc_eq)
    have "ring_inv m3 \<and> published m m3"
      using part(7)
    proof
      assume fin: "b \<and> finaliseSegment F now m2 cur' = Some m3"
      have "lm_curSeg m2 = Some cur'" "sg_Parts cur' \<noteq> []"
        by (simp_all add: part(4,5))
      from finaliseSegment_inv [OF inv2 this] fin show ?thesis
        using published_trans [OF pub2] by blast
    qed (use inv2 pub2 in simp)
    then show ?thesis
      using sameSegments_inv(1,4) [OF same] by simp
  qed
qed

lemma flushPart_inv: "ring_inv m \<Longrightarrow> flushPart F now m = Some m' \<Longrightarrow> ring_inv m' \<and> published m m'"
  using emitPart_inv [of m F now _ False m'] published_refl [of m] by (auto simp: flushPart_def split: option.splits if_splits)

lemma ll_WritePacket_inv:
  assumes inv: "ring_inv m" and w: "ll_WritePacket F js now m pkt = Some (e, m')" shows "ring_inv m' \<and> published m m'"
proof (cases "m' = m")
  case False
  let ?m1 = "m\<lparr>lm_seenFirstKey := True\<rparr>"
  obtain fw where fw: "lm_written m" "\<not> lm_closed m" "lm_fw m = Some fw"
    using w False by (auto simp: ll_WritePacket_def split: if_splits option.splits)
  define key where "key = (KeyFrame pkt \<and> IsVideo (CodecType pkt) \<and> fw_hasVideo fw)"
  define b where "b = (HasSamples fw \<and> (key \<or> lm_partDurAccum m \<ge> cf_PartTarget (lm_cfg m)))"
  obtain m2 fw2 where m2: "(if b then emitPart F now ?m1 fw key else Some ?m1) = Some m2"
    and m': "m' = m2\<lparr>lm_fw := Some (fw_WritePacket js fw2 pkt), lm_partDurAccum := wrap64 (lm_partDurAccum m2 + Duration pkt)\<rparr>"
    using w False fw unfolding ll_WritePacket_def key_def [symmetric] Let_def
    by (auto simp: b_def key_def [symmetric] split: if_splits bind_splits)
  have same: "sameSegments m ?m1" "sameSegments m2 m'"
    by (simp_all add: sameSegments_def m')
  have "ring_inv m2 \<and> published ?m1 m2"
    using m2 emitPart_inv [of ?m1 F now fw] inv sameSegments_inv(1) [OF same(1)] published_refl by (auto split: if_splits)
  then show ?thesis
    using sameSegments_inv(3) [OF same(1)] sameSegments_inv(1,4) [OF same(2)] by simp
qed (simp add: inv published_refl)

lemma ll_WriteTrailer_inv:
  assumes inv: "ring_inv m" and w: "ll_WriteTrailer F now m = Some (e, m')" shows "ring_inv m' \<and> published m m'"
proof (cases "lm_closed m")
  case False
  let ?m1 = "m\<lparr>lm_closed := True\<rparr>"
  obtain m1 where m1: "flushPart F now ?m1 = Some m1"
    and m': "m' = m1 \<or> (\<exists>cur. lm_curSeg m1 = Some cur \<and> sg_Parts cur \<noteq> [] \<and> finaliseSegment F now m1 cur = Some m')"
    using w False by (auto simp: ll_WriteTrailer_def split: if_splits option.splits bind_splits)
  have same: "sameSegments m ?m1"
    by (simp add: sameSegments_def)
  have 1: "ring_inv m1" "published m m1"
    using flushPart_inv [OF _ m1] inv sameSegments_inv(1,3) [OF same] by simp_all
  from m' show ?thesis
    using 1 finaliseSegment_inv [OF 1(1)] published_trans [OF 1(2)] by blast
qed (use w inv published_refl in \<open>auto simp: ll_WriteTrailer_def\<close>)

lemma ll_step_inv:
  assumes inv: "ring_inv m" and st: "ll_step F js m op = Some m'" shows "ring_inv m' \<and> published m m'"
proof (cases op)
  case (OpPacket now pkt)
  then show ?thesis using st ll_WritePacket_inv [OF inv] by (auto simp: ll_step_def)
next
  case (OpCodec now changed)
  then consider "m' = m" | m1 where "flushPart F now m = Some m1" "sameSegments m1 m'"
    using st by (auto simp: ll_step_def ll_WriteCodecChange_def Let_def sameSegments_def split: if_splits bind_splits sum.splits)
  then show ?thesis
  proof cases
    case (2 m1)
    then show ?thesis
      using flushPart_inv [OF inv 2(1)] sameSegments_inv(1,4) [OF 2(2)] by simp
  qed (simp add: inv published_refl)
next
  case (OpTrailer now)
  then show ?thesis using st ll_WriteTrailer_inv [OF inv] by (auto simp: ll_step_def)
next
  case (OpClose now)
  obtain m2 where m2: "m' = m2\<lparr>lm_terminating := True\<rparr>" "m2 = m \<or> (\<exists>e. ll_WriteTrailer F now m = Some (e, m2))"
    using st OpClose by (cases "lm_written m \<and> \<not> lm_closed m") (auto simp: ll_step_def ll_Close_def split: bind_splits)
  have same: "sameSegments m2 m'"
    by (simp add: m2(1) sameSegments_def)
  have "ring_inv m2 \<and> published m m2"
    using m2(2) inv ll_WriteTrailer_inv [OF inv] published_refl by blast
  then show ?thesis
    using sameSegments_inv(1,4) [OF same] by simp
qed

lemma ll_run_inv: "ring_inv m \<Longrightarrow> ll_run F js m ops = Some m' \<Longrightarrow> ring_inv m' \<and> published m m'"
proof (induction ops arbitrary: m)
  case (Cons op ops)
  then obtain m1 where "ll_step F js m op = Some m1" "ll_run F js m1 ops = Some m'"
    by (auto split: bind_splits)
  then show ?case
    using ll_step_inv [OF Cons.prems(1)] Cons.IH published_trans by blast
qed (simp add: published_refl)

lemma ring_inv_new: "ll_WriteHeader now (ll_NewMuxer cfg) streams = Some (None, m) \<Longrightarrow> ring_inv m"
  by (cases "NewFragmentWriter streams")
    (auto simp: ll_WriteHeader_def ll_NewMuxer_def ring_inv_def seg_ok_def newSegment_def split: sum.splits)

subsection \<open>Serving\<close>

definition few :: "LlMuxer \<Rightarrow> bool" where
  "few m \<longleftrightarrow> length (allSegments m) \<le> 2 ^ 64 \<and> (\<forall>s \<in> set (allSegments m). length (sg_Parts s) < 2 ^ 63)"

definition ringStart :: "LlMuxer \<Rightarrow> nat" where
  "ringStart m = length (lm_history m) - nat (cf_SegBufferCount (lm_cfg m))"

lemma find_drop_numbered:
  assumes "\<forall>n < length xs. f (xs ! n) = of_nat n" "length xs \<le> 2 ^ 64"
  shows "find (\<lambda>x. f x = (seqNo :: u64)) (drop k xs) = (if k \<le> unat seqNo \<and> unat seqNo < length xs then Some (xs ! unat seqNo) else None)"
proof -
  have at: "f (xs ! n) = seqNo \<longleftrightarrow> n = unat seqNo" if "n < length xs" for n
  proof -
    have "unat (of_nat n :: u64) = n"
      using that assms(2) by (simp add: unat_of_nat)
    then show ?thesis
      using assms(1) that by auto
  qed
  show ?thesis
  proof (cases "k \<le> unat seqNo \<and> unat seqNo < length xs")
    case True
    have "f (drop k xs ! j) \<noteq> seqNo" if "j < unat seqNo - k" for j
    proof -
      have "k + j < length xs" "k + j \<noteq> unat seqNo" "k + j \<le> length xs"
        using that True by linarith+
      then show ?thesis
        using at [of "k + j"] by simp
    qed
    then have "\<exists>i<length (drop k xs). f (drop k xs ! i) = seqNo \<and> xs ! unat seqNo = drop k xs ! i \<and> (\<forall>j<i. f (drop k xs ! j) \<noteq> seqNo)"
      using at [of "unat seqNo"] True by (intro exI [of _ "unat seqNo - k"]) (auto intro: diff_less_mono)
    then show ?thesis
      using True by (simp add: find_Some_iff)
  next
    case False
    have "\<forall>i. k + i < length xs \<longrightarrow> f (xs ! (k + i)) \<noteq> seqNo"
      using at False by auto
    then have "\<forall>x\<in>set (drop k xs). f x \<noteq> seqNo"
      unfolding set_conv_nth by (auto simp: less_diff_conv add.commute [of _ k])
    then show ?thesis
      using False by (auto simp: find_None_iff)
  qed
qed

lemma find_ring:
  assumes inv: "ring_inv m" and few: "few m"
  shows "find (\<lambda>s. sg_SeqNo s = seqNo) (lm_compSegs m) =
    (if ringStart m \<le> unat seqNo \<and> unat seqNo < length (lm_history m) then Some (lm_history m ! unat seqNo) else None)"
proof -
  have "lm_compSegs m = drop (ringStart m) (lm_history m)" "\<forall>n < length (lm_history m). sg_SeqNo (lm_history m ! n) = of_nat n"
    using inv by (simp_all add: ring_inv_def ringStart_def seg_done_def seg_ok_def)
  moreover have "length (lm_history m) \<le> 2 ^ 64"
    using few by (simp add: few_def allSegments_def)
  ultimately show ?thesis
    using find_drop_numbered [of "lm_history m" sg_SeqNo seqNo "ringStart m"] by simp
qed

lemma findSegmentData_ring:
  assumes "ring_inv m" "few m"
  shows "findSegmentData m seqNo = (if ringStart m \<le> unat seqNo \<and> unat seqNo < length (lm_history m)
    then Some (concat (map pa_Data (sg_Parts (lm_history m ! unat seqNo)))) else None)"
  using assms(1) unfolding findSegmentData_def find_ring [OF assms] by (simp add: ring_inv_def seg_done_def)

lemma findPartData_ring:
  assumes inv: "ring_inv m" and few: "few m"
  shows "findPartData m seqNo i = (if ringStart m \<le> unat seqNo \<and> unat seqNo < length (allSegments m)
    then partAt (allSegments m ! unat seqNo) i else None)"
proof (cases "lm_curSeg m")
  case None
  then show ?thesis
    unfolding findPartData_def find_ring [OF assms] by (simp add: allSegments_def)
next
  case (Some cur)
  have "sg_SeqNo cur = of_nat (length (lm_history m))"
    using inv Some by (simp add: ring_inv_def seg_ok_def)
  moreover have "unat (of_nat (length (lm_history m)) :: u64) = length (lm_history m)"
    using few Some by (simp add: few_def allSegments_def unat_of_nat)
  ultimately have "sg_SeqNo cur = seqNo \<longleftrightarrow> unat seqNo = length (lm_history m)"
    by (metis unsigned_word_eqI)
  moreover have "ringStart m \<le> length (lm_history m)"
    by (simp add: ringStart_def)
  ultimately show ?thesis
    unfolding findPartData_def find_ring [OF assms] using Some by (auto simp: allSegments_def nth_append)
qed

lemma allSegments_ok:
  assumes "ring_inv m" "n < length (allSegments m)" shows "seg_ok n (allSegments m ! n)"
  using assms by (cases "lm_curSeg m") (auto simp: allSegments_def ring_inv_def seg_done_def nth_append less_Suc_eq)

lemma served_stable:
  assumes inv: "ring_inv m" "few m" and run: "ll_run F js m ops = Some m'" and few': "few m'"
  shows "servePart m path = Served ct cc b \<Longrightarrow> servePart m' path = Served ct cc b \<or> servePart m' path = NotFound"
    and "serveSegment m path = Served ct cc b \<Longrightarrow> serveSegment m' path = Served ct cc b \<or> serveSegment m' path = NotFound"
proof -
  have inv': "ring_inv m'" and pub: "published m m'"
    using ll_run_inv [OF inv(1) run] by simp_all
  have part: "findPartData m' k i = Some b \<or> findPartData m' k i = None" if "findPartData m k i = Some b" for k i b
  proof -
    have k: "unat k < length (allSegments m)" and at: "partAt (allSegments m ! unat k) i = Some b"
      using that by (auto simp: findPartData_ring [OF inv] split: if_splits)
    obtain zs where "sg_Parts (allSegments m' ! unat k) = sg_Parts (allSegments m ! unat k) @ zs"
      using pub k by (auto simp: published_def prefix_def)
    then have "partAt (allSegments m' ! unat k) i = Some b"
      using at by (auto simp: partAt_def nth_append split: if_splits)
    then show ?thesis
      by (simp add: findPartData_ring [OF inv' few'])
  qed
  have seg: "findSegmentData m' k = Some b \<or> findSegmentData m' k = None" if "findSegmentData m k = Some b" for k b
  proof -
    have k: "unat k < length (lm_history m)" and b: "b = concat (map pa_Data (sg_Parts (lm_history m ! unat k)))"
      using that by (auto simp: findSegmentData_ring [OF inv] split: if_splits)
    have "lm_history m' ! unat k = lm_history m ! unat k"
      using pub k by (auto simp: published_def prefix_def nth_append)
    then show ?thesis
      by (simp add: findSegmentData_ring [OF inv' few'] b)
  qed
  have data: "serveData x = Served ct cc b \<Longrightarrow> y = x \<or> y = None \<Longrightarrow> serveData y = Served ct cc b \<or> serveData y = NotFound" for x y
    by (auto simp: serveData_def)
  have some: "serveData x = Served ct cc b \<Longrightarrow> \<exists>d. x = Some d" for x
    by (auto simp: serveData_def split: option.splits)
  show "servePart m path = Served ct cc b \<Longrightarrow> servePart m' path = Served ct cc b \<or> servePart m' path = NotFound"
    unfolding servePart_def Let_def using part data some by (auto split: if_splits option.splits) metis+
  show "serveSegment m path = Served ct cc b \<Longrightarrow> serveSegment m' path = Served ct cc b \<or> serveSegment m' path = NotFound"
    unfolding serveSegment_def using seg data some by (auto split: option.splits) metis+
qed

subsection \<open>Size and termination\<close>

definition llSize :: "LlMuxer \<Rightarrow> nat" where
  "llSize m = length (allSegments m) + sum_list (map (\<lambda>s. length (sg_Parts s)) (allSegments m))"

lemma few_llSize: "llSize m < 2 ^ 63 \<Longrightarrow> few m"
proof -
  assume a: "llSize m < 2 ^ 63"
  have "length (sg_Parts s) \<le> sum_list (map (\<lambda>s. length (sg_Parts s)) (allSegments m))" if "s \<in> set (allSegments m)" for s
    using that by (intro member_le_sum_list) auto
  then show "few m"
    using a by (fastforce simp: few_def llSize_def)
qed

lemma llSize_same: "sameSegments m m' \<Longrightarrow> llSize m' = llSize m"
  by (simp add: llSize_def sameSegments_def allSegments_def)

lemma finaliseSegment_size: "lm_curSeg m = Some cur \<Longrightarrow> finaliseSegment F now m cur = Some m' \<Longrightarrow> llSize m' = llSize m + 1"
  by (auto simp: finaliseSegment_def Let_def llSize_def allSegments_def newSegment_def)

lemma emitPart_size:
  assumes em: "emitPart F now m fw b = Some m'" shows "llSize m' \<le> llSize m + 2"
proof -
  obtain data fw' where fl: "fw_Flush fw = (data, fw')"
    by fastforce
  from em fl show ?thesis
  proof (cases rule: emitPart_cases)
    case none
    then have "sameSegments m m'"
      by (simp add: sameSegments_def)
    then show ?thesis
      by (simp add: llSize_same)
  next
    case (part cur p cur' m2 m3)
    have "llSize m2 = llSize m + 1"
      using part(2) by (simp add: part(4,5) llSize_def allSegments_def)
    moreover have "llSize m3 \<le> llSize m2 + 1"
      using part(7) finaliseSegment_size [of m2 cur' F now m3] by (auto simp: part(5))
    moreover have "llSize m' = llSize m3"
      by (rule llSize_same) (simp add: part(6) sameSegments_def)
    ultimately show ?thesis by simp
  qed
qed

lemma ll_WriteTrailer_size: "ll_WriteTrailer F now m = Some (e, m') \<Longrightarrow> llSize m' \<le> llSize m + 3"
proof (cases "lm_closed m")
  case False
  assume w: "ll_WriteTrailer F now m = Some (e, m')"
  let ?m1 = "m\<lparr>lm_closed := True\<rparr>"
  obtain m1 where m1: "flushPart F now ?m1 = Some m1"
    and m': "m' = m1 \<or> (\<exists>cur. lm_curSeg m1 = Some cur \<and> finaliseSegment F now m1 cur = Some m')"
    using w False by (auto simp: ll_WriteTrailer_def split: if_splits option.splits bind_splits)
  have "llSize ?m1 = llSize m"
    by (rule llSize_same) (simp add: sameSegments_def)
  moreover have "llSize m1 \<le> llSize ?m1 + 2"
    using m1 emitPart_size [of F now ?m1 _ False m1] by (auto simp: flushPart_def split: option.splits if_splits)
  moreover have "llSize m' \<le> llSize m1 + 1"
    using m' finaliseSegment_size by fastforce
  ultimately show ?thesis by simp
qed (auto simp: ll_WriteTrailer_def)

lemma ll_WritePacket_size: "ll_WritePacket F js now m pkt = Some (e, m') \<Longrightarrow> llSize m' \<le> llSize m + 2"
proof (cases "m' = m")
  case False
  assume w: "ll_WritePacket F js now m pkt = Some (e, m')"
  let ?m1 = "m\<lparr>lm_seenFirstKey := True\<rparr>"
  obtain fw where fw: "lm_written m" "\<not> lm_closed m" "lm_fw m = Some fw"
    using w False by (auto simp: ll_WritePacket_def split: if_splits option.splits)
  define key where "key = (KeyFrame pkt \<and> IsVideo (CodecType pkt) \<and> fw_hasVideo fw)"
  obtain m2 where m2: "emitPart F now ?m1 fw key = Some m2 \<or> m2 = ?m1" and same: "sameSegments m2 m'"
    using w False fw unfolding ll_WritePacket_def key_def [symmetric] Let_def
    by (fastforce simp: key_def [symmetric] sameSegments_def split: if_splits bind_splits)
  have "llSize ?m1 = llSize m"
    by (rule llSize_same) (simp add: sameSegments_def)
  then show ?thesis
    using m2 emitPart_size [of F now ?m1 fw key m2] llSize_same [OF same] by auto
qed simp

lemma ll_step_size: "ll_step F js m op = Some m' \<Longrightarrow> llSize m' \<le> llSize m + 3"
proof (cases op)
  case (OpPacket now pkt)
  assume "ll_step F js m op = Some m'"
  then show ?thesis using OpPacket ll_WritePacket_size by (fastforce simp: ll_step_def)
next
  case (OpCodec now changed)
  assume st: "ll_step F js m op = Some m'"
  then consider "m' = m" | m1 where "flushPart F now m = Some m1" "sameSegments m1 m'"
    using OpCodec by (auto simp: ll_step_def ll_WriteCodecChange_def Let_def sameSegments_def split: if_splits bind_splits sum.splits)
  then show ?thesis
  proof cases
    case (2 m1)
    have "llSize m1 \<le> llSize m + 2"
      using 2(1) emitPart_size [of F now m _ False m1] by (auto simp: flushPart_def split: option.splits if_splits)
    then show ?thesis using llSize_same [OF 2(2)] by simp
  qed simp
next
  case (OpTrailer now)
  assume "ll_step F js m op = Some m'"
  then show ?thesis using OpTrailer ll_WriteTrailer_size by (fastforce simp: ll_step_def)
next
  case (OpClose now)
  assume st: "ll_step F js m op = Some m'"
  obtain m2 where m2: "m' = m2\<lparr>lm_terminating := True\<rparr>" "m2 = m \<or> (\<exists>e. ll_WriteTrailer F now m = Some (e, m2))"
    using st OpClose by (cases "lm_written m \<and> \<not> lm_closed m") (auto simp: ll_step_def ll_Close_def split: bind_splits)
  have "llSize m' = llSize m2"
    by (rule llSize_same) (simp add: m2(1) sameSegments_def)
  then show ?thesis
    using m2(2) ll_WriteTrailer_size [of F now m _ m2] by auto
qed

lemma ll_run_size: "ll_run F js m ops = Some m' \<Longrightarrow> llSize m' \<le> llSize m + 3 * length ops"
proof (induction ops arbitrary: m)
  case (Cons op ops)
  then obtain m1 where "ll_step F js m op = Some m1" "ll_run F js m1 ops = Some m'"
    by (auto split: bind_splits)
  then show ?case
    using ll_step_size [of F js m op m1] Cons.IH [of m1] by simp
qed simp

lemma ll_run_few:
  assumes "ll_WriteHeader now (ll_NewMuxer cfg) streams = Some (None, m0)" "ll_run F js m0 ops = Some m" "length ops < 2 ^ 61"
  shows "few m"
proof -
  have "llSize m0 = 1"
    using assms(1) by (cases "NewFragmentWriter streams")
      (auto simp: ll_WriteHeader_def ll_NewMuxer_def llSize_def allSegments_def newSegment_def split: sum.splits)
  then show ?thesis
    using ll_run_size [OF assms(2)] assms(3) by (intro few_llSize) simp
qed

lemma ll_run_append: "ll_run F js m (ops @ ops') = Option.bind (ll_run F js m ops) (\<lambda>m'. ll_run F js m' ops')"
  by (induction ops arbitrary: m) (auto split: bind_splits)

definition get :: "float64_ops \<Rightarrow> string \<Rightarrow> LlMuxer \<Rightarrow> string \<Rightarrow> response option" where
  "get F pre m path = ll_Handler F pre \<lparr>rq_path = pre @ ''/'' @ path, rq_msn = [], rq_part = []\<rparr> m [] m"

lemma get_part:
  assumes inv: "ring_inv m" "few m" and n: "ringStart m \<le> n" "n < length (allSegments m)" and i: "i \<le> length (sg_Parts (allSegments m ! n))"
  shows "get F pre m (partURI (of_nat n) i) = Some (if i < length (sg_Parts (allSegments m ! n))
    then Served ''video/mp4'' ''max-age=3600'' (pa_Data (sg_Parts (allSegments m ! n) ! i)) else NotFound)"
proof -
  have "i < 2 ^ 63"
    using inv(2) n(2) i by (auto simp: few_def intro: order_le_less_trans)
  moreover have "unat (of_nat n :: u64) = n"
    using inv(2) n(2) by (simp add: few_def unat_of_nat)
  ultimately show ?thesis
    using allSegments_ok [OF inv(1) n(2)] i n
    by (auto simp: get_def ll_Handler_part servePart_name findPartData_ring [OF inv] partAt_def serveData_def seg_ok_def)
qed

lemma get_segment:
  assumes inv: "ring_inv m" "few m" and n: "ringStart m \<le> n" "n < length (lm_history m)"
  shows "get F pre m (segmentURI (lm_history m ! n)) =
    Some (Served ''video/mp4'' ''max-age=3600'' (concat (map pa_Data (sg_Parts (lm_history m ! n)))))"
proof -
  let ?s = "lm_history m ! n"
  have ok: "seg_done n ?s"
    using inv(1) n by (simp add: ring_inv_def)
  have "unat (of_nat n :: u64) = n"
    using inv(2) n(2) by (simp add: few_def allSegments_def unat_of_nat)
  moreover have "concat (map pa_Data (sg_Parts ?s)) \<noteq> []"
    using ok by (cases "sg_Parts ?s") (auto simp: seg_done_def seg_ok_def)
  ultimately show ?thesis
    using ok n by (simp add: get_def ll_Handler_segment serveSegment_name findSegmentData_ring [OF inv] serveData_def seg_done_def seg_ok_def)
qed

end
