(* ===== verification/Llhls_Playback.thy ===== *)
theory Llhls_Playback
  imports Llhls_Inv
begin

text \<open>
  What a client of the low-latency HLS muxer plays: the initialisation segment and the segments, one after the other, through the
  fMP4 demuxer.
\<close>

subsection \<open>Media in the segments\<close>

definition segBytes :: "LlMuxer \<Rightarrow> bytes" where
  "segBytes m = concat (map (\<lambda>s. concat (map pa_Data (sg_Parts s))) (allSegments m))"

definition ll_media :: "bytes \<Rightarrow> trackState list \<Rightarrow> (u16 \<rightharpoonup> nat) \<Rightarrow> bool \<Rightarrow> (nat \<times> sample) list \<Rightarrow> FragmentWriter \<Rightarrow> LlMuxer \<Rightarrow> bool" where
  "ll_media init info tm hv acc fw m \<longleftrightarrow> lm_curSeg m \<noteq> None \<and> lm_initData m = init \<and> 0 \<le> cf_SegBufferCount (lm_cfg m) \<and>
    lm_fw m = Some fw \<and> fw_trackMap fw = tm \<and> fw_hasVideo fw = hv \<and> fw_wf fw \<and>
    (\<exists>frags. fw_ledger init info frags acc fw \<and> concat (map fragBytes frags) = segBytes m)"

lemma finaliseSegment_returns:
  assumes "0 \<le> cf_SegBufferCount (lm_cfg m)" "lm_curSeg m = Some cur"
  obtains m' where "finaliseSegment F now m cur = Some m'" "segBytes m' = segBytes m" "lm_cfg m' = lm_cfg m" "lm_fw m' = lm_fw m"
    "lm_initData m' = lm_initData m" "lm_curSeg m' = Some (newSegment (sg_SeqNo cur + 1) now)" "lm_written m' = lm_written m"
    "lm_closed m' = lm_closed m" "lm_seenFirstKey m' = lm_seenFirstKey m"
proof -
  let ?cur = "cur\<lparr>sg_Data := concat (map pa_Data (sg_Parts cur))\<rparr>"
  have "trimRing (cf_SegBufferCount (lm_cfg m)) (lm_compSegs m @ [?cur]) \<noteq> None"
    using assms(1) by (simp add: trimRing_def)
  then obtain segs where "trimRing (cf_SegBufferCount (lm_cfg m)) (lm_compSegs m @ [?cur]) = Some segs"
    by blast
  then have "\<exists>m'. finaliseSegment F now m cur = Some m' \<and> segBytes m' = segBytes m \<and> lm_cfg m' = lm_cfg m \<and> lm_fw m' = lm_fw m \<and>
      lm_initData m' = lm_initData m \<and> lm_curSeg m' = Some (newSegment (sg_SeqNo cur + 1) now) \<and> lm_written m' = lm_written m \<and>
      lm_closed m' = lm_closed m \<and> lm_seenFirstKey m' = lm_seenFirstKey m"
    using assms(2) by (simp add: finaliseSegment_def Let_def segBytes_def allSegments_def newSegment_def)
  then show thesis
    using that by blast
qed

lemma emitPart_media:
  assumes med: "ll_media init info tm hv acc fw m"
  obtains m' fw' where "emitPart F now m fw b = Some m'" "ll_media init info tm hv acc fw' m'" "\<not> HasSamples fw'"
    "lm_written m' = lm_written m" "lm_closed m' = lm_closed m" "lm_seenFirstKey m' = lm_seenFirstKey m"
proof -
  obtain data fw' where fl: "fw_Flush fw = (data, fw')"
    by fastforce
  obtain cur where cur: "lm_curSeg m = Some cur"
    using med by (auto simp: ll_media_def)
  obtain frags where fr: "fw_ledger init info frags acc fw" "concat (map fragBytes frags) = segBytes m"
    using med by (auto simp: ll_media_def)
  obtain frags' where fr': "fw_ledger init info (frags @ frags') acc fw'" "data = concat (map fragBytes frags')" "\<not> HasSamples fw'"
    using fw_Flush_ledger [OF fr(1) fl] by metis
  have wf: "fw_trackMap fw' = tm" "fw_hasVideo fw' = hv" "fw_wf fw'"
    using fw_Flush_frame [OF fl] med by (auto simp: ll_media_def fw_wf_def)
  show thesis
  proof (cases "data = []")
    case True
    then have "emitPart F now m fw b = Some (m\<lparr>lm_fw := Some fw'\<rparr>)"
      using fl by (simp add: emitPart_def)
    moreover have "ll_media init info tm hv acc fw' (m\<lparr>lm_fw := Some fw'\<rparr>)"
      using med wf fr fr' True by (auto simp: ll_media_def segBytes_def allSegments_def intro!: exI [of _ "frags @ frags'"])
    ultimately show thesis
      using fr'(3) by (intro that [of "m\<lparr>lm_fw := Some fw'\<rparr>" fw']) simp_all
  next
    case False
    define cur' where "cur' = cur\<lparr>sg_Parts := sg_Parts cur @ [\<lparr>pa_SegSeqNo = sg_SeqNo cur, pa_PartIdx = length (sg_Parts cur),
      pa_Independent = FirstIsKeyframe fw, pa_Duration = Seconds F (lm_partDurAccum m), pa_Data = data\<rparr>],
      sg_Duration := fAdd F (sg_Duration cur) (Seconds F (lm_partDurAccum m))\<rparr>"
    define m2 where "m2 = m\<lparr>lm_fw := Some fw', lm_curSeg := Some cur'\<rparr>"
    have sb2: "segBytes m2 = segBytes m @ data"
      using cur by (simp add: m2_def cur'_def segBytes_def allSegments_def)
    have m2: "0 \<le> cf_SegBufferCount (lm_cfg m2)" "lm_curSeg m2 = Some cur'"
      using med by (simp_all add: m2_def ll_media_def)
    obtain m3 where fin: "finaliseSegment F now m2 cur' = Some m3" "segBytes m3 = segBytes m2" "lm_cfg m3 = lm_cfg m2" "lm_fw m3 = lm_fw m2"
        "lm_initData m3 = lm_initData m2" "lm_curSeg m3 = Some (newSegment (sg_SeqNo cur' + 1) now)" "lm_written m3 = lm_written m2"
        "lm_closed m3 = lm_closed m2" "lm_seenFirstKey m3 = lm_seenFirstKey m2"
      using finaliseSegment_returns [OF m2] by metis
    define m4 where "m4 = (if b \<and> fGreaterEq F (sg_Duration cur') (Seconds F (cf_SegTarget (lm_cfg m2))) then m3 else m2)"
    have m4: "segBytes m4 = segBytes m2" "lm_cfg m4 = lm_cfg m" "lm_fw m4 = Some fw'" "lm_initData m4 = lm_initData m" "lm_curSeg m4 \<noteq> None"
        "lm_written m4 = lm_written m" "lm_closed m4 = lm_closed m" "lm_seenFirstKey m4 = lm_seenFirstKey m"
      using fin by (simp_all add: m4_def m2_def)
    let ?m' = "m4\<lparr>lm_partDurAccum := 0, lm_segDurAccum := 0\<rparr>"
    have "emitPart F now m fw b = Some ?m'"
      using fl False cur fin(1) by (simp add: emitPart_def Let_def m4_def m2_def cur'_def)
    moreover have "segBytes ?m' = concat (map fragBytes (frags @ frags'))"
      using m4(1) sb2 fr(2) fr'(2) by (simp add: segBytes_def allSegments_def)
    then have "ll_media init info tm hv acc fw' ?m'"
      using med wf fr'(1) m4 unfolding ll_media_def by (intro conjI exI [of _ "frags @ frags'"]) simp_all
    ultimately show thesis
      using fr'(3) m4(6-8) by (intro that [of ?m' fw']) simp_all
  qed
qed

subsection \<open>Packets\<close>

definition newSamples :: "(frame_analytics \<Rightarrow> bytes option) \<Rightarrow> (u16 \<rightharpoonup> nat) \<Rightarrow> trackState list \<Rightarrow> packet \<Rightarrow> (nat \<times> sample) list" where
  "newSamples js tm info p = (case tm (Idx p) of None \<Rightarrow> [] | Some k \<Rightarrow> [(k, packetKey js (info ! k) p)])"

definition opens :: "bool \<Rightarrow> packet \<Rightarrow> bool" where
  "opens hv p \<longleftrightarrow> KeyFrame p \<and> IsVideo (CodecType p) \<and> hv"

lemma ll_WritePacket_media:
  assumes med: "ll_media init info tm hv acc fw m" and live: "lm_written m" "\<not> lm_closed m"
  shows "\<exists>m' fw'. ll_WritePacket F js now m p = Some (None, m') \<and>
    ll_media init info tm hv (if lm_seenFirstKey m \<or> opens hv p then acc @ newSamples js tm info p else acc) fw' m' \<and>
    lm_written m' \<and> \<not> lm_closed m' \<and> lm_seenFirstKey m' = (lm_seenFirstKey m \<or> opens hv p)"
proof (cases "lm_seenFirstKey m \<or> opens hv p")
  case False
  then show ?thesis
    using med live by (auto simp: ll_WritePacket_def ll_media_def opens_def)
next
  case True
  have fw: "lm_fw m = Some fw" "fw_hasVideo fw = hv"
    using med by (simp_all add: ll_media_def)
  let ?m1 = "m\<lparr>lm_seenFirstKey := True\<rparr>"
  have med1: "ll_media init info tm hv acc fw ?m1"
    using med by (simp add: ll_media_def segBytes_def allSegments_def)
  define b where "b \<longleftrightarrow> HasSamples fw \<and> (opens hv p \<or> cf_PartTarget (lm_cfg m) \<le> lm_partDurAccum m)"
  obtain m2 fw2 where m2: "(if b then emitPart F now ?m1 fw (opens hv p) else Some ?m1) = Some m2" "ll_media init info tm hv acc fw2 m2"
      "lm_written m2" "\<not> lm_closed m2" "lm_seenFirstKey m2"
  proof (cases b)
    case True
    obtain m2 fw2 where "emitPart F now ?m1 fw (opens hv p) = Some m2" "ll_media init info tm hv acc fw2 m2"
        "lm_written m2 = lm_written ?m1" "lm_closed m2 = lm_closed ?m1" "lm_seenFirstKey m2 = lm_seenFirstKey ?m1"
      using emitPart_media [OF med1] by metis
    then show thesis
      using that [of m2 fw2] True live by simp
  next
    case False
    then show thesis
      using that [of ?m1 fw] med1 live by simp
  qed
  have fw2: "lm_fw m2 = Some fw2"
    using m2(2) by (simp add: ll_media_def)
  let ?m3 = "m2\<lparr>lm_fw := Some (fw_WritePacket js fw2 p), lm_partDurAccum := wrap64 (lm_partDurAccum m2 + Duration p)\<rparr>"
  have "ll_WritePacket F js now m p = Some (None, ?m3)"
    using live True fw m2(1) fw2 unfolding ll_WritePacket_def by (auto simp: Let_def opens_def b_def)
  moreover have "ll_media init info tm hv (acc @ newSamples js tm info p) (fw_WritePacket js fw2 p) ?m3"
  proof -
    obtain frags where "fw_ledger init info frags acc fw2" "concat (map fragBytes frags) = segBytes m2"
      using m2(2) by (auto simp: ll_media_def)
    then have "fw_ledger init info frags (acc @ newSamples js tm info p) (fw_WritePacket js fw2 p)"
        "concat (map fragBytes frags) = segBytes ?m3"
      using fw_WritePacket_ledger [of init info frags acc fw2 js p] m2(2)
      by (auto simp: newSamples_def ll_media_def segBytes_def allSegments_def)
    then show ?thesis
      using m2(2) fw_WritePacket_frame [of js fw2 p] by (auto simp: ll_media_def fw_wf_def)
  qed
  ultimately show ?thesis
    using True m2(3-5) by auto
qed

definition packetOps :: "(int \<times> packet) list \<Rightarrow> ll_op list" where
  "packetOps pkts = map (\<lambda>(now, p). OpPacket now p) pkts"

lemma ll_run_media:
  "ll_media init info tm hv acc fw m \<Longrightarrow> lm_written m \<Longrightarrow> \<not> lm_closed m \<Longrightarrow>
    \<exists>m' fw'. ll_run F js m (packetOps pkts) = Some m' \<and> lm_written m' \<and> \<not> lm_closed m' \<and>
      ll_media init info tm hv (acc @ concat (map (newSamples js tm info)
        (if lm_seenFirstKey m then map snd pkts else dropWhile (\<lambda>p. \<not> opens hv p) (map snd pkts)))) fw' m'"
proof (induction pkts arbitrary: acc fw m)
  case Nil
  then show ?case by (auto simp: packetOps_def)
next
  case (Cons np pkts)
  obtain now p where np: "np = (now, p)"
    by fastforce
  obtain m1 fw1 where w: "ll_WritePacket F js now m p = Some (None, m1)"
      "ll_media init info tm hv (if lm_seenFirstKey m \<or> opens hv p then acc @ newSamples js tm info p else acc) fw1 m1"
      "lm_written m1" "\<not> lm_closed m1" "lm_seenFirstKey m1 = (lm_seenFirstKey m \<or> opens hv p)"
    using ll_WritePacket_media [OF Cons.prems] by metis
  have "ll_run F js m (packetOps (np # pkts)) = ll_run F js m1 (packetOps pkts)"
    using w(1) by (simp add: packetOps_def np ll_step_def)
  then show ?case
    using Cons.IH [OF w(2-4)] w(5) by (cases "lm_seenFirstKey m \<or> opens hv p") (auto simp: np)
qed

lemma ll_trailer_media:
  assumes med: "ll_media init info tm hv acc fw m" and live: "\<not> lm_closed m" and inv: "ring_inv m"
  shows "\<exists>m' fw' frags. ll_run F js m [OpTrailer now] = Some m' \<and> lm_initData m' = init \<and> fw_ledger init info frags acc fw' \<and>
    \<not> HasSamples fw' \<and> concat (map fragBytes frags) = concat (map sg_Data (lm_history m'))"
proof -
  let ?m1 = "m\<lparr>lm_closed := True\<rparr>"
  have med1: "ll_media init info tm hv acc fw ?m1"
    using med by (simp add: ll_media_def segBytes_def allSegments_def)
  obtain m2 fw2 where m2: "flushPart F now ?m1 = Some m2" "ll_media init info tm hv acc fw2 m2" "\<not> HasSamples fw2"
  proof (cases "HasSamples fw")
    case True
    obtain m2 fw2 where "emitPart F now ?m1 fw False = Some m2" "ll_media init info tm hv acc fw2 m2" "\<not> HasSamples fw2"
      using emitPart_media [OF med1] by metis
    then show thesis
      using that [of m2 fw2] True med1 by (simp add: flushPart_def ll_media_def)
  next
    case False
    then show thesis
      using that [of ?m1 fw] med1 by (simp add: flushPart_def ll_media_def)
  qed
  obtain cur where cur: "lm_curSeg m2 = Some cur"
    using m2(2) by (auto simp: ll_media_def)
  have cnt: "0 \<le> cf_SegBufferCount (lm_cfg m2)"
    using m2(2) by (simp add: ll_media_def)
  obtain m3 where m3: "(if length (sg_Parts cur) > 0 then finaliseSegment F now m2 cur else Some m2) = Some m3" "segBytes m3 = segBytes m2"
      "lm_initData m3 = lm_initData m2" "\<exists>c. lm_curSeg m3 = Some c \<and> sg_Parts c = []"
  proof (cases "sg_Parts cur = []")
    case False
    obtain m3 where "finaliseSegment F now m2 cur = Some m3" "segBytes m3 = segBytes m2" "lm_initData m3 = lm_initData m2"
        "lm_curSeg m3 = Some (newSegment (sg_SeqNo cur + 1) now)"
      using finaliseSegment_returns [OF cnt cur] by metis
    then show thesis
      using that [of m3] False by (simp add: newSegment_def)
  qed (use that [of m2] cur in simp)
  have run: "ll_run F js m [OpTrailer now] = Some m3"
    using live m2(1) cur m3(1) by (simp add: ll_step_def ll_WriteTrailer_def)
  then have "ring_inv m3"
    using ll_run_inv [OF inv] by blast
  then have done': "\<forall>s\<in>set (lm_history m3). sg_Data s = concat (map pa_Data (sg_Parts s))"
    by (auto simp: ring_inv_def seg_done_def in_set_conv_nth)
  have "segBytes m3 = concat (map (\<lambda>s. concat (map pa_Data (sg_Parts s))) (lm_history m3))"
    using m3(4) by (auto simp: segBytes_def allSegments_def)
  also have "\<dots> = concat (map sg_Data (lm_history m3))"
    using done' by (intro arg_cong [of _ _ concat] map_cong) simp_all
  finally show ?thesis
    using run m2(2,3) m3(2,3) by (fastforce simp: ll_media_def)
qed

subsection \<open>Sessions\<close>

lemma fw_addTracks_map:
  "fw_addTracks fw streams = Inr fw' \<Longrightarrow> distinct (map s_Idx streams) \<Longrightarrow>
    (\<forall>k<length streams. fw_trackMap fw' (s_Idx (streams ! k)) = Some (length (fw_tracks fw) + k)) \<and>
    (\<forall>i. i \<notin> s_Idx ` set streams \<longrightarrow> fw_trackMap fw' i = fw_trackMap fw i)"
proof (induction fw streams rule: fw_addTracks.induct)
  case (2 fw s rest)
  then obtain ts where "newTrackState s (of_nat (length (fw_tracks fw) + 1)) = Some ts"
    by (auto split: option.splits)
  then show ?case
    using 2 by (auto simp: nth_Cons split: nat.splits)
qed simp

lemma NewFragmentWriter_map:
  assumes "NewFragmentWriter streams = Some (Inr (fw, init))" "distinct (map s_Idx streams)"
  shows "fw_trackMap fw i = Some k \<longleftrightarrow> k < length streams \<and> i = s_Idx (streams ! k)"
proof -
  have "fw_addTracks \<lparr>fw_tracks = [], fw_trackMap = Map.empty, fw_seqNum = 0, fw_emsgID = 0, fw_hasVideo = False\<rparr> streams = Inr fw"
    using assms(1) by (auto simp: NewFragmentWriter_def split: sum.splits)
  from fw_addTracks_map [OF this assms(2)]
  have map: "\<forall>k<length streams. fw_trackMap fw (s_Idx (streams ! k)) = Some k" "\<forall>i. i \<notin> s_Idx ` set streams \<longrightarrow> fw_trackMap fw i = None"
    by simp_all
  show ?thesis
  proof
    assume some: "fw_trackMap fw i = Some k"
    then have "i \<in> s_Idx ` set streams"
      using map(2) by (metis option.distinct(1))
    then obtain j where "j < length streams" "i = s_Idx (streams ! j)"
      by (auto simp: in_set_conv_nth)
    then show "k < length streams \<and> i = s_Idx (streams ! k)"
      using some map(1) by simp
  qed (use map(1) in simp)
qed

definition playedPackets :: "stream list \<Rightarrow> packet list \<Rightarrow> packet list" where
  "playedPackets streams pkts = dropWhile (\<lambda>p. \<not> opens (list_ex (\<lambda>s. isVideoCodec (s_Codec s)) streams) p) pkts"

lemma accepted_newSamples:
  assumes "\<And>i k. tm i = Some k \<longleftrightarrow> k < length streams \<and> i = s_Idx (streams ! k)" "k < length streams"
  shows "accepted k (concat (map (newSamples js tm info) ps)) = map (packetKey js (info ! k)) (filter (\<lambda>p. Idx p = s_Idx (streams ! k)) ps)"
proof (induction ps)
  case (Cons p ps)
  have "accepted k (newSamples js tm info p @ xs) = (if Idx p = s_Idx (streams ! k) then [packetKey js (info ! k) p] else []) @ accepted k xs" for xs
    using assms(1) [of "Idx p" k] assms(2) by (cases "tm (Idx p)") (auto simp: newSamples_def accepted_def)
  then show ?case
    using Cons by simp
qed (simp add: accepted_def)

lemma newSamples_ok:
  assumes "\<forall>p \<in> set ps. length (Data p) < 2 ^ 31" "\<forall>p \<in> set ps. \<forall>a b. Analytics p = Some a \<longrightarrow> js a = Some b \<longrightarrow> length b < 2 ^ 31"
  shows "(\<forall>(k, s) \<in> set (concat (map (newSamples js tm info) ps)). sample_ok s) \<and>
    sum_list (map (\<lambda>x. sampleWeight (snd x)) (concat (map (newSamples js tm info) ps))) \<le> sum_list (map (\<lambda>p. 16 + length (Data p)) ps)"
  using assms
proof (induction ps)
  case (Cons p ps)
  have ok: "sample_ok (makeSample js p ts)" for ts
    using Cons.prems by (intro makeSample_ok) auto
  then have "sample_ok (packetKey js ts p)" "sampleWeight (packetKey js ts p) = 16 + length (Data p)" for ts
    by (simp_all add: packetKey_def sampleKey_def sample_ok_def emsg_ok_def sampleWeight_def makeSample_def)
  then show ?case
    using Cons by (auto simp: newSamples_def split: option.split)
qed simp

lemma payload_packet: "payloadOf ts (packetKey js ts p) = (ts_hasVideo ts \<longrightarrow> KeyFrame p, Data p)"
  by (simp add: payloadOf_def packetKey_def sampleKey_def makeSample_def sampleIsKey_def sampleFlagsKeyframe_def sampleFlagsNonKeyframe_def)

text \<open>The sessions: at most 1000 streams with different numbers and stable codecs, less than 1 GiB.\<close>

definition ll_session :: "(frame_analytics \<Rightarrow> bytes option) \<Rightarrow> stream list \<Rightarrow> packet list \<Rightarrow> bool" where
  "ll_session js streams pkts \<longleftrightarrow> streams \<noteq> [] \<and> length streams \<le> 1000 \<and> distinct (map s_Idx streams) \<and>
    (\<forall>s \<in> set streams. codec_stable (s_Codec s)) \<and> sum_list (map (\<lambda>p. 16 + length (Data p)) pkts) < 2 ^ 30 \<and>
    (\<forall>p \<in> set pkts. \<forall>a b. Analytics p = Some a \<longrightarrow> js a = Some b \<longrightarrow> length b < 2 ^ 31)"

lemma NewFragmentWriter_video:
  assumes new: "NewFragmentWriter streams = Some (Inr (fw, init))" "streams \<noteq> []"
  shows "fw_hasVideo fw = list_ex (\<lambda>s. isVideoCodec (s_Codec s)) streams"
    and "k < length streams \<Longrightarrow> ts_hasVideo (fw_tracks fw ! k) = isVideoCodec (s_Codec (streams ! k))"
proof -
  have tracks: "fw_hasVideo fw = list_ex ts_hasVideo (fw_tracks fw)" "map ts_codec (fw_tracks fw) = map s_Codec streams"
      "\<forall>ts\<in>set (fw_tracks fw). ts_hasVideo ts = isVideoCodec (ts_codec ts)"
    using NewFragmentWriter_header [OF new] WriteHeader_tracks(2,4) by (metis (no_types, lifting) writer.select_convs(1))+
  have "list_ex ts_hasVideo (fw_tracks fw) = list_ex isVideoCodec (map ts_codec (fw_tracks fw))"
    using tracks(3) by (auto simp: list_ex_iff)
  then show "fw_hasVideo fw = list_ex (\<lambda>s. isVideoCodec (s_Codec s)) streams"
    using tracks(1,2) by (simp add: list_ex_iff)
  assume k: "k < length streams"
  have "k < length (fw_tracks fw)" "ts_codec (fw_tracks fw ! k) = s_Codec (streams ! k)"
    using k tracks(2) by (metis length_map, metis length_map nth_map)
  then show "ts_hasVideo (fw_tracks fw ! k) = isVideoCodec (s_Codec (streams ! k))"
    using tracks(3) by (metis nth_mem)
qed

lemma playedPackets_ok:
  assumes ses: "ll_session js streams pkts" and acc: "acc = concat (map (newSamples js tm info) (playedPackets streams pkts))"
  shows "\<forall>(k, s) \<in> set acc. sample_ok s" "sum_list (map (\<lambda>x. sampleWeight (snd x)) acc) < 2 ^ 30"
proof -
  let ?ps = "playedPackets streams pkts"
  have sub: "set ?ps \<subseteq> set pkts"
    unfolding playedPackets_def by (meson set_dropWhileD subsetI)
  have "sum_list (map (\<lambda>p. 16 + length (Data p)) ?ps) \<le> sum_list (map (\<lambda>p. 16 + length (Data p)) pkts)"
    unfolding playedPackets_def by (induction pkts) auto
  then have w: "sum_list (map (\<lambda>p. 16 + length (Data p)) ?ps) < 2 ^ 30"
    using ses by (simp add: ll_session_def)
  have "\<forall>p \<in> set ?ps. length (Data p) < 2 ^ 31"
    using w member_le_sum_list [of "16 + length (Data p)" "map (\<lambda>p. 16 + length (Data p)) ?ps" for p] by fastforce
  moreover have "\<forall>p \<in> set ?ps. \<forall>a b. Analytics p = Some a \<longrightarrow> js a = Some b \<longrightarrow> length b < 2 ^ 31"
    using ses sub unfolding ll_session_def by blast
  ultimately show "\<forall>(k, s) \<in> set acc. sample_ok s" "sum_list (map (\<lambda>x. sampleWeight (snd x)) acc) < 2 ^ 30"
    using newSamples_ok [of ?ps js tm info] w by (auto simp: acc)
qed

lemma fw_addTracks_returns:
  "\<forall>s\<in>set streams. supported s \<Longrightarrow> \<exists>fw'. fw_addTracks fw streams = Inr fw' \<and>
    map ts_codec (fw_tracks fw') = map ts_codec (fw_tracks fw) @ map s_Codec streams"
proof (induction streams arbitrary: fw)
  case (Cons s rest)
  obtain ts where "newTrackState s (of_nat (length (fw_tracks fw) + 1)) = Some ts" "ts_codec ts = s_Codec s"
    using Cons.prems by (cases "s_Codec s") (auto simp: newTrackState_def supported_def Let_def)
  then show ?case
    using Cons.IH [of "fw\<lparr>fw_tracks := fw_tracks fw @ [ts], fw_trackMap := (fw_trackMap fw)(s_Idx s \<mapsto> length (fw_tracks fw)),
             fw_hasVideo := (ts_hasVideo ts \<or> fw_hasVideo fw)\<rparr>"] Cons.prems by auto
qed simp

lemma NewFragmentWriter_returns:
  assumes "\<forall>s \<in> set streams. codec_stable (s_Codec s)"
  obtains fw init where "NewFragmentWriter streams = Some (Inr (fw, init))"
proof -
  have st: "supported s" "codec_fits (s_Codec s)" if "s \<in> set streams" for s
    using assms that by (cases "s_Codec s"; force simp: codec_stable_def supported_def codec_fits_def)+
  let ?fw0 = "\<lparr>fw_tracks = [], fw_trackMap = Map.empty, fw_seqNum = 0, fw_emsgID = 0, fw_hasVideo = False\<rparr>"
  obtain fw where fw: "fw_addTracks ?fw0 streams = Inr fw" "map ts_codec (fw_tracks fw) = map s_Codec streams"
    using fw_addTracks_returns [of streams ?fw0] st(1) by auto
  have "\<forall>ts\<in>set (fw_tracks fw). codec_fits (ts_codec ts)"
    using st(2) arg_cong [OF fw(2), of set] by (metis (mono_tags, lifting) image_iff list.set_map)
  then obtain init where "buildInitSegment (fw_tracks fw) = Some init"
    using buildInitSegment_returns by blast
  then show thesis
    using that fw(1) by (simp add: NewFragmentWriter_def)
qed

lemma ll_run_packets:
  assumes ses: "ll_session js streams (map snd pkts)" and cfg: "0 \<le> cf_SegBufferCount cfg"
    and new: "NewFragmentWriter streams = Some (Inr (fw, init))"
  obtains m0 m1 fw1 where "ll_WriteHeader now (ll_NewMuxer cfg) streams = Some (None, m0)" "ll_run F js m0 (packetOps pkts) = Some m1"
    "\<not> lm_closed m1" "ring_inv m1" "ll_media init (fw_tracks fw) (fw_trackMap fw) (fw_hasVideo fw)
      (concat (map (newSamples js (fw_trackMap fw) (fw_tracks fw)) (playedPackets streams (map snd pkts)))) fw1 m1"
proof -
  have s: "streams \<noteq> []"
    using ses by (simp add: ll_session_def)
  define m0 where "m0 = (ll_NewMuxer cfg)\<lparr>lm_fw := Some fw, lm_initData := init, lm_streams := streams,
      lm_curSeg := Some (newSegment 0 now), lm_written := True\<rparr>"
  have hdr: "ll_WriteHeader now (ll_NewMuxer cfg) streams = Some (None, m0)"
    by (simp add: ll_WriteHeader_def new m0_def ll_NewMuxer_def)
  have "ll_media init (fw_tracks fw) (fw_trackMap fw) (fw_hasVideo fw) [] fw m0"
    using NewFragmentWriter_ledger [OF new s] cfg
    by (auto simp: ll_media_def m0_def ll_NewMuxer_def segBytes_def allSegments_def newSegment_def intro!: exI [of _ "[]"])
  moreover have "lm_written m0" "\<not> lm_closed m0" "\<not> lm_seenFirstKey m0"
    by (simp_all add: m0_def ll_NewMuxer_def)
  ultimately obtain m1 fw1 where m1: "ll_run F js m0 (packetOps pkts) = Some m1" "\<not> lm_closed m1"
      "ll_media init (fw_tracks fw) (fw_trackMap fw) (fw_hasVideo fw)
        (concat (map (newSamples js (fw_trackMap fw) (fw_tracks fw)) (playedPackets streams (map snd pkts)))) fw1 m1"
    using ll_run_media [of init "fw_tracks fw" "fw_trackMap fw" "fw_hasVideo fw" "[]" fw m0 F js pkts]
    by (auto simp: playedPackets_def NewFragmentWriter_video(1) [OF new s])
  then show thesis
    using that hdr ll_run_inv [OF ring_inv_new [OF hdr]] by blast
qed

lemma ll_run_returns:
  assumes "ll_session js streams (map snd pkts)" "0 \<le> cf_SegBufferCount cfg"
  shows "\<exists>m0 m. ll_WriteHeader now (ll_NewMuxer cfg) streams = Some (None, m0) \<and> ll_run F js m0 (packetOps pkts) = Some m"
proof -
  obtain fw init where "NewFragmentWriter streams = Some (Inr (fw, init))"
    using NewFragmentWriter_returns [of streams] assms(1) by (auto simp: ll_session_def)
  from ll_run_packets [OF assms this, of now F] show ?thesis
    by blast
qed

subsection \<open>An example\<close>

definition ex_h264 :: h264_codec where
  "ex_h264 = projr (h264_NewCodecDataFromSPSAndPPS ex_sps [104, 206])"

lemma ex_h264_stable: "codec_stable (H264Codec ex_h264)"
proof -
  have "\<not> Option.is_none (ParseSPS ex_sps)"
    by code_simp
  then obtain i where "ParseSPS ex_sps = Some i"
    by (auto simp: Option.is_none_def)
  moreover have "length (marshalUnits [[103, 66, 192, 30, 218, 5, 7, 228]]) + length (marshalUnits [[104, 206]]) < 1048569"
    by (simp add: marshalUnits_def)
  ultimately have c: "h264_NewCodecDataFromSPSAndPPS ex_sps [104, 206] = Inr ex_h264" and "length (h264_Record ex_h264) < 2 ^ 20"
    by (simp_all add: ex_h264_def h264_NewCodecDataFromSPSAndPPS_def ex_sps_def Let_def AVC_Marshal_def)
  then show ?thesis
    using h264_record_roundtrip [OF c] by (simp add: codec_stable_def ex_sps_def)
qed

definition ex_float :: float64_ops where
  "ex_float = \<lparr>Seconds = (\<lambda>d. word_of_int d), fAdd = (+), fGreater = (\<lambda>a b. a > b), fGreaterEq = (\<lambda>a b. a \<ge> b),
     fTriple = (\<lambda>a. 3 * a), fCeil = uint, formatF5 = (\<lambda>a. decimal (unat a)), formatUTC = (\<lambda>t. decimal (nat t))\<rparr>"

definition ex_hls_streams :: "stream list" where
  "ex_hls_streams = [\<lparr>s_Idx = 5, s_Codec = H264Codec ex_h264\<rparr>, \<lparr>s_Idx = 3, s_Codec = s_Codec (hd ex_streams)\<rparr>]"

definition ex_hls_packets :: "(int \<times> packet) list" where
  "ex_hls_packets = [(1, zero_packet\<lparr>Idx := 3, CodecType := AAC, Data := [9]\<rparr>),
     (2, zero_packet\<lparr>Idx := 5, CodecType := H264, KeyFrame := True, Duration := 40000000, Data := [1, 1]\<rparr>),
     (3, zero_packet\<lparr>Idx := 3, CodecType := AAC, DTS := 10000000, Data := [8]\<rparr>),
     (4, zero_packet\<lparr>Idx := 5, CodecType := H264, DTS := 40000000, Duration := 40000000, Data := [2]\<rparr>),
     (5, zero_packet\<lparr>Idx := 5, CodecType := H264, KeyFrame := True, DTS := 80000000, Data := [3]\<rparr>)]"

lemma ex_hls_session: "ll_session (\<lambda>_. None) ex_hls_streams (map snd ex_hls_packets)"
proof -
  have "codec_stable (s_Codec (hd ex_streams))"
    using ex_session_ok by (simp add: session_ok_def ex_streams_def supported_def)
  then show ?thesis
    using ex_h264_stable by (simp add: ll_session_def ex_hls_streams_def ex_hls_packets_def zero_packet_def)
qed

lemma partAvailable_ring:
  assumes inv: "ring_inv m" and few: "few m" and cnt: "0 < cf_SegBufferCount (lm_cfg m)"
  shows "list_ex (\<lambda>s. sg_SeqNo s = msn \<and> P s \<or> sg_SeqNo s > msn) (lm_compSegs m) \<longleftrightarrow>
    unat msn + 1 < length (lm_history m) \<or> unat msn + 1 = length (lm_history m) \<and> P (lm_history m ! unat msn)"
proof -
  let ?h = "lm_history m"
  have len: "length ?h \<le> 2 ^ 64"
    using few by (simp add: few_def allSegments_def)
  have num: "sg_SeqNo (?h ! n) = msn \<longleftrightarrow> n = unat msn" "sg_SeqNo (?h ! n) > msn \<longleftrightarrow> n > unat msn" if "n < length ?h" for n
  proof -
    have u: "unat (of_nat n :: u64) = n"
      using that len by (simp add: unat_of_nat)
    have q: "sg_SeqNo (?h ! n) = of_nat n"
      using inv that by (simp add: ring_inv_def seg_done_def seg_ok_def)
    show "sg_SeqNo (?h ! n) = msn \<longleftrightarrow> n = unat msn"
      using u q by (metis unsigned_word_eqI)
    show "sg_SeqNo (?h ! n) > msn \<longleftrightarrow> n > unat msn"
      by (simp add: q word_less_nat_alt u)
  qed
  have "list_ex Q (lm_compSegs m) \<longleftrightarrow> (\<exists>n. ringStart m \<le> n \<and> n < length ?h \<and> Q (?h ! n))" for Q
  proof -
    have comp: "lm_compSegs m = drop (ringStart m) ?h"
      using inv by (simp add: ring_inv_def ringStart_def)
    have "\<exists>i < length ?h - ringStart m. Q (drop (ringStart m) ?h ! i)" if "ringStart m \<le> n" "n < length ?h" "Q (?h ! n)" for n
      using that by (intro exI [of _ "n - ringStart m"]) auto
    moreover have "\<exists>n. ringStart m \<le> n \<and> n < length ?h \<and> Q (?h ! n)" if "i < length ?h - ringStart m" "Q (drop (ringStart m) ?h ! i)" for i
      using that by (intro exI [of _ "ringStart m + i"]) auto
    ultimately show ?thesis
      unfolding comp list_ex_length length_drop by blast
  qed
  then have "list_ex (\<lambda>s. sg_SeqNo s = msn \<and> P s \<or> sg_SeqNo s > msn) (lm_compSegs m) \<longleftrightarrow>
      (\<exists>n. ringStart m \<le> n \<and> n < length ?h \<and> (n = unat msn \<and> P (?h ! n) \<or> n > unat msn))"
    using num by auto
  also have "\<dots> \<longleftrightarrow> unat msn + 1 < length ?h \<or> unat msn + 1 = length ?h \<and> P (?h ! unat msn)"
  proof -
    have start: "ringStart m \<le> length ?h - 1"
      using cnt by (simp add: ringStart_def)
    have "\<exists>n. ringStart m \<le> n \<and> n < length ?h \<and> (n = unat msn \<and> P (?h ! n) \<or> n > unat msn)"
      if "unat msn + 1 < length ?h \<or> unat msn + 1 = length ?h \<and> P (?h ! unat msn)"
    proof (cases "unat msn + 1 < length ?h")
      case True
      then show ?thesis
        using start by (intro exI [of _ "length ?h - 1"]) auto
    next
      case False
      then show ?thesis
        using that start by (intro exI [of _ "unat msn"]) auto
    qed
    then show ?thesis
      by (auto simp: less_Suc_eq)
  qed
  finally show ?thesis .
qed

subsection \<open>Properties\<close>



text \<open>
  C8.  Everything an LL-HLS playlist names can be fetched, and what was fetched stays valid.  After any sequence of packets, codec
  changes, trailer and close: the segments of the playlist are consecutively numbered and each is served under its name as the
  concatenation of its parts; every listed part, also of the unfinished segment, is served under its name with its bytes; the part
  of the preload hint is answered with 404 until it exists; and after any further operations the same path gives the same
  bytes or 404 (the answers are cacheable, as their header says).
\<close>

theorem llhls_serving:
  assumes hdr: "ll_WriteHeader now (ll_NewMuxer cfg) streams = Some (None, m0)" and run: "ll_run F js m0 ops = Some m" and small: "length ops < 2 ^ 60"
  shows "(\<forall>k < length (lm_compSegs m). sg_SeqNo (lm_compSegs m ! k) = of_nat (ringStart m + k) \<and>
      get F pre m (segmentURI (lm_compSegs m ! k)) =
        Some (Served ''video/mp4'' ''max-age=3600'' (concat (map pa_Data (sg_Parts (lm_compSegs m ! k)))))) \<and>
    (\<forall>s \<in> set (lm_compSegs m) \<union> set_option (lm_curSeg m). \<forall>p \<in> set (sg_Parts s).
      get F pre m (partURI (pa_SegSeqNo p) (pa_PartIdx p)) = Some (Served ''video/mp4'' ''max-age=3600'' (pa_Data p))) \<and>
    (\<forall>cur. lm_curSeg m = Some cur \<longrightarrow> get F pre m (partURI (sg_SeqNo cur) (length (sg_Parts cur))) = Some NotFound) \<and>
    (\<forall>ops' m' path ct cc b. ll_run F js m ops' = Some m' \<and> length ops' < 2 ^ 60 \<longrightarrow>
      (servePart m path = Served ct cc b \<longrightarrow> servePart m' path \<in> {Served ct cc b, NotFound}) \<and>
      (serveSegment m path = Served ct cc b \<longrightarrow> serveSegment m' path \<in> {Served ct cc b, NotFound}))"
proof -
  have inv: "ring_inv m"
    using ll_run_inv [OF ring_inv_new [OF hdr] run] by simp
  have few: "few m" and few': "ll_run F js m ops' = Some m' \<Longrightarrow> length ops' < 2 ^ 60 \<Longrightarrow> few m'" for ops' m'
    using ll_run_few [OF hdr run] ll_run_few [OF hdr, of F js "ops @ ops'" m'] run small by (simp_all add: ll_run_append)
  have comp: "lm_compSegs m = drop (ringStart m) (lm_history m)"
    using inv by (simp add: ring_inv_def ringStart_def)
  have "sg_SeqNo (lm_compSegs m ! k) = of_nat (ringStart m + k) \<and> get F pre m (segmentURI (lm_compSegs m ! k)) =
      Some (Served ''video/mp4'' ''max-age=3600'' (concat (map pa_Data (sg_Parts (lm_compSegs m ! k)))))" if "k < length (lm_compSegs m)" for k
  proof -
    have k: "ringStart m + k < length (lm_history m)" "lm_compSegs m ! k = lm_history m ! (ringStart m + k)"
      using that by (simp_all add: comp)
    have "seg_done (ringStart m + k) (lm_history m ! (ringStart m + k))"
      using inv k(1) by (simp add: ring_inv_def)
    then show ?thesis
      using get_segment [OF inv few _ k(1)] unfolding k(2) by (simp add: seg_done_def seg_ok_def)
  qed
  moreover have "get F pre m (partURI (pa_SegSeqNo p) (pa_PartIdx p)) = Some (Served ''video/mp4'' ''max-age=3600'' (pa_Data p))"
    if s: "s \<in> set (lm_compSegs m) \<union> set_option (lm_curSeg m)" and p: "p \<in> set (sg_Parts s)" for s p
  proof -
    have "\<exists>n. ringStart m \<le> n \<and> n < length (allSegments m) \<and> s = allSegments m ! n"
    proof (cases "s \<in> set (lm_compSegs m)")
      case True
      then obtain k where "k < length (lm_history m) - ringStart m" "s = lm_history m ! (ringStart m + k)"
        by (auto simp: comp in_set_conv_nth)
      then show ?thesis
        by (intro exI [of _ "ringStart m + k"]) (auto simp: allSegments_def nth_append)
    next
      case False
      then have "lm_curSeg m = Some s"
        using s by auto
      then show ?thesis
        by (intro exI [of _ "length (lm_history m)"]) (simp add: allSegments_def ringStart_def)
    qed
    then obtain n i where n: "ringStart m \<le> n" "n < length (allSegments m)" "s = allSegments m ! n" "i < length (sg_Parts s)" "p = sg_Parts s ! i"
      using p by (auto simp: in_set_conv_nth)
    then show ?thesis
      using get_part [OF inv few n(1,2), of i F pre] allSegments_ok [OF inv n(2)] by (auto simp: seg_ok_def)
  qed
  moreover have "get F pre m (partURI (sg_SeqNo cur) (length (sg_Parts cur))) = Some NotFound" if "lm_curSeg m = Some cur" for cur
    using get_part [OF inv few, of "length (lm_history m)" "length (sg_Parts cur)" F pre] that inv
    by (auto simp: allSegments_def ringStart_def ring_inv_def seg_ok_def)
  moreover have "(servePart m path = Served ct cc b \<longrightarrow> servePart m' path \<in> {Served ct cc b, NotFound}) \<and>
      (serveSegment m path = Served ct cc b \<longrightarrow> serveSegment m' path \<in> {Served ct cc b, NotFound})"
    if "ll_run F js m ops' = Some m'" "length ops' < 2 ^ 60" for ops' m' path ct cc b
    using served_stable [OF inv few that(1) few' [OF that]] by simp
  ultimately show ?thesis
    by blast
qed

theorem llhls_serving_witness:
  "\<exists>m0 m. ll_WriteHeader 1 (ll_NewMuxer ll_DefaultConfig) ex_hls_streams = Some (None, m0) \<and>
    ll_run ex_float (\<lambda>_. None) m0 (packetOps ex_hls_packets) = Some m \<and>
    (\<forall>s \<in> set (lm_compSegs m) \<union> set_option (lm_curSeg m). \<forall>p \<in> set (sg_Parts s).
      get ex_float ''/hls'' m (partURI (pa_SegSeqNo p) (pa_PartIdx p)) = Some (Served ''video/mp4'' ''max-age=3600'' (pa_Data p)))"
proof -
  obtain m0 m fw where m: "ll_WriteHeader 1 (ll_NewMuxer ll_DefaultConfig) ex_hls_streams = Some (None, m0)"
      "ll_run ex_float (\<lambda>_. None) m0 (packetOps ex_hls_packets) = Some m"
    using ll_run_returns [OF ex_hls_session, of ll_DefaultConfig 1 ex_float] by (auto simp: ll_DefaultConfig_def)
  have "length (packetOps ex_hls_packets) < 2 ^ 60"
    by (simp add: packetOps_def ex_hls_packets_def)
  from llhls_serving [OF m this, of "''/hls''"] show ?thesis
    using m by blast
qed

text \<open>
  C40.  Exactly when a blocking playlist request is answered, in every reachable state with a ring of at least one segment: a
  request for a whole segment once it is complete; a request for a part once the part exists or a later segment is complete.  In
  particular a request for the part after the last one of a complete segment is not answered by the first part of the next segment, but only
  when that whole segment is complete.
\<close>

theorem llhls_reload:
  assumes hdr: "ll_WriteHeader now (ll_NewMuxer cfg) streams = Some (None, m0)" and run: "ll_run F js m0 ops = Some m" and small: "length ops < 2 ^ 60"
    and cfg: "0 < cf_SegBufferCount cfg"
  shows "(partAvailable m msn p False \<longleftrightarrow> unat msn < length (lm_history m)) \<and>
    (partAvailable m msn p True \<longleftrightarrow> unat msn + 1 < length (lm_history m) \<or>
      unat msn < length (allSegments m) \<and> p < int (length (sg_Parts (allSegments m ! unat msn))))"
proof -
  have inv: "ring_inv m"
    using ll_run_inv [OF ring_inv_new [OF hdr] run] by simp
  have few: "few m"
    using ll_run_few [OF hdr run] small by simp
  have "lm_cfg m0 = cfg" "lm_curSeg m0 \<noteq> None"
    using hdr by (cases "NewFragmentWriter streams"; auto simp: ll_WriteHeader_def ll_NewMuxer_def split: sum.splits)+
  then have cnt: "0 < cf_SegBufferCount (lm_cfg m)"
    using ll_run_inv [OF ring_inv_new [OF hdr] run] cfg by (simp add: published_def)
  have cur: "sg_SeqNo cur = msn \<longleftrightarrow> unat msn = length (lm_history m)" if "lm_curSeg m = Some cur" for cur
  proof -
    have "sg_SeqNo cur = of_nat (length (lm_history m))" "unat (of_nat (length (lm_history m)) :: u64) = length (lm_history m)"
      using inv few that by (simp_all add: ring_inv_def seg_ok_def few_def allSegments_def unat_of_nat)
    then show ?thesis
      by (metis unsigned_word_eqI)
  qed
  have "partAvailable m msn p False \<longleftrightarrow> unat msn < length (lm_history m)"
    using partAvailable_ring [OF inv few cnt, of msn "\<lambda>_. True"] by (auto simp: partAvailable_def split: option.splits)
  moreover have "partAvailable m msn p True \<longleftrightarrow> unat msn + 1 < length (lm_history m) \<or>
      unat msn < length (allSegments m) \<and> p < int (length (sg_Parts (allSegments m ! unat msn)))"
    using partAvailable_ring [OF inv few cnt, of msn "\<lambda>s. p < int (length (sg_Parts s))"] cur
    by (auto simp: partAvailable_def allSegments_def nth_append less_Suc_eq split: option.splits)
  ultimately show ?thesis ..
qed

theorem llhls_reload_witness:
  "\<exists>m0. ll_WriteHeader 1 (ll_NewMuxer ll_DefaultConfig) ex_hls_streams = Some (None, m0) \<and>
    \<not> partAvailable m0 0 0 False \<and> \<not> partAvailable m0 0 0 True"
proof -
  obtain fw init where new: "NewFragmentWriter ex_hls_streams = Some (Inr (fw, init))"
    using NewFragmentWriter_returns [of ex_hls_streams] ex_hls_session by (auto simp: ll_session_def)
  define m0 where "m0 = (ll_NewMuxer ll_DefaultConfig)\<lparr>lm_fw := Some fw, lm_initData := init, lm_streams := ex_hls_streams,
      lm_curSeg := Some (newSegment 0 1), lm_written := True\<rparr>"
  have hdr: "ll_WriteHeader 1 (ll_NewMuxer ll_DefaultConfig) ex_hls_streams = Some (None, m0)"
    by (simp add: ll_WriteHeader_def new m0_def ll_NewMuxer_def)
  have "\<not> partAvailable m0 0 0 False \<and> \<not> partAvailable m0 0 0 True"
    using llhls_reload [OF hdr, of ex_float "\<lambda>_. None" "[]" m0 0 0]
    by (simp add: m0_def ll_NewMuxer_def ll_DefaultConfig_def allSegments_def newSegment_def)
  then show ?thesis
    using hdr by blast
qed

end
