(* ===== verification/Fmp4_Hostile.thy ===== *)
theory Fmp4_Hostile
  imports Fmp4_Session
begin

text \<open>
  Input that the muxer never writes.  The bounds check of \<^verbatim>\<open>parseMoofMdat\<close> adds the offset and the size of
  a sample in 64 bits; a track fragment header with an explicit base data offset can make the sum
  overflow, which passes the check and panics in the slice expression.
\<close>

lemma wrap64_over: "2 ^ 63 \<le> x \<Longrightarrow> x < 2 ^ 64 + 2 ^ 63 \<Longrightarrow> wrap64 x = x - 2 ^ 64"
proof -
  assume a: "2 ^ 63 \<le> x" "x < 2 ^ 64 + 2 ^ 63"
  have "wrap64 (x - 2 ^ 64) = x - 2 ^ 64"
    using a by (intro wrap64_id) (simp add: in64_def)
  moreover have "(word_of_int (x - 2 ^ 64) :: u64) = word_of_int x"
    by (simp only: of_int_diff) simp
  ultimately show ?thesis
    by (metis sint_of_int64)
qed

lemma samplePanics_iff:
  assumes "in64 (rs_mdatOff s)" and "rs_size s < 2 ^ 32" and "length mdat < 2 ^ 32"
  shows "samplePanics tracks mdat s \<longleftrightarrow>
    tracks (rs_trackID s) \<noteq> None \<and> 0 \<le> rs_mdatOff s \<and> 2 ^ 63 \<le> rs_mdatOff s + int (rs_size s)"
proof (cases "0 \<le> rs_mdatOff s \<and> 2 ^ 63 \<le> rs_mdatOff s + int (rs_size s)")
  case True
  then have "wrap64 (rs_mdatOff s + int (rs_size s)) = rs_mdatOff s + int (rs_size s) - 2 ^ 64"
    using assms by (intro wrap64_over) (auto simp: in64_def)
  then show ?thesis
    using True assms by (auto simp: samplePanics_def in64_def)
next
  case False
  then show ?thesis
    using assms by (auto simp: samplePanics_def in64_def wrap64_id)
qed

definition hostileTraf :: "u32 \<Rightarrow> bytes" where
  "hostileTraf tid =
    makeBox ''traf''
      (makeBox ''tfhd'' (fullHdr 0 1 @ put32 tid @ put64 0x7FFFFFFFFFFFFFFF)
       @ makeBox ''trun'' (fullHdr 0 0x200 @ put32 1 @ put32 0xFFFFFFFF))"

lemma hostile_sample:
  assumes td: "tracks tid = Some td" "td_id td = tid" and b: "0 \<le> start" "start < 2 ^ 31" and n: "0 \<le> n" "n < 2 ^ 30"
  shows "\<exists>s. parseMoof tracks (hostileTraf tid) start n = (Some [s], tracks) \<and> rs_trackID s = tid \<and>
    rs_mdatOff s = 2 ^ 63 - 1 - (start + n + 8) \<and> rs_size s = 2 ^ 32 - 1"
proof -
  let ?h = "fullHdr 0 1 @ put32 tid @ put64 0x7FFFFFFFFFFFFFFF"
  let ?r = "fullHdr 0 0x200 @ put32 1 @ put32 0xFFFFFFFF"
  have f1: "take_bit 24 1 = (1 :: u32)" and f2: "take_bit 24 0x200 = (0x200 :: u32)"
    by (simp_all add: take_bit_eq_mask mask_numeral)
  have w: "wrap64 (start + n) = start + n" "wrap64 (start + n + 8) = start + n + 8"
    "wrap64 0x7FFFFFFFFFFFFFFF = 0x7FFFFFFFFFFFFFFF" "wrap64 (9223372036854775799 + (- start - n)) = 9223372036854775799 + (- start - n)"
    using b n by (simp_all add: wrap64_id in64_def)
  have tfhd: "parseTfhd ?h start = Some \<lparr>th_trackID = tid, th_flags = 1, th_baseDataOffset = 0x7FFFFFFFFFFFFFFF,
      th_defDuration = 0, th_defSize = 0, th_defFlags = 0\<rparr>"
    by (simp add: parseTfhd_def Let_def f1 optField_absent slices)
  have ov: "overrideDefaults td \<lparr>th_trackID = tid, th_flags = 1, th_baseDataOffset = 0x7FFFFFFFFFFFFFFF,
      th_defDuration = 0, th_defSize = 0, th_defFlags = 0\<rparr> = td"
    by (simp add: overrideDefaults_def Let_def)
  have sz: "optField 0x200 0x200 ?r 8 x = Some (0xFFFFFFFF, 12)" for x
    by (simp add: optField_def slices)
  have trun: "parseTrun ?r td 0 0x7FFFFFFFFFFFFFFF (start + n + 8) =
      Some [\<lparr>rs_trackID = tid, rs_dts = 0, rs_cts = 0, rs_duration = td_defDuration td, rs_flags = td_defFlags td,
        rs_mdatOff = 0x7FFFFFFFFFFFFFFF - (start + n + 8), rs_size = unat (0xFFFFFFFF :: u32)\<rparr>]"
    by (simp add: parseTrun_def Let_def f2 optField_absent slices sz w td(2))
  have boxes: "findBoxes (hostileTraf tid) ''traf'' = [makeBox ''tfhd'' ?h @ makeBox ''trun'' ?r]"
    "findBox (makeBox ''tfhd'' ?h @ makeBox ''trun'' ?r) ''tfhd'' = Some ?h"
    "findBox (makeBox ''tfhd'' ?h @ makeBox ''trun'' ?r) ''tfdt'' = None"
    "findBoxes (makeBox ''tfhd'' ?h @ makeBox ''trun'' ?r) ''trun'' = [?r]"
    by (simp_all add: hostileTraf_def box_search box_ok_def length_makeBox)
  show ?thesis
    unfolding parseMoof_def Let_def w boxes(1)
    using td(1) by (simp add: boxes tfhd ov trun fun_upd_idem)
qed

text \<open>
  C22.  A crafted fragment crashes the demuxer.  Whenever a file continues with a moof box of one track
  fragment that declares the base data offset 2^63 - 1 and one sample of 2^32 - 1 bytes for a known
  track, followed by any mdat box, \<^verbatim>\<open>ReadPacket\<close> panics, whatever the rest of the file is.
\<close>

theorem hostile_fragment_panics:
  assumes at: "reader_at d (makeBox ''moof'' (hostileTraf tid) @ makeBox ''mdat'' q @ rest)" and q: "box_ok ''mdat'' q"
    and idle: "d_pending d = []" and td: "d_tracksByID d tid = Some td" "td_id td = tid" and pos: "d_pos d < 2 ^ 31"
  shows "fst (ReadPacket srt uj d) = Inl DPanic"
proof -
  have len: "length (hostileTraf tid) = 52"
    by (simp add: hostileTraf_def length_makeBox)
  have ok: "box_ok ''moof'' (hostileTraf tid)"
    by (simp add: box_ok_def len)
  define d1 where "d1 = advance d (8 + length (hostileTraf tid))"
  note r1 = readBox_at [OF at ok, folded d1_def]
  note r2 = readBox_at [OF r1(2) q]
  have p0: "0 \<le> d_pos d"
    using at by (simp add: reader_at_def)
  have T1: "d_tracksByID d1 = d_tracksByID d" and start: "wrap64 (d_pos d1 - 60) = d_pos d"
    using p0 pos by (simp_all add: d1_def advance_def len wrap64_id in64_def)
  obtain s where s: "parseMoof (d_tracksByID d) (hostileTraf tid) (d_pos d) 60 = (Some [s], d_tracksByID d)" "rs_trackID s = tid"
    "rs_mdatOff s = 2 ^ 63 - 1 - (d_pos d + 60 + 8)" "rs_size s = 2 ^ 32 - 1"
    using hostile_sample [where tracks = "d_tracksByID d", OF td p0 pos, of 60] by auto
  have pn: "samplePanics (d_tracksByID d) q s"
    using s p0 pos td(1) q by (subst samplePanics_iff) (auto simp: in64_def box_ok_def)
  have upd: "d1\<lparr>d_tracksByID := d_tracksByID d\<rparr> = d1"
    by (simp add: d1_def advance_def)
  have "parseMoofMdat srt d1 (hostileTraf tid) (d_pos d) 60 = (Inl DPanic, advance d1 (8 + length q))"
    using r2(1) pn by (simp add: parseMoofMdat_def T1 s(1) upd)
  then have "handleBox srt uj ''moof'' (hostileTraf tid) d1 = (Some DPanic, advance d1 (8 + length q))"
    using start by (simp add: handleBox_def len)
  then show ?thesis
    using idle r1(1) by (subst ReadPacket.simps) simp
qed

theorem hostile_fragment_panics_witness:
  "\<exists>d. fst (ReadPacket (sort_key DTS) (\<lambda>_. None) d) = Inl DPanic"
proof -
  define b where "b = makeBox ''moof'' (hostileTraf 1) @ makeBox ''mdat'' [] @ []"
  define d where "d = (NewDemuxer b False)\<lparr>d_tracksByID := [1 \<mapsto> ex_trackDef]\<rparr>"
  have "length b < 2 ^ 62"
    by (simp add: b_def hostileTraf_def length_makeBox)
  then have "reader_at d b"
    by (simp add: d_def reader_at_def NewDemuxer_def)
  then have "fst (ReadPacket (sort_key DTS) (\<lambda>_. None) d) = Inl DPanic"
    unfolding b_def
    by (rule hostile_fragment_panics [where td = ex_trackDef]) (simp_all add: d_def NewDemuxer_def box_ok_def, simp add: ex_trackDef_def)
  then show ?thesis ..
qed

end
