(* ===== verification/Nalu.thy ===== *)
theory Nalu
  imports Golomb Pio
begin

text \<open>
  NAL unit framing: \<^verbatim>\<open>av/codec/parser/parser.go\<close> (Annex B with start codes, AVCC with length prefixes, and the
  detection of the two), the conversions of \<^verbatim>\<open>h264parser/convert.go\<close> and \<^verbatim>\<open>h265parser/convert.go\<close>, and the
  classification of NAL units in \<^verbatim>\<open>h264parser/nalu.go\<close> and \<^verbatim>\<open>h265parser/nalu.go\<close>.  The classifiers index the
  first byte of their argument; on an empty one they panic, which is the value \<^const>\<open>None\<close>.
\<close>

subsection \<open>Framing\<close>

datatype NALUAvccOrAnnexb = NALURaw | NALUAvcc | NALUAnnexb

definition StartCode3 :: bytes where
  "StartCode3 = [0x00, 0x00, 0x01]"

definition StartCode4 :: bytes where
  "StartCode4 = [0x00, 0x00, 0x00, 0x01]"

definition lenStartCode :: "bytes \<Rightarrow> nat" where
  "lenStartCode data =
    (if length data \<ge> 4 \<and> data ! 0 = 0x00 \<and> data ! 1 = 0x00 \<and> data ! 2 = 0x00 \<and> data ! 3 = 0x01 then 4
     else if length data \<ge> 3 \<and> data ! 0 = 0x00 \<and> data ! 1 = 0x00 \<and> data ! 2 = 0x01 then 3
     else 0)"

definition hasAnnexBStartCode :: "bytes \<Rightarrow> bool" where
  "hasAnnexBStartCode data \<longleftrightarrow> lenStartCode data > 0"

definition readNALULength :: "bytes \<Rightarrow> nat" where
  "readNALULength b = (if length b < 4 then 0 else unat (be32 b))"

definition IsAnnexBOrAVCC :: "bytes \<Rightarrow> NALUAvccOrAnnexb" where
  "IsAnnexBOrAVCC data =
    (if length data < 4 then NALURaw
     else if data ! 0 = 0x00 \<and> data ! 1 = 0x00 \<and> data ! 2 = 0x00 \<and> data ! 3 = 0x01 then NALUAnnexb
     else let naluLen = readNALULength (take 4 data) in
       if naluLen > 0 \<and> naluLen \<le> length data - 4 then NALUAvcc
       else if length data \<ge> 3 \<and> data ! 0 = 0x00 \<and> data ! 1 = 0x00 \<and> data ! 2 = 0x01 then NALUAnnexb
       else NALURaw)"

text \<open>
  The scan of \<^verbatim>\<open>SplitNALUs\<close> for the positions of all start codes; the inlined byte checks are those of
  \<open>lenStartCode\<close> at the position.
\<close>

function naluIndices :: "bytes \<Rightarrow> nat \<Rightarrow> nat list" where
  "naluIndices b i =
    (if i < length b
     then let scLen = lenStartCode (drop i b) in
       if scLen > 0 then i # naluIndices b (i + scLen) else naluIndices b (i + 1)
     else [])"
  by pat_completeness auto
termination
  by (relation "measure (\<lambda>(b, i). length b - i)") (auto simp: Let_def)

declare naluIndices.simps [simp del]

fun extractNALUs :: "bytes \<Rightarrow> nat list \<Rightarrow> bytes list" where
  "extractNALUs b [] = []"
| "extractNALUs b (start # rest) =
    (let end = (case rest of [] \<Rightarrow> length b | next # _ \<Rightarrow> next);
         nalu = slice b start end;
         offset = lenStartCode nalu
     in if offset \<ge> length nalu then extractNALUs b rest
        else let naluNoPrefix = drop offset nalu in
          if length naluNoPrefix > 0 then naluNoPrefix # extractNALUs b rest else extractNALUs b rest)"

function avccLoop :: "u32 \<Rightarrow> bytes \<Rightarrow> bytes list \<Rightarrow> bytes list \<times> bytes" where
  "avccLoop val4 b nalus =
    (if val4 \<le> of_nat (length b)
     then let nalus' = nalus @ [take (unat val4) b]; b1 = drop (unat val4) b in
       if length b1 < 4 then (nalus', b1)
       else let val4' = U32BE b1; b2 = drop 4 b1 in
         if val4' > of_nat (length b2) then (nalus', b2) else avccLoop val4' b2 nalus'
     else (nalus, b))"
  by pat_completeness auto
termination
  by (relation "measure (\<lambda>(v, b, n). length b)") auto

declare avccLoop.simps [simp del]

definition SplitNALUs :: "bytes \<Rightarrow> bytes list \<times> NALUAvccOrAnnexb" where
  "SplitNALUs b =
    (case IsAnnexBOrAVCC b of
       NALUAnnexb \<Rightarrow>
         let indices = naluIndices b 0 in
         if length indices = 0 then ([b], NALURaw) else (extractNALUs b indices, NALUAnnexb)
     | NALUAvcc \<Rightarrow>
         let (nalus, rest) = avccLoop (U32BE b) (drop 4 b) [] in
         if length rest = 0 then (nalus, NALUAvcc) else ([b], NALURaw)
     | NALURaw \<Rightarrow> ([b], NALURaw))"

text \<open>The two identical scans of \<^verbatim>\<open>FindNextAnnexBNALUnit\<close>, which stop three bytes before the end.\<close>

function findStartCode :: "bytes \<Rightarrow> nat \<Rightarrow> nat option" where
  "findStartCode data i =
    (if i + 3 < length data
     then if hasAnnexBStartCode (drop i data) then Some i else findStartCode data (i + 1)
     else None)"
  by pat_completeness auto
termination
  by (relation "measure (\<lambda>(b, i). length b - i)") auto

declare findStartCode.simps [simp del]

definition FindNextAnnexBNALUnit :: "bytes \<Rightarrow> nat \<Rightarrow> (nat \<times> nat) option" where
  "FindNextAnnexBNALUnit data start =
    (case findStartCode data start of
       None \<Rightarrow> None
     | Some i \<Rightarrow>
         let nalStart = i + lenStartCode (drop i data) in
         (case findStartCode data nalStart of
            Some nalEnd \<Rightarrow> Some (nalStart, nalEnd)
          | None \<Rightarrow> Some (nalStart, length data)))"

lemma lenStartCode_cases: "lenStartCode d = 0 \<or> lenStartCode d = 3 \<or> lenStartCode d = 4"
  by (simp add: lenStartCode_def)

lemma findStartCode_bounds: "findStartCode data i = Some j \<Longrightarrow> i \<le> j \<and> j + 3 < length data \<and> hasAnnexBStartCode (drop j data)"
proof (induction data i rule: findStartCode.induct)
  case (1 data i)
  then show ?case
    by (subst (asm) (2) findStartCode.simps) (auto split: if_splits)
qed

lemma FindNext_bounds:
  assumes "FindNextAnnexBNALUnit data start = Some (s, e)"
  shows "start < s" and "s \<le> e" and "e \<le> length data"
proof -
  obtain i where i: "findStartCode data start = Some i" "s = i + lenStartCode (drop i data)"
    using assms by (auto simp: FindNextAnnexBNALUnit_def Let_def split: option.splits)
  note b = findStartCode_bounds [OF i(1)]
  have s: "start < s" "s \<le> length data"
    using b i(2) lenStartCode_cases [of "drop i data"] by (auto simp: hasAnnexBStartCode_def)
  have "e = length data \<or> findStartCode data s = Some e"
    using assms i by (auto simp: FindNextAnnexBNALUnit_def Let_def split: option.splits)
  then show "start < s" and "s \<le> e" and "e \<le> length data"
    using s findStartCode_bounds [of data s e] by auto
qed

function AnnexBToAVCCFrom :: "bytes \<Rightarrow> nat \<Rightarrow> bytes" where
  "AnnexBToAVCCFrom data offset =
    (if offset < length data
     then case FindNextAnnexBNALUnit data offset of
         None \<Rightarrow> []
       | Some (start, end) \<Rightarrow>
           let nalu = slice data start end in put32 (of_nat (length nalu)) @ nalu @ AnnexBToAVCCFrom data end
     else [])"
  by pat_completeness auto
termination
  by (relation "measure (\<lambda>(b, i). length b - i)") (auto, use FindNext_bounds in fastforce)

declare AnnexBToAVCCFrom.simps [simp del]

definition AnnexBToAVCC :: "bytes \<Rightarrow> bytes" where
  "AnnexBToAVCC data = AnnexBToAVCCFrom data 0"

function AVCCToAnnexBFrom :: "bytes \<Rightarrow> nat \<Rightarrow> bytes option" where
  "AVCCToAnnexBFrom data offset =
    (if offset + 4 \<le> length data
     then let naluLen = readNALULength (slice data offset (offset + 4)); offset' = offset + 4 in
       if offset' + naluLen > length data then None
       else map_option (\<lambda>out. StartCode4 @ slice data offset' (offset' + naluLen) @ out) (AVCCToAnnexBFrom data (offset' + naluLen))
     else Some [])"
  by pat_completeness auto
termination
  by (relation "measure (\<lambda>(b, i). length b - i)") auto

declare AVCCToAnnexBFrom.simps [simp del]

definition AVCCToAnnexB :: "bytes \<Rightarrow> bytes option" where
  "AVCCToAnnexB data = AVCCToAnnexBFrom data 0"

text \<open>\<^verbatim>\<open>AnnexBToAVCC\<close> and \<^verbatim>\<open>AVCCToAnnexB\<close> of the codec packages frame and split a list of NAL units.\<close>

definition nalus_AnnexBToAVCC :: "bytes list \<Rightarrow> bytes" where
  "nalus_AnnexBToAVCC nalus = concat (map (\<lambda>nalu. PutU32BE (of_nat (length nalu)) @ nalu) nalus)"

function nalus_AVCCFrom :: "bytes \<Rightarrow> nat \<Rightarrow> bytes list" where
  "nalus_AVCCFrom avcc i =
    (if i + 4 \<le> length avcc
     then let size = unat (U32BE (drop i avcc)); i' = i + 4 in
       if i' + size > length avcc then [] else slice avcc i' (i' + size) # nalus_AVCCFrom avcc (i' + size)
     else [])"
  by pat_completeness auto
termination
  by (relation "measure (\<lambda>(b, i). length b - i)") auto

declare nalus_AVCCFrom.simps [simp del]

definition nalus_AVCCToAnnexB :: "bytes \<Rightarrow> bytes list" where
  "nalus_AVCCToAnnexB avcc = nalus_AVCCFrom avcc 0"

definition h264_ParameterSetsAnnexB :: "bytes \<Rightarrow> bytes \<Rightarrow> bytes" where
  "h264_ParameterSetsAnnexB sps pps = [0, 0, 0, 1] @ sps @ [0, 0, 0, 1] @ pps"

subsection \<open>Classification\<close>

definition h264NaluType :: "bytes \<Rightarrow> byte option" where
  "h264NaluType nalHeader = (if nalHeader = [] then None else Some (hd nalHeader AND 0x1F))"

definition h264_IsKeyFrame :: "bytes \<Rightarrow> bool option" where
  "h264_IsKeyFrame nalHeader = map_option (\<lambda>typ. typ = 5) (h264NaluType nalHeader)"

definition h264_IsDataNALU :: "bytes \<Rightarrow> bool option" where
  "h264_IsDataNALU nalHeader = map_option (\<lambda>typ. typ \<ge> 1 \<and> typ \<le> 5) (h264NaluType nalHeader)"

definition h264_IsSPSNALU :: "bytes \<Rightarrow> bool option" where
  "h264_IsSPSNALU nalHeader = map_option (\<lambda>typ. typ = 7) (h264NaluType nalHeader)"

definition h264_IsPPSNALU :: "bytes \<Rightarrow> bool option" where
  "h264_IsPPSNALU nalHeader = map_option (\<lambda>typ. typ = 8) (h264NaluType nalHeader)"

definition h264_IsParamSetNALU :: "bytes \<Rightarrow> bool option" where
  "h264_IsParamSetNALU nalHeader =
    do {a \<leftarrow> h264_IsSPSNALU nalHeader; if a then Some True else h264_IsPPSNALU nalHeader}"

definition NALUType :: "bytes \<Rightarrow> byte option" where
  "NALUType nalu = (if nalu = [] then None else Some (drop_bit 1 (hd nalu) AND 0x3F))"

definition IsIRAP :: "bytes \<Rightarrow> bool option" where
  "IsIRAP nalu = map_option (\<lambda>typ. typ \<in> {16, 17, 18, 19, 20, 21}) (NALUType nalu)"

definition h265_IsKeyFrame :: "bytes \<Rightarrow> bool option" where
  "h265_IsKeyFrame nalu = IsIRAP nalu"

definition IsFirstSlice :: "bytes \<Rightarrow> bool" where
  "IsFirstSlice nalu =
    (if length nalu < 3 then False
     else case NALUType nalu of
         None \<Rightarrow> False
       | Some typ \<Rightarrow>
           if typ > 31 then False
           else case ReadBit (newGolomb (drop 2 nalu)) of None \<Rightarrow> False | Some (firstSliceFlag, _) \<Rightarrow> firstSliceFlag = 1)"

definition h265_IsDataNALU :: "bytes \<Rightarrow> bool option" where
  "h265_IsDataNALU nalu = map_option (\<lambda>typ. typ \<ge> 1 \<and> typ \<le> 20) (NALUType nalu)"

definition h265_IsSPSNALU :: "bytes \<Rightarrow> bool option" where
  "h265_IsSPSNALU nalu = map_option (\<lambda>typ. typ = 33) (NALUType nalu)"

definition h265_IsPPSNALU :: "bytes \<Rightarrow> bool option" where
  "h265_IsPPSNALU nalu = map_option (\<lambda>typ. typ = 34) (NALUType nalu)"

definition h265_IsVPSNALU :: "bytes \<Rightarrow> bool option" where
  "h265_IsVPSNALU nalu = map_option (\<lambda>typ. typ = 32) (NALUType nalu)"

definition h265_IsParamSetNALU :: "bytes \<Rightarrow> bool option" where
  "h265_IsParamSetNALU nalu =
    do {a \<leftarrow> h265_IsVPSNALU nalu; if a then Some True else
        do {b \<leftarrow> h265_IsSPSNALU nalu; if b then Some True else h265_IsPPSNALU nalu}}"

datatype SliceType = SliceP | SliceB | SliceI

datatype slice_error = ErrPacketTooShort | ErrNalHasNoSliceHeader | ErrInvalidSliceType | SliceEOF

text \<open>The last part of both \<^verbatim>\<open>ParseSliceHeaderFromNALU\<close>: two Exp-Golomb codes, the second one is the slice type.\<close>

definition sliceTypeFrom :: "golomb \<Rightarrow> slice_error + SliceType" where
  "sliceTypeFrom r =
    (case ReadExponentialGolombCode r of
       None \<Rightarrow> Inl SliceEOF
     | Some (_, r1) \<Rightarrow>
         (case ReadExponentialGolombCode r1 of
            None \<Rightarrow> Inl SliceEOF
          | Some (u, _) \<Rightarrow>
              if u \<in> {0, 3, 5, 8} then Inr SliceP
              else if u \<in> {1, 6} then Inr SliceB
              else if u \<in> {2, 4, 7, 9} then Inr SliceI
              else Inl ErrInvalidSliceType))"

definition h264_ParseSliceHeaderFromNALU :: "bytes \<Rightarrow> slice_error + SliceType" where
  "h264_ParseSliceHeaderFromNALU pkt =
    (if length pkt \<le> 1 then Inl ErrPacketTooShort
     else if pkt ! 0 AND 0x1f \<in> {1, 2, 5, 19} then sliceTypeFrom (newGolomb (drop 1 pkt))
     else Inl ErrNalHasNoSliceHeader)"

definition h265_ParseSliceHeaderFromNALU :: "bytes \<Rightarrow> slice_error + SliceType" where
  "h265_ParseSliceHeaderFromNALU pkt =
    (if length pkt \<le> 1 then Inl ErrPacketTooShort
     else if drop_bit 1 (pkt ! 0) AND 0x3F > 31 then Inl ErrNalHasNoSliceHeader
     else sliceTypeFrom (newGolomb (drop 1 pkt)))"

subsection \<open>Clean NAL units\<close>

text \<open>
  The byte strings of the standards: a NAL unit is not empty, does not end with a zero byte, and emulation
  prevention keeps the start code out of it.
\<close>

definition clean :: "bytes \<Rightarrow> bool" where
  "clean n \<longleftrightarrow> n \<noteq> [] \<and> last n \<noteq> 0 \<and> (\<forall>i < length n. take 3 (drop i n) \<noteq> StartCode3)"

definition annexb :: "(bool \<times> bytes) list \<Rightarrow> bytes" where
  "annexb xs = concat (map (\<lambda>(long, n). (if long then StartCode4 else StartCode3) @ n) xs)"

lemma annexb_simps [simp]:
  "annexb [] = []" "annexb ((long, n) # xs) = (if long then StartCode4 else StartCode3) @ n @ annexb xs"
  by (simp_all add: annexb_def)

lemma lenStartCode_code: "lenStartCode (StartCode4 @ r) = 4" "lenStartCode (StartCode3 @ r) = 3"
  by (simp_all add: lenStartCode_def StartCode4_def StartCode3_def)

lemma clean_no_code:
  assumes "clean n" and "j < length n"
  shows "lenStartCode (drop j n @ rest) = 0"
proof -
  have m: "drop j n \<noteq> []" "last (drop j n) \<noteq> 0" "take 3 (drop j n) \<noteq> StartCode3"
    using assms by (auto simp: clean_def)
  have m1: "take 3 (drop (Suc j) n) \<noteq> StartCode3"
    using assms by (cases "Suc j < length n") (auto simp: clean_def StartCode3_def)
  have tl: "drop (Suc j) n = tl (drop j n)"
    by (simp add: drop_Suc drop_tl)
  consider a where "drop j n = [a]" | a b where "drop j n = [a, b]" | a b c where "drop j n = [a, b, c]"
    | a b c d r where "drop j n = a # b # c # d # r"
    using m(1) by (metis neq_Nil_conv)
  then show ?thesis
    using m m1 tl by cases (auto simp: lenStartCode_def StartCode3_def numeral_eq_Suc)
qed


lemma naluIndices_skip:
  assumes "clean n" and "drop i b = n @ rest" and "k \<le> length n"
  shows "naluIndices b (i + k) = naluIndices b (i + length n)"
  using assms(3)
proof (induction "length n - k" arbitrary: k)
  case (Suc m)
  then have k: "k < length n"
    by simp
  have d: "drop (i + k) b = drop k n @ rest"
    using assms(2) k drop_drop [of k i b] by (simp add: add.commute del: drop_drop)
  then have "i + k < length b"
    using k by (metis Nil_is_append_conv drop_eq_Nil not_less)
  then have "naluIndices b (i + k) = naluIndices b (i + Suc k)"
    using clean_no_code [OF assms(1) k] d by (subst naluIndices.simps) simp
  also have "\<dots> = naluIndices b (i + length n)"
    using Suc.hyps(1) [of "Suc k"] Suc.hyps(2) k by simp
  finally show ?case .
qed simp

fun starts :: "nat \<Rightarrow> (bool \<times> bytes) list \<Rightarrow> nat list" where
  "starts i [] = []"
| "starts i ((long, n) # xs) = i # starts (i + (if long then 4 else 3) + length n) xs"

abbreviation code_of :: "bool \<Rightarrow> bytes" where
  "code_of long \<equiv> (if long then StartCode4 else StartCode3)"

lemma length_code_of: "length (code_of long) = (if long then 4 else 3)"
  by (simp add: StartCode4_def StartCode3_def)

lemma lenStartCode_code_of: "lenStartCode (code_of long @ r) = (if long then 4 else 3)"
  by (simp add: lenStartCode_code)

lemma frame_after:
  assumes "drop i b = code_of long @ n @ annexb xs"
  shows "drop (i + (if long then 4 else 3)) b = n @ annexb xs"
    and "drop (i + (if long then 4 else 3) + length n) b = annexb xs"
    and "slice b i (i + (if long then 4 else 3) + length n) = code_of long @ n"
proof -
  show a: "drop (i + (if long then 4 else 3)) b = n @ annexb xs"
    using drop_field [OF assms] by (simp only: length_code_of)
  show "drop (i + (if long then 4 else 3) + length n) b = annexb xs"
    using drop_field [OF a] .
  show "slice b i (i + (if long then 4 else 3) + length n) = code_of long @ n"
    using slice_field [of i b "code_of long @ n" "annexb xs"] assms by (simp add: length_code_of add.assoc)
qed

lemma naluIndices_annexb:
  "drop i b = annexb xs \<Longrightarrow> \<forall>x \<in> set xs. clean (snd x) \<Longrightarrow> naluIndices b i = starts i xs"
proof (induction xs arbitrary: i)
  case Nil
  then show ?case
    by (simp add: naluIndices.simps)
next
  case (Cons x xs)
  obtain long n where x: "x = (long, n)"
    by fastforce
  have d: "drop i b = code_of long @ n @ annexb xs"
    using Cons.prems(1) by (simp only: x annexb_simps)
  then have "lenStartCode (drop i b) = (if long then 4 else 3)"
    by (simp only: lenStartCode_code_of)
  moreover have "i < length b"
    using d by (cases "i < length b") (simp_all add: StartCode4_def StartCode3_def split: if_splits)
  ultimately have "naluIndices b i = i # naluIndices b (i + (if long then 4 else 3) + 0)"
    by (subst naluIndices.simps) simp
  also have "\<dots> = i # naluIndices b (i + (if long then 4 else 3) + length n)"
    using naluIndices_skip [OF _ frame_after(1) [OF d], of 0] Cons.prems(2) x by auto
  finally show ?case
    using Cons.IH [OF frame_after(2) [OF d]] Cons.prems(2) x by simp
qed

lemma extractNALUs_starts:
  "drop i b = annexb xs \<Longrightarrow> i \<le> length b \<Longrightarrow> \<forall>x \<in> set xs. clean (snd x) \<Longrightarrow> extractNALUs b (starts i xs) = map snd xs"
proof (induction xs arbitrary: i)
  case (Cons x xs)
  obtain long n where x: "x = (long, n)"
    by fastforce
  have d: "drop i b = code_of long @ n @ annexb xs"
    using Cons.prems(1) by (simp only: x annexb_simps)
  let ?j = "i + (if long then 4 else 3) + length n"
  have j: "?j \<le> length b"
    using length_field [OF d Cons.prems(2)] by (simp only: length_append length_code_of)
  have e: "(case starts ?j xs of [] \<Rightarrow> length b | next # _ \<Rightarrow> next) = ?j"
  proof (cases xs)
    case Nil
    then show ?thesis
      using j frame_after(2) [OF d] by simp
  next
    case (Cons y ys)
    then show ?thesis
      by (cases y) simp
  qed
  have "n \<noteq> []"
    using Cons.prems(3) x by (simp add: clean_def)
  then have "extractNALUs b (i # starts ?j xs) = n # extractNALUs b (starts ?j xs)"
    using lenStartCode_code_of [of long n]
    by (simp add: e frame_after(3) [OF d] Let_def StartCode4_def StartCode3_def split: if_splits)
  then show ?case
    using Cons.IH [OF frame_after(2) [OF d] j] Cons.prems(3) x by simp
qed simp


lemma findStartCode_skip:
  assumes "clean n" and "drop i b = n @ rest" and "k \<le> length n"
  shows "findStartCode b (i + k) = findStartCode b (i + length n)"
  using assms(3)
proof (induction "length n - k" arbitrary: k)
  case (Suc m)
  then have k: "k < length n"
    by simp
  show ?case
  proof (cases "i + k + 3 < length b")
    case True
    have d: "drop (i + k) b = drop k n @ rest"
      using assms(2) k drop_drop [of k i b] by (simp add: add.commute del: drop_drop)
    then have "findStartCode b (i + k) = findStartCode b (i + Suc k)"
      using clean_no_code [OF assms(1) k] True by (subst findStartCode.simps) (simp add: hasAnnexBStartCode_def)
    then show ?thesis
      using Suc.hyps(1) [of "Suc k"] Suc.hyps(2) k by simp
  qed (use k in \<open>simp add: findStartCode.simps\<close>)
qed simp

lemma findStartCode_here:
  assumes "drop i b = code_of long @ n @ annexb xs" and "n \<noteq> []"
  shows "findStartCode b i = Some i"
proof -
  have "length (drop i b) \<ge> 4"
    using assms by (cases n) (simp_all add: StartCode4_def StartCode3_def)
  moreover have "hasAnnexBStartCode (drop i b)"
    using lenStartCode_code_of [of long "n @ annexb xs"] by (simp only: assms(1) hasAnnexBStartCode_def) simp
  ultimately show ?thesis
    by (subst findStartCode.simps) auto
qed

lemma FindNext_annexb:
  assumes d: "drop i b = code_of long @ n @ annexb xs" and i: "i \<le> length b"
    and c: "clean n" "\<forall>x \<in> set xs. clean (snd x)"
  shows "FindNextAnnexBNALUnit b i = Some (i + (if long then 4 else 3), i + (if long then 4 else 3) + length n)"
proof -
  let ?s = "i + (if long then 4 else 3)"
  have n: "n \<noteq> []"
    using c by (simp add: clean_def)
  have len: "lenStartCode (drop i b) = (if long then 4 else 3)"
    using d by (simp only: lenStartCode_code_of)
  have skip: "findStartCode b ?s = findStartCode b (?s + length n)"
    using findStartCode_skip [OF c(1) frame_after(1) [OF d], of 0] by simp
  have lb: "?s + length n + length (annexb xs) = length b"
    using length_field [OF d i] by (simp only: length_append length_code_of)
  have "findStartCode b (?s + length n) = (case xs of [] \<Rightarrow> None | _ \<Rightarrow> Some (?s + length n))"
  proof (cases xs)
    case Nil
    then show ?thesis
      using lb by (simp add: findStartCode.simps)
  next
    case (Cons x ys)
    obtain l m where x: "x = (l, m)"
      by fastforce
    then have "m \<noteq> []"
      using Cons c(2) by (simp add: clean_def)
    then show ?thesis
      using findStartCode_here [of "?s + length n" b l m ys] frame_after(2) [OF d] Cons x by simp
  qed
  then show ?thesis
    using findStartCode_here [OF d n] skip lb
    by (cases xs) (simp_all add: FindNextAnnexBNALUnit_def len Let_def)
qed

lemma avcc_simps [simp]:
  "nalus_AnnexBToAVCC [] = []"
  "nalus_AnnexBToAVCC (n # ns) = PutU32BE (of_nat (length n)) @ n @ nalus_AnnexBToAVCC ns"
  by (simp_all add: nalus_AnnexBToAVCC_def)

lemma PutU32BE_put32: "PutU32BE v = put32 v"
  by (simp add: Put_beput put32_def)

lemma AnnexBToAVCCFrom_annexb:
  "drop i b = annexb xs \<Longrightarrow> i \<le> length b \<Longrightarrow> \<forall>x \<in> set xs. clean (snd x) \<Longrightarrow>
    AnnexBToAVCCFrom b i = nalus_AnnexBToAVCC (map snd xs)"
proof (induction xs arbitrary: i)
  case Nil
  then show ?case
    by (simp add: AnnexBToAVCCFrom.simps)
next
  case (Cons x xs)
  obtain long n where x: "x = (long, n)"
    by fastforce
  have d: "drop i b = code_of long @ n @ annexb xs"
    using Cons.prems(1) by (simp only: x annexb_simps)
  have c: "clean n" "\<forall>x \<in> set xs. clean (snd x)"
    using Cons.prems(3) x by auto
  let ?s = "i + (if long then 4 else 3)"
  have lb: "?s + length n + length (annexb xs) = length b"
    using length_field [OF d Cons.prems(2)] by (simp only: length_append length_code_of)
  have sl: "slice b ?s (?s + length n) = n"
    using slice_field [OF frame_after(1) [OF d]] .
  have "i < length b"
    using lb c(1) by (auto simp: clean_def split: if_splits)
  then have "AnnexBToAVCCFrom b i = put32 (of_nat (length n)) @ n @ AnnexBToAVCCFrom b (?s + length n)"
    by (subst AnnexBToAVCCFrom.simps) (simp add: FindNext_annexb [OF d Cons.prems(2) c] Let_def sl)
  then show ?case
    using Cons.IH [OF frame_after(2) [OF d] _ c(2)] lb x by (simp add: PutU32BE_put32)
qed

lemma AVCCToAnnexBFrom_avcc:
  "drop i b = nalus_AnnexBToAVCC ns \<Longrightarrow> i \<le> length b \<Longrightarrow> \<forall>n \<in> set ns. length n < 2 ^ 32 \<Longrightarrow>
    AVCCToAnnexBFrom b i = Some (annexb (map (Pair True) ns)) \<and> nalus_AVCCFrom b i = ns"
proof (induction ns arbitrary: i)
  case Nil
  then show ?case
    by (simp add: AVCCToAnnexBFrom.simps nalus_AVCCFrom.simps)
next
  case (Cons n ns)
  have d: "drop i b = PutU32BE (of_nat (length n)) @ n @ nalus_AnnexBToAVCC ns"
    using Cons.prems(1) by simp
  have l4: "length (PutU32BE (of_nat (length n))) = 4"
    by (simp add: PutU32BE_def)
  have d1: "drop (i + 4) b = n @ nalus_AnnexBToAVCC ns"
    using drop_field [OF d] l4 by simp
  have d2: "drop (i + 4 + length n) b = nalus_AnnexBToAVCC ns"
    using drop_field [OF d1] .
  have lb: "i + 4 + length n + length (nalus_AnnexBToAVCC ns) = length b"
    using length_field [OF d Cons.prems(2)] l4 by simp
  have sz: "unat (of_nat (length n) :: u32) = length n"
    using Cons.prems(3) by (simp add: unat_of_nat_u32)
  have hd1: "slice b i (i + 4) = PutU32BE (of_nat (length n))"
    using slice_field [OF d] l4 by simp
  have size1: "readNALULength (slice b i (i + 4)) = length n"
    by (simp add: readNALULength_def hd1 l4 sz PutU32BE_put32)
  have size2: "unat (U32BE (drop i b)) = length n"
    by (simp add: d U_PutU(3) sz)
  have sl: "slice b (i + 4) (i + 4 + length n) = n"
    using slice_field [OF d1] .
  note IH = Cons.IH [OF d2]
  have "AVCCToAnnexBFrom b i = Some (StartCode4 @ n @ annexb (map (Pair True) ns))"
    using IH lb Cons.prems(3) by (subst AVCCToAnnexBFrom.simps) (simp add: size1 Let_def sl)
  moreover have "nalus_AVCCFrom b i = n # ns"
    using IH lb Cons.prems(3) by (subst nalus_AVCCFrom.simps) (simp add: size2 Let_def sl)
  ultimately show ?case
    by simp
qed

lemma avccLoop_avcc:
  "length (n @ nalus_AnnexBToAVCC ns) < 2 ^ 32 \<Longrightarrow>
    avccLoop (of_nat (length n)) (n @ nalus_AnnexBToAVCC ns) acc = (acc @ n # ns, [])"
proof (induction ns arbitrary: n acc)
  case Nil
  then show ?case
    by (subst avccLoop.simps) (simp add: unat_of_nat_u32)
next
  case (Cons m ms)
  let ?b2 = "m @ nalus_AnnexBToAVCC ms"
  have b2: "length ?b2 < 2 ^ 32"
    using Cons.prems by simp
  have le: "of_nat (length xs) \<le> (of_nat (length (xs @ ys)) :: u32)" if "length (xs @ ys) < 2 ^ 32" for xs ys :: bytes
    using that by (simp add: word_le_nat_alt unat_of_nat_u32 del: of_nat_add)
  have sz: "unat (of_nat (length n) :: u32) = length n"
    using Cons.prems by (simp add: unat_of_nat_u32)
  have "avccLoop (of_nat (length n)) (n @ nalus_AnnexBToAVCC (m # ms)) acc = avccLoop (of_nat (length m)) ?b2 (acc @ [n])"
    using le [OF Cons.prems] le [OF b2] sz
    by (subst avccLoop.simps) (simp add: Let_def PutU32BE_put32 U_PutU(3) [unfolded PutU32BE_put32] flip: linorder_not_le)
  then show ?case
    using Cons.IH [OF b2] by simp
qed


lemma SplitNALUs_annexb:
  assumes "\<forall>x \<in> set xs. clean (snd x)" and "xs \<noteq> []" and "fst (hd xs)"
  shows "SplitNALUs (annexb xs) = (map snd xs, NALUAnnexb)"
proof -
  obtain n ys where xs: "xs = (True, n) # ys"
    using assms by (cases xs) auto
  have "IsAnnexBOrAVCC (annexb xs) = NALUAnnexb"
    by (simp add: xs IsAnnexBOrAVCC_def StartCode4_def)
  moreover have "naluIndices (annexb xs) 0 = starts 0 xs"
    using naluIndices_annexb [of 0 "annexb xs" xs] assms(1) by simp
  moreover have "extractNALUs (annexb xs) (starts 0 xs) = map snd xs"
    using extractNALUs_starts [of 0 "annexb xs" xs] assms(1) by simp
  ultimately show ?thesis
    by (simp add: SplitNALUs_def xs)
qed

lemma SplitNALUs_avcc:
  assumes "length (nalus_AnnexBToAVCC (n # ns)) < 2 ^ 32" and "2 \<le> length n"
  shows "SplitNALUs (nalus_AnnexBToAVCC (n # ns)) = (n # ns, NALUAvcc)"
proof -
  let ?b = "nalus_AnnexBToAVCC (n # ns)"
  have sz: "unat (of_nat (length n) :: u32) = length n"
    using assms by (simp add: unat_of_nat_u32)
  have l4: "length (PutU32BE v) = 4" for v
    by (simp add: PutU32BE_def)
  have t4: "take 4 ?b = PutU32BE (of_nat (length n))" and d4: "drop 4 ?b = n @ nalus_AnnexBToAVCC ns"
    using l4 by simp_all
  have rd: "readNALULength (take 4 ?b) = length n"
    unfolding t4 by (simp add: readNALULength_def l4 sz PutU32BE_put32)
  have "\<not> (?b ! 0 = 0x00 \<and> ?b ! 1 = 0x00 \<and> ?b ! 2 = 0x00 \<and> ?b ! 3 = 0x01)"
  proof
    assume "?b ! 0 = 0x00 \<and> ?b ! 1 = 0x00 \<and> ?b ! 2 = 0x00 \<and> ?b ! 3 = 0x01"
    then have "PutU32BE (of_nat (length n)) = [0, 0, 0, 1]"
      by (simp add: PutU32BE_def)
    then have "U32BE ([0, 0, 0, 1] @ []) = of_nat (length n)"
      using U_PutU(3) [of "of_nat (length n)" "[]"] by simp
    then have "length n = 1"
      using sz by (simp add: U32BE_def)
    then show False
      using assms(2) by simp
  qed
  then have "IsAnnexBOrAVCC ?b = NALUAvcc"
    using assms(2) rd d4 l4 by (auto simp: IsAnnexBOrAVCC_def Let_def)
  moreover have "avccLoop (U32BE ?b) (drop 4 ?b) [] = (n # ns, [])"
    using avccLoop_avcc [of n ns "[]"] assms(1) d4 by (simp add: U_PutU(3) l4)
  ultimately show ?thesis
    by (simp add: SplitNALUs_def)
qed

text \<open>
  C19. NAL unit framing.  For NAL units as the standards have them, each behind a start code of three or four
  bytes and the first behind one of four, splitting the Annex B stream and splitting its AVCC form both
  return the NAL units with the right format, converting one form to the other gives exactly the framed NAL
  units, and the converters of the codec packages invert each other.  The AVCC form is recognised if the
  first NAL unit has at least two bytes: a length prefix of one reads as a start code.
\<close>

theorem nalu_framing:
  assumes "\<forall>x \<in> set xs. clean (snd x)" and "xs \<noteq> []" and "fst (hd xs)" and "2 \<le> length (snd (hd xs))"
    and "length (nalus_AnnexBToAVCC (map snd xs)) < 2 ^ 32"
  shows "SplitNALUs (annexb xs) = (map snd xs, NALUAnnexb) \<and>
    SplitNALUs (nalus_AnnexBToAVCC (map snd xs)) = (map snd xs, NALUAvcc) \<and>
    AnnexBToAVCC (annexb xs) = nalus_AnnexBToAVCC (map snd xs) \<and>
    AVCCToAnnexB (nalus_AnnexBToAVCC (map snd xs)) = Some (annexb (map (\<lambda>x. (True, snd x)) xs)) \<and>
    nalus_AVCCToAnnexB (nalus_AnnexBToAVCC (map snd xs)) = map snd xs"
proof -
  have "length n \<le> length (nalus_AnnexBToAVCC ns)" if "n \<in> set ns" for n ns
    using that by (induction ns) auto
  then have small: "\<forall>n \<in> set (map snd xs). length n < 2 ^ 32"
    using assms(5) le_less_trans by blast
  have "SplitNALUs (nalus_AnnexBToAVCC (map snd xs)) = (map snd xs, NALUAvcc)"
    using SplitNALUs_avcc [of "snd (hd xs)" "map snd (tl xs)"] assms(2,4,5) by (cases xs) simp_all
  moreover have "AnnexBToAVCC (annexb xs) = nalus_AnnexBToAVCC (map snd xs)"
    using AnnexBToAVCCFrom_annexb [of 0 "annexb xs" xs] assms(1) by (simp add: AnnexBToAVCC_def)
  ultimately show ?thesis
    using SplitNALUs_annexb [OF assms(1-3)] AVCCToAnnexBFrom_avcc [of 0 _ "map snd xs", OF _ _ small]
    by (simp add: AVCCToAnnexB_def nalus_AVCCToAnnexB_def comp_def)
qed

theorem nalu_framing_witness:
  "SplitNALUs [0, 0, 0, 1, 0x67, 0x42, 0, 0, 1, 0x68, 0xce] = ([[0x67, 0x42], [0x68, 0xce]], NALUAnnexb) \<and>
    AnnexBToAVCC [0, 0, 0, 1, 0x67, 0x42, 0, 0, 1, 0x68, 0xce] = [0, 0, 0, 2, 0x67, 0x42, 0, 0, 0, 2, 0x68, 0xce]"
  using nalu_framing [of "[(True, [0x67, 0x42]), (False, [0x68, 0xce])]"]
  by (simp add: clean_def StartCode3_def StartCode4_def PutU32BE_def less_Suc_eq)

end
