(* ===== verification/Rtp_H264.thy ===== *)
theory Rtp_H264
  imports Nalu
begin

text \<open>
  The depacketizer of \<^verbatim>\<open>av/format/rtsp/h264_rtp_decoder.go\<close> (RFC 6184: single NAL units, STAP-A aggregation,
  FU-A fragmentation).  An RTP packet is the record of the fields of \<^verbatim>\<open>rtp.Packet\<close> that the code reads.  The
  fields \<^verbatim>\<open>fragments\<close> and \<^verbatim>\<open>frameBuffer\<close> are lists; a nil and an empty frame buffer are the same list, as in the
  code, where appending nothing to nil keeps nil.
\<close>

record rtp_packet =
  rtp_Payload :: bytes
  rtp_SequenceNumber :: u16
  rtp_Timestamp :: u32
  rtp_Marker :: bool
  rtp_SSRC :: u32

datatype rtp_error =
    errNeedMorePackets | errH264PayloadTooShort | errH264InvalidFUAPacket | errH264NonStartingFUAPacket
  | errH264PacketLossWhileDecodingFUA | errH264AccessUnitTooBig | errH264InvalidSTAPAPacket
  | errH264InvalidSTAPAPayloadSize | errH264TooManyNALUsInAccessUnit

definition h264TypeFUA :: byte where
  "h264TypeFUA = 28"

definition h264TypeSTAPA :: byte where
  "h264TypeSTAPA = 24"

definition maxH264AccessUnitSize :: nat where
  "maxH264AccessUnitSize = 4 * 1024 * 1024"

definition maxH264NALUsPerAU :: nat where
  "maxH264NALUsPerAU = 512"

record h264RTPDecoder =
  hd_firstPacketReceived :: bool
  hd_fragments :: "bytes list"
  hd_fragmentsSize :: nat
  hd_fragmentNextSeqNum :: u16
  hd_frameBuffer :: "bytes list"
  hd_frameBufferLen :: nat
  hd_frameBufferSize :: nat
  hd_frameBufferTimestamp :: u32

definition newH264RTPDecoder :: h264RTPDecoder where
  "newH264RTPDecoder =
    \<lparr>hd_firstPacketReceived = False, hd_fragments = [], hd_fragmentsSize = 0, hd_fragmentNextSeqNum = 0,
     hd_frameBuffer = [], hd_frameBufferLen = 0, hd_frameBufferSize = 0, hd_frameBufferTimestamp = 0\<rparr>"

definition resetFragments :: "h264RTPDecoder \<Rightarrow> h264RTPDecoder" where
  "resetFragments d = d\<lparr>hd_fragments := [], hd_fragmentsSize := 0\<rparr>"

definition resetFrameBuffer :: "h264RTPDecoder \<Rightarrow> h264RTPDecoder" where
  "resetFrameBuffer d = d\<lparr>hd_frameBuffer := [], hd_frameBufferLen := 0, hd_frameBufferSize := 0\<rparr>"

definition accessUnitSize :: "bytes list \<Rightarrow> nat" where
  "accessUnitSize nalus = foldl (\<lambda>total nalu. total + length nalu) 0 nalus"

text \<open>\<^verbatim>\<open>joinFragments\<close> copies the parts into a zeroed slice of the given size; a copy stops where the slice ends.\<close>

fun copyParts :: "nat \<Rightarrow> bytes list \<Rightarrow> bytes" where
  "copyParts room [] = replicate room 0"
| "copyParts room (part # parts) = take room part @ copyParts (room - length part) parts"

definition joinFragments :: "bytes list \<Rightarrow> nat \<Rightarrow> bytes" where
  "joinFragments fragments n = copyParts n fragments"

text \<open>\<^verbatim>\<open>bytes.Index(b, startCode)\<close>.\<close>

fun indexStartCode :: "bytes \<Rightarrow> nat option" where
  "indexStartCode [] = None"
| "indexStartCode (x # xs) = (if take 3 (x # xs) = StartCode3 then Some 0 else map_option Suc (indexStartCode xs))"

function splitNALUsAnnexB :: "bytes \<Rightarrow> bytes list" where
  "splitNALUsAnnexB b =
    (if length b > 0
     then case indexStartCode b of
         None \<Rightarrow> [b]
       | Some idx0 \<Rightarrow>
           let back = (idx0 > 0 \<and> b ! (idx0 - 1) = 0x00);
               idx = (if back then idx0 - 1 else idx0);
               sz = (if back then 4 else 3)
           in if idx = 0 then splitNALUsAnnexB (drop sz b)
              else take idx b # splitNALUsAnnexB (drop (idx + sz) b)
     else [])"
  by pat_completeness auto
termination
  by (relation "measure length") (auto simp: Let_def)

declare splitNALUsAnnexB.simps [simp del]

function stapaLoop :: "bytes \<Rightarrow> bytes list \<Rightarrow> rtp_error + bytes list" where
  "stapaLoop payload nalus =
    (if length payload < 2 then Inl errH264InvalidSTAPAPacket
     else let size = unat (push_bit 8 (ucast (payload ! 0)) OR ucast (payload ! 1) :: u16);
              payload1 = drop 2 payload
       in if size = 0 \<or> size > length payload1 then Inl errH264InvalidSTAPAPayloadSize
          else let nalus' = nalus @ [take size payload1]; payload2 = drop size payload1 in
            if length payload2 = 0 then Inr nalus' else stapaLoop payload2 nalus')"
  by pat_completeness auto
termination
  by (relation "measure (\<lambda>(p, n). length p)") auto

declare stapaLoop.simps [simp del]

definition decodeFUA :: "rtp_packet \<Rightarrow> h264RTPDecoder \<Rightarrow> (rtp_error + bytes list) \<times> h264RTPDecoder" where
  "decodeFUA pkt d =
    (let payload = rtp_Payload pkt in
     if length payload < 2 then (Inl errH264InvalidFUAPacket, resetFragments d)
     else let start = drop_bit 7 (payload ! 1); end = drop_bit 6 (payload ! 1) AND 0x01 in
       if start = 1 then
         let nri = drop_bit 5 (payload ! 0) AND 0x03;
             naluType = payload ! 1 AND 0x1f;
             d1 = (resetFragments d)\<lparr>
               hd_fragmentsSize := length (drop 1 payload),
               hd_fragments := [[push_bit 5 nri OR naluType], drop 2 payload],
               hd_fragmentNextSeqNum := rtp_SequenceNumber pkt + 1,
               hd_firstPacketReceived := True\<rparr>
         in if end = 1
            then (Inr (splitNALUsAnnexB (joinFragments (hd_fragments d1) (hd_fragmentsSize d1))), resetFragments d1)
            else (Inl errNeedMorePackets, d1)
       else if hd_fragmentsSize d = 0 then
         (if \<not> hd_firstPacketReceived d then (Inl errNeedMorePackets, d) else (Inl errH264NonStartingFUAPacket, d))
       else if rtp_SequenceNumber pkt \<noteq> hd_fragmentNextSeqNum d then
         (Inl errH264PacketLossWhileDecodingFUA, resetFragments d)
       else
         let d1 = d\<lparr>hd_fragmentsSize := hd_fragmentsSize d + length (drop 2 payload)\<rparr> in
         if hd_fragmentsSize d1 > maxH264AccessUnitSize then (Inl errH264AccessUnitTooBig, resetFragments d1)
         else let d2 = d1\<lparr>hd_fragments := hd_fragments d1 @ [drop 2 payload],
                          hd_fragmentNextSeqNum := hd_fragmentNextSeqNum d1 + 1\<rparr>
           in if end \<noteq> 1 then (Inl errNeedMorePackets, d2)
              else (Inr (splitNALUsAnnexB (joinFragments (hd_fragments d2) (hd_fragmentsSize d2))), resetFragments d2))"

definition decodeNALUs :: "rtp_packet \<Rightarrow> h264RTPDecoder \<Rightarrow> (rtp_error + bytes list) \<times> h264RTPDecoder" where
  "decodeNALUs pkt d =
    (let payload = rtp_Payload pkt in
     if length payload < 1 then (Inl errH264PayloadTooShort, resetFragments d)
     else let typ = payload ! 0 AND 0x1f in
       if typ = h264TypeFUA then decodeFUA pkt d
       else if typ = h264TypeSTAPA then
         (let d1 = resetFragments d in
          case stapaLoop (drop 1 payload) [] of
            Inl e \<Rightarrow> (Inl e, d1)
          | Inr nalus \<Rightarrow> (Inr nalus, d1\<lparr>hd_firstPacketReceived := True\<rparr>))
       else (Inr [payload], (resetFragments d)\<lparr>hd_firstPacketReceived := True\<rparr>))"

definition addToFrameBuffer :: "bytes list \<Rightarrow> nat \<Rightarrow> u32 \<Rightarrow> h264RTPDecoder \<Rightarrow> rtp_error option \<times> h264RTPDecoder" where
  "addToFrameBuffer nalus l ts d =
    (if hd_frameBufferLen d + l > maxH264NALUsPerAU then (Some errH264TooManyNALUsInAccessUnit, resetFrameBuffer d)
     else let addSize = accessUnitSize nalus in
       if hd_frameBufferSize d + addSize > maxH264AccessUnitSize then (Some errH264AccessUnitTooBig, resetFrameBuffer d)
       else (None, d\<lparr>hd_frameBuffer := hd_frameBuffer d @ nalus, hd_frameBufferLen := hd_frameBufferLen d + l,
                     hd_frameBufferSize := hd_frameBufferSize d + addSize, hd_frameBufferTimestamp := ts\<rparr>))"

definition h264_Decode :: "rtp_packet \<Rightarrow> h264RTPDecoder \<Rightarrow> (rtp_error + bytes list) \<times> h264RTPDecoder" where
  "h264_Decode pkt d =
    (case decodeNALUs pkt d of
       (Inl e, d1) \<Rightarrow> (Inl e, d1)
     | (Inr nalus, d1) \<Rightarrow>
         let l = length nalus in
         if hd_frameBuffer d1 \<noteq> [] \<and> rtp_Timestamp pkt \<noteq> hd_frameBufferTimestamp d1 then
           (let ret = hd_frameBuffer d1 in
            case addToFrameBuffer nalus l (rtp_Timestamp pkt) (resetFrameBuffer d1) of
              (Some e, d2) \<Rightarrow> (Inl e, d2)
            | (None, d2) \<Rightarrow> (Inr ret, d2))
         else
           (case addToFrameBuffer nalus l (rtp_Timestamp pkt) d1 of
              (Some e, d2) \<Rightarrow> (Inl e, d2)
            | (None, d2) \<Rightarrow>
                if \<not> rtp_Marker pkt then (Inl errNeedMorePackets, d2)
                else (Inr (hd_frameBuffer d2), resetFrameBuffer d2)))"

subsection \<open>Invariant of the decoder\<close>

text \<open>The counters agree with the lists they count, and the buffered access unit stays within its bounds.\<close>

definition h264_inv :: "h264RTPDecoder \<Rightarrow> bool" where
  "h264_inv d \<longleftrightarrow>
    hd_fragmentsSize d = length (concat (hd_fragments d)) \<and>
    hd_frameBufferLen d = length (hd_frameBuffer d) \<and> hd_frameBufferLen d \<le> maxH264NALUsPerAU \<and>
    hd_frameBufferSize d = length (concat (hd_frameBuffer d)) \<and> hd_frameBufferSize d \<le> maxH264AccessUnitSize"

lemma accessUnitSize_concat: "accessUnitSize nalus = length (concat nalus)"
proof -
  have "foldl (\<lambda>total nalu. total + length nalu) a nalus = a + length (concat nalus)" for a
    by (induction nalus arbitrary: a) simp_all
  then show ?thesis
    by (simp add: accessUnitSize_def)
qed

lemma copyParts_concat: "copyParts (length (concat ps)) ps = concat ps"
  by (induction ps) simp_all

lemma joinFragments_inv: "hd_fragmentsSize d = length (concat (hd_fragments d)) \<Longrightarrow>
    joinFragments (hd_fragments d) (hd_fragmentsSize d) = concat (hd_fragments d)"
  by (simp add: joinFragments_def copyParts_concat del: length_concat)

lemma decodeFUA_inv: "h264_inv d \<Longrightarrow> h264_inv (snd (decodeFUA pkt d))"
  by (auto simp: decodeFUA_def h264_inv_def resetFragments_def Let_def)

lemma decodeNALUs_inv: "h264_inv d \<Longrightarrow> h264_inv (snd (decodeNALUs pkt d))"
  using decodeFUA_inv [of d pkt]
  by (auto simp: decodeNALUs_def h264_inv_def resetFragments_def Let_def split: sum.splits)

lemma addToFrameBuffer_inv: "h264_inv d \<Longrightarrow> h264_inv (snd (addToFrameBuffer nalus (length nalus) ts d))"
  by (auto simp: addToFrameBuffer_def h264_inv_def resetFrameBuffer_def Let_def accessUnitSize_concat)

lemma resetFrameBuffer_inv: "h264_inv d \<Longrightarrow> h264_inv (resetFrameBuffer d)"
  by (auto simp: h264_inv_def resetFrameBuffer_def)

lemma h264_Decode_inv:
  assumes "h264_inv d"
  shows "h264_inv (snd (h264_Decode pkt d))"
proof -
  obtain r d1 where n: "decodeNALUs pkt d = (r, d1)"
    by fastforce
  then have d1: "h264_inv d1"
    using decodeNALUs_inv [OF assms, of pkt] by simp
  have "h264_inv e" if "addToFrameBuffer nalus (length nalus) ts d' = (x, e)" "h264_inv d'" for nalus ts d' x e
    using addToFrameBuffer_inv [OF that(2), of nalus ts] that(1) by simp
  then show ?thesis
    using n d1 resetFrameBuffer_inv
    by (auto simp: h264_Decode_def Let_def split: sum.splits option.splits prod.splits)
qed

subsection \<open>Packetization\<close>

text \<open>
  What a sender does (RFC 6184): the NAL units of an access unit are sent alone, in an aggregate, or in
  fragments, given by the first byte of the NAL unit and the pieces of the rest.
\<close>

datatype pay_unit = Single bytes | Stap byte "bytes list" | Fua byte "bytes list"

fun unitNALUs :: "pay_unit \<Rightarrow> bytes list" where
  "unitNALUs (Single n) = [n]"
| "unitNALUs (Stap b ns) = ns"
| "unitNALUs (Fua h cs) = [h # concat cs]"

definition fuIndicator :: "byte \<Rightarrow> byte" where
  "fuIndicator h = (h AND 0xE0) OR 28"

definition fuHeader :: "bool \<Rightarrow> bool \<Rightarrow> byte \<Rightarrow> byte" where
  "fuHeader start end h = (if start then 0x80 else 0) OR (if end then 0x40 else 0) OR (h AND 0x1f)"

fun fuaPayloads :: "bool \<Rightarrow> byte \<Rightarrow> bytes list \<Rightarrow> bytes list" where
  "fuaPayloads start h [] = []"
| "fuaPayloads start h (c # cs) = (fuIndicator h # fuHeader start (cs = []) h # c) # fuaPayloads False h cs"

definition stapPayload :: "byte \<Rightarrow> bytes list \<Rightarrow> bytes" where
  "stapPayload b ns = b # concat (map (\<lambda>n. put16 (of_nat (length n)) @ n) ns)"

fun unitPayloads :: "pay_unit \<Rightarrow> bytes list" where
  "unitPayloads (Single n) = [n]"
| "unitPayloads (Stap b ns) = [stapPayload b ns]"
| "unitPayloads (Fua h cs) = fuaPayloads True h cs"

fun unit_ok :: "pay_unit \<Rightarrow> bool" where
  "unit_ok (Single n) \<longleftrightarrow> n \<noteq> [] \<and> hd n AND 0x1f \<noteq> h264TypeFUA \<and> hd n AND 0x1f \<noteq> h264TypeSTAPA"
| "unit_ok (Stap b ns) \<longleftrightarrow> b AND 0x1f = h264TypeSTAPA \<and> ns \<noteq> [] \<and> (\<forall>n \<in> set ns. n \<noteq> [] \<and> length n < 2 ^ 16)"
| "unit_ok (Fua h cs) \<longleftrightarrow> cs \<noteq> [] \<and> h AND 0x80 = 0 \<and> clean (h # concat cs)"

fun packetsOf :: "u16 \<Rightarrow> u32 \<Rightarrow> bool \<Rightarrow> bytes list \<Rightarrow> rtp_packet list" where
  "packetsOf seq ts marked [] = []"
| "packetsOf seq ts marked (p # ps) =
    \<lparr>rtp_Payload = p, rtp_SequenceNumber = seq, rtp_Timestamp = ts, rtp_Marker = (marked \<and> ps = []), rtp_SSRC = 1\<rparr>
      # packetsOf (seq + 1) ts marked ps"

fun decodeAll :: "rtp_packet list \<Rightarrow> h264RTPDecoder \<Rightarrow> (rtp_error + bytes list) list \<times> h264RTPDecoder" where
  "decodeAll [] d = ([], d)"
| "decodeAll (p # ps) d = (let (r, d1) = h264_Decode p d; (rs, d2) = decodeAll ps d1 in (r # rs, d2))"

lemma decodeAll_append:
  "decodeAll (ps @ qs) d = (let (r, d1) = decodeAll ps d; (s, d2) = decodeAll qs d1 in (r @ s, d2))"
  by (induction ps arbitrary: d) (simp_all add: split_beta Let_def)

lemma length_packetsOf [simp]: "length (packetsOf seq ts m ps) = length ps"
  by (induction ps arbitrary: seq) simp_all

lemma packetsOf_append:
  "qs \<noteq> [] \<Longrightarrow> packetsOf seq ts m (ps @ qs) = packetsOf seq ts False ps @ packetsOf (seq + of_nat (length ps)) ts m qs"
  by (induction ps arbitrary: seq) (simp_all add: algebra_simps)

lemma fu_bytes:
  "fuIndicator h AND 0x1f = h264TypeFUA"
  "drop_bit 7 (fuHeader start end h) = (if start then 1 else 0)"
  "drop_bit 6 (fuHeader start end h) AND 1 = (if end then 1 else 0)"
  "fuHeader start end h AND 0x1f = h AND 0x1f"
  by (cases start; cases "end"; rule byte_eqI; simp add: fuIndicator_def fuHeader_def h264TypeFUA_def bit_simps)+

lemma fu_header_rebuilt: "h AND 0x80 = 0 \<Longrightarrow> push_bit 5 (drop_bit 5 (fuIndicator h) AND 0x03) OR (h AND 0x1f) = h"
proof -
  assume "h AND 0x80 = 0"
  then have "\<not> bit h 7"
    using bit_and_iff [of h "0x80" 7] by simp
  then show ?thesis
    by (intro byte_eqI) (simp_all add: fuIndicator_def bit_simps)
qed

lemma splitNALUsAnnexB_clean:
  assumes "clean n"
  shows "splitNALUsAnnexB n = [n]"
proof -
  have "\<forall>i < length n. take 3 (drop i n) \<noteq> StartCode3 \<Longrightarrow> indexStartCode n = None" for n
  proof (induction n)
    case (Cons x n)
    from Cons.prems have "take 3 (x # n) \<noteq> StartCode3" "\<forall>i < length n. take 3 (drop i n) \<noteq> StartCode3"
      by (force, metis Suc_less_eq drop_Suc_Cons length_Cons)
    then show ?case
      using Cons.IH by simp
  qed simp
  then show ?thesis
    using assms by (subst splitNALUsAnnexB.simps) (simp add: clean_def)
qed

lemma stapaLoop_units:
  "ns \<noteq> [] \<Longrightarrow> \<forall>n \<in> set ns. n \<noteq> [] \<and> length n < 2 ^ 16 \<Longrightarrow>
    stapaLoop (concat (map (\<lambda>n. put16 (of_nat (length n)) @ n) ns)) acc = Inr (acc @ ns)"
proof (induction ns arbitrary: acc)
  case (Cons n ns)
  let ?rest = "concat (map (\<lambda>n. put16 (of_nat (length n)) @ n) ns)"
  have put: "\<exists>a b. put16 v = [a, b] \<and> push_bit 8 (ucast a) OR ucast b = v" for v
  proof -
    obtain a b where ab: "put16 v = [a, b]"
      using list_of_length(1) [of "put16 v"] by auto
    then have "be [a, b] = v"
      using be16_put16_all [of v] by (simp add: be16_def)
    then show ?thesis
      using ab by (simp add: be_def)
  qed
  obtain a b where ab: "put16 (of_nat (length n)) = [a, b]" "push_bit 8 (ucast a) OR ucast b = (of_nat (length n) :: u16)"
    using put by blast
  have sz: "unat (of_nat (length n) :: u16) = length n"
    using Cons.prems by (simp add: unat_of_nat_u16)
  have "stapaLoop (put16 (of_nat (length n)) @ n @ ?rest) acc =
      (if length ?rest = 0 then Inr (acc @ [n]) else stapaLoop ?rest (acc @ [n]))"
    using Cons.prems by (subst stapaLoop.simps) (simp add: ab sz Let_def)
  moreover have "length ?rest = 0 \<longleftrightarrow> ns = []"
    by (cases ns) simp_all
  ultimately show ?case
    using Cons.IH [of "acc @ [n]"] Cons.prems by (cases "ns = []") simp_all
qed simp


subsection \<open>Decoding what a sender sent\<close>

definition collecting :: "u32 \<Rightarrow> bytes list \<Rightarrow> h264RTPDecoder \<Rightarrow> bool" where
  "collecting ts acc d \<longleftrightarrow> h264_inv d \<and> hd_frameBuffer d = acc \<and> (acc \<noteq> [] \<longrightarrow> hd_frameBufferTimestamp d = ts)"

definition au_ok :: "bytes list \<Rightarrow> bool" where
  "au_ok ns \<longleftrightarrow> length ns \<le> maxH264NALUsPerAU \<and> length (concat ns) \<le> maxH264AccessUnitSize"

lemma decodeNALUs_frame:
  "hd_frameBuffer (snd (decodeNALUs pkt d)) = hd_frameBuffer d"
  "hd_frameBufferTimestamp (snd (decodeNALUs pkt d)) = hd_frameBufferTimestamp d"
  by (auto simp: decodeNALUs_def decodeFUA_def resetFragments_def Let_def split: sum.splits)

lemma collecting_decodeNALUs: "collecting ts acc d \<Longrightarrow> decodeNALUs pkt d = (r, d1) \<Longrightarrow> collecting ts acc d1"
  using decodeNALUs_inv [of d pkt] decodeNALUs_frame [of pkt d] by (auto simp: collecting_def)

lemma Decode_more:
  "decodeNALUs pkt d = (Inl e, d1) \<Longrightarrow> h264_Decode pkt d = (Inl e, d1)"
  by (simp add: h264_Decode_def)

text \<open>What a call returns and what it keeps, with and without the marker.\<close>

definition outcome :: "bool \<Rightarrow> bytes list \<Rightarrow> rtp_error + bytes list" where
  "outcome marked ns = (if marked then Inr ns else Inl errNeedMorePackets)"

definition kept :: "bool \<Rightarrow> bytes list \<Rightarrow> bytes list" where
  "kept marked ns = (if marked then [] else ns)"

lemma Decode_units:
  assumes "decodeNALUs pkt d = (Inr ns, d1)" and "collecting (rtp_Timestamp pkt) acc d" and "au_ok (acc @ ns)"
  shows "\<exists>d'. h264_Decode pkt d = (outcome (rtp_Marker pkt) (acc @ ns), d') \<and>
    collecting (rtp_Timestamp pkt) (kept (rtp_Marker pkt) (acc @ ns)) d'"
proof -
  have c: "collecting (rtp_Timestamp pkt) acc d1"
    using collecting_decodeNALUs [OF assms(2,1)] .
  obtain x d2 where add: "addToFrameBuffer ns (length ns) (rtp_Timestamp pkt) d1 = (x, d2)"
    by fastforce
  have d2: "x = None" "hd_frameBuffer d2 = acc @ ns" "hd_frameBufferTimestamp d2 = rtp_Timestamp pkt"
    using add c assms(3)
    by (auto simp: addToFrameBuffer_def accessUnitSize_concat collecting_def h264_inv_def au_ok_def Let_def split: if_splits)
  have inv: "h264_inv d2" "h264_inv (resetFrameBuffer d2)"
    using addToFrameBuffer_inv [of d1 ns "rtp_Timestamp pkt"] add c resetFrameBuffer_inv by (auto simp: collecting_def)
  have "h264_Decode pkt d = (if rtp_Marker pkt then (Inr (acc @ ns), resetFrameBuffer d2) else (Inl errNeedMorePackets, d2))"
    using assms(1) c add d2 by (auto simp: h264_Decode_def Let_def collecting_def)
  then show ?thesis
    using inv d2 by (auto simp: collecting_def resetFrameBuffer_def outcome_def kept_def)
qed

lemma fua_rest:
  assumes "collecting ts acc d" and "concat (hd_fragments d) = h # pre" and "hd_fragmentNextSeqNum d = seq" and "cs \<noteq> []"
    and "clean (h # pre @ concat cs)" and "au_ok (acc @ [h # pre @ concat cs])"
  shows "\<exists>d'. decodeAll (packetsOf seq ts m (fuaPayloads False h cs)) d =
      (replicate (length cs - 1) (Inl errNeedMorePackets) @ [outcome m (acc @ [h # pre @ concat cs])], d') \<and>
    collecting ts (kept m (acc @ [h # pre @ concat cs])) d'"
  using assms
proof (induction cs arbitrary: d pre seq)
  case (Cons c cs)
  let ?p = "\<lparr>rtp_Payload = fuIndicator h # fuHeader False (cs = []) h # c, rtp_SequenceNumber = seq, rtp_Timestamp = ts,
      rtp_Marker = (m \<and> fuaPayloads False h cs = []), rtp_SSRC = 1\<rparr>"
  define d2 where "d2 = d\<lparr>hd_fragmentsSize := hd_fragmentsSize d + length c, hd_fragments := hd_fragments d @ [c],
      hd_fragmentNextSeqNum := hd_fragmentNextSeqNum d + 1\<rparr>"
  have size: "hd_fragmentsSize d = length (h # pre)"
    using Cons.prems(1,2) by (metis collecting_def h264_inv_def)
  have bound: "\<not> hd_fragmentsSize d + length c > maxH264AccessUnitSize"
    using Cons.prems(6) size by (simp add: au_ok_def)
  have c2: "concat (hd_fragments d2) = h # pre @ c" "hd_fragmentsSize d2 = length (concat (hd_fragments d2))"
    using Cons.prems(2) size by (simp_all add: d2_def)
  have dec: "decodeNALUs ?p d = (if cs = [] then (Inr (splitNALUsAnnexB (h # pre @ c)), resetFragments d2) else (Inl errNeedMorePackets, d2))"
    using Cons.prems(3) size bound joinFragments_inv [OF c2(2)] c2(1)
    by (auto simp: decodeNALUs_def decodeFUA_def fu_bytes Let_def d2_def numeral_2_eq_2)
  show ?case
  proof (cases "cs = []")
    case True
    then have "decodeNALUs ?p d = (Inr [h # pre @ c], resetFragments d2)"
      using dec splitNALUsAnnexB_clean [of "h # pre @ c"] Cons.prems(5) by simp
    moreover have "rtp_Timestamp ?p = ts" "rtp_Marker ?p = m"
      using True by simp_all
    ultimately obtain d' where "h264_Decode ?p d = (outcome m (acc @ [h # pre @ c]), d')"
      "collecting ts (kept m (acc @ [h # pre @ c])) d'"
      using Decode_units [of ?p d "[h # pre @ c]" _ acc] Cons.prems(1,6) True by auto
    then show ?thesis
      using True by (intro exI [of _ d']) simp
  next
    case False
    then have d2: "decodeNALUs ?p d = (Inl errNeedMorePackets, d2)"
      using dec by simp
    have "collecting ts acc d2"
      using collecting_decodeNALUs [OF Cons.prems(1) d2] .
    moreover have "hd_fragmentNextSeqNum d2 = seq + 1"
      using Cons.prems(3) by (simp add: d2_def)
    ultimately obtain d' where d': "decodeAll (packetsOf (seq + 1) ts m (fuaPayloads False h cs)) d2 =
        (replicate (length cs - 1) (Inl errNeedMorePackets) @ [outcome m (acc @ [h # pre @ concat (c # cs)])], d')"
      "collecting ts (kept m (acc @ [h # pre @ concat (c # cs)])) d'"
      using Cons.IH [of d2 "pre @ c" "seq + 1"] c2(1) False Cons.prems(5,6) by auto
    have "replicate (length cs) x = x # replicate (length cs - 1) x" for x :: "rtp_error + bytes list"
      using False by (cases cs) simp_all
    then show ?thesis
      using d' Decode_more [OF d2] by (intro exI [of _ d']) simp
  qed
qed simp


lemma decode_unit:
  assumes c: "collecting ts acc d" and ok: "unit_ok u" "au_ok (acc @ unitNALUs u)"
  shows "\<exists>d'. decodeAll (packetsOf seq ts m (unitPayloads u)) d =
      (replicate (length (unitPayloads u) - 1) (Inl errNeedMorePackets) @
         [outcome m (acc @ unitNALUs u)], d') \<and>
    collecting ts (kept m (acc @ unitNALUs u)) d'"
proof (cases u)
  case (Single n)
  let ?p = "\<lparr>rtp_Payload = n, rtp_SequenceNumber = seq, rtp_Timestamp = ts, rtp_Marker = m, rtp_SSRC = 1\<rparr>"
  have "\<exists>d1. decodeNALUs ?p d = (Inr [n], d1)"
    using ok(1) Single by (cases n) (simp_all add: decodeNALUs_def)
  then show ?thesis
    using Decode_units [of ?p d "[n]" _ acc] c ok(2) Single by fastforce
next
  case (Stap b ns)
  let ?p = "\<lparr>rtp_Payload = stapPayload b ns, rtp_SequenceNumber = seq, rtp_Timestamp = ts, rtp_Marker = m, rtp_SSRC = 1\<rparr>"
  have "\<exists>d1. decodeNALUs ?p d = (Inr ns, d1)"
    using ok(1) Stap stapaLoop_units [of ns "[]"]
    by (simp add: decodeNALUs_def stapPayload_def h264TypeFUA_def h264TypeSTAPA_def)
  then show ?thesis
    using Decode_units [of ?p d ns _ acc] c ok(2) Stap by fastforce
next
  case (Fua h cs)
  then obtain e es where cs: "cs = e # es"
    using ok(1) by (cases cs) auto
  let ?p = "\<lparr>rtp_Payload = fuIndicator h # fuHeader True (es = []) h # e, rtp_SequenceNumber = seq, rtp_Timestamp = ts,
      rtp_Marker = (m \<and> fuaPayloads False h es = []), rtp_SSRC = 1\<rparr>"
  define d1 where "d1 = d\<lparr>hd_fragmentsSize := Suc (length e), hd_fragments := [[h], e], hd_fragmentNextSeqNum := seq + 1,
      hd_firstPacketReceived := True\<rparr>"
  have frag: "concat (hd_fragments d1) = h # e" "hd_fragmentsSize d1 = length (concat (hd_fragments d1))"
    by (simp_all add: d1_def)
  have h: "push_bit 5 (drop_bit 5 (fuIndicator h) AND 0x03) OR (h AND 0x1f) = h"
    using ok(1) Fua by (intro fu_header_rebuilt) simp
  have "decodeNALUs ?p d = (if es = [] then (Inr (splitNALUsAnnexB (h # e)), resetFragments d1) else (Inl errNeedMorePackets, d1))"
    using joinFragments_inv [OF frag(2)] frag(1) h
    by (simp add: decodeNALUs_def decodeFUA_def fu_bytes Let_def d1_def resetFragments_def numeral_2_eq_2)
  then have dec: "decodeNALUs ?p d = (if es = [] then (Inr [h # e], resetFragments d1) else (Inl errNeedMorePackets, d1))"
    using splitNALUsAnnexB_clean [of "h # e"] ok(1) Fua cs by auto
  show ?thesis
  proof (cases "es = []")
    case True
    then show ?thesis
      using Decode_units [of ?p d "[h # e]" _ acc] c ok(2) Fua cs dec by fastforce
  next
    case False
    then have d1: "decodeNALUs ?p d = (Inl errNeedMorePackets, d1)"
      using dec by simp
    obtain d' where d': "decodeAll (packetsOf (seq + 1) ts m (fuaPayloads False h es)) d1 =
        (replicate (length es - 1) (Inl errNeedMorePackets) @ [outcome m (acc @ [h # concat cs])], d')"
      "collecting ts (kept m (acc @ [h # concat cs])) d'"
      using fua_rest [OF collecting_decodeNALUs [OF c d1] frag(1) _ False, of "seq + 1" m] ok Fua cs
      by (auto simp: d1_def)
    have "length (fuaPayloads False h es) = length es" for es
      by (induction es) simp_all
    moreover have "replicate (length es) x = x # replicate (length es - 1) x" for x :: "rtp_error + bytes list"
      using False by (cases es) simp_all
    ultimately show ?thesis
      using d' Decode_more [OF d1] Fua cs by (intro exI [of _ d']) simp
  qed
qed


lemma unitPayloads_nonempty: "unit_ok u \<Longrightarrow> unitPayloads u \<noteq> []"
  by (cases u) (auto simp: neq_Nil_conv)

lemma replicate_join: "0 < a \<Longrightarrow> 0 < b \<Longrightarrow> replicate (a - 1) x @ [x] @ replicate (b - 1) x = replicate (a + b - 1) x"
  by (cases a; cases b) (simp_all add: replicate_add [symmetric] replicate_app_Cons_same)

lemma decode_access_unit:
  assumes "collecting ts acc d" and "us \<noteq> []" and "\<forall>u \<in> set us. unit_ok u" and "au_ok (acc @ concat (map unitNALUs us))"
  shows "\<exists>d'. decodeAll (packetsOf seq ts True (concat (map unitPayloads us))) d =
      (replicate (length (concat (map unitPayloads us)) - 1) (Inl errNeedMorePackets) @ [Inr (acc @ concat (map unitNALUs us))], d') \<and>
    collecting ts [] d'"
  using assms
proof (induction us arbitrary: acc d seq)
  case (Cons u us)
  show ?case
  proof (cases "us = []")
    case True
    then show ?thesis
      using decode_unit [OF Cons.prems(1), of u seq True] Cons.prems(3,4) by (simp add: outcome_def kept_def)
  next
    case False
    let ?qs = "concat (map unitPayloads us)"
    have ne: "unitPayloads u \<noteq> []" "?qs \<noteq> []"
      using Cons.prems(3) False unitPayloads_nonempty by (auto simp: neq_Nil_conv)
    have "au_ok (acc @ unitNALUs u)"
      using Cons.prems(4) by (simp add: au_ok_def)
    then obtain d1 where d1: "decodeAll (packetsOf seq ts False (unitPayloads u)) d =
        (replicate (length (unitPayloads u) - 1) (Inl errNeedMorePackets) @ [Inl errNeedMorePackets], d1)"
      "collecting ts (acc @ unitNALUs u) d1"
      using decode_unit [OF Cons.prems(1), of u seq False] Cons.prems(3) by (auto simp: outcome_def kept_def)
    then obtain d' where "decodeAll (packetsOf (seq + of_nat (length (unitPayloads u))) ts True ?qs) d1 =
        (replicate (length ?qs - 1) (Inl errNeedMorePackets) @ [Inr (acc @ concat (map unitNALUs (u # us)))], d')"
      "collecting ts [] d'"
      using Cons.IH [OF d1(2) False] Cons.prems(3,4) by fastforce
    then show ?thesis
      using d1(1) ne replicate_join [of "length (unitPayloads u)" "length ?qs" "Inl errNeedMorePackets :: rtp_error + bytes list"]
      by (intro exI [of _ d']) (simp add: packetsOf_append decodeAll_append)
  qed
qed simp

fun streamPackets :: "u16 \<Rightarrow> (u32 \<times> pay_unit list) list \<Rightarrow> rtp_packet list" where
  "streamPackets seq [] = []"
| "streamPackets seq ((ts, us) # aus) =
    (let ps = concat (map unitPayloads us) in packetsOf seq ts True ps @ streamPackets (seq + of_nat (length ps)) aus)"

definition expectedResults :: "(u32 \<times> pay_unit list) list \<Rightarrow> (rtp_error + bytes list) list" where
  "expectedResults aus = concat (map (\<lambda>(ts, us).
     replicate (length (concat (map unitPayloads us)) - 1) (Inl errNeedMorePackets) @ [Inr (concat (map unitNALUs us))]) aus)"

lemma decodeAll_stream:
  assumes "collecting ts0 [] d" and "\<forall>(ts, us) \<in> set aus. us \<noteq> [] \<and> (\<forall>u \<in> set us. unit_ok u) \<and> au_ok (concat (map unitNALUs us))"
  shows "fst (decodeAll (streamPackets seq aus) d) = expectedResults aus"
  using assms
proof (induction aus arbitrary: seq d)
  case (Cons au aus)
  obtain ts us where au: "au = (ts, us)"
    by fastforce
  have "collecting ts [] d"
    using Cons.prems(1) by (simp add: collecting_def)
  then obtain d' where d': "decodeAll (packetsOf seq ts True (concat (map unitPayloads us))) d =
      (replicate (length (concat (map unitPayloads us)) - 1) (Inl errNeedMorePackets) @ [Inr (concat (map unitNALUs us))], d')"
    "collecting ts [] d'"
    using decode_access_unit [of ts "[]" d us seq] Cons.prems(2) au by auto
  then have "collecting ts0 [] d'"
    by (simp add: collecting_def)
  then show ?case
    using Cons.IH [of d' "seq + of_nat (length (concat (map unitPayloads us)))"] Cons.prems(2) d'(1)
    by (simp add: au expectedResults_def decodeAll_append Let_def split_beta)
qed (simp add: expectedResults_def)

text \<open>
  C17. Depacketizing H.264.  Let a sender transmit any sequence of access units of at most 512 NAL units and
  4 MiB each, every NAL unit alone, aggregated or fragmented in any way, with consecutive sequence numbers that
  may wrap around, and the marker on the last packet of each access unit.  The decoder then returns exactly the
  NAL units of every access unit, in order, with its last packet, and asks for more packets until then.
\<close>

theorem h264_depacketize:
  assumes "\<forall>(ts, us) \<in> set aus. us \<noteq> [] \<and> (\<forall>u \<in> set us. unit_ok u) \<and> au_ok (concat (map unitNALUs us))"
  shows "fst (decodeAll (streamPackets seq aus) newH264RTPDecoder) = expectedResults aus"
  using decodeAll_stream [OF _ assms] by (simp add: newH264RTPDecoder_def collecting_def h264_inv_def)

theorem h264_depacketize_witness:
  "fst (decodeAll (streamPackets 65535 [(7, [Single [0x67, 1], Fua 0x65 [[2], [3]]])]) newH264RTPDecoder) =
    [Inl errNeedMorePackets, Inl errNeedMorePackets, Inr [[0x67, 1], [0x65, 2, 3]]]"
proof -
  have "\<forall>(ts, us) \<in> set [(7 :: u32, [Single [0x67, 1], Fua 0x65 [[2], [3]]])].
      us \<noteq> [] \<and> (\<forall>u \<in> set us. unit_ok u) \<and> au_ok (concat (map unitNALUs us))"
    by (simp add: au_ok_def clean_def StartCode3_def h264TypeFUA_def h264TypeSTAPA_def
        maxH264NALUsPerAU_def maxH264AccessUnitSize_def less_Suc_eq)
  from h264_depacketize [OF this, of 65535] show ?thesis
    by (simp add: expectedResults_def del: decodeAll.simps streamPackets.simps)
qed


subsection \<open>Loss and reordering\<close>

text \<open>A complete start of a fragmented NAL unit: a start fragment and further fragments with consecutive sequence numbers.\<close>

definition isFUA :: "rtp_packet \<Rightarrow> bool" where
  "isFUA p \<longleftrightarrow> length (rtp_Payload p) \<ge> 2 \<and> rtp_Payload p ! 0 AND 0x1f = h264TypeFUA"

definition isStart :: "rtp_packet \<Rightarrow> bool" where
  "isStart p \<longleftrightarrow> drop_bit 7 (rtp_Payload p ! 1) = 1"

definition fuRun :: "rtp_packet list \<Rightarrow> bool" where
  "fuRun ps \<longleftrightarrow> ps \<noteq> [] \<and> (\<forall>p \<in> set ps. isFUA p) \<and> isStart (hd ps) \<and> (\<forall>p \<in> set (tl ps). \<not> isStart p) \<and>
    (\<forall>i. Suc i < length ps \<longrightarrow> rtp_SequenceNumber (ps ! Suc i) = rtp_SequenceNumber (ps ! i) + 1)"

definition runBytes :: "rtp_packet list \<Rightarrow> bytes" where
  "runBytes ps =
    (push_bit 5 (drop_bit 5 (rtp_Payload (hd ps) ! 0) AND 0x03) OR (rtp_Payload (hd ps) ! 1 AND 0x1f))
      # concat (map (\<lambda>p. drop 2 (rtp_Payload p)) ps)"

definition fragmented :: "rtp_packet list \<Rightarrow> h264RTPDecoder \<Rightarrow> bool" where
  "fragmented h d \<longleftrightarrow> hd_fragmentsSize d = length (concat (hd_fragments d)) \<and>
    (hd_fragmentsSize d = 0 \<or>
     (\<exists>pre run. h = pre @ run \<and> fuRun run \<and> concat (hd_fragments d) = runBytes run \<and>
       hd_fragmentNextSeqNum d = rtp_SequenceNumber (last run) + 1))"

lemma fuRun_snoc:
  assumes "fuRun run" and "isFUA p" and "\<not> isStart p" and "rtp_SequenceNumber p = rtp_SequenceNumber (last run) + 1"
  shows "fuRun (run @ [p])" and "runBytes (run @ [p]) = runBytes run @ drop 2 (rtp_Payload p)"
proof -
  have "rtp_SequenceNumber ((run @ [p]) ! Suc i) = rtp_SequenceNumber ((run @ [p]) ! i) + 1" if "Suc i < length (run @ [p])" for i
  proof (cases "Suc i < length run")
    case True
    then show ?thesis
      using assms(1) by (simp add: nth_append fuRun_def)
  next
    case False
    then have "i = length run - 1" "run \<noteq> []"
      using that assms(1) by (auto simp: fuRun_def)
    then show ?thesis
      using assms(4) by (simp add: nth_append last_conv_nth)
  qed
  then show "fuRun (run @ [p])"
    using assms(1-3) by (auto simp: fuRun_def)
  show "runBytes (run @ [p]) = runBytes run @ drop 2 (rtp_Payload p)"
    using assms(1) by (simp add: runBytes_def fuRun_def)
qed

lemma fragmented_reset: "hd_fragments d = [] \<Longrightarrow> hd_fragmentsSize d = 0 \<Longrightarrow> fragmented h d"
  by (simp add: fragmented_def)

lemma fragmented_zero: "fragmented h d \<Longrightarrow> hd_fragmentsSize d = 0 \<Longrightarrow> fragmented h' d"
  unfolding fragmented_def by simp

lemma fragmentedI:
  "concat (hd_fragments d) = runBytes run \<Longrightarrow> hd_fragmentsSize d = length (concat (hd_fragments d)) \<Longrightarrow> fuRun run \<Longrightarrow>
    hd_fragmentNextSeqNum d = rtp_SequenceNumber (last run) + 1 \<Longrightarrow> h = pre @ run \<Longrightarrow> fragmented h d"
  unfolding fragmented_def by blast

text \<open>After a fragment the state still belongs to a run at the end of the packets, and what is returned is such a run.\<close>

definition run_result :: "rtp_packet list \<Rightarrow> (rtp_error + bytes list) \<times> h264RTPDecoder \<Rightarrow> bool" where
  "run_result h x \<longleftrightarrow> fragmented h (snd x) \<and>
    (\<forall>nalus. fst x = Inr nalus \<longrightarrow> (\<exists>pre run. h = pre @ run \<and> fuRun run \<and> nalus = splitNALUsAnnexB (runBytes run)))"

lemma run_result_intros:
  "run_result h (Inl e, d') \<longleftrightarrow> fragmented h d'"
  "h = pre @ run \<Longrightarrow> fuRun run \<Longrightarrow> run_result h (Inr (splitNALUsAnnexB (runBytes run)), resetFragments d)"
  using fragmented_reset [of "resetFragments d" h] by (auto simp: run_result_def resetFragments_def)

lemma decodeFUA_start:
  assumes p: "isFUA p" "isStart p"
  shows "run_result (h @ [p]) (decodeFUA p d)"
proof -
  define parts where "parts = [[push_bit 5 (drop_bit 5 (rtp_Payload p ! 0) AND 0x03) OR (rtp_Payload p ! 1 AND 0x1f)], drop 2 (rtp_Payload p)]"
  define e where "e = (resetFragments d)\<lparr>hd_fragmentsSize := length (drop 1 (rtp_Payload p)), hd_fragments := parts,
      hd_fragmentNextSeqNum := rtp_SequenceNumber p + 1, hd_firstPacketReceived := True\<rparr>"
  have len: "2 \<le> length (rtp_Payload p)"
    using p by (simp add: isFUA_def)
  then have parts: "concat parts = runBytes [p]" "length (concat parts) = length (drop 1 (rtp_Payload p))"
    by (simp_all add: parts_def runBytes_def)
  have join: "joinFragments parts (length (drop 1 (rtp_Payload p))) = runBytes [p]"
    using copyParts_concat [of parts] parts by (simp add: joinFragments_def)
  have dec: "decodeFUA p d =
      (if drop_bit 6 (rtp_Payload p ! 1) AND 1 = 1 then (Inr (splitNALUsAnnexB (runBytes [p])), resetFragments e)
       else (Inl errNeedMorePackets, e))"
    using p(2) len join unfolding decodeFUA_def isStart_def Let_def by (simp add: parts_def e_def)
  have run: "fuRun [p]"
    using p by (simp add: fuRun_def)
  have "fragmented (h @ [p]) e"
    using fragmentedI [of e "[p]" "h @ [p]" h] run parts by (simp add: e_def)
  then show ?thesis
    unfolding dec using run by (simp add: run_result_intros)
qed

lemma decodeFUA_next:
  assumes f: "fragmented h d" and p: "isFUA p" "\<not> isStart p"
  shows "run_result (h @ [p]) (decodeFUA p d)"
proof (cases "hd_fragmentsSize d = 0 \<or> rtp_SequenceNumber p \<noteq> hd_fragmentNextSeqNum d")
  case True
  then have "\<exists>e d'. decodeFUA p d = (Inl e, d') \<and> (hd_fragmentsSize d = 0 \<and> d' = d \<or> d' = resetFragments d)"
    using p by (auto simp: decodeFUA_def isFUA_def isStart_def Let_def)
  then show ?thesis
    using f fragmented_zero [OF f] fragmented_reset [of "resetFragments d"] by (auto simp: resetFragments_def run_result_intros(1))
next
  case False
  obtain pre run where run: "h = pre @ run" "fuRun run" "concat (hd_fragments d) = runBytes run"
    "hd_fragmentNextSeqNum d = rtp_SequenceNumber (last run) + 1"
    using f False by (auto simp: fragmented_def)
  have "rtp_SequenceNumber p = rtp_SequenceNumber (last run) + 1"
    using False run(4) by simp
  note snoc = fuRun_snoc [OF run(2) p this]
  define d1 where "d1 = d\<lparr>hd_fragmentsSize := hd_fragmentsSize d + length (drop 2 (rtp_Payload p))\<rparr>"
  define d2 where "d2 = d1\<lparr>hd_fragments := hd_fragments d1 @ [drop 2 (rtp_Payload p)], hd_fragmentNextSeqNum := hd_fragmentNextSeqNum d1 + 1\<rparr>"
  have all: "concat (hd_fragments d2) = runBytes (run @ [p])" "hd_fragmentsSize d2 = length (concat (hd_fragments d2))"
    "hd_fragmentNextSeqNum d2 = rtp_SequenceNumber p + 1"
    using run f snoc(2) False by (simp_all add: d2_def d1_def fragmented_def)
  have "fragmented (h @ [p]) d2"
    using fragmentedI [OF all(1,2) snoc(1), of "h @ [p]" pre] all(3) run(1) by simp
  moreover have "decodeFUA p d = (Inl errH264AccessUnitTooBig, resetFragments d1) \<or> decodeFUA p d = (Inl errNeedMorePackets, d2) \<or>
      decodeFUA p d = (Inr (splitNALUsAnnexB (runBytes (run @ [p]))), resetFragments d2)"
    using p False joinFragments_inv [OF all(2)] all(1) by (simp add: decodeFUA_def isFUA_def isStart_def Let_def d2_def d1_def)
  ultimately show ?thesis
    using snoc(1) run(1) run_result_intros(2) [of "h @ [p]" pre "run @ [p]" d2] fragmented_reset [of "resetFragments d1"]
    by (auto simp: resetFragments_def run_result_intros(1))
qed

lemma decodeFUA_run: "fragmented h d \<Longrightarrow> isFUA p \<Longrightarrow> run_result (h @ [p]) (decodeFUA p d)"
  using decodeFUA_start decodeFUA_next by blast

lemma h264_Decode_fragments:
  "hd_fragments (snd (h264_Decode p d)) = hd_fragments (snd (decodeNALUs p d)) \<and>
   hd_fragmentsSize (snd (h264_Decode p d)) = hd_fragmentsSize (snd (decodeNALUs p d)) \<and>
   hd_fragmentNextSeqNum (snd (h264_Decode p d)) = hd_fragmentNextSeqNum (snd (decodeNALUs p d))"
proof -
  have "hd_fragments (snd (addToFrameBuffer ns l ts e)) = hd_fragments e \<and>
      hd_fragmentsSize (snd (addToFrameBuffer ns l ts e)) = hd_fragmentsSize e \<and>
      hd_fragmentNextSeqNum (snd (addToFrameBuffer ns l ts e)) = hd_fragmentNextSeqNum e" for ns l ts e
    by (simp add: addToFrameBuffer_def resetFrameBuffer_def Let_def)
  then show ?thesis
    by (simp add: h264_Decode_def Let_def resetFrameBuffer_def split_beta split: sum.splits option.splits)
qed

lemma decodeNALUs_FUA: "isFUA p \<Longrightarrow> decodeNALUs p d = decodeFUA p d"
  by (cases "rtp_Payload p") (simp_all add: decodeNALUs_def isFUA_def)

lemma fragmented_Decode:
  assumes "fragmented h d"
  shows "fragmented (h @ [p]) (snd (h264_Decode p d))"
proof -
  have "fragmented (h @ [p]) (snd (decodeNALUs p d))"
  proof (cases "isFUA p")
    case True
    then show ?thesis
      using decodeFUA_run [OF assms True] by (simp add: run_result_def decodeNALUs_FUA)
  next
    case False
    then have "hd_fragments (snd (decodeNALUs p d)) = [] \<and> hd_fragmentsSize (snd (decodeNALUs p d)) = 0"
      by (auto simp: decodeNALUs_def decodeFUA_def isFUA_def resetFragments_def Let_def split: sum.splits)
    then show ?thesis
      by (simp add: fragmented_reset)
  qed
  then show ?thesis
    unfolding fragmented_def using h264_Decode_fragments [of p d] by metis
qed

lemma fragmented_decodeAll: "fragmented h d \<Longrightarrow> fragmented (h @ ps) (snd (decodeAll ps d))"
proof (induction ps arbitrary: h d)
  case (Cons p ps)
  then show ?case
    using Cons.IH [OF fragmented_Decode [OF Cons.prems, of p]] by (simp add: split_beta)
qed simp

text \<open>
  C15. No spliced NAL units.  Whatever packets arrive, in whatever order and with whatever losses: when a
  fragment makes the decoder produce NAL units, the last packets received are a start fragment followed by
  fragments with consecutive sequence numbers up to this one, and the bytes are exactly theirs.
\<close>

theorem h264_no_splice:
  assumes "isFUA p" and "decodeNALUs p (snd (decodeAll h newH264RTPDecoder)) = (Inr nalus, d')"
  shows "\<exists>pre run. h @ [p] = pre @ run \<and> fuRun run \<and> nalus = splitNALUsAnnexB (runBytes run)"
proof -
  let ?d = "snd (decodeAll h newH264RTPDecoder)"
  have "fragmented ([] @ h) ?d"
    by (intro fragmented_decodeAll) (simp add: fragmented_def newH264RTPDecoder_def)
  then have "run_result (h @ [p]) (decodeFUA p ?d)"
    using assms(1) by (simp add: decodeFUA_run)
  moreover have "decodeFUA p ?d = (Inr nalus, d')"
    using assms by (simp add: decodeNALUs_FUA)
  ultimately show ?thesis
    by (simp add: run_result_def)
qed

definition ex_fu :: rtp_packet where
  "ex_fu = \<lparr>rtp_Payload = [0x7c, 0xc5, 9], rtp_SequenceNumber = 4, rtp_Timestamp = 0, rtp_Marker = True, rtp_SSRC = 1\<rparr>"

theorem h264_no_splice_witness:
  "\<exists>pre run. [] @ [ex_fu] = pre @ run \<and> fuRun run \<and> [[0x65, 9]] = splitNALUsAnnexB (runBytes run)"
proof (rule h264_no_splice)
  show "isFUA ex_fu"
    by (simp add: isFUA_def ex_fu_def h264TypeFUA_def)
  show "decodeNALUs ex_fu (snd (decodeAll [] newH264RTPDecoder)) = (Inr [[0x65, 9]], newH264RTPDecoder\<lparr>hd_fragmentNextSeqNum := 5, hd_firstPacketReceived := True\<rparr>)"
    by (simp add: decodeNALUs_def decodeFUA_def ex_fu_def h264TypeFUA_def newH264RTPDecoder_def resetFragments_def
        joinFragments_def splitNALUsAnnexB.simps StartCode3_def)
qed

end
