(* ===== verification/Rtp_H265.thy ===== *)
theory Rtp_H265
  imports Nalu
begin

text \<open>
  The access unit assembler of \<^verbatim>\<open>av/codec/h265parser/rtp.go\<close> (RFC 7798).  The classifiers of NAL units index the
  first byte, so an operation that classifies an empty NAL unit panics: the value \<^const>\<open>None\<close>.  Otherwise
  \<^verbatim>\<open>PushRTP\<close> returns an error, or an access unit when one is ready, and the next state.
\<close>

record AccessUnit =
  au_NALUs :: "bytes list"
  au_KeyFrame :: bool

record h265Parser =
  hp_current :: "bytes list"
  hp_fuBuffer :: bytes
  hp_fuActive :: bool

datatype h265_rtp_error = errInvalidPayload | errInvalidFU

type_synonym pushed = "((h265_rtp_error + AccessUnit option) \<times> h265Parser) option"

definition newH265Parser :: h265Parser where
  "newH265Parser = \<lparr>hp_current = [], hp_fuBuffer = [], hp_fuActive = False\<rparr>"

text \<open>\<^verbatim>\<open>slices.ContainsFunc\<close> with a classifier that may panic.\<close>

fun containsFunc :: "(bytes \<Rightarrow> bool option) \<Rightarrow> bytes list \<Rightarrow> bool option" where
  "containsFunc f [] = Some False"
| "containsFunc f (n # ns) = (case f n of None \<Rightarrow> None | Some b \<Rightarrow> if b then Some True else containsFunc f ns)"

definition containsVCLNALU :: "bytes list \<Rightarrow> bool option" where
  "containsVCLNALU nalus = containsFunc h265_IsDataNALU nalus"

definition buildAU :: "h265Parser \<Rightarrow> AccessUnit option" where
  "buildAU p = map_option (\<lambda>key. \<lparr>au_NALUs = hp_current p, au_KeyFrame = key\<rparr>) (containsFunc IsIRAP (hp_current p))"

definition pushNALU :: "bytes \<Rightarrow> h265Parser \<Rightarrow> (AccessUnit option \<times> h265Parser) option" where
  "pushNALU nalu p =
    (case NALUType nalu of
       None \<Rightarrow> None
     | Some typ \<Rightarrow>
         if IsFirstSlice nalu \<and> length (hp_current p) > 0 then
           (case containsVCLNALU (hp_current p) of
              None \<Rightarrow> None
            | Some False \<Rightarrow> Some (None, p\<lparr>hp_current := hp_current p @ [nalu]\<rparr>)
            | Some True \<Rightarrow> map_option (\<lambda>au. (Some au, p\<lparr>hp_current := [nalu]\<rparr>)) (buildAU p))
         else if typ = 35 then Some (None, p)
         else Some (None, p\<lparr>hp_current := hp_current p @ [nalu]\<rparr>))"

definition handleNALU :: "bytes \<Rightarrow> h265Parser \<Rightarrow> pushed" where
  "handleNALU nalu p = map_option (\<lambda>(au, p'). (Inr au, p')) (pushNALU nalu p)"

function parseAPFrom :: "bytes \<Rightarrow> nat \<Rightarrow> h265Parser \<Rightarrow> pushed" where
  "parseAPFrom payload offset p =
    (if offset + 2 \<le> length payload
     then let size = unat (push_bit 8 (ucast (payload ! offset)) OR ucast (payload ! (offset + 1)) :: u64);
              offset1 = offset + 2
       in if offset1 + size > length payload then Some (Inr None, p)
          else let nalu = slice payload offset1 (offset1 + size); offset2 = offset1 + size in
            (case pushNALU nalu p of
               None \<Rightarrow> None
             | Some (Some au, p1) \<Rightarrow> Some (Inr (Some au), p1)
             | Some (None, p1) \<Rightarrow> parseAPFrom payload offset2 p1)
     else Some (Inr None, p))"
  by pat_completeness auto
termination
  by (relation "measure (\<lambda>(b, i, p). length b - i)") auto

declare parseAPFrom.simps [simp del]

definition parseAP :: "bytes \<Rightarrow> h265Parser \<Rightarrow> pushed" where
  "parseAP payload p = parseAPFrom payload 2 p"

definition parseFU :: "bytes \<Rightarrow> h265Parser \<Rightarrow> pushed" where
  "parseFU payload p =
    (if length payload < 3 then Some (Inl errInvalidFU, p)
     else let start = (payload ! 2 AND 0x80 \<noteq> 0); end = (payload ! 2 AND 0x40 \<noteq> 0); typ = payload ! 2 AND 0x3F in
       if start then
         let naluHeader = (payload ! 0 AND 0x81) OR push_bit 1 typ in
         Some (Inr None, p\<lparr>hp_fuBuffer := [naluHeader, payload ! 1] @ drop 3 payload, hp_fuActive := True\<rparr>)
       else if \<not> hp_fuActive p then Some (Inr None, p)
       else let p1 = p\<lparr>hp_fuBuffer := hp_fuBuffer p @ drop 3 payload\<rparr> in
         if end then handleNALU (hp_fuBuffer p1) (p1\<lparr>hp_fuActive := False\<rparr>)
         else Some (Inr None, p1))"

definition PushRTP :: "bytes \<Rightarrow> h265Parser \<Rightarrow> pushed" where
  "PushRTP payload p =
    (if length payload < 2 then Some (Inl errInvalidPayload, p)
     else let naluType = drop_bit 1 (payload ! 0) AND 0x3F in
       if naluType = 48 then parseAP payload p
       else if naluType = 49 then parseFU payload p
       else handleNALU payload p)"

definition h265_Flush :: "h265Parser \<Rightarrow> (AccessUnit option \<times> h265Parser) option" where
  "h265_Flush p =
    (if length (hp_current p) = 0 then Some (None, p)
     else case containsVCLNALU (hp_current p) of
         None \<Rightarrow> None
       | Some False \<Rightarrow> Some (None, p\<lparr>hp_current := []\<rparr>)
       | Some True \<Rightarrow> map_option (\<lambda>au. (Some au, p\<lparr>hp_current := []\<rparr>)) (buildAU p))"

subsection \<open>No panic on non-empty NAL units\<close>

definition full :: "h265Parser \<Rightarrow> bool" where
  "full p \<longleftrightarrow> (\<forall>n \<in> set (hp_current p). n \<noteq> [])"

lemma containsFunc_Some:
  "\<forall>n \<in> set ns. f n \<noteq> None \<Longrightarrow> containsFunc f ns = Some (\<exists>n \<in> set ns. f n = Some True)"
  by (induction ns) (auto split: option.splits)

lemma classifiers_Some: "n \<noteq> [] \<Longrightarrow> \<exists>b. h265_IsDataNALU n = Some b" "n \<noteq> [] \<Longrightarrow> \<exists>b. IsIRAP n = Some b"
  by (simp_all add: h265_IsDataNALU_def IsIRAP_def NALUType_def)

definition isVCL :: "bytes \<Rightarrow> bool" where
  "isVCL n \<longleftrightarrow> h265_IsDataNALU n = Some True"

definition isIrap :: "bytes \<Rightarrow> bool" where
  "isIrap n \<longleftrightarrow> IsIRAP n = Some True"

definition isAUD :: "bytes \<Rightarrow> bool" where
  "isAUD n \<longleftrightarrow> NALUType n = Some 35"

lemma full_contains:
  assumes "full p"
  shows "containsVCLNALU (hp_current p) = Some (\<exists>n \<in> set (hp_current p). isVCL n)"
    and "buildAU p = Some \<lparr>au_NALUs = hp_current p, au_KeyFrame = (\<exists>n \<in> set (hp_current p). isIrap n)\<rparr>"
  using assms classifiers_Some
  by (auto simp: containsVCLNALU_def buildAU_def full_def isVCL_def isIrap_def containsFunc_Some intro!: arg_cong [where f = Some])

text \<open>What one NAL unit does to the assembler, when nothing panics.\<close>

lemma pushNALU_full:
  assumes "full p" and "n \<noteq> []"
  shows "pushNALU n p =
    (if IsFirstSlice n \<and> (\<exists>m \<in> set (hp_current p). isVCL m)
     then Some (Some \<lparr>au_NALUs = hp_current p, au_KeyFrame = (\<exists>m \<in> set (hp_current p). isIrap m)\<rparr>, p\<lparr>hp_current := [n]\<rparr>)
     else Some (None, if isAUD n then p else p\<lparr>hp_current := hp_current p @ [n]\<rparr>))"
proof -
  obtain t where t: "NALUType n = Some t"
    using assms(2) by (simp add: NALUType_def)
  have aud: "t = 35 \<Longrightarrow> \<not> IsFirstSlice n"
    using t by (simp add: IsFirstSlice_def)
  show ?thesis
    using full_contains [OF assms(1)] t aud
    by (cases "hp_current p = []") (auto simp: pushNALU_def isAUD_def split: bool.splits)
qed

subsection \<open>Conservation\<close>

text \<open>A sender's payloads: NAL units alone, aggregated, or fragmented after their two header bytes.\<close>

datatype hevc_unit = HSingle bytes | HAp byte byte "bytes list" | HFu byte byte "bytes list"

fun hevcNALUs :: "hevc_unit \<Rightarrow> bytes list" where
  "hevcNALUs (HSingle n) = [n]"
| "hevcNALUs (HAp a b ns) = ns"
| "hevcNALUs (HFu h1 h2 cs) = [h1 # h2 # concat cs]"

fun hevcFuRest :: "byte \<Rightarrow> byte \<Rightarrow> bytes list \<Rightarrow> bytes list" where
  "hevcFuRest h1 h2 [] = []"
| "hevcFuRest h1 h2 (c # cs) =
    (((h1 AND 0x81) OR 0x62) # h2 # ((if cs = [] then 0x40 else 0) OR (drop_bit 1 h1 AND 0x3F)) # c) # hevcFuRest h1 h2 cs"

fun hevcPayloads :: "hevc_unit \<Rightarrow> bytes list" where
  "hevcPayloads (HSingle n) = [n]"
| "hevcPayloads (HAp a b ns) = [a # b # concat (map (\<lambda>n. put16 (of_nat (length n)) @ n) ns)]"
| "hevcPayloads (HFu h1 h2 cs) =
    (((h1 AND 0x81) OR 0x62) # h2 # (0x80 OR (drop_bit 1 h1 AND 0x3F)) # hd cs) # hevcFuRest h1 h2 (tl cs)"

text \<open>
  A fragmented NAL unit has at least two fragments, as the RFC demands, and an aggregate has a first slice only
  at its end: the assembler stops reading an aggregate when it completes an access unit.
\<close>

fun hevc_ok :: "hevc_unit \<Rightarrow> bool" where
  "hevc_ok (HSingle n) \<longleftrightarrow> length n \<ge> 2 \<and> drop_bit 1 (hd n) AND 0x3F \<notin> {48, 49}"
| "hevc_ok (HAp a b ns) \<longleftrightarrow> drop_bit 1 a AND 0x3F = 48 \<and> (\<forall>n \<in> set ns. n \<noteq> [] \<and> length n < 2 ^ 16) \<and>
    (\<forall>n \<in> set (butlast ns). \<not> IsFirstSlice n)"
| "hevc_ok (HFu h1 h2 cs) \<longleftrightarrow> length cs \<ge> 2"

fun pushAll :: "bytes list \<Rightarrow> h265Parser \<Rightarrow> ((h265_rtp_error + AccessUnit option) list \<times> h265Parser) option" where
  "pushAll [] p = Some ([], p)"
| "pushAll (b # bs) p =
    (case PushRTP b p of
       None \<Rightarrow> None
     | Some (r, p1) \<Rightarrow> (case pushAll bs p1 of None \<Rightarrow> None | Some (rs, p2) \<Rightarrow> Some (r # rs, p2)))"

lemma pushAll_append:
  "pushAll (as @ bs) p =
    (case pushAll as p of
       None \<Rightarrow> None
     | Some (r, p1) \<Rightarrow> (case pushAll bs p1 of None \<Rightarrow> None | Some (s, p2) \<Rightarrow> Some (r @ s, p2)))"
  by (induction as arbitrary: p) (auto split: option.splits prod.splits)

fun unitsOf :: "(h265_rtp_error + AccessUnit option) list \<Rightarrow> AccessUnit list" where
  "unitsOf [] = []"
| "unitsOf (Inr (Some au) # rs) = au # unitsOf rs"
| "unitsOf (_ # rs) = unitsOf rs"

lemma unitsOf_append: "unitsOf (rs @ ss) = unitsOf rs @ unitsOf ss"
  by (induction rs rule: unitsOf.induct) simp_all

text \<open>Results that lose nothing: the access units and the rest are, in order, the NAL units that were there and came.\<close>

definition wellFormed :: "AccessUnit \<Rightarrow> bool" where
  "wellFormed au \<longleftrightarrow> (\<exists>n \<in> set (au_NALUs au). isVCL n) \<and> (au_KeyFrame au \<longleftrightarrow> (\<exists>n \<in> set (au_NALUs au). isIrap n))"

definition conserves :: "h265Parser \<Rightarrow> bytes list \<Rightarrow> AccessUnit list \<Rightarrow> h265Parser \<Rightarrow> bool" where
  "conserves p ns aus p' \<longleftrightarrow>
    concat (map au_NALUs aus) @ hp_current p' = hp_current p @ filter (\<lambda>n. \<not> isAUD n) ns \<and>
    (\<forall>au \<in> set aus. wellFormed au) \<and> full p'"

lemma conserves_trans:
  "conserves p ns aus p1 \<Longrightarrow> conserves p1 ms bus p2 \<Longrightarrow> conserves p (ns @ ms) (aus @ bus) p2"
  unfolding conserves_def by auto

lemma conserves_none: "full p \<Longrightarrow> hp_current p' = hp_current p \<Longrightarrow> conserves p [] [] p'"
  by (simp add: conserves_def full_def)

lemma pushNALU_conserves:
  assumes "full p" and "n \<noteq> []"
  obtains au p' where "pushNALU n p = Some (au, p')" and "conserves p [n] (case au of None \<Rightarrow> [] | Some a \<Rightarrow> [a]) p'"
    and "\<not> IsFirstSlice n \<Longrightarrow> au = None"
proof -
  have "IsFirstSlice n \<Longrightarrow> \<not> isAUD n"
    by (cases "NALUType n") (auto simp: IsFirstSlice_def isAUD_def split: if_splits)
  then show thesis
    using that pushNALU_full [OF assms] assms
    by (cases "IsFirstSlice n \<and> (\<exists>m \<in> set (hp_current p). isVCL m)"; cases "isAUD n")
      (auto simp: conserves_def wellFormed_def full_def)
qed


lemma handleNALU_conserves:
  assumes "full p" and "n \<noteq> []"
  obtains r p' where "handleNALU n p = Some (Inr r, p')" and "conserves p [n] (unitsOf [Inr r]) p'"
proof -
  obtain au p' where "pushNALU n p = Some (au, p')" "conserves p [n] (case au of None \<Rightarrow> [] | Some a \<Rightarrow> [a]) p'"
    using pushNALU_conserves [OF assms] by blast
  then show thesis
    by (cases au) (auto simp: handleNALU_def intro!: that [of au p'])
qed

lemma put16_u64:
  assumes "put16 v = [a, b]"
  shows "unat (push_bit 8 (ucast a) OR ucast b :: u64) = unat v"
proof -
  have "a = ucast (drop_bit 8 v)" "b = ucast v"
    using assms by (simp_all add: put16_def numeral_2_eq_2)
  then have "push_bit 8 (ucast a) OR ucast b = (ucast v :: u64)"
    by (intro bit_word_eqI) (auto simp: bit_simps dest: bit_imp_le_length)
  moreover have "unat v < 2 ^ 64"
    using unsigned_less [where 'a = nat, of v] by simp
  ultimately show ?thesis
    by (simp add: unsigned_ucast_eq take_bit_nat_eq_self)
qed

lemma parseAP_conserves:
  assumes "drop off payload = concat (map (\<lambda>n. put16 (of_nat (length n)) @ n) ns)" and "off \<le> length payload" and "full p"
    and "\<forall>n \<in> set ns. n \<noteq> [] \<and> length n < 2 ^ 16" and "\<forall>n \<in> set (butlast ns). \<not> IsFirstSlice n"
  shows "\<exists>r p'. parseAPFrom payload off p = Some (Inr r, p') \<and> conserves p ns (unitsOf [Inr r]) p'"
  using assms
proof (induction ns arbitrary: off p)
  case Nil
  then have "parseAPFrom payload off p = Some (Inr None, p)"
    by (subst parseAPFrom.simps) simp
  then show ?case
    using conserves_none [of p p] Nil by auto
next
  case (Cons n ns)
  let ?rest = "concat (map (\<lambda>n. put16 (of_nat (length n)) @ n) ns)"
  have d: "drop off payload = put16 (of_nat (length n)) @ n @ ?rest"
    using Cons.prems(1) by simp
  have d1: "drop (off + 2) payload = n @ ?rest"
    using drop_field [OF d] by simp
  have d2: "drop (off + 2 + length n) payload = ?rest"
    using drop_field [OF d1] .
  have lb: "off + 2 + length n + length ?rest = length payload"
    using length_field [OF d Cons.prems(2)] by simp
  obtain a b where ab: "put16 (of_nat (length n)) = [a, b]"
    using list_of_length(1) [of "put16 (of_nat (length n))"] by auto
  have c: "drop off payload = [a] @ b # n @ ?rest"
    using d ab by simp
  have nth: "payload ! off = a" "payload ! (off + 1) = b"
    using c drop_field [OF c] by (auto intro: nth_via_drop)
  have size: "unat (push_bit 8 (ucast a) OR ucast b :: u64) = length n"
    using put16_u64 [OF ab] Cons.prems(4) by (simp add: unat_of_nat_u16)
  obtain au p1 where push: "pushNALU n p = Some (au, p1)" "conserves p [n] (case au of None \<Rightarrow> [] | Some a \<Rightarrow> [a]) p1"
    "\<not> IsFirstSlice n \<Longrightarrow> au = None"
    using pushNALU_conserves [OF Cons.prems(3), of n] Cons.prems(4) by auto
  have step: "parseAPFrom payload off p =
      (case au of None \<Rightarrow> parseAPFrom payload (off + 2 + length n) p1 | Some a \<Rightarrow> Some (Inr (Some a), p1))"
    using lb push(1) slice_field [OF d1] nth size by (subst parseAPFrom.simps) (simp add: Let_def split: option.splits)
  show ?case
  proof (cases au)
    case None
    have "full p1"
      using push(2) by (simp add: conserves_def)
    moreover have "off + 2 + length n \<le> length payload" "\<forall>n \<in> set ns. n \<noteq> [] \<and> length n < 2 ^ 16"
      "\<forall>n \<in> set (butlast ns). \<not> IsFirstSlice n"
      using lb Cons.prems(4,5) by (auto split: if_splits)
    ultimately obtain r p' where "parseAPFrom payload (off + 2 + length n) p1 = Some (Inr r, p')" "conserves p1 ns (unitsOf [Inr r]) p'"
      using Cons.IH [OF d2] by blast
    then show ?thesis
      using step None conserves_trans [of p "[n]" "[]" p1 ns] push(2) by fastforce
  next
    case (Some a)
    then have "ns = []"
      using push(3) Cons.prems(5) by (auto split: if_splits)
    then show ?thesis
      using step Some push(2) by auto
  qed
qed


lemma hevc_bytes:
  fixes h t :: byte
  shows "drop_bit 1 ((h AND 0x81) OR 0x62) AND 0x3F = 49"
    "(0x80 OR (t AND 0x3F)) AND 0x80 = 0x80" "(0x80 OR (t AND 0x3F)) AND 0x3F = t AND 0x3F"
    "((if e then 0x40 else 0) OR (t AND 0x3F)) AND 0x80 = 0"
    "((if e then 0x40 else 0) OR (t AND 0x3F)) AND 0x40 = (if e then 0x40 else 0)"
  by (cases e; rule byte_eqI; simp add: bit_simps)+

lemma hevc_header: "(((h AND 0x81) OR 0x62) AND 0x81) OR push_bit 1 (drop_bit 1 h AND 0x3F) = (h :: byte)"
  by (rule byte_eqI) (simp_all add: bit_simps del: push_bit_Suc, simp_all add: eval_nat_numeral)

lemma PushRTP_FU:
  assumes "drop_bit 1 b0 AND 0x3F = 49"
  shows "PushRTP (b0 # b1 # b2 # c) p =
    (if b2 AND 0x80 \<noteq> 0
     then Some (Inr None, p\<lparr>hp_fuBuffer := ((b0 AND 0x81) OR push_bit 1 (b2 AND 0x3F)) # b1 # c, hp_fuActive := True\<rparr>)
     else if \<not> hp_fuActive p then Some (Inr None, p)
     else if b2 AND 0x40 \<noteq> 0 then handleNALU (hp_fuBuffer p @ c) (p\<lparr>hp_fuBuffer := hp_fuBuffer p @ c, hp_fuActive := False\<rparr>)
     else Some (Inr None, p\<lparr>hp_fuBuffer := hp_fuBuffer p @ c\<rparr>))"
  using assms by (simp add: PushRTP_def parseFU_def Let_def)

lemma fuRest_conserves:
  assumes "full p" and "hp_fuActive p" and "hp_fuBuffer p \<noteq> []" and "cs \<noteq> []"
  shows "\<exists>rs p'. pushAll (hevcFuRest h1 h2 cs) p = Some (rs, p') \<and>
    conserves p [hp_fuBuffer p @ concat cs] (unitsOf rs) p' \<and> (\<forall>r \<in> set rs. \<exists>x. r = Inr x)"
  using assms
proof (induction cs arbitrary: p)
  case (Cons c cs)
  let ?b = "((h1 AND 0x81) OR 0x62) # h2 # ((if cs = [] then 0x40 else 0) OR (drop_bit 1 h1 AND 0x3F)) # c"
  define p1 where "p1 = p\<lparr>hp_fuBuffer := hp_fuBuffer p @ c\<rparr>"
  have step: "PushRTP ?b p = (if cs = [] then handleNALU (hp_fuBuffer p1) (p1\<lparr>hp_fuActive := False\<rparr>) else Some (Inr None, p1))"
    using Cons.prems(2) unfolding PushRTP_FU [OF hevc_bytes(1)] hevc_bytes(4,5) by (simp add: p1_def)
  show ?case
  proof (cases "cs = []")
    case True
    have "full (p1\<lparr>hp_fuActive := False\<rparr>)" "hp_fuBuffer p1 \<noteq> []"
      using Cons.prems by (simp_all add: full_def p1_def)
    then obtain r p' where "handleNALU (hp_fuBuffer p1) (p1\<lparr>hp_fuActive := False\<rparr>) = Some (Inr r, p')"
      "conserves (p1\<lparr>hp_fuActive := False\<rparr>) [hp_fuBuffer p1] (unitsOf [Inr r]) p'"
      using handleNALU_conserves by blast
    then show ?thesis
      using step True by (auto simp: conserves_def p1_def)
  next
    case False
    have "full p1" "hp_fuActive p1" "hp_fuBuffer p1 \<noteq> []"
      using Cons.prems by (simp_all add: full_def p1_def)
    then obtain rs p' where rs: "pushAll (hevcFuRest h1 h2 cs) p1 = Some (rs, p')"
      "conserves p1 [hp_fuBuffer p1 @ concat cs] (unitsOf rs) p'" "\<forall>r \<in> set rs. \<exists>x. r = Inr x"
      using Cons.IH False by blast
    then show ?thesis
      using step False by (intro exI [of _ "Inr None # rs"] exI [of _ p']) (auto simp: conserves_def p1_def)
  qed
qed simp

lemma unit_conserves:
  assumes "full p" and "hevc_ok u"
  shows "\<exists>rs p'. pushAll (hevcPayloads u) p = Some (rs, p') \<and> conserves p (hevcNALUs u) (unitsOf rs) p' \<and>
    (\<forall>r \<in> set rs. \<exists>x. r = Inr x)"
proof (cases u)
  case (HSingle n)
  then have "PushRTP n p = handleNALU n p" "n \<noteq> []"
    using assms(2) by (cases n; auto simp: PushRTP_def Let_def)+
  moreover obtain r p' where "handleNALU n p = Some (Inr r, p')" "conserves p [n] (unitsOf [Inr r]) p'"
    using handleNALU_conserves [OF assms(1) calculation(2)] by blast
  ultimately show ?thesis
    using HSingle by auto
next
  case (HAp a b ns)
  let ?p = "a # b # concat (map (\<lambda>n. put16 (of_nat (length n)) @ n) ns)"
  have "PushRTP ?p p = parseAPFrom ?p 2 p"
    using assms(2) HAp by (simp add: PushRTP_def parseAP_def)
  moreover obtain r p' where "parseAPFrom ?p 2 p = Some (Inr r, p')" "conserves p ns (unitsOf [Inr r]) p'"
    using parseAP_conserves [of 2 ?p ns p] assms HAp by auto
  ultimately show ?thesis
    using HAp by auto
next
  case (HFu h1 h2 cs)
  then obtain c es where cs: "cs = c # es" "es \<noteq> []"
    using assms(2) by (cases cs; cases "tl cs") auto
  define p1 where "p1 = p\<lparr>hp_fuBuffer := h1 # h2 # c, hp_fuActive := True\<rparr>"
  have step: "PushRTP (((h1 AND 0x81) OR 0x62) # h2 # (0x80 OR (drop_bit 1 h1 AND 0x3F)) # c) p = Some (Inr None, p1)"
    unfolding PushRTP_FU [OF hevc_bytes(1)] hevc_bytes(2,3) hevc_header by (simp add: p1_def)
  have "full p1" "hp_fuActive p1" "hp_fuBuffer p1 \<noteq> []"
    using assms(1) by (simp_all add: full_def p1_def)
  then obtain rs p' where rs: "pushAll (hevcFuRest h1 h2 es) p1 = Some (rs, p')"
    "conserves p1 [hp_fuBuffer p1 @ concat es] (unitsOf rs) p'" "\<forall>r \<in> set rs. \<exists>x. r = Inr x"
    using fuRest_conserves cs(2) by blast
  then show ?thesis
    using step HFu cs by (intro exI [of _ "Inr None # rs"] exI [of _ p']) (auto simp: conserves_def p1_def)
qed

text \<open>
  C18. Assembling H.265.  NAL units that a sender transmits alone, fragmented, or in aggregates whose only first
  slice is the last one, are neither lost nor duplicated nor reordered: what the assembler has returned,
  followed by what it still holds, is exactly the sequence of NAL units sent, without the access unit delimiters;
  every access unit it returns has a coded picture, and is marked a key frame exactly if it has a random access
  picture.
\<close>

theorem h265_conservation:
  assumes "\<forall>u \<in> set us. hevc_ok u"
  shows "\<exists>rs p. pushAll (concat (map hevcPayloads us)) newH265Parser = Some (rs, p) \<and>
    concat (map au_NALUs (unitsOf rs)) @ hp_current p = filter (\<lambda>n. \<not> isAUD n) (concat (map hevcNALUs us)) \<and>
    (\<forall>au \<in> set (unitsOf rs). wellFormed au) \<and> (\<forall>r \<in> set rs. \<exists>x. r = Inr x)"
proof -
  have "full p \<Longrightarrow> \<forall>u \<in> set us. hevc_ok u \<Longrightarrow>
      \<exists>rs p'. pushAll (concat (map hevcPayloads us)) p = Some (rs, p') \<and> conserves p (concat (map hevcNALUs us)) (unitsOf rs) p' \<and>
        (\<forall>r \<in> set rs. \<exists>x. r = Inr x)" for p
  proof (induction us arbitrary: p)
    case Nil
    then show ?case
      using conserves_none [of p p] by simp
  next
    case (Cons u us)
    obtain rs p1 where 1: "pushAll (hevcPayloads u) p = Some (rs, p1)" "conserves p (hevcNALUs u) (unitsOf rs) p1" "\<forall>r \<in> set rs. \<exists>x. r = Inr x"
      using unit_conserves [OF Cons.prems(1), of u] Cons.prems(2) by (meson list.set_intros(1))
    then have "full p1"
      by (simp add: conserves_def)
    then obtain ss p2 where 2: "pushAll (concat (map hevcPayloads us)) p1 = Some (ss, p2)"
      "conserves p1 (concat (map hevcNALUs us)) (unitsOf ss) p2" "\<forall>r \<in> set ss. \<exists>x. r = Inr x"
      using Cons.IH [of p1] Cons.prems(2) by (meson list.set_intros(2))
    show ?case
      using 1 2 conserves_trans [OF 1(2) 2(2)]
      by (intro exI [of _ "rs @ ss"] exI [of _ p2]) (auto simp: pushAll_append unitsOf_append)
  qed
  from this [of newH265Parser] assms show ?thesis
    by (auto simp: full_def newH265Parser_def conserves_def)
qed


definition ex_hevc :: "hevc_unit list" where
  "ex_hevc = [HSingle [0x46, 1], HFu 0x26 1 [[0x80], [7]], HAp 0x60 1 [[0x4e, 1, 5], [0x02, 1, 0x80]]]"

theorem h265_conservation_witness:
  "\<exists>rs p. pushAll (concat (map hevcPayloads ex_hevc)) newH265Parser = Some (rs, p) \<and>
    concat (map au_NALUs (unitsOf rs)) @ hp_current p = [[0x26, 1, 0x80, 7], [0x4e, 1, 5], [0x02, 1, 0x80]]"
proof -
  have "\<not> IsFirstSlice [0x4e, 1, 5]"
    by (simp add: IsFirstSlice_def NALUType_def)
  then have "\<forall>u \<in> set ex_hevc. hevc_ok u"
    by (simp add: ex_hevc_def)
  moreover have "filter (\<lambda>n. \<not> isAUD n) (concat (map hevcNALUs ex_hevc)) = [[0x26, 1, 0x80, 7], [0x4e, 1, 5], [0x02, 1, 0x80]]"
    by (simp add: ex_hevc_def isAUD_def NALUType_def)
  ultimately show ?thesis
    using h265_conservation [of ex_hevc] by metis
qed

subsection \<open>Where it fails\<close>

text \<open>
  C33. An aggregate with an empty NAL unit panics.  Four bytes are enough: any RTP payload that starts with an
  aggregation header and a zero size makes \<^verbatim>\<open>PushRTP\<close> index an empty slice, in every state of the assembler,
  whereas no payload of another type panics in a state that the assembler reaches.
\<close>

theorem h265_ap_panics:
  assumes "drop_bit 1 b0 AND 0x3F = 48"
  shows "PushRTP (b0 # b1 # 0 # 0 # rest) p = None \<and>
    (\<forall>payload q. full q \<longrightarrow> length payload \<ge> 2 \<longrightarrow> drop_bit 1 (hd payload) AND 0x3F \<noteq> 48 \<longrightarrow>
      (hp_fuActive q \<longrightarrow> hp_fuBuffer q \<noteq> []) \<longrightarrow> PushRTP payload q \<noteq> None)"
proof (intro conjI allI impI)
  have "parseAPFrom (b0 # b1 # 0 # 0 # rest) 2 p = None"
    by (subst parseAPFrom.simps) (simp add: Let_def pushNALU_def NALUType_def slice_def numeral_3_eq_3)
  then show "PushRTP (b0 # b1 # 0 # 0 # rest) p = None"
    using assms by (simp add: PushRTP_def parseAP_def)
  fix payload :: bytes and q :: h265Parser
  assume q: "full q" "length payload \<ge> 2" "drop_bit 1 (hd payload) AND 0x3F \<noteq> 48" "hp_fuActive q \<longrightarrow> hp_fuBuffer q \<noteq> []"
  have h: "handleNALU n q' \<noteq> None" if "full q'" "n \<noteq> []" for n q'
    using handleNALU_conserves [OF that] by (metis option.distinct(1))
  have "parseFU payload q \<noteq> None"
  proof (cases "hp_fuActive q")
    case True
    then show ?thesis
      using q h by (auto simp: parseFU_def Let_def full_def)
  qed (simp add: parseFU_def Let_def)
  then show "PushRTP payload q \<noteq> None"
    using q h [of q payload] by (cases payload) (auto simp: PushRTP_def Let_def)
qed

theorem h265_ap_panics_witness: "PushRTP [0x60, 0x01, 0, 0] newH265Parser = None"
  using h265_ap_panics [of "0x60" "0x01" "[]" newH265Parser] by simp

end
