(* ===== verification/Rtp_Aac.thy ===== *)
theory Rtp_Aac
  imports Bits
begin

text \<open>
  The depacketizer of \<^verbatim>\<open>av/format/rtsp/aac_rtp_decoder.go\<close> (RFC 3640): access unit headers of negotiated widths
  in front of the access units.  \<^verbatim>\<open>strconv.Atoi\<close> is modelled for the parameters; an \<^verbatim>\<open>int\<close> is 64 bits wide.
\<close>

subsection \<open>Decimal numbers\<close>

definition isDigit :: "char \<Rightarrow> bool" where
  "isDigit c \<longleftrightarrow> 48 \<le> (of_char c :: nat) \<and> (of_char c :: nat) \<le> 57"

definition digitsValue :: "string \<Rightarrow> int" where
  "digitsValue ds = foldl (\<lambda>v c. 10 * v + (of_char c - 48)) 0 ds"

definition Atoi :: "string \<Rightarrow> int option" where
  "Atoi s =
    (let neg = (s \<noteq> [] \<and> hd s = CHR ''-'');
         ds = (if s \<noteq> [] \<and> (hd s = CHR ''-'' \<or> hd s = CHR ''+'') then tl s else s);
         v = (if neg then - digitsValue ds else digitsValue ds)
     in if ds = [] \<or> \<not> list_all isDigit ds \<or> \<not> in64 v then None else Some v)"

subsection \<open>The decoder\<close>

datatype aac_rtp_error =
    errInvalidAACSizelength | errInvalidAACIndexlength | errInvalidAACIndexdeltalength | errAACPayloadTooShort
  | errAACAUHeadersTruncated | errAACAUIndexBitsExceedHeaderLength | errAACAUPayloadTruncated | errBitReaderOverflow
  | aacPanic

record aacRTPDecoder =
  ad_sizeLength :: int
  ad_indexLength :: int
  ad_indexDeltaLength :: int

definition fmtpValue :: "(string \<Rightarrow> string option) \<Rightarrow> string \<Rightarrow> string" where
  "fmtpValue fmtp key = (case fmtp key of None \<Rightarrow> [] | Some v \<Rightarrow> v)"

definition newAACRTPDecoder :: "(string \<Rightarrow> string option) \<Rightarrow> aac_rtp_error + aacRTPDecoder" where
  "newAACRTPDecoder fmtp =
    (case Atoi (fmtpValue fmtp ''sizelength'') of
       None \<Rightarrow> Inl errInvalidAACSizelength
     | Some sizeLength \<Rightarrow>
         if sizeLength \<le> 0 then Inl errInvalidAACSizelength
         else case Atoi (fmtpValue fmtp ''indexlength'') of
           None \<Rightarrow> Inl errInvalidAACIndexlength
         | Some indexLength \<Rightarrow>
             if indexLength < 0 then Inl errInvalidAACIndexlength
             else case Atoi (fmtpValue fmtp ''indexdeltalength'') of
               None \<Rightarrow> Inl errInvalidAACIndexdeltalength
             | Some indexDeltaLength \<Rightarrow>
                 if indexDeltaLength < 0 then Inl errInvalidAACIndexdeltalength
                 else Inr \<lparr>ad_sizeLength = sizeLength, ad_indexLength = indexLength, ad_indexDeltaLength = indexDeltaLength\<rparr>)"

record auBitReader =
  br_data :: bytes
  br_pos :: nat

text \<open>The loop shifts the bits into an \<^verbatim>\<open>int\<close>; adding the new bit to the shifted value is the bitwise or.\<close>

definition auBit :: "bytes \<Rightarrow> nat \<Rightarrow> bool" where
  "auBit d i = bit (d ! (i div 8)) (7 - i mod 8)"

definition au_readBits :: "int \<Rightarrow> auBitReader \<Rightarrow> (aac_rtp_error + int) \<times> auBitReader" where
  "au_readBits n r =
    (if n = 0 then (Inr 0, r)
     else if n < 0 \<or> wrap64 (int (br_pos r) + n) > int (length (br_data r) * 8) then (Inl errBitReaderOverflow, r)
     else (Inr (foldl (\<lambda>v i. wrap64 (2 * v) + of_bool (auBit (br_data r) (br_pos r + i))) 0 [0..<nat n]),
           r\<lparr>br_pos := br_pos r + nat n\<rparr>))"

text \<open>
  The loop over the headers.  The size width is positive in every decoder that \<^verbatim>\<open>newAACRTPDecoder\<close> makes, so
  the remaining bits decrease; for another width the model ends, where the loop of the code would not.
\<close>

function auHeaders :: "aacRTPDecoder \<Rightarrow> int \<Rightarrow> bool \<Rightarrow> auBitReader \<Rightarrow> int list \<Rightarrow> aac_rtp_error + int list" where
  "auHeaders d remainingBits first r sizes =
    (if remainingBits > 0 \<and> ad_sizeLength d > 0
     then (case au_readBits (ad_sizeLength d) r of
         (Inl e, _) \<Rightarrow> Inl e
       | (Inr sz, r1) \<Rightarrow>
           let remaining1 = remainingBits - ad_sizeLength d;
               indexBits = (if \<not> first then ad_indexDeltaLength d else ad_indexLength d)
           in if indexBits > remaining1 then Inl errAACAUIndexBitsExceedHeaderLength
              else (case au_readBits indexBits r1 of
                  (Inl e, _) \<Rightarrow> Inl e
                | (Inr _, r2) \<Rightarrow>
                    if indexBits < 0 then Inl errBitReaderOverflow
                    else auHeaders d (remaining1 - indexBits) False r2 (sizes @ [sz])))
     else Inr sizes)"
  by pat_completeness auto
termination
  by (relation "measure (\<lambda>(d, n, f, r, s). nat n)") auto

declare auHeaders.simps [simp del]

text \<open>The slice expression panics if its end, computed in 64 bits, is below its start.\<close>

fun auSplit :: "bytes \<Rightarrow> int \<Rightarrow> int list \<Rightarrow> aac_rtp_error + bytes list" where
  "auSplit payloadData offset [] = Inr []"
| "auSplit payloadData offset (sz # sizes) =
    (if sz < 0 \<or> wrap64 (offset + sz) > int (length payloadData) then Inl errAACAUPayloadTruncated
     else if wrap64 (offset + sz) < offset then Inl aacPanic
     else case auSplit payloadData (wrap64 (offset + sz)) sizes of
         Inl e \<Rightarrow> Inl e
       | Inr aus \<Rightarrow> Inr (slice payloadData (nat offset) (nat (offset + sz)) # aus))"

definition aac_Decode :: "bytes \<Rightarrow> aacRTPDecoder \<Rightarrow> aac_rtp_error + bytes list" where
  "aac_Decode payload d =
    (if length payload < 2 then Inl errAACPayloadTooShort
     else let auHeadersBits = unat (be16 (take 2 payload)) in
       if auHeadersBits = 0 then Inr []
       else let auHeaderBytes = (auHeadersBits + 7) div 8 in
         if length payload < 2 + auHeaderBytes then Inl errAACAUHeadersTruncated
         else let headerData = slice payload 2 (2 + auHeaderBytes); payloadData = drop (2 + auHeaderBytes) payload in
           (case auHeaders d (int auHeadersBits) True \<lparr>br_data = headerData, br_pos = 0\<rparr> [] of
              Inl e \<Rightarrow> Inl e
            | Inr sizes \<Rightarrow> auSplit payloadData 0 sizes))"

subsection \<open>Round trip\<close>

definition dataBits :: "bytes \<Rightarrow> bool list" where
  "dataBits d = concat (map byteBits d)"

lemma nth_dataBits: "i < 8 * length d \<Longrightarrow> dataBits d ! i = auBit d i"
proof (induction d arbitrary: i)
  case (Cons b d)
  show ?case
  proof (cases "i < 8")
    case True
    then show ?thesis
      by (simp add: dataBits_def nth_append byteBits_def auBit_def)
  next
    case False
    then have i: "i = 8 + (i - 8)"
      by simp
    then have "dataBits (b # d) ! i = dataBits d ! (i - 8)"
      by (simp add: dataBits_def nth_append byteBits_def)
    also have "\<dots> = auBit d (i - 8)"
      using Cons i by simp
    also have "\<dots> = auBit (b # d) i"
      using False by (simp add: auBit_def le_div_geq [of 8 i] le_mod_geq [of 8 i])
    finally show ?thesis .
  qed
qed simp

lemma length_dataBits [simp]: "length (dataBits d) = 8 * length d"
  by (simp add: dataBits_def)

lemma foldl_natBits:
  "0 \<le> v \<Longrightarrow> (v + 1) * 2 ^ k \<le> 2 ^ 62 \<Longrightarrow>
    foldl (\<lambda>v b. wrap64 (2 * v) + of_bool b) v (natBits k n) = v * 2 ^ k + int (take_bit k n)"
proof (induction k arbitrary: v)
  case (Suc k)
  have p: "(1 :: int) \<le> 2 ^ k"
    by simp
  have "2 * (v + 1) * 1 \<le> 2 * (v + 1) * (2 ^ k :: int)"
    using Suc.prems(1) p by (intro mult_left_mono) auto
  then have b: "2 * (v + 1) \<le> 2 ^ 62"
    using Suc.prems(2) by (simp add: algebra_simps)
  have w: "wrap64 (2 * v) = 2 * v"
    using b Suc.prems(1) by (simp add: wrap64_id in64_def)
  have "(2 * v + of_bool (bit n k) + 1) * 2 ^ k \<le> 2 * (v + 1) * (2 ^ k :: int)"
    by (intro mult_right_mono) auto
  also have "\<dots> = (v + 1) * 2 ^ Suc k"
    by simp
  also have "\<dots> \<le> 2 ^ 62"
    using Suc.prems(2) .
  finally have "foldl (\<lambda>v b. wrap64 (2 * v) + of_bool b) (2 * v + of_bool (bit n k)) (natBits k n) =
      (2 * v + of_bool (bit n k)) * 2 ^ k + int (take_bit k n)"
    using Suc.prems(1) by (intro Suc.IH) simp_all
  also have "\<dots> = v * 2 ^ Suc k + int (take_bit (Suc k) n)"
    by (simp add: take_bit_Suc_from_most algebra_simps)
  finally show ?case
    by (simp only: natBits_Suc foldl_Cons w)
qed (simp add: natBits_def)

lemma foldl_upt_nth: "foldl (\<lambda>v i. f v (xs ! (a + i))) v [0..<k] = foldl f v (take k (drop a xs))" if "a + k \<le> length xs"
  using that
proof (induction k)
  case (Suc k)
  then have "take (Suc k) (drop a xs) = take k (drop a xs) @ [xs ! (a + k)]"
    by (simp add: take_Suc_conv_app_nth)
  then show ?case
    using Suc by simp
qed simp

lemma au_readBits_field:
  assumes d: "drop (br_pos r) (dataBits (br_data r)) = bs @ rest" and k: "length bs = k" and pos: "br_pos r \<le> 8 * length (br_data r)"
    and fit: "8 * length (br_data r) < 2 ^ 62"
  shows "\<exists>v. au_readBits (int k) r = (Inr v, r\<lparr>br_pos := br_pos r + k\<rparr>) \<and> (\<forall>n. bs = natBits k n \<and> 0 < k \<and> k \<le> 62 \<and> n < 2 ^ k \<longrightarrow> v = int n)"
proof (cases "k = 0")
  case True
  then show ?thesis
    by (simp add: au_readBits_def)
next
  case False
  have len: "br_pos r + k + length rest = 8 * length (br_data r)"
    using length_field [OF d] pos k by simp
  have w: "wrap64 (int (br_pos r) + int k) = int (br_pos r) + int k"
    using len fit by (intro wrap64_id) (simp add: in64_def)
  have "foldl (\<lambda>v i. wrap64 (2 * v) + of_bool (auBit (br_data r) (br_pos r + i))) 0 [0..<k] =
      foldl (\<lambda>v i. wrap64 (2 * v) + of_bool (dataBits (br_data r) ! (br_pos r + i))) 0 [0..<k]"
    using len by (intro foldl_cong) (auto simp: nth_dataBits)
  also have "\<dots> = foldl (\<lambda>v b. wrap64 (2 * v) + of_bool b) 0 bs"
    using foldl_upt_nth [of "br_pos r" k "dataBits (br_data r)" "\<lambda>v b. wrap64 (2 * v) + of_bool b" 0] len d k by simp
  finally have val: "foldl (\<lambda>v i. wrap64 (2 * v) + of_bool (auBit (br_data r) (br_pos r + i))) 0 [0..<k] =
      foldl (\<lambda>v b. wrap64 (2 * v) + of_bool b) 0 bs" .
  have "foldl (\<lambda>v b. wrap64 (2 * v) + of_bool b) 0 bs = int n" if "bs = natBits k n" "k \<le> 62" "n < 2 ^ k" for n
    using foldl_natBits [of 0 k n] that power_increasing [of k 62 "2 :: int"] by (simp add: take_bit_nat_eq_self)
  then show ?thesis
    using False len w val by (auto simp: au_readBits_def)
qed


text \<open>The header section of a packet: the size of each access unit and its index field.\<close>

fun auHdr :: "nat \<Rightarrow> (bytes \<times> bool list) list \<Rightarrow> bool list" where
  "auHdr s [] = []"
| "auHdr s ((au, ix) # hs) = natBits s (length au) @ ix @ auHdr s hs"

fun index_ok :: "aacRTPDecoder \<Rightarrow> bool \<Rightarrow> (bytes \<times> bool list) list \<Rightarrow> bool" where
  "index_ok d first [] \<longleftrightarrow> True"
| "index_ok d first ((au, ix) # hs) \<longleftrightarrow>
    int (length ix) = (if first then ad_indexLength d else ad_indexDeltaLength d) \<and> index_ok d False hs"

lemma auHeaders_hdr:
  assumes "drop (br_pos r) (dataBits (br_data r)) = auHdr s hs @ pad" and "br_pos r \<le> 8 * length (br_data r)"
    and "8 * length (br_data r) < 2 ^ 62" and "ad_sizeLength d = int s" and "0 < s" and "s \<le> 62"
    and "index_ok d first hs" and "\<forall>(au, ix) \<in> set hs. length au < 2 ^ s"
  shows "auHeaders d (int (length (auHdr s hs))) first r sizes = Inr (sizes @ map (\<lambda>(au, ix). int (length au)) hs)"
  using assms
proof (induction hs arbitrary: r first sizes)
  case Nil
  then show ?case
    by (simp add: auHeaders.simps)
next
  case (Cons h hs)
  obtain au ix where h: "h = (au, ix)"
    by fastforce
  have d: "drop (br_pos r) (dataBits (br_data r)) = natBits s (length au) @ ix @ auHdr s hs @ pad"
    using Cons.prems(1) h by simp
  define r1 where "r1 = r\<lparr>br_pos := br_pos r + s\<rparr>"
  define r2 where "r2 = r1\<lparr>br_pos := br_pos r1 + length ix\<rparr>"
  have d1: "drop (br_pos r1) (dataBits (br_data r1)) = ix @ auHdr s hs @ pad"
    using drop_field [OF d] by (simp add: r1_def)
  have d2: "drop (br_pos r2) (dataBits (br_data r2)) = auHdr s hs @ pad"
    using drop_field [OF d1] by (simp add: r2_def r1_def)
  have len: "br_pos r + s + length ix + length (auHdr s hs) + length pad = 8 * length (br_data r)"
    using length_field [OF d] Cons.prems(2) by simp
  have "length au < 2 ^ s"
    using Cons.prems(8) h by auto
  then have 1: "au_readBits (int s) r = (Inr (int (length au)), r1)"
    using au_readBits_field [OF d, of s] Cons.prems(2,3,5,6) by (auto simp: r1_def)
  obtain v where 2: "au_readBits (int (length ix)) r1 = (Inr v, r2)"
    using au_readBits_field [OF d1, of "length ix"] Cons.prems(3) len by (auto simp: r1_def r2_def)
  have "auHeaders d (int (length (auHdr s hs))) False r2 (sizes @ [int (length au)]) =
      Inr ((sizes @ [int (length au)]) @ map (\<lambda>(au, ix). int (length au)) hs)"
    using Cons.prems h len by (intro Cons.IH [OF d2]) (auto simp: r2_def r1_def)
  then show ?case
    using 1 2 Cons.prems(4,5,7) h by (subst auHeaders.simps) (auto simp: Let_def)
qed

lemma auSplit_units:
  "drop (nat off) b = concat aus @ rest \<Longrightarrow> 0 \<le> off \<Longrightarrow> nat off \<le> length b \<Longrightarrow> length b < 2 ^ 62 \<Longrightarrow>
    auSplit b off (map (\<lambda>au. int (length au)) aus) = Inr aus"
proof (induction aus arbitrary: off)
  case (Cons au aus)
  have d: "drop (nat off) b = au @ concat aus @ rest"
    using Cons.prems(1) by simp
  have len: "nat off + length au + length (concat aus @ rest) = length b"
    using length_field [OF d Cons.prems(3)] .
  have n: "nat (off + int (length au)) = nat off + length au"
    using Cons.prems(2) by (simp add: nat_add_distrib)
  have w: "wrap64 (off + int (length au)) = off + int (length au)"
    using len Cons.prems(2,4) by (intro wrap64_id) (simp add: in64_def)
  have "auSplit b (off + int (length au)) (map (\<lambda>au. int (length au)) aus) = Inr aus"
    using Cons.prems drop_field [OF d] len by (intro Cons.IH) (simp_all add: n del: length_append)
  moreover have "off + int (length au) \<le> int (length b)"
    using len Cons.prems(2) by simp
  ultimately show ?case
    using slice_field [OF d] by (simp add: w n)
qed simp

text \<open>
  C34. Depacketizing AAC.  For every negotiated size width of 1 to 62 bits and all index widths, a packet that
  carries access units behind their headers, as RFC 3640 lays them out with the header section padded to
  whole bytes, is decoded to exactly these access units, whatever the index fields contain.
\<close>

theorem aac_depacketize:
  assumes "ad_sizeLength d = int s" and "0 < s" and "s \<le> 62" and "index_ok d True hs" and "\<forall>(au, ix) \<in> set hs. length au < 2 ^ s"
    and "length (auHdr s hs) < 2 ^ 16" and "dataBits hdr = auHdr s hs @ pad" and "length pad < 8"
    and "length (concat (map fst hs) @ rest) < 2 ^ 62"
  shows "aac_Decode (put16 (of_nat (length (auHdr s hs))) @ hdr @ concat (map fst hs) @ rest) d = Inr (map fst hs)"
proof -
  let ?n = "length (auHdr s hs)" and ?data = "concat (map fst hs) @ rest"
  let ?p = "put16 (of_nat ?n) @ hdr @ ?data"
  have bits: "unat (be16 (take 2 ?p)) = ?n"
    using assms(6) by (simp add: unat_of_nat_u16)
  have "8 * length hdr = ?n + length pad"
    using arg_cong [OF assms(7), of length] by simp
  then have "?n + 7 = (7 - length pad) + length hdr * 8"
    using assms(8) by simp
  then have hlen: "(?n + 7) div 8 = length hdr"
    by simp
  have hdr: "slice ?p 2 (2 + length hdr) = hdr" "drop (2 + length hdr) ?p = ?data"
    using slice_middle [of "put16 (of_nat ?n)" 2 hdr] by simp_all
  have small: "8 * length hdr < 2 ^ 62"
    using \<open>8 * length hdr = ?n + length pad\<close> assms(6,8) by simp
  have "auHeaders d (int ?n) True \<lparr>br_data = hdr, br_pos = 0\<rparr> [] = Inr (map (\<lambda>(au, ix). int (length au)) hs)"
    using auHeaders_hdr [of "\<lparr>br_data = hdr, br_pos = 0\<rparr>" s hs pad d True "[]"] assms(1-5,7) small by simp
  moreover have "auSplit ?data 0 (map (\<lambda>(au, ix). int (length au)) hs) = Inr (map fst hs)"
    using auSplit_units [of 0 ?data "map fst hs" rest] assms(9) by (simp add: comp_def case_prod_unfold)
  moreover have "?n = 0 \<Longrightarrow> hs = []"
    using assms(2) by (cases hs) (auto simp: natBits_def)
  ultimately show ?thesis
    using hdr unfolding aac_Decode_def bits Let_def hlen by (simp add: hlen)
qed

theorem aac_depacketize_witness:
  "aac_Decode [0, 8, 16, 0xaa, 0xbb] \<lparr>ad_sizeLength = 5, ad_indexLength = 3, ad_indexDeltaLength = 3\<rparr> = Inr [[0xaa, 0xbb]]"
proof -
  let ?d = "\<lparr>ad_sizeLength = 5, ad_indexLength = 3, ad_indexDeltaLength = 3\<rparr>"
  let ?hs = "[([0xaa, 0xbb :: byte], [False, False, False])]"
  have bits: "natBits 5 2 = [False, False, False, True, False]"
    by (simp add: natBits_def upt_rec bit_Suc_0_iff)
  then have hdr: "auHdr 5 ?hs = [False, False, False, True, False, False, False, False]"
    by (simp add: numeral_2_eq_2)
  have "dataBits [16] = [False, False, False, True, False, False, False, False]"
    by (simp add: dataBits_def byteBits_def upt_rec)
  moreover have "put16 8 = [0, 8]"
    by (simp only: put16_def numeral_2_eq_2 beput.simps append_Nil) simp
  moreover have "index_ok ?d True ?hs"
    by simp
  ultimately show ?thesis
    using aac_depacketize [of ?d 5 ?hs "[16]" "[]" "[]"] unfolding hdr by simp
qed

end
