(* ===== verification/Rtsp_Track.thy ===== *)
theory Rtsp_Track
  imports Rtp_H264 Rtp_H265 Rtp_Aac Aac
begin

text \<open>
  One media track of the RTSP demuxer (\<^verbatim>\<open>rtspTrack\<close> in \<^verbatim>\<open>av/format/rtsp/demuxer.go\<close>) with its sender reports
  (\<^verbatim>\<open>rtcp.go\<close>) and the audio codecs of \<^verbatim>\<open>av/codec\<close>: decoding RTP packets, the timeline, wall-clock times, and the
  state carried over a reconnection.  A run-time panic (an integer division by a zero clock rate, an index into an
  empty NAL unit) is the value \<^const>\<open>None\<close>.
\<close>

subsection \<open>Audio codecs\<close>

datatype audio_codec = AacAudio aac_codec | PcmAudio codec_type int | OpusAudio int

fun audioType :: "audio_codec \<Rightarrow> codec_type" where
  "audioType (AacAudio c) = AAC"
| "audioType (PcmAudio t r) = t"
| "audioType (OpusAudio r) = OPUS"

fun audioSampleRate :: "audio_codec \<Rightarrow> int" where
  "audioSampleRate (AacAudio c) = aac_SampleRate (aac_Config c)"
| "audioSampleRate (PcmAudio t r) = r"
| "audioSampleRate (OpusAudio r) = r"

text \<open>The duration of a packet: \<^const>\<open>None\<close> is a panic, \<^term>\<open>Some None\<close> an error.\<close>

fun audioPacketDuration :: "audio_codec \<Rightarrow> bytes \<Rightarrow> duration option option" where
  "audioPacketDuration (AacAudio c) pkt = Some (case aac_PacketDuration c of Inl _ \<Rightarrow> None | Inr d \<Rightarrow> Some d)"
| "audioPacketDuration (PcmAudio t r) pkt =
    (if r = 0 then None else Some (Some (go_quot (wrap64 (int (length pkt) * second)) r)))"
| "audioPacketDuration (OpusAudio r) pkt = Some (Some (20 * millisecond))"

record RTSPAudioCodecData =
  ra_AudioCodec :: audio_codec
  ra_ControlURL :: string
  ra_ClockRate :: int
  ra_Channels :: int
  ra_PayloadType :: byte
  ra_Fmtp :: "string \<Rightarrow> string option"

definition RTPClockRate :: "RTSPAudioCodecData \<Rightarrow> int" where
  "RTPClockRate d = (if ra_ClockRate d > 0 then ra_ClockRate d else audioSampleRate (ra_AudioCodec d))"

datatype sdp_codec =
    SdpH264 h264_codec string
  | SdpH265 h265_codec string
  | SdpAudio RTSPAudioCodecData
  | SdpOther codec_type

fun sdpType :: "sdp_codec \<Rightarrow> codec_type" where
  "sdpType (SdpH264 c u) = H264"
| "sdpType (SdpH265 c u) = H265"
| "sdpType (SdpAudio a) = audioType (ra_AudioCodec a)"
| "sdpType (SdpOther t) = t"

subsection \<open>Sender reports\<close>

datatype rtcp_error = errRTCPPacketTooShort | errUnsupportedRTCPVersion | errInvalidRTCPPacketLength | errRTCPSenderReportTooShort

record senderReport =
  sr_ssrc :: u32
  sr_ntpTime :: gotime
  sr_rtpTimestamp :: u32

definition rtcpVersion :: byte where "rtcpVersion = 2"
definition rtcpTypeSenderReport :: byte where "rtcpTypeSenderReport = 200"
definition rtcpHeaderLength :: nat where "rtcpHeaderLength = 4"
definition rtcpSenderReportLength :: nat where "rtcpSenderReportLength = 24"
definition ntpUnixOffsetSeconds :: int where "ntpUnixOffsetSeconds = 2208988800"

text \<open>\<^verbatim>\<open>time.Unix(secs, nsecs)\<close>, counted from the zero time, January 1 of the year 1.\<close>

definition unixTime :: "int \<Rightarrow> int \<Rightarrow> gotime" where
  "unixTime secs nsecs = (62135596800 + secs) * second + nsecs"

definition ntpToTime :: "u32 \<Rightarrow> u32 \<Rightarrow> gotime" where
  "ntpToTime seconds fraction =
    (let secs = uint seconds - ntpUnixOffsetSeconds;
         nsecs = drop_bit 32 (wrap64 (uint fraction * second))
     in unixTime secs nsecs)"

definition parseSenderReport :: "bytes \<Rightarrow> rtcp_error + senderReport" where
  "parseSenderReport packet =
    (if length packet < rtcpHeaderLength + rtcpSenderReportLength then Inl errRTCPSenderReportTooShort
     else let body = drop rtcpHeaderLength packet;
              ntpSeconds = be32 (slice body 4 8);
              ntpFraction = be32 (slice body 8 12)
       in Inr \<lparr>sr_ssrc = be32 (slice body 0 4), sr_ntpTime = ntpToTime ntpSeconds ntpFraction,
               sr_rtpTimestamp = be32 (slice body 12 16)\<rparr>)"

text \<open>The number of words is incremented in 16 bits.\<close>

function parseSenderReports :: "bytes \<Rightarrow> rtcp_error + senderReport list" where
  "parseSenderReports payload =
    (if length payload > 0
     then if length payload < rtcpHeaderLength then Inl errRTCPPacketTooShort
       else let version = drop_bit 6 (payload ! 0) in
         if version \<noteq> rtcpVersion then Inl errUnsupportedRTCPVersion
         else let packetType = payload ! 1;
                  packetLengthWords = be16 (slice payload 2 4);
                  packetLength = unat (packetLengthWords + 1) * 4
           in if packetLength < rtcpHeaderLength \<or> packetLength > length payload then Inl errInvalidRTCPPacketLength
              else if packetType = rtcpTypeSenderReport then
                (case parseSenderReport (take packetLength payload) of
                   Inl e \<Rightarrow> Inl e
                 | Inr report \<Rightarrow>
                     (case parseSenderReports (drop packetLength payload) of
                        Inl e \<Rightarrow> Inl e
                      | Inr reports \<Rightarrow> Inr (report # reports)))
              else parseSenderReports (drop packetLength payload)
     else Inr [])"
  by pat_completeness auto
termination
  by (relation "measure length") (auto simp: rtcpHeaderLength_def Let_def)

declare parseSenderReports.simps [simp del]

subsection \<open>The track\<close>

record rtspTrack =
  rt_idx :: u16
  rt_codec :: sdp_codec
  rt_codecType :: codec_type
  rt_controlURL :: string
  rt_rtpChannel :: byte
  rt_clockRate :: int
  rt_h264Decoder :: h264RTPDecoder
  rt_h265Parser :: h265Parser
  rt_aacDecoder :: "aacRTPDecoder option"
  rt_audioCodec :: "RTSPAudioCodecData option"
  rt_ssrc :: u32
  rt_haveSenderReport :: bool
  rt_srRTPBase :: u32
  rt_srWallClock :: gotime
  rt_haveRTPBase :: bool
  rt_lastRTP :: u32
  rt_totalRTP :: int
  rt_dtsBase :: duration
  rt_lastDTS :: duration
  rt_haveLastDTS :: bool
  rt_lastDur :: duration

definition blankTrack :: "u16 \<Rightarrow> sdp_codec \<Rightarrow> rtspTrack" where
  "blankTrack idx cd =
    \<lparr>rt_idx = idx, rt_codec = cd, rt_codecType = sdpType cd, rt_controlURL = [], rt_rtpChannel = 0, rt_clockRate = 90000,
     rt_h264Decoder = newH264RTPDecoder, rt_h265Parser = newH265Parser, rt_aacDecoder = None, rt_audioCodec = None,
     rt_ssrc = 0, rt_haveSenderReport = False, rt_srRTPBase = 0, rt_srWallClock = 0, rt_haveRTPBase = False,
     rt_lastRTP = 0, rt_totalRTP = 0, rt_dtsBase = 0, rt_lastDTS = 0, rt_haveLastDTS = False, rt_lastDur = 0\<rparr>"

datatype track_error = TrackAAC aac_rtp_error | errUnsupportedAudioCodecType | errUnsupportedCodecType

fun newTrack :: "u16 \<Rightarrow> sdp_codec \<Rightarrow> track_error + rtspTrack" where
  "newTrack idx (SdpH264 c u) = Inr ((blankTrack idx (SdpH264 c u))\<lparr>rt_controlURL := u\<rparr>)"
| "newTrack idx (SdpH265 c u) = Inr ((blankTrack idx (SdpH265 c u))\<lparr>rt_controlURL := u\<rparr>)"
| "newTrack idx (SdpAudio v) =
    (let tr = (blankTrack idx (SdpAudio v))\<lparr>rt_controlURL := ra_ControlURL v, rt_clockRate := RTPClockRate v,
                rt_audioCodec := Some v\<rparr>;
         t = audioType (ra_AudioCodec v)
     in if t = AAC then
          (case newAACRTPDecoder (ra_Fmtp v) of
             Inl e \<Rightarrow> Inl (TrackAAC e)
           | Inr aacDecoder \<Rightarrow> Inr (tr\<lparr>rt_aacDecoder := Some aacDecoder\<rparr>))
        else if t = PCM_MULAW \<or> t = PCM_ALAW \<or> t = OPUS then Inr tr
        else Inl errUnsupportedAudioCodecType)"
| "newTrack idx (SdpOther t) = Inl errUnsupportedCodecType"

text \<open>\<^verbatim>\<open>decodeDTS\<close>: the 32-bit clock of the sender is unwrapped into a 64-bit counter.\<close>

definition decodeDTS :: "u32 \<Rightarrow> rtspTrack \<Rightarrow> (duration \<times> rtspTrack) option" where
  "decodeDTS ts t =
    (if \<not> rt_haveRTPBase t
     then Some (rt_dtsBase t, t\<lparr>rt_haveRTPBase := True, rt_lastRTP := ts, rt_totalRTP := 0\<rparr>)
     else let t1 = t\<lparr>rt_totalRTP := wrap64 (rt_totalRTP t + sint (ts - rt_lastRTP t)), rt_lastRTP := ts\<rparr> in
       if rt_clockRate t = 0 then None
       else let dts = wrap64 (rt_dtsBase t1 + go_quot (wrap64 (rt_totalRTP t1 * second)) (rt_clockRate t1)) in
         Some (if rt_haveLastDTS t1 \<and> dts < rt_lastDTS t1 then rt_lastDTS t1 else dts, t1))"

definition estimateDuration :: "bytes \<Rightarrow> duration \<Rightarrow> rtspTrack \<Rightarrow> duration option" where
  "estimateDuration data dts t =
    (if rt_haveLastDTS t \<and> dts > rt_lastDTS t then Some (wrap64 (dts - rt_lastDTS t))
     else if rt_lastDur t > 0 then Some (rt_lastDur t)
     else case rt_codec t of
         SdpAudio a \<Rightarrow>
           (case audioPacketDuration (ra_AudioCodec a) data of
              None \<Rightarrow> None
            | Some (Some d) \<Rightarrow> Some (if d > 0 then d else 40 * millisecond)
            | Some None \<Rightarrow> Some (40 * millisecond))
       | _ \<Rightarrow> Some (40 * millisecond))"

definition packetDuration :: "bytes \<Rightarrow> rtspTrack \<Rightarrow> duration option" where
  "packetDuration data t =
    (case rt_audioCodec t of
       None \<Rightarrow> estimateDuration data (rt_lastDTS t) t
     | Some a \<Rightarrow>
         let fallback = (if rt_lastDur t > 0 then rt_lastDur t else 20 * millisecond) in
         (case audioPacketDuration (ra_AudioCodec a) data of
            None \<Rightarrow> None
          | Some (Some dur) \<Rightarrow> Some (if dur > 0 then dur else fallback)
          | Some None \<Rightarrow> Some fallback))"

fun h264AccessUnitIsKeyFrame :: "bytes list \<Rightarrow> bool" where
  "h264AccessUnitIsKeyFrame [] = False"
| "h264AccessUnitIsKeyFrame (nalu # nalus) =
    (if length nalu = 0 then h264AccessUnitIsKeyFrame nalus
     else if nalu ! 0 AND 0x1F = 5 then True else h264AccessUnitIsKeyFrame nalus)"

definition mediaPacket :: "rtspTrack \<Rightarrow> codec_type \<Rightarrow> duration \<Rightarrow> duration \<Rightarrow> bool \<Rightarrow> bytes \<Rightarrow> packet" where
  "mediaPacket t ct dts dur key data =
    zero_packet\<lparr>Idx := rt_idx t, CodecType := ct, DTS := dts, Duration := dur, KeyFrame := key, Data := data\<rparr>"

definition stampTrack :: "duration \<Rightarrow> duration \<Rightarrow> rtspTrack \<Rightarrow> rtspTrack" where
  "stampTrack dts dur t = t\<lparr>rt_lastDTS := dts, rt_haveLastDTS := True, rt_lastDur := dur\<rparr>"

datatype decode_error = DecH264 rtp_error | DecH265 h265_rtp_error | DecAAC aac_rtp_error | DecNeedMore | errMissingAACDepacketizer

type_synonym decoded = "((decode_error + packet list) \<times> rtspTrack) option"

definition decodeH264 :: "rtp_packet \<Rightarrow> duration \<Rightarrow> rtspTrack \<Rightarrow> decoded" where
  "decodeH264 pkt dts t =
    (case h264_Decode pkt (rt_h264Decoder t) of
       (Inl e, dec) \<Rightarrow> Some (Inl (DecH264 e), t\<lparr>rt_h264Decoder := dec\<rparr>)
     | (Inr nalus, dec) \<Rightarrow>
         let t1 = t\<lparr>rt_h264Decoder := dec\<rparr> in
         if length nalus = 0 then Some (Inr [], t1)
         else let payload = nalus_AnnexBToAVCC nalus in
           (case estimateDuration payload dts t1 of
              None \<Rightarrow> None
            | Some dur \<Rightarrow>
                Some (Inr [mediaPacket t1 H264 dts dur (h264AccessUnitIsKeyFrame nalus) payload], stampTrack dts dur t1)))"

definition decodeH265 :: "rtp_packet \<Rightarrow> duration \<Rightarrow> rtspTrack \<Rightarrow> decoded" where
  "decodeH265 pkt dts t =
    (case PushRTP (rtp_Payload pkt) (rt_h265Parser t) of
       None \<Rightarrow> None
     | Some (Inl e, p) \<Rightarrow> Some (Inl (DecH265 e), t\<lparr>rt_h265Parser := p\<rparr>)
     | Some (Inr None, p) \<Rightarrow> Some (Inl DecNeedMore, t\<lparr>rt_h265Parser := p\<rparr>)
     | Some (Inr (Some au), p) \<Rightarrow>
         let t1 = t\<lparr>rt_h265Parser := p\<rparr> in
         if length (au_NALUs au) = 0 then Some (Inl DecNeedMore, t1)
         else let payload = nalus_AnnexBToAVCC (au_NALUs au) in
           (case estimateDuration payload dts t1 of
              None \<Rightarrow> None
            | Some dur \<Rightarrow> Some (Inr [mediaPacket t1 H265 dts dur (au_KeyFrame au) payload], stampTrack dts dur t1)))"

fun aacPackets :: "bytes list \<Rightarrow> duration \<Rightarrow> rtspTrack \<Rightarrow> (packet list \<times> rtspTrack) option" where
  "aacPackets [] curDTS t = Some ([], t)"
| "aacPackets (au # aus) curDTS t =
    (case packetDuration au t of
       None \<Rightarrow> None
     | Some dur \<Rightarrow>
         (case aacPackets aus (wrap64 (curDTS + dur)) (stampTrack curDTS dur t) of
            None \<Rightarrow> None
          | Some (out, t') \<Rightarrow> Some (mediaPacket t (rt_codecType t) curDTS dur False au # out, t')))"

definition decodeAAC :: "rtp_packet \<Rightarrow> duration \<Rightarrow> rtspTrack \<Rightarrow> decoded" where
  "decodeAAC pkt dts t =
    (case rt_aacDecoder t of
       None \<Rightarrow> Some (Inl errMissingAACDepacketizer, t)
     | Some d \<Rightarrow>
         (case aac_Decode (rtp_Payload pkt) d of
            Inl aacPanic \<Rightarrow> None
          | Inl e \<Rightarrow> Some (Inl (DecAAC e), t)
          | Inr aus \<Rightarrow>
              if length aus = 0 then Some (Inr [], t)
              else map_option (\<lambda>(out, t'). (Inr out, t')) (aacPackets aus dts t)))"

definition decodeAudio :: "bytes \<Rightarrow> duration \<Rightarrow> rtspTrack \<Rightarrow> (packet list \<times> rtspTrack) option" where
  "decodeAudio payload dts t =
    (case packetDuration payload t of
       None \<Rightarrow> None
     | Some dur \<Rightarrow> Some ([mediaPacket t (rt_codecType t) dts dur False payload], stampTrack dts dur t))"

definition wallClockForRTP :: "u32 \<Rightarrow> rtspTrack \<Rightarrow> gotime" where
  "wallClockForRTP rtpTimestamp t =
    (if \<not> rt_haveSenderReport t \<or> rt_clockRate t \<le> 0 then 0
     else let delta = sint (rtpTimestamp - rt_srRTPBase t) in
       rt_srWallClock t + go_quot (wrap64 (delta * second)) (rt_clockRate t))"

fun stampWallClock :: "gotime \<Rightarrow> packet list \<Rightarrow> packet list" where
  "stampWallClock cur [] = []"
| "stampWallClock cur (p # ps) = p\<lparr>WallClockTime := cur\<rparr> # stampWallClock (cur + Duration p) ps"

definition applyWallClock :: "u32 \<Rightarrow> packet list \<Rightarrow> rtspTrack \<Rightarrow> packet list" where
  "applyWallClock rtpTimestamp pkts t =
    (if \<not> rt_haveSenderReport t \<or> length pkts = 0 then pkts
     else let base = wallClockForRTP rtpTimestamp t in if base = 0 then pkts else stampWallClock base pkts)"

definition decodeRTP :: "rtp_packet \<Rightarrow> rtspTrack \<Rightarrow> decoded" where
  "decodeRTP pkt t =
    (let t0 = (if rt_ssrc t = 0 then t\<lparr>rt_ssrc := rtp_SSRC pkt\<rparr> else t) in
     case decodeDTS (rtp_Timestamp pkt) t0 of
       None \<Rightarrow> None
     | Some (dts, t1) \<Rightarrow>
         let ct = rt_codecType t1 in
         (case (if ct = H264 then decodeH264 pkt dts t1
                else if ct = H265 then decodeH265 pkt dts t1
                else if ct = AAC then decodeAAC pkt dts t1
                else if ct = PCM_MULAW \<or> ct = PCM_ALAW \<or> ct = OPUS
                then map_option (\<lambda>(out, t'). (Inr out, t')) (decodeAudio (rtp_Payload pkt) dts t1)
                else Some (Inr [], t1)) of
            None \<Rightarrow> None
          | Some (Inl e, t2) \<Rightarrow> Some (Inl e, t2)
          | Some (Inr out, t2) \<Rightarrow> Some (Inr (applyWallClock (rtp_Timestamp pkt) out t2), t2)))"

fun applyReports :: "senderReport list \<Rightarrow> rtspTrack \<Rightarrow> rtspTrack" where
  "applyReports [] t = t"
| "applyReports (report # reports) t =
    (if rt_ssrc t \<noteq> 0 \<and> sr_ssrc report \<noteq> rt_ssrc t then applyReports reports t
     else applyReports reports (t\<lparr>rt_haveSenderReport := True, rt_ssrc := sr_ssrc report,
            rt_srRTPBase := sr_rtpTimestamp report, rt_srWallClock := sr_ntpTime report\<rparr>))"

definition handleRTCP :: "bytes \<Rightarrow> rtspTrack \<Rightarrow> rtcp_error option \<times> rtspTrack" where
  "handleRTCP payload t =
    (case parseSenderReports payload of Inl e \<Rightarrow> (Some e, t) | Inr reports \<Rightarrow> (None, applyReports reports t))"

definition carryOne :: "rtspTrack list \<Rightarrow> nat \<Rightarrow> rtspTrack \<Rightarrow> rtspTrack" where
  "carryOne oldTracks i next =
    (let found = find (\<lambda>c. rt_codecType c = rt_codecType next \<and> rt_controlURL c = rt_controlURL next) oldTracks;
         prev = (if found = None \<and> i < length oldTracks \<and> rt_codecType (oldTracks ! i) = rt_codecType next
                 then Some (oldTracks ! i) else found)
     in case prev of
          None \<Rightarrow> next
        | Some p \<Rightarrow>
            if \<not> rt_haveLastDTS p then next
            else next\<lparr>rt_dtsBase := wrap64 (rt_lastDTS p + rt_lastDur p), rt_lastDur := rt_lastDur p\<rparr>)"

definition carryTrackState :: "rtspTrack list \<Rightarrow> rtspTrack list \<Rightarrow> rtspTrack list" where
  "carryTrackState oldTracks newTracks = map (\<lambda>(i, next). carryOne oldTracks i next) (enumerate 0 newTracks)"


subsection \<open>The timeline\<close>

text \<open>
  The sender's clock counts without bound; a packet carries its low 32 bits.  A track is on the clock at \<open>x\<close>,
  having started at \<open>x0\<close>, if it has counted the difference.
\<close>

definition onClock :: "int \<Rightarrow> int \<Rightarrow> rtspTrack \<Rightarrow> bool" where
  "onClock x0 x t \<longleftrightarrow> rt_haveRTPBase t \<and> rt_lastRTP t = word_of_int x \<and> rt_totalRTP t = x - x0"

definition dtsAt :: "rtspTrack \<Rightarrow> int \<Rightarrow> duration" where
  "dtsAt t ticks = wrap64 (rt_dtsBase t + go_quot (wrap64 (ticks * second)) (rt_clockRate t))"

lemma decodeDTS_first:
  "\<not> rt_haveRTPBase t \<Longrightarrow>
    decodeDTS (word_of_int x) t = Some (rt_dtsBase t, t\<lparr>rt_haveRTPBase := True, rt_lastRTP := word_of_int x, rt_totalRTP := 0\<rparr>)"
  by (simp add: decodeDTS_def)

lemma decodeDTS_next:
  assumes "onClock x0 x t" and "\<bar>x' - x\<bar> < 2 ^ 31" and "in64 (x' - x0)" and "rt_clockRate t \<noteq> 0"
  shows "decodeDTS (word_of_int x') t =
    Some (if rt_haveLastDTS t \<and> dtsAt t (x' - x0) < rt_lastDTS t then rt_lastDTS t else dtsAt t (x' - x0),
          t\<lparr>rt_totalRTP := x' - x0, rt_lastRTP := word_of_int x'\<rparr>)"
proof -
  have "sint (word_of_int x' - word_of_int x :: u32) = wrap32 (x' - x)"
    by (simp flip: sint_of_int32)
  also have "\<dots> = x' - x"
    using assms(2) by (intro wrap32_id) (auto simp: in32_def)
  finally have "wrap64 (rt_totalRTP t + sint (word_of_int x' - rt_lastRTP t)) = x' - x0"
    using assms(1,3) by (simp add: onClock_def wrap64_id)
  then show ?thesis
    using assms(1,4) by (simp add: decodeDTS_def onClock_def dtsAt_def Let_def)
qed

lemma dtsAt_exact:
  assumes "0 \<le> ticks" and "ticks \<le> 9223372036" and "0 < rt_clockRate t" and "0 \<le> rt_dtsBase t" and "rt_dtsBase t \<le> 2 ^ 62"
    and "2 \<le> rt_clockRate t"
  shows "dtsAt t ticks = rt_dtsBase t + ticks * second div rt_clockRate t"
proof -
  have w: "wrap64 (ticks * second) = ticks * second"
    using assms(1,2) by (intro wrap64_id) (simp add: in64_def second_def)
  have q: "go_quot (ticks * second) (rt_clockRate t) = ticks * second div rt_clockRate t"
    using assms(1,3) by (intro go_quot_nonneg) (simp_all add: second_def)
  have "ticks * second div rt_clockRate t \<le> ticks * second div 2"
    using assms(1,6) by (intro zdiv_mono2) (simp_all add: second_def)
  also have "\<dots> \<le> 9223372036 * second div 2"
    using assms(2) by (intro zdiv_mono1) (simp_all add: second_def)
  finally have "ticks * second div rt_clockRate t < 2 ^ 62"
    by (simp add: second_def)
  moreover have "0 \<le> ticks * second div rt_clockRate t"
    using assms(1,3) by (simp add: second_def pos_imp_zdiv_nonneg_iff)
  ultimately have "in64 (rt_dtsBase t + ticks * second div rt_clockRate t)"
    using assms(4,5) by (simp add: in64_def)
  then show ?thesis
    by (simp add: dtsAt_def w q wrap64_id)
qed

text \<open>
  C35. The clock stops.  The product of the tick count and \<^verbatim>\<open>time.Second\<close> overflows 64 bits at 9223372037 ticks, for
  a 90 kHz video clock after 28 hours, 28 minutes and 1 second.  From then on, for as long again, every packet gets the
  decode time of the last one before: the track's timeline stands still.
\<close>

theorem rtp_clock_freezes:
  assumes "onClock x0 x t" and "\<bar>x' - x\<bar> < 2 ^ 31" and "9223372037 \<le> x' - x0" and "x' - x0 \<le> 18446744073"
    and "0 < rt_clockRate t" and "rt_haveLastDTS t" and "0 \<le> rt_dtsBase t" and "rt_dtsBase t \<le> rt_lastDTS t" and "in64 (rt_lastDTS t)"
  shows "map_option fst (decodeDTS (word_of_int x') t) = Some (rt_lastDTS t)"
proof -
  define p where "p = (x' - x0) * second"
  have p: "2 ^ 63 \<le> p" "p < 2 ^ 64"
    using assms(3,4) by (simp_all add: p_def second_def)
  have "wrap64 p = wrap64 (p - 2 ^ 64)"
    unfolding wrap64_def by (intro signed_take_bit_eq_iff_take_bit_eq [THEN iffD2]) (simp add: take_bit_eq_mod)
  also have "\<dots> = p - 2 ^ 64"
    using p by (intro wrap64_id) (simp add: in64_def)
  finally have w: "wrap64 p = p - 2 ^ 64" .
  define q where "q = go_quot (wrap64 p) (rt_clockRate t)"
  have q: "q \<le> 0" "- (2 ^ 63) \<le> q"
  proof -
    have "\<bar>p - 2 ^ 64\<bar> div \<bar>rt_clockRate t\<bar> \<le> \<bar>p - 2 ^ 64\<bar>"
      using zdiv_mono2 [of "\<bar>p - 2 ^ 64\<bar>" 1 "\<bar>rt_clockRate t\<bar>"] assms(5) by simp
    moreover have "0 \<le> \<bar>p - 2 ^ 64\<bar> div \<bar>rt_clockRate t\<bar>"
      using assms(5) by (simp add: pos_imp_zdiv_nonneg_iff)
    ultimately show "q \<le> 0" "- (2 ^ 63) \<le> q"
      using p w assms(5) by (auto simp: q_def go_quot_def sgn_if)
  qed
  have "dtsAt t (x' - x0) = rt_dtsBase t + q"
    using q assms(7-9) unfolding dtsAt_def p_def [symmetric] q_def [symmetric] by (intro wrap64_id) (simp add: in64_def)
  then show ?thesis
    using decodeDTS_next [OF assms(1,2)] assms(3-6,8) q by (auto simp: in64_def)
qed


definition ex_videoTrack :: rtspTrack where
  "ex_videoTrack = (blankTrack 0 (SdpOther H264))\<lparr>rt_haveRTPBase := True, rt_lastRTP := word_of_int 9223372000,
     rt_totalRTP := 9223372000, rt_haveLastDTS := True, rt_lastDTS := 102481911111111\<rparr>"

theorem rtp_clock_freezes_witness:
  "map_option fst (decodeDTS (word_of_int 9223375000) ex_videoTrack) = Some 102481911111111"
  using rtp_clock_freezes [of 0 9223372000 ex_videoTrack 9223375000]
  by (simp add: ex_videoTrack_def blankTrack_def onClock_def in64_def)

subsection \<open>Decoding a stream\<close>

fun decodeRTPs :: "rtp_packet list \<Rightarrow> rtspTrack \<Rightarrow> ((decode_error + packet list) list \<times> rtspTrack) option" where
  "decodeRTPs [] t = Some ([], t)"
| "decodeRTPs (p # ps) t =
    (case decodeRTP p t of
       None \<Rightarrow> None
     | Some (r, t1) \<Rightarrow> (case decodeRTPs ps t1 of None \<Rightarrow> None | Some (rs, t2) \<Rightarrow> Some (r # rs, t2)))"

definition pcmTrack :: "rtspTrack \<Rightarrow> bool" where
  "pcmTrack t \<longleftrightarrow> (rt_codecType t = PCM_MULAW \<or> rt_codecType t = PCM_ALAW) \<and>
    (\<exists>a ct r. rt_audioCodec t = Some a \<and> ra_AudioCodec a = PcmAudio ct r \<and> r \<noteq> 0)"

lemma codec_types_distinct:
  "PCM_MULAW \<noteq> H264" "PCM_MULAW \<noteq> H265" "PCM_MULAW \<noteq> AAC" "PCM_ALAW \<noteq> H264" "PCM_ALAW \<noteq> H265" "PCM_ALAW \<noteq> AAC" "H265 \<noteq> H264"
  by (simp_all add: PCM_MULAW_def PCM_ALAW_def H264_def H265_def AAC_def MakeAudioCodecType_def MakeVideoCodecType_def avCodecTypeMagic_def)

lemma stampWallClock_keeps:
  "map DTS (stampWallClock c ps) = map DTS ps" "map Data (stampWallClock c ps) = map Data ps"
  "map KeyFrame (stampWallClock c ps) = map KeyFrame ps" "length (stampWallClock c ps) = length ps"
  by (induction ps arbitrary: c) simp_all

lemma applyWallClock_keeps:
  "map DTS (applyWallClock ts ps t) = map DTS ps" "map Data (applyWallClock ts ps t) = map Data ps"
  "map KeyFrame (applyWallClock ts ps t) = map KeyFrame ps" "length (applyWallClock ts ps t) = length ps"
  by (simp_all add: applyWallClock_def stampWallClock_keeps Let_def)

lemma decodeRTP_pcm:
  assumes "pcmTrack t" and "decodeDTS (rtp_Timestamp pkt) t = Some (dts, t1)"
    and frame: "\<And>s. decodeDTS (rtp_Timestamp pkt) (t\<lparr>rt_ssrc := s\<rparr>) = Some (dts, t1\<lparr>rt_ssrc := s\<rparr>)"
    and "rt_codecType t1 = rt_codecType t" and "rt_audioCodec t1 = rt_audioCodec t"
  shows "\<exists>p s dur. decodeRTP pkt t = Some (Inr [p], stampTrack dts dur (t1\<lparr>rt_ssrc := s\<rparr>)) \<and> DTS p = dts \<and> Data p = rtp_Payload pkt"
proof -
  define s where "s = (if rt_ssrc t = 0 then rtp_SSRC pkt else rt_ssrc t)"
  have t0: "(if rt_ssrc t = 0 then t\<lparr>rt_ssrc := rtp_SSRC pkt\<rparr> else t) = t\<lparr>rt_ssrc := s\<rparr>"
    by (simp add: s_def)
  let ?t1 = "t1\<lparr>rt_ssrc := s\<rparr>"
  obtain dur where dur: "packetDuration (rtp_Payload pkt) ?t1 = Some dur"
    using assms(1,5) by (auto simp: pcmTrack_def packetDuration_def Let_def)
  let ?p = "mediaPacket ?t1 (rt_codecType ?t1) dts dur False (rtp_Payload pkt)"
  obtain p where p: "applyWallClock (rtp_Timestamp pkt) [?p] (stampTrack dts dur ?t1) = [p]"
    using applyWallClock_keeps(4) [of "rtp_Timestamp pkt" "[?p]" "stampTrack dts dur ?t1"] by (auto simp: length_Suc_conv)
  have "DTS p = dts" "Data p = rtp_Payload pkt"
    using applyWallClock_keeps(1,2) [of "rtp_Timestamp pkt" "[?p]" "stampTrack dts dur ?t1"] p by (simp_all add: mediaPacket_def)
  moreover have "decodeRTP pkt t = Some (Inr [p], stampTrack dts dur ?t1)"
    using assms(1,4) frame [of s] dur p codec_types_distinct
    by (auto simp: decodeRTP_def t0 Let_def pcmTrack_def decodeAudio_def)
  ultimately show ?thesis
    by blast
qed


definition timeOf :: "rtspTrack \<Rightarrow> int \<Rightarrow> duration" where
  "timeOf t ticks = rt_dtsBase t + ticks * second div rt_clockRate t"

definition clock_ok :: "rtspTrack \<Rightarrow> bool" where
  "clock_ok t \<longleftrightarrow> 2 \<le> rt_clockRate t \<and> 0 \<le> rt_dtsBase t \<and> rt_dtsBase t \<le> 2 ^ 62"

fun steps_ok :: "int \<Rightarrow> int list \<Rightarrow> bool" where
  "steps_ok x [] \<longleftrightarrow> True"
| "steps_ok x (y # ys) \<longleftrightarrow> x \<le> y \<and> y - x < 2 ^ 31 \<and> steps_ok y ys"

lemma pcm_run:
  assumes "pcmTrack t" and "clock_ok t" and "onClock x0 x t" and "rt_haveLastDTS t" and "rt_lastDTS t = timeOf t (x - x0)"
    and "map rtp_Timestamp ps = map word_of_int xs" and "steps_ok x xs" and "x0 \<le> x" and "\<forall>y \<in> set xs. y - x0 \<le> 9223372036"
  shows "\<exists>out t'. decodeRTPs ps t = Some (map (\<lambda>p. Inr [p]) out, t') \<and>
    map DTS out = map (\<lambda>y. timeOf t (y - x0)) xs \<and> map Data out = map rtp_Payload ps"
  using assms
proof (induction xs arbitrary: ps t x)
  case (Cons y xs)
  then obtain p qs where ps: "ps = p # qs" "rtp_Timestamp p = word_of_int y" "map rtp_Timestamp qs = map word_of_int xs"
    by auto
  have y: "x \<le> y" "y - x < 2 ^ 31" "0 \<le> y - x0" "y - x0 \<le> 9223372036" "steps_ok y xs"
    using Cons.prems(7-9) by auto
  have rate: "0 < rt_clockRate t" "rt_clockRate t \<noteq> 0"
    using Cons.prems(2) by (auto simp: clock_ok_def)
  have exact: "dtsAt t (y - x0) = timeOf t (y - x0)"
    using dtsAt_exact [of "y - x0" t] y Cons.prems(2) by (simp add: clock_ok_def timeOf_def)
  have "(x - x0) * second div rt_clockRate t \<le> (y - x0) * second div rt_clockRate t"
    using y(1) rate by (intro zdiv_mono1) (simp_all add: second_def)
  then have mono: "\<not> timeOf t (y - x0) < rt_lastDTS t"
    using Cons.prems(5) by (simp add: timeOf_def)
  define t1 where "t1 = t\<lparr>rt_totalRTP := y - x0, rt_lastRTP := word_of_int y\<rparr>"
  have dec: "decodeDTS (rtp_Timestamp p) (t\<lparr>rt_ssrc := s\<rparr>) = Some (timeOf t (y - x0), t1\<lparr>rt_ssrc := s\<rparr>)" for s
  proof -
    have "onClock x0 x (t\<lparr>rt_ssrc := s\<rparr>)"
      using Cons.prems(3) by (simp add: onClock_def)
    from decodeDTS_next [OF this, of y] show ?thesis
      using y rate exact mono ps(2) by (simp add: dtsAt_def t1_def in64_def)
  qed
  have dec0: "decodeDTS (rtp_Timestamp p) t = Some (timeOf t (y - x0), t1)"
    using dec [of "rt_ssrc t"] by (simp add: t1_def)
  obtain q s dur where q: "decodeRTP p t = Some (Inr [q], stampTrack (timeOf t (y - x0)) dur (t1\<lparr>rt_ssrc := s\<rparr>))"
    "DTS q = timeOf t (y - x0)" "Data q = rtp_Payload p"
    using decodeRTP_pcm [OF Cons.prems(1) dec0 dec] by (auto simp: t1_def)
  define t2 where "t2 = stampTrack (timeOf t (y - x0)) dur (t1\<lparr>rt_ssrc := s\<rparr>)"
  have t2: "pcmTrack t2" "clock_ok t2" "onClock x0 y t2" "rt_haveLastDTS t2" "rt_lastDTS t2 = timeOf t2 (y - x0)" "timeOf t2 = timeOf t"
    using Cons.prems(1,2,3)
    by (auto simp: t2_def t1_def stampTrack_def pcmTrack_def clock_ok_def onClock_def timeOf_def)
  obtain out t' where out: "decodeRTPs qs t2 = Some (map (\<lambda>p. Inr [p]) out, t')"
    "map DTS out = map (\<lambda>y. timeOf t (y - x0)) xs" "map Data out = map rtp_Payload qs"
    using Cons.IH [OF t2(1-5) ps(3) y(5)] y(3) Cons.prems(9) unfolding t2(6) by auto
  show ?case
    using q out ps(1) by (intro exI [of _ "q # out"] exI [of _ t']) (simp add: t2_def [symmetric])
qed auto

text \<open>
  C36. The timeline of a track.  Let the sender's clock, counted without bound, not run backwards, advance by
  less than \<open>2^31\<close> ticks between packets and by at most 9223372036 ticks in all; a packet carries the clock modulo
  \<open>2^32\<close>.  A new G.711 track then turns every RTP packet into one packet with its payload, whose decode time is
  exactly the elapsed clock in nanoseconds, across any number of wrap-arounds of the RTP timestamp.
\<close>

theorem pcm_timeline:
  assumes "pcmTrack t" and "clock_ok t" and "\<not> rt_haveRTPBase t" and "map rtp_Timestamp ps = map word_of_int (x0 # xs)"
    and "steps_ok x0 xs" and "\<forall>y \<in> set xs. y - x0 \<le> 9223372036"
  shows "\<exists>out t'. decodeRTPs ps t = Some (map (\<lambda>p. Inr [p]) out, t') \<and>
    map DTS out = map (\<lambda>y. rt_dtsBase t + (y - x0) * second div rt_clockRate t) (x0 # xs) \<and> map Data out = map rtp_Payload ps"
proof -
  obtain p qs where ps: "ps = p # qs" "rtp_Timestamp p = word_of_int x0" "map rtp_Timestamp qs = map word_of_int xs"
    using assms(4) by auto
  define t1 where "t1 = t\<lparr>rt_haveRTPBase := True, rt_lastRTP := word_of_int x0, rt_totalRTP := 0\<rparr>"
  have dec: "decodeDTS (rtp_Timestamp p) (t\<lparr>rt_ssrc := s\<rparr>) = Some (rt_dtsBase t, t1\<lparr>rt_ssrc := s\<rparr>)" for s
    using decodeDTS_first [of "t\<lparr>rt_ssrc := s\<rparr>"] assms(3) ps(2) by (simp add: t1_def)
  have "decodeDTS (rtp_Timestamp p) t = Some (rt_dtsBase t, t1)"
    using decodeDTS_first [of t] assms(3) ps(2) by (simp add: t1_def)
  then obtain q s dur where q: "decodeRTP p t = Some (Inr [q], stampTrack (rt_dtsBase t) dur (t1\<lparr>rt_ssrc := s\<rparr>))"
    "DTS q = rt_dtsBase t" "Data q = rtp_Payload p"
    using decodeRTP_pcm [OF assms(1) _ dec] by (auto simp: t1_def)
  define t2 where "t2 = stampTrack (rt_dtsBase t) dur (t1\<lparr>rt_ssrc := s\<rparr>)"
  have t2: "pcmTrack t2" "clock_ok t2" "onClock x0 x0 t2" "rt_haveLastDTS t2" "rt_lastDTS t2 = timeOf t2 (x0 - x0)"
    "timeOf t2 = timeOf t"
    using assms(1,2) by (auto simp: t2_def t1_def stampTrack_def pcmTrack_def clock_ok_def onClock_def timeOf_def)
  obtain out t' where out: "decodeRTPs qs t2 = Some (map (\<lambda>p. Inr [p]) out, t')"
    "map DTS out = map (\<lambda>y. timeOf t (y - x0)) xs" "map Data out = map rtp_Payload qs"
    using pcm_run [OF t2(1-5) ps(3) assms(5) order_refl assms(6)] unfolding t2(6) by auto
  show ?thesis
    using q out ps(1) by (intro exI [of _ "q # out"] exI [of _ t']) (simp add: t2_def [symmetric] timeOf_def)
qed

definition ex_pcmTrack :: rtspTrack where
  "ex_pcmTrack = (blankTrack 0 (SdpOther PCM_MULAW))\<lparr>rt_clockRate := 8000, rt_audioCodec :=
     Some \<lparr>ra_AudioCodec = PcmAudio PCM_MULAW 8000, ra_ControlURL = [], ra_ClockRate = 8000, ra_Channels = 1, ra_PayloadType = 0,
       ra_Fmtp = Map.empty\<rparr>\<rparr>"

definition ex_rtp :: "u32 \<Rightarrow> rtp_packet" where
  "ex_rtp ts = \<lparr>rtp_Payload = [0xff], rtp_SequenceNumber = 0, rtp_Timestamp = ts, rtp_Marker = False, rtp_SSRC = 1\<rparr>"

theorem pcm_timeline_witness:
  "\<exists>out t'. decodeRTPs [ex_rtp 4294967200, ex_rtp 64] ex_pcmTrack = Some (map (\<lambda>p. Inr [p]) out, t') \<and> map DTS out = [0, 20000000]"
proof -
  have "map rtp_Timestamp [ex_rtp 4294967200, ex_rtp 64] = map word_of_int (4294967200 # [4294967360])"
    by (simp add: ex_rtp_def)
  moreover have "pcmTrack ex_pcmTrack" "clock_ok ex_pcmTrack" "\<not> rt_haveRTPBase ex_pcmTrack" "rt_dtsBase ex_pcmTrack = 0" "rt_clockRate ex_pcmTrack = 8000"
    by (simp_all add: ex_pcmTrack_def blankTrack_def pcmTrack_def clock_ok_def)
  ultimately show ?thesis
    using pcm_timeline [of ex_pcmTrack "[ex_rtp 4294967200, ex_rtp 64]" 4294967200 "[4294967360]"]
    by (fastforce simp: second_def)
qed


subsection \<open>The H.264 track\<close>

definition h264Track :: "rtspTrack \<Rightarrow> bool" where
  "h264Track t \<longleftrightarrow> rt_codecType t = H264 \<and> rt_clockRate t \<noteq> 0 \<and> (\<forall>a. rt_codec t \<noteq> SdpAudio a) \<and>
    (rt_haveLastDTS t \<longrightarrow> rt_haveRTPBase t)"

definition frames :: "(decode_error + packet list) list \<Rightarrow> packet list" where
  "frames rs = concat (map (case_sum (\<lambda>_. []) id) rs)"

definition units :: "(rtp_error + bytes list) list \<Rightarrow> bytes list list" where
  "units rs = concat (map (case_sum (\<lambda>_. []) (\<lambda>ns. if ns = [] then [] else [ns])) rs)"

definition sameFrames :: "packet list \<Rightarrow> bytes list list \<Rightarrow> bool" where
  "sameFrames ps us \<longleftrightarrow> map Data ps = map nalus_AnnexBToAVCC us \<and> map KeyFrame ps = map h264AccessUnitIsKeyFrame us"

definition notBefore :: "rtspTrack \<Rightarrow> duration \<Rightarrow> bool" where
  "notBefore t d \<longleftrightarrow> (rt_haveLastDTS t \<longrightarrow> rt_lastDTS t \<le> d)"

lemma decodeDTS_h264:
  assumes "h264Track t"
  obtains dts t1 where "decodeDTS ts t = Some (dts, t1)" "h264Track t1" "rt_haveRTPBase t1" "notBefore t1 dts"
    "rt_haveLastDTS t1 = rt_haveLastDTS t" "rt_lastDTS t1 = rt_lastDTS t" "rt_h264Decoder t1 = rt_h264Decoder t"
proof -
  have "decodeDTS ts t \<noteq> None"
    using assms by (simp add: decodeDTS_def h264Track_def Let_def)
  then obtain dts t1 where "decodeDTS ts t = Some (dts, t1)"
    by fastforce
  moreover from this have "h264Track t1" "rt_haveRTPBase t1" "notBefore t1 dts" "rt_haveLastDTS t1 = rt_haveLastDTS t"
    "rt_lastDTS t1 = rt_lastDTS t" "rt_h264Decoder t1 = rt_h264Decoder t"
    using assms by (auto simp: decodeDTS_def h264Track_def notBefore_def Let_def split: if_splits)
  ultimately show ?thesis
    by (rule that)
qed

lemma estimateDuration_video: "\<forall>a. rt_codec t \<noteq> SdpAudio a \<Longrightarrow> \<exists>dur. estimateDuration data dts t = Some dur"
  by (cases "rt_codec t") (auto simp: estimateDuration_def)

lemma decodeH264_step:
  assumes "h264Track t" and "rt_haveRTPBase t" and "notBefore t dts"
  shows "\<exists>r t1. decodeH264 p dts t = Some (r, t1) \<and> h264Track t1 \<and> rt_h264Decoder t1 = snd (h264_Decode p (rt_h264Decoder t)) \<and>
    sameFrames (frames [r]) (units [fst (h264_Decode p (rt_h264Decoder t))]) \<and>
    (\<forall>q \<in> set (frames [r]). DTS q = dts \<and> notBefore t dts \<and> rt_haveLastDTS t1 \<and> rt_lastDTS t1 = dts) \<and>
    (frames [r] = [] \<longrightarrow> rt_haveLastDTS t1 = rt_haveLastDTS t \<and> rt_lastDTS t1 = rt_lastDTS t)"
proof -
  obtain r dec where d: "h264_Decode p (rt_h264Decoder t) = (r, dec)"
    by fastforce
  let ?t1 = "t\<lparr>rt_h264Decoder := dec\<rparr>"
  have t1: "h264Track ?t1"
    using assms(1) by (simp add: h264Track_def)
  show ?thesis
  proof (cases r)
    case (Inl e)
    then show ?thesis
      using d t1 by (simp add: decodeH264_def frames_def units_def sameFrames_def)
  next
    case (Inr ns)
    obtain dur where "estimateDuration (nalus_AnnexBToAVCC ns) dts ?t1 = Some dur"
      using estimateDuration_video [of ?t1] t1 unfolding h264Track_def by blast
    then show ?thesis
      using d t1 Inr assms
      by (simp add: decodeH264_def frames_def units_def sameFrames_def Let_def stampTrack_def mediaPacket_def h264Track_def)
  qed
qed

lemma sameFrames_keeps:
  "sameFrames out us \<Longrightarrow> sameFrames (applyWallClock ts out t) us"
  by (simp add: sameFrames_def applyWallClock_keeps)

lemma decodeRTP_h264:
  assumes "h264Track t"
  shows "\<exists>r t1. decodeRTP p t = Some (r, t1) \<and> h264Track t1 \<and> rt_h264Decoder t1 = snd (h264_Decode p (rt_h264Decoder t)) \<and>
    sameFrames (frames [r]) (units [fst (h264_Decode p (rt_h264Decoder t))]) \<and>
    (\<forall>q \<in> set (frames [r]). notBefore t (DTS q) \<and> rt_haveLastDTS t1 \<and> rt_lastDTS t1 = DTS q) \<and>
    (frames [r] = [] \<longrightarrow> rt_haveLastDTS t1 = rt_haveLastDTS t \<and> rt_lastDTS t1 = rt_lastDTS t)"
proof -
  define t0 where "t0 = (if rt_ssrc t = 0 then t\<lparr>rt_ssrc := rtp_SSRC p\<rparr> else t)"
  have t0: "h264Track t0" "rt_h264Decoder t0 = rt_h264Decoder t" "rt_haveLastDTS t0 = rt_haveLastDTS t" "rt_lastDTS t0 = rt_lastDTS t"
    using assms by (auto simp: t0_def h264Track_def)
  obtain dts t1 where t1: "decodeDTS (rtp_Timestamp p) t0 = Some (dts, t1)" "h264Track t1" "rt_haveRTPBase t1" "notBefore t1 dts"
    "rt_haveLastDTS t1 = rt_haveLastDTS t0" "rt_lastDTS t1 = rt_lastDTS t0" "rt_h264Decoder t1 = rt_h264Decoder t0"
    using decodeDTS_h264 [OF t0(1)] by metis
  obtain r t2 where r: "decodeH264 p dts t1 = Some (r, t2)" "h264Track t2" "rt_h264Decoder t2 = snd (h264_Decode p (rt_h264Decoder t))"
    "sameFrames (frames [r]) (units [fst (h264_Decode p (rt_h264Decoder t))])"
    "\<forall>q \<in> set (frames [r]). DTS q = dts \<and> rt_haveLastDTS t2 \<and> rt_lastDTS t2 = dts"
    "frames [r] = [] \<longrightarrow> rt_haveLastDTS t2 = rt_haveLastDTS t \<and> rt_lastDTS t2 = rt_lastDTS t"
    using decodeH264_step [OF t1(2-4), of p] unfolding t1(5-7) t0(2-4) by blast
  define r' where "r' = (case r of Inl e \<Rightarrow> Inl e | Inr out \<Rightarrow> Inr (applyWallClock (rtp_Timestamp p) out t2))"
  have "decodeRTP p t = Some (r', t2)"
    using t1(1,2) r(1) by (cases r) (simp_all add: decodeRTP_def t0_def [symmetric] h264Track_def r'_def)
  moreover have dts: "map DTS (frames [r']) = map DTS (frames [r])"
    by (cases r) (simp_all add: r'_def frames_def applyWallClock_keeps)
  moreover have "sameFrames (frames [r']) (units [fst (h264_Decode p (rt_h264Decoder t))])"
    using r(4) by (cases r) (simp_all add: r'_def frames_def sameFrames_keeps)
  moreover have "notBefore t dts"
    using t1(4-6) t0(3,4) by (simp add: notBefore_def)
  moreover have "DTS q = dts \<and> rt_haveLastDTS t2 \<and> rt_lastDTS t2 = dts" if "q \<in> set (frames [r'])" for q
  proof -
    have "DTS q \<in> DTS ` set (frames [r])"
      using that dts by (metis image_eqI list.set_map)
    then show ?thesis
      using r(5) by auto
  qed
  moreover have "frames [r'] = [] \<longleftrightarrow> frames [r] = []"
    using dts by (metis list.map_disc_iff)
  ultimately show ?thesis
    using r(2,3,6) by auto
qed

lemma decodeRTPs_h264:
  "h264Track t \<Longrightarrow> \<exists>rs t'. decodeRTPs ps t = Some (rs, t') \<and>
    sameFrames (frames rs) (units (fst (decodeAll ps (rt_h264Decoder t)))) \<and>
    sorted (map DTS (frames rs)) \<and> (\<forall>q \<in> set (frames rs). notBefore t (DTS q))"
proof (induction ps arbitrary: t)
  case Nil
  then show ?case
    by (simp add: frames_def units_def sameFrames_def)
next
  case (Cons p ps)
  obtain r t1 where r: "decodeRTP p t = Some (r, t1)" "h264Track t1" "rt_h264Decoder t1 = snd (h264_Decode p (rt_h264Decoder t))"
    "sameFrames (frames [r]) (units [fst (h264_Decode p (rt_h264Decoder t))])"
    "\<forall>q \<in> set (frames [r]). notBefore t (DTS q) \<and> rt_haveLastDTS t1 \<and> rt_lastDTS t1 = DTS q"
    "frames [r] = [] \<longrightarrow> rt_haveLastDTS t1 = rt_haveLastDTS t \<and> rt_lastDTS t1 = rt_lastDTS t"
    using decodeRTP_h264 [OF Cons.prems, of p] by blast
  obtain rs t' where rs: "decodeRTPs ps t1 = Some (rs, t')"
    "sameFrames (frames rs) (units (fst (decodeAll ps (rt_h264Decoder t1))))"
    "sorted (map DTS (frames rs))" "\<forall>q \<in> set (frames rs). notBefore t1 (DTS q)"
    using Cons.IH [OF r(2)] by blast
  have split: "frames (r # rs) = frames [r] @ frames rs"
    "units (fst (decodeAll (p # ps) (rt_h264Decoder t))) =
      units [fst (h264_Decode p (rt_h264Decoder t))] @ units (fst (decodeAll ps (rt_h264Decoder t1)))"
    by (simp_all add: frames_def units_def split_beta r(3))
  have later: "notBefore t (DTS q)" if "q \<in> set (frames rs)" for q
    using that rs(4) r(5,6) by (cases "frames [r]") (fastforce simp: notBefore_def)+
  have "sorted (map DTS (frames [r]))"
    unfolding sorted_iff_nth_mono using r(5) by (metis (no_types, lifting) length_map le_less_trans nth_map nth_mem order_refl)
  then have "sorted (map DTS (frames (r # rs)))"
    unfolding split(1) using r(5) rs(3,4) by (force simp: sorted_append notBefore_def)
  moreover have "sameFrames (frames (r # rs)) (units (fst (decodeAll (p # ps) (rt_h264Decoder t))))"
    unfolding split using r(4) rs(2) by (simp add: sameFrames_def)
  moreover have "\<forall>q \<in> set (frames (r # rs)). notBefore t (DTS q)"
    unfolding split(1) using r(5) later by auto
  ultimately show ?case
    using r(1) rs(1) by simp
qed

definition auNALUs :: "u32 \<times> pay_unit list \<Rightarrow> bytes list" where
  "auNALUs au = concat (map unitNALUs (snd au))"

lemma unit_ok_NALUs: "unit_ok u \<Longrightarrow> unitNALUs u \<noteq> [] \<and> (\<forall>n \<in> set (unitNALUs u). n \<noteq> [])"
  by (cases u) auto

lemma auNALUs_nonempty:
  assumes "us \<noteq> []" and "\<forall>u \<in> set us. unit_ok u"
  shows "auNALUs (ts, us) \<noteq> [] \<and> (\<forall>n \<in> set (auNALUs (ts, us)). n \<noteq> [])"
  using assms unit_ok_NALUs by (cases us) (auto simp: auNALUs_def)

lemma units_expectedResults:
  "\<forall>(ts, us) \<in> set aus. us \<noteq> [] \<and> (\<forall>u \<in> set us. unit_ok u) \<Longrightarrow> units (expectedResults aus) = map auNALUs aus"
proof (induction aus)
  case (Cons au aus)
  then show ?case
    using auNALUs_nonempty [of "snd au" "fst au"]
    by (auto simp: units_def expectedResults_def auNALUs_def split_beta)
qed (simp add: units_def expectedResults_def)

lemma h264AccessUnitIsKeyFrame_iff:
  "h264AccessUnitIsKeyFrame ns \<longleftrightarrow> (\<exists>n \<in> set ns. n \<noteq> [] \<and> hd n AND 0x1F = 5)"
  by (induction ns) (auto simp: hd_conv_nth)

lemma au_ok_small: "au_ok ns \<Longrightarrow> n \<in> set ns \<Longrightarrow> length n < 2 ^ 32"
  using sum_list_map_remove1 [of n ns length]
  by (auto simp: au_ok_def maxH264AccessUnitSize_def length_concat)

text \<open>
  C10. The H.264 track.  Let a sender transmit any sequence of access units, packetized in any of the ways of the
  depacketizer's property and with any timestamps.  A new H.264 track then hands out exactly one packet per
  access unit, in order: its data, read as length-prefixed NAL units, are the NAL units of the access unit, it is a
  key frame just when one of them is an IDR slice, and decode times never decrease.
\<close>

theorem h264_track:
  assumes "newTrack idx (SdpH264 c u) = Inr t"
    and "\<forall>(ts, us) \<in> set aus. us \<noteq> [] \<and> (\<forall>u \<in> set us. unit_ok u) \<and> au_ok (concat (map unitNALUs us))"
  shows "\<exists>rs t'. decodeRTPs (streamPackets seq aus) t = Some (rs, t') \<and>
    map (nalus_AVCCToAnnexB \<circ> Data) (frames rs) = map auNALUs aus \<and>
    map KeyFrame (frames rs) = map (\<lambda>au. \<exists>n \<in> set (auNALUs au). hd n AND 0x1F = 5) aus \<and>
    sorted (map DTS (frames rs))"
proof -
  have t: "h264Track t" "rt_h264Decoder t = newH264RTPDecoder"
    using assms(1) by (auto simp: h264Track_def blankTrack_def)
  have "fst (decodeAll (streamPackets seq aus) newH264RTPDecoder) = expectedResults aus"
    using decodeAll_stream [OF _ assms(2)] by (simp add: newH264RTPDecoder_def collecting_def h264_inv_def)
  moreover have "units (expectedResults aus) = map auNALUs aus"
    using assms(2) by (intro units_expectedResults) auto
  ultimately obtain rs t' where rs: "decodeRTPs (streamPackets seq aus) t = Some (rs, t')"
    "sameFrames (frames rs) (map auNALUs aus)" "sorted (map DTS (frames rs))"
    using decodeRTPs_h264 [OF t(1), of "streamPackets seq aus"] unfolding t(2) by auto
  have "nalus_AVCCToAnnexB (nalus_AnnexBToAVCC (auNALUs au)) = auNALUs au" if "au \<in> set aus" for au
    using AVCCToAnnexBFrom_avcc [of 0 _ "auNALUs au"] au_ok_small [of "auNALUs au"] assms(2) that
    by (fastforce simp: nalus_AVCCToAnnexB_def auNALUs_def)
  then have "map (nalus_AVCCToAnnexB \<circ> Data) (frames rs) = map auNALUs aus"
    using rs(2) unfolding sameFrames_def map_map [symmetric] by (simp add: comp_def)
  moreover have "h264AccessUnitIsKeyFrame (auNALUs au) \<longleftrightarrow> (\<exists>n \<in> set (auNALUs au). hd n AND 0x1F = 5)" if "au \<in> set aus" for au
    using assms(2) that auNALUs_nonempty [of "snd au" "fst au"] unfolding h264AccessUnitIsKeyFrame_iff by fastforce
  ultimately show ?thesis
    using rs by (simp add: sameFrames_def)
qed


definition ex_h264Codec :: h264_codec where
  "ex_h264Codec =
    \<lparr>h264_Record = [], h264_RecordInfo =
       \<lparr>AVCProfileIndication = 66, ProfileCompatibility = 192, AVCLevelIndication = 30, AVCLengthSizeMinusOne = 3, AVC_SPS = [], AVC_PPS = []\<rparr>,
     h264_SPSInfo =
       \<lparr>h264_ID = 0, h264_ProfileIdc = 66, h264_LevelIdc = 30, h264_ConstraintSetFlag = 0, h264_MbWidth = 20, h264_MbHeight = 15,
        h264_CropLeft = 0, h264_CropRight = 0, h264_CropTop = 0, h264_CropBottom = 0, h264_SPSWidth = 320, h264_SPSHeight = 240,
        h264_SPSFPS = 0\<rparr>, h264_ControlURL = ''trackID=1''\<rparr>"

definition ex_h264Track :: rtspTrack where
  "ex_h264Track = (blankTrack 0 (SdpH264 ex_h264Codec ''trackID=1''))\<lparr>rt_controlURL := ''trackID=1''\<rparr>"

definition ex_aus :: "(u32 \<times> pay_unit list) list" where
  "ex_aus = [(7, [Single [0x67, 1], Fua 0x65 [[2], [3]]]), (3007, [Single [0x41, 9]])]"

theorem h264_track_witness:
  "\<exists>rs t'. decodeRTPs (streamPackets 65535 ex_aus) ex_h264Track = Some (rs, t') \<and>
    map (nalus_AVCCToAnnexB \<circ> Data) (frames rs) = [[[0x67, 1], [0x65, 2, 3]], [[0x41, 9]]] \<and> map KeyFrame (frames rs) = [True, False] \<and>
    sorted (map DTS (frames rs))"
proof -
  have t: "newTrack 0 (SdpH264 ex_h264Codec ''trackID=1'') = Inr ex_h264Track"
    by (simp add: ex_h264Track_def)
  have ok: "\<forall>(ts, us) \<in> set ex_aus. us \<noteq> [] \<and> (\<forall>u \<in> set us. unit_ok u) \<and> au_ok (concat (map unitNALUs us))"
    by (simp add: ex_aus_def au_ok_def clean_def StartCode3_def h264TypeFUA_def h264TypeSTAPA_def
        maxH264NALUsPerAU_def maxH264AccessUnitSize_def less_Suc_eq)
  have aus: "map auNALUs ex_aus = [[[0x67, 1], [0x65, 2, 3]], [[0x41, 9]]]"
    "map (\<lambda>au. \<exists>n \<in> set (auNALUs au). hd n AND 0x1F = 5) ex_aus = [True, False]"
    by (simp_all add: ex_aus_def auNALUs_def)
  from h264_track [OF t ok, of 65535] show ?thesis
    unfolding aus .
qed

end
