(* ===== verification/Packet_Buffer.thy ===== *)
theory Packet_Buffer
  imports Av_Types
begin

text \<open>
  The two sliding windows of the program: \<^verbatim>\<open>av/packetbuf/buffer.go\<close>, which playback demuxers follow, and
  \<^verbatim>\<open>av/segment/ringbuf.go\<close>, which keeps fMP4 fragments.  Their common contract is the locale
  \<open>sliding_window\<close>.  The system of one buffer, its writer and any number of following demuxers is an
  inductive step relation in which every critical section of the code is one step.  \<^verbatim>\<open>time.Now\<close> is an
  argument of the operations that call it; a channel is named by the number of channels made before it, and
  closing the replaced channel belongs to the step that replaces it.
\<close>

subsection \<open>Sliding windows\<close>

locale sliding_window =
  fixes items :: "'s \<Rightarrow> 'a list" and push :: "gotime \<Rightarrow> 'a \<Rightarrow> 's \<Rightarrow> 's"
    and stamp :: "'a \<Rightarrow> gotime" and age :: "'s \<Rightarrow> duration"
  assumes push_items: "items (push now x s) = dropWhile (\<lambda>y. stamp y < now - age s) (items s @ [x])"
    and push_age: "age (push now x s) = age s"
begin

definition pushAll :: "(gotime \<times> 'a) list \<Rightarrow> 's \<Rightarrow> 's" where
  "pushAll xs s = foldl (\<lambda>s (now, x). push now x s) s xs"

lemma pushAll_snoc: "pushAll (xs @ [(now, x)]) s = push now x (pushAll xs s)"
  by (simp add: pushAll_def)

lemma pushAll_age: "age (pushAll xs s) = age s"
  by (induction xs rule: rev_induct) (auto simp: pushAll_snoc push_age simp: pushAll_def)

text \<open>What is in the window is a suffix of everything that was ever pushed.\<close>

lemma pushAll_suffix: "items s = [] \<Longrightarrow> \<exists>k \<le> length xs. items (pushAll xs s) = drop k (map snd xs)"
proof (induction xs rule: rev_induct)
  case (snoc x xs)
  obtain now y where x: "x = (now, y)"
    by fastforce
  obtain k where k: "k \<le> length xs" "items (pushAll xs s) = drop k (map snd xs)"
    using snoc by blast
  let ?n = "length (takeWhile (\<lambda>y. stamp y < now - age s) (drop k (map snd xs) @ [y]))"
  have "items (pushAll (xs @ [x]) s) = drop ?n (drop k (map snd (xs @ [x])))"
    using k by (simp add: x pushAll_snoc push_items pushAll_age dropWhile_eq_drop)
  moreover have "?n + k \<le> length (xs @ [x])"
    using length_takeWhile_le [of "\<lambda>y. stamp y < now - age s" "drop k (map snd xs) @ [y]"] k by simp
  ultimately show ?case
    by (intro exI [of _ "?n + k"]) (simp del: drop_append map_append length_append)
qed (simp add: pushAll_def)

lemma dropWhile_sorted: "sorted (map stamp ys) \<Longrightarrow> dropWhile (\<lambda>y. stamp y < t) ys = filter (\<lambda>y. t \<le> stamp y) ys"
proof (induction ys)
  case (Cons y ys)
  show ?case
  proof (cases "stamp y < t")
    case False
    then have "\<forall>z \<in> set ys. t \<le> stamp z"
      using Cons.prems by fastforce
    then show ?thesis
      using False by simp
  qed (use Cons in simp)
qed simp

text \<open>
  With stamps that do not run backwards, a sequence of pushes leaves exactly the items that the last
  cutoff does not expire, provided that the clock does not run backwards either.
\<close>

lemma pushAll_fresh:
  assumes "items s = []" and "sorted (map (stamp \<circ> snd) xs)" and "sorted (map fst xs)" and "xs \<noteq> []"
  shows "items (pushAll xs s) = filter (\<lambda>y. fst (last xs) - age s \<le> stamp y) (map snd xs)"
  using assms
proof (induction xs rule: rev_induct)
  case (snoc x xs)
  obtain now y where x: "x = (now, y)"
    by fastforce
  have prev: "items (pushAll xs s) = filter (\<lambda>z. fst (last xs) - age s \<le> stamp z) (map snd xs) \<or> xs = []"
    using snoc by (auto simp: sorted_append)
  have sub: "\<exists>P. items (pushAll xs s) = filter P (map snd xs) \<and> (\<forall>z. now - age s \<le> stamp z \<longrightarrow> P z)"
  proof (cases "xs = []")
    case True
    then show ?thesis
      using snoc.prems(1) by (auto simp: pushAll_def)
  next
    case False
    then have "fst (last xs) \<le> now"
      using snoc.prems(3) by (simp add: sorted_append x)
    then show ?thesis
      using prev False by (intro exI [of _ "\<lambda>z. fst (last xs) - age s \<le> stamp z"]) auto
  qed
  then obtain P where P: "items (pushAll xs s) = filter P (map snd xs)" "\<forall>z. now - age s \<le> stamp z \<longrightarrow> P z"
    by blast
  have "sorted (map stamp (map snd xs @ [y]))"
    using snoc.prems(2) by (simp add: x comp_def)
  then have "sorted (map stamp (filter P (map snd xs) @ [y]))"
    by (auto simp: sorted_append sorted_filter)
  then have "items (pushAll (xs @ [x]) s) = filter (\<lambda>z. now - age s \<le> stamp z) (filter P (map snd xs) @ [y])"
    by (simp add: x pushAll_snoc push_items pushAll_age P(1) dropWhile_sorted)
  also have "\<dots> = filter (\<lambda>z. now - age s \<le> stamp z) (map snd xs @ [y])"
    using P(2) by (auto simp: filter_filter intro: filter_cong)
  finally show ?case
    by (simp add: x)
qed simp

end

text \<open>A window that also counts what it evicted: positions in the whole sequence can be computed.\<close>

locale counted_window = sliding_window +
  fixes evicted :: "'a \<Rightarrow> nat"
  assumes push_evicted: "evicted (push now x s) + length (items (push now x s)) = evicted s + length (items s) + 1"
begin

definition windows :: "'a \<Rightarrow> 'b list \<Rightarrow> bool" where
  "windows s h \<longleftrightarrow> items s = drop (evicted s) h \<and> evicted s + length (items s) = length h"

lemma windows_push:
  assumes "windows s h"
  shows "windows (push now x s) (h @ [x])" and "evicted s \<le> evicted (push now x s)"
proof -
  have e: "items s = drop (evicted s) h" "evicted s \<le> length h"
    using assms by (auto simp: windows_def)
  define k where "k = evicted s + length (takeWhile (\<lambda>y. stamp y < now - age s) (drop (evicted s) (h @ [x])))"
  have items_k: "items (push now x s) = drop k (h @ [x])"
    using e by (simp add: push_items dropWhile_eq_drop k_def add.commute)
  have sum: "evicted (push now x s) + length (items (push now x s)) = length h + 1"
    using push_evicted [of now x s] assms by (simp add: windows_def)
  have "k \<le> length (h @ [x])"
    using e(2) length_takeWhile_le [of "\<lambda>y. stamp y < now - age s" "drop (evicted s) (h @ [x])"] by (simp add: k_def)
  then have ev: "evicted (push now x s) = k"
    using sum by (simp add: items_k)
  show "windows (push now x s) (h @ [x])"
    unfolding windows_def ev items_k using sum ev items_k by (simp del: drop_append)
  show "evicted s \<le> evicted (push now x s)"
    unfolding ev k_def by simp
qed

lemma windows_nth: "windows s h \<Longrightarrow> evicted s \<le> i \<Longrightarrow> i < length h \<Longrightarrow> items s ! (i - evicted s) = h ! i"
  by (simp add: windows_def)

end

subsection \<open>The fragment ring buffer\<close>

record Fragment =
  rf_DTS :: duration
  rf_Duration :: duration
  rf_KeyFrame :: bool
  rf_Data :: bytes
  rf_Timestamp :: gotime

record RingBuffer =
  rb_fragments :: "Fragment list"
  rb_maxAge :: duration
  rb_notify :: nat

definition NewRingBuffer :: "duration \<Rightarrow> RingBuffer" where
  "NewRingBuffer maxAge = \<lparr>rb_fragments = [], rb_maxAge = maxAge, rb_notify = 0\<rparr>"

text \<open>The loop that counts the expired entries at the front.\<close>

fun countExpired :: "('a \<Rightarrow> gotime) \<Rightarrow> gotime \<Rightarrow> 'a list \<Rightarrow> nat" where
  "countExpired stamp cutoff [] = 0"
| "countExpired stamp cutoff (f # fs) = (if stamp f < cutoff then 1 + countExpired stamp cutoff fs else 0)"

definition Push :: "gotime \<Rightarrow> Fragment \<Rightarrow> RingBuffer \<Rightarrow> RingBuffer" where
  "Push now frag rb =
    (let fragments = rb_fragments rb @ [frag];
         cutoff = now - rb_maxAge rb;
         i = countExpired rf_Timestamp cutoff fragments;
         fragments' = (if i > 0 then drop i fragments else fragments)
     in rb\<lparr>rb_fragments := fragments', rb_notify := rb_notify rb + 1\<rparr>)"

fun firstFrom :: "duration \<Rightarrow> Fragment list \<Rightarrow> nat option" where
  "firstFrom fromDTS [] = None"
| "firstFrom fromDTS (f # fs) = (if rf_DTS f \<ge> fromDTS then Some 0 else map_option Suc (firstFrom fromDTS fs))"

definition ReadFrom :: "duration \<Rightarrow> RingBuffer \<Rightarrow> Fragment list" where
  "ReadFrom fromDTS rb =
    (case firstFrom fromDTS (rb_fragments rb) of None \<Rightarrow> [] | Some idx \<Rightarrow> drop idx (rb_fragments rb))"

definition Len :: "RingBuffer \<Rightarrow> nat" where
  "Len rb = length (rb_fragments rb)"

definition SizeBytes :: "RingBuffer \<Rightarrow> int" where
  "SizeBytes rb = foldl (\<lambda>total f. wrap64 (total + int (length (rf_Data f)))) 0 (rb_fragments rb)"

lemma countExpired_takeWhile: "countExpired stamp cutoff xs = length (takeWhile (\<lambda>x. stamp x < cutoff) xs)"
  by (induction xs) simp_all

lemma drop_countExpired: "drop (countExpired stamp cutoff xs) xs = dropWhile (\<lambda>x. stamp x < cutoff) xs"
  by (simp add: countExpired_takeWhile dropWhile_eq_drop)

lemma Push_fragments: "rb_fragments (Push now f rb) = dropWhile (\<lambda>x. rf_Timestamp x < now - rb_maxAge rb) (rb_fragments rb @ [f])"
  by (simp add: Push_def Let_def drop_countExpired [symmetric])

interpretation ring: sliding_window rb_fragments Push rf_Timestamp rb_maxAge
  by unfold_locales (simp add: Push_fragments, simp add: Push_def Let_def)

subsection \<open>The packet buffer\<close>

record Buffer =
  b_streams :: "stream list"
  b_pkts :: "packet list"
  b_maxAge :: duration
  b_closed :: bool
  b_notify :: nat
  b_baseOffset :: nat

definition NewBuffer :: "duration \<Rightarrow> Buffer" where
  "NewBuffer maxAge = \<lparr>b_streams = [], b_pkts = [], b_maxAge = maxAge, b_closed = False, b_notify = 0, b_baseOffset = 0\<rparr>"

definition buf_WriteHeader :: "stream list \<Rightarrow> Buffer \<Rightarrow> Buffer" where
  "buf_WriteHeader streams b = b\<lparr>b_streams := streams\<rparr>"

definition evictLocked :: "gotime \<Rightarrow> Buffer \<Rightarrow> Buffer" where
  "evictLocked now b =
    (let cutoff = now - b_maxAge b; i = countExpired WallClockTime cutoff (b_pkts b)
     in if i > 0 then b\<lparr>b_pkts := drop i (b_pkts b), b_baseOffset := b_baseOffset b + i\<rparr> else b)"

text \<open>The first clock reading stamps a packet that has no wall-clock time, the second one is the eviction's.\<close>

definition stampPacket :: "gotime \<Rightarrow> packet \<Rightarrow> packet" where
  "stampPacket now pkt = (if WallClockTime pkt = 0 then pkt\<lparr>WallClockTime := now\<rparr> else pkt)"

definition pushPacket :: "gotime \<Rightarrow> packet \<Rightarrow> Buffer \<Rightarrow> Buffer" where
  "pushPacket now pkt b =
    (let b1 = evictLocked now (b\<lparr>b_pkts := b_pkts b @ [pkt]\<rparr>) in b1\<lparr>b_notify := b_notify b1 + 1\<rparr>)"

definition buf_WritePacket :: "gotime \<Rightarrow> gotime \<Rightarrow> packet \<Rightarrow> Buffer \<Rightarrow> Buffer" where
  "buf_WritePacket now1 now2 pkt b = pushPacket now2 (stampPacket now1 pkt) b"

text \<open>\<^verbatim>\<open>Close\<close> marks the buffer with a compare-and-swap and then, in a critical section, replaces the channel.\<close>

definition closeMark :: "Buffer \<Rightarrow> Buffer option" where
  "closeMark b = (if b_closed b then None else Some (b\<lparr>b_closed := True\<rparr>))"

definition closeNotify :: "Buffer \<Rightarrow> Buffer" where
  "closeNotify b = b\<lparr>b_notify := b_notify b + 1\<rparr>"

text \<open>The backward scan of \<^verbatim>\<open>LastGOP\<close>: the position of the last video keyframe among the first \<open>i\<close> packets.\<close>

fun lastKeyframe :: "packet list \<Rightarrow> nat \<Rightarrow> nat option" where
  "lastKeyframe pkts 0 = None"
| "lastKeyframe pkts (Suc i) = (if KeyFrame (pkts ! i) \<and> IsVideo (CodecType (pkts ! i)) then Some i else lastKeyframe pkts i)"

definition LastGOP :: "Buffer \<Rightarrow> packet list" where
  "LastGOP b = (case lastKeyframe (b_pkts b) (length (b_pkts b)) of None \<Rightarrow> [] | Some lastKF \<Rightarrow> drop lastKF (b_pkts b))"

lemma pushPacket_pkts:
  "b_pkts (pushPacket now p b) = dropWhile (\<lambda>y. WallClockTime y < now - b_maxAge b) (b_pkts b @ [p])"
  by (simp add: pushPacket_def evictLocked_def Let_def drop_countExpired [symmetric])

interpretation pbuf: counted_window b_pkts pushPacket WallClockTime b_maxAge b_baseOffset
proof
  fix now p and b :: Buffer
  have "countExpired WallClockTime (now - b_maxAge b) (b_pkts b @ [p]) \<le> length (b_pkts b @ [p])"
    by (simp add: countExpired_takeWhile length_takeWhile_le del: length_append)
  then show "b_baseOffset (pushPacket now p b) + length (b_pkts (pushPacket now p b)) = b_baseOffset b + length (b_pkts b) + 1"
    by (simp add: pushPacket_def evictLocked_def Let_def del: drop_append)
qed (simp_all add: pushPacket_pkts, simp add: pushPacket_def evictLocked_def Let_def)

subsection \<open>A following demuxer\<close>

record bufDemuxer =
  bd_since :: gotime
  bd_cursor :: nat
  bd_started :: bool
  bd_done :: bool

definition buf_Demuxer :: "gotime \<Rightarrow> bufDemuxer" where
  "buf_Demuxer since = \<lparr>bd_since = since, bd_cursor = 0, bd_started = False, bd_done = False\<rparr>"

definition buf_GetCodecs :: "Buffer \<Rightarrow> stream list option" where
  "buf_GetCodecs b = (if length (b_streams b) = 0 then None else Some (b_streams b))"

text \<open>The scan for the first packet at or after \<open>since\<close>, from the cursor on.\<close>

fun scanSince :: "gotime \<Rightarrow> packet list \<Rightarrow> nat \<Rightarrow> nat" where
  "scanSince since [] cursor = cursor"
| "scanSince since (p # ps) cursor = (if \<not> WallClockTime p < since then cursor else scanSince since ps (cursor + 1))"

text \<open>
  One round of the loop of \<^verbatim>\<open>ReadPacket\<close>: the reads under the lock are one snapshot.  It delivers a packet,
  goes around again, ends, or waits on the channel of the snapshot.
\<close>

datatype round = Deliver packet | Again | AtEOF | WaitOn nat

definition readRound :: "Buffer \<Rightarrow> bufDemuxer \<Rightarrow> round \<times> bufDemuxer" where
  "readRound b d =
    (let pkts = b_pkts b; base = b_baseOffset b;
         d1 = (if \<not> bd_started d then d\<lparr>bd_cursor := scanSince (bd_since d) pkts base, bd_started := True\<rparr> else d);
         d2 = (if bd_cursor d1 < base then d1\<lparr>bd_cursor := base\<rparr> else d1);
         rel = bd_cursor d2 - base
     in if rel < length pkts
        then let pkt = pkts ! rel; d3 = d2\<lparr>bd_cursor := bd_cursor d2 + 1\<rparr> in
          if WallClockTime pkt < bd_since d3 then (Again, d3) else (Deliver pkt, d3)
        else if b_closed b then (AtEOF, d2)
        else (WaitOn (b_notify b), d2))"

definition buf_CloseDemuxer :: "bufDemuxer \<Rightarrow> bufDemuxer" where
  "buf_CloseDemuxer d = d\<lparr>bd_done := True\<rparr>"

subsection \<open>Writer and readers together\<close>

text \<open>
  A reader is running (in or before a round of \<^verbatim>\<open>ReadPacket\<close>), or waits on a channel.  For the statements, the
  system remembers everything written and, per reader, the positions it delivered.
\<close>

datatype phase = Running | Waiting nat

record reader =
  rd_dem :: bufDemuxer
  rd_phase :: phase
  rd_log :: "nat list"

record system =
  sy_buf :: Buffer
  sy_closing :: bool
  sy_readers :: "reader list"
  sy_hist :: "packet list"

inductive sys_step :: "system \<Rightarrow> system \<Rightarrow> bool" where
  put: "sys_step s (s\<lparr>sy_buf := buf_WritePacket now1 now2 p (sy_buf s), sy_hist := sy_hist s @ [stampPacket now1 p]\<rparr>)"
| set_header: "sys_step s (s\<lparr>sy_buf := buf_WriteHeader ss (sy_buf s)\<rparr>)"
| close_mark: "closeMark (sy_buf s) = Some b \<Longrightarrow> sys_step s (s\<lparr>sy_buf := b, sy_closing := True\<rparr>)"
| close_notify: "sy_closing s \<Longrightarrow> sys_step s (s\<lparr>sy_buf := closeNotify (sy_buf s), sy_closing := False\<rparr>)"
| attach: "sys_step s (s\<lparr>sy_readers := sy_readers s @ [\<lparr>rd_dem = buf_Demuxer t, rd_phase = Running, rd_log = []\<rparr>]\<rparr>)"
| deliver: "i < length (sy_readers s) \<Longrightarrow> r = sy_readers s ! i \<Longrightarrow> rd_phase r = Running \<Longrightarrow> \<not> bd_done (rd_dem r) \<Longrightarrow>
    readRound (sy_buf s) (rd_dem r) = (Deliver p, d) \<Longrightarrow>
    sys_step s (s\<lparr>sy_readers := (sy_readers s)[i := r\<lparr>rd_dem := d, rd_log := rd_log r @ [bd_cursor d - 1]\<rparr>]\<rparr>)"
| again: "i < length (sy_readers s) \<Longrightarrow> r = sy_readers s ! i \<Longrightarrow> rd_phase r = Running \<Longrightarrow> \<not> bd_done (rd_dem r) \<Longrightarrow>
    readRound (sy_buf s) (rd_dem r) = (x, d) \<Longrightarrow> x = Again \<or> x = AtEOF \<Longrightarrow>
    sys_step s (s\<lparr>sy_readers := (sy_readers s)[i := r\<lparr>rd_dem := d\<rparr>]\<rparr>)"
| wait: "i < length (sy_readers s) \<Longrightarrow> r = sy_readers s ! i \<Longrightarrow> rd_phase r = Running \<Longrightarrow> \<not> bd_done (rd_dem r) \<Longrightarrow>
    readRound (sy_buf s) (rd_dem r) = (WaitOn g, d) \<Longrightarrow>
    sys_step s (s\<lparr>sy_readers := (sy_readers s)[i := r\<lparr>rd_dem := d, rd_phase := Waiting g\<rparr>]\<rparr>)"
| wake: "i < length (sy_readers s) \<Longrightarrow> r = sy_readers s ! i \<Longrightarrow> rd_phase r = Waiting g \<Longrightarrow> g < b_notify (sy_buf s) \<Longrightarrow>
    sys_step s (s\<lparr>sy_readers := (sy_readers s)[i := r\<lparr>rd_phase := Running\<rparr>]\<rparr>)"
| cancel: "i < length (sy_readers s) \<Longrightarrow> r = sy_readers s ! i \<Longrightarrow> rd_phase r = Waiting g \<Longrightarrow>
    sys_step s (s\<lparr>sy_readers := (sy_readers s)[i := r\<lparr>rd_phase := Running\<rparr>]\<rparr>)"
| detach: "i < length (sy_readers s) \<Longrightarrow> r = sy_readers s ! i \<Longrightarrow>
    sys_step s (s\<lparr>sy_readers := (sy_readers s)[i := r\<lparr>rd_dem := buf_CloseDemuxer (rd_dem r)\<rparr>]\<rparr>)"

definition sys_init :: "duration \<Rightarrow> system" where
  "sys_init maxAge = \<lparr>sy_buf = NewBuffer maxAge, sy_closing = False, sy_readers = [], sy_hist = []\<rparr>"

definition reader_inv :: "Buffer \<Rightarrow> bool \<Rightarrow> packet list \<Rightarrow> reader \<Rightarrow> bool" where
  "reader_inv b closing h r \<longleftrightarrow>
    (let d = rd_dem r; old = (\<lambda>j. WallClockTime (h ! j) < bd_since d) in
     sorted_wrt (<) (rd_log r) \<and>
     (if bd_started d
      then bd_cursor d \<le> length h \<and> (\<forall>j \<in> set (rd_log r). j < bd_cursor d \<and> \<not> old j) \<and>
        (\<forall>j < bd_cursor d. j \<in> set (rd_log r) \<or> old j \<or> j < b_baseOffset b)
      else rd_log r = []) \<and>
     (case rd_phase r of
        Running \<Rightarrow> True
      | Waiting g \<Rightarrow> g \<le> b_notify b \<and>
          (g = b_notify b \<longrightarrow> bd_started d \<and> bd_cursor d = length h \<and> (b_closed b \<longrightarrow> closing))))"

definition sys_inv :: "system \<Rightarrow> bool" where
  "sys_inv s \<longleftrightarrow> pbuf.windows (sy_buf s) (sy_hist s) \<and> (sy_closing s \<longrightarrow> b_closed (sy_buf s)) \<and>
    (\<forall>r \<in> set (sy_readers s). reader_inv (sy_buf s) (sy_closing s) (sy_hist s) r)"

lemma scanSince_takeWhile: "scanSince t ps c = c + length (takeWhile (\<lambda>p. WallClockTime p < t) ps)"
  by (induction ps arbitrary: c) simp_all

text \<open>Where a round starts: at the cursor, moved forward to what the buffer still holds.\<close>

definition roundStart :: "Buffer \<Rightarrow> bufDemuxer \<Rightarrow> nat" where
  "roundStart b d = max (b_baseOffset b) (if bd_started d then bd_cursor d else scanSince (bd_since d) (b_pkts b) (b_baseOffset b))"

lemma readRound_at:
  assumes w: "pbuf.windows b h" and c: "bd_started d \<Longrightarrow> bd_cursor d \<le> length h"
  shows "readRound b d =
    (if roundStart b d < length h
     then (if WallClockTime (h ! roundStart b d) < bd_since d then Again else Deliver (h ! roundStart b d),
           d\<lparr>bd_cursor := roundStart b d + 1, bd_started := True\<rparr>)
     else (if b_closed b then AtEOF else WaitOn (b_notify b), d\<lparr>bd_cursor := length h, bd_started := True\<rparr>))"
proof -
  let ?base = "b_baseOffset b" and ?c = "roundStart b d"
  have h: "?base + length (b_pkts b) = length h"
    using w by (simp add: pbuf.windows_def)
  have ge: "?base \<le> ?c"
    by (simp add: roundStart_def)
  have "scanSince (bd_since d) (b_pkts b) ?base \<le> length h"
    using h length_takeWhile_le [of "\<lambda>p. WallClockTime p < bd_since d" "b_pkts b"] by (simp add: scanSince_takeWhile)
  then have le: "?c \<le> length h"
    using h c by (auto simp: roundStart_def)
  define d1 where "d1 = (if \<not> bd_started d then d\<lparr>bd_cursor := scanSince (bd_since d) (b_pkts b) ?base, bd_started := True\<rparr> else d)"
  define d2 where "d2 = (if bd_cursor d1 < ?base then d1\<lparr>bd_cursor := ?base\<rparr> else d1)"
  have d2: "d2 = d\<lparr>bd_cursor := ?c, bd_started := True\<rparr>"
    by (cases d) (auto simp: d2_def d1_def roundStart_def max_def)
  have rel: "?c - ?base < length (b_pkts b) \<longleftrightarrow> ?c < length h"
    using ge h by auto
  have nth: "?c < length h \<Longrightarrow> b_pkts b ! (?c - ?base) = h ! ?c"
    using pbuf.windows_nth [OF w ge] .
  show ?thesis
    unfolding readRound_def Let_def d1_def [symmetric] d2_def [symmetric]
    using rel nth le by (cases "?c < length h") (simp_all add: d2)
qed

lemma round_covered:
  assumes w: "pbuf.windows b h" and r: "reader_inv b cl h r" and j: "j < roundStart b (rd_dem r)"
  shows "j \<in> set (rd_log r) \<or> WallClockTime (h ! j) < bd_since (rd_dem r) \<or> j < b_baseOffset b"
proof (cases "bd_started (rd_dem r)")
  case True
  then show ?thesis
    using r j by (auto simp: reader_inv_def Let_def roundStart_def max_def split: if_splits)
next
  case False
  let ?d = "rd_dem r" and ?base = "b_baseOffset b"
  have p: "b_pkts b = drop ?base h"
    using w by (simp add: pbuf.windows_def)
  show ?thesis
  proof (cases "j < ?base")
    case ge: False
    then have "j - ?base < length (takeWhile (\<lambda>p. WallClockTime p < bd_since ?d) (b_pkts b))"
      using j False by (auto simp: roundStart_def scanSince_takeWhile)
    then have "WallClockTime (b_pkts b ! (j - ?base)) < bd_since ?d"
      by (metis nth_mem set_takeWhileD takeWhile_nth)
    then show ?thesis
      using ge p w by (simp add: pbuf.windows_def)
  qed simp
qed

lemma log_below:
  assumes "reader_inv b cl h r"
  shows "\<forall>j \<in> set (rd_log r). j < roundStart b (rd_dem r)"
  using assms by (auto simp: reader_inv_def Let_def roundStart_def split: if_splits)

lemma reader_round:
  assumes w: "pbuf.windows b h" and r: "reader_inv b cl h r" and run: "rd_phase r = Running"
    and rr: "readRound b (rd_dem r) = (x, d)"
  shows "x = Deliver p \<Longrightarrow> reader_inv b cl h (r\<lparr>rd_dem := d, rd_log := rd_log r @ [bd_cursor d - 1]\<rparr>) \<and>
      bd_cursor d - 1 < length h \<and> p = h ! (bd_cursor d - 1)"
    and "x = Again \<or> x = AtEOF \<Longrightarrow> reader_inv b cl h (r\<lparr>rd_dem := d\<rparr>)"
    and "x = WaitOn g \<Longrightarrow> reader_inv b cl h (r\<lparr>rd_dem := d, rd_phase := Waiting g\<rparr>)"
proof -
  let ?c = "roundStart b (rd_dem r)"
  have "bd_started (rd_dem r) \<Longrightarrow> bd_cursor (rd_dem r) \<le> length h"
    using r by (simp add: reader_inv_def Let_def)
  note at = readRound_at [OF w this, unfolded rr]
  note cov = round_covered [OF w r] and below = log_below [OF r]
  have srt: "sorted_wrt (<) (rd_log r)"
    using r by (simp add: reader_inv_def Let_def)
  have old: "\<forall>j \<in> set (rd_log r). \<not> WallClockTime (h ! j) < bd_since (rd_dem r)"
    using r by (auto simp: reader_inv_def Let_def split: if_splits)
  have fin: "?c \<ge> length h \<Longrightarrow> \<forall>j < length h. j \<in> set (rd_log r) \<or> WallClockTime (h ! j) < bd_since (rd_dem r) \<or> j < b_baseOffset b"
    using cov by auto
  have lt: "\<forall>j \<in> set (rd_log r). j < length h"
    using r by (auto simp: reader_inv_def Let_def split: if_splits)
  show "x = Deliver p \<Longrightarrow> reader_inv b cl h (r\<lparr>rd_dem := d, rd_log := rd_log r @ [bd_cursor d - 1]\<rparr>) \<and>
      bd_cursor d - 1 < length h \<and> p = h ! (bd_cursor d - 1)"
    using at srt old below cov run
    by (auto simp: reader_inv_def Let_def sorted_wrt_append less_Suc_eq split: if_splits)
  show "x = Again \<or> x = AtEOF \<Longrightarrow> reader_inv b cl h (r\<lparr>rd_dem := d\<rparr>)"
    using at srt old below cov run fin lt
    by (auto simp: reader_inv_def Let_def less_Suc_eq split: if_splits)
  show "x = WaitOn g \<Longrightarrow> reader_inv b cl h (r\<lparr>rd_dem := d, rd_phase := Waiting g\<rparr>)"
    using at srt old below fin lt
    by (auto simp: reader_inv_def Let_def split: if_splits)
qed

lemma reader_put:
  assumes w: "pbuf.windows b h" and r: "reader_inv b cl h r"
  shows "reader_inv (pushPacket now p b) cl (h @ [p]) r"
proof -
  have mono: "b_baseOffset b \<le> b_baseOffset (pushPacket now p b)"
    by (rule pbuf.windows_push(2) [OF w])
  have "b_notify (pushPacket now p b) = b_notify b + 1" "b_closed (pushPacket now p b) = b_closed b"
    by (simp_all add: pushPacket_def evictLocked_def Let_def)
  moreover have "(h @ [p]) ! j = h ! j" if "j < length h" for j
    using that by (simp add: nth_append)
  ultimately show ?thesis
    using r mono by (auto simp: reader_inv_def Let_def split: if_splits phase.splits)
qed

lemma reader_frame:
  assumes r: "reader_inv b cl h r" and base: "b_baseOffset b' = b_baseOffset b"
    and n: "b_notify b < b_notify b' \<or> b_notify b' = b_notify b \<and> (b_closed b' \<longrightarrow> (b_closed b \<longrightarrow> cl) \<longrightarrow> cl')"
  shows "reader_inv b' cl' h r"
proof (cases "rd_phase r")
  case Running
  then show ?thesis
    using r base by (simp add: reader_inv_def Let_def)
next
  case (Waiting g)
  then show ?thesis
    using r base n by (auto simp: reader_inv_def Let_def)
qed

lemma windows_frame:
  assumes "pbuf.windows b h" and "b_pkts b' = b_pkts b" and "b_baseOffset b' = b_baseOffset b"
  shows "pbuf.windows b' h"
  using assms by (simp add: pbuf.windows_def)

lemma sys_inv_update:
  assumes "sys_inv s" and "i < length (sy_readers s)"
    and "reader_inv (sy_buf s) (sy_closing s) (sy_hist s) r"
  shows "sys_inv (s\<lparr>sy_readers := (sy_readers s)[i := r]\<rparr>)"
  using assms set_update_subset_insert [of "sy_readers s" i r] by (auto simp: sys_inv_def)

lemma sys_step_inv:
  assumes "sys_step s s'" and "sys_inv s"
  shows "sys_inv s'"
  using assms
proof (induction rule: sys_step.induct)
  case (put s now1 now2 p)
  then show ?case
    using pbuf.windows_push(1) reader_put
    by (auto simp: sys_inv_def buf_WritePacket_def) (simp add: pushPacket_def evictLocked_def Let_def)
next
  case (set_header s ss)
  then show ?case
    by (auto simp: sys_inv_def buf_WriteHeader_def intro: windows_frame reader_frame)
next
  case (close_mark s b)
  then show ?case
    by (auto simp: sys_inv_def closeMark_def intro: windows_frame reader_frame split: if_splits)
next
  case (close_notify s)
  then show ?case
    by (auto simp: sys_inv_def closeNotify_def intro: windows_frame reader_frame)
next
  case (attach s t)
  then show ?case
    by (auto simp: sys_inv_def reader_inv_def buf_Demuxer_def Let_def)
next
  case (deliver i s r p d)
  then have "reader_inv (sy_buf s) (sy_closing s) (sy_hist s) (r\<lparr>rd_dem := d, rd_log := rd_log r @ [bd_cursor d - 1]\<rparr>)"
    using reader_round(1) [of "sy_buf s" "sy_hist s" "sy_closing s" r "Deliver p" d p] by (auto simp: sys_inv_def)
  then show ?case
    using deliver by (intro sys_inv_update)
next
  case (again i s r x d)
  then have "reader_inv (sy_buf s) (sy_closing s) (sy_hist s) (r\<lparr>rd_dem := d\<rparr>)"
    using reader_round(2) [of "sy_buf s" "sy_hist s" "sy_closing s" r x d] by (auto simp: sys_inv_def)
  then show ?case
    using again by (intro sys_inv_update)
next
  case (wait i s r g d)
  then have "reader_inv (sy_buf s) (sy_closing s) (sy_hist s) (r\<lparr>rd_dem := d, rd_phase := Waiting g\<rparr>)"
    using reader_round(3) [of "sy_buf s" "sy_hist s" "sy_closing s" r "WaitOn g" d g] by (auto simp: sys_inv_def)
  then show ?case
    using wait by (intro sys_inv_update)
next
  case (wake i s r g)
  then have "reader_inv (sy_buf s) (sy_closing s) (sy_hist s) (r\<lparr>rd_phase := Running\<rparr>)"
    using nth_mem by (fastforce simp: sys_inv_def reader_inv_def Let_def)
  then show ?case
    using wake by (intro sys_inv_update)
next
  case (cancel i s r g)
  then have "reader_inv (sy_buf s) (sy_closing s) (sy_hist s) (r\<lparr>rd_phase := Running\<rparr>)"
    using nth_mem by (fastforce simp: sys_inv_def reader_inv_def Let_def)
  then show ?case
    using cancel by (intro sys_inv_update)
next
  case (detach i s r)
  then have "reader_inv (sy_buf s) (sy_closing s) (sy_hist s) r"
    by (auto simp: sys_inv_def)
  then have "reader_inv (sy_buf s) (sy_closing s) (sy_hist s) (r\<lparr>rd_dem := buf_CloseDemuxer (rd_dem r)\<rparr>)"
    by (simp add: reader_inv_def Let_def buf_CloseDemuxer_def cong: phase.case_cong)
  then show ?case
    using detach by (intro sys_inv_update)
qed

lemma sys_inv_reachable: "sys_step\<^sup>*\<^sup>* (sys_init maxAge) s \<Longrightarrow> sys_inv s"
proof (induction rule: rtranclp_induct)
  case base
  show ?case
    by (simp add: sys_inv_def sys_init_def pbuf.windows_def NewBuffer_def)
qed (rule sys_step_inv)

lemma reachable_reader:
  assumes "sys_step\<^sup>*\<^sup>* (sys_init maxAge) s" and "r \<in> set (sy_readers s)"
  shows "pbuf.windows (sy_buf s) (sy_hist s)" and "reader_inv (sy_buf s) (sy_closing s) (sy_hist s) r"
  using sys_inv_reachable [OF assms(1)] assms(2) by (auto simp: sys_inv_def)

text \<open>
  C12. Delivery.  In every reachable state of one buffer, its writers and any number of readers, each reader
  has delivered packets in the order they were written, none twice, none older than its start time; of the
  positions its cursor has passed it skipped only packets older than the start time and packets that are no
  longer in the buffer; and the next packet it delivers comes after all it has delivered.
\<close>

theorem buffer_delivery:
  assumes reach: "sys_step\<^sup>*\<^sup>* (sys_init maxAge) s" and r: "r \<in> set (sy_readers s)"
  shows "sorted_wrt (<) (rd_log r) \<and>
    (\<forall>j \<in> set (rd_log r). j < length (sy_hist s) \<and> bd_since (rd_dem r) \<le> WallClockTime (sy_hist s ! j)) \<and>
    (\<forall>j. bd_started (rd_dem r) \<and> j < bd_cursor (rd_dem r) \<longrightarrow>
      j \<in> set (rd_log r) \<or> WallClockTime (sy_hist s ! j) < bd_since (rd_dem r) \<or> j < b_baseOffset (sy_buf s)) \<and>
    (\<forall>p d. rd_phase r = Running \<and> readRound (sy_buf s) (rd_dem r) = (Deliver p, d) \<longrightarrow>
      bd_cursor d - 1 < length (sy_hist s) \<and> p = sy_hist s ! (bd_cursor d - 1) \<and> (\<forall>j \<in> set (rd_log r). j < bd_cursor d - 1))"
proof (intro conjI allI impI)
  note inv = reachable_reader [OF reach r]
  show "sorted_wrt (<) (rd_log r)"
    using inv(2) by (simp add: reader_inv_def Let_def)
  show "\<forall>j \<in> set (rd_log r). j < length (sy_hist s) \<and> bd_since (rd_dem r) \<le> WallClockTime (sy_hist s ! j)"
    using inv(2) by (force simp: reader_inv_def Let_def not_less split: if_splits)
  show "j \<in> set (rd_log r) \<or> WallClockTime (sy_hist s ! j) < bd_since (rd_dem r) \<or> j < b_baseOffset (sy_buf s)"
    if "bd_started (rd_dem r) \<and> j < bd_cursor (rd_dem r)" for j
    using inv(2) that by (auto simp: reader_inv_def Let_def)
  fix p d
  assume run: "rd_phase r = Running \<and> readRound (sy_buf s) (rd_dem r) = (Deliver p, d)"
  note d = reader_round(1) [OF inv run [THEN conjunct1] run [THEN conjunct2] refl]
  have "sorted_wrt (<) (rd_log r @ [bd_cursor d - 1])"
    using d by (simp add: reader_inv_def Let_def)
  then show "\<forall>j \<in> set (rd_log r). j < bd_cursor d - 1"
    by (simp add: sorted_wrt_append)
  show "bd_cursor d - 1 < length (sy_hist s)" and "p = sy_hist s ! (bd_cursor d - 1)"
    using d by auto
qed

text \<open>A run with one packet written, one reader that delivers it and then waits.\<close>

definition ex_delivered :: system where
  "ex_delivered = (sys_init 10)\<lparr>
    sy_buf := buf_WritePacket 7 8 zero_packet (NewBuffer 10), sy_hist := [stampPacket 7 zero_packet],
    sy_readers := [\<lparr>rd_dem = \<lparr>bd_since = 5, bd_cursor = 1, bd_started = True, bd_done = False\<rparr>, rd_phase = Running, rd_log = [0]\<rparr>]\<rparr>"

definition ex_waiting :: system where
  "ex_waiting = ex_delivered\<lparr>
    sy_readers := [\<lparr>rd_dem = \<lparr>bd_since = 5, bd_cursor = 1, bd_started = True, bd_done = False\<rparr>, rd_phase = Waiting 1, rd_log = [0]\<rparr>]\<rparr>"

lemma ex_delivered_reachable: "sys_step\<^sup>*\<^sup>* (sys_init 10) ex_delivered"
proof -
  define s1 where "s1 = (sys_init 10)\<lparr>sy_buf := buf_WritePacket 7 8 zero_packet (sy_buf (sys_init 10)),
    sy_hist := sy_hist (sys_init 10) @ [stampPacket 7 zero_packet]\<rparr>"
  define s2 where "s2 = s1\<lparr>sy_readers := sy_readers s1 @ [\<lparr>rd_dem = buf_Demuxer 5, rd_phase = Running, rd_log = []\<rparr>]\<rparr>"
  have "sys_step (sys_init 10) s1"
    unfolding s1_def by (rule sys_step.put)
  moreover have "sys_step s1 s2"
    unfolding s2_def by (rule sys_step.attach)
  moreover have "sys_step s2 ex_delivered"
    using sys_step.deliver [of 0 s2 "sy_readers s2 ! 0" "stampPacket 7 zero_packet" "\<lparr>bd_since = 5, bd_cursor = 1, bd_started = True, bd_done = False\<rparr>"]
    by (simp add: s2_def s1_def ex_delivered_def sys_init_def buf_Demuxer_def buf_WritePacket_def pushPacket_def evictLocked_def Let_def
        NewBuffer_def stampPacket_def zero_packet_def readRound_def)
  ultimately show ?thesis
    by (metis r_into_rtranclp rtranclp.rtrancl_into_rtrancl)
qed

lemma ex_waiting_reachable: "sys_step\<^sup>*\<^sup>* (sys_init 10) ex_waiting"
proof -
  have "sys_step ex_delivered ex_waiting"
    using sys_step.wait [of 0 ex_delivered "sy_readers ex_delivered ! 0" 1 "\<lparr>bd_since = 5, bd_cursor = 1, bd_started = True, bd_done = False\<rparr>"]
    by (simp add: ex_waiting_def ex_delivered_def sys_init_def buf_WritePacket_def pushPacket_def evictLocked_def Let_def
        NewBuffer_def stampPacket_def zero_packet_def readRound_def)
  then show ?thesis
    by (rule rtranclp.rtrancl_into_rtrancl [OF ex_delivered_reachable])
qed

theorem buffer_delivery_witness:
  "sys_step\<^sup>*\<^sup>* (sys_init 10) ex_delivered \<and> sorted_wrt (<) (rd_log (sy_readers ex_delivered ! 0)) \<and>
    rd_log (sy_readers ex_delivered ! 0) = [0]"
  using buffer_delivery [OF ex_delivered_reachable, of "sy_readers ex_delivered ! 0"] ex_delivered_reachable
  by (simp add: ex_delivered_def)

text \<open>
  C13. No lost wake-up.  A reader that waits can be woken by a channel that is already closed, or it has
  nothing to read: its cursor is at the end of everything written, every packet it did not deliver is older
  than its start time or evicted, and the buffer is not closed, unless the closing goroutine has yet to
  replace the channel, a step that is then enabled and wakes the reader.
\<close>

theorem no_lost_wakeup:
  assumes reach: "sys_step\<^sup>*\<^sup>* (sys_init maxAge) s" and r: "r \<in> set (sy_readers s)" and wait: "rd_phase r = Waiting g"
  shows "g < b_notify (sy_buf s) \<or>
    bd_cursor (rd_dem r) = length (sy_hist s) \<and>
    (\<forall>j < length (sy_hist s). j \<in> set (rd_log r) \<or> WallClockTime (sy_hist s ! j) < bd_since (rd_dem r) \<or> j < b_baseOffset (sy_buf s)) \<and>
    (b_closed (sy_buf s) \<longrightarrow> sys_step s (s\<lparr>sy_buf := closeNotify (sy_buf s), sy_closing := False\<rparr>) \<and> g < b_notify (closeNotify (sy_buf s)))"
  using reachable_reader(2) [OF reach r] wait sys_step.close_notify [of s]
  by (auto simp: reader_inv_def Let_def closeNotify_def)

theorem no_lost_wakeup_witness:
  "rd_phase (sy_readers ex_waiting ! 0) = Waiting 1 \<and> \<not> 1 < b_notify (sy_buf ex_waiting) \<and>
    bd_cursor (rd_dem (sy_readers ex_waiting ! 0)) = length (sy_hist ex_waiting)"
proof -
  have "rd_phase (sy_readers ex_waiting ! 0) = Waiting 1" "sy_readers ex_waiting ! 0 \<in> set (sy_readers ex_waiting)"
    by (simp_all add: ex_waiting_def)
  moreover have "\<not> 1 < b_notify (sy_buf ex_waiting)"
    by (simp add: ex_waiting_def ex_delivered_def buf_WritePacket_def pushPacket_def evictLocked_def Let_def NewBuffer_def)
  ultimately show ?thesis
    using no_lost_wakeup [OF ex_waiting_reachable] by blast
qed

subsection \<open>Replay of a buffer that is not written to\<close>

text \<open>The loop of \<^verbatim>\<open>ReadPacket\<close> on a buffer that stays as it is: every round that goes around again moves the cursor.\<close>

function buf_ReadPacket :: "Buffer \<Rightarrow> bufDemuxer \<Rightarrow> round \<times> bufDemuxer" where
  "buf_ReadPacket b d =
    (if bd_done d then (AtEOF, d)
     else case readRound b d of (Again, d') \<Rightarrow> buf_ReadPacket b d' | (x, d') \<Rightarrow> (x, d'))"
  by pat_completeness auto

termination
  by (relation "measure (\<lambda>(b, d). if bd_started d then b_baseOffset b + length (b_pkts b) - bd_cursor d
      else b_baseOffset b + length (b_pkts b) + 1)")
    (auto simp: readRound_def Let_def split: if_splits)

declare buf_ReadPacket.simps [simp del]

text \<open>A client that reads until something other than a packet comes back.\<close>

fun replay :: "nat \<Rightarrow> Buffer \<Rightarrow> bufDemuxer \<Rightarrow> packet list \<times> round option" where
  "replay 0 b d = ([], None)"
| "replay (Suc n) b d =
    (case buf_ReadPacket b d of
       (Deliver p, d') \<Rightarrow> (let (ps, x) = replay n b d' in (p # ps, x))
     | (x, _) \<Rightarrow> ([], Some x))"

lemma buf_ReadPacket_started:
  assumes w: "pbuf.windows b h" and "bd_started d" "\<not> bd_done d" "bd_cursor d \<le> length h"
  shows "buf_ReadPacket b d =
    (case filter (\<lambda>j. bd_since d \<le> WallClockTime (h ! j)) [max (b_baseOffset b) (bd_cursor d)..<length h] of
       [] \<Rightarrow> (if b_closed b then AtEOF else WaitOn (b_notify b), d\<lparr>bd_cursor := length h\<rparr>)
     | j # _ \<Rightarrow> (Deliver (h ! j), d\<lparr>bd_cursor := j + 1\<rparr>))"
  using assms
proof (induction "length h - bd_cursor d" arbitrary: d rule: less_induct)
  case less
  define c where "c = max (b_baseOffset b) (bd_cursor d)"
  have rd: "readRound b d =
      (if c < length h
       then (if WallClockTime (h ! c) < bd_since d then Again else Deliver (h ! c), d\<lparr>bd_cursor := c + 1\<rparr>)
       else (if b_closed b then AtEOF else WaitOn (b_notify b), d\<lparr>bd_cursor := length h\<rparr>))"
    using readRound_at [OF w, of d] less.prems by (cases d) (simp add: roundStart_def c_def)
  note unfold = buf_ReadPacket.simps [of b d] rd
  show ?case
  proof (cases "c < length h")
    case True
    then have upt: "[c..<length h] = c # [Suc c..<length h]"
      by (rule upt_conv_Cons)
    have c: "b_baseOffset b \<le> c" "bd_cursor d \<le> c"
      by (simp_all add: c_def)
    show ?thesis
    proof (cases "WallClockTime (h ! c) < bd_since d")
      case old: True
      have "max (b_baseOffset b) (Suc c) = Suc c"
        using c by simp
      then have "buf_ReadPacket b (d\<lparr>bd_cursor := c + 1\<rparr>) =
          (case filter (\<lambda>j. bd_since d \<le> WallClockTime (h ! j)) [Suc c..<length h] of
            [] \<Rightarrow> (if b_closed b then AtEOF else WaitOn (b_notify b), d\<lparr>bd_cursor := length h\<rparr>)
          | j # _ \<Rightarrow> (Deliver (h ! j), d\<lparr>bd_cursor := j + 1\<rparr>))"
        using less.hyps [of "d\<lparr>bd_cursor := c + 1\<rparr>"] less.prems True c by (simp cong: list.case_cong)
      then show ?thesis
        using old True less.prems by (simp add: unfold upt flip: c_def)
    qed (use True less.prems in \<open>simp add: unfold upt flip: c_def\<close>)
  qed (use less.prems in \<open>simp add: unfold flip: c_def\<close>)
qed


lemma filter_upt_split:
  assumes "filter P [a..<n] = j # js"
  shows "js = filter P [Suc j..<n]" and "a \<le> j" and "j < n"
proof -
  obtain us vs where split: "[a..<n] = us @ j # vs" "js = filter P vs"
    using assms by (auto simp: filter_eq_Cons_iff)
  have k: "length us < n - a"
    using arg_cong [OF split(1), of length] by simp
  have j: "j = a + length us"
    using arg_cong [OF split(1), of "\<lambda>xs. xs ! length us"] k by simp
  have "vs = [Suc j..<n]"
    using arg_cong [OF split(1), of "drop (Suc (length us))"] by (simp add: j)
  then show "js = filter P [Suc j..<n]" and "a \<le> j" and "j < n"
    using split j k by auto
qed

lemma map_filter_nth: "map ((!) h) (filter (\<lambda>j. Q (h ! j)) [c..<length h]) = filter Q (drop c h)"
proof -
  have "drop c h = map ((!) h) [c..<length h]"
    by (intro nth_equalityI) simp_all
  then show ?thesis
    by (simp add: filter_map comp_def)
qed

lemma filter_dropWhile: "(\<And>x. P x \<Longrightarrow> \<not> Q x) \<Longrightarrow> filter Q (dropWhile P xs) = filter Q xs"
  by (induction xs) auto

lemma replay_started:
  assumes w: "pbuf.windows b h" and "bd_started d" "\<not> bd_done d" "bd_cursor d \<le> length h"
    and "length (filter (\<lambda>j. bd_since d \<le> WallClockTime (h ! j)) [max (b_baseOffset b) (bd_cursor d)..<length h]) < n"
  shows "replay n b d =
    (map ((!) h) (filter (\<lambda>j. bd_since d \<le> WallClockTime (h ! j)) [max (b_baseOffset b) (bd_cursor d)..<length h]),
     Some (if b_closed b then AtEOF else WaitOn (b_notify b)))"
  using assms
proof (induction n arbitrary: d)
  case (Suc n)
  let ?f = "filter (\<lambda>j. bd_since d \<le> WallClockTime (h ! j)) [max (b_baseOffset b) (bd_cursor d)..<length h]"
  note rp = buf_ReadPacket_started [OF w Suc.prems(2,3,4)]
  show ?case
  proof (cases ?f)
    case Nil
    then show ?thesis
      using rp by simp
  next
    case (Cons j js)
    note j = filter_upt_split [OF Cons]
    have m: "max (b_baseOffset b) (Suc j) = Suc j"
      using j(2) by simp
    have "replay n b (d\<lparr>bd_cursor := j + 1\<rparr>) = (map ((!) h) js, Some (if b_closed b then AtEOF else WaitOn (b_notify b)))"
      using Suc.IH [of "d\<lparr>bd_cursor := j + 1\<rparr>"] Suc.prems Cons j(1,3) by (simp add: m)
    then show ?thesis
      using rp Cons by simp
  qed
qed simp


lemma replay_fresh:
  assumes "\<not> bd_started d" "\<not> bd_done d"
  shows "replay n b d = replay n b (d\<lparr>bd_cursor := scanSince (bd_since d) (b_pkts b) (b_baseOffset b), bd_started := True\<rparr>)"
proof (cases n)
  case (Suc m)
  let ?d = "d\<lparr>bd_cursor := scanSince (bd_since d) (b_pkts b) (b_baseOffset b), bd_started := True\<rparr>"
  have "readRound b d = readRound b ?d"
    using assms by (simp add: readRound_def)
  then have "buf_ReadPacket b d = buf_ReadPacket b ?d"
    using assms by (simp add: buf_ReadPacket.simps [of b d] buf_ReadPacket.simps [of b ?d])
  then show ?thesis
    by (simp add: Suc)
qed simp

text \<open>
  C21. Replay.  After any sequence of writes, a demuxer opened at time \<open>since\<close> and read until something
  other than a packet comes back delivers exactly the packets the buffer still holds that are not older than
  \<open>since\<close>, in the order they were written, and then the end of the stream if the buffer is closed, or a wait
  on the current channel.
\<close>

theorem buffer_replay:
  assumes reach: "sys_step\<^sup>*\<^sup>* (sys_init maxAge) s" and n: "length (b_pkts (sy_buf s)) < n"
  shows "replay n (sy_buf s) (buf_Demuxer since) =
    (filter (\<lambda>p. since \<le> WallClockTime p) (b_pkts (sy_buf s)),
     Some (if b_closed (sy_buf s) then AtEOF else WaitOn (b_notify (sy_buf s)))) \<and>
    (\<exists>k. b_pkts (sy_buf s) = drop k (sy_hist s))"
proof -
  let ?b = "sy_buf s" and ?h = "sy_hist s" and ?P = "\<lambda>j. since \<le> WallClockTime (sy_hist s ! j)"
  have w: "pbuf.windows ?b ?h"
    using sys_inv_reachable [OF reach] by (simp add: sys_inv_def)
  then have pk: "b_pkts ?b = drop (b_baseOffset ?b) ?h" and len: "b_baseOffset ?b + length (b_pkts ?b) = length ?h"
    by (simp_all add: pbuf.windows_def)
  define c where "c = scanSince since (b_pkts ?b) (b_baseOffset ?b)"
  have c: "c = b_baseOffset ?b + length (takeWhile (\<lambda>p. WallClockTime p < since) (b_pkts ?b))"
    by (simp add: c_def scanSince_takeWhile)
  then have le: "b_baseOffset ?b \<le> c" "c \<le> length ?h"
    using len length_takeWhile_le [of "\<lambda>p. WallClockTime p < since" "b_pkts ?b"] by simp_all
  have "drop c ?h = dropWhile (\<lambda>p. WallClockTime p < since) (b_pkts ?b)"
    by (simp add: c pk dropWhile_eq_drop add.commute)
  then have kept: "map ((!) ?h) (filter ?P [c..<length ?h]) = filter (\<lambda>p. since \<le> WallClockTime p) (b_pkts ?b)"
    using map_filter_nth [of ?h "\<lambda>p. since \<le> WallClockTime p" c]
      filter_dropWhile [of "\<lambda>p :: packet. WallClockTime p < since" "\<lambda>p. since \<le> WallClockTime p"] by simp
  have "length (filter ?P [c..<length ?h]) < n"
    using length_filter_le [of ?P "[c..<length ?h]"] n len le by simp
  moreover have "max (b_baseOffset ?b) c = c"
    using le by simp
  ultimately have "replay n ?b (buf_Demuxer since) =
      (map ((!) ?h) (filter ?P [c..<length ?h]), Some (if b_closed ?b then AtEOF else WaitOn (b_notify ?b)))"
    using replay_started [OF w, of "\<lparr>bd_since = since, bd_cursor = c, bd_started = True, bd_done = False\<rparr>" n] le
    by (simp add: replay_fresh buf_Demuxer_def flip: c_def)
  then show ?thesis
    using kept pk by auto
qed


theorem buffer_replay_witness:
  "replay 2 (sy_buf ex_delivered) (buf_Demuxer 3) = ([stampPacket 7 zero_packet], Some (WaitOn 1))"
  using buffer_replay [OF ex_delivered_reachable, of 2 3]
  by (simp add: ex_delivered_def buf_WritePacket_def pushPacket_def evictLocked_def Let_def NewBuffer_def stampPacket_def zero_packet_def)

subsection \<open>What the windows hold\<close>

lemma lastKeyframe_None: "lastKeyframe ps i = None \<longleftrightarrow> (\<forall>j < i. \<not> (KeyFrame (ps ! j) \<and> IsVideo (CodecType (ps ! j))))"
  by (induction i) (auto simp: less_Suc_eq)

lemma lastKeyframe_Some:
  "lastKeyframe ps i = Some k \<Longrightarrow> k < i \<and> KeyFrame (ps ! k) \<and> IsVideo (CodecType (ps ! k)) \<and>
    (\<forall>j. k < j \<and> j < i \<longrightarrow> \<not> (KeyFrame (ps ! j) \<and> IsVideo (CodecType (ps ! j))))"
  by (induction i) (auto simp: less_Suc_eq split: if_splits)

text \<open>
  The last group of pictures.  \<^verbatim>\<open>LastGOP\<close> returns the end of the buffer from its last video keyframe on:
  it starts with a video keyframe, no other one follows, and it is empty only if the buffer holds none.
\<close>

theorem LastGOP_spec:
  "case LastGOP b of
     [] \<Rightarrow> filter (\<lambda>p. KeyFrame p \<and> IsVideo (CodecType p)) (b_pkts b) = []
   | p # ps \<Rightarrow> KeyFrame p \<and> IsVideo (CodecType p) \<and> filter (\<lambda>q. KeyFrame q \<and> IsVideo (CodecType q)) ps = [] \<and>
       b_pkts b = take (length (b_pkts b) - length (p # ps)) (b_pkts b) @ p # ps"
proof (cases "lastKeyframe (b_pkts b) (length (b_pkts b))")
  case None
  then have "LastGOP b = []"
    by (simp add: LastGOP_def)
  with None show ?thesis
    by (auto simp: lastKeyframe_None filter_empty_conv in_set_conv_nth)
next
  case (Some k)
  note k = lastKeyframe_Some [OF Some]
  then have gop: "LastGOP b = b_pkts b ! k # drop (Suc k) (b_pkts b)"
    using Cons_nth_drop_Suc [of k "b_pkts b"] by (simp add: LastGOP_def Some)
  have "filter (\<lambda>q. KeyFrame q \<and> IsVideo (CodecType q)) (drop (Suc k) (b_pkts b)) = []"
    using k by (auto simp: filter_empty_conv in_set_conv_nth)
  moreover have "length (b_pkts b) - length (b_pkts b ! k # drop (Suc k) (b_pkts b)) = k"
    using k by simp
  ultimately show ?thesis
    using k gop id_take_nth_drop [of k "b_pkts b"] by simp
qed

lemma firstFrom_sorted:
  "sorted (map rf_DTS fs) \<Longrightarrow> (case firstFrom t fs of None \<Rightarrow> [] | Some i \<Rightarrow> drop i fs) = filter (\<lambda>f. t \<le> rf_DTS f) fs"
proof (induction fs)
  case (Cons f fs)
  show ?case
  proof (cases "t \<le> rf_DTS f")
    case True
    then have "filter (\<lambda>f. t \<le> rf_DTS f) fs = fs"
      using Cons.prems by (fastforce simp: filter_id_conv)
    then show ?thesis
      using True by simp
  next
    case False
    then show ?thesis
      using Cons by (cases "firstFrom t fs") simp_all
  qed
qed simp

text \<open>
  C31. Near-live fragments.  Push any fragments onto an empty ring buffer, with capture times and clock readings
  that do not run backwards and decode times in order: \<^verbatim>\<open>ReadFrom\<close> then returns exactly the pushed fragments
  that are at most \<open>maxAge\<close> old at the last push and start at or after the requested decode time.
\<close>

theorem ReadFrom_pushed:
  assumes "xs \<noteq> []" and "sorted (map fst xs)" and "sorted (map (rf_Timestamp \<circ> snd) xs)" and "sorted (map (rf_DTS \<circ> snd) xs)"
  shows "ReadFrom from (foldl (\<lambda>rb (now, f). Push now f rb) (NewRingBuffer maxAge) xs) =
    filter (\<lambda>f. from \<le> rf_DTS f) (filter (\<lambda>f. fst (last xs) - maxAge \<le> rf_Timestamp f) (map snd xs))"
proof -
  have win: "rb_fragments (foldl (\<lambda>rb (now, f). Push now f rb) (NewRingBuffer maxAge) xs) =
      filter (\<lambda>f. fst (last xs) - maxAge \<le> rf_Timestamp f) (map snd xs)"
    using ring.pushAll_fresh [of "NewRingBuffer maxAge" xs] assms by (simp add: ring.pushAll_def NewRingBuffer_def)
  have "sorted (map rf_DTS (filter (\<lambda>f. fst (last xs) - maxAge \<le> rf_Timestamp f) (map snd xs)))"
    using assms(4) by (intro sorted_filter) (simp add: comp_def)
  then show ?thesis
    unfolding ReadFrom_def win by (rule firstFrom_sorted)
qed

definition ex_fragment :: "int \<Rightarrow> Fragment" where
  "ex_fragment t = \<lparr>rf_DTS = t, rf_Duration = 1, rf_KeyFrame = True, rf_Data = [], rf_Timestamp = 100 + t\<rparr>"

theorem ReadFrom_pushed_witness:
  "ReadFrom 2 (foldl (\<lambda>rb (now, f). Push now f rb) (NewRingBuffer 5) [(100, ex_fragment 0), (103, ex_fragment 2), (106, ex_fragment 6)]) =
    [ex_fragment 2, ex_fragment 6]"
  using ReadFrom_pushed [of "[(100, ex_fragment 0), (103, ex_fragment 2), (106, ex_fragment 6)]" 2 5]
  by (simp add: ex_fragment_def)

end
