(* ===== verification/Relay_Consumer.thy ===== *)
theory Relay_Consumer
  imports Packet_Buffer
begin

text \<open>
  A consumer of a relay (\<^verbatim>\<open>av/relayhub/consumer.go\<close>): its bounded packet queue, the filters the relay asks before it
  enqueues a packet, and the goroutine that drives a muxer from the queue and rotates it.  The muxer, its
  factory and the outside world they act on are the argument \<open>api\<close> of the operations: any implementation of
  \<^verbatim>\<open>av.MuxCloser\<close> may stand there.  The locale \<^verbatim>\<open>packet_sink\<close> names what a muxer must promise so that the
  goroutine writes every packet exactly once.
\<close>

subsection \<open>The muxer interface\<close>

datatype cons_error =
    ErrCodecsNotAvailable | ErrConsumerMuxFactory | ErrMuxerWriteHeader | ErrMuxerWritePacket | ErrMuxerWriteCodecChange

text \<open>What \<^verbatim>\<open>WritePacket\<close> of a muxer returns: no error, \<^verbatim>\<open>ErrMuxerRotate\<close>, or another error.\<close>

datatype write_result = WriteOk | WriteRotate | WriteErr

text \<open>
  \<open>mx_WriteCodecChange\<close> is \<^const>\<open>None\<close> for a muxer that is no \<^verbatim>\<open>CodecChanger\<close>.  Headers and codec changes return
  whether they succeeded; the errors of the trailer and of \<^verbatim>\<open>Close\<close> are discarded by the callers.
\<close>

record ('m, 'w) mux_api =
  mx_factory :: "'w \<Rightarrow> 'm option \<times> 'w"
  mx_WriteHeader :: "stream list \<Rightarrow> 'm \<Rightarrow> bool \<times> 'm"
  mx_WriteCodecChange :: "(stream list \<Rightarrow> 'm \<Rightarrow> bool \<times> 'm) option"
  mx_WritePacket :: "packet \<Rightarrow> 'm \<Rightarrow> write_result \<times> 'm"
  mx_WriteTrailer :: "'m \<Rightarrow> 'm"
  mx_Close :: "'m \<Rightarrow> 'w \<Rightarrow> 'w"

subsection \<open>The goroutine\<close>

definition closeMuxer :: "('m, 'w) mux_api \<Rightarrow> 'm \<Rightarrow> 'w \<Rightarrow> 'w" where
  "closeMuxer api m w = mx_Close api (mx_WriteTrailer api m) w"

definition openAndInitMuxer :: "('m, 'w) mux_api \<Rightarrow> stream list \<Rightarrow> 'w \<Rightarrow> (cons_error + 'm) \<times> 'w" where
  "openAndInitMuxer api headers w =
    (case mx_factory api w of
       (None, w1) \<Rightarrow> (Inl ErrConsumerMuxFactory, w1)
     | (Some m, w1) \<Rightarrow>
         (case mx_WriteHeader api headers m of
            (False, m1) \<Rightarrow> (Inl ErrMuxerWriteHeader, closeMuxer api m1 w1)
          | (True, m1) \<Rightarrow> (Inr m1, w1)))"

text \<open>
  The result is the error, the muxer the caller's variable refers to afterwards, the world, and the counter of
  rotations.
\<close>

type_synonym ('m, 'w) handled = "cons_error option \<times> 'm \<times> 'w \<times> u64"

definition rotateMuxer :: "('m, 'w) mux_api \<Rightarrow> stream list \<Rightarrow> packet \<Rightarrow> 'm \<Rightarrow> 'w \<Rightarrow> u64 \<Rightarrow> ('m, 'w) handled" where
  "rotateMuxer api headers pkt m w rotations =
    (let w1 = closeMuxer api m w in
     case openAndInitMuxer api headers w1 of
       (Inl e, w2) \<Rightarrow> (Some e, m, w2, rotations + 1)
     | (Inr newMuxer, w2) \<Rightarrow>
         (case mx_WritePacket api pkt newMuxer of
            (WriteOk, m1) \<Rightarrow> (None, m1, w2, rotations + 1)
          | (_, m1) \<Rightarrow> (Some ErrMuxerWritePacket, m, closeMuxer api m1 w2, rotations + 1)))"

definition codecChange :: "('m, 'w) mux_api \<Rightarrow> packet \<Rightarrow> 'm \<Rightarrow> bool \<times> 'm" where
  "codecChange api pkt m =
    (case (NewCodecs pkt, mx_WriteCodecChange api) of (Some cs, Some f) \<Rightarrow> f cs m | _ \<Rightarrow> (True, m))"

definition handlePacket :: "('m, 'w) mux_api \<Rightarrow> stream list \<Rightarrow> packet \<Rightarrow> 'm \<Rightarrow> 'w \<Rightarrow> u64 \<Rightarrow> ('m, 'w) handled" where
  "handlePacket api headers pkt m w rotations =
    (case codecChange api pkt m of
       (False, m1) \<Rightarrow> (Some ErrMuxerWriteCodecChange, m1, w, rotations)
     | (True, m1) \<Rightarrow>
         (case mx_WritePacket api pkt m1 of
            (WriteOk, m2) \<Rightarrow> (None, m2, w, rotations)
          | (WriteRotate, m2) \<Rightarrow> rotateMuxer api headers pkt m2 w rotations
          | (WriteErr, m2) \<Rightarrow> (Some ErrMuxerWritePacket, m2, w, rotations)))"

text \<open>The loop over the packets that arrive before the consumer is closed.\<close>

fun packetLoop :: "('m, 'w) mux_api \<Rightarrow> stream list \<Rightarrow> packet list \<Rightarrow> 'm \<Rightarrow> 'w \<Rightarrow> u64 \<Rightarrow> ('m, 'w) handled" where
  "packetLoop api headers [] m w rotations = (None, m, w, rotations)"
| "packetLoop api headers (pkt # pkts) m w rotations =
    (case handlePacket api headers pkt m w rotations of
       (Some e, m1, w1, r1) \<Rightarrow> (Some e, m1, w1, r1)
     | (None, m1, w1, r1) \<Rightarrow> packetLoop api headers pkts m1 w1 r1)"

text \<open>\<^verbatim>\<open>run\<close> after the headers have arrived: open, loop, and the deferred close.\<close>

definition cons_run :: "('m, 'w) mux_api \<Rightarrow> stream list \<Rightarrow> packet list \<Rightarrow> 'w \<Rightarrow> cons_error option \<times> 'w \<times> u64" where
  "cons_run api headers pkts w =
    (case openAndInitMuxer api headers w of
       (Inl e, w1) \<Rightarrow> (Some e, w1, 0)
     | (Inr m, w1) \<Rightarrow>
         (case packetLoop api headers pkts m w1 0 of (e, m1, w2, r) \<Rightarrow> (e, closeMuxer api m1 w2, r)))"

subsection \<open>What a muxer promises\<close>

text \<open>
  \<open>wrote m hs ps\<close>: the muxer has written the header \<open>hs\<close> and the packets \<open>ps\<close>; \<open>archive w segs\<close>: the closed
  muxers of the world hold the segments \<open>segs\<close>.
\<close>

locale packet_sink =
  fixes api :: "('m, 'w) mux_api"
    and fresh :: "'m \<Rightarrow> bool"
    and wrote :: "'m \<Rightarrow> stream list \<Rightarrow> packet list \<Rightarrow> bool"
    and archive :: "'w \<Rightarrow> (stream list \<times> packet list) list \<Rightarrow> bool"
  assumes factory_fresh: "archive w segs \<Longrightarrow> mx_factory api w = (Some m, w') \<Longrightarrow> fresh m \<and> archive w' segs"
    and header_wrote: "fresh m \<Longrightarrow> mx_WriteHeader api hs m = (True, m') \<Longrightarrow> wrote m' hs []"
    and packet_wrote: "wrote m hs ps \<Longrightarrow> mx_WritePacket api p m = (WriteOk, m') \<Longrightarrow> wrote m' hs (ps @ [p])"
    and rotate_kept: "wrote m hs ps \<Longrightarrow> mx_WritePacket api p m = (WriteRotate, m') \<Longrightarrow> wrote m' hs ps"
    and change_kept: "wrote m hs ps \<Longrightarrow> codecChange api p m = (True, m') \<Longrightarrow> wrote m' hs ps"
    and close_archives: "wrote m hs ps \<Longrightarrow> archive w segs \<Longrightarrow> archive (closeMuxer api m w) (segs @ [(hs, ps)])"
begin

definition holds :: "'m \<Rightarrow> 'w \<Rightarrow> stream list \<Rightarrow> (stream list \<times> packet list) list \<Rightarrow> packet list list \<Rightarrow> bool" where
  "holds m w hs segs blocks \<longleftrightarrow> blocks \<noteq> [] \<and> wrote m hs (last blocks) \<and> archive w (segs @ map (Pair hs) (butlast blocks))"

lemma open_wrote:
  assumes "archive w segs" and "openAndInitMuxer api hs w = (Inr m, w')"
  shows "wrote m hs [] \<and> archive w' segs"
  using assms factory_fresh header_wrote
  by (fastforce simp: openAndInitMuxer_def split: option.splits prod.splits bool.splits)

lemma holds_snoc:
  assumes "holds m w hs segs blocks" and "wrote m' hs (last blocks @ [p])"
  shows "holds m' w hs segs (butlast blocks @ [last blocks @ [p]])"
  using assms by (simp add: holds_def)

lemma handlePacket_holds:
  assumes "holds m w hs segs blocks" and "handlePacket api hs p m w r = (None, m', w', r')"
  shows "\<exists>blocks'. holds m' w' hs segs blocks' \<and> concat blocks' = concat blocks @ [p]"
proof -
  have w: "wrote m hs (last blocks)" "archive w (segs @ map (Pair hs) (butlast blocks))" "blocks \<noteq> []"
    using assms(1) by (simp_all add: holds_def)
  obtain m1 where m1: "codecChange api p m = (True, m1)"
    using assms(2) by (auto simp: handlePacket_def split: prod.splits bool.splits)
  note w1 = change_kept [OF w(1) m1]
  obtain res m2 where m2: "mx_WritePacket api p m1 = (res, m2)"
    by fastforce
  have flat: "concat blocks = concat (butlast blocks) @ last blocks"
    using w(3) by (metis append_butlast_last_id concat.simps(1) concat.simps(2) concat_append append_Nil2)
  show ?thesis
  proof (cases res)
    case WriteOk
    then have "m' = m2" "w' = w"
      using assms(2) m1 m2 by (simp_all add: handlePacket_def)
    then show ?thesis
      using packet_wrote [OF w1] m2 WriteOk w flat
      by (intro exI [of _ "butlast blocks @ [last blocks @ [p]]"]) (simp add: holds_def)
  next
    case WriteRotate
    note w2 = rotate_kept [OF w1 m2 [unfolded WriteRotate]]
    have arch: "archive (closeMuxer api m2 w) (segs @ map (Pair hs) blocks)"
      using close_archives [OF w2 w(2)] append_butlast_last_id [OF w(3)]
      by (metis (no_types, lifting) append.assoc list.simps(8) list.simps(9) map_append)
    have rot: "rotateMuxer api hs p m2 w r = (None, m', w', r')"
      using assms(2) m1 m2 WriteRotate by (simp add: handlePacket_def)
    then obtain n where n: "openAndInitMuxer api hs (closeMuxer api m2 w) = (Inr n, w')" "mx_WritePacket api p n = (WriteOk, m')"
      by (auto simp: rotateMuxer_def Let_def split: prod.splits sum.splits write_result.splits)
    have "wrote m' hs [p]" "archive w' (segs @ map (Pair hs) blocks)"
      using open_wrote [OF arch n(1)] packet_wrote [OF _ n(2)] by fastforce+
    then show ?thesis
      by (intro exI [of _ "blocks @ [[p]]"]) (simp add: holds_def)
  next
    case WriteErr
    then show ?thesis
      using assms(2) m1 m2 by (simp add: handlePacket_def)
  qed
qed

lemma packetLoop_holds:
  assumes "holds m w hs segs blocks" and "packetLoop api hs pkts m w r = (None, m', w', r')"
  shows "\<exists>blocks'. holds m' w' hs segs blocks' \<and> concat blocks' = concat blocks @ pkts"
  using assms
proof (induction pkts arbitrary: m w r blocks)
  case (Cons p pkts)
  obtain m1 w1 r1 where h: "handlePacket api hs p m w r = (None, m1, w1, r1)" "packetLoop api hs pkts m1 w1 r1 = (None, m', w', r')"
    using Cons.prems(2) by (auto split: prod.splits option.splits)
  obtain blocks1 where "holds m1 w1 hs segs blocks1" "concat blocks1 = concat blocks @ [p]"
    using handlePacket_holds [OF Cons.prems(1) h(1)] by blast
  then show ?case
    using Cons.IH [OF _ h(2)] by fastforce
qed auto

lemma run_archives:
  assumes "archive w segs" and "cons_run api hs pkts w = (None, w', r)"
  shows "\<exists>blocks. blocks \<noteq> [] \<and> archive w' (segs @ map (Pair hs) blocks) \<and> concat blocks = pkts"
proof -
  obtain m w1 m1 w2 where o: "openAndInitMuxer api hs w = (Inr m, w1)" "packetLoop api hs pkts m w1 0 = (None, m1, w2, r)"
    "w' = closeMuxer api m1 w2"
    using assms(2) by (auto simp: cons_run_def split: prod.splits sum.splits)
  have "holds m w1 hs segs [[]]"
    using open_wrote [OF assms(1) o(1)] by (simp add: holds_def)
  from packetLoop_holds [OF this o(2)] obtain blocks where b: "holds m1 w2 hs segs blocks" "concat blocks = pkts"
    by auto
  then have "archive w' ((segs @ map (Pair hs) (butlast blocks)) @ [(hs, last blocks)])"
    unfolding o(3) holds_def using close_archives by blast
  moreover have "map (Pair hs) (butlast blocks) @ [(hs, last blocks)] = map (Pair hs) blocks"
    using b(1) append_butlast_last_id [of blocks] by (metis holds_def list.simps(8) list.simps(9) map_append)
  ultimately show ?thesis
    using b by (intro exI [of _ blocks]) (simp add: holds_def)
qed

end

subsection \<open>The consumer as the relay sees it\<close>

text \<open>
  The goroutine: not started, waiting for the headers, waiting for a packet, handling one, or gone.  The channel \<^verbatim>\<open>headersAvailable\<close>
  is open and empty, closed with a value in it, or closed and empty.
\<close>

datatype 'm goroutine = NotStarted | AwaitHeaders | Driving 'm | Handling 'm packet | Gone

datatype header_chan = HeadersPending | HeadersSent | HeadersClosed

record 'm Consumer =
  cs_packets :: "packet list"
  cs_queueSize :: nat
  cs_alreadyClosing :: bool
  cs_started :: bool
  cs_cancelled :: bool
  cs_inactive :: bool
  cs_errCh :: bool
  cs_headers :: "stream list"
  cs_headersErr :: "cons_error option"
  cs_headersAvailable :: header_chan
  cs_skipBefore :: duration
  cs_skipBeforeSet :: bool
  cs_needsKeyframe :: bool
  cs_rotations :: u64
  cs_skips :: u64
  cs_goroutine :: "'m goroutine"

definition NewConsumer :: "bool \<Rightarrow> int \<Rightarrow> 'm Consumer" where
  "NewConsumer errCh queueSize =
    \<lparr>cs_packets = [], cs_queueSize = nat (if queueSize \<le> 0 then 50 else queueSize), cs_alreadyClosing = False,
     cs_started = False, cs_cancelled = False, cs_inactive = False, cs_errCh = errCh, cs_headers = [],
     cs_headersErr = None, cs_headersAvailable = HeadersPending, cs_skipBefore = 0, cs_skipBeforeSet = False,
     cs_needsKeyframe = False, cs_rotations = 0, cs_skips = 0, cs_goroutine = NotStarted\<rparr>"

datatype start_error = ErrConsumerAlreadyStarted | ErrConsumerClosing

definition cons_Start :: "'m Consumer \<Rightarrow> start_error option \<times> 'm Consumer" where
  "cons_Start c =
    (if cs_started c then (Some ErrConsumerAlreadyStarted, c)
     else let c1 = c\<lparr>cs_started := True\<rparr> in
       if cs_alreadyClosing c1 then (Some ErrConsumerClosing, c1) else (None, c1\<lparr>cs_goroutine := AwaitHeaders\<rparr>))"

text \<open>
  \<^verbatim>\<open>Close\<close> up to the point where it waits for the goroutine; it returns when the goroutine is gone.
\<close>

definition cons_Close :: "'m Consumer \<Rightarrow> 'm Consumer" where
  "cons_Close c =
    (if cs_alreadyClosing c then c
     else c\<lparr>cs_alreadyClosing := True, cs_inactive := True, cs_cancelled := True\<rparr>)"

definition cons_setLastError :: "cons_error \<Rightarrow> 'm Consumer \<Rightarrow> 'm Consumer" where
  "cons_setLastError e c =
    (let c1 = c\<lparr>cs_headersErr := Some e\<rparr> in if \<not> cs_errCh c1 then c1 else c1\<lparr>cs_inactive := True\<rparr>)"

definition cons_WriteCodecChange :: "stream list \<Rightarrow> 'm Consumer \<Rightarrow> 'm Consumer" where
  "cons_WriteCodecChange changed c = c\<lparr>cs_headers := changed\<rparr>"

text \<open>\<^verbatim>\<open>writeOnce\<close> has run just when the channel of the headers is closed.\<close>

definition cons_WriteHeader :: "stream list \<Rightarrow> 'm Consumer \<Rightarrow> cons_error option \<times> 'm Consumer" where
  "cons_WriteHeader streams c =
    (let c1 = (if cs_headersAvailable c \<noteq> HeadersPending then c
               else if length streams = 0
               then (cons_setLastError ErrCodecsNotAvailable c)\<lparr>cs_headersAvailable := HeadersClosed\<rparr>
               else (cons_WriteCodecChange streams c)\<lparr>cs_headersAvailable := HeadersSent\<rparr>)
     in (cs_headersErr c1, c1))"

definition SetSkipBefore :: "duration \<Rightarrow> 'm Consumer \<Rightarrow> 'm Consumer" where
  "SetSkipBefore dts c = c\<lparr>cs_skipBefore := dts, cs_skipBeforeSet := True\<rparr>"

definition NeedsKeyframeRecovery :: "packet \<Rightarrow> 'm Consumer \<Rightarrow> bool \<times> 'm Consumer" where
  "NeedsKeyframeRecovery pkt c =
    (if \<not> cs_needsKeyframe c then (False, c)
     else if \<not> KeyFrame pkt then (True, c\<lparr>cs_skips := cs_skips c + 1\<rparr>)
     else (False, c\<lparr>cs_needsKeyframe := False\<rparr>))"

definition ShouldSkip :: "packet \<Rightarrow> 'm Consumer \<Rightarrow> bool \<times> 'm Consumer" where
  "ShouldSkip pkt c =
    (if \<not> cs_skipBeforeSet c then (False, c)
     else if DTS pkt < cs_skipBefore c then (True, c)
     else (False, c\<lparr>cs_skipBeforeSet := False\<rparr>))"

text \<open>A send blocks while the channel is full: \<^const>\<open>None\<close>.  The leaky send drops the packet instead: \<open>False\<close>.\<close>

definition cons_WritePacket :: "packet \<Rightarrow> 'm Consumer \<Rightarrow> 'm Consumer option" where
  "cons_WritePacket pkt c =
    (if length (cs_packets c) < cs_queueSize c then Some (c\<lparr>cs_packets := cs_packets c @ [pkt]\<rparr>) else None)"

definition WritePacketLeaky :: "packet \<Rightarrow> 'm Consumer \<Rightarrow> bool \<times> 'm Consumer" where
  "WritePacketLeaky pkt c =
    (case cons_WritePacket pkt c of None \<Rightarrow> (False, c) | Some c1 \<Rightarrow> (True, c1))"

text \<open>The steps of the goroutine: it receives the headers, receives a packet, handles it, or sees that it is cancelled.\<close>

definition goAwait :: "('m, 'w) mux_api \<Rightarrow> 'm Consumer \<Rightarrow> 'w \<Rightarrow> 'm Consumer \<times> 'w" where
  "goAwait api c w =
    (if cs_headersAvailable c = HeadersSent
     then let c1 = c\<lparr>cs_headersAvailable := HeadersClosed\<rparr> in
       (case openAndInitMuxer api (cs_headers c1) w of
          (Inl e, w1) \<Rightarrow> ((cons_setLastError e c1)\<lparr>cs_goroutine := Gone, cs_inactive := True\<rparr>, w1)
        | (Inr m, w1) \<Rightarrow> (c1\<lparr>cs_goroutine := Driving m\<rparr>, w1))
     else (c\<lparr>cs_goroutine := Gone, cs_inactive := True\<rparr>, w))"

definition goPacket :: "('m, 'w) mux_api \<Rightarrow> 'm \<Rightarrow> packet \<Rightarrow> 'm Consumer \<Rightarrow> 'w \<Rightarrow> 'm Consumer \<times> 'w" where
  "goPacket api m pkt c w =
    (case handlePacket api (cs_headers c) pkt m w (cs_rotations c) of
       (None, m1, w1, r) \<Rightarrow> (c\<lparr>cs_goroutine := Driving m1, cs_rotations := r\<rparr>, w1)
     | (Some e, m1, w1, r) \<Rightarrow>
         ((cons_setLastError e (c\<lparr>cs_rotations := r\<rparr>))\<lparr>cs_goroutine := Gone, cs_inactive := True\<rparr>, closeMuxer api m1 w1))"

definition goCancel :: "('m, 'w) mux_api \<Rightarrow> 'm Consumer \<Rightarrow> 'w \<Rightarrow> 'm Consumer \<times> 'w" where
  "goCancel api c w =
    (c\<lparr>cs_goroutine := Gone, cs_inactive := True\<rparr>, case cs_goroutine c of Driving m \<Rightarrow> closeMuxer api m w | _ \<Rightarrow> w)"

end
