(* ===== verification/Relay.thy ===== *)
theory Relay
  imports Relay_Consumer
begin

text \<open>
  A relay (\<^verbatim>\<open>av/relayhub/relay.go\<close>): the loop that reads a demuxer and fans its packets out, the attachment and
  removal of consumers, and shutdown.  The goroutines interleave at their critical sections; an action of the
  system is one critical section of one goroutine, and \<^verbatim>\<open>relay_exec\<close> executes it, or is \<^const>\<open>None\<close> where the goroutine
  would wait.  Consumers live in a heap: the loop and a sweep keep pointers to consumers that may meanwhile be
  removed.  The map of consumers is an association list; the order in which the loop traverses it is a parameter of
  the action.
\<close>

subsection \<open>State\<close>

datatype relay_error =
    ErrRelayAlreadyStarted | ErrRelayClosing | ErrRelayNotStartedYet | ErrMaxConsumersReached | ErrConsumerAlreadyExists
  | RelayCodecError | RelayConsumerError cons_error

text \<open>
  The reading loop: waiting for its ticker, about to collect the active consumers for a packet, or delivering
  it to the remaining ones (blocking when there was one, leaky otherwise).
\<close>

datatype loop_state = LoopNone | LoopIdle | LoopCollect packet | LoopDeliver bool packet "nat list" | LoopDone

text \<open>The phases of \<^verbatim>\<open>AddConsumer\<close> between its critical sections.\<close>

datatype add_phase = AddWait bool | AddGOP | AddInject "packet list" "duration option" | AddPublish | AddDone "relay_error option"

record adder =
  ad_id :: string
  ad_obj :: nat
  ad_phase :: add_phase

text \<open>
  History of a consumer, which no operation reads: the packets injected at attachment, the number of packets
  read by then, and the packets delivered by the loop.
\<close>

record sent =
  h_gop :: "packet list"
  h_at :: nat
  h_live :: "packet list"

text \<open>The sweeper closes the consumers it has collected, all of them at the end, before it deletes their identifiers.\<close>

datatype sweep_state = SweepIdle | Sweeping bool "(string \<times> nat) list" | SweepOver

record ('m, 'w) relay =
  ry_started :: bool
  ry_alreadyClosing :: bool
  ry_cancelled :: bool
  ry_consumers :: "(string \<times> nat) list"
  ry_objs :: "'m Consumer list"
  ry_headers :: "stream list"
  ry_headersErr :: "relay_error option"
  ry_headersAvailable :: bool
  ry_pktBuf :: Buffer
  ry_maxConsumers :: int
  ry_packetBufWindow :: duration
  ry_consumerQueueSize :: int
  ry_packetsRead :: u64
  ry_videoPacketsRead :: u64
  ry_bytesRead :: u64
  ry_keyFrames :: u64
  ry_droppedPackets :: u64
  ry_loop :: loop_state
  ry_adders :: "adder list"
  ry_sweep :: sweep_state
  ry_world :: 'w
  ry_read :: "packet list"
  ry_buffered :: "packet list"
  ry_sent :: "sent list"

definition NewRelay :: "int \<Rightarrow> duration \<Rightarrow> int \<Rightarrow> 'w \<Rightarrow> ('m, 'w) relay" where
  "NewRelay maxConsumers window queueSize w =
    \<lparr>ry_started = False, ry_alreadyClosing = False, ry_cancelled = False, ry_consumers = [], ry_objs = [],
     ry_headers = [], ry_headersErr = None, ry_headersAvailable = False, ry_pktBuf = NewBuffer 0,
     ry_maxConsumers = maxConsumers, ry_packetBufWindow = window, ry_consumerQueueSize = queueSize,
     ry_packetsRead = 0, ry_videoPacketsRead = 0, ry_bytesRead = 0, ry_keyFrames = 0, ry_droppedPackets = 0,
     ry_loop = LoopNone, ry_adders = [], ry_sweep = SweepIdle, ry_world = w, ry_read = [], ry_buffered = [], ry_sent = []\<rparr>"

subsection \<open>Starting\<close>

definition relay_Start :: "('m, 'w) relay \<Rightarrow> relay_error option \<times> ('m, 'w) relay" where
  "relay_Start m =
    (if ry_started m then (Some ErrRelayAlreadyStarted, m)
     else let m1 = m\<lparr>ry_started := True\<rparr> in
       if ry_alreadyClosing m1 then (Some ErrRelayClosing, m1)
       else let bufWindow = (if ry_packetBufWindow m1 > 0 then ry_packetBufWindow m1 else 30 * second)
         in (None, m1\<lparr>ry_pktBuf := NewBuffer bufWindow\<rparr>))"

text \<open>The demuxer's goroutine has its headers: it publishes them and starts the loop.\<close>

definition publishHeaders :: "stream list \<Rightarrow> ('m, 'w) relay \<Rightarrow> ('m, 'w) relay" where
  "publishHeaders streams m =
    m\<lparr>ry_headers := streams, ry_headersAvailable := True, ry_pktBuf := buf_WriteHeader streams (ry_pktBuf m), ry_loop := LoopIdle\<rparr>"

definition setLastCodecError :: "relay_error \<Rightarrow> ('m, 'w) relay \<Rightarrow> ('m, 'w) relay" where
  "setLastCodecError e m = m\<lparr>ry_headersErr := Some e, ry_headersAvailable := True\<rparr>"

subsection \<open>The loop\<close>

text \<open>A packet has been read: counters, headers and the packet buffer.\<close>

definition relayRead :: "gotime \<Rightarrow> gotime \<Rightarrow> packet \<Rightarrow> ('m, 'w) relay \<Rightarrow> ('m, 'w) relay" where
  "relayRead now1 now2 pkt m =
    (let m1 = m\<lparr>ry_packetsRead := ry_packetsRead m + 1, ry_bytesRead := ry_bytesRead m + of_nat (length (Data pkt)),
               ry_videoPacketsRead := ry_videoPacketsRead m + (if IsVideo (CodecType pkt) then 1 else 0),
               ry_keyFrames := ry_keyFrames m + (if KeyFrame pkt then 1 else 0)\<rparr>;
         m2 = (case NewCodecs pkt of
                 None \<Rightarrow> m1
               | Some cs \<Rightarrow> m1\<lparr>ry_headers := cs, ry_pktBuf := buf_WriteHeader cs (ry_pktBuf m1)\<rparr>)
     in m2\<lparr>ry_pktBuf := buf_WritePacket now1 now2 pkt (ry_pktBuf m2), ry_loop := LoopCollect pkt,
           ry_read := ry_read m @ [pkt], ry_buffered := ry_buffered m @ [stampPacket now1 pkt]\<rparr>)"

definition activeObjs :: "('m, 'w) relay \<Rightarrow> nat list" where
  "activeObjs m = filter (\<lambda>i. cs_headersErr (ry_objs m ! i) = None \<and> \<not> cs_inactive (ry_objs m ! i)) (map snd (ry_consumers m))"

definition collectActive :: "nat list \<Rightarrow> packet \<Rightarrow> ('m, 'w) relay \<Rightarrow> ('m, 'w) relay option" where
  "collectActive active pkt m =
    (if distinct active \<and> set active = set (activeObjs m)
     then Some (m\<lparr>ry_loop := LoopDeliver (length active = 1) pkt active\<rparr>) else None)"

definition putObj :: "nat \<Rightarrow> 'm Consumer \<Rightarrow> ('m, 'w) relay \<Rightarrow> ('m, 'w) relay" where
  "putObj i c m = m\<lparr>ry_objs := (ry_objs m)[i := c]\<rparr>"

definition logLive :: "nat \<Rightarrow> packet \<Rightarrow> ('m, 'w) relay \<Rightarrow> ('m, 'w) relay" where
  "logLive i pkt m = m\<lparr>ry_sent := (ry_sent m)[i := (ry_sent m ! i)\<lparr>h_live := h_live (ry_sent m ! i) @ [pkt]\<rparr>]\<rparr>"

text \<open>Delivery to a single active consumer waits for room in its queue.\<close>

definition deliverBlocking :: "packet \<Rightarrow> nat \<Rightarrow> ('m, 'w) relay \<Rightarrow> ('m, 'w) relay option" where
  "deliverBlocking pkt i m =
    (case ShouldSkip pkt (ry_objs m ! i) of
       (True, c) \<Rightarrow> Some (putObj i c m)
     | (False, c) \<Rightarrow> map_option (\<lambda>c1. logLive i pkt (putObj i c1 m)) (cons_WritePacket pkt c))"

definition deliverLeaky :: "packet \<Rightarrow> nat \<Rightarrow> ('m, 'w) relay \<Rightarrow> ('m, 'w) relay" where
  "deliverLeaky pkt i m =
    (case ShouldSkip pkt (ry_objs m ! i) of
       (True, c) \<Rightarrow> putObj i c m
     | (False, c) \<Rightarrow>
         (case NeedsKeyframeRecovery pkt c of
            (True, c1) \<Rightarrow> putObj i c1 m
          | (False, c1) \<Rightarrow>
              (case WritePacketLeaky pkt c1 of
                 (True, c2) \<Rightarrow> logLive i pkt (putObj i c2 m)
               | (False, c2) \<Rightarrow>
                   if ry_cancelled m then putObj i c2 m
                   else (putObj i (c2\<lparr>cs_needsKeyframe := True\<rparr>) m)\<lparr>ry_droppedPackets := ry_droppedPackets m + 1\<rparr>)))"

definition deliverNext :: "('m, 'w) relay \<Rightarrow> ('m, 'w) relay option" where
  "deliverNext m =
    (case ry_loop m of
       LoopDeliver single pkt [] \<Rightarrow> Some (m\<lparr>ry_loop := LoopIdle\<rparr>)
     | LoopDeliver single pkt (i # is) \<Rightarrow>
         map_option (\<lambda>m1. m1\<lparr>ry_loop := LoopDeliver single pkt is\<rparr>)
           (if single then deliverBlocking pkt i m else Some (deliverLeaky pkt i m))
     | _ \<Rightarrow> None)"

text \<open>
  When the relay is cancelled a send may give up instead, and must where the queue is full; its error is ignored.
\<close>

definition deliverAbort :: "('m, 'w) relay \<Rightarrow> ('m, 'w) relay option" where
  "deliverAbort m =
    (case ry_loop m of
       LoopDeliver single pkt (i # is) \<Rightarrow>
         let (skip, c) = ShouldSkip pkt (ry_objs m ! i); (wait, c1) = (if single then (False, c) else NeedsKeyframeRecovery pkt c) in
         if ry_cancelled m \<and> \<not> skip \<and> \<not> wait
         then Some ((putObj i c1 m)\<lparr>ry_loop := LoopDeliver single pkt is\<rparr>) else None
     | _ \<Rightarrow> None)"

subsection \<open>Attaching a consumer\<close>

definition putAdder :: "nat \<Rightarrow> adder \<Rightarrow> ('m, 'w) relay \<Rightarrow> ('m, 'w) relay" where
  "putAdder k a m = m\<lparr>ry_adders := (ry_adders m)[k := a]\<rparr>"

definition addCheck :: "string \<Rightarrow> ('m, 'w) relay \<Rightarrow> relay_error option" where
  "addCheck consumerID m =
    (if ry_alreadyClosing m then Some ErrRelayClosing
     else if \<not> ry_started m then Some ErrRelayNotStartedYet
     else if ry_headersErr m \<noteq> None then ry_headersErr m
     else if ry_maxConsumers m > 0 \<and> int (length (ry_consumers m)) \<ge> ry_maxConsumers m then Some ErrMaxConsumersReached
     else if map_of (ry_consumers m) consumerID \<noteq> None then Some ErrConsumerAlreadyExists
     else None)"

definition addBegin :: "string \<Rightarrow> bool \<Rightarrow> ('m, 'w) relay \<Rightarrow> ('m, 'w) relay" where
  "addBegin consumerID errCh m =
    m\<lparr>ry_adders := ry_adders m @ [\<lparr>ad_id = consumerID, ad_obj = 0,
        ad_phase = (case addCheck consumerID m of None \<Rightarrow> AddWait errCh | Some e \<Rightarrow> AddDone (Some e))\<rparr>]\<rparr>"

text \<open>\<^verbatim>\<open>GetCodecs\<close> returns, and the consumer is created, started and given its header.\<close>

definition addOpen :: "nat \<Rightarrow> bool \<Rightarrow> ('m, 'w) relay \<Rightarrow> ('m, 'w) relay option" where
  "addOpen k errCh m =
    (if \<not> ry_headersAvailable m then None
     else if ry_headersErr m \<noteq> None
     then Some (putAdder k ((ry_adders m ! k)\<lparr>ad_phase := AddDone (Some RelayCodecError)\<rparr>) m)
     else let queueSize = (if ry_consumerQueueSize m > 0 then ry_consumerQueueSize m else 50);
              (e, c) = cons_WriteHeader (ry_headers m) (snd (cons_Start (NewConsumer errCh queueSize)));
              ph = (case e of None \<Rightarrow> AddGOP | Some err \<Rightarrow> AddDone (Some (RelayConsumerError err)))
       in Some (putAdder k ((ry_adders m ! k)\<lparr>ad_obj := length (ry_objs m), ad_phase := ph\<rparr>)
            (m\<lparr>ry_objs := ry_objs m @ [c], ry_sent := ry_sent m @ [\<lparr>h_gop = [], h_at = 0, h_live = []\<rparr>]\<rparr>)))"

definition addGOP :: "nat \<Rightarrow> ('m, 'w) relay \<Rightarrow> ('m, 'w) relay" where
  "addGOP k m =
    (let a = ry_adders m ! k; gop = LastGOP (ry_pktBuf m); i = ad_obj a
     in putAdder k (a\<lparr>ad_phase := AddInject gop (if gop = [] then None else Some (DTS (last gop)))\<rparr>)
          (m\<lparr>ry_sent := (ry_sent m)[i := (ry_sent m ! i)\<lparr>h_at := length (ry_read m)\<rparr>]\<rparr>))"

definition logGop :: "nat \<Rightarrow> packet \<Rightarrow> ('m, 'w) relay \<Rightarrow> ('m, 'w) relay" where
  "logGop i pkt m = m\<lparr>ry_sent := (ry_sent m)[i := (ry_sent m ! i)\<lparr>h_gop := h_gop (ry_sent m ! i) @ [pkt]\<rparr>]\<rparr>"

definition addInject :: "nat \<Rightarrow> packet list \<Rightarrow> duration option \<Rightarrow> ('m, 'w) relay \<Rightarrow> ('m, 'w) relay option" where
  "addInject k pkts lastDTS m =
    (let a = ry_adders m ! k; i = ad_obj a in
     case pkts of
       [] \<Rightarrow> Some (putAdder k (a\<lparr>ad_phase := AddPublish\<rparr>)
               (case lastDTS of None \<Rightarrow> m | Some dts \<Rightarrow> putObj i (SetSkipBefore dts (ry_objs m ! i)) m))
     | p # ps \<Rightarrow>
         map_option (\<lambda>c. putAdder k (a\<lparr>ad_phase := AddInject ps lastDTS\<rparr>) (logGop i p (putObj i c m)))
           (cons_WritePacket p (ry_objs m ! i)))"

definition addPublish :: "nat \<Rightarrow> ('m, 'w) relay \<Rightarrow> ('m, 'w) relay" where
  "addPublish k m =
    (let a = ry_adders m ! k; i = ad_obj a in
     if ry_alreadyClosing m
     then putAdder k (a\<lparr>ad_phase := AddDone (Some ErrRelayClosing)\<rparr>) (putObj i (cons_Close (ry_objs m ! i)) m)
     else if map_of (ry_consumers m) (ad_id a) \<noteq> None
     then putAdder k (a\<lparr>ad_phase := AddDone (Some ErrConsumerAlreadyExists)\<rparr>) (putObj i (cons_Close (ry_objs m ! i)) m)
     else putAdder k (a\<lparr>ad_phase := AddDone None\<rparr>) (m\<lparr>ry_consumers := ry_consumers m @ [(ad_id a, i)]\<rparr>))"

definition addStep :: "nat \<Rightarrow> ('m, 'w) relay \<Rightarrow> ('m, 'w) relay option" where
  "addStep k m =
    (if k < length (ry_adders m) then
       (case ad_phase (ry_adders m ! k) of
          AddWait errCh \<Rightarrow> addOpen k errCh m
        | AddGOP \<Rightarrow> Some (addGOP k m)
        | AddInject pkts lastDTS \<Rightarrow> addInject k pkts lastDTS m
        | AddPublish \<Rightarrow> Some (addPublish k m)
        | AddDone r \<Rightarrow> None)
     else None)"

subsection \<open>Removing consumers and shutting down\<close>

definition closeObjs :: "nat list \<Rightarrow> ('m, 'w) relay \<Rightarrow> ('m, 'w) relay" where
  "closeObjs is m = fold (\<lambda>i m. putObj i (cons_Close (ry_objs m ! i)) m) is m"

definition RemoveConsumer :: "string \<Rightarrow> ('m, 'w) relay \<Rightarrow> ('m, 'w) relay" where
  "RemoveConsumer consumerID m =
    (case map_of (ry_consumers m) consumerID of
       None \<Rightarrow> m
     | Some i \<Rightarrow> closeObjs [i] (m\<lparr>ry_consumers := filter (\<lambda>(k, _). k \<noteq> consumerID) (ry_consumers m)\<rparr>))"

text \<open>
  The ticker collects the inactive consumers, closes them, and deletes their identifiers; \<^verbatim>\<open>Close\<close> of a consumer
  returns when its goroutine is gone.  A cancelled relay does the same with all its consumers.
\<close>

definition sweepCollect :: "bool \<Rightarrow> ('m, 'w) relay \<Rightarrow> ('m, 'w) relay option" where
  "sweepCollect all m =
    (if ry_sweep m \<noteq> SweepIdle \<or> (if all then \<not> ry_cancelled m else ry_loop m = LoopNone) then None
     else let inactive = filter (\<lambda>(k, i). all \<or> cs_inactive (ry_objs m ! i)) (ry_consumers m)
       in Some (closeObjs (map snd inactive) (m\<lparr>ry_sweep := Sweeping all inactive\<rparr>)))"

definition sweepDelete :: "('m, 'w) relay \<Rightarrow> ('m, 'w) relay option" where
  "sweepDelete m =
    (case ry_sweep m of
       Sweeping all inactive \<Rightarrow>
         if list_all (\<lambda>(k, i). cs_goroutine (ry_objs m ! i) = Gone) inactive
         then Some (m\<lparr>ry_consumers := (if all then [] else filter (\<lambda>(k, _). k \<notin> fst ` set inactive) (ry_consumers m)),
                      ry_sweep := (if all then SweepOver else SweepIdle)\<rparr>)
         else None
     | _ \<Rightarrow> None)"

definition relay_Close :: "('m, 'w) relay \<Rightarrow> ('m, 'w) relay" where
  "relay_Close m = (if ry_alreadyClosing m then m else m\<lparr>ry_alreadyClosing := True, ry_cancelled := ry_started m \<or> ry_cancelled m\<rparr>)"

subsection \<open>The goroutine of a consumer\<close>

definition goStep :: "('m, 'w) mux_api \<Rightarrow> nat \<Rightarrow> ('m, 'w) relay \<Rightarrow> ('m, 'w) relay option" where
  "goStep api i m =
    (if i < length (ry_objs m) then
       let c = ry_objs m ! i in
       (case (cs_goroutine c, cs_packets c) of
          (AwaitHeaders, _) \<Rightarrow>
            if cs_headersAvailable c = HeadersPending then None
            else let (c1, w) = goAwait api c (ry_world m) in Some ((putObj i c1 m)\<lparr>ry_world := w\<rparr>)
        | (Driving x, p # ps) \<Rightarrow> Some (putObj i (c\<lparr>cs_packets := ps, cs_goroutine := Handling x p\<rparr>) m)
        | (Handling x p, _) \<Rightarrow> let (c1, w) = goPacket api x p c (ry_world m) in Some ((putObj i c1 m)\<lparr>ry_world := w\<rparr>)
        | _ \<Rightarrow> None)
     else None)"

definition goCancelStep :: "('m, 'w) mux_api \<Rightarrow> nat \<Rightarrow> ('m, 'w) relay \<Rightarrow> ('m, 'w) relay option" where
  "goCancelStep api i m =
    (if i < length (ry_objs m) \<and> (cs_cancelled (ry_objs m ! i) \<or> ry_cancelled m) \<and>
        (case cs_goroutine (ry_objs m ! i) of AwaitHeaders \<Rightarrow> True | Driving x \<Rightarrow> True | _ \<Rightarrow> False)
     then let (c1, w) = goCancel api (ry_objs m ! i) (ry_world m) in Some ((putObj i c1 m)\<lparr>ry_world := w\<rparr>)
     else None)"

subsection \<open>The system\<close>

datatype action =
    DoStart | DoHeaders "stream list" | DoHeadersFail | DoRead packet gotime gotime | DoReadFail | DoLoopStop
  | DoCollect "nat list" | DoDeliver | DoDeliverAbort | DoAdd string bool | DoAddStep nat | DoRemove string
  | DoSweep bool | DoSweepDelete | DoClose | DoGo nat | DoGoCancel nat

fun relay_exec :: "('m, 'w) mux_api \<Rightarrow> action \<Rightarrow> ('m, 'w) relay \<Rightarrow> ('m, 'w) relay option" where
  "relay_exec api DoStart m = Some (snd (relay_Start m))"
| "relay_exec api (DoHeaders ss) m =
    (if ry_started m \<and> \<not> ry_headersAvailable m \<and> ry_loop m = LoopNone then Some (publishHeaders ss m) else None)"
| "relay_exec api DoHeadersFail m =
    (if ry_started m \<and> \<not> ry_headersAvailable m then Some ((setLastCodecError RelayCodecError m)\<lparr>ry_cancelled := True\<rparr>) else None)"
| "relay_exec api (DoRead p now1 now2) m = (if ry_loop m = LoopIdle then Some (relayRead now1 now2 p m) else None)"
| "relay_exec api DoReadFail m = (if ry_loop m = LoopIdle then Some (m\<lparr>ry_cancelled := True, ry_loop := LoopDone\<rparr>) else None)"
| "relay_exec api DoLoopStop m = (if ry_loop m = LoopIdle \<and> ry_cancelled m then Some (m\<lparr>ry_loop := LoopDone\<rparr>) else None)"
| "relay_exec api (DoCollect active) m = (case ry_loop m of LoopCollect p \<Rightarrow> collectActive active p m | _ \<Rightarrow> None)"
| "relay_exec api DoDeliver m = deliverNext m"
| "relay_exec api DoDeliverAbort m = deliverAbort m"
| "relay_exec api (DoAdd consumerID errCh) m = Some (addBegin consumerID errCh m)"
| "relay_exec api (DoAddStep k) m = addStep k m"
| "relay_exec api (DoRemove consumerID) m = Some (RemoveConsumer consumerID m)"
| "relay_exec api (DoSweep all) m = sweepCollect all m"
| "relay_exec api DoSweepDelete m = sweepDelete m"
| "relay_exec api DoClose m = Some (relay_Close m)"
| "relay_exec api (DoGo i) m = goStep api i m"
| "relay_exec api (DoGoCancel i) m = goCancelStep api i m"

fun relay_run :: "('m, 'w) mux_api \<Rightarrow> action list \<Rightarrow> ('m, 'w) relay \<Rightarrow> ('m, 'w) relay option" where
  "relay_run api [] m = Some m"
| "relay_run api (a # as) m = (case relay_exec api a m of None \<Rightarrow> None | Some m1 \<Rightarrow> relay_run api as m1)"

end
