(* ===== verification/Relay_Inv.thy ===== *)
theory Relay_Inv
  imports Relay "HOL-Library.Sublist"
begin

text \<open>
  The invariant of a relay and its consumers under every interleaving of \<^verbatim>\<open>relay_exec\<close>, and what it says about
  delivery.  The invariant has three parts: the history of the packets read, the consumers an attachment in
  progress owns, and the queue and history of every consumer.
\<close>

subsection \<open>The invariant of the system\<close>

definition chan_ok :: "'m Consumer \<Rightarrow> sent \<Rightarrow> bool" where
  "chan_ok c h \<longleftrightarrow> length (cs_packets c) \<le> cs_queueSize c \<and> suffix (cs_packets c) (h_gop h @ h_live h)"

text \<open>
  \<open>pend\<close> says that the loop has still to decide about the consumer for the packet it read last.
\<close>

definition hist_ok :: "packet list \<Rightarrow> packet list \<Rightarrow> bool \<Rightarrow> sent \<Rightarrow> bool" where
  "hist_ok rd bf pend h \<longleftrightarrow> h_at h \<le> length rd \<and> (\<exists>rest. suffix (h_gop h @ rest) (take (h_at h) bf)) \<and>
    subseq (h_live h) (drop (h_at h - 1) (if pend then butlast rd else rd))"

fun pending :: "loop_state \<Rightarrow> nat \<Rightarrow> bool" where
  "pending (LoopCollect p) i = True"
| "pending (LoopDeliver single p is) i = (i \<in> set is)"
| "pending _ i = False"

fun loop_ok :: "packet list \<Rightarrow> loop_state \<Rightarrow> bool" where
  "loop_ok rd (LoopCollect p) = (\<exists>xs. rd = xs @ [p])"
| "loop_ok rd (LoopDeliver single p is) = ((\<exists>xs. rd = xs @ [p]) \<and> distinct is)"
| "loop_ok rd _ = True"

fun loopObjs :: "loop_state \<Rightarrow> nat set" where
  "loopObjs (LoopDeliver single p is) = set is"
| "loopObjs _ = {}"

fun busy :: "add_phase \<Rightarrow> bool" where
  "busy AddGOP = True"
| "busy (AddInject ps d) = True"
| "busy AddPublish = True"
| "busy _ = False"

definition owned :: "adder list \<Rightarrow> nat \<Rightarrow> nat \<Rightarrow> bool" where
  "owned as k i \<longleftrightarrow> k < length as \<and> ad_obj (as ! k) = i \<and> busy (ad_phase (as ! k))"

fun phase_ok :: "packet list \<Rightarrow> sent \<Rightarrow> add_phase \<Rightarrow> bool" where
  "phase_ok bf h AddGOP = (h_gop h = [])"
| "phase_ok bf h (AddInject ps d) = suffix (h_gop h @ ps) (take (h_at h) bf)"
| "phase_ok bf h _ = True"

definition history_ok :: "('m, 'w) relay \<Rightarrow> bool" where
  "history_ok m \<longleftrightarrow> list_all2 (\<lambda>p q. \<exists>t. q = stampPacket t p) (ry_read m) (ry_buffered m) \<and>
    pbuf.windows (ry_pktBuf m) (ry_buffered m) \<and> loop_ok (ry_read m) (ry_loop m) \<and>
    (ry_read m \<noteq> [] \<or> ry_loop m \<noteq> LoopNone \<longrightarrow> ry_started m) \<and>
    ry_packetsRead m = of_nat (length (ry_read m)) \<and> ry_keyFrames m = of_nat (length (filter KeyFrame (ry_read m)))"

definition shared :: "('m, 'w) relay \<Rightarrow> nat set" where
  "shared m = snd ` set (ry_consumers m) \<union> loopObjs (ry_loop m)"

definition owners_ok :: "('m, 'w) relay \<Rightarrow> bool" where
  "owners_ok m \<longleftrightarrow> shared m \<subseteq> {..<length (ry_objs m)} \<and>
    (\<forall>k i. owned (ry_adders m) k i \<longrightarrow> i < length (ry_objs m) \<and> i \<notin> shared m \<and> h_live (ry_sent m ! i) = [] \<and>
       phase_ok (ry_buffered m) (ry_sent m ! i) (ad_phase (ry_adders m ! k)) \<and> (\<forall>k'. owned (ry_adders m) k' i \<longrightarrow> k' = k))"

definition objs_ok :: "('m, 'w) relay \<Rightarrow> bool" where
  "objs_ok m \<longleftrightarrow> length (ry_sent m) = length (ry_objs m) \<and>
    (\<forall>i < length (ry_objs m). chan_ok (ry_objs m ! i) (ry_sent m ! i) \<and>
       hist_ok (ry_read m) (ry_buffered m) (pending (ry_loop m) i) (ry_sent m ! i))"

definition relay_inv :: "('m, 'w) relay \<Rightarrow> bool" where
  "relay_inv m \<longleftrightarrow> history_ok m \<and> owners_ok m \<and> objs_ok m"

lemmas relay_inv_defs = relay_inv_def history_ok_def owners_ok_def objs_ok_def shared_def

lemma NewRelay_inv: "relay_inv (NewRelay n win q w)"
  by (simp add: relay_inv_defs NewRelay_def NewBuffer_def pbuf.windows_def owned_def)

subsubsection \<open>Channels\<close>

lemma chan_ok_same: "cs_packets c' = cs_packets c \<Longrightarrow> cs_queueSize c' = cs_queueSize c \<Longrightarrow> chan_ok c' h = chan_ok c h"
  by (simp add: chan_ok_def)

lemma filters_keep:
  "chan_ok (snd (ShouldSkip p c)) h = chan_ok c h" "chan_ok (snd (NeedsKeyframeRecovery p c)) h = chan_ok c h"
  "chan_ok (SetSkipBefore d c) h = chan_ok c h" "chan_ok (cons_Close c) h = chan_ok c h"
  "chan_ok (c\<lparr>cs_needsKeyframe := b\<rparr>) h = chan_ok c h"
  by (simp_all add: chan_ok_def ShouldSkip_def NeedsKeyframeRecovery_def SetSkipBefore_def cons_Close_def)

lemma cons_WritePacket_Some:
  "cons_WritePacket p c = Some c' \<longleftrightarrow> length (cs_packets c) < cs_queueSize c \<and> c' = c\<lparr>cs_packets := cs_packets c @ [p]\<rparr>"
  by (auto simp: cons_WritePacket_def)

lemma chan_ok_live: "cons_WritePacket p c = Some c' \<Longrightarrow> chan_ok c h \<Longrightarrow> chan_ok c' (h\<lparr>h_live := h_live h @ [p]\<rparr>)"
  by (auto simp: cons_WritePacket_Some chan_ok_def suffix_def)

lemma chan_ok_gop:
  "cons_WritePacket p c = Some c' \<Longrightarrow> chan_ok c h \<Longrightarrow> h_live h = [] \<Longrightarrow> chan_ok c' (h\<lparr>h_gop := h_gop h @ [p]\<rparr>)"
  by (auto simp: cons_WritePacket_Some chan_ok_def suffix_def)

subsubsection \<open>Histories\<close>

lemma hist_ok_decided: "hist_ok rd bf True h \<Longrightarrow> hist_ok rd bf False h"
  by (cases rd rule: rev_cases) (auto simp: hist_ok_def intro: subseq_rev_drop_many)

lemma hist_ok_weaken: "hist_ok rd bf b h \<Longrightarrow> (b' \<longrightarrow> b) \<Longrightarrow> hist_ok rd bf b' h"
  using hist_ok_decided by (cases b; cases b') auto

lemma hist_ok_live: "hist_ok (xs @ [p]) bf True h \<Longrightarrow> hist_ok (xs @ [p]) bf False (h\<lparr>h_live := h_live h @ [p]\<rparr>)"
  by (auto simp: hist_ok_def)

lemma hist_ok_read: "length bf = length rd \<Longrightarrow> hist_ok rd bf b h \<Longrightarrow> hist_ok (rd @ [p]) (bf @ [q]) True h"
  using hist_ok_decided [of rd bf h] by (cases b) (auto simp: hist_ok_def)


subsubsection \<open>Preservation\<close>

lemma putObj_sel [simp]:
  "ry_objs (putObj i c m) = (ry_objs m)[i := c]" "ry_sent (putObj i c m) = ry_sent m" "ry_loop (putObj i c m) = ry_loop m"
  "ry_read (putObj i c m) = ry_read m" "ry_buffered (putObj i c m) = ry_buffered m" "ry_adders (putObj i c m) = ry_adders m"
  "ry_consumers (putObj i c m) = ry_consumers m" "ry_pktBuf (putObj i c m) = ry_pktBuf m" "ry_started (putObj i c m) = ry_started m"
  "ry_packetsRead (putObj i c m) = ry_packetsRead m" "ry_keyFrames (putObj i c m) = ry_keyFrames m"
  "ry_cancelled (putObj i c m) = ry_cancelled m"
  by (simp_all add: putObj_def)

lemma history_ok_put [simp]: "history_ok (putObj i c m) = history_ok m"
  by (simp add: history_ok_def)

lemma owners_ok_put [simp]: "owners_ok (putObj i c m) = owners_ok m"
  by (simp add: owners_ok_def shared_def)

lemma relay_inv_put: "relay_inv m \<Longrightarrow> chan_ok c (ry_sent m ! i) \<Longrightarrow> relay_inv (putObj i c m)"
  by (cases "i < length (ry_objs m)") (auto simp: relay_inv_def objs_ok_def nth_list_update list_update_beyond)

lemma relay_inv_same:
  assumes "ry_objs m' = ry_objs m" "ry_sent m' = ry_sent m" "ry_loop m' = ry_loop m" "ry_read m' = ry_read m"
    "ry_buffered m' = ry_buffered m" "ry_adders m' = ry_adders m" "ry_consumers m' = ry_consumers m" "ry_pktBuf m' = ry_pktBuf m"
    "ry_started m' = ry_started m" "ry_packetsRead m' = ry_packetsRead m" "ry_keyFrames m' = ry_keyFrames m"
  shows "relay_inv m' = relay_inv m"
  unfolding relay_inv_defs assms by (rule refl)

lemma relay_inv_flags [simp]:
  "relay_inv (m\<lparr>ry_world := w\<rparr>) = relay_inv m"
  "relay_inv (m\<lparr>ry_droppedPackets := n\<rparr>) = relay_inv m" "relay_inv (m\<lparr>ry_sweep := sw\<rparr>) = relay_inv m"
  "relay_inv (m\<lparr>ry_cancelled := b\<rparr>) = relay_inv m" "relay_inv (m\<lparr>ry_alreadyClosing := b\<rparr>) = relay_inv m"
  by (rule relay_inv_same; simp)+

lemma relay_inv_sent: "relay_inv m \<Longrightarrow> i < length (ry_objs m) \<Longrightarrow> chan_ok (ry_objs m ! i) (ry_sent m ! i)"
  by (simp add: relay_inv_defs)

lemma relay_inv_consumers: "relay_inv m \<Longrightarrow> set cs \<subseteq> set (ry_consumers m) \<Longrightarrow> relay_inv (m\<lparr>ry_consumers := cs\<rparr>)"
proof -
  assume inv: "relay_inv m" and sub: "set cs \<subseteq> set (ry_consumers m)"
  have "shared (m\<lparr>ry_consumers := cs\<rparr>) \<subseteq> shared m"
    using sub by (auto simp: shared_def)
  then have "owners_ok (m\<lparr>ry_consumers := cs\<rparr>)"
    using inv unfolding relay_inv_def owners_ok_def by (auto simp del: subset_iff)
  moreover have "history_ok (m\<lparr>ry_consumers := cs\<rparr>) = history_ok m" "objs_ok (m\<lparr>ry_consumers := cs\<rparr>) = objs_ok m"
    by (simp_all add: history_ok_def objs_ok_def)
  ultimately show ?thesis
    using inv by (simp add: relay_inv_def)
qed

lemma relay_inv_closeObjs: "relay_inv m \<Longrightarrow> set is \<subseteq> {..<length (ry_objs m)} \<Longrightarrow> relay_inv (closeObjs is m)"
proof (induction "is" arbitrary: m)
  case (Cons i "is")
  then have "relay_inv (putObj i (cons_Close (ry_objs m ! i)) m)"
    by (intro relay_inv_put) (simp_all add: filters_keep relay_inv_sent)
  then show ?case
    using Cons by (simp add: closeObjs_def)
qed (simp add: closeObjs_def)

lemma registered_objs: "relay_inv m \<Longrightarrow> (k, i) \<in> set (ry_consumers m) \<Longrightarrow> i < length (ry_objs m)"
  unfolding relay_inv_def owners_ok_def shared_def by (auto simp: image_subset_iff split_beta dest: bspec)

lemma inv_Start: "relay_inv m \<Longrightarrow> relay_inv (snd (relay_Start m))"
proof (cases "ry_started m")
  case False
  assume inv: "relay_inv m"
  then have h: "history_ok m" and rest: "owners_ok m" "objs_ok m"
    by (simp_all add: relay_inv_def)
  let ?m = "snd (relay_Start m)"
  have sel: "ry_objs ?m = ry_objs m" "ry_sent ?m = ry_sent m" "ry_loop ?m = ry_loop m" "ry_read ?m = ry_read m"
    "ry_buffered ?m = ry_buffered m" "ry_adders ?m = ry_adders m" "ry_consumers ?m = ry_consumers m" "ry_started ?m"
    "ry_packetsRead ?m = ry_packetsRead m" "ry_keyFrames ?m = ry_keyFrames m"
    "ry_pktBuf ?m = ry_pktBuf m \<or> (\<exists>w. ry_pktBuf ?m = NewBuffer w)"
    using False by (auto simp: relay_Start_def Let_def)
  have "ry_read m = []" "ry_buffered m = []"
    using h False by (auto simp: history_ok_def)
  then have "pbuf.windows (ry_pktBuf ?m) (ry_buffered m)"
    using h sel(11) by (auto simp: history_ok_def pbuf.windows_def NewBuffer_def)
  then have "history_ok ?m"
    using h sel by (simp add: history_ok_def)
  moreover have "owners_ok ?m" "objs_ok ?m"
    using rest unfolding owners_ok_def objs_ok_def shared_def sel by blast+
  ultimately show ?thesis
    by (simp add: relay_inv_def)
qed (simp add: relay_Start_def)

lemma inv_Headers: "relay_inv m \<Longrightarrow> ry_started m \<Longrightarrow> ry_loop m = LoopNone \<Longrightarrow> relay_inv (publishHeaders ss m)"
proof -
  assume inv: "relay_inv m" and st: "ry_started m" and lp: "ry_loop m = LoopNone"
  have "history_ok (publishHeaders ss m)"
    using inv st by (simp add: relay_inv_def history_ok_def publishHeaders_def pbuf.windows_def buf_WriteHeader_def)
  moreover have "owners_ok (publishHeaders ss m)" "objs_ok (publishHeaders ss m)"
    using inv lp unfolding relay_inv_def by (simp_all add: owners_ok_def shared_def objs_ok_def publishHeaders_def)
  ultimately show ?thesis
    by (simp add: relay_inv_def)
qed

lemma inv_Read: "relay_inv m \<Longrightarrow> ry_loop m = LoopIdle \<Longrightarrow> relay_inv (relayRead now1 now2 p m)"
proof -
  assume inv: "relay_inv m" and idle: "ry_loop m = LoopIdle"
  let ?b = "case NewCodecs p of None \<Rightarrow> ry_pktBuf m | Some cs \<Rightarrow> buf_WriteHeader cs (ry_pktBuf m)"
  have b: "ry_pktBuf (relayRead now1 now2 p m) = pushPacket now2 (stampPacket now1 p) ?b"
    by (simp add: relayRead_def Let_def buf_WritePacket_def split: option.splits)
  have "pbuf.windows ?b (ry_buffered m)"
    using inv by (simp add: relay_inv_defs pbuf.windows_def buf_WriteHeader_def split: option.splits)
  then have win: "pbuf.windows (pushPacket now2 (stampPacket now1 p) ?b) (ry_buffered m @ [stampPacket now1 p])"
    by (rule pbuf.windows_push)
  have len: "length (ry_buffered m) = length (ry_read m)"
    using inv by (auto simp: relay_inv_defs list_all2_lengthD)
  have sel: "ry_objs (relayRead now1 now2 p m) = ry_objs m" "ry_sent (relayRead now1 now2 p m) = ry_sent m"
    "ry_loop (relayRead now1 now2 p m) = LoopCollect p" "ry_read (relayRead now1 now2 p m) = ry_read m @ [p]"
    "ry_buffered (relayRead now1 now2 p m) = ry_buffered m @ [stampPacket now1 p]" "ry_adders (relayRead now1 now2 p m) = ry_adders m"
    "ry_consumers (relayRead now1 now2 p m) = ry_consumers m" "ry_started (relayRead now1 now2 p m) = ry_started m"
    "ry_packetsRead (relayRead now1 now2 p m) = ry_packetsRead m + 1"
    "ry_keyFrames (relayRead now1 now2 p m) = ry_keyFrames m + (if KeyFrame p then 1 else 0)"
    by (simp_all add: relayRead_def Let_def split: option.splits)
  have h: "history_ok m" and o: "owners_ok m" and ob: "objs_ok m"
    using inv by (simp_all add: relay_inv_def)
  have at: "h_at (ry_sent m ! i) \<le> length (ry_read m)" if "i < length (ry_objs m)" for i
    using ob that by (simp add: objs_ok_def hist_ok_def)
  have "list_all2 (\<lambda>p q. \<exists>t. q = stampPacket t p) (ry_read m @ [p]) (ry_buffered m @ [stampPacket now1 p])"
    using h by (intro list_all2_appendI) (auto simp: history_ok_def)
  then have "history_ok (relayRead now1 now2 p m)"
    using h win idle unfolding history_ok_def sel b by auto
  moreover have "phase_ok (ry_buffered m @ [stampPacket now1 p]) (ry_sent m ! i) ph"
    if "phase_ok (ry_buffered m) (ry_sent m ! i) ph" "h_at (ry_sent m ! i) \<le> length (ry_read m)" for i ph
    using that len by (cases ph) simp_all
  then have "owners_ok (relayRead now1 now2 p m)"
    using o at idle unfolding owners_ok_def shared_def sel by auto
  moreover have "objs_ok (relayRead now1 now2 p m)"
    using ob unfolding objs_ok_def sel pending.simps by (blast intro: hist_ok_read [OF len])
  ultimately show ?thesis
    by (simp add: relay_inv_def)
qed


lemma inv_loop:
  assumes inv: "relay_inv m" and "loop_ok (ry_read m) l" and "l \<noteq> LoopNone \<longrightarrow> ry_started m"
    and "loopObjs l \<subseteq> shared m" and "\<And>i. pending l i \<Longrightarrow> pending (ry_loop m) i"
  shows "relay_inv (m\<lparr>ry_loop := l\<rparr>)"
proof -
  have "shared (m\<lparr>ry_loop := l\<rparr>) \<subseteq> shared m"
    using assms(4) by (auto simp: shared_def)
  then have "owners_ok (m\<lparr>ry_loop := l\<rparr>)"
    using inv unfolding relay_inv_def owners_ok_def by (auto simp del: subset_iff)
  moreover have "history_ok (m\<lparr>ry_loop := l\<rparr>)"
    using inv assms(2,3) by (auto simp: relay_inv_def history_ok_def)
  moreover have "objs_ok (m\<lparr>ry_loop := l\<rparr>)"
    using inv assms(5) unfolding relay_inv_def objs_ok_def by (auto intro: hist_ok_weaken)
  ultimately show ?thesis
    by (simp add: relay_inv_def)
qed

lemma started_loop: "relay_inv m \<Longrightarrow> ry_loop m \<noteq> LoopNone \<Longrightarrow> ry_started m"
  by (simp add: relay_inv_def history_ok_def)

lemma inv_Collect:
  assumes "relay_inv m" and "ry_loop m = LoopCollect p" and "collectActive active p m = Some m'"
  shows "relay_inv m'"
proof -
  have m': "distinct active" "set active = set (activeObjs m)" "m' = m\<lparr>ry_loop := LoopDeliver (length active = 1) p active\<rparr>"
    using assms(3) by (auto simp: collectActive_def split: if_splits)
  have "set active \<subseteq> shared m"
    unfolding m'(2) by (auto simp: activeObjs_def shared_def)
  moreover have "loop_ok (ry_read m) (ry_loop m)"
    using assms(1) by (simp add: relay_inv_def history_ok_def)
  ultimately show ?thesis
    unfolding m'(3) using assms(2) m'(1) started_loop [OF assms(1)] by (intro inv_loop [OF assms(1)]) auto
qed

lemma inv_pop:
  assumes "relay_inv m" and "ry_loop m = LoopDeliver single p (i # is)"
  shows "relay_inv (m\<lparr>ry_loop := LoopDeliver single p is\<rparr>)"
proof -
  have "loop_ok (ry_read m) (ry_loop m)"
    using assms(1) by (simp add: relay_inv_def history_ok_def)
  then show ?thesis
    using assms started_loop [OF assms(1)] by (intro inv_loop [OF assms(1)]) (auto simp: shared_def)
qed

lemma inv_logLive:
  assumes "relay_inv m" and "ry_loop m = LoopDeliver single p (i # is)" and "chan_ok c (ry_sent m ! i)"
    and "cons_WritePacket p c = Some c1"
  shows "relay_inv ((logLive i p (putObj i c1 m))\<lparr>ry_loop := LoopDeliver single p is\<rparr>)" (is "relay_inv ?m")
proof -
  have h: "history_ok m" and o: "owners_ok m" and ob: "objs_ok m"
    using assms(1) by (simp_all add: relay_inv_def)
  have i: "i < length (ry_objs m)" "length (ry_sent m) = length (ry_objs m)" "i \<in> shared m"
    using o ob assms(2) by (auto simp: owners_ok_def objs_ok_def shared_def)
  have lp: "(\<exists>xs. ry_read m = xs @ [p])" "distinct (i # is)"
    using h assms(2) by (simp_all add: history_ok_def)
  then obtain xs where xs: "ry_read m = xs @ [p]"
    by blast
  have sel: "ry_objs ?m = (ry_objs m)[i := c1]" "ry_sent ?m = (ry_sent m)[i := (ry_sent m ! i)\<lparr>h_live := h_live (ry_sent m ! i) @ [p]\<rparr>]"
    "ry_loop ?m = LoopDeliver single p is" "ry_read ?m = ry_read m" "ry_buffered ?m = ry_buffered m" "ry_adders ?m = ry_adders m"
    "ry_consumers ?m = ry_consumers m" "ry_started ?m = ry_started m" "ry_pktBuf ?m = ry_pktBuf m"
    "ry_packetsRead ?m = ry_packetsRead m" "ry_keyFrames ?m = ry_keyFrames m"
    by (simp_all add: logLive_def)
  have "history_ok ?m"
    using h lp started_loop [OF assms(1)] assms(2) unfolding history_ok_def sel by simp
  moreover have "shared ?m \<subseteq> shared m"
    unfolding shared_def sel using assms(2) by auto
  then have "owners_ok ?m"
    using o i unfolding owners_ok_def sel by (auto simp: nth_list_update)
  moreover have "hist_ok (ry_read m) (ry_buffered m) False ((ry_sent m ! i)\<lparr>h_live := h_live (ry_sent m ! i) @ [p]\<rparr>)"
    using ob i(1) assms(2) unfolding xs by (intro hist_ok_live) (auto simp: objs_ok_def xs)
  then have "objs_ok ?m"
    using ob i lp(2) chan_ok_live [OF assms(4,3)] assms(2) unfolding objs_ok_def sel
    by (auto simp: nth_list_update)
  ultimately show ?thesis
    by (simp add: relay_inv_def)
qed

lemma putObj_loop: "(putObj i c m)\<lparr>ry_loop := l\<rparr> = putObj i c (m\<lparr>ry_loop := l\<rparr>)"
  by (simp add: putObj_def)

lemma deliver_obj:
  assumes "relay_inv m" and "ry_loop m = LoopDeliver single p (i # is)"
  shows "chan_ok (ry_objs m ! i) (ry_sent m ! i)"
proof -
  have "i < length (ry_objs m)"
    using assms by (auto simp: relay_inv_def owners_ok_def shared_def)
  then show ?thesis
    using assms(1) by (rule relay_inv_sent [rotated])
qed

lemma inv_popPut:
  assumes "relay_inv m" and "ry_loop m = LoopDeliver single p (i # is)" and "chan_ok c (ry_sent m ! i)"
  shows "relay_inv ((putObj i c m)\<lparr>ry_loop := LoopDeliver single p is\<rparr>)"
  unfolding putObj_loop using relay_inv_put [OF inv_pop [OF assms(1,2)]] assms(3) by simp

lemma inv_Blocking:
  assumes inv: "relay_inv m" and l: "ry_loop m = LoopDeliver single p (i # is)" and "deliverBlocking p i m = Some m1"
  shows "relay_inv (m1\<lparr>ry_loop := LoopDeliver single p is\<rparr>)"
proof -
  obtain b c where skip: "ShouldSkip p (ry_objs m ! i) = (b, c)"
    by fastforce
  then have c: "chan_ok c (ry_sent m ! i)"
    using deliver_obj [OF inv l] filters_keep(1) [of p "ry_objs m ! i"] by simp
  then show ?thesis
    using assms(3) skip inv_popPut [OF inv l c] inv_logLive [OF inv l c]
    by (auto simp: deliverBlocking_def split: bool.splits)
qed

lemma inv_Leaky:
  assumes inv: "relay_inv m" and l: "ry_loop m = LoopDeliver single p (i # is)"
  shows "relay_inv ((deliverLeaky p i m)\<lparr>ry_loop := LoopDeliver single p is\<rparr>)"
proof -
  obtain b c where skip: "ShouldSkip p (ry_objs m ! i) = (b, c)"
    by fastforce
  then have c: "chan_ok c (ry_sent m ! i)"
    using deliver_obj [OF inv l] filters_keep(1) [of p "ry_objs m ! i"] by simp
  obtain b1 c1 where rec: "NeedsKeyframeRecovery p c = (b1, c1)"
    by fastforce
  then have c1: "chan_ok c1 (ry_sent m ! i)"
    using c filters_keep(2) [of p c] by simp
  have dropped: "relay_inv ((putObj i (c1\<lparr>cs_needsKeyframe := True\<rparr>) m)
      \<lparr>ry_droppedPackets := n, ry_loop := LoopDeliver single p is\<rparr>)" for n
    using inv_popPut [OF inv l, of "c1\<lparr>cs_needsKeyframe := True\<rparr>"] c1
    by (subst relay_inv_same [of _ "(putObj i (c1\<lparr>cs_needsKeyframe := True\<rparr>) m)\<lparr>ry_loop := LoopDeliver single p is\<rparr>"])
      (simp_all add: filters_keep)
  show ?thesis
    using skip rec inv_popPut [OF inv l c] inv_popPut [OF inv l c1] inv_logLive [OF inv l c1] dropped
    by (cases b; cases b1; cases "cons_WritePacket p c1") (simp_all add: deliverLeaky_def WritePacketLeaky_def)
qed

lemma inv_Deliver:
  assumes inv: "relay_inv m" and "deliverNext m = Some m'"
  shows "relay_inv m'"
proof -
  obtain single p "is" where l: "ry_loop m = LoopDeliver single p is"
    using assms(2) by (auto simp: deliverNext_def split: loop_state.splits)
  show ?thesis
  proof (cases "is")
    case Nil
    then show ?thesis
      using assms(2) l started_loop [OF inv] by (auto simp: deliverNext_def intro!: inv_loop [OF inv])
  next
    case (Cons i js)
    then show ?thesis
      using assms(2) l inv_Blocking [OF inv, of single p i js] inv_Leaky [OF inv, of single p i js]
      by (auto simp: deliverNext_def split: if_splits)
  qed
qed

lemma inv_Abort:
  assumes inv: "relay_inv m" and "deliverAbort m = Some m'"
  shows "relay_inv m'"
proof -
  obtain single p i "is" where l: "ry_loop m = LoopDeliver single p (i # is)"
    using assms(2) by (auto simp: deliverAbort_def split: loop_state.splits list.splits)
  obtain skip c where skip: "ShouldSkip p (ry_objs m ! i) = (skip, c)"
    by fastforce
  obtain wait c1 where wait: "(if single then (False, c) else NeedsKeyframeRecovery p c) = (wait, c1)"
    by fastforce
  have c: "chan_ok c (ry_sent m ! i)"
    using deliver_obj [OF inv l] filters_keep(1) [of p "ry_objs m ! i"] skip by simp
  then have "chan_ok c1 (ry_sent m ! i)"
    using wait filters_keep(2) [of p c] by (simp split: if_splits)
  from inv_popPut [OF inv l this] show ?thesis
    using assms(2) l skip wait by (simp add: deliverAbort_def split: if_splits)
qed

lemma inv_Remove: "relay_inv m \<Longrightarrow> relay_inv (RemoveConsumer cid m)"
proof -
  assume inv: "relay_inv m"
  let ?m = "m\<lparr>ry_consumers := filter (\<lambda>(k, _). k \<noteq> cid) (ry_consumers m)\<rparr>"
  have "relay_inv ?m"
    by (rule relay_inv_consumers [OF inv]) auto
  then have "relay_inv (closeObjs [i] ?m)" if "map_of (ry_consumers m) cid = Some i" for i
    using registered_objs [OF inv map_of_SomeD [OF that]] by (intro relay_inv_closeObjs) auto
  then show ?thesis
    using inv by (simp add: RemoveConsumer_def split: option.splits)
qed

lemma inv_Sweep: "relay_inv m \<Longrightarrow> sweepCollect b m = Some m' \<Longrightarrow> relay_inv m'"
  using registered_objs [of m]
  by (auto simp: sweepCollect_def Let_def split: if_splits intro!: relay_inv_closeObjs)

lemma inv_SweepDelete:
  assumes inv: "relay_inv m" and "sweepDelete m = Some m'"
  shows "relay_inv m'"
proof -
  obtain cs sw where "m' = (m\<lparr>ry_consumers := cs\<rparr>)\<lparr>ry_sweep := sw\<rparr>" and sub: "cs = [] \<or> (\<exists>P. cs = filter P (ry_consumers m))"
    using assms(2) by (auto simp: sweepDelete_def split: sweep_state.splits if_splits)
  moreover have "relay_inv (m\<lparr>ry_consumers := cs\<rparr>)"
    using sub by (intro relay_inv_consumers [OF inv]) auto
  ultimately show ?thesis
    by (simp only: relay_inv_flags)
qed

lemma go_chan:
  "goAwait api c w = (c1, w1) \<Longrightarrow> chan_ok c h \<Longrightarrow> chan_ok c1 h"
  "goPacket api x p c w = (c1, w1) \<Longrightarrow> chan_ok c h \<Longrightarrow> chan_ok c1 h"
  "goCancel api c w = (c1, w1) \<Longrightarrow> chan_ok c h \<Longrightarrow> chan_ok c1 h"
  by (auto simp: goAwait_def goPacket_def goCancel_def chan_ok_def cons_setLastError_def Let_def
      split: if_splits sum.splits prod.splits option.splits)

lemma chan_ok_pop: "chan_ok c h \<Longrightarrow> cs_packets c = p # ps \<Longrightarrow> chan_ok (c\<lparr>cs_packets := ps, cs_goroutine := g\<rparr>) h"
  by (auto simp: chan_ok_def dest: suffix_ConsD)

lemma inv_Go: "relay_inv m \<Longrightarrow> goStep api i m = Some m' \<Longrightarrow> relay_inv m'"
  using relay_inv_sent [of m i]
  by (auto simp: goStep_def Let_def split: if_splits goroutine.splits list.splits prod.splits
      intro!: relay_inv_put intro: go_chan chan_ok_pop)

lemma inv_GoCancel: "relay_inv m \<Longrightarrow> goCancelStep api i m = Some m' \<Longrightarrow> relay_inv m'"
  using relay_inv_sent [of m i]
  by (auto simp: goCancelStep_def Let_def split: if_splits prod.splits intro!: relay_inv_put intro: go_chan)

subsubsection \<open>Attaching\<close>

lemma owned_update:
  "owned (as[k := a]) k' i \<longleftrightarrow> (if k' = k \<and> k < length as then ad_obj a = i \<and> busy (ad_phase a) else owned as k' i)"
  by (auto simp: owned_def nth_list_update)

lemma putAdder_sel [simp]:
  "ry_objs (putAdder k a m) = ry_objs m" "ry_sent (putAdder k a m) = ry_sent m" "ry_loop (putAdder k a m) = ry_loop m"
  "ry_read (putAdder k a m) = ry_read m" "ry_buffered (putAdder k a m) = ry_buffered m"
  "ry_adders (putAdder k a m) = (ry_adders m)[k := a]"
  "ry_consumers (putAdder k a m) = ry_consumers m" "ry_pktBuf (putAdder k a m) = ry_pktBuf m" "ry_started (putAdder k a m) = ry_started m"
  "ry_packetsRead (putAdder k a m) = ry_packetsRead m" "ry_keyFrames (putAdder k a m) = ry_keyFrames m"
  "ry_cancelled (putAdder k a m) = ry_cancelled m"
  by (simp_all add: putAdder_def)

lemma putAdder_ok [simp]: "history_ok (putAdder k a m) = history_ok m" "objs_ok (putAdder k a m) = objs_ok m" "shared (putAdder k a m) = shared m"
  by (simp_all add: history_ok_def objs_ok_def shared_def)

lemma owned_ok:
  assumes "relay_inv m" and "owned (ry_adders m) k i"
  shows "i < length (ry_objs m)" "i \<notin> shared m" "h_live (ry_sent m ! i) = []"
    "phase_ok (ry_buffered m) (ry_sent m ! i) (ad_phase (ry_adders m ! k))" "owned (ry_adders m) k' i \<Longrightarrow> k' = k"
  using assms unfolding relay_inv_def owners_ok_def by blast+

text \<open>An adder that moves on owns its consumer or gives it up.\<close>

lemma owners_okI:
  assumes "shared m \<subseteq> {..<length (ry_objs m)}"
    and "\<And>k i. owned (ry_adders m) k i \<Longrightarrow> i < length (ry_objs m) \<and> i \<notin> shared m \<and> h_live (ry_sent m ! i) = [] \<and>
      phase_ok (ry_buffered m) (ry_sent m ! i) (ad_phase (ry_adders m ! k))"
    and "\<And>k k' i. owned (ry_adders m) k i \<Longrightarrow> owned (ry_adders m) k' i \<Longrightarrow> k' = k"
  shows "owners_ok m"
  unfolding owners_ok_def using assms by blast

lemma inv_claimAdder:
  assumes inv: "relay_inv m"
    and a: "busy (ad_phase a) \<Longrightarrow> ad_obj a < length (ry_objs m) \<and> ad_obj a \<notin> shared m \<and> h_live (ry_sent m ! ad_obj a) = [] \<and>
      phase_ok (ry_buffered m) (ry_sent m ! ad_obj a) (ad_phase a) \<and> (\<forall>k'. owned (ry_adders m) k' (ad_obj a) \<longrightarrow> k' = k)"
  shows "relay_inv (putAdder k a m)"
proof -
  have "owners_ok (putAdder k a m)"
  proof (rule owners_okI)
    show "shared (putAdder k a m) \<subseteq> {..<length (ry_objs (putAdder k a m))}"
      using inv by (simp add: relay_inv_def owners_ok_def)
    fix l i
    assume l: "owned (ry_adders (putAdder k a m)) l i"
    show "i < length (ry_objs (putAdder k a m)) \<and> i \<notin> shared (putAdder k a m) \<and> h_live (ry_sent (putAdder k a m) ! i) = [] \<and>
        phase_ok (ry_buffered (putAdder k a m)) (ry_sent (putAdder k a m) ! i) (ad_phase (ry_adders (putAdder k a m) ! l))"
    proof (cases "l = k \<and> k < length (ry_adders m)")
      case True
      then have "ad_obj a = i" "busy (ad_phase a)"
        using l by (simp_all add: owned_update)
      then show ?thesis
        using True a by simp
    next
      case False
      then show ?thesis
        using l owned_ok(1-4) [OF inv, of l i] by (cases "l = k") (simp_all add: owned_update list_update_beyond)
    qed
    fix l'
    assume l': "owned (ry_adders (putAdder k a m)) l' i"
    show "l' = l"
    proof (cases "k < length (ry_adders m) \<and> (l = k \<or> l' = k)")
      case True
      then have "ad_obj a = i" "busy (ad_phase a)"
        using l l' by (auto simp: owned_update)
      then have "owned (ry_adders m) j i \<Longrightarrow> j = k" for j
        using a by blast
      moreover have "l = k \<or> owned (ry_adders m) l i" "l' = k \<or> owned (ry_adders m) l' i"
        using l l' by (simp_all add: owned_update split: if_splits)
      ultimately show ?thesis
        by metis
    next
      case False
      then have "owned (ry_adders m) l i" "owned (ry_adders m) l' i"
        using l l' by (simp_all add: owned_update split: if_splits)
      then show ?thesis
        by (rule owned_ok(5) [OF inv])
    qed
  qed
  then show ?thesis
    using inv by (simp add: relay_inv_def)
qed

lemma inv_putAdder:
  assumes "relay_inv m"
    and "busy (ad_phase a) \<Longrightarrow> owned (ry_adders m) k (ad_obj a) \<and> phase_ok (ry_buffered m) (ry_sent m ! ad_obj a) (ad_phase a)"
  shows "relay_inv (putAdder k a m)"
proof (rule inv_claimAdder [OF assms(1)])
  assume "busy (ad_phase a)"
  then have own: "owned (ry_adders m) k (ad_obj a)" and ph: "phase_ok (ry_buffered m) (ry_sent m ! ad_obj a) (ad_phase a)"
    using assms(2) by blast+
  show "ad_obj a < length (ry_objs m) \<and> ad_obj a \<notin> shared m \<and> h_live (ry_sent m ! ad_obj a) = [] \<and>
      phase_ok (ry_buffered m) (ry_sent m ! ad_obj a) (ad_phase a) \<and> (\<forall>k'. owned (ry_adders m) k' (ad_obj a) \<longrightarrow> k' = k)"
    by (intro conjI allI impI ph owned_ok [OF assms(1) own])
qed

lemma inv_AddBegin: "relay_inv m \<Longrightarrow> relay_inv (addBegin cid errCh m)"
proof -
  assume inv: "relay_inv m"
  let ?m = "addBegin cid errCh m"
  obtain ph where m: "?m = m\<lparr>ry_adders := ry_adders m @ [\<lparr>ad_id = cid, ad_obj = 0, ad_phase = ph\<rparr>]\<rparr>" and ph: "\<not> busy ph"
    by (cases "addCheck cid m") (simp_all add: addBegin_def)
  have own: "owned (ry_adders ?m) k i = owned (ry_adders m) k i" for k i
    using ph unfolding m by (auto simp: owned_def nth_append less_Suc_eq)
  have old: "ry_adders ?m ! k = ry_adders m ! k" if "owned (ry_adders m) k i" for k i
    using that unfolding m by (auto simp: owned_def nth_append)
  have sel: "shared ?m = shared m" "ry_objs ?m = ry_objs m" "ry_sent ?m = ry_sent m" "ry_buffered ?m = ry_buffered m"
    "history_ok ?m = history_ok m" "objs_ok ?m = objs_ok m"
    unfolding m by (simp_all add: shared_def history_ok_def objs_ok_def)
  have "owners_ok ?m"
    using inv old unfolding relay_inv_def owners_ok_def own sel by metis
  then show ?thesis
    using inv sel by (simp add: relay_inv_def)
qed

lemma inv_newObj:
  assumes "relay_inv m" and "cs_packets c = []"
  shows "relay_inv (m\<lparr>ry_objs := ry_objs m @ [c], ry_sent := ry_sent m @ [\<lparr>h_gop = [], h_at = 0, h_live = []\<rparr>]\<rparr>)" (is "relay_inv ?m")
proof -
  have len: "length (ry_sent m) = length (ry_objs m)"
    using assms(1) by (simp add: relay_inv_def objs_ok_def)
  have sh: "shared ?m = shared m" "history_ok ?m = history_ok m"
    by (simp_all add: shared_def history_ok_def)
  have "owners_ok ?m"
    using assms(1) len unfolding relay_inv_def owners_ok_def sh by (auto simp: nth_append intro: less_SucI)
  moreover have "objs_ok ?m"
    using assms len by (auto simp: relay_inv_def objs_ok_def nth_append less_Suc_eq chan_ok_def hist_ok_def)
  ultimately show ?thesis
    using assms(1) sh by (simp add: relay_inv_def)
qed

lemma fresh_header: "cons_WriteHeader ss (snd (cons_Start (NewConsumer errCh q))) = (e, c) \<Longrightarrow> cs_packets c = []"
  by (auto simp: cons_WriteHeader_def cons_Start_def NewConsumer_def cons_setLastError_def cons_WriteCodecChange_def Let_def)

lemma inv_AddOpen:
  fixes m :: "('m, 'w) relay"
  assumes inv: "relay_inv m" and "addOpen k errCh m = Some m'"
  shows "relay_inv m'"
proof (cases "ry_headersErr m")
  case (Some e)
  then show ?thesis
    using assms by (auto simp: addOpen_def split: if_splits intro!: inv_putAdder)
next
  case None
  let ?q = "if ry_consumerQueueSize m > 0 then ry_consumerQueueSize m else 50"
  obtain e c where ec: "cons_WriteHeader (ry_headers m) (snd (cons_Start (NewConsumer errCh ?q))) = (e, c :: 'm Consumer)"
    by fastforce
  let ?m = "m\<lparr>ry_objs := ry_objs m @ [c], ry_sent := ry_sent m @ [\<lparr>h_gop = [], h_at = 0, h_live = []\<rparr>]\<rparr>"
  have new: "relay_inv ?m"
    by (rule inv_newObj [OF inv fresh_header [OF ec]])
  have own: "\<not> owned (ry_adders m) k' (length (ry_objs m))" for k'
    using owned_ok(1) [OF inv] by blast
  have sh: "length (ry_objs m) \<notin> shared ?m" "length (ry_sent m) = length (ry_objs m)"
    using inv by (auto simp: relay_inv_def owners_ok_def objs_ok_def shared_def)
  define ph where "ph = (case e of None \<Rightarrow> AddGOP | Some err \<Rightarrow> AddDone (Some (RelayConsumerError err)))"
  have m': "m' = putAdder k ((ry_adders m ! k)\<lparr>ad_obj := length (ry_objs m), ad_phase := ph\<rparr>) ?m"
    using assms(2) None unfolding addOpen_def Let_def ec ph_def by (simp split: if_splits)
  have "phase_ok (ry_buffered m) \<lparr>h_gop = [], h_at = 0, h_live = []\<rparr> ph"
    by (simp add: ph_def split: option.splits)
  then show ?thesis
    unfolding m' using own sh by (intro inv_claimAdder [OF new]) (simp add: nth_append)
qed

text \<open>An adder moves on, with a new history and a new state of its consumer.\<close>

lemma inv_progress:
  assumes inv: "relay_inv m" and own: "owned (ry_adders m) k i" and a: "ad_obj a = i"
    and h: "h_live h = []" "phase_ok (ry_buffered m) h (ad_phase a)" "chan_ok c h" "hist_ok (ry_read m) (ry_buffered m) True h"
  shows "relay_inv (putObj i c (putAdder k a (m\<lparr>ry_sent := (ry_sent m)[i := h]\<rparr>)))" (is "relay_inv (putObj i c ?m)")
proof -
  have sh: "shared ?m = shared m" "history_ok ?m = history_ok m" "length (ry_sent m) = length (ry_objs m)"
    using inv by (simp_all add: shared_def history_ok_def relay_inv_def objs_ok_def)
  note i = owned_ok [OF inv own]
  have nth: "ry_sent ?m ! j = (if i = j then h else ry_sent m ! j)" for j
    using i(1) sh(3) by (simp add: nth_list_update)
  have k: "k < length (ry_adders m)"
    using own by (simp add: owned_def)
  have old: "owned (ry_adders m) l j" if "owned (ry_adders ?m) l j" for l j
    using that own a k by (cases "l = k") (auto simp: owned_update)
  have "owners_ok ?m"
  proof (rule owners_okI)
    show "shared ?m \<subseteq> {..<length (ry_objs ?m)}"
      unfolding sh(1) using inv by (simp add: relay_inv_def owners_ok_def)
    fix l j
    assume "owned (ry_adders ?m) l j"
    note l = old [OF this]
    note j = owned_ok [OF inv l]
    have "i = j \<longleftrightarrow> l = k"
      using i(5) [of l] l own j(5) [of k] by (metis owned_def)
    then show "j < length (ry_objs ?m) \<and> j \<notin> shared ?m \<and> h_live (ry_sent ?m ! j) = [] \<and>
        phase_ok (ry_buffered ?m) (ry_sent ?m ! j) (ad_phase (ry_adders ?m ! l))"
      unfolding sh(1) nth using j(1-4) h(1,2) k by (cases "l = k") simp_all
    show "l' = l" if "owned (ry_adders ?m) l' j" for l'
      using old [OF that] by (rule j(5))
  qed
  moreover have "objs_ok (putObj i c ?m)"
    using inv i(1) h(3) sh(3) hist_ok_weaken [OF h(4)] unfolding relay_inv_def objs_ok_def putObj_sel nth
    by (simp add: nth_list_update)
  ultimately show ?thesis
    using inv sh(2) by (simp add: relay_inv_def)
qed

lemma LastGOP_suffix: "suffix (LastGOP b) (b_pkts b)"
  by (simp add: LastGOP_def suffix_drop split: option.splits)

lemma inv_AddGOP:
  assumes inv: "relay_inv m" and k: "k < length (ry_adders m)" "ad_phase (ry_adders m ! k) = AddGOP"
  shows "relay_inv (addGOP k m)"
proof -
  let ?i = "ad_obj (ry_adders m ! k)" and ?gop = "LastGOP (ry_pktBuf m)"
  let ?h = "(ry_sent m ! ?i)\<lparr>h_at := length (ry_read m)\<rparr>"
  have own: "owned (ry_adders m) k ?i"
    using k by (simp add: owned_def)
  note ok = owned_ok [OF inv own]
  have gop: "h_gop (ry_sent m ! ?i) = []"
    using ok(4) k(2) by simp
  have "length (ry_buffered m) = length (ry_read m)" "b_pkts (ry_pktBuf m) = drop (b_baseOffset (ry_pktBuf m)) (ry_buffered m)"
    using inv by (auto simp: relay_inv_def history_ok_def pbuf.windows_def list_all2_lengthD)
  then have suf: "suffix ?gop (take (length (ry_read m)) (ry_buffered m))"
    using suffix_order.trans [OF LastGOP_suffix [of "ry_pktBuf m"], of "ry_buffered m"] by (simp add: suffix_drop)
  define d where "d = (if ?gop = [] then None else Some (DTS (last ?gop)))"
  have "hist_ok (ry_read m) (ry_buffered m) True ?h"
    unfolding hist_ok_def using suf gop ok(3) by (intro conjI exI [of _ ?gop]) simp_all
  then have "relay_inv (putObj ?i (ry_objs m ! ?i) (putAdder k ((ry_adders m ! k)\<lparr>ad_phase := AddInject ?gop d\<rparr>)
      (m\<lparr>ry_sent := (ry_sent m)[?i := ?h]\<rparr>)))"
    using relay_inv_sent [OF inv ok(1)] ok(3) gop suf by (intro inv_progress [OF inv own]) (simp_all add: chan_ok_def)
  then show ?thesis
    by (simp add: addGOP_def Let_def d_def putObj_def putAdder_def)
qed

lemma inv_AddInject:
  assumes inv: "relay_inv m" and k: "k < length (ry_adders m)" "ad_phase (ry_adders m ! k) = AddInject pkts d"
    and m': "addInject k pkts d m = Some m'"
  shows "relay_inv m'"
proof -
  let ?a = "ry_adders m ! k" and ?i = "ad_obj (ry_adders m ! k)"
  have own: "owned (ry_adders m) k ?i"
    using k by (simp add: owned_def)
  note ok = owned_ok [OF inv own]
  note ch = relay_inv_sent [OF inv ok(1)]
  show ?thesis
  proof (cases pkts)
    case Nil
    let ?m = "case d of None \<Rightarrow> m | Some dts \<Rightarrow> putObj ?i (SetSkipBefore dts (ry_objs m ! ?i)) m"
    have "relay_inv ?m" "ry_adders ?m = ry_adders m"
      using inv ch by (simp_all add: relay_inv_put filters_keep split: option.splits)
    then have "relay_inv (putAdder k (?a\<lparr>ad_phase := AddPublish\<rparr>) ?m)"
      using own by (intro inv_putAdder) simp_all
    then show ?thesis
      using m' Nil by (simp add: addInject_def Let_def)
  next
    case (Cons p ps)
    then obtain c where c: "cons_WritePacket p (ry_objs m ! ?i) = Some c"
      and m'_eq: "m' = putAdder k (?a\<lparr>ad_phase := AddInject ps d\<rparr>) (logGop ?i p (putObj ?i c m))"
      using m' by (auto simp: addInject_def Let_def)
    let ?h = "(ry_sent m ! ?i)\<lparr>h_gop := h_gop (ry_sent m ! ?i) @ [p]\<rparr>"
    have suf: "suffix (h_gop (ry_sent m ! ?i) @ p # ps) (take (h_at (ry_sent m ! ?i)) (ry_buffered m))"
      using ok(4) k(2) Cons by simp
    have "h_at (ry_sent m ! ?i) \<le> length (ry_read m)"
      using inv ok(1) by (simp add: relay_inv_def objs_ok_def hist_ok_def)
    then have "hist_ok (ry_read m) (ry_buffered m) True ?h"
      unfolding hist_ok_def using suf ok(3) by (intro conjI exI [of _ ps]) simp_all
    then have "relay_inv (putObj ?i c (putAdder k (?a\<lparr>ad_phase := AddInject ps d\<rparr>) (m\<lparr>ry_sent := (ry_sent m)[?i := ?h]\<rparr>)))"
      using chan_ok_gop [OF c ch ok(3)] ok(3) suf by (intro inv_progress [OF inv own]) simp_all
    moreover have "relay_inv m' = relay_inv (putObj ?i c (putAdder k (?a\<lparr>ad_phase := AddInject ps d\<rparr>) (m\<lparr>ry_sent := (ry_sent m)[?i := ?h]\<rparr>)))"
      unfolding m'_eq by (rule relay_inv_same) (simp_all add: logGop_def)
    ultimately show ?thesis
      by simp
  qed
qed

lemma inv_AddPublish:
  assumes inv: "relay_inv m" and k: "k < length (ry_adders m)" "ad_phase (ry_adders m ! k) = AddPublish"
  shows "relay_inv (addPublish k m)"
proof -
  let ?a = "ry_adders m ! k" and ?i = "ad_obj (ry_adders m ! k)"
  have own: "owned (ry_adders m) k ?i"
    using k by (simp add: owned_def)
  note ok = owned_ok [OF inv own]
  have closed: "relay_inv (putAdder k (?a\<lparr>ad_phase := AddDone r\<rparr>) (putObj ?i (cons_Close (ry_objs m ! ?i)) m))" for r
    using inv relay_inv_sent [OF inv ok(1)] by (intro inv_putAdder relay_inv_put) (simp_all add: filters_keep)
  let ?m = "putAdder k (?a\<lparr>ad_phase := AddDone None\<rparr>) m"
  have fin: "relay_inv ?m"
    by (rule inv_putAdder [OF inv]) simp
  have free: "\<not> owned (ry_adders ?m) l ?i" for l
    using ok(5) [of l] k(1) by (auto simp: owned_update)
  let ?m2 = "?m\<lparr>ry_consumers := ry_consumers m @ [(ad_id ?a, ?i)]\<rparr>"
  have sh: "shared ?m2 = insert ?i (shared ?m)"
    by (auto simp: shared_def)
  have "owners_ok ?m2"
  proof (rule owners_okI)
    show "shared ?m2 \<subseteq> {..<length (ry_objs ?m2)}"
      unfolding sh using fin ok(1) by (simp add: relay_inv_def owners_ok_def)
    fix l j
    assume "owned (ry_adders ?m2) l j"
    then have l: "owned (ry_adders ?m) l j"
      by simp
    note j = owned_ok [OF fin l]
    have "j \<noteq> ?i"
      using free l by blast
    then show "j < length (ry_objs ?m2) \<and> j \<notin> shared ?m2 \<and> h_live (ry_sent ?m2 ! j) = [] \<and>
        phase_ok (ry_buffered ?m2) (ry_sent ?m2 ! j) (ad_phase (ry_adders ?m2 ! l))"
      unfolding sh using j(1-4) by simp
    show "l' = l" if "owned (ry_adders ?m2) l' j" for l'
      using that by (intro j(5)) simp
  qed
  moreover have "history_ok ?m2 = history_ok ?m" "objs_ok ?m2 = objs_ok ?m"
    by (simp_all add: history_ok_def objs_ok_def)
  ultimately have published: "relay_inv ?m2"
    using fin by (simp add: relay_inv_def)
  have eq: "?m2 = putAdder k (?a\<lparr>ad_phase := AddDone None\<rparr>) (m\<lparr>ry_consumers := ry_consumers m @ [(ad_id ?a, ?i)]\<rparr>)"
    by (simp add: putAdder_def)
  show ?thesis
    unfolding addPublish_def Let_def using closed published [unfolded eq] by simp
qed

lemma inv_AddStep: "relay_inv m \<Longrightarrow> addStep k m = Some m' \<Longrightarrow> relay_inv m'"
  by (auto simp: addStep_def split: if_splits add_phase.splits intro: inv_AddOpen inv_AddGOP inv_AddInject inv_AddPublish)

lemma inv_Close: "relay_inv m \<Longrightarrow> relay_inv (relay_Close m)"
  by (simp add: relay_Close_def relay_inv_same [of "m\<lparr>ry_alreadyClosing := True, ry_cancelled := b\<rparr>" m for b])

lemma inv_HeadersFail: "relay_inv m \<Longrightarrow> relay_inv (setLastCodecError e m)"
  by (subst relay_inv_same [of _ m]) (simp_all add: setLastCodecError_def)

lemma inv_LoopDone: "relay_inv m \<Longrightarrow> ry_loop m = LoopIdle \<Longrightarrow> relay_inv (m\<lparr>ry_loop := LoopDone\<rparr>)"
  using started_loop [of m] by (intro inv_loop) auto

lemma relay_exec_inv:
  assumes "relay_inv m" and "relay_exec api a m = Some m'"
  shows "relay_inv m'"
  using assms(2) inv_Start [OF assms(1)] inv_Headers [OF assms(1)] inv_HeadersFail [OF assms(1)] inv_Read [OF assms(1)]
    inv_LoopDone [OF assms(1)] inv_LoopDone [of "m\<lparr>ry_cancelled := True\<rparr>"] assms(1) inv_Deliver [OF assms(1), of m']
    inv_Abort [OF assms(1), of m'] inv_AddBegin [OF assms(1)] inv_AddStep [OF assms(1), of _ m'] inv_Remove [OF assms(1)]
    inv_Sweep [OF assms(1), of _ m'] inv_SweepDelete [OF assms(1), of m'] inv_Close [OF assms(1)] inv_Go [OF assms(1), of api _ m']
    inv_GoCancel [OF assms(1), of api _ m'] inv_Collect [OF assms(1), of _ _ m']
  by (cases a) (auto split: if_splits loop_state.splits)

lemma relay_run_inv: "relay_inv m \<Longrightarrow> relay_run api as m = Some m' \<Longrightarrow> relay_inv m'"
  by (induction "as" arbitrary: m) (auto split: option.splits intro: relay_exec_inv)

subsection \<open>Delivery\<close>

text \<open>
  C5. Delivery to the consumers of a relay, in every interleaving of the reading loop, the attachments, removals and
  sweeps, and the goroutines of the consumers.  The queue of a consumer never exceeds its bound and is the end
  of what was put into it.  That is first a part of the packets that were buffered when the consumer attached,
  without gaps and in the order they were read, and then packets delivered by the loop, in the order they were
  read, none twice, and none older than the last buffered one.
\<close>

theorem relay_delivery:
  assumes "relay_run api as (NewRelay n win q w) = Some m" and "i < length (ry_objs m)"
  shows "length (cs_packets (ry_objs m ! i)) \<le> cs_queueSize (ry_objs m ! i) \<and>
    suffix (cs_packets (ry_objs m ! i)) (h_gop (ry_sent m ! i) @ h_live (ry_sent m ! i)) \<and>
    (\<exists>before rest. before @ h_gop (ry_sent m ! i) @ rest = take (h_at (ry_sent m ! i)) (ry_buffered m)) \<and>
    subseq (h_live (ry_sent m ! i)) (drop (h_at (ry_sent m ! i) - 1) (ry_read m)) \<and>
    list_all2 (\<lambda>p q. \<exists>t. q = stampPacket t p) (ry_read m) (ry_buffered m)"
proof -
  have "relay_inv m"
    using relay_run_inv [OF NewRelay_inv assms(1)] .
  then have "chan_ok (ry_objs m ! i) (ry_sent m ! i)" "hist_ok (ry_read m) (ry_buffered m) False (ry_sent m ! i)"
    "list_all2 (\<lambda>p q. \<exists>t. q = stampPacket t p) (ry_read m) (ry_buffered m)"
    using assms(2) by (auto simp: relay_inv_def objs_ok_def history_ok_def intro: hist_ok_weaken)
  moreover from this(2) obtain rest zs where "take (h_at (ry_sent m ! i)) (ry_buffered m) = zs @ h_gop (ry_sent m ! i) @ rest"
    by (auto simp: hist_ok_def suffix_def)
  ultimately show ?thesis
    unfolding chan_ok_def hist_ok_def by metis
qed

definition ex_api :: "(packet list, packet list list) mux_api" where
  "ex_api = \<lparr>mx_factory = \<lambda>w. (Some [], w), mx_WriteHeader = \<lambda>ss m. (True, m), mx_WriteCodecChange = None,
     mx_WritePacket = \<lambda>p m. (WriteOk, m @ [p]), mx_WriteTrailer = \<lambda>m. m, mx_Close = \<lambda>m w. w @ [m]\<rparr>"

definition ex_pkt :: "int \<Rightarrow> bool \<Rightarrow> packet" where
  "ex_pkt dts key = zero_packet\<lparr>DTS := dts, KeyFrame := key, WallClockTime := 1\<rparr>"

definition ex_boot :: "action list" where
  "ex_boot = [DoStart, DoHeaders [\<lparr>s_Idx = 0, s_Codec = OtherCodec \<lparr>oc_Type = H264, oc_Tag = None, oc_Dims = None\<rparr>\<rparr>]]"

definition ex_key :: packet where
  "ex_key = (ex_pkt 1 True)\<lparr>CodecType := H264\<rparr>"

text \<open>A consumer attaches after a keyframe has been read, and then a second packet is delivered.\<close>

definition ex_attached :: "action list" where
  "ex_attached = ex_boot @ [DoRead ex_key 1 1, DoCollect [], DoDeliver, DoAdd ''a'' False, DoAddStep 0, DoAddStep 0, DoAddStep 0,
     DoAddStep 0, DoAddStep 0, DoRead (ex_pkt 2 False) 1 1, DoCollect [0], DoDeliver]"

lemma ex_attached_run:
  "map_option (\<lambda>m. (length (ry_objs m), ry_sent m, ry_read m)) (relay_run ex_api ex_attached (NewRelay 0 0 50 [])) =
   Some (1, [\<lparr>h_gop = [ex_key], h_at = 1, h_live = [ex_pkt 2 False]\<rparr>], [ex_key, ex_pkt 2 False])"
  by code_simp

theorem relay_delivery_witness:
  "\<exists>m. relay_run ex_api ex_attached (NewRelay 0 0 50 []) = Some m \<and> suffix (cs_packets (ry_objs m ! 0)) [ex_key, ex_pkt 2 False] \<and>
    subseq [ex_pkt 2 False] [ex_key, ex_pkt 2 False]"
proof -
  obtain m where m: "relay_run ex_api ex_attached (NewRelay 0 0 50 []) = Some m" "length (ry_objs m) = 1"
    "ry_sent m = [\<lparr>h_gop = [ex_key], h_at = 1, h_live = [ex_pkt 2 False]\<rparr>]" "ry_read m = [ex_key, ex_pkt 2 False]"
    using ex_attached_run by auto
  then show ?thesis
    using relay_delivery [OF m(1), of 0] by auto
qed

end
