(* ===== verification/Relay_Races.thy ===== *)
theory Relay_Races
  imports Relay_Inv
begin

text \<open>
  Interleavings in which a relay does not do what its users expect: a loop that waits for a consumer that is gone,
  and the races of an attachment with the loop and with other attachments.
\<close>

subsection \<open>A relay that waits for a dead consumer\<close>

text \<open>
  The loop sends to a single consumer whose queue is full and whose goroutine is gone.
\<close>

definition stuckOn :: "packet \<Rightarrow> nat \<Rightarrow> ('m, 'w) relay \<Rightarrow> bool" where
  "stuckOn p i m \<longleftrightarrow> (\<exists>is. ry_loop m = LoopDeliver True p (i # is)) \<and> i < length (ry_objs m) \<and>
    cs_goroutine (ry_objs m ! i) = Gone \<and> cs_queueSize (ry_objs m ! i) \<le> length (cs_packets (ry_objs m ! i)) \<and>
    \<not> fst (ShouldSkip p (ry_objs m ! i))"

definition sameQueue :: "'m Consumer \<Rightarrow> 'm Consumer \<Rightarrow> bool" where
  "sameQueue c c' \<longleftrightarrow> cs_goroutine c' = cs_goroutine c \<and> cs_queueSize c' = cs_queueSize c \<and> cs_packets c' = cs_packets c \<and>
    cs_skipBefore c' = cs_skipBefore c \<and> cs_skipBeforeSet c' = cs_skipBeforeSet c"

definition keeps :: "nat \<Rightarrow> ('m, 'w) relay \<Rightarrow> ('m, 'w) relay \<Rightarrow> bool" where
  "keeps i m m' \<longleftrightarrow> ry_loop m' = ry_loop m \<and> ry_read m' = ry_read m \<and> length (ry_objs m) \<le> length (ry_objs m') \<and>
    sameQueue (ry_objs m ! i) (ry_objs m' ! i) \<and> (\<exists>d. map h_live (ry_sent m') = map h_live (ry_sent m) @ replicate d [])"

lemma live_refl: "xs = ys \<Longrightarrow> \<exists>d. xs = ys @ replicate d []"
  by (rule exI [of _ 0]) simp

lemma map_live_update: "h_live h = h_live (hs ! i) \<Longrightarrow> map h_live (hs[i := h]) = map h_live hs"
  by (cases "i < length hs") (simp_all add: map_update list_update_same_conv list_update_beyond)

lemma keeps_refl:
  "ry_loop m' = ry_loop m \<Longrightarrow> ry_read m' = ry_read m \<Longrightarrow> ry_objs m' = ry_objs m \<Longrightarrow> map h_live (ry_sent m') = map h_live (ry_sent m) \<Longrightarrow> keeps i m m'"
  by (simp add: keeps_def sameQueue_def live_refl)

lemma keeps_trans:
  assumes "keeps i m m1" and "keeps i m1 m2"
  shows "keeps i m m2"
proof -
  obtain d e where "map h_live (ry_sent m1) = map h_live (ry_sent m) @ replicate d []" "map h_live (ry_sent m2) = map h_live (ry_sent m1) @ replicate e []"
    using assms by (auto simp: keeps_def)
  then have "\<exists>d. map h_live (ry_sent m2) = map h_live (ry_sent m) @ replicate d []"
    by (intro exI [of _ "d + e"]) (simp add: replicate_add)
  then show ?thesis
    using assms by (simp add: keeps_def sameQueue_def)
qed

lemma keeps_put: "j \<noteq> i \<or> sameQueue (ry_objs m ! i) c \<Longrightarrow> i < length (ry_objs m) \<Longrightarrow> keeps i m (putObj j c m)"
  by (cases "j = i") (simp_all add: keeps_def sameQueue_def live_refl)

lemma stuckOn_keeps: "stuckOn p i m \<Longrightarrow> keeps i m m' \<Longrightarrow> stuckOn p i m'"
  by (auto simp: stuckOn_def keeps_def sameQueue_def ShouldSkip_def)

lemma keeps_closeObjs: "i < length (ry_objs m) \<Longrightarrow> keeps i m (closeObjs is m)"
proof (induction "is" arbitrary: m)
  case (Cons j "is")
  let ?m = "putObj j (cons_Close (ry_objs m ! j)) m"
  have "keeps i m ?m"
    using Cons.prems by (cases "j = i") (auto simp: cons_Close_def sameQueue_def intro!: keeps_put)
  moreover have "keeps i ?m (closeObjs is ?m)"
    using Cons.prems by (intro Cons.IH) simp
  ultimately have "keeps i m (closeObjs is ?m)"
    by (rule keeps_trans)
  then show ?case
    by (simp add: closeObjs_def)
qed (simp add: closeObjs_def keeps_refl)

lemma keeps_AddStep:
  assumes inv: "relay_inv m" and st: "stuckOn p i m" and a: "addStep k m = Some m'"
  shows "keeps i m m'"
proof -
  let ?a = "ry_adders m ! k" and ?j = "ad_obj (ry_adders m ! k)"
  have i: "i < length (ry_objs m)" "i \<in> shared m"
    using st by (auto simp: stuckOn_def shared_def)
  have k: "k < length (ry_adders m)"
    using a by (simp add: addStep_def split: if_splits)
  have other: "?j \<noteq> i" if "busy (ad_phase ?a)"
    using owned_ok(2) [OF inv, of k ?j] that k i(2) by (auto simp: owned_def)
  show ?thesis
  proof (cases "ad_phase ?a")
    case (AddWait e)
    then show ?thesis
      using a k i(1) by (auto simp: addStep_def addOpen_def keeps_def sameQueue_def nth_append Let_def live_refl
          intro: exI [of _ 1] split: if_splits prod.splits)
  next
    case AddGOP
    then show ?thesis
      using a k by (auto simp: addStep_def addGOP_def Let_def map_live_update intro: keeps_refl)
  next
    case (AddInject ps d)
    then have "addInject k ps d m = Some m'"
      using a k by (simp add: addStep_def)
    then show ?thesis
      using other AddInject
      by (auto simp: addInject_def Let_def logGop_def keeps_def sameQueue_def map_live_update live_refl split: list.splits option.splits)
  next
    case AddPublish
    then show ?thesis
      using a k other by (auto simp: addStep_def addPublish_def Let_def keeps_def sameQueue_def live_refl split: if_splits)
  next
    case (AddDone r)
    then show ?thesis
      using a k by (simp add: addStep_def)
  qed
qed

lemma stuckOn_closed: "stuckOn p i m \<Longrightarrow> deliverNext m = None"
  by (auto simp: stuckOn_def deliverNext_def deliverBlocking_def cons_WritePacket_def ShouldSkip_def split: if_splits bool.splits)

lemma keeps_Go: "stuckOn p i m \<Longrightarrow> goStep api j m = Some m' \<Longrightarrow> keeps i m m'"
  by (cases "j = i") (auto simp: goStep_def Let_def stuckOn_def keeps_def sameQueue_def live_refl
      split: if_splits goroutine.splits list.splits prod.splits)

lemma keeps_GoCancel: "stuckOn p i m \<Longrightarrow> goCancelStep api j m = Some m' \<Longrightarrow> keeps i m m'"
  by (cases "j = i") (auto simp: goCancelStep_def Let_def stuckOn_def keeps_def sameQueue_def live_refl split: if_splits prod.splits)

lemma keeps_exec:
  assumes inv: "relay_inv m" and st: "stuckOn p i m" and "relay_exec api a m = Some m'" and "\<not> ry_cancelled m'"
  shows "keeps i m m'"
proof -
  obtain "is" where l: "ry_loop m = LoopDeliver True p (i # is)" and i: "i < length (ry_objs m)"
    using st by (auto simp: stuckOn_def)
  have start: "ry_started m"
    using started_loop [OF inv] l by simp
  have close: "keeps i m (closeObjs is (m\<lparr>ry_consumers := cs\<rparr>))" "keeps i m (closeObjs is (m\<lparr>ry_sweep := sw\<rparr>))" for "is" cs sw
    using keeps_closeObjs [of i "m\<lparr>ry_consumers := cs\<rparr>" "is"] keeps_closeObjs [of i "m\<lparr>ry_sweep := sw\<rparr>" "is"] i
    by (simp_all add: keeps_def)
  show ?thesis
    using assms(3,4) l start close keeps_AddStep [OF inv st] keeps_Go [OF st] keeps_GoCancel [OF st] stuckOn_closed [OF st]
    by (cases a) (auto simp: relay_Start_def setLastCodecError_def deliverAbort_def addBegin_def RemoveConsumer_def
        sweepCollect_def sweepDelete_def relay_Close_def Let_def
        split: if_splits option.splits sweep_state.splits prod.splits intro: keeps_refl)
qed

lemma closeObjs_cancelled: "ry_cancelled (closeObjs is m) = ry_cancelled m"
  by (induction "is" arbitrary: m) (simp_all add: closeObjs_def putObj_def)

lemma deliverBlocking_cancelled: "deliverBlocking p i m = Some m' \<Longrightarrow> ry_cancelled m' = ry_cancelled m"
  by (auto simp: deliverBlocking_def logLive_def split: prod.splits bool.splits)

lemma deliverLeaky_cancelled: "ry_cancelled (deliverLeaky p i m) = ry_cancelled m"
  by (simp add: deliverLeaky_def logLive_def split: prod.splits bool.splits)

lemma deliverNext_cancelled: "deliverNext m = Some m' \<Longrightarrow> ry_cancelled m' = ry_cancelled m"
  using deliverBlocking_cancelled deliverLeaky_cancelled
  by (fastforce simp: deliverNext_def split: loop_state.splits list.splits if_splits)

lemma addStep_cancelled: "addStep k m = Some m' \<Longrightarrow> ry_cancelled m' = ry_cancelled m"
  by (auto simp: addStep_def addOpen_def addGOP_def addInject_def addPublish_def logGop_def Let_def
      split: if_splits add_phase.splits list.splits option.splits prod.splits)

lemma goStep_cancelled: "goStep api i m = Some m' \<Longrightarrow> ry_cancelled m' = ry_cancelled m"
  by (auto simp: goStep_def Let_def split: if_splits goroutine.splits list.splits prod.splits)

lemma cancelled_exec:
  assumes "ry_cancelled m" and "relay_exec api a m = Some m'"
  shows "ry_cancelled m'"
  using assms deliverNext_cancelled [of m m'] addStep_cancelled [of _ m m'] goStep_cancelled [of api _ m m']
  by (cases a) (auto simp: relay_Start_def publishHeaders_def setLastCodecError_def relayRead_def collectActive_def deliverAbort_def
      addBegin_def RemoveConsumer_def sweepCollect_def sweepDelete_def relay_Close_def goCancelStep_def closeObjs_cancelled Let_def
      split: if_splits option.splits prod.splits loop_state.splits bool.splits list.splits sweep_state.splits)

lemma cancelled_run: "ry_cancelled m \<Longrightarrow> relay_run api as m = Some m' \<Longrightarrow> ry_cancelled m'"
  by (induction "as" arbitrary: m) (auto split: option.splits dest: cancelled_exec)

lemma stuckOn_run:
  "relay_inv m \<Longrightarrow> stuckOn p i m \<Longrightarrow> relay_run api as m = Some m' \<Longrightarrow> \<not> ry_cancelled m' \<Longrightarrow> keeps i m m'"
proof (induction "as" arbitrary: m)
  case (Cons a "as")
  then obtain m1 where m1: "relay_exec api a m = Some m1" "relay_run api as m1 = Some m'"
    by (auto split: option.splits)
  have "\<not> ry_cancelled m1"
    using cancelled_run m1(2) Cons.prems(4) by blast
  then have k: "keeps i m m1"
    by (rule keeps_exec [OF Cons.prems(1,2) m1(1)])
  moreover have "keeps i m1 m'"
    using Cons.IH [OF relay_exec_inv [OF Cons.prems(1) m1(1)] stuckOn_keeps [OF Cons.prems(2) k] m1(2) Cons.prems(4)] .
  ultimately show ?case
    by (rule keeps_trans)
qed (simp add: keeps_refl)

text \<open>
  C37. A relay can wait for ever for a consumer that no longer exists.  If the loop is sending to a single consumer
  whose queue is full and whose goroutine is gone, then whatever the rest of the system does short of
  cancelling the relay, no further packet is read: consumers that attach later get no live packet.
\<close>

theorem relay_stuck:
  assumes "relay_run api as (NewRelay n win q w) = Some m" and "stuckOn p i m"
    and "relay_run api bs m = Some m'" and "\<not> ry_cancelled m'"
  shows "ry_read m' = ry_read m \<and> stuckOn p i m' \<and> (\<forall>j < length (ry_objs m'). j \<ge> length (ry_objs m) \<longrightarrow> h_live (ry_sent m' ! j) = [])"
proof -
  have inv: "relay_inv m"
    using relay_run_inv [OF NewRelay_inv assms(1)] .
  have k: "keeps i m m'"
    by (rule stuckOn_run [OF inv assms(2-4)])
  then obtain d where d: "map h_live (ry_sent m') = map h_live (ry_sent m) @ replicate d []"
    by (auto simp: keeps_def)
  have len: "length (ry_sent m) = length (ry_objs m)" "length (ry_sent m') = length (ry_objs m')"
    using inv relay_run_inv [OF inv assms(3)] by (simp_all add: relay_inv_def objs_ok_def)
  have "length (ry_objs m') = length (ry_objs m) + d"
    using arg_cong [OF d, of length] len by simp
  then have "h_live (ry_sent m' ! j) = []" if "j < length (ry_objs m')" "length (ry_objs m) \<le> j" for j
    using that len arg_cong [OF d, of "\<lambda>xs. xs ! j"] by (simp add: nth_append)
  then show ?thesis
    using k stuckOn_keeps [OF assms(2) k] by (simp add: keeps_def)
qed

definition ex_stuck :: "action list" where
  "ex_stuck = ex_boot @ [DoAdd ''a'' False, DoAddStep 0, DoAddStep 0, DoAddStep 0, DoAddStep 0,
     DoRead (ex_pkt 1 False) 1 1, DoCollect [0], DoDeliver, DoDeliver, DoRead (ex_pkt 2 False) 1 1, DoCollect [0],
     DoRemove ''a'', DoGoCancel 0, DoAdd ''b'' False, DoAddStep 1, DoAddStep 1, DoAddStep 1, DoAddStep 1]"

lemma ex_stuck_run:
  "map_option (\<lambda>m. (ry_read m, activeObjs m, ry_cancelled m, ry_loop m, map cs_goroutine (ry_objs m), map cs_queueSize (ry_objs m),
      map (length \<circ> cs_packets) (ry_objs m), fst (ShouldSkip (ex_pkt 2 False) (ry_objs m ! 0)), relay_run ex_api [DoGo 1] m \<noteq> None,
      map_option ry_cancelled (relay_run ex_api [DoGo 1] m)))
    (relay_run ex_api ex_stuck (NewRelay 0 0 1 [])) =
   Some ([ex_pkt 1 False, ex_pkt 2 False], [1], False, LoopDeliver True (ex_pkt 2 False) [0], [Gone, AwaitHeaders], [1, 1], [1, 0], False,
     True, Some False)"
  by code_simp

theorem relay_stuck_witness:
  "\<exists>m m'. relay_run ex_api ex_stuck (NewRelay 0 0 1 []) = Some m \<and> activeObjs m = [1] \<and>
    relay_run ex_api [DoGo 1] m = Some m' \<and> ry_read m' = [ex_pkt 1 False, ex_pkt 2 False] \<and> stuckOn (ex_pkt 2 False) 0 m'"
proof -
  obtain m m' where m: "relay_run ex_api ex_stuck (NewRelay 0 0 1 []) = Some m" "relay_run ex_api [DoGo 1] m = Some m'"
    "ry_read m = [ex_pkt 1 False, ex_pkt 2 False]" "activeObjs m = [1]" "\<not> ry_cancelled m'"
    "ry_loop m = LoopDeliver True (ex_pkt 2 False) [0]" "map cs_goroutine (ry_objs m) = [Gone, AwaitHeaders]"
    "map cs_queueSize (ry_objs m) = [1, 1]" "map (length \<circ> cs_packets) (ry_objs m) = [1, 0]"
    "\<not> fst (ShouldSkip (ex_pkt 2 False) (ry_objs m ! 0))"
    using ex_stuck_run by auto
  have "stuckOn (ex_pkt 2 False) 0 m"
    using m(6-10) by (cases "ry_objs m") (simp_all add: stuckOn_def)
  from relay_stuck [OF m(1) this m(2,5)] show ?thesis
    using m by auto
qed

text \<open>Two attachments pass the check of the limit before either is published.\<close>

definition ex_two :: "action list" where
  "ex_two = ex_boot @ [DoAdd ''a'' False, DoAdd ''b'' False, DoAddStep 0, DoAddStep 1, DoAddStep 0, DoAddStep 1, DoAddStep 0, DoAddStep 1,
     DoAddStep 0, DoAddStep 1]"

text \<open>A packet is read and delivered between the injection of the buffered packets and the publication.\<close>

definition ex_gap :: "action list" where
  "ex_gap = ex_boot @ [DoRead ex_key 1 1, DoCollect [], DoDeliver, DoAdd ''a'' False, DoAddStep 0, DoAddStep 0, DoAddStep 0,
     DoRead (ex_pkt 2 False) 1 1, DoCollect [], DoDeliver, DoAddStep 0, DoAddStep 0, DoRead (ex_pkt 3 False) 1 1, DoCollect [0], DoDeliver]"

text \<open>A packet is buffered, injected with the others, and then delivered by the loop.\<close>

definition ex_twice :: "action list" where
  "ex_twice = ex_boot @ [DoRead ex_key 1 1, DoAdd ''a'' False, DoAddStep 0, DoAddStep 0, DoAddStep 0, DoAddStep 0, DoAddStep 0,
     DoCollect [0], DoDeliver]"


end
