(* ===== verification/Segment.thy ===== *)
theory Segment
  imports Fmp4_Seek Relay_Consumer
begin

text \<open>
  Segment files (\<^verbatim>\<open>av/segment\<close>): the muxer that records an fMP4 segment, signals its rotation, tees completed
  fragments into a ring buffer and appends a segment index, the writer that pads a file to its preallocated
  size, and the structural check of a finished file.  A file is the bytes its writer accepted; the buffer of
  \<^verbatim>\<open>bufio\<close> and the storage profile decide only when they reach the disk.  Together with a consumer of a relay
  and the demuxer this gives the path from a queue of packets to segment files and back.
\<close>

subsection \<open>Validation of a file\<close>

datatype validate_error =
    ErrSegmentEmpty | ErrSegmentShort | ErrSegmentNoFtyp | ErrSegmentBadFtyp | ErrSegmentNoMoof | ErrSegmentBadBoxSize

function findMoofBox :: "bytes \<Rightarrow> nat \<Rightarrow> validate_error option" where
  "findMoofBox f pos =
    (if pos < length f then
       if length f < pos + 8 then Some ErrSegmentNoMoof
       else let buf = slice f pos (pos + 8); sz = unat (be32 (slice buf 0 4)) in
         if gostring (slice buf 4 8) = ''moof'' then None
         else if sz < 8 then Some ErrSegmentBadBoxSize
         else findMoofBox f (pos + sz)
     else Some ErrSegmentNoMoof)"
  by pat_completeness auto
termination
  by (relation "measure (\<lambda>(f, pos). length f - pos)") auto

declare findMoofBox.simps [simp del]

definition ValidateSegment :: "bytes \<Rightarrow> validate_error option" where
  "ValidateSegment f =
    (if length f = 0 then Some ErrSegmentEmpty
     else if length f < 8 then Some ErrSegmentShort
     else let buf = slice f 0 8 in
       if gostring (slice buf 4 8) \<noteq> ''ftyp'' then Some ErrSegmentNoFtyp
       else let ftypSize = be32 (slice buf 0 4) in
         if ftypSize < 8 then Some ErrSegmentBadFtyp else findMoofBox f (unat ftypSize))"

subsection \<open>Padding\<close>

text \<open>
  \<^verbatim>\<open>writeFreeBox\<close>: the bytes behind the header of the box are there only if the preallocation, whose errors are
  ignored, succeeded (\<open>allocated\<close>).
\<close>

definition writeFreeBox :: "bool \<Rightarrow> int \<Rightarrow> bytes" where
  "writeFreeBox allocated remaining =
    (if remaining \<le> 0 then []
     else if remaining < 8 then replicate (nat remaining) 0
     else put32 (word_of_int remaining) @ strbytes ''free'' @ (if allocated then replicate (nat (remaining - 8)) 0 else []))"

text \<open>\<^verbatim>\<open>AdaptiveWriter.Close\<close>: the contents of the file afterwards.\<close>

definition finishFile :: "bool \<Rightarrow> int \<Rightarrow> bool \<Rightarrow> bytes \<Rightarrow> bytes" where
  "finishFile allocated preallocated fixedSize out =
    (let actual = int (length out) in
     if preallocated > 0 \<and> actual < preallocated \<and> fixedSize
     then out @ writeFreeBox allocated (preallocated - actual) else out)"

subsection \<open>The segment muxer\<close>

record pendingFragment =
  pf_valid :: bool
  pf_dts :: duration
  pf_duration :: duration
  pf_keyFrame :: bool
  pf_timestamp :: gotime

definition noFragment :: pendingFragment where
  "noFragment = \<lparr>pf_valid = False, pf_dts = 0, pf_duration = 0, pf_keyFrame = False, pf_timestamp = 0\<rparr>"

definition observe :: "gotime \<Rightarrow> packet \<Rightarrow> pendingFragment \<Rightarrow> pendingFragment" where
  "observe now pkt p =
    (let p1 = (if \<not> pf_valid p
               then p\<lparr>pf_valid := True, pf_dts := DTS pkt, pf_keyFrame := KeyFrame pkt,
                      pf_timestamp := (if WallClockTime pkt = 0 then now else WallClockTime pkt)\<rparr>
               else p)
     in p1\<lparr>pf_duration := wrap64 (pf_duration p1 + Duration pkt)\<rparr>)"

record SegmentMuxer =
  sg_inner :: Muxer
  sg_ring :: "RingBuffer option"
  sg_maxSegmentBytes :: int
  sg_preallocated :: int
  sg_closed :: bool
  sg_hasVideoTracks :: bool
  sg_frag :: pendingFragment
  sg_hasMotion :: bool
  sg_hasObjects :: bool
  sg_hasKeyframe :: bool

definition NewSegmentMuxer :: "writer \<Rightarrow> int \<Rightarrow> int \<Rightarrow> RingBuffer option \<Rightarrow> SegmentMuxer" where
  "NewSegmentMuxer w maxSegmentBytes preallocBytes ring =
    \<lparr>sg_inner = NewMuxer w, sg_ring = ring, sg_maxSegmentBytes = maxSegmentBytes, sg_preallocated = preallocBytes,
     sg_closed = False, sg_hasVideoTracks = False, sg_frag = noFragment, sg_hasMotion = False, sg_hasObjects = False,
     sg_hasKeyframe = False\<rparr>"

definition sg_out :: "SegmentMuxer \<Rightarrow> bytes" where
  "sg_out m = w_out (m_w (sg_inner m))"

definition sg_BytesWritten :: "SegmentMuxer \<Rightarrow> int" where
  "sg_BytesWritten m = int (length (sg_out m))"

definition sg_WriteHeader :: "stream list \<Rightarrow> SegmentMuxer \<Rightarrow> (fmp4_error option \<times> SegmentMuxer) option" where
  "sg_WriteHeader streams m =
    (let m1 = m\<lparr>sg_hasVideoTracks := list_ex (\<lambda>s. IsVideo (codecType (s_Codec s))) streams\<rparr> in
     map_option (\<lambda>(e, inner). (e, m1\<lparr>sg_inner := inner\<rparr>)) (WriteHeader (sg_inner m1) streams))"

definition pushFragment :: "gotime \<Rightarrow> bytes \<Rightarrow> pendingFragment \<Rightarrow> SegmentMuxer \<Rightarrow> SegmentMuxer" where
  "pushFragment now data frag m =
    (case sg_ring m of
       None \<Rightarrow> m
     | Some ring \<Rightarrow>
         if length data = 0 \<or> \<not> pf_valid frag then m
         else m\<lparr>sg_ring := Some (Push now \<lparr>rf_DTS = pf_dts frag, rf_Duration = pf_duration frag, rf_KeyFrame = pf_keyFrame frag,
                                        rf_Data = data, rf_Timestamp = pf_timestamp frag\<rparr> ring)\<rparr>)"

text \<open>The tee writer, which exists when there is a ring, has captured what the muxer wrote since the reset.\<close>

definition capturedBytes :: "SegmentMuxer \<Rightarrow> SegmentMuxer \<Rightarrow> bytes" where
  "capturedBytes before after = drop (length (sg_out before)) (sg_out after)"

definition mustRotate :: "packet \<Rightarrow> SegmentMuxer \<Rightarrow> bool" where
  "mustRotate pkt m \<longleftrightarrow> sg_maxSegmentBytes m > 0 \<and> KeyFrame pkt \<and> sg_hasKeyframe m \<and> sg_BytesWritten m \<ge> sg_maxSegmentBytes m"

definition noteFlags :: "packet \<Rightarrow> SegmentMuxer \<Rightarrow> SegmentMuxer" where
  "noteFlags pkt m =
    (let m1 = (if KeyFrame pkt then m\<lparr>sg_hasKeyframe := True\<rparr> else m) in
     case Analytics pkt of
       None \<Rightarrow> m1
     | Some a \<Rightarrow> m1\<lparr>sg_hasMotion := True, sg_hasObjects := sg_hasObjects m1 \<or> length (an_Objects a) > 0\<rparr>)"

definition sg_WritePacket ::
  "(frame_analytics \<Rightarrow> bytes option) \<Rightarrow> gotime \<Rightarrow> packet \<Rightarrow> SegmentMuxer \<Rightarrow> write_result \<times> SegmentMuxer" where
  "sg_WritePacket js now pkt m =
    (if mustRotate pkt m then (WriteRotate, m)
     else let m1 = noteFlags pkt m;
              flushesBeforeAppend = (sg_hasVideoTracks m1 \<and> KeyFrame pkt \<and> pf_valid (sg_frag m1));
              flushed = (if flushesBeforeAppend then sg_frag m1 else noFragment)
       in case WritePacket js (sg_inner m1) pkt of
            (Some e, inner) \<Rightarrow> (WriteErr, m1\<lparr>sg_inner := inner\<rparr>)
          | (None, inner) \<Rightarrow>
              let m2 = m1\<lparr>sg_inner := inner\<rparr> in
              if \<not> sg_hasVideoTracks m2
              then let frag = observe now pkt (sg_frag m2)
                in (WriteOk, (pushFragment now (capturedBytes m m2) frag m2)\<lparr>sg_frag := noFragment\<rparr>)
              else let m3 = (if flushesBeforeAppend
                             then (pushFragment now (capturedBytes m m2) flushed m2)\<lparr>sg_frag := noFragment\<rparr> else m2)
                in (WriteOk, m3\<lparr>sg_frag := observe now pkt (sg_frag m3)\<rparr>))"

definition sg_WriteTrailer :: "gotime \<Rightarrow> SegmentMuxer \<Rightarrow> fmp4_error option \<times> SegmentMuxer" where
  "sg_WriteTrailer now m =
    (case WriteTrailer (sg_inner m) of
       (Some e, inner) \<Rightarrow> (Some e, m\<lparr>sg_inner := inner\<rparr>)
     | (None, inner) \<Rightarrow>
         let m1 = m\<lparr>sg_inner := inner\<rparr> in
         (None, (pushFragment now (capturedBytes m m1) (sg_frag m1) m1)\<lparr>sg_frag := noFragment\<rparr>))"

definition writeSidx :: "SegmentMuxer \<Rightarrow> SegmentMuxer" where
  "writeSidx m =
    (let fragIndex = m_fragIndex (sg_inner m) in
     if length fragIndex = 0 then m
     else let (trackID, timescale) = (case VideoTrackInfo (sg_inner m) of None \<Rightarrow> (1, 90000) | Some x \<Rightarrow> x);
              sidx = BuildSidx fragIndex trackID timescale (m_mediaStartPos (sg_inner m))
       in m\<lparr>sg_inner := (sg_inner m)\<lparr>m_w := snd (Write (m_w (sg_inner m)) sidx)\<rparr>\<rparr>)"

record SegmentCloseInfo =
  sc_SizeBytes :: int
  sc_HasMotion :: bool
  sc_HasObjects :: bool
  sc_ValidationError :: "validate_error option"

text \<open>
  \<^verbatim>\<open>Close\<close>: the finished file and what the callback is told, or \<^const>\<open>None\<close> where it returns before the callback.
\<close>

definition sg_Close :: "gotime \<Rightarrow> bool \<Rightarrow> SegmentMuxer \<Rightarrow> (bytes \<times> SegmentCloseInfo) option \<times> SegmentMuxer" where
  "sg_Close now allocated m =
    (if sg_closed m then (None, m)
     else case sg_WriteTrailer now (m\<lparr>sg_closed := True\<rparr>) of
       (e, m1) \<Rightarrow>
         if e \<noteq> None \<and> e \<noteq> Some ErrTrailerAlreadyWritten then (None, m1)
         else let m2 = writeSidx m1;
                  m3 = m2\<lparr>sg_inner := snd (Close (sg_inner m2))\<rparr>;
                  fixedSize = (sg_maxSegmentBytes m > 0 \<and> sg_preallocated m > 0);
                  f = finishFile allocated (sg_preallocated m) fixedSize (sg_out m3)
           in (Some (f, \<lparr>sc_SizeBytes = sg_BytesWritten m3, sc_HasMotion = sg_hasMotion m3, sc_HasObjects = sg_hasObjects m3,
                 sc_ValidationError = ValidateSegment f\<rparr>), m3))"


subsection \<open>Segment muxers behind a consumer\<close>

text \<open>
  The world of a recording consumer: the disks of the files to come, the finished files with what their callbacks
  were told, and the ring buffer, which one segment muxer hands over to the next.  A header that never returns
  counts as one that fails.
\<close>

record segment_world =
  sw_disks :: "writer list"
  sw_files :: "bytes list"
  sw_infos :: "SegmentCloseInfo list"
  sw_ring :: "RingBuffer option"

definition seg_api ::
  "(frame_analytics \<Rightarrow> bytes option) \<Rightarrow> gotime \<Rightarrow> bool \<Rightarrow> int \<Rightarrow> int \<Rightarrow> (SegmentMuxer, segment_world) mux_api" where
  "seg_api js now allocated maxSegmentBytes preallocBytes =
    \<lparr>mx_factory = (\<lambda>w. case sw_disks w of
        [] \<Rightarrow> (None, w)
      | d # ds \<Rightarrow> (Some (NewSegmentMuxer d maxSegmentBytes preallocBytes (sw_ring w)), w\<lparr>sw_disks := ds\<rparr>)),
     mx_WriteHeader = (\<lambda>ss m. case sg_WriteHeader ss m of
        Some (None, m1) \<Rightarrow> (True, m1) | Some (Some e, m1) \<Rightarrow> (False, m1) | None \<Rightarrow> (False, m)),
     mx_WriteCodecChange = None,
     mx_WritePacket = sg_WritePacket js now,
     mx_WriteTrailer = (\<lambda>m. snd (sg_WriteTrailer now m)),
     mx_Close = (\<lambda>m w. case sg_Close now allocated m of
        (None, m1) \<Rightarrow> w\<lparr>sw_ring := sg_ring m1\<rparr>
      | (Some (f, info), m1) \<Rightarrow>
          w\<lparr>sw_files := sw_files w @ [f], sw_infos := sw_infos w @ [info], sw_ring := sg_ring m1\<rparr>)\<rparr>"

definition sidxOf :: "Muxer \<Rightarrow> bytes" where
  "sidxOf m =
    (if m_fragIndex m = [] then []
     else case (case VideoTrackInfo m of None \<Rightarrow> (1, 90000) | Some x \<Rightarrow> x) of
       (trackID, timescale) \<Rightarrow> BuildSidx (m_fragIndex m) trackID timescale (m_mediaStartPos m))"

definition empty_disk :: "writer \<Rightarrow> bool" where
  "empty_disk d \<longleftrightarrow> w_script d = [] \<and> w_out d = []"

definition segWrote :: "(frame_analytics \<Rightarrow> bytes option) \<Rightarrow> int \<Rightarrow> int \<Rightarrow> SegmentMuxer \<Rightarrow> stream list \<Rightarrow> packet list \<Rightarrow> bool" where
  "segWrote js maxB pre m hs ps \<longleftrightarrow> \<not> sg_closed m \<and> sg_maxSegmentBytes m = maxB \<and> sg_preallocated m = pre \<and>
    (\<exists>d m0. empty_disk d \<and> WriteHeader (NewMuxer d) hs = Some (None, m0) \<and> writePackets js m0 ps = (None, sg_inner m))"

definition segFile :: "(frame_analytics \<Rightarrow> bytes option) \<Rightarrow> bool \<Rightarrow> int \<Rightarrow> int \<Rightarrow> stream list \<Rightarrow> packet list \<Rightarrow> bytes \<Rightarrow> bool" where
  "segFile js alloc maxB pre hs ps f \<longleftrightarrow>
    (\<exists>d m0 m1 m2. empty_disk d \<and> WriteHeader (NewMuxer d) hs = Some (None, m0) \<and> writePackets js m0 ps = (None, m1) \<and>
       WriteTrailer m1 = (None, m2) \<and> f = finishFile alloc pre (maxB > 0 \<and> pre > 0) (w_out (m_w m2) @ sidxOf m2))"

definition segArchive :: "(frame_analytics \<Rightarrow> bytes option) \<Rightarrow> bool \<Rightarrow> int \<Rightarrow> int \<Rightarrow> segment_world \<Rightarrow> (stream list \<times> packet list) list \<Rightarrow> bool" where
  "segArchive js alloc maxB pre w segs \<longleftrightarrow>
    list_all empty_disk (sw_disks w) \<and> list_all2 (\<lambda>f (hs, ps). segFile js alloc maxB pre hs ps f) (sw_files w) segs"

lemma pushFragment_sel [simp]:
  "sg_inner (pushFragment now data frag m) = sg_inner m" "sg_closed (pushFragment now data frag m) = sg_closed m"
  "sg_maxSegmentBytes (pushFragment now data frag m) = sg_maxSegmentBytes m"
  "sg_preallocated (pushFragment now data frag m) = sg_preallocated m"
  by (simp_all add: pushFragment_def split: option.splits)

lemma noteFlags_sel [simp]:
  "sg_inner (noteFlags pkt m) = sg_inner m" "sg_closed (noteFlags pkt m) = sg_closed m"
  "sg_maxSegmentBytes (noteFlags pkt m) = sg_maxSegmentBytes m" "sg_preallocated (noteFlags pkt m) = sg_preallocated m"
  by (simp_all add: noteFlags_def Let_def split: option.splits)

lemma sg_WritePacket_ok:
  assumes "sg_WritePacket js now pkt m = (WriteOk, m')"
  shows "WritePacket js (sg_inner m) pkt = (None, sg_inner m')" "sg_closed m' = sg_closed m"
    "sg_maxSegmentBytes m' = sg_maxSegmentBytes m" "sg_preallocated m' = sg_preallocated m"
  using assms by (auto simp: sg_WritePacket_def Let_def split: if_splits prod.splits option.splits)

lemma sg_WritePacket_rotate: "sg_WritePacket js now pkt m = (WriteRotate, m') \<Longrightarrow> m' = m"
  by (auto simp: sg_WritePacket_def Let_def split: if_splits prod.splits option.splits)

lemma writePackets_snoc:
  "writePackets js m ps = (None, m1) \<Longrightarrow> WritePacket js m1 p = (None, m2) \<Longrightarrow> writePackets js m (ps @ [p]) = (None, m2)"
  by (induction ps arbitrary: m) (auto split: prod.splits option.splits)

lemma WriteHeader_ready:
  assumes "WriteHeader (NewMuxer d) hs = Some (None, m0)" and "w_script d = []"
  shows "reliable m0" "m_written m0" "\<not> m_closed m0"
proof -
  define m1 where "m1 = addTracks (NewMuxer d) 1 hs"
  have fr: "m_w m1 = d" "\<not> m_closed m1"
    using addTracks_frame [of "NewMuxer d" 1 hs] by (simp_all add: m1_def NewMuxer_def)
  show "reliable m0" "m_written m0" "\<not> m_closed m0"
    using assms fr unfolding WriteHeader_def Let_def m1_def [symmetric]
    by (auto simp: NewMuxer_def emit_def Write_def reliable_def bind_eq_Some_conv split: if_splits)
qed


lemma WriteTrailer_ready:
  assumes "reliable m" and "\<not> m_closed m"
  obtains m' where "WriteTrailer m = (None, m')" "reliable m'" "m_closed m'"
proof -
  have r: "reliable (m\<lparr>m_closed := True\<rparr>)"
    using assms(1) by (simp add: reliable_def)
  show ?thesis
  proof (cases "hasAnySamples (m\<lparr>m_closed := True\<rparr>)")
    case True
    then show ?thesis
      using flushFragment_reliable [OF r] assms(2) that by (auto simp: WriteTrailer_def Let_def)
  next
    case False
    then show ?thesis
      using r assms(2) that by (simp add: WriteTrailer_def Let_def)
  qed
qed

lemma CloseWriter_out [simp]: "w_out (snd (CloseWriter w)) = w_out w"
  by (simp add: CloseWriter_def split: option.splits)

lemma Close_out: "m_closed m \<Longrightarrow> w_out (m_w (snd (Close m))) = w_out (m_w m)"
  by (simp add: Close_def Let_def split: prod.splits) (metis CloseWriter_out snd_conv)

lemma writeSidx_inner:
  "sg_inner (writeSidx m) = (sg_inner m)\<lparr>m_w := m_w (sg_inner (writeSidx m))\<rparr>" "sg_preallocated (writeSidx m) = sg_preallocated m"
  "w_script (m_w (sg_inner m)) = [] \<Longrightarrow> w_out (m_w (sg_inner (writeSidx m))) = w_out (m_w (sg_inner m)) @ sidxOf (sg_inner m)"
  by (simp_all add: writeSidx_def sidxOf_def Write_def Let_def split: prod.splits option.splits)

lemma sg_Close_after_trailer:
  assumes "reliable (sg_inner m)" and "m_closed (sg_inner m)" and "\<not> sg_closed m"
  shows "\<exists>info m'. sg_Close now alloc m =
    (Some (finishFile alloc (sg_preallocated m) (sg_maxSegmentBytes m > 0 \<and> sg_preallocated m > 0)
       (w_out (m_w (sg_inner m)) @ sidxOf (sg_inner m)), info), m')"
proof -
  let ?m1 = "m\<lparr>sg_closed := True\<rparr>"
  have t: "sg_WriteTrailer now ?m1 = (Some ErrTrailerAlreadyWritten, ?m1)"
    using assms(2) by (simp add: sg_WriteTrailer_def WriteTrailer_def)
  have "m_closed (sg_inner (writeSidx ?m1))"
    using assms(2) writeSidx_inner(1) [of ?m1] by (metis Muxer.select_convs(7) Muxer.surjective Muxer.update_convs(1) SegmentMuxer.select_convs(1) SegmentMuxer.surjective SegmentMuxer.update_convs(5))
  then have "w_out (m_w (snd (Close (sg_inner (writeSidx ?m1))))) = w_out (m_w (sg_inner m)) @ sidxOf (sg_inner m)"
    using Close_out writeSidx_inner(3) [of ?m1] assms(1) by (simp add: reliable_def)
  then show ?thesis
    using assms(3) t by (simp add: sg_Close_def Let_def sg_out_def)
qed

lemma segWrote_closes:
  assumes "segWrote js maxB pre m hs ps"
  obtains f info m' where "segFile js alloc maxB pre hs ps f" "sg_Close now alloc (snd (sg_WriteTrailer now m)) = (Some (f, info), m')"
proof -
  obtain d m0 where d: "empty_disk d" "WriteHeader (NewMuxer d) hs = Some (None, m0)" "writePackets js m0 ps = (None, sg_inner m)"
    and m: "\<not> sg_closed m" "sg_maxSegmentBytes m = maxB" "sg_preallocated m = pre"
    using assms by (auto simp: segWrote_def)
  have "reliable m0" "m_written m0" "\<not> m_closed m0"
    using WriteHeader_ready [OF d(2)] d(1) by (simp_all add: empty_disk_def)
  then have "reliable (sg_inner m)" "\<not> m_closed (sg_inner m)"
    using writePackets_reliable [of m0 js ps] d(3) by auto
  then obtain m2 where m2: "WriteTrailer (sg_inner m) = (None, m2)" "reliable m2" "m_closed m2"
    by (rule WriteTrailer_ready)
  let ?m = "snd (sg_WriteTrailer now m)"
  have sel: "sg_inner ?m = m2" "sg_closed ?m = sg_closed m" "sg_preallocated ?m = pre" "sg_maxSegmentBytes ?m = maxB"
    using m m2(1) by (simp_all add: sg_WriteTrailer_def Let_def)
  then obtain info m' where c: "sg_Close now alloc ?m =
      (Some (finishFile alloc pre (maxB > 0 \<and> pre > 0) (w_out (m_w m2) @ sidxOf m2), info), m')"
    using sg_Close_after_trailer [of ?m now alloc] m(1) m2(2,3) by auto
  have "segFile js alloc maxB pre hs ps (finishFile alloc pre (maxB > 0 \<and> pre > 0) (w_out (m_w m2) @ sidxOf m2))"
    using d m2(1) by (auto simp: segFile_def)
  then show ?thesis
    using that c by blast
qed

interpretation seg: packet_sink "seg_api js now alloc maxB pre"
    "\<lambda>m. \<exists>d ring. empty_disk d \<and> m = NewSegmentMuxer d maxB pre ring" "segWrote js maxB pre" "segArchive js alloc maxB pre"
  for js now alloc maxB pre
proof
  let ?api = "seg_api js now alloc maxB pre"
  show "(\<exists>d ring. empty_disk d \<and> m = NewSegmentMuxer d maxB pre ring) \<and> segArchive js alloc maxB pre w' segs"
    if "segArchive js alloc maxB pre w segs" "mx_factory ?api w = (Some m, w')" for w segs m w'
    using that by (auto simp: seg_api_def segArchive_def split: list.splits)
  show "segWrote js maxB pre m' hs []"
    if fr: "\<exists>d ring. empty_disk d \<and> m = NewSegmentMuxer d maxB pre ring" and hdr: "mx_WriteHeader ?api hs m = (True, m')" for m hs m'
  proof -
    obtain d ring where d: "empty_disk d" "m = NewSegmentMuxer d maxB pre ring"
      using fr by blast
    then show ?thesis
      using hdr unfolding segWrote_def
      by (auto simp: seg_api_def sg_WriteHeader_def NewSegmentMuxer_def Let_def split: option.splits intro!: exI [of _ d])
  qed
  show "segWrote js maxB pre m' hs (ps @ [p])" if "segWrote js maxB pre m hs ps" "mx_WritePacket ?api p m = (WriteOk, m')" for m hs ps p m'
    using that sg_WritePacket_ok [of js now p m m'] by (auto simp: seg_api_def segWrote_def intro: writePackets_snoc)
  show "segWrote js maxB pre m' hs ps" if "segWrote js maxB pre m hs ps" "mx_WritePacket ?api p m = (WriteRotate, m')" for m hs ps p m'
    using that sg_WritePacket_rotate [of js now p m m'] by (simp add: seg_api_def)
  show "segWrote js maxB pre m' hs ps" if "segWrote js maxB pre m hs ps" "codecChange ?api p m = (True, m')" for m hs ps p m'
    using that by (simp add: seg_api_def codecChange_def split: option.splits)
  show "segArchive js alloc maxB pre (closeMuxer ?api m w) (segs @ [(hs, ps)])"
    if wrote: "segWrote js maxB pre m hs ps" and arch: "segArchive js alloc maxB pre w segs" for m hs ps w segs
  proof -
    obtain f info m' where f: "segFile js alloc maxB pre hs ps f" "sg_Close now alloc (snd (sg_WriteTrailer now m)) = (Some (f, info), m')"
      by (rule segWrote_closes [OF wrote])
    then show ?thesis
      using arch by (auto simp: closeMuxer_def seg_api_def segArchive_def intro: list_all2_appendI)
  qed
qed

end
