(* ===== verification/Segment_Playback.thy ===== *)
theory Segment_Playback
  imports Segment
begin

text \<open>
  Playing back segment files: what the demuxer (\<^verbatim>\<open>av/format/fmp4/demuxer.go\<close>) and the structural check
  (\<^verbatim>\<open>av/segment/validate.go\<close>) make of a file that a segment muxer closed, with the segment index and the padding
  behind its fragments, and the whole path from the queue of a consumer to its files and back.
\<close>

subsection \<open>The end of a segment file\<close>

lemma length_indexed: "indexed n fs es \<Longrightarrow> length es = length fs"
  by (induction n fs es rule: indexed.induct) simp_all

lemma sidxOf_box:
  assumes "recorded T I frags acc m" and "frags \<noteq> []"
  shows "\<exists>p. sidxOf m = makeBox ''sidx'' p \<and> box_ok ''sidx'' p"
proof -
  have "length (m_fragIndex m) = length frags" "length frags \<le> 2 ^ 26"
    using assms(1) length_indexed by (auto simp: recorded_def ledger_def)
  moreover from this assms(2) have "m_fragIndex m \<noteq> []"
    by auto
  ultimately show ?thesis
    by (auto simp: sidxOf_def BuildSidx_payload box_ok_def sidxPayload_def split: prod.split option.split)
qed

lemma sidxOf_none: "recorded T I [] acc m \<Longrightarrow> sidxOf m = []"
  by (simp add: recorded_def ledger_def sidxOf_def)

text \<open>The preallocated bytes behind the contents of a file.\<close>

definition unusedBytes :: "int \<Rightarrow> int \<Rightarrow> bytes \<Rightarrow> int" where
  "unusedBytes maxB pre out = (if 0 < maxB \<and> 0 < pre \<and> int (length out) < pre then pre - int (length out) else 0)"

lemma finishFile_pad: "finishFile True pre (0 < maxB \<and> 0 < pre) out = out @ writeFreeBox True (unusedBytes maxB pre out)"
  by (simp add: finishFile_def unusedBytes_def Let_def writeFreeBox_def)

lemma free_box:
  assumes "8 \<le> n" and "n < 2 ^ 32"
  shows "\<exists>p. writeFreeBox True n = makeBox ''free'' p \<and> box_ok ''free'' p"
proof (intro exI conjI)
  let ?p = "replicate (nat (n - 8)) (0 :: byte)"
  show ok: "box_ok ''free'' ?p"
    using assms by (simp add: box_ok_def)
  have "8 + length ?p = nat n"
    using assms(1) by simp
  then have "boxSize ?p = word_of_int n"
    using assms(1) unfolding boxSize_def by (simp only: of_nat_nat)
  then show "writeFreeBox True n = makeBox ''free'' ?p"
    using assms by (simp add: writeFreeBox_def makeBox_layout [OF ok])
qed

definition padEnd :: "int \<Rightarrow> demux_error" where
  "padEnd unused = (if 0 < unused \<and> unused < 8 then DUnexpectedEOF else DEOF)"

lemma ends_pad:
  assumes "n < 2 ^ 32"
  shows "ends srt uj (padEnd n) (writeFreeBox True n)"
proof -
  consider "n \<le> 0" | "0 < n" "n < 8" | "8 \<le> n"
    by linarith
  then show ?thesis
  proof cases
    case 3
    obtain p where p: "writeFreeBox True n = makeBox ''free'' p" "box_ok ''free'' p"
      using free_box [OF 3 assms] by blast
    show ?thesis
      using ends_box [OF ends_Nil p(2)] 3 by (simp add: padEnd_def p(1))
  qed (simp_all add: writeFreeBox_def padEnd_def ends_Nil ends_short)
qed

lemma ends_segment:
  assumes "recorded T I frags acc m" and "n < 2 ^ 32"
  shows "ends srt uj (padEnd n) (sidxOf m @ writeFreeBox True n)"
proof (cases "frags = []")
  case True
  then show ?thesis
    using sidxOf_none [of T I acc m] ends_pad [OF assms(2)] assms(1) by simp
next
  case False
  then obtain p where "sidxOf m = makeBox ''sidx'' p" "box_ok ''sidx'' p"
    using sidxOf_box [OF assms(1)] by blast
  then show ?thesis
    using ends_box [OF ends_pad [OF assms(2)], of "''sidx''"] by simp
qed

lemma length_tail:
  assumes "recorded T I frags acc m" and "n < 2 ^ 32"
  shows "length (sidxOf m @ writeFreeBox True n) < 2 ^ 34"
proof -
  have "length (writeFreeBox True n) < 2 ^ 32"
    using assms(2) by (auto simp: writeFreeBox_def)
  moreover have "length (sidxOf m) < 2 ^ 32"
    using sidxOf_box [OF assms(1)] sidxOf_none [of T I acc m] assms(1)
    by (cases "frags = []") (auto simp: length_makeBox box_ok_def)
  ultimately show ?thesis
    by simp
qed

subsection \<open>The structural check\<close>

lemma findMoofBox_box:
  assumes d: "drop p xs = makeBox typ q @ rest" and ok: "box_ok typ q" and p: "p \<le> length xs"
  shows "findMoofBox xs p = (if typ = ''moof'' then None else findMoofBox xs (p + (8 + length q)))"
proof -
  note b = box_at [OF d ok p]
  have sz: "unat (boxSize q) = 8 + length q"
    using ok by (intro unat_boxSize) (simp add: box_ok_def)
  have "slice (slice xs p (p + 8)) 0 4 = slice xs p (p + 4)" "slice (slice xs p (p + 8)) 4 8 = slice xs (p + 4) (p + 8)"
    by (simp_all add: slice_def drop_take add.commute)
  moreover have "p < length xs" "\<not> length xs < p + 8"
    using b(1) by simp_all
  ultimately show ?thesis
    by (subst findMoofBox.simps) (simp add: b sz Let_def)
qed

lemma findMoofBox_short: "length xs < p + 8 \<Longrightarrow> findMoofBox xs p = Some ErrSegmentNoMoof"
  by (simp add: findMoofBox.simps)

lemma findMoofBox_emsgs:
  assumes "drop p xs = emsgRun eid ss @ rest" and "\<forall>s \<in> set ss. emsg_ok s" and "p \<le> length xs"
  shows "findMoofBox xs p = findMoofBox xs (p + length (emsgRun eid ss))"
  using assms
proof (induction ss arbitrary: p eid)
  case (Cons s ss)
  show ?case
  proof (cases "sm_extra s = []")
    case False
    define q where "q = emsgPayload (sm_presentationTimeMS s) eid (sm_extra s)"
    have ok: "box_ok ''emsg'' q"
      using Cons.prems(2) by (simp add: q_def emsg_box)
    have d: "drop p xs = makeBox ''emsg'' q @ (emsgRun (eid + 1) ss @ rest)"
      using Cons.prems(1) False by (simp add: buildEmsg_payload q_def)
    note b = box_at [OF d ok Cons.prems(3)]
    have "length (emsgRun eid (s # ss)) = 8 + length q + length (emsgRun (eid + 1) ss)"
      using False ok by (simp add: buildEmsg_payload q_def length_makeBox box_ok_def)
    then show ?thesis
      using Cons.IH [OF b(5) _ b(1)] Cons.prems(2) findMoofBox_box [OF d ok Cons.prems(3)]
      by (simp add: add.assoc)
  qed (use Cons in simp)
qed simp

lemma findMoofBox_fragment:
  assumes d: "drop p xs = fragBytes f @ rest" and ok: "frag_ok T f" and p: "p \<le> length xs"
  shows "findMoofBox xs p = None"
proof -
  have d0: "drop p xs = emsgRun (fr_emsgID f) (fragSamples f) @ (fragMoofMdat f @ rest)"
    using d by (simp add: fragBytes_def fr_emsgs_run)
  have em: "\<forall>s \<in> set (fragSamples f). emsg_ok s" and sz: "moofSize (fragActive f) < 2 ^ 31"
    using ok by (simp_all add: frag_ok_def fragment_ok_def)
  obtain q where q: "buildMoof (fragActive f) (fr_seq f) (dataOffsets (fragActive f)) = makeBox ''moof'' q" "box_ok ''moof'' q"
    using moof_box [OF sz, of "fr_seq f"] by blast
  let ?p = "p + length (emsgRun (fr_emsgID f) (fragSamples f))"
  have d1: "drop ?p xs = makeBox ''moof'' q @ (buildMdat (fragActive f) @ rest)"
    using drop_field [OF d0] by (simp add: fragMoofMdat_def q(1))
  have "?p \<le> length xs"
    using arg_cong [OF d0, of length] p by simp
  then show ?thesis
    using findMoofBox_emsgs [OF d0 em p] findMoofBox_box [OF d1 q(2)] by simp
qed

lemma findMoofBox_pad:
  assumes "drop p xs = writeFreeBox True n" and "p \<le> length xs" and "n < 2 ^ 32"
  shows "findMoofBox xs p = Some ErrSegmentNoMoof"
proof (cases "8 \<le> n")
  case True
  then obtain q where q: "writeFreeBox True n = makeBox ''free'' q" "box_ok ''free'' q"
    using free_box assms(3) by blast
  then have d: "drop p xs = makeBox ''free'' q @ []"
    using assms(1) by simp
  have "drop (p + (8 + length q)) xs = []"
    by (rule box_at(5) [OF d q(2) assms(2)])
  then show ?thesis
    using findMoofBox_box [OF d q(2) assms(2)] findMoofBox_short [of xs "p + (8 + length q)"] by simp
next
  case False
  have "length xs - p = length (writeFreeBox True n)"
    using assms(1) by (metis length_drop)
  then have "length xs < p + 8"
    using False assms(2) by (auto simp: writeFreeBox_def split: if_splits)
  then show ?thesis
    by (rule findMoofBox_short)
qed

lemma ValidateSegment_ftyp:
  assumes f: "f = makeBox ''ftyp'' p @ rest" and ok: "box_ok ''ftyp'' p"
  shows "ValidateSegment f = findMoofBox f (8 + length p)"
proof -
  have d: "drop 0 f = makeBox ''ftyp'' p @ rest"
    by (simp add: f)
  note b = box_at [OF d ok le0, simplified add_0]
  have sz: "unat (boxSize p) = 8 + length p"
    using ok by (intro unat_boxSize) (simp add: box_ok_def)
  have "slice (slice f 0 8) 0 4 = slice f 0 4" "slice (slice f 0 8) 4 8 = slice f 4 8"
    by (simp_all add: slice_def drop_take)
  moreover have "\<not> boxSize p < 8"
    using sz by (simp add: word_less_nat_alt)
  moreover have "length f \<noteq> 0" "\<not> length f < 8"
    using b(1) by auto
  ultimately show ?thesis
    using b(2,3) sz by (simp add: ValidateSegment_def Let_def)
qed

lemma ValidateSegment_recorded:
  assumes r: "recorded T I frags acc m" and n: "n < 2 ^ 32"
  shows "ValidateSegment ((I @ concat (map fragBytes frags)) @ sidxOf m @ writeFreeBox True n) =
    (if frags = [] then Some ErrSegmentNoMoof else None)" (is "ValidateSegment ?f = _")
proof -
  have init: "buildInitSegment T = Some I" and tok: "tracks_ok T" and frag: "\<forall>f \<in> set frags. frag_ok (sessionTable T) f"
    using r by (simp_all add: recorded_def)
  obtain p where p: "buildFtyp T = makeBox ''ftyp'' p" "box_ok ''ftyp'' p"
    using buildFtyp_box by blast
  note moov = moov_search [OF tok]
  have I: "I = makeBox ''ftyp'' p @ makeBox ''moov'' (moovPayload T)"
    using init by (simp add: buildInitSegment_def moov(1) p(1))
  define rest where "rest = concat (map fragBytes frags) @ sidxOf m @ writeFreeBox True n"
  define f where "f = ?f"
  have f: "f = makeBox ''ftyp'' p @ (makeBox ''moov'' (moovPayload T) @ rest)"
    by (simp add: f_def rest_def I)
  then have d0: "drop 0 f = makeBox ''ftyp'' p @ (makeBox ''moov'' (moovPayload T) @ rest)"
    by simp
  note b0 = box_at [OF d0 p(2) le0, simplified add_0]
  note b1 = box_at [OF b0(5) moov(2) b0(1)]
  let ?r = "8 + length p + (8 + length (moovPayload T))"
  have "ValidateSegment f = findMoofBox f (8 + length p)"
    by (rule ValidateSegment_ftyp [OF f p(2)])
  also have "\<dots> = findMoofBox f ?r"
    using findMoofBox_box [OF b0(5) moov(2) b0(1)] by simp
  also have "\<dots> = (if frags = [] then Some ErrSegmentNoMoof else None)"
  proof (cases frags)
    case Nil
    then show ?thesis
      using findMoofBox_pad [OF _ b1(1) n] b1(5) sidxOf_none r by (simp add: rest_def)
  next
    case (Cons g gs)
    have "drop ?r f = fragBytes g @ (concat (map fragBytes gs) @ sidxOf m @ writeFreeBox True n)"
      using b1(5) Cons by (simp add: rest_def)
    then show ?thesis
      using findMoofBox_fragment [OF _ _ b1(1), of g _ "sessionTable T"] frag Cons by simp
  qed
  finally show ?thesis
    by (simp add: f_def)
qed

lemma recorded_empty:
  assumes r: "recorded T I frags acc m" and k: "\<forall>(k, s) \<in> set acc. k < length T"
  shows "frags = [] \<longleftrightarrow> acc = []"
proof
  assume "frags = []"
  then have none: "\<forall>k < length T. accepted k acc = []"
    using r ledger_drained [of I T frags acc m] by (simp add: recorded_def)
  show "acc = []"
  proof (cases acc)
    case (Cons x xs)
    then have "accepted (fst x) acc \<noteq> []" "fst x < length T"
      using k by (auto simp: accepted_def)
    then show ?thesis
      using none by blast
  qed
next
  assume "acc = []"
  then show "frags = []"
    using r length_frags [of I T frags acc m] by (simp add: recorded_def)
qed

lemma acceptedFrom_tracks:
  "\<forall>i k. tm i = Some k \<longrightarrow> k < n \<Longrightarrow> \<forall>(k, s) \<in> set (acceptedFrom js tm info w off pkts). k < n"
  by (induction pkts arbitrary: w off) (auto simp: Let_def split: option.split)

subsection \<open>From the queue to the files and back\<close>

text \<open>
  What a file of a recording says of the packets \<open>ps\<close> it was made from: the streams, the payloads of every
  stream up to the error at which reading ends, and the verdict of the structural check.
\<close>

definition plays ::
  "(packet list \<Rightarrow> packet list) \<Rightarrow> (bytes \<Rightarrow> frame_analytics option) \<Rightarrow> (frame_analytics \<Rightarrow> bytes option) \<Rightarrow> bool \<Rightarrow>
   stream list \<Rightarrow> packet list \<Rightarrow> demux_error \<Rightarrow> bytes \<Rightarrow> bool" where
  "plays srt uj js seekable hs ps e f \<longleftrightarrow>
    (\<exists>dsk m0 acc d out n. empty_disk dsk \<and> WriteHeader (NewMuxer dsk) hs = Some (None, m0) \<and>
       acc = acceptedFrom js (m_trackMap m0) (m_tracks m0) (hasVideoTracks m0) None ps \<and>
       GetCodecs (NewDemuxer f seekable) = (Inr (numberedStreams (map s_Codec (filter supported hs))), d) \<and>
       drain srt uj n d = (out, Some e) \<and>
       (\<forall>k < length (m_tracks m0). streamPayloads k out = mset (map (payloadOf (m_tracks m0 ! k)) (accepted k acc))) \<and>
       ValidateSegment f = (if acc = [] then Some ErrSegmentNoMoof else None))"

lemma segFile_plays:
  assumes f: "segFile js True maxB pre hs ps f" and ok: "session_ok js hs ps" and perm: "\<forall>ps. mset (srt ps) = mset ps"
    and pre: "pre < 2 ^ 32"
  shows "\<exists>contents. f = contents @ writeFreeBox True (unusedBytes maxB pre contents) \<and>
    plays srt uj js seekable hs ps (padEnd (unusedBytes maxB pre contents)) f"
proof -
  obtain dsk m0 m1 m2 where d: "empty_disk dsk" "WriteHeader (NewMuxer dsk) hs = Some (None, m0)"
      "writePackets js m0 ps = (None, m1)" "WriteTrailer m1 = (None, m2)"
    and f: "f = finishFile True pre (maxB > 0 \<and> pre > 0) (w_out (m_w m2) @ sidxOf m2)"
    using f by (auto simp: segFile_def)
  define acc where "acc = acceptedFrom js (m_trackMap m0) (m_tracks m0) (hasVideoTracks m0) None ps"
  have out: "w_out dsk = []"
    using d(1) by (simp add: empty_disk_def)
  obtain frags where r: "recorded (m_tracks m0) (w_out (m_w m0)) frags acc m2"
    using session_recorded [OF d(2) out d(3,4) ok] by (auto simp: acc_def)
  define c where "c = w_out (m_w m2) @ sidxOf m2"
  define u where "u = unusedBytes maxB pre c"
  have u: "u < 2 ^ 32" and fc: "f = w_out (m_w m2) @ (sidxOf m2 @ writeFreeBox True u)"
    using pre f by (simp_all add: u_def unusedBytes_def c_def finishFile_pad)
  have "\<forall>(k, s) \<in> set acc. k < length (m_tracks m0)"
    using WriteHeader_ledger(2) [OF d(2) out] unfolding acc_def by (intro acceptedFrom_tracks) (auto simp: open_mux_def)
  then have empty: "frags = [] \<longleftrightarrow> acc = []"
    by (rule recorded_empty [OF r])
  have valid: "ValidateSegment f = (if acc = [] then Some ErrSegmentNoMoof else None)"
    using ValidateSegment_recorded [OF r u] r by (simp add: fc recorded_def ledger_def empty)
  have "plays srt uj js seekable hs ps (padEnd u) f"
    using recorded_plays [OF r perm ends_segment [OF r u] length_tail [OF r u], of seekable uj] d(1,2) valid
    unfolding plays_def fc [symmetric] WriteHeader_tracks(2) [OF d(2) out] acc_def by blast
  then show ?thesis
    using fc by (intro exI [of _ c]) (simp add: u_def c_def)
qed

text \<open>The same with the contents of the file named whether the session is within the limits or not.\<close>

definition plays_or_large ::
  "(packet list \<Rightarrow> packet list) \<Rightarrow> (bytes \<Rightarrow> frame_analytics option) \<Rightarrow> (frame_analytics \<Rightarrow> bytes option) \<Rightarrow> bool \<Rightarrow> int \<Rightarrow> int \<Rightarrow>
   stream list \<Rightarrow> packet list \<Rightarrow> demux_error \<Rightarrow> bytes \<Rightarrow> bool" where
  "plays_or_large srt uj js seekable maxB pre hs ps e f \<longleftrightarrow>
    (\<exists>contents. f = contents @ writeFreeBox True (unusedBytes maxB pre contents) \<and> e = padEnd (unusedBytes maxB pre contents) \<and>
       (session_ok js hs ps \<longrightarrow> plays srt uj js seekable hs ps e f))"

lemma segFile_end:
  assumes "segFile js True maxB pre hs ps f" and "\<forall>ps. mset (srt ps) = mset ps" and "pre < 2 ^ 32"
  shows "\<exists>e. plays_or_large srt uj js seekable maxB pre hs ps e f"
proof (cases "session_ok js hs ps")
  case True
  then show ?thesis
    using segFile_plays [OF assms(1) _ assms(2,3), of uj seekable] unfolding plays_or_large_def by blast
next
  case False
  then show ?thesis
    using assms(1) by (auto simp: plays_or_large_def segFile_def finishFile_pad simp del: append_assoc)
qed

text \<open>The files of a run and the blocks they were made from.\<close>

lemma run_files:
  assumes run: "cons_run (seg_api js now True maxB pre) hs pkts w = (None, w', r)"
    and disks: "list_all empty_disk (sw_disks w)" and files: "sw_files w = []"
    and pre: "pre < 2 ^ 32" and perm: "\<forall>ps. mset (srt ps) = mset ps"
  shows "\<exists>blocks. blocks \<noteq> [] \<and> concat blocks = pkts \<and>
    list_all2 (\<lambda>f ps. \<exists>e. plays_or_large srt uj js seekable maxB pre hs ps e f) (sw_files w') blocks"
proof -
  have "segArchive js True maxB pre w []"
    using disks files by (simp add: segArchive_def)
  from seg.run_archives [OF this run] obtain blocks where b: "blocks \<noteq> []" "segArchive js True maxB pre w' (map (Pair hs) blocks)"
      "concat blocks = pkts"
    by auto
  then have "list_all2 (\<lambda>f ps. segFile js True maxB pre hs ps f) (sw_files w') blocks"
    by (simp add: segArchive_def list_all2_map2)
  then show ?thesis
    using b segFile_end [OF _ perm pre] by (intro exI [of _ blocks]) (auto elim!: list_all2_mono)
qed

text \<open>A recording that does not fail: a muxer that can write, and a disk for every segment.\<close>

definition ready :: "SegmentMuxer \<Rightarrow> bool" where
  "ready m \<longleftrightarrow> reliable (sg_inner m) \<and> m_written (sg_inner m) \<and> \<not> m_closed (sg_inner m)"

lemma sg_WritePacket_ready:
  assumes "ready m"
  shows "\<exists>m'. sg_WritePacket js now p m = (if mustRotate p m then WriteRotate else WriteOk, m') \<and> ready m'"
proof -
  obtain inner where "WritePacket js (sg_inner m) p = (None, inner)" "reliable inner" "m_written inner" "\<not> m_closed inner"
    using writePackets_reliable [of "sg_inner m" js "[p]"] assms by (auto simp: ready_def split: prod.splits option.splits)
  then show ?thesis
    using assms by (auto simp: sg_WritePacket_def ready_def Let_def)
qed

lemma seg_open:
  assumes disks: "list_all empty_disk (sw_disks w)" "sw_disks w \<noteq> []"
    and hs: "\<forall>s \<in> set hs. codec_fits (s_Codec s)" "\<exists>s \<in> set hs. supported s"
  shows "\<exists>m. openAndInitMuxer (seg_api js now alloc maxB pre) hs w = (Inr m, w\<lparr>sw_disks := tl (sw_disks w)\<rparr>) \<and>
    ready m \<and> \<not> mustRotate p m"
proof -
  obtain d ds where d: "sw_disks w = d # ds" "w_script d = []"
    using disks by (cases "sw_disks w") (auto simp: empty_disk_def)
  obtain m0 where m0: "WriteHeader (NewMuxer d) hs = Some (None, m0)" "reliable m0" "m_written m0" "\<not> m_closed m0"
    using WriteHeader_reliable [OF d(2) hs] by blast
  let ?n = "NewSegmentMuxer d maxB pre (sw_ring w)"
  have h: "sg_WriteHeader hs ?n = Some (None,
      ?n\<lparr>sg_hasVideoTracks := list_ex (\<lambda>s. IsVideo (codecType (s_Codec s))) hs, sg_inner := m0\<rparr>)"
    using m0(1) by (simp add: sg_WriteHeader_def NewSegmentMuxer_def)
  then show ?thesis
    using d(1) m0 by (simp add: openAndInitMuxer_def seg_api_def ready_def mustRotate_def NewSegmentMuxer_def)
qed

lemma closeMuxer_disks [simp]: "sw_disks (closeMuxer (seg_api js now alloc maxB pre) m w) = sw_disks w"
  by (simp add: closeMuxer_def seg_api_def split: prod.split option.split)

lemma seg_handlePacket:
  assumes m: "ready m" and disks: "list_all empty_disk (sw_disks w)" "sw_disks w \<noteq> []"
    and hs: "\<forall>s \<in> set hs. codec_fits (s_Codec s)" "\<exists>s \<in> set hs. supported s"
  shows "\<exists>m' w' r'. handlePacket (seg_api js now alloc maxB pre) hs p m w r = (None, m', w', r') \<and> ready m' \<and>
    list_all empty_disk (sw_disks w') \<and> length (sw_disks w) \<le> Suc (length (sw_disks w'))"
proof -
  let ?api = "seg_api js now alloc maxB pre"
  have api: "codecChange ?api p m = (True, m)" "mx_WritePacket ?api = sg_WritePacket js now"
    by (simp_all add: codecChange_def seg_api_def split: option.split)
  obtain m1 where m1: "sg_WritePacket js now p m = (if mustRotate p m then WriteRotate else WriteOk, m1)" "ready m1"
    using sg_WritePacket_ready [OF m] by blast
  let ?w = "closeMuxer ?api m1 w"
  obtain m2 where m2: "openAndInitMuxer ?api hs ?w = (Inr m2, ?w\<lparr>sw_disks := tl (sw_disks w)\<rparr>)" "ready m2" "\<not> mustRotate p m2"
    using seg_open [of ?w hs js now alloc maxB pre p] disks hs by auto
  obtain m3 where m3: "sg_WritePacket js now p m2 = (WriteOk, m3)" "ready m3"
    using sg_WritePacket_ready [OF m2(2), of js now p] m2(3) by auto
  have "list_all empty_disk (tl (sw_disks w))" "length (sw_disks w) = Suc (length (tl (sw_disks w)))"
    using disks by (cases "sw_disks w"; simp)+
  then show ?thesis
    using api m1 m2(1) m3 disks by (simp add: handlePacket_def rotateMuxer_def Let_def)
qed

lemma seg_packetLoop:
  assumes "ready m" and "list_all empty_disk (sw_disks w)" "length pkts \<le> length (sw_disks w)"
    and hs: "\<forall>s \<in> set hs. codec_fits (s_Codec s)" "\<exists>s \<in> set hs. supported s"
  shows "\<exists>m' w' r'. packetLoop (seg_api js now alloc maxB pre) hs pkts m w r = (None, m', w', r')"
  using assms(1-3)
proof (induction pkts arbitrary: m w r)
  case (Cons p pkts)
  have "sw_disks w \<noteq> []"
    using Cons.prems(3) by auto
  from seg_handlePacket [OF Cons.prems(1,2) this hs, of js now alloc maxB pre p r] obtain m' w' r' where
    h: "handlePacket (seg_api js now alloc maxB pre) hs p m w r = (None, m', w', r')" "ready m'"
      "list_all empty_disk (sw_disks w')" "length (sw_disks w) \<le> Suc (length (sw_disks w'))"
    by blast
  then show ?case
    using Cons.IH [OF h(2,3)] Cons.prems(3) by simp
qed simp

lemma seg_run_completes:
  assumes "list_all empty_disk (sw_disks w)" and "length pkts < length (sw_disks w)"
    and hs: "\<forall>s \<in> set hs. codec_fits (s_Codec s)" "\<exists>s \<in> set hs. supported s"
  shows "\<exists>w' r. cons_run (seg_api js now alloc maxB pre) hs pkts w = (None, w', r)"
proof -
  have ne: "sw_disks w \<noteq> []"
    using assms(2) by auto
  obtain m where m: "openAndInitMuxer (seg_api js now alloc maxB pre) hs w = (Inr m, w\<lparr>sw_disks := tl (sw_disks w)\<rparr>)" "ready m"
    using seg_open [OF assms(1) ne hs] by blast
  have "list_all empty_disk (tl (sw_disks w))" "length pkts \<le> length (tl (sw_disks w))"
    using assms(1,2) by (cases "sw_disks w"; simp)+
  then obtain m' w' r' where "packetLoop (seg_api js now alloc maxB pre) hs pkts m (w\<lparr>sw_disks := tl (sw_disks w)\<rparr>) 0 = (None, m', w', r')"
    using seg_packetLoop [OF m(2) _ _ hs, of "w\<lparr>sw_disks := tl (sw_disks w)\<rparr>" pkts] by fastforce
  then show ?thesis
    using m(1) by (simp add: cons_run_def)
qed

text \<open>
  C3.  Segmented recording, from the queue of a consumer to its files and back.  Let the muxers of a consumer be
  segment muxers on empty disks that do not fail, with files preallocated to less than 4 GiB.  With codecs whose
  configurations fit, a supported stream and more disks than packets the consumer works through its queue without
  an error.  Whenever it does, the queue is cut into blocks, one for each finished file and in order: no packet is
  lost or repeated by a rotation.  Every file of a session within the limits of a recording holds its block:
  the demuxer finds the streams of the header, and for every stream exactly the payloads of the packets that
  passed the keyframe gate; reading ends with \<^verbatim>\<open>io.EOF\<close>, except that a file with one to seven unused bytes ends with
  \<^verbatim>\<open>io.ErrUnexpectedEOF\<close>, because \<^verbatim>\<open>writeFreeBox\<close> fills them with zeros that are no box.  The structural check accepts
  the file exactly if some packet passed the gate.
\<close>

theorem segmented_recording:
  assumes disks: "list_all empty_disk (sw_disks w)" and files: "sw_files w = []"
    and pre: "pre < 2 ^ 32" and perm: "\<forall>ps. mset (srt ps) = mset ps"
  shows "((\<forall>s \<in> set hs. codec_fits (s_Codec s)) \<and> (\<exists>s \<in> set hs. supported s) \<and> length pkts < length (sw_disks w) \<longrightarrow>
      (\<exists>w' r. cons_run (seg_api js now True maxB pre) hs pkts w = (None, w', r))) \<and>
    (\<forall>w' r. cons_run (seg_api js now True maxB pre) hs pkts w = (None, w', r) \<longrightarrow>
      (\<exists>blocks. concat blocks = pkts \<and>
        list_all2 (\<lambda>f ps. session_ok js hs ps \<longrightarrow> (\<exists>contents.
            f = contents @ writeFreeBox True (unusedBytes maxB pre contents) \<and>
            plays srt uj js seekable hs ps (padEnd (unusedBytes maxB pre contents)) f)) (sw_files w') blocks))"
proof (intro conjI allI impI)
  fix w' r
  assume run: "cons_run (seg_api js now True maxB pre) hs pkts w = (None, w', r)"
  from run_files [OF run disks files pre perm] obtain blocks where b: "concat blocks = pkts"
      "list_all2 (\<lambda>f ps. \<exists>e. plays_or_large srt uj js seekable maxB pre hs ps e f) (sw_files w') blocks"
    by blast
  show "\<exists>blocks. concat blocks = pkts \<and> list_all2 (\<lambda>f ps. session_ok js hs ps \<longrightarrow> (\<exists>contents.
      f = contents @ writeFreeBox True (unusedBytes maxB pre contents) \<and>
      plays srt uj js seekable hs ps (padEnd (unusedBytes maxB pre contents)) f)) (sw_files w') blocks"
    using b by (intro exI [of _ blocks]) (auto simp: plays_or_large_def elim!: list_all2_mono)
qed (use seg_run_completes [OF disks] in blast)

definition ex_disks :: segment_world where
  "ex_disks = \<lparr>sw_disks = [ex_writer, ex_writer, ex_writer], sw_files = [], sw_infos = [], sw_ring = None\<rparr>"

theorem segmented_recording_witness:
  "\<exists>w' r blocks. cons_run (seg_api (\<lambda>_. None) 0 True 1 2000) ex_streams ex_packets ex_disks = (None, w', r) \<and>
    concat blocks = ex_packets \<and> list_all2 (\<lambda>f ps. \<exists>contents.
      f = contents @ writeFreeBox True (unusedBytes 1 2000 contents) \<and>
      plays (sort_key DTS) (\<lambda>_. None) (\<lambda>_. None) True ex_streams ps (padEnd (unusedBytes 1 2000 contents)) f) (sw_files w') blocks"
proof -
  have d: "list_all empty_disk (sw_disks ex_disks)" "sw_files ex_disks = []" "length ex_packets < length (sw_disks ex_disks)"
    by (simp_all add: ex_disks_def empty_disk_def ex_writer_def ex_packets_def)
  note t = segmented_recording [OF d(1,2), of 2000 "sort_key DTS" ex_streams ex_packets "\<lambda>_. None" 0 1 "\<lambda>_. None" True, simplified]
  obtain w' r where run: "cons_run (seg_api (\<lambda>_. None) 0 True 1 2000) ex_streams ex_packets ex_disks = (None, w', r)"
    using t d(3) ex_run(3,4) by blast
  then obtain blocks where b: "concat blocks = ex_packets"
    "list_all2 (\<lambda>f ps. session_ok (\<lambda>_. None) ex_streams ps \<longrightarrow> (\<exists>contents. f = contents @ writeFreeBox True (unusedBytes 1 2000 contents) \<and>
      plays (sort_key DTS) (\<lambda>_. None) (\<lambda>_. None) True ex_streams ps (padEnd (unusedBytes 1 2000 contents)) f)) (sw_files w') blocks"
    using t by blast
  have ok: "session_ok (\<lambda>_. None) ex_streams ps" if "ps \<in> set blocks" for ps
    using session_ok_blocks [of _ _ blocks] ex_session_ok b(1) that by simp
  have "list_all2 (\<lambda>f ps. \<exists>contents. f = contents @ writeFreeBox True (unusedBytes 1 2000 contents) \<and>
      plays (sort_key DTS) (\<lambda>_. None) (\<lambda>_. None) True ex_streams ps (padEnd (unusedBytes 1 2000 contents)) f) (sw_files w') blocks"
    using b(2) ok by (auto intro: list.rel_mono_strong)
  then show ?thesis
    using run b(1) by blast
qed

end
