(* ===== verification/Chain.thy ===== *)
theory Chain
  imports Fmp4_Seek
begin

text \<open>
  Chained playback (\<^verbatim>\<open>av/chain/chain.go\<close>): a demuxer that reads segment after segment, shifts the times of each
  behind the end of the previous one, marks gaps and announces codec changes.  The demuxers of the segments and the source that opens
  them are interfaces of the code: records of operations here, with the locales \<^verbatim>\<open>packet_source\<close> and
  \<^verbatim>\<open>segment_source\<close> for what the chain relies on, interpreted on the fMP4 demuxer and on \<^verbatim>\<open>sliceSource\<close>.
  All methods but \<^verbatim>\<open>Close\<close> belong to one goroutine; \<^verbatim>\<open>Close\<close> is modelled between two calls.
\<close>

subsection \<open>Codec changes\<close>

definition digitChar :: "nat \<Rightarrow> char" where
  "digitChar d = ''0123456789ABCDEF'' ! d"

function formatBase :: "nat \<Rightarrow> nat \<Rightarrow> string" where
  "formatBase b n = (if b < 2 \<or> n < b then [digitChar n] else formatBase b (n div b) @ [digitChar (n mod b)])"
  by pat_completeness auto
termination
  by (relation "measure snd") (auto intro: div_less_dividend)

declare formatBase.simps [simp del]

definition formatInt :: "int \<Rightarrow> string" where
  "formatInt i = (if i < 0 then CHR ''-'' # formatBase 10 (nat (- i)) else formatBase 10 (nat i))"

text \<open>The verb \<^verbatim>\<open>%02X\<close> on a byte.\<close>

definition formatByte :: "byte \<Rightarrow> string" where
  "formatByte b = [digitChar (unat b div 16), digitChar (unat b mod 16)]"

definition h264_Tag :: "h264_codec \<Rightarrow> string" where
  "h264_Tag s = ''avc1.'' @ formatByte (AVCProfileIndication (h264_RecordInfo s))
    @ formatByte (ProfileCompatibility (h264_RecordInfo s)) @ formatByte (AVCLevelIndication (h264_RecordInfo s))"

definition h265_Tag :: "h265_codec \<Rightarrow> string" where
  "h265_Tag s =
    (let i = h265_SPSInfo s; tier = (if h265_generalTierFlag i = 1 then ''H'' else ''L'')
     in ''hvc1.'' @ formatBase 10 (unat (h265_generalProfileIDC i)) @ ''.''
        @ formatBase 16 (unat (h265_generalProfileCompatibilityFlags i)) @ ''.'' @ tier
        @ formatBase 10 (unat (h265_generalLevelIDC i)))"

definition aac_Tag :: "aac_codec \<Rightarrow> string" where
  "aac_Tag s =
    (if aac_ObjectType (aac_Config s) = AOT_AAC_LC then ''mp4a.40.2''
     else ''mp4a.40.'' @ formatInt (sint (aac_ObjectType (aac_Config s))))"

text \<open>The type assertion to \<^verbatim>\<open>tagger\<close>.\<close>

fun codecTag :: "codec_data \<Rightarrow> string option" where
  "codecTag (H264Codec c) = Some (h264_Tag c)"
| "codecTag (H265Codec c) = Some (h265_Tag c)"
| "codecTag (AACCodec c) = Some (aac_Tag c)"
| "codecTag (FLACCodec c) = None"
| "codecTag (OtherCodec c) = oc_Tag c"

definition bothDiffer :: "'a option \<Rightarrow> 'a option \<Rightarrow> bool" where
  "bothDiffer x y \<longleftrightarrow> (case (x, y) of (Some a, Some b) \<Rightarrow> a \<noteq> b | _ \<Rightarrow> False)"

definition streamChanged :: "stream \<Rightarrow> stream \<Rightarrow> bool" where
  "streamChanged p n \<longleftrightarrow> s_Idx p \<noteq> s_Idx n \<or> codecType (s_Codec p) \<noteq> codecType (s_Codec n) \<or>
    bothDiffer (codecTag (s_Codec p)) (codecTag (s_Codec n)) \<or> bothDiffer (videoDims (s_Codec p)) (videoDims (s_Codec n))"

definition streamsChanged :: "stream list \<Rightarrow> stream list \<Rightarrow> bool" where
  "streamsChanged prev next \<longleftrightarrow> length prev \<noteq> length next \<or> list_ex (\<lambda>(p, n). streamChanged p n) (zip prev next)"

subsection \<open>The interfaces\<close>

datatype 'e read_error = EOF | ReadErr 'e

record ('d, 'e) demux_api =
  dx_GetCodecs :: "'d \<Rightarrow> ('e read_error + stream list) \<times> 'd"
  dx_ReadPacket :: "'d \<Rightarrow> ('e read_error + packet) \<times> 'd"
  dx_SeekToKeyframe :: "(duration \<Rightarrow> 'd \<Rightarrow> 'e read_error option \<times> 'd) option"

record ('s, 'd, 'e) source_api =
  so_Next :: "'s \<Rightarrow> ('e read_error + 'd) \<times> 's"
  so_LastGap :: "('s \<Rightarrow> duration) option"
  so_OpenAt :: "(gotime \<Rightarrow> 's \<Rightarrow> ('e read_error + 'd) \<times> 's) option"

text \<open>A source that is a \<^verbatim>\<open>GapDetector\<close> and reports a gap.\<close>

definition gapped :: "('s, 'd, 'e) source_api \<Rightarrow> 's \<Rightarrow> bool" where
  "gapped so s \<longleftrightarrow> (case so_LastGap so of None \<Rightarrow> False | Some f \<Rightarrow> f s > 0)"

subsection \<open>The chaining demuxer\<close>

text \<open>\<open>c_closed\<close> is a history: the demuxers that have been closed.\<close>

record ('s, 'd) ChainingDemuxer =
  c_source :: 's
  c_cur :: "'d option"
  c_dtsOff :: duration
  c_lastEnd :: duration
  c_discontinuity :: bool
  c_prevStreams :: "stream list option"
  c_pendingNewCodecs :: "stream list option"
  c_closed :: "'d list"

definition NewChainingDemuxer :: "'d \<Rightarrow> 's \<Rightarrow> ('s, 'd) ChainingDemuxer" where
  "NewChainingDemuxer first source =
    \<lparr>c_source = source, c_cur = Some first, c_dtsOff = 0, c_lastEnd = 0, c_discontinuity = False, c_prevStreams = None,
     c_pendingNewCodecs = None, c_closed = []\<rparr>"

definition chain_GetCodecs ::
  "('d, 'e) demux_api \<Rightarrow> ('s, 'd) ChainingDemuxer \<Rightarrow> ('e read_error + stream list) \<times> ('s, 'd) ChainingDemuxer" where
  "chain_GetCodecs dm c =
    (case c_cur c of
       None \<Rightarrow> (Inl EOF, c)
     | Some cur \<Rightarrow>
         (case dx_GetCodecs dm cur of
            (Inl e, d) \<Rightarrow> (Inl e, c\<lparr>c_cur := Some d\<rparr>)
          | (Inr streams, d) \<Rightarrow> (Inr streams, c\<lparr>c_cur := Some d, c_prevStreams := Some streams\<rparr>)))"

text \<open>A packet of the current segment.\<close>

definition chain_packet :: "packet \<Rightarrow> ('s, 'd) ChainingDemuxer \<Rightarrow> packet \<times> ('s, 'd) ChainingDemuxer" where
  "chain_packet pkt c =
    (let p1 = pkt\<lparr>DTS := wrap64 (DTS pkt + c_dtsOff c)\<rparr>;
         end' = wrap64 (DTS p1 + Duration p1);
         p2 = (if c_discontinuity c then p1\<lparr>IsDiscontinuity := True\<rparr> else p1);
         p3 = (case c_pendingNewCodecs c of None \<Rightarrow> p2 | Some cs \<Rightarrow> p2\<lparr>NewCodecs := Some cs\<rparr>)
     in (p3, c\<lparr>c_lastEnd := (if end' > c_lastEnd c then end' else c_lastEnd c), c_discontinuity := False,
               c_pendingNewCodecs := None\<rparr>))"

definition noteCodecs :: "stream list \<Rightarrow> ('s, 'd) ChainingDemuxer \<Rightarrow> ('s, 'd) ChainingDemuxer" where
  "noteCodecs newStreams c =
    c\<lparr>c_pendingNewCodecs := (case c_prevStreams c of
          Some prev \<Rightarrow> if streamsChanged prev newStreams then Some newStreams else c_pendingNewCodecs c
        | None \<Rightarrow> c_pendingNewCodecs c),
      c_prevStreams := Some newStreams\<rparr>"

text \<open>The next segment becomes the current one.\<close>

definition chain_advance ::
  "('d, 'e) demux_api \<Rightarrow> ('s, 'd, 'e) source_api \<Rightarrow> 'd \<Rightarrow> ('s, 'd) ChainingDemuxer \<Rightarrow> 'e read_error option \<times> ('s, 'd) ChainingDemuxer" where
  "chain_advance dm so next c =
    (let c1 = c\<lparr>c_discontinuity := c_discontinuity c \<or> gapped so (c_source c)\<rparr> in
     case dx_GetCodecs dm next of
       (Inl e, d) \<Rightarrow> (Some e, c1\<lparr>c_cur := Some d\<rparr>)
     | (Inr newStreams, d) \<Rightarrow>
         let c2 = noteCodecs newStreams (c1\<lparr>c_cur := Some d\<rparr>) in (None, c2\<lparr>c_dtsOff := c_lastEnd c2\<rparr>))"

text \<open>The loop over the segments may run for ever, on a source that never ends.\<close>

partial_function (option) chain_ReadPacket ::
  "('d, 'e) demux_api \<Rightarrow> ('s, 'd, 'e) source_api \<Rightarrow> ('s, 'd) ChainingDemuxer \<Rightarrow>
   (('e read_error + packet) \<times> ('s, 'd) ChainingDemuxer) option" where
  "chain_ReadPacket dm so c =
    (case c_cur c of
       None \<Rightarrow> Some (Inl EOF, c)
     | Some cur \<Rightarrow>
         (case dx_ReadPacket dm cur of
            (Inr pkt, d) \<Rightarrow> (case chain_packet pkt (c\<lparr>c_cur := Some d\<rparr>) of (p, c1) \<Rightarrow> Some (Inr p, c1))
          | (Inl (ReadErr e), d) \<Rightarrow> Some (Inl (ReadErr e), c\<lparr>c_cur := Some d\<rparr>)
          | (Inl EOF, d) \<Rightarrow>
              (case so_Next so (c_source c) of
                 (Inl e, s) \<Rightarrow> Some (Inl e, c\<lparr>c_source := s, c_cur := None, c_closed := c_closed c @ [d]\<rparr>)
               | (Inr next, s) \<Rightarrow>
                   (case chain_advance dm so next (c\<lparr>c_source := s, c_closed := c_closed c @ [d]\<rparr>) of
                      (Some e, c1) \<Rightarrow> Some (Inl e, c1)
                    | (None, c1) \<Rightarrow> chain_ReadPacket dm so c1))))"

declare chain_ReadPacket.simps [code]

definition chain_Close :: "('s, 'd) ChainingDemuxer \<Rightarrow> ('s, 'd) ChainingDemuxer" where
  "chain_Close c =
    (case c_cur c of None \<Rightarrow> c | Some cur \<Rightarrow> c\<lparr>c_cur := None, c_closed := c_closed c @ [cur]\<rparr>)"

text \<open>\<^verbatim>\<open>Seek\<close>; \<^const>\<open>None\<close> is \<^verbatim>\<open>ErrSeekNotSupported\<close>, for a source that cannot be opened at a time.\<close>

definition chain_Seek ::
  "('d, 'e) demux_api \<Rightarrow> ('s, 'd, 'e) source_api \<Rightarrow> gotime \<Rightarrow> duration \<Rightarrow> ('s, 'd) ChainingDemuxer \<Rightarrow>
   ('e read_error option \<times> ('s, 'd) ChainingDemuxer) option" where
  "chain_Seek dm so wallTime seekPTS c =
    (case so_OpenAt so of
       None \<Rightarrow> None
     | Some openAt \<Rightarrow>
         let c1 = chain_Close c in
         (case openAt wallTime (c_source c1) of
            (Inl e, s) \<Rightarrow> Some (Some e, c1\<lparr>c_source := s\<rparr>)
          | (Inr dmx, s) \<Rightarrow>
              let c2 = c1\<lparr>c_source := s\<rparr> in
              (case dx_GetCodecs dm dmx of
                 (Inl e, d) \<Rightarrow> Some (Some e, c2\<lparr>c_closed := c_closed c2 @ [d]\<rparr>)
               | (Inr newStreams, d) \<Rightarrow>
                   let c3 = noteCodecs newStreams c2;
                       (r, d1) = (case dx_SeekToKeyframe dm of
                                    Some f \<Rightarrow> if seekPTS > 0 then f seekPTS d else (None, d)
                                  | None \<Rightarrow> (None, d))
                   in (case r of
                         Some e \<Rightarrow> Some (Some e, c3\<lparr>c_closed := c_closed c3 @ [d1]\<rparr>)
                       | None \<Rightarrow> Some (None, c3\<lparr>c_cur := Some d1, c_dtsOff := 0, c_lastEnd := 0\<rparr>)))))"

subsection \<open>A source from a list\<close>

record sliceSource =
  ss_ids :: "string list"
  ss_idx :: nat

definition SliceSource :: "string list \<Rightarrow> sliceSource" where
  "SliceSource ids = \<lparr>ss_ids = ids, ss_idx = 0\<rparr>"

definition slice_Next :: "(string \<Rightarrow> 'e read_error + 'd) \<Rightarrow> sliceSource \<Rightarrow> ('e read_error + 'd) \<times> sliceSource" where
  "slice_Next opener s =
    (if ss_idx s \<ge> length (ss_ids s) then (Inl EOF, s) else (opener (ss_ids s ! ss_idx s), s\<lparr>ss_idx := ss_idx s + 1\<rparr>))"

definition slice_api :: "(string \<Rightarrow> 'e read_error + 'd) \<Rightarrow> (sliceSource, 'd, 'e) source_api" where
  "slice_api opener = \<lparr>so_Next = slice_Next opener, so_LastGap = None, so_OpenAt = None\<rparr>"

subsection \<open>The fMP4 demuxer as a segment\<close>

definition readError :: "demux_error \<Rightarrow> demux_error read_error" where
  "readError e = (if e = DEOF then EOF else ReadErr e)"

definition fmp4_api :: "(packet list \<Rightarrow> packet list) \<Rightarrow> (bytes \<Rightarrow> frame_analytics option) \<Rightarrow> (Demuxer, demux_error) demux_api" where
  "fmp4_api srt uj =
    \<lparr>dx_GetCodecs = (\<lambda>d. case GetCodecs d of (Inl e, d1) \<Rightarrow> (Inl (readError e), d1) | (Inr ss, d1) \<Rightarrow> (Inr ss, d1)),
     dx_ReadPacket = (\<lambda>d. case ReadPacket srt uj d of (Inl e, d1) \<Rightarrow> (Inl (readError e), d1) | (Inr p, d1) \<Rightarrow> (Inr p, d1)),
     dx_SeekToKeyframe = Some (\<lambda>pts d. case SeekToKeyframe d pts of (e, d1) \<Rightarrow> (map_option readError e, d1))\<rparr>"

subsection \<open>What the chain relies on and what it returns\<close>

text \<open>
  \<open>opened d ss ps e\<close>: the demuxer has the streams \<open>ss\<close> and will return the packets \<open>ps\<close> and then the error \<open>e\<close>;
  \<open>reading\<close> is the same after the streams have been read.
\<close>

locale packet_source =
  fixes dm :: "('d, 'e) demux_api"
    and opened :: "'d \<Rightarrow> stream list \<Rightarrow> packet list \<Rightarrow> 'e read_error \<Rightarrow> bool"
    and reading :: "'d \<Rightarrow> packet list \<Rightarrow> 'e read_error \<Rightarrow> bool"
  assumes opens: "opened d ss ps e \<Longrightarrow> \<exists>d'. dx_GetCodecs dm d = (Inr ss, d') \<and> reading d' ps e"
    and reads: "reading d (p # ps) e \<Longrightarrow> \<exists>d'. dx_ReadPacket dm d = (Inr p, d') \<and> reading d' ps e"
    and stops: "reading d [] e \<Longrightarrow> \<exists>d'. dx_ReadPacket dm d = (Inl e, d')"

text \<open>The demuxers a source still yields, each with the gap it reports before it.\<close>

locale segment_source =
  fixes so :: "('s, 'd, 'e) source_api" and yields :: "'s \<Rightarrow> (bool \<times> 'd) list \<Rightarrow> bool"
  assumes next_segment: "yields s ((g, d) # ds) \<Longrightarrow> \<exists>s'. so_Next so s = (Inr d, s') \<and> gapped so s' = g \<and> yields s' ds"
    and no_segment: "yields s [] \<Longrightarrow> \<exists>s'. so_Next so s = (Inl EOF, s')"

text \<open>
  The packets of a chain: the current segment continues with \<open>ps\<close> and ends with \<open>e\<close>, then come the segments of the list.
\<close>

definition announce :: "stream list option \<Rightarrow> stream list \<Rightarrow> stream list option \<Rightarrow> stream list option" where
  "announce prev ss pend = (case prev of Some old \<Rightarrow> if streamsChanged old ss then Some ss else pend | None \<Rightarrow> pend)"

definition splice :: "duration \<Rightarrow> bool \<Rightarrow> stream list option \<Rightarrow> packet \<Rightarrow> packet" where
  "splice off disc pend p =
    p\<lparr>DTS := wrap64 (DTS p + off), IsDiscontinuity := disc \<or> IsDiscontinuity p,
      NewCodecs := (if pend = None then NewCodecs p else pend)\<rparr>"

fun replay :: "duration \<Rightarrow> duration \<Rightarrow> bool \<Rightarrow> stream list option \<Rightarrow> stream list option \<Rightarrow> packet list \<Rightarrow> 'e read_error \<Rightarrow>
    (bool \<times> stream list \<times> packet list \<times> 'e read_error) list \<Rightarrow> packet list \<times> 'e read_error" where
  "replay off until disc pend prev (p # ps) e segs =
    (let q = splice off disc pend p; (out, r) = replay off (max until (wrap64 (DTS q + Duration q))) False None prev ps e segs
     in (q # out, r))"
| "replay off until disc pend prev [] (ReadErr e) segs = ([], ReadErr e)"
| "replay off until disc pend prev [] EOF [] = ([], EOF)"
| "replay off until disc pend prev [] EOF ((g, ss, ps, e) # segs) =
    replay until until (disc \<or> g) (announce prev ss pend) (Some ss) ps e segs"

text \<open>Reading a chain until it returns an error, at most \<open>n\<close> times.\<close>

fun chainDrain :: "('d, 'e) demux_api \<Rightarrow> ('s, 'd, 'e) source_api \<Rightarrow> nat \<Rightarrow> ('s, 'd) ChainingDemuxer \<Rightarrow>
    (packet list \<times> 'e read_error option) option" where
  "chainDrain dm so 0 c = Some ([], None)"
| "chainDrain dm so (Suc n) c =
    (case chain_ReadPacket dm so c of
       None \<Rightarrow> None
     | Some (Inl e, c1) \<Rightarrow> Some ([], Some e)
     | Some (Inr p, c1) \<Rightarrow> map_option (\<lambda>(ps, e). (p # ps, e)) (chainDrain dm so n c1))"

lemma chain_packet_splice:
  "chain_packet p c = (splice (c_dtsOff c) (c_discontinuity c) (c_pendingNewCodecs c) p,
     c\<lparr>c_lastEnd := max (c_lastEnd c) (wrap64 (wrap64 (DTS p + c_dtsOff c) + Duration p)), c_discontinuity := False,
       c_pendingNewCodecs := None\<rparr>)"
  by (simp add: chain_packet_def splice_def Let_def max_def split: option.splits)

locale chained = packet_source dm opened reading + segment_source so yields
  for dm :: "('d, 'e) demux_api" and opened reading and so :: "('s, 'd, 'e) source_api" and yields
begin

text \<open>The chain returns exactly its replay, with enough calls, and then the error the replay ends with.\<close>

lemma drains:
  assumes "c_cur c = Some d" and "reading d ps e"
    and "yields (c_source c) (map2 (\<lambda>(g, _) d. (g, d)) segs ds)" and "length ds = length segs"
    and "list_all2 (\<lambda>(g, ss, qs, r) d. opened d ss qs r) segs ds"
    and "replay (c_dtsOff c) (c_lastEnd c) (c_discontinuity c) (c_pendingNewCodecs c) (c_prevStreams c) ps e segs = (out, r)"
  shows "chainDrain dm so (Suc (length out)) c = Some (out, Some r)"
  using assms
proof (induction "c_dtsOff c" "c_lastEnd c" "c_discontinuity c" "c_pendingNewCodecs c" "c_prevStreams c" ps e segs
    arbitrary: c d ds out r rule: replay.induct)
  case (1 p ps e segs)
  obtain d' where d': "dx_ReadPacket dm d = (Inr p, d')" "reading d' ps e"
    using reads [OF 1(3)] by blast
  define c1 where "c1 = snd (chain_packet p (c\<lparr>c_cur := Some d'\<rparr>))"
  define q where "q = splice (c_dtsOff c) (c_discontinuity c) (c_pendingNewCodecs c) p"
  have pk: "chain_packet p (c\<lparr>c_cur := Some d'\<rparr>) = (q, c1)"
    by (simp add: chain_packet_splice c1_def q_def)
  have rd: "chain_ReadPacket dm so c = Some (Inr q, c1)"
    using 1(2) d'(1) pk by (subst chain_ReadPacket.simps) simp
  obtain out1 where out1: "out = q # out1"
    "replay (c_dtsOff c) (max (c_lastEnd c) (wrap64 (DTS q + Duration q))) False None (c_prevStreams c) ps e segs = (out1, r)"
    using 1(7) by (auto simp: q_def Let_def split: prod.splits)
  have "chainDrain dm so (Suc (length out1)) c1 = Some (out1, Some r)"
    using 1(2-6) d'(2) out1(2) by (intro 1(1)) (auto simp: c1_def q_def chain_packet_splice splice_def)
  then show ?case
    by (simp add: rd out1(1))
next
  case (2 e segs)
  obtain d' where "dx_ReadPacket dm d = (Inl (ReadErr e), d')"
    using stops [OF 2(2)] by blast
  then have "chain_ReadPacket dm so c = Some (Inl (ReadErr e), c\<lparr>c_cur := Some d'\<rparr>)"
    using 2(1) by (subst chain_ReadPacket.simps) simp
  then show ?case
    using 2(6) by auto
next
  case 3
  obtain d' where d': "dx_ReadPacket dm d = (Inl EOF, d')"
    using stops [OF 3(2)] by blast
  obtain s' where "so_Next so (c_source c) = (Inl EOF, s')"
    using no_segment 3(3) by auto
  then have "chain_ReadPacket dm so c = Some (Inl EOF, c\<lparr>c_source := s', c_cur := None, c_closed := c_closed c @ [d']\<rparr>)"
    using 3(1) d' by (subst chain_ReadPacket.simps) simp
  then show ?case
    using 3(6) by auto
next
  case (4 g ss qs e segs)
  obtain d' where d': "dx_ReadPacket dm d = (Inl EOF, d')"
    using stops [OF 4(3)] by blast
  obtain d1 ds1 where ds: "ds = d1 # ds1" "opened d1 ss qs e" "list_all2 (\<lambda>(g, ss, qs, r) d. opened d ss qs r) segs ds1"
    using 4(6) by (auto simp: list_all2_Cons1)
  obtain s' where s': "so_Next so (c_source c) = (Inr d1, s')" "gapped so s' = g"
      "yields s' (map2 (\<lambda>(g, _) d. (g, d)) segs ds1)"
    using next_segment [of "c_source c" g d1] 4(4) ds(1) by auto
  obtain d2 where d2: "dx_GetCodecs dm d1 = (Inr ss, d2)" "reading d2 qs e"
    using opens [OF ds(2)] by blast
  define c1 where "c1 = snd (chain_advance dm so d1 (c\<lparr>c_source := s', c_closed := c_closed c @ [d']\<rparr>))"
  have adv: "chain_advance dm so d1 (c\<lparr>c_source := s', c_closed := c_closed c @ [d']\<rparr>) = (None, c1)"
    by (simp add: c1_def chain_advance_def d2(1) Let_def)
  have sel: "c_cur c1 = Some d2" "c_source c1 = s'" "c_dtsOff c1 = c_lastEnd c" "c_lastEnd c1 = c_lastEnd c"
    "c_discontinuity c1 = (c_discontinuity c \<or> g)" "c_prevStreams c1 = Some ss"
    "c_pendingNewCodecs c1 = announce (c_prevStreams c) ss (c_pendingNewCodecs c)"
    by (auto simp: c1_def chain_advance_def d2(1) Let_def noteCodecs_def announce_def s'(2) split: option.splits)
  have "chain_ReadPacket dm so c = chain_ReadPacket dm so c1"
    using 4(2) d' s'(1) adv by (subst chain_ReadPacket.simps) simp
  then have "chainDrain dm so (Suc (length out)) c = chainDrain dm so (Suc (length out)) c1"
    by simp
  also have "\<dots> = Some (out, Some r)"
    using sel d2(2) s'(3) ds 4(5,7) by (intro 4(1)) simp_all
  finally show ?case .
qed

end

subsection \<open>Times of a chain\<close>

definition spliceAll :: "duration \<Rightarrow> bool \<Rightarrow> stream list option \<Rightarrow> packet list \<Rightarrow> packet list" where
  "spliceAll off disc pend ps = (case ps of [] \<Rightarrow> [] | p # qs \<Rightarrow> splice off disc pend p # map (splice off False None) qs)"

lemma replay_segment:
  "replay off until disc pend prev ps e segs =
    (case replay off (fold (\<lambda>p t. max t (wrap64 (wrap64 (DTS p + off) + Duration p))) ps until) (disc \<and> ps = [])
        (if ps = [] then pend else None) prev [] e segs of (out, r) \<Rightarrow> (spliceAll off disc pend ps @ out, r))"
proof (induction ps arbitrary: until disc pend)
  case (Cons p ps)
  have "spliceAll off False None ps = map (splice off False None) ps"
    by (simp add: spliceAll_def split: list.split)
  moreover have "disc \<and> p # ps = [] \<longleftrightarrow> False"
    by simp
  ultimately show ?case
    by (subst replay.simps, subst Cons.IH) (simp add: Let_def spliceAll_def splice_def split: prod.splits)
qed (simp add: spliceAll_def split: prod.splits)

text \<open>The duration a segment covers from time 0, and segments whose times are in order.\<close>

definition span :: "packet list \<Rightarrow> duration" where
  "span ps = foldr (\<lambda>p t. max (DTS p + Duration p) t) ps 0"

definition well_timed :: "packet list \<Rightarrow> bool" where
  "well_timed ps \<longleftrightarrow> sorted (map DTS ps) \<and> list_all (\<lambda>p. 0 \<le> DTS p \<and> 0 \<le> Duration p) ps"

lemma span_nonneg: "0 \<le> span ps"
  by (induction ps) (simp_all add: span_def)

lemma span_bound: "p \<in> set ps \<Longrightarrow> DTS p + Duration p \<le> span ps"
  by (induction ps) (auto simp: span_def)

lemma wrap64_small: "0 \<le> x \<Longrightarrow> x < 2 ^ 63 \<Longrightarrow> wrap64 x = x"
  by (rule wrap64_id) (simp add: in64_def)

lemma ends_span:
  assumes "0 \<le> off" and "off \<le> until" and "list_all (\<lambda>p. 0 \<le> DTS p \<and> 0 \<le> Duration p) ps" and "off + span ps < 2 ^ 63"
  shows "fold (\<lambda>p t. max t (wrap64 (wrap64 (DTS p + off) + Duration p))) ps until = max until (off + span ps)"
  using assms(2-4)
proof (induction ps arbitrary: until)
  case (Cons p ps)
  have "span ps \<le> span (p # ps)" "DTS p + Duration p \<le> span (p # ps)"
    by (simp_all add: span_def)
  then have "wrap64 (wrap64 (DTS p + off) + Duration p) = DTS p + off + Duration p"
    using Cons.prems assms(1) by (simp add: wrap64_small)
  then show ?case
    using Cons.IH [of "max until (DTS p + off + Duration p)"] Cons.prems \<open>span ps \<le> span (p # ps)\<close>
    by (simp add: span_def max.assoc max_add_distrib_right add.commute add.left_commute)
qed (simp add: span_def)

text \<open>What a packet carries besides its time and the marks of the chain.\<close>

definition content :: "packet \<Rightarrow> packet" where
  "content p = p\<lparr>DTS := 0, IsDiscontinuity := False, NewCodecs := None\<rparr>"

lemma content_splice [simp]: "content (splice off disc pend p) = content p"
  by (simp add: content_def splice_def)

definition shifted :: "duration \<Rightarrow> packet list \<Rightarrow> (packet \<times> duration) list" where
  "shifted off ps = map (\<lambda>p. (content p, off + DTS p)) ps"

lemma spliceAll_shifted:
  assumes "0 \<le> off" and "list_all (\<lambda>p. 0 \<le> DTS p \<and> 0 \<le> Duration p) ps" and "off + span ps < 2 ^ 63"
  shows "map (\<lambda>p. (content p, DTS p)) (spliceAll off disc pend ps) = shifted off ps"
proof -
  have "DTS (splice off d pe p) = off + DTS p" if "p \<in> set ps" for p d pe
  proof -
    have "0 \<le> DTS p" "0 \<le> Duration p" "DTS p + Duration p \<le> span ps"
      using assms(2) that span_bound [OF that] by (auto simp: list_all_iff)
    then show ?thesis
      using assms(1,3) by (simp add: splice_def wrap64_small add.commute)
  qed
  then show ?thesis
    by (cases ps) (simp_all add: spliceAll_def shifted_def)
qed

text \<open>The offsets of the segments: each starts where all before it have ended.\<close>

fun offsetsFrom :: "duration \<Rightarrow> packet list list \<Rightarrow> duration list" where
  "offsetsFrom off [] = []"
| "offsetsFrom off (ps # pss) = off # offsetsFrom (off + span ps) pss"

lemma replay_offsets:
  assumes "0 \<le> off" and "off \<le> until" and "list_all well_timed (ps # map (\<lambda>(g, ss, ps, e). ps) segs)"
    and "until \<le> off + span ps" and "list_all (\<lambda>(g, ss, ps, e). e = EOF) segs"
    and "off + sum_list (map span (ps # map (\<lambda>(g, ss, ps, e). ps) segs)) < 2 ^ 63"
    and "replay off until disc pend prev ps EOF segs = (out, r)"
  shows "r = EOF \<and> map (\<lambda>p. (content p, DTS p)) out =
    concat (map2 shifted (offsetsFrom off (ps # map (\<lambda>(g, ss, ps, e). ps) segs)) (ps # map (\<lambda>(g, ss, ps, e). ps) segs))"
  using assms
proof (induction segs arbitrary: off until disc pend prev ps out)
  case Nil
  have t: "list_all (\<lambda>p. 0 \<le> DTS p \<and> 0 \<le> Duration p) ps"
    using Nil.prems(3) by (simp add: well_timed_def)
  show ?case
    using Nil.prems spliceAll_shifted [OF Nil.prems(1) t, of disc pend] by (subst (asm) replay_segment) auto
next
  case (Cons seg segs)
  obtain g ss qs e where seg: "seg = (g, ss, qs, e)" "e = EOF"
    using Cons.prems(5) by (cases seg) auto
  let ?S = "map (\<lambda>(g, ss, ps, e). ps) segs"
  have t: "list_all (\<lambda>p. 0 \<le> DTS p \<and> 0 \<le> Duration p) ps"
    using Cons.prems(3) by (simp add: well_timed_def)
  have rest: "0 \<le> sum_list (map span ?S)"
    by (intro sum_list_nonneg) (auto simp: span_nonneg)
  have b: "off + span ps < 2 ^ 63" "off + span ps + (span qs + sum_list (map span ?S)) < 2 ^ 63"
    using Cons.prems(6) rest span_nonneg [of qs] by (simp_all add: seg)
  have u: "fold (\<lambda>p t. max t (wrap64 (wrap64 (DTS p + off) + Duration p))) ps until = off + span ps"
    using ends_span [OF Cons.prems(1,2) t b(1)] Cons.prems(4) by simp
  obtain out1 where out1: "out = spliceAll off disc pend ps @ out1"
    "replay (off + span ps) (off + span ps) ((disc \<and> ps = []) \<or> g) (announce prev ss (if ps = [] then pend else None)) (Some ss) qs EOF segs =
      (out1, r)"
    using Cons.prems(7) unfolding replay_segment [of off until disc pend prev ps EOF] u by (auto simp: seg split: prod.splits)
  have "r = EOF \<and> map (\<lambda>p. (content p, DTS p)) out1 = concat (map2 shifted (offsetsFrom (off + span ps) (qs # ?S)) (qs # ?S))"
    using Cons.prems(1,3,5) b span_nonneg [of ps] span_nonneg [of qs] out1(2) by (intro Cons.IH) (auto simp: seg add.assoc)
  then show ?case
    using spliceAll_shifted [OF Cons.prems(1) t b(1), of disc pend] by (simp add: out1(1) seg)
qed

lemma shifted_sorted:
  assumes "list_all well_timed pss"
  shows "sorted (map snd (concat (map2 shifted (offsetsFrom off pss) pss)))" and
    "x \<in> set (map snd (concat (map2 shifted (offsetsFrom off pss) pss))) \<Longrightarrow> off \<le> x"
proof -
  have "sorted (map snd (concat (map2 shifted (offsetsFrom off pss) pss))) \<and>
    (\<forall>x \<in> set (map snd (concat (map2 shifted (offsetsFrom off pss) pss))). off \<le> x)"
    using assms
  proof (induction pss arbitrary: off)
    case (Cons ps pss)
    let ?R = "map snd (concat (map2 shifted (offsetsFrom (off + span ps) pss) pss))"
    have IH: "sorted ?R" "\<forall>x \<in> set ?R. off + span ps \<le> x"
      using Cons.IH [of "off + span ps"] Cons.prems by simp_all
    have t: "sorted (map DTS ps)" "\<forall>p \<in> set ps. 0 \<le> DTS p \<and> 0 \<le> Duration p"
      using Cons.prems by (simp_all add: well_timed_def list_all_iff)
    have s: "map snd (shifted off ps) = map ((+) off) (map DTS ps)"
      by (simp add: shifted_def)
    have "sorted (map snd (shifted off ps))"
      using t(1) unfolding s by (simp add: sorted_map comp_def)
    moreover have "\<forall>x \<in> set (map snd (shifted off ps)). off \<le> x \<and> x \<le> off + span ps"
      using t(2) span_bound unfolding s by fastforce
    ultimately show ?case
      using IH span_nonneg [of ps] by (fastforce simp: sorted_append)
  qed simp
  then show "sorted (map snd (concat (map2 shifted (offsetsFrom off pss) pss)))"
    "x \<in> set (map snd (concat (map2 shifted (offsetsFrom off pss) pss))) \<Longrightarrow> off \<le> x"
    by blast+
qed

subsection \<open>Chains of recorded files\<close>

definition fmp4_reading ::
  "(packet list \<Rightarrow> packet list) \<Rightarrow> (bytes \<Rightarrow> frame_analytics option) \<Rightarrow> Demuxer \<Rightarrow> packet list \<Rightarrow> demux_error read_error \<Rightarrow> bool" where
  "fmp4_reading srt uj d ps e \<longleftrightarrow> (\<exists>n r. drain srt uj n d = (ps, Some r) \<and> readError r = e)"

definition fmp4_opened ::
  "(packet list \<Rightarrow> packet list) \<Rightarrow> (bytes \<Rightarrow> frame_analytics option) \<Rightarrow> Demuxer \<Rightarrow> stream list \<Rightarrow> packet list \<Rightarrow> demux_error read_error \<Rightarrow> bool" where
  "fmp4_opened srt uj d ss ps e \<longleftrightarrow> (\<exists>d'. GetCodecs d = (Inr ss, d') \<and> fmp4_reading srt uj d' ps e)"

interpretation fmp4: packet_source "fmp4_api srt uj" "fmp4_opened srt uj" "fmp4_reading srt uj" for srt uj
proof
  show "\<exists>d'. dx_GetCodecs (fmp4_api srt uj) d = (Inr ss, d') \<and> fmp4_reading srt uj d' ps e" if "fmp4_opened srt uj d ss ps e" for d ss ps e
    using that by (auto simp: fmp4_opened_def fmp4_api_def)
  show "\<exists>d'. dx_ReadPacket (fmp4_api srt uj) d = (Inr p, d') \<and> fmp4_reading srt uj d' ps e" if rd: "fmp4_reading srt uj d (p # ps) e" for d p ps e
  proof -
    obtain n r where n: "drain srt uj n d = (p # ps, Some r)" "readError r = e"
      using rd by (auto simp: fmp4_reading_def)
    then obtain n' where "n = Suc n'"
      by (cases n) auto
    then show ?thesis
      using n by (auto simp: fmp4_reading_def fmp4_api_def split: prod.splits sum.splits)
  qed
  show "\<exists>d'. dx_ReadPacket (fmp4_api srt uj) d = (Inl e, d')" if rd: "fmp4_reading srt uj d [] e" for d e
  proof -
    obtain n r where n: "drain srt uj n d = ([], Some r)" "readError r = e"
      using rd by (auto simp: fmp4_reading_def)
    then obtain n' where "n = Suc n'"
      by (cases n) auto
    then show ?thesis
      using n by (auto simp: fmp4_api_def split: prod.splits sum.splits)
  qed
qed

definition slice_yields :: "(string \<Rightarrow> 'e read_error + 'd) \<Rightarrow> sliceSource \<Rightarrow> (bool \<times> 'd) list \<Rightarrow> bool" where
  "slice_yields opener s ds \<longleftrightarrow> map opener (drop (ss_idx s) (ss_ids s)) = map (\<lambda>(g, d). Inr d) ds \<and> (\<forall>(g, d) \<in> set ds. \<not> g)"

interpretation slices: segment_source "slice_api opener" "slice_yields opener" for opener
proof
  show "\<exists>s'. so_Next (slice_api opener) s = (Inr d, s') \<and> gapped (slice_api opener) s' = g \<and> slice_yields opener s' ds"
    if "slice_yields opener s ((g, d) # ds)" for s g d ds
  proof -
    have m: "map opener (drop (ss_idx s) (ss_ids s)) = Inr d # map (\<lambda>(g, d). Inr d) ds" and g: "\<not> g" "\<forall>(g, d) \<in> set ds. \<not> g"
      using that by (simp_all add: slice_yields_def)
    then have i: "ss_idx s < length (ss_ids s)"
      by (metis drop_all list.simps(3) list.simps(8) not_less)
    then have "opener (ss_ids s ! ss_idx s) = Inr d" "map opener (drop (Suc (ss_idx s)) (ss_ids s)) = map (\<lambda>(g, d). Inr d) ds"
      using m by (simp_all add: Cons_nth_drop_Suc [OF i, symmetric])
    then show ?thesis
      using i g by (simp add: slice_api_def slice_Next_def gapped_def slice_yields_def)
  qed
  show "\<exists>s'. so_Next (slice_api opener) s = (Inl EOF, s')" if "slice_yields opener s []" for s
    using that by (simp add: slice_yields_def slice_api_def slice_Next_def)
qed

interpretation files: chained "fmp4_api srt uj" "fmp4_opened srt uj" "fmp4_reading srt uj" "slice_api opener" "slice_yields opener"
  for srt uj opener ..

text \<open>A chain over opened files, started as its contract asks, returns the replay of the files.\<close>

lemma chain_files:
  assumes ids: "map opener ids = map Inr ds" and first: "fmp4_opened srt uj d0 ss0 ps0 e0"
    and rest: "list_all2 (\<lambda>(ss, ps, e) d. fmp4_opened srt uj d ss ps e) segs ds"
    and r: "replay 0 0 False None (Some ss0) ps0 e0 (map (Pair False) segs) = (out, r)"
  shows "\<exists>c n. chain_GetCodecs (fmp4_api srt uj) (NewChainingDemuxer d0 (SliceSource ids)) = (Inr ss0, c) \<and>
    chainDrain (fmp4_api srt uj) (slice_api opener) n c = Some (out, Some r)"
proof -
  obtain d where d: "dx_GetCodecs (fmp4_api srt uj) d0 = (Inr ss0, d)" "fmp4_reading srt uj d ps0 e0"
    using fmp4.opens [OF first] by blast
  let ?c = "(NewChainingDemuxer d0 (SliceSource ids))\<lparr>c_cur := Some d, c_prevStreams := Some ss0\<rparr>"
  have len: "length segs = length ds"
    using rest by (rule list_all2_lengthD)
  then have "map2 (\<lambda>(g, _) d. (g, d)) (map (Pair False) segs) ds = map (Pair False) ds"
    by (induction segs ds rule: list_induct2) simp_all
  moreover have "slice_yields opener (SliceSource ids) (map (Pair False) ds)"
    using ids by (simp add: slice_yields_def SliceSource_def comp_def)
  moreover have "list_all2 (\<lambda>(g, ss, qs, r) d. fmp4_opened srt uj d ss qs r) (map (Pair False) segs) ds"
    using rest by (simp add: list_all2_map1)
  ultimately have "chainDrain (fmp4_api srt uj) (slice_api opener) (Suc (length out)) ?c = Some (out, Some r)"
    using files.drains [of ?c d srt uj ps0 e0 opener "map (Pair False) segs" ds out r] d(2) r len
    by (simp add: NewChainingDemuxer_def)
  then show ?thesis
    using d(1) by (intro exI [of _ ?c] exI [of _ "Suc (length out)"] conjI) (simp add: chain_GetCodecs_def NewChainingDemuxer_def)
qed

lemma sorted_times: "sorted (map DTS out) = sorted (map snd (map (\<lambda>p. (content p, DTS p)) out))"
  by (simp add: comp_def)

text \<open>
  C4.  Playing back a chain of files.  If the files of a list can be opened and read to their end, the packets
  of each in the order of their times from 0 on, and all of them together last less than 2^63 ns, then
  the chain returns the streams of the first file, then the packets of all files in order and unchanged but for their
  times and the marks of the chain, and then \<^verbatim>\<open>io.EOF\<close>.  The times of a file are shifted by the sum of the durations of the
  files before it, so they never decrease.
\<close>

theorem chain_playback:
  assumes ids: "map opener ids = map Inr ds"
    and op: "list_all2 (\<lambda>(ss, ps) d. fmp4_opened srt uj d ss ps EOF) segs (d0 # ds)"
    and timed: "list_all (well_timed \<circ> snd) segs" and small: "sum_list (map (span \<circ> snd) segs) < 2 ^ 63"
  shows "\<exists>c n out. chain_GetCodecs (fmp4_api srt uj) (NewChainingDemuxer d0 (SliceSource ids)) = (Inr (fst (hd segs)), c) \<and>
    chainDrain (fmp4_api srt uj) (slice_api opener) n c = Some (out, Some EOF) \<and>
    map (\<lambda>p. (content p, DTS p)) out = concat (map2 shifted (offsetsFrom 0 (map snd segs)) (map snd segs)) \<and>
    sorted (map DTS out)"
proof -
  obtain ss0 ps0 rest where segs: "segs = (ss0, ps0) # rest" and first: "fmp4_opened srt uj d0 ss0 ps0 EOF"
    and op: "list_all2 (\<lambda>(ss, ps) d. fmp4_opened srt uj d ss ps EOF) rest ds"
    using op by (auto simp: list_all2_Cons2)
  let ?S = "map (\<lambda>(ss, ps). (ss, ps, EOF)) rest"
  have snds: "map (\<lambda>(g, ss, ps, e). ps) (map (Pair False) ?S) = map snd rest"
    by (simp add: comp_def case_prod_unfold)
  obtain out and r :: "demux_error read_error" where out: "replay 0 0 False None (Some ss0) ps0 EOF (map (Pair False) ?S) = (out, r)"
    by fastforce
  have "r = EOF \<and> map (\<lambda>p. (content p, DTS p)) out = concat (map2 shifted (offsetsFrom 0 (ps0 # map snd rest)) (ps0 # map snd rest))"
    using replay_offsets [of 0 0 ps0 "map (Pair False) ?S" False None "Some ss0" out r, unfolded snds] out timed small
    by (simp add: segs span_nonneg list_all_iff comp_def case_prod_unfold)
  moreover from this have "sorted (map DTS out)"
    using shifted_sorted(1) [of "map snd segs" 0] timed sorted_times [of out] by (simp add: segs list_all_iff)
  moreover have "list_all2 (\<lambda>(ss, ps, e) d. fmp4_opened srt uj d ss ps e) ?S ds"
    using op by (simp add: list_all2_map1 case_prod_unfold)
  ultimately show ?thesis
    using chain_files [OF ids first, of ?S out r] out by (simp add: segs) blast
qed

text \<open>A file with an empty moov box, behind which packets are already buffered.\<close>

definition ex_segment :: "packet list \<Rightarrow> Demuxer" where
  "ex_segment ps = (NewDemuxer [0, 0, 0, 8, 0x6d, 0x6f, 0x6f, 0x76] True)\<lparr>d_pending := ps\<rparr>"

definition ex_part :: "int \<Rightarrow> packet list" where
  "ex_part n = [zero_packet\<lparr>DTS := 0, Duration := n\<rparr>, zero_packet\<lparr>DTS := n, Duration := n\<rparr>]"

lemma ex_segment_opened: "fmp4_opened (sort_key DTS) (\<lambda>_. None) (ex_segment (ex_part 40)) [] (ex_part 40) EOF"
proof -
  have "case GetCodecs (ex_segment (ex_part 40)) of (Inr ss, d) \<Rightarrow> ss = [] \<and>
      drain (sort_key DTS) (\<lambda>_. None) 3 d = (ex_part 40, Some DEOF) | _ \<Rightarrow> False"
    by code_simp
  then show ?thesis
    by (auto simp: fmp4_opened_def fmp4_reading_def readError_def split: prod.splits sum.splits)
qed

theorem chain_playback_witness:
  "\<exists>c n out. chain_GetCodecs (fmp4_api (sort_key DTS) (\<lambda>_. None))
      (NewChainingDemuxer (ex_segment (ex_part 40)) (SliceSource [''b''])) = (Inr [], c) \<and>
    chainDrain (fmp4_api (sort_key DTS) (\<lambda>_. None)) (slice_api (\<lambda>_. Inr (ex_segment (ex_part 40)))) n c = Some (out, Some EOF) \<and>
    map DTS out = [0, 40, 80, 120]"
proof -
  have t: "well_timed (ex_part 40)" "span (ex_part 40) = 80"
    by (simp_all add: well_timed_def span_def ex_part_def zero_packet_def)
  obtain c n out where c: "chain_GetCodecs (fmp4_api (sort_key DTS) (\<lambda>_. None))
      (NewChainingDemuxer (ex_segment (ex_part 40)) (SliceSource [''b''])) = (Inr [], c)"
    "chainDrain (fmp4_api (sort_key DTS) (\<lambda>_. None)) (slice_api (\<lambda>_. Inr (ex_segment (ex_part 40)))) n c = Some (out, Some EOF)"
    "map (\<lambda>p. (content p, DTS p)) out = shifted 0 (ex_part 40) @ shifted 80 (ex_part 40)"
    using chain_playback [of "\<lambda>_. Inr (ex_segment (ex_part 40))" "[''b'']" "[ex_segment (ex_part 40)]" "sort_key DTS" "\<lambda>_. None"
        "[([], ex_part 40), ([], ex_part 40)]" "ex_segment (ex_part 40)"] ex_segment_opened t by auto
  have "map DTS out = map snd (map (\<lambda>p. (content p, DTS p)) out)"
    by (simp add: comp_def)
  then have "map DTS out = [0, 40, 80, 120]"
    by (simp only: c(3)) (simp add: shifted_def ex_part_def)
  then show ?thesis
    by (intro exI conjI) (rule c(1), rule c(2))
qed

end
