(* ===== verification/Recording_Chain.thy ===== *)
theory Recording_Chain
  imports Segment_Playback Chain
begin

text \<open>
  From the queue of a recording consumer through its segment files to the packets a chaining demuxer plays back
  from them: the composition of \<^verbatim>\<open>av/relayhub/consumer.go\<close>, \<^verbatim>\<open>av/segment\<close>, \<^verbatim>\<open>av/format/fmp4\<close> and \<^verbatim>\<open>av/chain\<close>.
\<close>

subsection \<open>What a header decides\<close>

text \<open>The tracks of a muxer after the header, whatever it writes to.\<close>

definition headerTracks :: "stream list \<Rightarrow> Muxer" where
  "headerTracks hs = addTracks (NewMuxer ex_writer) 1 hs"

lemma addTracks_writer: "addTracks (m\<lparr>m_w := w\<rparr>) n hs = (addTracks m n hs)\<lparr>m_w := w\<rparr>"
proof (induction hs arbitrary: m n)
  case (Cons s hs)
  show ?case
  proof (cases "newTrackState s n")
    case (Some ts)
    let ?m = "m\<lparr>m_tracks := m_tracks m @ [ts], m_trackMap := (m_trackMap m)(s_Idx s \<mapsto> length (m_tracks m))\<rparr>"
    have eq: "(m\<lparr>m_w := w\<rparr>)\<lparr>m_tracks := m_tracks (m\<lparr>m_w := w\<rparr>) @ [ts],
        m_trackMap := (m_trackMap (m\<lparr>m_w := w\<rparr>))(s_Idx s \<mapsto> length (m_tracks (m\<lparr>m_w := w\<rparr>)))\<rparr> = ?m\<lparr>m_w := w\<rparr>"
      by simp
    show ?thesis
      by (simp only: addTracks.simps Some option.case eq Cons.IH)
  qed (simp add: Cons.IH)
qed simp

lemma WriteHeader_headerTracks:
  assumes "WriteHeader (NewMuxer w) hs = Some (None, m0)"
  shows "m_tracks m0 = m_tracks (headerTracks hs)" "m_trackMap m0 = m_trackMap (headerTracks hs)"
    "hasVideoTracks m0 = hasVideoTracks (headerTracks hs)"
proof -
  let ?m1 = "addTracks (NewMuxer w) 1 hs"
  have "NewMuxer w = (NewMuxer ex_writer)\<lparr>m_w := w\<rparr>"
    by (simp add: NewMuxer_def)
  then have m1: "?m1 = (headerTracks hs)\<lparr>m_w := w\<rparr>"
    by (simp add: addTracks_writer headerTracks_def)
  obtain init m2 where e: "emit ?m1 init = (True, m2)"
    and m: "m0 = m2\<lparr>m_mediaStartPos := m_bytesWritten m2, m_written := True, m_waitingForKeyframe := hasVideoTracks m2\<rparr>"
    using assms by (auto simp: WriteHeader_def NewMuxer_def Let_def split: if_splits bind_splits prod.splits bool.splits)
  have "m_tracks m2 = m_tracks ?m1" "m_trackMap m2 = m_trackMap ?m1"
    using e by (auto simp: emit_def split: prod.splits bool.splits)
  then show "m_tracks m0 = m_tracks (headerTracks hs)" "m_trackMap m0 = m_trackMap (headerTracks hs)"
    "hasVideoTracks m0 = hasVideoTracks (headerTracks hs)"
    by (simp_all add: m m1 hasVideoTracks_def)
qed

text \<open>The payloads of stream \<open>k\<close> that a file of the packets \<open>ps\<close> holds.\<close>

definition recordedPayloads :: "(frame_analytics \<Rightarrow> bytes option) \<Rightarrow> stream list \<Rightarrow> nat \<Rightarrow> packet list \<Rightarrow> (bool \<times> bytes) multiset" where
  "recordedPayloads js hs k ps =
    (let m = headerTracks hs in mset (map (payloadOf (m_tracks m ! k))
       (accepted k (acceptedFrom js (m_trackMap m) (m_tracks m) (hasVideoTracks m) None ps))))"

lemma plays_opened:
  assumes "plays srt uj js seekable hs ps e f"
  shows "\<exists>out. fmp4_opened srt uj (NewDemuxer f seekable) (numberedStreams (map s_Codec (filter supported hs))) out (readError e) \<and>
    (\<forall>k < length (m_tracks (headerTracks hs)). streamPayloads k out = recordedPayloads js hs k ps)"
proof -
  obtain dsk m0 acc d out n where h: "WriteHeader (NewMuxer dsk) hs = Some (None, m0)"
    and acc: "acc = acceptedFrom js (m_trackMap m0) (m_tracks m0) (hasVideoTracks m0) None ps"
    and g: "GetCodecs (NewDemuxer f seekable) = (Inr (numberedStreams (map s_Codec (filter supported hs))), d)"
      "drain srt uj n d = (out, Some e)"
    and p: "\<forall>k < length (m_tracks m0). streamPayloads k out = mset (map (payloadOf (m_tracks m0 ! k)) (accepted k acc))"
    using assms by (auto simp: plays_def)
  then show ?thesis
    using WriteHeader_headerTracks [OF h]
    by (intro exI [of _ out]) (auto simp: fmp4_opened_def fmp4_reading_def recordedPayloads_def Let_def acc)
qed

subsection \<open>The payloads of a chain\<close>

text \<open>The segments a chain reads, up to the first that ends with an error other than the end of the file.\<close>

fun readable :: "('a \<times> 'e read_error) list \<Rightarrow> 'a list \<times> 'e read_error" where
  "readable [] = ([], EOF)"
| "readable ((x, ReadErr e) # xs) = ([x], ReadErr e)"
| "readable ((x, EOF) # xs) = (x # fst (readable xs), snd (readable xs))"

lemma streamPayloads_splice: "streamPayloads k (splice off disc pend p # ps) = streamPayloads k (p # ps)"
  by (simp add: streamPayloads_def splice_def)

lemma streamPayloads_Cons: "streamPayloads k (p # ps) = streamPayloads k [p] + streamPayloads k ps"
  using streamPayloads_append(1) [of k "[p]" ps] by simp

definition segmentsRead :: "packet list \<Rightarrow> 'e read_error \<Rightarrow> (bool \<times> stream list \<times> packet list \<times> 'e read_error) list \<Rightarrow>
    packet list list \<times> 'e read_error" where
  "segmentsRead ps e segs = readable ((ps, e) # map (\<lambda>(g, ss, ps, e). (ps, e)) segs)"

lemma replay_payloads:
  assumes "replay off until disc pend prev ps e segs = (out, r)"
  shows "r = snd (segmentsRead ps e segs) \<and> streamPayloads k out = sum_list (map (streamPayloads k) (fst (segmentsRead ps e segs)))"
  using assms
proof (induction off until disc pend prev ps e segs arbitrary: out r rule: replay.induct)
  case (1 off until disc pend prev p ps e segs)
  let ?q = "splice off disc pend p"
  obtain out1 where out1: "out = ?q # out1" "replay off (max until (wrap64 (DTS ?q + Duration ?q))) False None prev ps e segs = (out1, r)"
    using 1(2) by (auto simp: Let_def split: prod.splits)
  have "r = snd (segmentsRead ps e segs) \<and> streamPayloads k out1 = sum_list (map (streamPayloads k) (fst (segmentsRead ps e segs)))"
    using 1(1) [OF refl out1(2)] by simp
  moreover have "streamPayloads k out = streamPayloads k [p] + streamPayloads k out1"
    using streamPayloads_Cons [of k p out1] by (simp add: out1(1) streamPayloads_splice)
  ultimately show ?case
    using streamPayloads_Cons [of k p ps] by (cases e) (simp_all add: segmentsRead_def add.assoc)
qed (simp_all add: segmentsRead_def)

lemma readable_prefix:
  assumes "list_all2 R xs ys" and "length es = length xs"
  shows "snd (readable (zip xs es)) = snd (readable (zip ys es)) \<and> list_all2 R (fst (readable (zip xs es))) (fst (readable (zip ys es)))"
  using assms
proof (induction xs ys arbitrary: es rule: list_all2_induct)
  case (Cons x xs y ys)
  then obtain e es' where "es = e # es'" "length es' = length xs"
    by (cases es) auto
  then show ?case
    using Cons by (cases e) (auto split: prod.splits)
qed simp

subsection \<open>From the queue to the chain\<close>

lemma list_all2_choice: "list_all2 (\<lambda>x y. \<exists>e. P x y e) xs ys \<Longrightarrow> \<exists>es. length es = length xs \<and> list_all2 (\<lambda>x (y, e). P x y e) xs (zip ys es)"
proof (induction xs ys rule: list_all2_induct)
  case (Cons x xs y ys)
  then obtain e es where "P x y e" "length es = length xs" "list_all2 (\<lambda>x (y, e). P x y e) xs (zip ys es)"
    by blast
  then show ?case
    by (intro exI [of _ "e # es"]) simp
qed simp

lemma files_opened:
  assumes "list_all2 (\<lambda>f (ps, e). plays_or_large srt uj js seekable maxB pre hs ps e f) fs (zip blocks es)"
    and "list_all (session_ok js hs) blocks" and "length es = length fs" and "length blocks = length fs"
  shows "\<exists>outs. length outs = length blocks \<and> list_all2 (\<lambda>(ps, e) f. fmp4_opened srt uj (NewDemuxer f seekable)
      (numberedStreams (map s_Codec (filter supported hs))) ps (readError e)) (zip outs es) fs \<and>
    list_all2 (\<lambda>out ps. \<forall>k < length (m_tracks (headerTracks hs)). streamPayloads k out = recordedPayloads js hs k ps) outs blocks"
  using assms
proof (induction fs arbitrary: blocks es)
  case (Cons f fs)
  obtain ps blocks' e es' where b: "blocks = ps # blocks'" "es = e # es'"
    using Cons.prems(3,4) by (cases blocks; cases es) auto
  have "plays srt uj js seekable hs ps e f"
    using Cons.prems(1,2) by (auto simp: b plays_or_large_def)
  then obtain out where out: "fmp4_opened srt uj (NewDemuxer f seekable) (numberedStreams (map s_Codec (filter supported hs))) out (readError e)"
    "\<forall>k < length (m_tracks (headerTracks hs)). streamPayloads k out = recordedPayloads js hs k ps"
    using plays_opened by blast
  obtain outs where "length outs = length blocks'" "list_all2 (\<lambda>(ps, e) f. fmp4_opened srt uj (NewDemuxer f seekable)
      (numberedStreams (map s_Codec (filter supported hs))) ps (readError e)) (zip outs es') fs"
    "list_all2 (\<lambda>out ps. \<forall>k < length (m_tracks (headerTracks hs)). streamPayloads k out = recordedPayloads js hs k ps) outs blocks'"
    using Cons.IH [of blocks' es'] Cons.prems by (auto simp: b)
  then show ?case
    using out by (intro exI [of _ "out # outs"]) (simp add: b)
qed simp

lemma sum_payloads:
  "list_all2 (\<lambda>out ps. \<forall>k < n. streamPayloads k out = P k ps) outs blocks \<Longrightarrow> k < n \<Longrightarrow>
   sum_list (map (streamPayloads k) outs) = sum_list (map (P k) blocks)"
  by (induction outs blocks rule: list_all2_induct) auto

text \<open>A chain over files that were opened with the streams \<open>ss\<close>.\<close>

lemma chain_of_files:
  assumes op: "list_all2 (\<lambda>(ps, e) f. fmp4_opened srt uj (NewDemuxer f seekable) ss ps (readError e)) (zip outs es) fs"
    and len: "length outs = length fs" "length es = length fs" "fs \<noteq> []"
    and ids: "map opener ids = map (\<lambda>f. Inr (NewDemuxer f seekable)) (tl fs)"
  shows "\<exists>c n out. chain_GetCodecs (fmp4_api srt uj) (NewChainingDemuxer (NewDemuxer (hd fs) seekable) (SliceSource ids)) = (Inr ss, c) \<and>
    chainDrain (fmp4_api srt uj) (slice_api opener) n c = Some (out, Some (snd (readable (zip outs (map readError es))))) \<and>
    (\<forall>k. streamPayloads k out = sum_list (map (streamPayloads k) (fst (readable (zip outs (map readError es))))))"
proof -
  obtain f fs' out0 outs' e es' where parts: "fs = f # fs'" "outs = out0 # outs'" "es = e # es'"
    using len by (cases fs; cases outs; cases es) auto
  let ?S = "map (\<lambda>(ps, e). (ss, ps, readError e)) (zip outs' es')"
  obtain out and r :: "demux_error read_error" where out: "replay 0 0 False None (Some ss) out0 (readError e) (map (Pair False) ?S) = (out, r)"
    by fastforce
  have "map (\<lambda>(g, ss, ps, e). (ps, e)) (map (Pair False) ?S) = zip outs' (map readError es')"
    by (simp add: zip_map2 comp_def case_prod_unfold)
  then have "segmentsRead out0 (readError e) (map (Pair False) ?S) = readable (zip outs (map readError es))"
    by (simp only: segmentsRead_def parts list.simps zip_Cons_Cons)
  then have r: "r = snd (readable (zip outs (map readError es)))"
    "\<forall>k. streamPayloads k out = sum_list (map (streamPayloads k) (fst (readable (zip outs (map readError es)))))"
    using replay_payloads [OF out] by simp_all
  have rest: "list_all2 (\<lambda>(ss, ps, e) d. fmp4_opened srt uj d ss ps e) ?S (map (\<lambda>f. NewDemuxer f seekable) fs')"
    using op by (simp add: parts list_all2_map1 list_all2_map2 case_prod_unfold)
  have first: "fmp4_opened srt uj (NewDemuxer f seekable) ss out0 (readError e)"
    using op by (simp add: parts)
  have ds: "map opener ids = map Inr (map (\<lambda>f. NewDemuxer f seekable) fs')"
    using ids by (simp add: parts comp_def)
  show ?thesis
    using chain_files [OF ds first rest out] r unfolding parts(1) list.sel by blast
qed

text \<open>
  C2.  A recording is played back by a chain.  Let a consumer with segment muxers on empty disks work through its queue,
  and let a chaining demuxer be opened on the files it leaves.  Then the queue is the concatenation of one block per
  file.  If every block is within the limits of a recording, the chain returns the streams of the header and then,
  for every stream, exactly the payloads of all blocks that passed the keyframe gate, and \<^verbatim>\<open>io.EOF\<close>: unless some file
  has one to seven unused bytes.  Then it stops behind the first such file with \<^verbatim>\<open>io.ErrUnexpectedEOF\<close>, and the blocks of the
  later files are not returned.
\<close>

theorem recording_chain:
  assumes run: "cons_run (seg_api js now True maxB pre) hs pkts w = (None, w', r)"
    and disks: "list_all empty_disk (sw_disks w)" and files: "sw_files w = []"
    and pre: "pre < 2 ^ 32" and perm: "\<forall>ps. mset (srt ps) = mset ps"
    and ids: "map opener ids = map (\<lambda>f. Inr (NewDemuxer f seekable)) (tl (sw_files w'))"
  shows "\<exists>blocks es. concat blocks = pkts \<and> length blocks = length (sw_files w') \<and>
    list_all2 (\<lambda>f e. \<exists>contents. f = contents @ writeFreeBox True (unusedBytes maxB pre contents) \<and>
      e = padEnd (unusedBytes maxB pre contents)) (sw_files w') es \<and>
    (list_all (session_ok js hs) blocks \<longrightarrow>
      (\<exists>c n out. chain_GetCodecs (fmp4_api srt uj) (NewChainingDemuxer (NewDemuxer (hd (sw_files w')) seekable) (SliceSource ids)) =
          (Inr (numberedStreams (map s_Codec (filter supported hs))), c) \<and>
        chainDrain (fmp4_api srt uj) (slice_api opener) n c = Some (out, Some (snd (readable (zip blocks (map readError es))))) \<and>
        (\<forall>k < length (m_tracks (headerTracks hs)). streamPayloads k out =
          sum_list (map (recordedPayloads js hs k) (fst (readable (zip blocks (map readError es))))))))"
proof -
  let ?fs = "sw_files w'"
  obtain blocks where b: "blocks \<noteq> []" "concat blocks = pkts"
    and fs: "list_all2 (\<lambda>f ps. \<exists>e. plays_or_large srt uj js seekable maxB pre hs ps e f) ?fs blocks"
    using run_files [OF run disks files pre perm] by blast
  obtain es where es: "length es = length ?fs" "list_all2 (\<lambda>f (ps, e). plays_or_large srt uj js seekable maxB pre hs ps e f) ?fs (zip blocks es)"
    using list_all2_choice [OF fs] by blast
  have len: "length blocks = length ?fs"
    using list_all2_lengthD [OF fs] by simp
  have "list_all2 (\<lambda>f e. \<exists>contents. f = contents @ writeFreeBox True (unusedBytes maxB pre contents) \<and>
      e = padEnd (unusedBytes maxB pre contents)) ?fs es"
    using es(2) es(1) len unfolding list_all2_conv_all_nth by (simp add: plays_or_large_def) metis
  moreover have "\<exists>c n out. chain_GetCodecs (fmp4_api srt uj) (NewChainingDemuxer (NewDemuxer (hd ?fs) seekable) (SliceSource ids)) =
          (Inr (numberedStreams (map s_Codec (filter supported hs))), c) \<and>
        chainDrain (fmp4_api srt uj) (slice_api opener) n c = Some (out, Some (snd (readable (zip blocks (map readError es))))) \<and>
        (\<forall>k < length (m_tracks (headerTracks hs)). streamPayloads k out =
          sum_list (map (recordedPayloads js hs k) (fst (readable (zip blocks (map readError es))))))"
    if ok: "list_all (session_ok js hs) blocks"
  proof -
    obtain outs where outs: "length outs = length blocks" "list_all2 (\<lambda>(ps, e) f. fmp4_opened srt uj (NewDemuxer f seekable)
        (numberedStreams (map s_Codec (filter supported hs))) ps (readError e)) (zip outs es) ?fs"
      "list_all2 (\<lambda>out ps. \<forall>k < length (m_tracks (headerTracks hs)). streamPayloads k out = recordedPayloads js hs k ps) outs blocks"
      using files_opened [OF es(2) ok es(1) len] by blast
    have pre: "snd (readable (zip outs (map readError es))) = snd (readable (zip blocks (map readError es)))"
      "list_all2 (\<lambda>out ps. \<forall>k < length (m_tracks (headerTracks hs)). streamPayloads k out = recordedPayloads js hs k ps)
        (fst (readable (zip outs (map readError es)))) (fst (readable (zip blocks (map readError es))))"
      using readable_prefix [OF outs(3), of "map readError es"] outs(1) es(1) len by simp_all
    have "length outs = length ?fs" "?fs \<noteq> []"
      using b(1) len outs(1) by auto
    from chain_of_files [OF outs(2) this(1) es(1) this(2) ids] show ?thesis
      using sum_payloads [OF pre(2)] unfolding pre(1) by metis
  qed
  ultimately show ?thesis
    using b(2) len by blast
qed

text \<open>Names for any list of files, and how they are opened.\<close>

definition ex_names :: "'a list \<Rightarrow> string list" where
  "ex_names fs = map (\<lambda>i. replicate i CHR ''x'') [0..<length fs]"

definition ex_open :: "bytes list \<Rightarrow> string \<Rightarrow> demux_error read_error + Demuxer" where
  "ex_open fs name = Inr (NewDemuxer (fs ! length name) True)"

lemma ex_open_names: "map (ex_open fs) (ex_names fs) = map (\<lambda>f. Inr (NewDemuxer f True)) fs"
  by (rule nth_equalityI) (simp_all add: ex_names_def ex_open_def)

definition ex_keyed :: "packet list" where
  "ex_keyed = map (\<lambda>p. p\<lparr>KeyFrame := True\<rparr>) ex_packets"

lemma ex_keyed_ok: "session_ok (\<lambda>_. None) ex_streams ex_keyed"
  using ex_session_ok by (simp add: session_ok_def ex_keyed_def ex_packets_def)

theorem recording_chain_witness:
  "\<exists>w' r blocks es opener ids c n out.
    cons_run (seg_api (\<lambda>_. None) 0 True 1 2000) ex_streams ex_keyed ex_disks = (None, w', r) \<and>
    concat blocks = ex_keyed \<and> length blocks = length (sw_files w') \<and>
    chain_GetCodecs (fmp4_api (sort_key DTS) (\<lambda>_. None))
      (NewChainingDemuxer (NewDemuxer (hd (sw_files w')) True) (SliceSource ids)) =
      (Inr (numberedStreams (map s_Codec (filter supported ex_streams))), c) \<and>
    chainDrain (fmp4_api (sort_key DTS) (\<lambda>_. None)) (slice_api opener) n c =
      Some (out, Some (snd (readable (zip blocks (map readError es)))))"
proof -
  have d: "list_all empty_disk (sw_disks ex_disks)" "sw_files ex_disks = []" "length ex_keyed < length (sw_disks ex_disks)"
    by (simp_all add: ex_disks_def empty_disk_def ex_writer_def ex_keyed_def ex_packets_def)
  obtain w' r where run: "cons_run (seg_api (\<lambda>_. None) 0 True 1 2000) ex_streams ex_keyed ex_disks = (None, w', r)"
    using seg_run_completes [OF d(1,3) ex_run(3,4)] by blast
  have pre: "(2000 :: int) < 2 ^ 32" and perm: "\<forall>ps. mset (sort_key DTS ps) = mset (ps :: packet list)"
    by simp_all
  let ?fs = "tl (sw_files w')"
  obtain blocks es where b: "concat blocks = ex_keyed" "length blocks = length (sw_files w')"
    and c: "list_all (session_ok (\<lambda>_. None) ex_streams) blocks \<longrightarrow> (\<exists>c n out. chain_GetCodecs (fmp4_api (sort_key DTS) (\<lambda>_. None))
      (NewChainingDemuxer (NewDemuxer (hd (sw_files w')) True) (SliceSource (ex_names ?fs))) =
        (Inr (numberedStreams (map s_Codec (filter supported ex_streams))), c) \<and>
      chainDrain (fmp4_api (sort_key DTS) (\<lambda>_. None)) (slice_api (ex_open ?fs)) n c =
        Some (out, Some (snd (readable (zip blocks (map readError es))))))"
    using recording_chain [OF run d(1,2) pre perm ex_open_names, of "\<lambda>_. None"] by blast
  have "list_all (session_ok (\<lambda>_. None) ex_streams) blocks"
    using session_ok_blocks [of _ _ blocks] ex_keyed_ok b(1) by (simp add: list_all_iff)
  then show ?thesis
    using c run b by (intro exI [of _ w'] exI [of _ r] exI [of _ blocks] exI [of _ es] exI [of _ "ex_open ?fs"] exI [of _ "ex_names ?fs"]) simp
qed

end
