(* ===== verification/Spec2Isabelle.thy ===== *)
theory Spec2Isabelle
  imports Pio Flac_Frame Fmp4_Typed Mp4_Playback Llhls_Playback Fmp4_Hostile Rtsp_Track Relay_Races Recording_Chain
begin

text \<open>
  Verification of the media core of \<^verbatim>\<open>vrtc-sdk\<close>.  All paths are below \<^verbatim>\<open>src/\<close>.

  \<^bold>\<open>Parts.\<close>  A demuxer or an RTP session produces packets; codec parsers turn parameter sets and audio
  configurations into codec data; muxers write packets and codec data into containers, of which
  fragmented MP4 (fMP4) is the one used for recording.  The theories follow this structure.

  \<^item> \<^verbatim>\<open>Prelude\<close>: byte strings, big-endian fields, 64-bit wrap-around of Go integers, generic lemmas.
  \<^item> \<^verbatim>\<open>Av_Types\<close> (\<^verbatim>\<open>av/av.go\<close>, \<^verbatim>\<open>av/packet.go\<close>, \<^verbatim>\<open>av/audioframe.go\<close>, \<^verbatim>\<open>av/pva.go\<close>): codec types, packets, streams.
  \<^item> \<^verbatim>\<open>Bits\<close>, \<^verbatim>\<open>Golomb\<close>, \<^verbatim>\<open>Pio\<close> (\<^verbatim>\<open>av/utils/bits\<close>): bit readers and writers, Exp-Golomb codes,
    fixed-width integers, scattered buffers.  The readers and writers meet in the locales
    \<^verbatim>\<open>bit_source\<close>, \<^verbatim>\<open>bit_sink\<close> and \<^verbatim>\<open>bit_channel\<close>, interpreted on both implementations.
  \<^item> \<^verbatim>\<open>H264_Sps\<close>, \<^verbatim>\<open>H265\<close>, \<^verbatim>\<open>Aac\<close>, \<^verbatim>\<open>Flac\<close> (\<^verbatim>\<open>av/codec\<close>): parameter sets, configuration records, codec data.
    Bit streams of the standards are lists of booleans; the judgement \<^verbatim>\<open>reads f x bs\<close> says that a parser
    consumes exactly \<open>bs\<close> and returns \<open>x\<close>, and composes along the monadic bind of the parsers.
  \<^item> \<^verbatim>\<open>Boxes\<close>, \<^verbatim>\<open>Fmp4_Fragment\<close>, \<^verbatim>\<open>Fmp4_Init\<close>, \<^verbatim>\<open>Fmp4_Mux\<close> (\<^verbatim>\<open>av/format/fmp4/muxer.go\<close>): box builders,
    initialisation segment, the state machine of \<^verbatim>\<open>Muxer\<close>.
  \<^item> \<^verbatim>\<open>Fmp4_Parse\<close>, \<^verbatim>\<open>Fmp4_Roundtrip\<close>, \<^verbatim>\<open>Fmp4_Index\<close> (\<^verbatim>\<open>av/format/fmp4/demuxer.go\<close>): parsers and round trips.
  \<^item> \<^verbatim>\<open>Fmp4_Mux_Inv\<close>: the ledger invariant of the muxer and conservation of samples.
  \<^item> \<^verbatim>\<open>Fmp4_Demux\<close> (\<^verbatim>\<open>av/format/fmp4/demuxer.go\<close>): the state machine of \<^verbatim>\<open>Demuxer\<close> on a file of bytes.
  \<^item> \<^verbatim>\<open>Fmp4_Session\<close>, \<^verbatim>\<open>Fmp4_Seek\<close>: the demuxer on the output of the muxer, reading to the end and seeking; the
    predicate \<^verbatim>\<open>recorded\<close> joins the two sides.  \<^verbatim>\<open>Fmp4_Hostile\<close>: a fragment no muxer writes.
  \<^item> \<^verbatim>\<open>Packet_Buffer\<close> (\<^verbatim>\<open>av/packetbuf/buffer.go\<close>, \<^verbatim>\<open>av/segment/ringbuf.go\<close>): the sliding windows, as
    interpretations of the locales \<^verbatim>\<open>sliding_window\<close> and \<^verbatim>\<open>counted_window\<close>, and the interleaving of a buffer's
    writers and readers as a step relation with an invariant.
  \<^item> \<^verbatim>\<open>Nalu\<close> (\<^verbatim>\<open>av/codec/parser\<close>, \<^verbatim>\<open>nalu.go\<close> and \<^verbatim>\<open>convert.go\<close> of the H.264 and H.265 packages): framing,
    conversion and classification of NAL units.
  \<^item> \<^verbatim>\<open>Rtp_H264\<close>, \<^verbatim>\<open>Rtp_H265\<close>, \<^verbatim>\<open>Rtp_Aac\<close> (\<^verbatim>\<open>av/format/rtsp\<close>, \<^verbatim>\<open>av/codec/h265parser/rtp.go\<close>): the depacketizers, each
    against a sender that packetizes access units in any way its RFC allows.
  \<^item> \<^verbatim>\<open>Rtsp_Track\<close> (\<^verbatim>\<open>rtspTrack\<close> in \<^verbatim>\<open>av/format/rtsp/demuxer.go\<close>, \<^verbatim>\<open>rtcp.go\<close>): a track, which composes a depacketizer
    with the timeline and the wall clock of the sender reports.
  \<^item> \<^verbatim>\<open>Relay_Consumer\<close> (\<^verbatim>\<open>av/relayhub/consumer.go\<close>): a consumer, its queue and the goroutine that drives and rotates
    muxers.  What it needs of a muxer is the locale \<^verbatim>\<open>packet_sink\<close>, in which a run is shown to archive its queue
    block by block.
  \<^item> \<^verbatim>\<open>Relay\<close>, \<^verbatim>\<open>Relay_Inv\<close>, \<^verbatim>\<open>Relay_Races\<close> (\<^verbatim>\<open>av/relayhub/relay.go\<close>): the reading loop, attachment, removal and sweeps
    as actions that interleave at their critical sections; the invariant of all interleavings and the delivery
    it gives; the interleavings that go wrong, as executed traces, and the one from which no action leads out.
  \<^item> \<^verbatim>\<open>Segment\<close>, \<^verbatim>\<open>Segment_Playback\<close> (\<^verbatim>\<open>av/segment\<close>): the segment muxer, which interprets \<^verbatim>\<open>packet_sink\<close>, the padding and
    validation of its files, and the composition of consumer, segment muxer and demuxer.
  \<^item> \<^verbatim>\<open>Chain\<close>, \<^verbatim>\<open>Recording_Chain\<close> (\<^verbatim>\<open>av/chain/chain.go\<close>): the demuxer that plays segments one after the other.  What it
    needs of a segment is the locale \<^verbatim>\<open>packet_source\<close>, interpreted on the fMP4 demuxer, and of the list of segments
    \<^verbatim>\<open>segment_source\<close>, interpreted on \<^verbatim>\<open>sliceSource\<close>; \<^verbatim>\<open>chained\<close> joins them.  The last theory follows a packet from
    the queue of a consumer through segment files to the output of a chain.

  \<^bold>\<open>Conventions.\<close>  Go \<^verbatim>\<open>int\<close> and \<^verbatim>\<open>int64\<close> are \<^typ>\<open>int\<close> with \<^const>\<open>wrap64\<close> where a computation may overflow,
  unsigned integers are words, byte slices lists of bytes.  An error return is \<^const>\<open>None\<close> or \<^const>\<open>Inl\<close>.
  A panic is an error value of its own.  The writer of the muxer is a log of bytes with a script of
  failures.  \<^verbatim>\<open>json.Marshal\<close> is an argument of the operations that call it.  The loops that may not
  end, in \<^verbatim>\<open>buildDescriptor\<close> and over the segments of a chain, are partial functions whose non-termination is the
  value \<^const>\<open>None\<close>; that they return is part of the theorems about them.  Goroutines are
  actions on a shared state, one for each critical section or channel operation; an action that would wait is
  not enabled.  Histories that only the theorems read are fields of the state.  A file is the bytes written to it.

  \<^bold>\<open>Not modelled.\<close>  Logging, deadlines and the cancellation of callers' contexts, network and database access,
  generated protobuf code.
\<close>

section \<open>Recording and playing back\<close>



text \<open>
  C14.  Seeking in a recording that has no segment index: the file is the initialisation segment followed by
  fragments, and if the first fragment starts at or before the target, \<^verbatim>\<open>SeekToKeyframe\<close> succeeds and
  the packets read afterwards are those of a fragment \<open>f\<close> and of all fragments after it, where \<open>f\<close>
  and every fragment before it start at or before the target and the next one starts after it.  The
  analytics of \<open>f\<close> are not attached: the seek lands on its moof box, behind its event messages.
\<close>

theorem seek_recording:
  assumes "WriteHeader (NewMuxer w) streams = Some (None, m0)" and "w_out w = []"
    and "writePackets js m0 pkts = (None, m1)" and "WriteTrailer m1 = (None, m2)" and ok: "session_ok js streams pkts"
    and get: "GetCodecs (NewDemuxer (w_out (m_w m2)) True) = (Inr ss, d)"
  shows "\<exists>frags. w_out (m_w m2) = w_out (m_w m0) @ concat (map fragBytes frags) \<and>
    (frags \<noteq> [] \<and> fragStart (fragActive (hd frags)) \<le> target \<longrightarrow>
     (\<exists>before f after d' n. frags = before @ f # after \<and>
        (\<forall>g \<in> set (before @ [f]). fragStart (fragActive g) \<le> target) \<and>
        (after = [] \<or> target < fragStart (fragActive (hd after))) \<and>
        SeekToKeyframe d target = (None, d') \<and>
        drain srt uj n d' = (fragPacketsWith srt uj (d_tracksByID d) [] f @
          concat (map (fragPackets srt uj (d_tracksByID d)) after), Some DEOF)))"
proof -
  let ?T = "m_tracks m0" and ?I = "w_out (m_w m0)"
  obtain frags acc where r: "recorded ?T ?I frags acc m2"
    using session_recorded [OF assms(1-4) ok] by blast
  then have init: "buildInitSegment ?T = Some ?I" and tok: "tracks_ok ?T"
    and frag: "\<forall>f \<in> set frags. frag_ok (sessionTable ?T) f" and len: "length (?I @ concat (map fragBytes frags)) < 2 ^ 62"
    and mt: "\<forall>f \<in> set frags. \<forall>ts \<in> set (fragActive f). matches (sessionTable ?T) ts"
    and out: "w_out (m_w m2) = ?I @ concat (map fragBytes frags)"
    by (simp_all add: recorded_def ledger_def)
  have d: "reader_at d (concat (map fragBytes frags))" "d_tracksByID d = sessionTable ?T" "d_pendingCodecChange d = []"
    "d_mediaStartPos d = int (length ?I)" "d_seekable d" "d_file d = ?I @ concat (map fragBytes frags)" "d_sidx d = []"
    using GetCodecs_file [OF init tok len, of True] get out by auto
  have pos: "0 \<le> d_pos d"
    using d(1) by (simp add: reader_at_def)
  show ?thesis
  proof (rule exI [of _ frags], intro conjI out impI)
    assume first: "frags \<noteq> [] \<and> fragStart (fragActive (hd frags)) \<le> target"
    obtain before f after d' where s: "frags = before @ f # after"
        "\<forall>g \<in> set (before @ [f]). fragStart (fragActive g) \<le> target"
        "after = [] \<or> target < fragStart (fragActive (hd after))" "SeekToKeyframe d target = (None, d')"
        "reader_at d' (fragMoofMdat f @ concat (map fragBytes after))" "d_tracksByID d' = d_tracksByID d"
        "d_pending d' = []" "d_pendingEmsg d' = []" "d_pendingCodecChange d' = []"
      using SeekToKeyframe_fragments [OF d(5) d(7) pos _ d(4), of frags target] d frag mt first len by auto
    have "\<exists>n. drain srt uj n d' = (fragPacketsWith srt uj (d_tracksByID d') [] f @
          concat (map (fragPackets srt uj (d_tracksByID d')) after), Some DEOF)"
      using frag s(1,6) d(2) by (intro drain_from_moof [OF s(5) _ s(7,9,8)]) simp
    then show "\<exists>before f after d' n. frags = before @ f # after \<and>
        (\<forall>g \<in> set (before @ [f]). fragStart (fragActive g) \<le> target) \<and>
        (after = [] \<or> target < fragStart (fragActive (hd after))) \<and> SeekToKeyframe d target = (None, d') \<and>
        drain srt uj n d' = (fragPacketsWith srt uj (d_tracksByID d) [] f @
          concat (map (fragPackets srt uj (d_tracksByID d)) after), Some DEOF)"
      using s unfolding s(6) by blast
  qed
qed

theorem seek_recording_witness:
  "\<exists>(m0 :: Muxer) (m2 :: Muxer) ss d frags. GetCodecs (NewDemuxer (w_out (m_w m2)) True) = (Inr ss, d) \<and>
    w_out (m_w m2) = w_out (m_w m0) @ concat (map fragBytes frags) \<and>
    (frags \<noteq> [] \<and> fragStart (fragActive (hd frags)) \<le> second \<longrightarrow>
     (\<exists>before f after d' n. frags = before @ f # after \<and>
        (\<forall>g \<in> set (before @ [f]). fragStart (fragActive g) \<le> second) \<and>
        (after = [] \<or> second < fragStart (fragActive (hd after))) \<and>
        SeekToKeyframe d second = (None, d') \<and>
        drain (sort_key DTS) (\<lambda>_. None) n d' = (fragPacketsWith (sort_key DTS) (\<lambda>_. None) (d_tracksByID d) [] f @
          concat (map (fragPackets (sort_key DTS) (\<lambda>_. None) (d_tracksByID d)) after), Some DEOF)))"
proof -
  obtain m0 where m0: "WriteHeader (NewMuxer ex_writer) ex_streams = Some (None, m0)" "reliable m0" "m_written m0"
      "\<not> m_closed m0"
    using WriteHeader_reliable [OF ex_run(1,3,4)] by blast
  obtain m1 where m1: "writePackets (\<lambda>_. None) m0 ex_packets = (None, m1)" "reliable m1" "\<not> m_closed m1"
    using writePackets_reliable [OF m0(2-4)] by blast
  obtain m2 where m2: "WriteTrailer m1 = (None, m2)"
    using WriteTrailer_reliable [OF m1(2,3)] by blast
  note session = m0(1) ex_run(2) m1(1) m2 ex_session_ok
  obtain frags acc where r: "recorded (m_tracks m0) (w_out (m_w m0)) frags acc m2"
    using session_recorded [OF session] by blast
  then have "buildInitSegment (m_tracks m0) = Some (w_out (m_w m0))" "tracks_ok (m_tracks m0)"
    "length (w_out (m_w m0) @ concat (map fragBytes frags)) < 2 ^ 62" "w_out (m_w m2) = w_out (m_w m0) @ concat (map fragBytes frags)"
    by (simp_all add: recorded_def ledger_def)
  then obtain ss d where get: "GetCodecs (NewDemuxer (w_out (m_w m2)) True) = (Inr ss, d)"
    using GetCodecs_file [of "m_tracks m0" "w_out (m_w m0)" "concat (map fragBytes frags)" True] by auto
  show ?thesis
    using get seek_recording [OF session get, of second "sort_key DTS" "\<lambda>_. None"] by blast
qed

end
